(* ===== verification/Prelude.thy ===== *)
theory Prelude
  imports Main "HOL-Library.AList"
begin

text \<open>
  Shared vocabulary of the development: the result type of fallible code, the bounded integer
  operations of the Rust standard library, and the ordered containers (\<open>IndexSet\<close>, \<open>IndexMap\<close>,
  \<open>BTreeMap\<close>) as lists, with the lemmas every component uses.

  \<^item> An \<open>anyhow::Result\<close> is a sum: \<open>Inl\<close> an error, \<open>Inr\<close> a value.  An error is a \<open>Bail\<close> with
    the fixed part of the message (\<open>bail!\<close>, \<open>ensure!\<close>, \<open>?\<close>), a \<open>Panic\<close> (a failed \<open>unwrap\<close> or
    \<open>expect\<close>, a division by zero) or a \<open>Deadlock\<close> (a lock taken again by the thread that holds it).
  \<^item> Unsigned machine integers are natural numbers and signed ones integers.  Saturating and
    checked operations carry the bound of their width; the plain \<open>+\<close> and \<open>-\<close> of a release
    build, which wrap around, are \<open>u64_add\<close>, \<open>u64_sub\<close> and \<open>i64_add\<close>.
  \<^item> \<open>IndexSet\<close> and \<open>IndexMap\<close> keep insertion order: a set is a distinct list, a map an
    association list with distinct keys.  A \<open>BTreeMap\<close> is an association list sorted by its keys.
    A \<open>HashSet\<close> or \<open>HashMap\<close> is represented the same way; no result of the model that a theorem
    speaks about depends on the order such a list happens to have.
\<close>

named_theorems result_simps "equations and equivalences that decompose a fallible computation"
named_theorems index_simps "lookups and membership after an update of a container"

section \<open>Results and errors\<close>

datatype error = Bail string | Panic string | Deadlock

type_synonym 'a result = "error + 'a"

abbreviation Ok :: "'a \<Rightarrow> 'a result" where "Ok \<equiv> Inr"
abbreviation Err :: "error \<Rightarrow> 'a result" where "Err \<equiv> Inl"
abbreviation bail :: "string \<Rightarrow> 'a result" where "bail m \<equiv> Inl (Bail m)"

text \<open>The operator \<open>?\<close>: continue with the value, or return the error.\<close>

definition try_bind :: "'a result \<Rightarrow> ('a \<Rightarrow> 'b result) \<Rightarrow> 'b result" where
  "try_bind r f = (case r of Inl e \<Rightarrow> Inl e | Inr v \<Rightarrow> f v)"

text \<open>\<open>ensure!(b, m)\<close> followed by the rest of the function.\<close>

definition ensure :: "bool \<Rightarrow> string \<Rightarrow> 'a result \<Rightarrow> 'a result" where
  "ensure b m k = (if b then k else bail m)"

definition is_ok :: "'a result \<Rightarrow> bool" where
  "is_ok r = (case r of Inl _ \<Rightarrow> False | Inr _ \<Rightarrow> True)"

definition ok :: "'a result \<Rightarrow> 'a option" where
  "ok r = (case r of Inl _ \<Rightarrow> None | Inr v \<Rightarrow> Some v)"

definition unwrap_or :: "'a \<Rightarrow> 'a result \<Rightarrow> 'a" where
  "unwrap_or d r = (case r of Inl _ \<Rightarrow> d | Inr v \<Rightarrow> v)"

lemma try_bind_simps [simp]:
  "try_bind (Inl e) f = Inl e"
  "try_bind (Inr v) f = f v"
  by (simp_all add: try_bind_def)

lemma try_bind_Ok_iff [result_simps]:
  "try_bind r f = Inr y \<longleftrightarrow> (\<exists>x. r = Inr x \<and> f x = Inr y)"
  by (cases r) simp_all

lemma try_bind_Err_iff [result_simps]:
  "try_bind r f = Inl e \<longleftrightarrow> r = Inl e \<or> (\<exists>x. r = Inr x \<and> f x = Inl e)"
  by (cases r) simp_all

lemma ensure_Ok_iff [result_simps]: "ensure b m k = Inr y \<longleftrightarrow> b \<and> k = Inr y"
  by (simp add: ensure_def)

lemma ensure_Err_iff [result_simps]:
  "ensure b m k = Inl e \<longleftrightarrow> (\<not> b \<and> e = Bail m) \<or> (b \<and> k = Inl e)"
  by (auto simp: ensure_def)

lemma ensure_simps [simp]:
  "ensure True m k = k"
  "ensure False m k = Inl (Bail m)"
  by (simp_all add: ensure_def)

lemma is_ok_simps [simp]: "is_ok (Inl e) = False" "is_ok (Inr v) = True"
  by (simp_all add: is_ok_def)

lemma is_ok_iff [result_simps]: "is_ok r \<longleftrightarrow> (\<exists>v. r = Inr v)"
  by (cases r) simp_all

lemma ok_simps [simp]: "ok (Inl e) = None" "ok (Inr v) = Some v"
  by (simp_all add: ok_def)

lemma unwrap_or_simps [simp]: "unwrap_or d (Inl e) = d" "unwrap_or d (Inr v) = v"
  by (simp_all add: unwrap_or_def)

text \<open>A loop that stops at the first error.\<close>

fun try_fold :: "('a \<Rightarrow> 's \<Rightarrow> 's result) \<Rightarrow> 'a list \<Rightarrow> 's \<Rightarrow> 's result" where
  "try_fold f [] s = Ok s"
| "try_fold f (x # xs) s = try_bind (f x s) (try_fold f xs)"

lemma try_fold_append: "try_fold f (xs @ ys) s = try_bind (try_fold f xs s) (try_fold f ys)"
proof (induction xs arbitrary: s)
  case (Cons x xs)
  then show ?case by (cases "f x s") simp_all
qed simp

lemma try_fold_inv:
  assumes "try_fold f xs s = Ok s'" and "P s"
    and "\<And>x s s'. x \<in> set xs \<Longrightarrow> P s \<Longrightarrow> f x s = Ok s' \<Longrightarrow> P s'"
  shows "P s'"
  using assms
proof (induction xs arbitrary: s)
  case (Cons x xs)
  from Cons.prems(1) obtain t where t: "f x s = Ok t" "try_fold f xs t = Ok s'"
    by (auto simp: result_simps)
  have "P t" using Cons.prems(2,3) t(1) by auto
  with Cons.IH[OF t(2)] Cons.prems(3) show ?case by auto
qed simp

lemma try_fold_each: "try_fold f xs () = Ok () \<longleftrightarrow> (\<forall>x\<in>set xs. f x () = Ok ())"
  by (induction xs) (auto simp: result_simps)

section \<open>Machine integers\<close>

type_synonym u8 = nat
type_synonym u16 = nat
type_synonym u32 = nat
type_synonym u64 = nat
type_synonym u128 = nat
type_synonym usize = nat
type_synonym i64 = int
type_synonym i128 = int

definition u16_max :: nat where "u16_max = 65535"
definition u32_max :: nat where "u32_max = 4294967295"
definition u64_max :: nat where "u64_max = 18446744073709551615"
definition u128_max :: nat where "u128_max = 340282366920938463463374607431768211455"
definition i64_max :: int where "i64_max = 9223372036854775807"
definition i64_min :: int where "i64_min = -9223372036854775808"

lemma u64_max_power: "u64_max = 2 ^ 64 - 1" by (simp add: u64_max_def)
lemma u128_max_power: "u128_max = 2 ^ 128 - 1" by (simp add: u128_max_def)

text \<open>The first argument is the largest value of the width.\<close>

definition saturating_add :: "nat \<Rightarrow> nat \<Rightarrow> nat \<Rightarrow> nat" where
  "saturating_add m a b = min m (a + b)"

definition saturating_mul :: "nat \<Rightarrow> nat \<Rightarrow> nat \<Rightarrow> nat" where
  "saturating_mul m a b = min m (a * b)"

definition saturating_sub :: "nat \<Rightarrow> nat \<Rightarrow> nat" where
  "saturating_sub a b = a - b"

definition checked_add :: "nat \<Rightarrow> nat \<Rightarrow> nat \<Rightarrow> nat option" where
  "checked_add m a b = (if a + b \<le> m then Some (a + b) else None)"

definition u64_add :: "u64 \<Rightarrow> u64 \<Rightarrow> u64" where
  "u64_add a b = (a + b) mod 2 ^ 64"

definition u64_sub :: "u64 \<Rightarrow> u64 \<Rightarrow> u64" where
  "u64_sub a b = (if b \<le> a then a - b else 2 ^ 64 + a - b)"

definition i64_add :: "i64 \<Rightarrow> i64 \<Rightarrow> i64" where
  "i64_add a b = (a + b + 2 ^ 63) mod 2 ^ 64 - 2 ^ 63"

definition i64_saturate :: "int \<Rightarrow> i64" where
  "i64_saturate x = max i64_min (min i64_max x)"

lemma saturating_add_le: "saturating_add m a b \<le> m"
  by (simp add: saturating_add_def)

lemma saturating_add_exact: "a + b \<le> m \<Longrightarrow> saturating_add m a b = a + b"
  by (simp add: saturating_add_def)

lemma saturating_mul_exact: "a * b \<le> m \<Longrightarrow> saturating_mul m a b = a * b"
  by (simp add: saturating_mul_def)

lemma saturating_add_mono: "a \<le> a' \<Longrightarrow> b \<le> b' \<Longrightarrow> saturating_add m a b \<le> saturating_add m a' b'"
  by (auto simp: saturating_add_def)

lemma u64_add_exact: "a + b \<le> u64_max \<Longrightarrow> u64_add a b = a + b"
  by (simp add: u64_add_def u64_max_def)

lemma i64_add_exact: "i64_min \<le> a + b \<Longrightarrow> a + b \<le> i64_max \<Longrightarrow> i64_add a b = a + b"
  by (simp add: i64_add_def i64_min_def i64_max_def)

lemma u64_add_le: "u64_add a b \<le> u64_max"
proof -
  have "u64_add a b < 2 ^ 64" unfolding u64_add_def by (rule mod_less_divisor) simp
  then show ?thesis by (simp add: u64_max_def)
qed

text \<open>A sum accumulated with \<open>saturating_add\<close> is the true sum cut off at the bound.\<close>

lemma fold_saturating_add:
  "a \<le> m \<Longrightarrow> fold (\<lambda>x acc. saturating_add m acc (f x)) xs a = min m (a + sum_list (map f xs))"
proof (induction xs arbitrary: a)
  case (Cons x xs)
  have "saturating_add m a (f x) \<le> m" by (rule saturating_add_le)
  then show ?case using Cons.IH[of "saturating_add m a (f x)"]
    by (simp add: saturating_add_def min_def)
qed simp

section \<open>Ordered containers\<close>

subsection \<open>Index sets\<close>

text \<open>\<open>IndexSet::insert\<close> keeps the position of an element that is already there.  The element
  type may define its own equality, so the key that decides it is an argument.\<close>

definition iset_insert_key :: "('a \<Rightarrow> 'k) \<Rightarrow> 'a \<Rightarrow> 'a list \<Rightarrow> 'a list" where
  "iset_insert_key key x xs = (if key x \<in> key ` set xs then xs else xs @ [x])"

abbreviation iset_insert :: "'a \<Rightarrow> 'a list \<Rightarrow> 'a list" where
  "iset_insert \<equiv> iset_insert_key (\<lambda>x. x)"

text \<open>\<open>swap_remove\<close> puts the last element into the gap.\<close>

fun swap_remove :: "'a \<Rightarrow> 'a list \<Rightarrow> 'a list" where
  "swap_remove x [] = []"
| "swap_remove x (y # ys) =
     (if x = y then (if ys = [] then [] else last ys # butlast ys) else y # swap_remove x ys)"

lemma set_iset_insert [simp, index_simps]: "set (iset_insert x xs) = insert x (set xs)"
  by (auto simp: iset_insert_key_def)

lemma distinct_iset_insert [simp]: "distinct xs \<Longrightarrow> distinct (iset_insert x xs)"
  by (simp add: iset_insert_key_def)

lemma keys_iset_insert_key [index_simps]:
  "key ` set (iset_insert_key key x xs) = insert (key x) (key ` set xs)"
  by (auto simp: iset_insert_key_def)

lemma distinct_iset_insert_key:
  "distinct (map key xs) \<Longrightarrow> distinct (map key (iset_insert_key key x xs))"
  by (simp add: iset_insert_key_def)

lemma iset_insert_key_nonempty [simp]: "iset_insert_key key x xs \<noteq> []"
  by (auto simp: iset_insert_key_def)

lemma set_iset_insert_key_subset: "set (iset_insert_key key x xs) \<subseteq> insert x (set xs)"
  by (auto simp: iset_insert_key_def)

lemma last_butlast_set: "ys \<noteq> [] \<Longrightarrow> insert (last ys) (set (butlast ys)) = set ys"
  by (metis append_butlast_last_id insert_is_Un list.simps(15) set_append sup_commute
      empty_set Un_insert_right sup_bot_right)

lemma set_swap_remove [simp, index_simps]: "distinct xs \<Longrightarrow> set (swap_remove x xs) = set xs - {x}"
  by (induction xs) (auto simp: last_butlast_set)

lemma last_notin_butlast: "distinct ys \<Longrightarrow> ys \<noteq> [] \<Longrightarrow> last ys \<notin> set (butlast ys)"
  by (metis append_butlast_last_id distinct_append IntI disjoint_insert(1) empty_set list.simps(15)
      insert_disjoint(1))

lemma distinct_swap_remove [simp]: "distinct xs \<Longrightarrow> distinct (swap_remove x xs)"
  by (induction xs) (auto simp: last_notin_butlast distinct_butlast)

text \<open>Collecting an iterator into an index set.\<close>

definition iset_of_list :: "'a list \<Rightarrow> 'a list" where
  "iset_of_list xs = fold iset_insert xs []"

lemma fold_iset_insert:
  "distinct ys \<Longrightarrow>
     set (fold iset_insert xs ys) = set xs \<union> set ys \<and> distinct (fold iset_insert xs ys)"
  by (induction xs arbitrary: ys) auto

lemma set_iset_of_list [simp]: "set (iset_of_list xs) = set xs"
  by (simp add: iset_of_list_def fold_iset_insert)

lemma distinct_iset_of_list [simp]: "distinct (iset_of_list xs)"
  by (simp add: iset_of_list_def fold_iset_insert)

lemma fold_iset_insert_distinct:
  "distinct (ys @ xs) \<Longrightarrow> fold iset_insert xs ys = ys @ xs"
  by (induction xs arbitrary: ys) (auto simp: iset_insert_key_def)

lemma iset_of_list_distinct [simp]: "distinct xs \<Longrightarrow> iset_of_list xs = xs"
  using fold_iset_insert_distinct[of "[]"] by (simp add: iset_of_list_def)

lemma length_iset_of_list: "length (iset_of_list xs) \<le> length xs"
  using card_length[of xs] distinct_card[OF distinct_iset_of_list, of xs] by simp

subsection \<open>Index maps\<close>

text \<open>\<open>IndexMap\<close> and \<open>HashMap\<close>: insertion is \<open>AList.update\<close> (in place, or at the end), lookup is
  \<open>map_of\<close>, and \<open>entry(k).or_default()\<close> followed by an update of the value is \<open>entry_update\<close>.\<close>

type_synonym ('k, 'v) imap = "('k \<times> 'v) list"

abbreviation keys :: "('k, 'v) imap \<Rightarrow> 'k list" where "keys m \<equiv> map fst m"
abbreviation vals :: "('k, 'v) imap \<Rightarrow> 'v list" where "vals m \<equiv> map snd m"

abbreviation contains_key :: "('k, 'v) imap \<Rightarrow> 'k \<Rightarrow> bool" where
  "contains_key m k \<equiv> map_of m k \<noteq> None"

definition wf_map :: "('k, 'v) imap \<Rightarrow> bool" where
  "wf_map m \<longleftrightarrow> distinct (keys m)"

definition entry_update :: "'v \<Rightarrow> 'k \<Rightarrow> ('v \<Rightarrow> 'v) \<Rightarrow> ('k, 'v) imap \<Rightarrow> ('k, 'v) imap" where
  "entry_update d k f m = AList.update k (f (case map_of m k of None \<Rightarrow> d | Some v \<Rightarrow> v)) m"

text \<open>\<open>swap_remove\<close> of a key.\<close>

fun map_swap_remove :: "'k \<Rightarrow> ('k, 'v) imap \<Rightarrow> ('k, 'v) imap" where
  "map_swap_remove k [] = []"
| "map_swap_remove k (p # ps) =
     (if k = fst p then (if ps = [] then [] else last ps # butlast ps) else p # map_swap_remove k ps)"

text \<open>\<open>retain\<close> keeps the entries that satisfy a predicate.\<close>

definition map_retain :: "('k \<Rightarrow> 'v \<Rightarrow> bool) \<Rightarrow> ('k, 'v) imap \<Rightarrow> ('k, 'v) imap" where
  "map_retain P m = filter (\<lambda>(k, v). P k v) m"

lemma wf_map_Nil [simp]: "wf_map []"
  by (simp add: wf_map_def)

lemma wf_map_update [simp]: "wf_map m \<Longrightarrow> wf_map (AList.update k v m)"
  by (simp add: wf_map_def distinct_update)

lemma wf_map_delete [simp]: "wf_map m \<Longrightarrow> wf_map (AList.delete k m)"
  by (simp add: wf_map_def distinct_delete)

lemma wf_map_entry_update [simp]: "wf_map m \<Longrightarrow> wf_map (entry_update d k f m)"
  by (simp add: entry_update_def)

lemma map_of_update [simp, index_simps]: "map_of (AList.update k v m) = (map_of m)(k \<mapsto> v)"
  by (rule update_conv')

lemma alist_update_append: "k \<notin> set (keys m) \<Longrightarrow> AList.update k v m = m @ [(k, v)]"
  by (induction m) auto

lemma map_of_alist_delete [index_simps]: "map_of (AList.delete k m) = (map_of m)(k := None)"
  by (rule delete_conv')

lemma map_of_entry_update [index_simps]:
  "map_of (entry_update d k f m) =
   (map_of m)(k \<mapsto> f (case map_of m k of None \<Rightarrow> d | Some v \<Rightarrow> v))"
  by (simp add: entry_update_def)

lemma map_of_Some_in [elim]: "wf_map m \<Longrightarrow> (k, v) \<in> set m \<Longrightarrow> map_of m k = Some v"
  by (simp add: wf_map_def)

lemma map_of_eq_Some: "wf_map m \<Longrightarrow> map_of m k = Some v \<longleftrightarrow> (k, v) \<in> set m"
  by (simp add: wf_map_def)

lemma wf_map_retain [simp]: "wf_map m \<Longrightarrow> wf_map (map_retain P m)"
  by (auto simp: wf_map_def map_retain_def distinct_map inj_on_def split: prod.splits)

lemma map_of_retain [index_simps]:
  "wf_map m \<Longrightarrow> map_of (map_retain P m) k =
     (case map_of m k of None \<Rightarrow> None | Some v \<Rightarrow> if P k v then Some v else None)"
proof (induction m)
  case (Cons p m)
  obtain k' v' where p: "p = (k', v')" by (cases p)
  from Cons.prems have wf: "wf_map m" and nin: "k' \<notin> set (keys m)"
    by (auto simp: wf_map_def p)
  have none: "map_of m k' = None" using nin by (metis map_of_eq_None_iff set_map)
  show ?case using Cons.IH[OF wf] none by (auto simp: map_retain_def p split: option.splits)
qed (simp add: map_retain_def)

lemma map_retain_mem: "(k, v) \<in> set (map_retain P m) \<longleftrightarrow> (k, v) \<in> set m \<and> P k v"
  by (auto simp: map_retain_def)

lemma set_map_swap_remove: "wf_map m \<Longrightarrow> set (map_swap_remove k m) = {p \<in> set m. fst p \<noteq> k}"
proof (induction m)
  case (Cons p m)
  then have wf: "wf_map m" and nin: "fst p \<notin> fst ` set m" by (auto simp: wf_map_def)
  show ?case
  proof (cases "k = fst p")
    case True
    have "set (map_swap_remove k (p # m)) = set m"
      using True by (auto simp: last_butlast_set)
    moreover have "fst q \<noteq> fst p" if "q \<in> set m" for q
      using nin imageI[OF that, of fst] by metis
    ultimately show ?thesis using True by auto
  next
    case False
    then show ?thesis using Cons.IH[OF wf] by auto
  qed
qed simp

lemma keys_swap: "m \<noteq> [] \<Longrightarrow> distinct (keys m) \<Longrightarrow> distinct (keys (last m # butlast m))"
proof -
  assume "m \<noteq> []" "distinct (keys m)"
  then have "m = butlast m @ [last m]" by simp
  then show ?thesis using \<open>distinct (keys m)\<close>
    by (metis (no_types) distinct.simps(2) distinct_append list.set_intros(1) list.simps(9)
        map_append disjoint_iff)
qed

lemma wf_map_swap_remove [simp]: "wf_map m \<Longrightarrow> wf_map (map_swap_remove k m)"
proof (induction m)
  case (Cons p m)
  then have wf: "wf_map m" and nin: "fst p \<notin> fst ` set m" by (auto simp: wf_map_def)
  show ?case
  proof (cases "k = fst p")
    case True
    then show ?thesis using wf keys_swap[of m] by (auto simp: wf_map_def)
  next
    case False
    have "fst p \<notin> fst ` set (map_swap_remove k m)"
      using nin set_map_swap_remove[OF wf] by auto
    then show ?thesis using False Cons.IH[OF wf] by (simp add: wf_map_def)
  qed
qed simp

lemma map_of_swap_remove [index_simps]:
  "wf_map m \<Longrightarrow> map_of (map_swap_remove k m) = (map_of m)(k := None)"
proof
  fix k'
  assume wf: "wf_map m"
  show "map_of (map_swap_remove k m) k' = ((map_of m)(k := None)) k'"
  proof (cases "map_of (map_swap_remove k m) k'")
    case None
    then have "k' \<notin> fst ` set (map_swap_remove k m)" by (simp add: map_of_eq_None_iff)
    then have "k' = k \<or> k' \<notin> fst ` set m" using set_map_swap_remove[OF wf, of k] by auto
    then have "((map_of m)(k := None)) k' = None" by (auto simp: map_of_eq_None_iff)
    then show ?thesis using None by simp
  next
    case (Some v)
    then have "(k', v) \<in> set m \<and> k' \<noteq> k"
      using set_map_swap_remove[OF wf, of k] wf_map_swap_remove[OF wf, of k]
      by (auto simp: map_of_eq_Some)
    then have "((map_of m)(k := None)) k' = Some v" using wf by (simp add: map_of_eq_Some)
    then show ?thesis using Some by simp
  qed
qed

subsection \<open>Sorted maps\<close>

text \<open>\<open>BTreeMap\<close>: insertion keeps the keys increasing.\<close>

fun bmap_update :: "'k::linorder \<Rightarrow> 'v \<Rightarrow> ('k, 'v) imap \<Rightarrow> ('k, 'v) imap" where
  "bmap_update k v [] = [(k, v)]"
| "bmap_update k v (p # ps) =
     (if k < fst p then (k, v) # p # ps
      else if k = fst p then (k, v) # ps else p # bmap_update k v ps)"

definition wf_bmap :: "('k::linorder, 'v) imap \<Rightarrow> bool" where
  "wf_bmap m \<longleftrightarrow> sorted_wrt (<) (keys m)"

definition bmap_entry :: "'v \<Rightarrow> 'k::linorder \<Rightarrow> ('v \<Rightarrow> 'v) \<Rightarrow> ('k, 'v) imap \<Rightarrow> ('k, 'v) imap" where
  "bmap_entry d k f m = bmap_update k (f (case map_of m k of None \<Rightarrow> d | Some v \<Rightarrow> v)) m"

lemma wf_bmap_Nil [simp]: "wf_bmap []"
  by (simp add: wf_bmap_def)

lemma wf_bmap_imp_wf_map [simp]: "wf_bmap m \<Longrightarrow> wf_map m"
  by (simp add: wf_bmap_def wf_map_def strict_sorted_iff)

lemma keys_bmap_update: "set (keys (bmap_update k v m)) = insert k (set (keys m))"
  by (induction m) auto

lemma map_of_bmap_update [simp, index_simps]:
  "wf_bmap m \<Longrightarrow> map_of (bmap_update k v m) = (map_of m)(k \<mapsto> v)"
proof (induction m)
  case (Cons p m)
  then have "wf_bmap m" by (simp add: wf_bmap_def)
  with Cons show ?case by (cases p) auto
qed simp

lemma wf_bmap_update [simp]: "wf_bmap m \<Longrightarrow> wf_bmap (bmap_update k v m)"
proof (induction m)
  case (Cons p m)
  then have wf: "wf_bmap m" and lt: "\<forall>k'\<in>set (keys m). fst p < k'"
    by (auto simp: wf_bmap_def)
  have "wf_bmap (bmap_update k v m)" by (rule Cons.IH[OF wf])
  moreover have "set (keys (bmap_update k v m)) = insert k (set (keys m))"
    by (rule keys_bmap_update)
  ultimately show ?case using wf lt by (auto simp: wf_bmap_def simp del: set_map)
qed (simp add: wf_bmap_def)

lemma map_of_bmap_entry [index_simps]:
  "wf_bmap m \<Longrightarrow> map_of (bmap_entry d k f m) =
     (map_of m)(k \<mapsto> f (case map_of m k of None \<Rightarrow> d | Some v \<Rightarrow> v))"
  by (simp add: bmap_entry_def)

lemma wf_bmap_entry [simp]: "wf_bmap m \<Longrightarrow> wf_bmap (bmap_entry d k f m)"
  by (simp add: bmap_entry_def)

lemma sorted_wrt_map_filter:
  "sorted_wrt P (map f xs) \<Longrightarrow> sorted_wrt P (map f (filter Q xs))"
  by (induction xs) auto

lemma wf_bmap_retain [simp]: "wf_bmap m \<Longrightarrow> wf_bmap (map_retain P m)"
  unfolding wf_bmap_def map_retain_def by (rule sorted_wrt_map_filter)

end
