(* ===== verification/Bytes.thy ===== *)
theory Bytes
  imports Prelude "HOL-Library.Word"
begin

text \<open>
  The byte encodings of \<open>snarkVM/utilities/src/bytes.rs\<close> (traits \<open>ToBytes\<close> and \<open>FromBytes\<close>):
  little-endian integers, booleans, and the two ways the code reads a sequence of objects (one
  after the other, and as one block cut into chunks).

  A writer yields the bytes it appends, or an error; a reader takes the remaining bytes and yields
  the object with what it left unread.  The locale \<open>codec\<close> is the contract of a pair of them:
  whatever follows, reading what was written gives the object back and leaves the rest.  From it
  follow the round trip of sequences and the unambiguity of the encoding, once for all types.
\<close>

type_synonym byte = "8 word"
type_synonym 'a writer = "'a \<Rightarrow> byte list result"
type_synonym 'a reader = "byte list \<Rightarrow> ('a \<times> byte list) result"

section \<open>Combinators\<close>

definition read_then :: "'a reader \<Rightarrow> ('a \<Rightarrow> 'b reader) \<Rightarrow> 'b reader" where
  "read_then r k bs = try_bind (r bs) (\<lambda>(x, rest). k x rest)"

definition read_lift :: "'a result \<Rightarrow> 'a reader" where
  "read_lift r bs = try_bind r (\<lambda>x. Ok (x, bs))"

definition read_ensure :: "bool \<Rightarrow> string \<Rightarrow> 'a reader \<Rightarrow> 'a reader" where
  "read_ensure b m k bs = (if b then k bs else bail m)"

text \<open>A writer that calls other writers in turn, stopping at the first that fails.\<close>

fun write_seq :: "byte list result list \<Rightarrow> byte list result" where
  "write_seq [] = Ok []"
| "write_seq (w # ws) = try_bind w (\<lambda>b. try_bind (write_seq ws) (\<lambda>c. Ok (b @ c)))"

lemma read_then_Ok [simp]: "r bs = Ok (x, rest) \<Longrightarrow> read_then r k bs = k x rest"
  by (simp add: read_then_def)

lemma read_then_Err [simp]: "r bs = Err e \<Longrightarrow> read_then r k bs = Err e"
  by (simp add: read_then_def)

lemma read_then_Ok_iff [result_simps]:
  "read_then r k bs = Ok y \<longleftrightarrow> (\<exists>x rest. r bs = Ok (x, rest) \<and> k x rest = Ok y)"
  by (auto simp: read_then_def try_bind_Ok_iff)

lemma read_lift_Ok [simp]: "read_lift (Ok x) bs = Ok (x, bs)"
  by (simp add: read_lift_def)

lemma read_lift_Err [simp]: "read_lift (Err e) bs = Err e"
  by (simp add: read_lift_def)

lemma read_lift_Ok_iff [result_simps]:
  "read_lift r bs = Ok (x, rest) \<longleftrightarrow> r = Ok x \<and> rest = bs"
  by (cases r) auto

lemma read_ensure_simps [simp]:
  "read_ensure True m k = k"
  "read_ensure False m k bs = bail m"
  by (simp_all add: read_ensure_def fun_eq_iff)

lemma read_ensure_Ok_iff [result_simps]:
  "read_ensure b m k bs = Ok y \<longleftrightarrow> b \<and> k bs = Ok y"
  by (simp add: read_ensure_def)

lemma write_seq_Ok_iff: "write_seq (w # ws) = Ok bs \<longleftrightarrow>
    (\<exists>b c. w = Ok b \<and> write_seq ws = Ok c \<and> bs = b @ c)"
  by (auto simp: try_bind_Ok_iff)

lemma write_seq_append:
  "write_seq (ws @ vs) =
     try_bind (write_seq ws) (\<lambda>b. try_bind (write_seq vs) (\<lambda>c. Ok (b @ c)))"
proof (induction ws)
  case Nil
  then show ?case by (cases "write_seq vs") simp_all
next
  case (Cons w ws)
  then show ?case
    by (cases w; cases "write_seq ws"; cases "write_seq vs") simp_all
qed

section \<open>Integers and booleans\<close>

fun le_bytes :: "nat \<Rightarrow> nat \<Rightarrow> byte list" where
  "le_bytes 0 x = []"
| "le_bytes (Suc n) x = word_of_nat (x mod 256) # le_bytes n (x div 256)"

fun le_value :: "byte list \<Rightarrow> nat" where
  "le_value [] = 0"
| "le_value (b # bs) = unat b + 256 * le_value bs"

definition read_exact :: "nat \<Rightarrow> byte list reader" where
  "read_exact n bs =
     (if length bs < n then bail ''failed to fill whole buffer'' else Ok (take n bs, drop n bs))"

definition write_uint :: "nat \<Rightarrow> nat writer" where
  "write_uint n x = Ok (le_bytes n x)"

definition read_uint :: "nat \<Rightarrow> nat reader" where
  "read_uint n = read_then (read_exact n) (\<lambda>bytes. read_lift (Ok (le_value bytes)))"

abbreviation write_u8 :: "u8 writer" where "write_u8 \<equiv> write_uint 1"
abbreviation write_u16 :: "u16 writer" where "write_u16 \<equiv> write_uint 2"
abbreviation write_u32 :: "u32 writer" where "write_u32 \<equiv> write_uint 4"
abbreviation write_u64 :: "u64 writer" where "write_u64 \<equiv> write_uint 8"
abbreviation write_u128 :: "u128 writer" where "write_u128 \<equiv> write_uint 16"
abbreviation read_u8 :: "u8 reader" where "read_u8 \<equiv> read_uint 1"
abbreviation read_u16 :: "u16 reader" where "read_u16 \<equiv> read_uint 2"
abbreviation read_u32 :: "u32 reader" where "read_u32 \<equiv> read_uint 4"
abbreviation read_u64 :: "u64 reader" where "read_u64 \<equiv> read_uint 8"
abbreviation read_u128 :: "u128 reader" where "read_u128 \<equiv> read_uint 16"

text \<open>\<open>uN::try_from(len)?\<close> followed by the write.\<close>

definition write_len :: "nat \<Rightarrow> nat writer" where
  "write_len n x = ensure (x < 256 ^ n) ''out of range integral type conversion attempted''
     (write_uint n x)"

text \<open>Two's complement of an \<open>i64\<close>.\<close>

definition write_i64 :: "i64 writer" where
  "write_i64 x = write_uint 8 (nat (x mod 2 ^ 64))"

definition read_i64 :: "i64 reader" where
  "read_i64 = read_then (read_uint 8)
     (\<lambda>v. read_lift (Ok (if v < 2 ^ 63 then int v else int v - 2 ^ 64)))"

definition write_bool :: "bool writer" where
  "write_bool b = write_uint 1 (if b then 1 else 0)"

definition read_bool :: "bool reader" where
  "read_bool = read_then (read_uint 1)
     (\<lambda>v. if v = 0 then read_lift (Ok False)
          else if v = 1 then read_lift (Ok True)
          else read_lift (bail ''FromBytes::read failed''))"

text \<open>The bits of a byte string, least significant first (\<open>ToBits\<close> of a byte vector), which is
  the form the hash functions take.\<close>

fun bits_le :: "nat \<Rightarrow> nat \<Rightarrow> bool list" where
  "bits_le 0 x = []"
| "bits_le (Suc n) x = odd x # bits_le n (x div 2)"

definition to_bits_le :: "byte list \<Rightarrow> bool list" where
  "to_bits_le bs = concat (map (\<lambda>b. bits_le 8 (unat b)) bs)"

lemma length_le_bytes [simp]: "length (le_bytes n x) = n"
  by (induction n arbitrary: x) simp_all

lemma le_value_le_bytes: "le_value (le_bytes n x) = x mod 256 ^ n"
proof (induction n arbitrary: x)
  case (Suc n)
  have "unat (word_of_nat (x mod 256) :: byte) = x mod 256"
    by (simp add: unat_of_nat take_bit_eq_mod)
  then show ?case using Suc by (simp add: mod_mult2_eq)
qed simp

lemma unat_byte_less: "unat (b :: byte) < 256"
  using unsigned_less[of b, where 'a = nat] by simp

lemma le_value_less: "le_value bs < 256 ^ length bs"
proof (induction bs)
  case (Cons b bs)
  have "unat b < 256" by (rule unat_byte_less)
  moreover have "Suc (le_value bs) * 256 \<le> 256 ^ length bs * 256"
    using Cons by (intro mult_le_mono1) simp
  ultimately show ?case by simp
qed simp

lemma read_exact_append [simp]: "length bs = n \<Longrightarrow> read_exact n (bs @ rest) = Ok (bs, rest)"
  by (simp add: read_exact_def)

lemma read_uint_le_bytes [simp]:
  "x < 256 ^ n \<Longrightarrow> read_uint n (le_bytes n x @ rest) = Ok (x, rest)"
  by (simp add: read_uint_def le_value_le_bytes)

lemma read_u8_Cons [simp]: "read_uint (Suc 0) (b # rest) = Ok (unat b, rest)"
  by (simp add: read_uint_def read_exact_def)

lemma unat_word_of_nat_byte [simp]: "unat (word_of_nat x :: byte) = x mod 256"
  by (simp add: unsigned_of_nat take_bit_eq_mod)

lemma read_uint_less: "read_uint n bs = Ok (x, rest) \<Longrightarrow> x < 256 ^ n"
  using le_value_less[of "take n bs"]
  by (auto simp: read_uint_def read_exact_def result_simps split: if_splits)

lemma inj_bits_le: "bits_le n x = bits_le n y \<Longrightarrow> x < 2 ^ n \<Longrightarrow> y < 2 ^ n \<Longrightarrow> x = y"
proof (induction n arbitrary: x y)
  case (Suc n)
  have eq: "bits_le n (x div 2) = bits_le n (y div 2)" "odd x \<longleftrightarrow> odd y"
    using Suc.prems(1) unfolding bits_le.simps by blast+
  have "x div 2 < 2 ^ n" "y div 2 < 2 ^ n"
    using Suc.prems(2,3) by (simp_all only: less_mult_imp_div_less power_Suc2)
  then have "x div 2 = y div 2" using Suc.IH eq(1) by blast
  then show ?case using eq(2) by presburger
qed simp

lemma length_bits_le [simp]: "length (bits_le n x) = n"
  by (induction n arbitrary: x) simp_all

lemma inj_to_bits_le: "to_bits_le bs = to_bits_le cs \<Longrightarrow> bs = cs"
proof (induction bs arbitrary: cs)
  case Nil
  then show ?case by (cases cs) (auto simp: to_bits_le_def dest: arg_cong[of _ _ length])
next
  case (Cons b bs)
  obtain c cs' where cs: "cs = c # cs'"
    using Cons.prems by (cases cs) (auto simp: to_bits_le_def dest: arg_cong[of _ _ length])
  have "bits_le 8 (unat b) = bits_le 8 (unat c)" "to_bits_le bs = to_bits_le cs'"
    using Cons.prems unfolding cs to_bits_le_def by (auto simp: append_eq_append_conv)
  then show ?case
    using Cons.IH cs inj_bits_le[of 8 "unat b" "unat c"] unat_byte_less
    by (simp add: word_unat_eq_iff)
qed

section \<open>Sequences of objects\<close>

text \<open>A loop that reads \<open>n\<close> objects one after the other.\<close>

fun read_many :: "nat \<Rightarrow> 'a reader \<Rightarrow> 'a list reader" where
  "read_many 0 r bs = Ok ([], bs)"
| "read_many (Suc n) r bs = read_then r (\<lambda>x. read_then (read_many n r) (\<lambda>xs. read_lift (Ok (x # xs)))) bs"

text \<open>The block form: read \<open>n * sz\<close> bytes at once, cut them into chunks of \<open>sz\<close> bytes and
  read an object from each chunk, ignoring what a chunk has left.\<close>

fun read_each :: "nat \<Rightarrow> nat \<Rightarrow> 'a reader \<Rightarrow> byte list \<Rightarrow> 'a list result" where
  "read_each 0 sz r bs = Ok []"
| "read_each (Suc n) sz r bs =
     try_bind (r (take sz bs)) (\<lambda>(x, _).
       try_bind (read_each n sz r (drop sz bs)) (\<lambda>xs. Ok (x # xs)))"

definition read_chunks :: "nat \<Rightarrow> nat \<Rightarrow> 'a reader \<Rightarrow> 'a list reader" where
  "read_chunks n sz r =
     read_then (read_exact (n * sz)) (\<lambda>bytes. read_lift (read_each n sz r bytes))"

lemma read_many_Suc:
  assumes "read_many (Suc n) r bs = Ok (xs, rest)"
  obtains x b ys where "r bs = Ok (x, b)" "read_many n r b = Ok (ys, rest)" "xs = x # ys"
  using assms by (auto simp: read_then_Ok_iff read_lift_Ok_iff)

lemma read_each_Suc:
  assumes "read_each (Suc n) sz r bs = Ok xs"
  obtains x b ys where "r (take sz bs) = Ok (x, b)" "read_each n sz r (drop sz bs) = Ok ys"
    "xs = x # ys"
  using assms by (auto simp: try_bind_Ok_iff)

lemma read_many_sound:
  assumes "\<And>bs x rest. r bs = Ok (x, rest) \<Longrightarrow> P x"
  shows "read_many n r bs = Ok (xs, rest) \<Longrightarrow> length xs = n \<and> (\<forall>x\<in>set xs. P x)"
proof (induction n arbitrary: bs xs)
  case (Suc n)
  obtain x b ys where "r bs = Ok (x, b)" "read_many n r b = Ok (ys, rest)" "xs = x # ys"
    using read_many_Suc[OF Suc.prems] .
  then show ?case using Suc.IH[of b ys] assms[of bs x b] by simp
qed simp

lemma read_each_sound:
  assumes "\<And>bs x rest. r bs = Ok (x, rest) \<Longrightarrow> P x"
  shows "read_each n sz r bs = Ok xs \<Longrightarrow> length xs = n \<and> (\<forall>x\<in>set xs. P x)"
proof (induction n arbitrary: bs xs)
  case (Suc n)
  obtain x b ys where "r (take sz bs) = Ok (x, b)" "read_each n sz r (drop sz bs) = Ok ys"
      "xs = x # ys"
    using read_each_Suc[OF Suc.prems] .
  then show ?case using Suc.IH[of "drop sz bs" ys] assms[of "take sz bs" x b] by simp
qed simp

lemma read_chunks_sound:
  assumes "\<And>bs x rest. r bs = Ok (x, rest) \<Longrightarrow> P x" "read_chunks n sz r bs = Ok (xs, rest)"
  shows "length xs = n \<and> (\<forall>x\<in>set xs. P x)"
proof -
  obtain cs where "read_each n sz r cs = Ok xs"
    using assms(2) by (auto simp: read_chunks_def read_then_Ok_iff read_lift_Ok_iff)
  then show ?thesis using assms(1) by (intro read_each_sound[of r P])
qed

section \<open>The contract of an encoding\<close>

locale codec =
  fixes write_fn :: "'a writer" and read_fn :: "'a reader" and valid :: "'a \<Rightarrow> bool"
  assumes read_write: "valid x \<Longrightarrow>
    \<exists>bs. write_fn x = Ok bs \<and> (\<forall>rest. read_fn (bs @ rest) = Ok (x, rest))"
begin

lemma write_total: "valid x \<Longrightarrow> \<exists>bs. write_fn x = Ok bs"
  using read_write by blast

lemma read_back: "valid x \<Longrightarrow> write_fn x = Ok bs \<Longrightarrow> read_fn (bs @ rest) = Ok (x, rest)"
  using read_write[of x] by auto

text \<open>No encoding is a proper prefix of another one, and distinct objects have distinct ones.\<close>

lemma prefix_free:
  assumes "valid x" "valid y" "write_fn x = Ok bs" "write_fn y = Ok cs" "bs @ r = cs @ s"
  shows "x = y \<and> r = s"
  using read_back[OF assms(1,3), of r] read_back[OF assms(2,4), of s] assms(5) by simp

lemma write_inject:
  assumes "valid x" "valid y" "write_fn x = write_fn y"
  shows "x = y"
proof -
  obtain bs where "write_fn x = Ok bs" using write_total[OF assms(1)] by blast
  then show ?thesis using prefix_free[OF assms(1,2), of bs bs "[]" "[]"] assms(3) by simp
qed

lemma write_seq_total: "\<forall>x\<in>set xs. valid x \<Longrightarrow> \<exists>bs. write_seq (map write_fn xs) = Ok bs"
proof (induction xs)
  case (Cons x xs)
  obtain b where "write_fn x = Ok b" using write_total[of x] Cons.prems by auto
  moreover obtain c where "write_seq (map write_fn xs) = Ok c"
    using Cons.IH Cons.prems by (meson list.set_intros(2))
  ultimately show ?case by simp
qed simp

lemma read_many_back:
  "\<forall>x\<in>set xs. valid x \<Longrightarrow> write_seq (map write_fn xs) = Ok bs \<Longrightarrow>
     read_many (length xs) read_fn (bs @ rest) = Ok (xs, rest)"
proof (induction xs arbitrary: bs)
  case (Cons x xs)
  obtain b c where bc: "write_fn x = Ok b" "write_seq (map write_fn xs) = Ok c" "bs = b @ c"
    using Cons.prems(2) by (auto simp: result_simps)
  have "read_many (length xs) read_fn (c @ rest) = Ok (xs, rest)"
    using Cons.IH[OF _ bc(2)] Cons.prems(1) by simp
  moreover have "read_fn (b @ c @ rest) = Ok (x, c @ rest)"
    using read_back[OF _ bc(1)] Cons.prems(1) by simp
  ultimately show ?case using bc(3) by simp
qed simp

lemma seq_prefix_free:
  assumes "\<forall>x\<in>set xs. valid x" "\<forall>y\<in>set ys. valid y" "length xs = length ys"
    and "write_seq (map write_fn xs) = Ok bs" "write_seq (map write_fn ys) = Ok cs"
    and "bs @ r = cs @ s"
  shows "xs = ys \<and> r = s"
  using read_many_back[OF assms(1,4), of r] read_many_back[OF assms(2,5), of s]
  unfolding assms(3,6) by simp

end

text \<open>An encoding of fixed size also survives the block form.\<close>

locale fixed_codec = codec +
  fixes size_in_bytes :: nat
  assumes write_length: "valid x \<Longrightarrow> write_fn x = Ok bs \<Longrightarrow> length bs = size_in_bytes"
begin

lemma read_each_back:
  "\<forall>x\<in>set xs. valid x \<Longrightarrow> write_seq (map write_fn xs) = Ok bs \<Longrightarrow>
     length bs = length xs * size_in_bytes \<and>
     read_each (length xs) size_in_bytes read_fn bs = Ok xs"
proof (induction xs arbitrary: bs)
  case (Cons x xs)
  obtain b c where bc: "write_fn x = Ok b" "write_seq (map write_fn xs) = Ok c" "bs = b @ c"
    using Cons.prems(2) by (auto simp: result_simps)
  have "length b = size_in_bytes" "read_fn b = Ok (x, [])"
    using bc(1) Cons.prems(1) write_length read_back[of x b "[]"] by auto
  then show ?case using Cons.IH[OF _ bc(2)] Cons.prems(1) bc(3) by simp
qed simp

lemma read_chunks_back:
  assumes "\<forall>x\<in>set xs. valid x" and "write_seq (map write_fn xs) = Ok bs"
  shows "read_chunks (length xs) size_in_bytes read_fn (bs @ rest) = Ok (xs, rest)"
  using read_each_back[OF assms] by (simp add: read_chunks_def)

end

interpretation uint: fixed_codec "write_uint n" "read_uint n" "\<lambda>x. x < 256 ^ n" n
  by unfold_locales (auto simp: write_uint_def)

lemma write_len_uint: "x < 256 ^ n \<Longrightarrow> write_len n x = Ok (le_bytes n x)"
  by (simp add: write_len_def write_uint_def)

interpretation bool_bytes: fixed_codec write_bool read_bool "\<lambda>_. True" 1
  by unfold_locales (auto simp: write_bool_def read_bool_def write_uint_def)

lemma i64_twos_complement:
  assumes "i64_min \<le> x" "x \<le> i64_max"
  shows "(let v = nat (x mod 2 ^ 64) in if v < 2 ^ 63 then int v else int v - 2 ^ 64) = x"
proof (cases "0 \<le> x")
  case True
  then have "x mod 2 ^ 64 = x" using assms by (simp add: i64_max_def)
  then show ?thesis using True assms by (simp add: Let_def i64_max_def)
next
  case False
  have "x mod 2 ^ 64 = (x + 2 ^ 64) mod 2 ^ 64" by simp
  also have "\<dots> = x + 2 ^ 64"
    using False assms by (intro mod_pos_pos_trivial) (simp_all add: i64_min_def)
  finally show ?thesis using False assms by (simp add: Let_def i64_min_def)
qed

interpretation i64_bytes: fixed_codec write_i64 read_i64 "\<lambda>x. i64_min \<le> x \<and> x \<le> i64_max" 8
proof unfold_locales
  fix x :: i64
  assume x: "i64_min \<le> x \<and> x \<le> i64_max"
  have "nat (x mod 2 ^ 64) < 256 ^ 8" by (simp add: nat_less_iff)
  then show "\<exists>bs. write_i64 x = Ok bs \<and> (\<forall>rest. read_i64 (bs @ rest) = Ok (x, rest))"
    using i64_twos_complement[of x] x
    by (simp add: write_i64_def read_i64_def write_uint_def Let_def)
qed (auto simp: write_i64_def write_uint_def)

lemma read_i64_range:
  assumes "read_i64 bs = Ok (x, rest)"
  shows "i64_min \<le> x \<and> x \<le> i64_max"
proof -
  obtain v where v: "read_uint 8 bs = Ok (v, rest)"
      "x = (if v < 2 ^ 63 then int v else int v - 2 ^ 64)"
    using assms by (auto simp: read_i64_def result_simps)
  have "v < 256 ^ 8" using read_uint_less[OF v(1)] .
  then show ?thesis using v(2) by (simp add: i64_min_def i64_max_def)
qed

end
