(* ===== verification/Account.thy ===== *)
theory Account
  imports Bytes
begin

text \<open>
  Accounts and signatures, from \<open>snarkVM/console/account\<close> and \<open>snarkVM/console/types\<close>.

  Field elements, scalars and group elements are numbers: a group element (and an address, which
  wraps one) is represented by its \<open>x\<close>-coordinate, which determines it in the prime-order subgroup
  and is what \<open>ToBytes\<close> writes, what comparisons and hashes use.  The curve arithmetic and the hash
  functions are the fields of the record \<open>crypto\<close>; everything built on them, signing and
  verification included, is defined as in the source.
\<close>

type_synonym field = nat
type_synonym scalar = nat
type_synonym group = nat
type_synonym address = group

definition field_modulus :: nat where
  "field_modulus = 8444461749428370424248824938781546531375899335154063827935233455917409239041"

definition scalar_modulus :: nat where
  "scalar_modulus = 2111115437357092606062206234695386632838870926408408195193685246394721360383"

record crypto =
  g_scalar_multiply :: "scalar \<Rightarrow> group"
  group_add :: "group \<Rightarrow> group \<Rightarrow> group"
  group_mul :: "group \<Rightarrow> scalar \<Rightarrow> group"
  on_subgroup :: "field \<Rightarrow> bool"
  hash_to_scalar_psd4 :: "field list \<Rightarrow> scalar result"
  hash_to_scalar_psd8 :: "field list \<Rightarrow> scalar result"
  hash_to_group_psd4 :: "field list \<Rightarrow> group result"
  hash_bhp1024 :: "bool list \<Rightarrow> field result"

section \<open>Keys\<close>

text \<open>The two scalars of a private key that signing uses.\<close>

record private_key =
  sk_sig :: scalar
  r_sig :: scalar

record compute_key =
  pk_sig :: group
  pr_sig :: group
  sk_prf :: scalar

definition compute_key_try_from :: "crypto \<Rightarrow> group \<times> group \<Rightarrow> compute_key result" where
  "compute_key_try_from cr = (\<lambda>(pk, pr).
     try_bind (hash_to_scalar_psd4 cr [pk, pr]) (\<lambda>s.
       Ok \<lparr>pk_sig = pk, pr_sig = pr, sk_prf = s\<rparr>))"

definition compute_key_of_private_key :: "crypto \<Rightarrow> private_key \<Rightarrow> compute_key result" where
  "compute_key_of_private_key cr key =
     compute_key_try_from cr (g_scalar_multiply cr (sk_sig key), g_scalar_multiply cr (r_sig key))"

definition compute_key_to_address :: "crypto \<Rightarrow> compute_key \<Rightarrow> address" where
  "compute_key_to_address cr ck =
     group_add cr (group_add cr (pk_sig ck) (pr_sig ck)) (g_scalar_multiply cr (sk_prf ck))"

definition address_try_from :: "crypto \<Rightarrow> private_key \<Rightarrow> address result" where
  "address_try_from cr key =
     try_bind (compute_key_of_private_key cr key) (\<lambda>ck. Ok (compute_key_to_address cr ck))"

section \<open>Signatures\<close>

record signature =
  challenge :: scalar
  response :: scalar
  compute_key_of :: compute_key

definition to_address :: "crypto \<Rightarrow> signature \<Rightarrow> address" where
  "to_address cr s = compute_key_to_address cr (compute_key_of s)"

definition MAX_DATA_SIZE_IN_FIELDS :: nat where
  "MAX_DATA_SIZE_IN_FIELDS = (128 * 1024 * 8) div 252"

text \<open>Subtraction in the scalar field.\<close>

definition scalar_sub :: "scalar \<Rightarrow> scalar \<Rightarrow> scalar" where
  "scalar_sub a b = (a + (scalar_modulus - b mod scalar_modulus)) mod scalar_modulus"

text \<open>\<open>Signature::sign\<close>; the sampled nonce is an argument.\<close>

definition sign :: "crypto \<Rightarrow> scalar \<Rightarrow> private_key \<Rightarrow> field list \<Rightarrow> signature result" where
  "sign cr nonce key message =
     ensure (length message \<le> MAX_DATA_SIZE_IN_FIELDS)
       ''Cannot sign the message: the message exceeds maximum allowed size''
     (let g_r = g_scalar_multiply cr nonce in
      try_bind (compute_key_of_private_key cr key) (\<lambda>ck.
      let addr = compute_key_to_address cr ck;
          preimage = [g_r, pk_sig ck, pr_sig ck, addr] @ message in
      try_bind (hash_to_scalar_psd8 cr preimage) (\<lambda>chal.
      Ok \<lparr>challenge = chal,
          response = scalar_sub nonce (chal * sk_sig key mod scalar_modulus),
          compute_key_of = ck\<rparr>)))"

definition verify :: "crypto \<Rightarrow> signature \<Rightarrow> address \<Rightarrow> field list \<Rightarrow> bool" where
  "verify cr s addr message =
     (if length message > MAX_DATA_SIZE_IN_FIELDS then False
      else
        let ck = compute_key_of s;
            g_r = group_add cr (g_scalar_multiply cr (response s))
                    (group_mul cr (pk_sig ck) (challenge s));
            preimage = [g_r, pk_sig ck, pr_sig ck, addr] @ message
        in case hash_to_scalar_psd8 cr preimage of
             Inl _ \<Rightarrow> False
           | Inr candidate_challenge \<Rightarrow>
               challenge s = candidate_challenge \<and> addr = compute_key_to_address cr ck)"

text \<open>What signing relies on: multiplication of the generator by scalars is a homomorphism.\<close>

definition group_laws :: "crypto \<Rightarrow> bool" where
  "group_laws cr \<longleftrightarrow>
     (\<forall>a b. group_add cr (g_scalar_multiply cr a) (g_scalar_multiply cr b)
              = g_scalar_multiply cr ((a + b) mod scalar_modulus)) \<and>
     (\<forall>a b. group_mul cr (g_scalar_multiply cr a) b
              = g_scalar_multiply cr (a * b mod scalar_modulus))"

lemma verify_imp_to_address: "verify cr s addr m \<Longrightarrow> addr = to_address cr s"
  by (auto simp: verify_def to_address_def Let_def split: if_splits sum.splits)

lemma scalar_sub_add:
  assumes "a < scalar_modulus"
  shows "(scalar_sub a b + b) mod scalar_modulus = a"
proof -
  let ?p = scalar_modulus
  have p: "b mod ?p < ?p" by (rule mod_less_divisor) (simp add: scalar_modulus_def)
  have "(scalar_sub a b + b) mod ?p = (a + (?p - b mod ?p) + b mod ?p) mod ?p"
    unfolding scalar_sub_def by (metis mod_add_left_eq mod_add_right_eq)
  also have "a + (?p - b mod ?p) + b mod ?p = a + ?p" using p by simp
  finally show ?thesis using assms by simp
qed

lemma sign_imp_verify:
  assumes "group_laws cr" "nonce < scalar_modulus" "sign cr nonce key m = Ok s"
  shows "verify cr s (to_address cr s) m"
proof -
  obtain ck chal where *: "length m \<le> MAX_DATA_SIZE_IN_FIELDS"
      "compute_key_of_private_key cr key = Ok ck"
      "hash_to_scalar_psd8 cr ([g_scalar_multiply cr nonce, pk_sig ck, pr_sig ck,
         compute_key_to_address cr ck] @ m) = Ok chal"
      "s = \<lparr>challenge = chal, response = scalar_sub nonce (chal * sk_sig key mod scalar_modulus),
            compute_key_of = ck\<rparr>"
    using assms(3) by (auto simp: sign_def Let_def result_simps)
  have pk: "pk_sig ck = g_scalar_multiply cr (sk_sig key)"
    using *(2) by (auto simp: compute_key_of_private_key_def compute_key_try_from_def result_simps)
  have "group_add cr (g_scalar_multiply cr (response s)) (group_mul cr (pk_sig ck) chal)
      = g_scalar_multiply cr nonce"
    using assms(1) scalar_sub_add[OF assms(2)] *(4) pk
    by (simp add: group_laws_def mult.commute)
  then show ?thesis
    using * by (simp add: verify_def to_address_def Let_def)
qed

lemma sign_address:
  assumes "sign cr nonce key m = Ok s"
  shows "address_try_from cr key = Ok (to_address cr s)"
  using assms by (auto simp: sign_def address_try_from_def to_address_def Let_def result_simps)

section \<open>Encodings\<close>

definition write_field :: "field writer" where
  "write_field = write_uint 32"

definition read_field :: "field reader" where
  "read_field = read_then (read_uint 32)
     (\<lambda>x. read_lift (ensure (x < field_modulus) ''invalid field element'' (Ok x)))"

definition read_scalar :: "scalar reader" where
  "read_scalar = read_then (read_uint 32)
     (\<lambda>x. read_lift (ensure (x < scalar_modulus) ''invalid field element'' (Ok x)))"

definition from_x_coordinate :: "crypto \<Rightarrow> field \<Rightarrow> group result" where
  "from_x_coordinate cr x =
     ensure (on_subgroup cr x) ''Failed to recover an affine group from an x-coordinate'' (Ok x)"

definition write_address :: "address writer" where
  "write_address = write_field"

definition read_address :: "crypto \<Rightarrow> address reader" where
  "read_address cr = read_then read_field (\<lambda>x. read_lift (from_x_coordinate cr x))"

definition write_compute_key :: "compute_key writer" where
  "write_compute_key ck = write_seq [write_field (pk_sig ck), write_field (pr_sig ck)]"

definition read_compute_key :: "crypto \<Rightarrow> compute_key reader" where
  "read_compute_key cr =
     read_then read_field (\<lambda>x. read_then (read_lift (from_x_coordinate cr x)) (\<lambda>pk.
     read_then read_field (\<lambda>y. read_then (read_lift (from_x_coordinate cr y)) (\<lambda>pr.
     read_lift (compute_key_try_from cr (pk, pr))))))"

definition write_signature :: "signature writer" where
  "write_signature s =
     write_seq [write_uint 32 (challenge s), write_uint 32 (response s),
                write_compute_key (compute_key_of s)]"

definition read_signature :: "crypto \<Rightarrow> signature reader" where
  "read_signature cr =
     read_then read_scalar (\<lambda>c. read_then read_scalar (\<lambda>r.
     read_then (read_compute_key cr) (\<lambda>ck.
     read_lift (Ok \<lparr>challenge = c, response = r, compute_key_of = ck\<rparr>))))"

text \<open>The values of these types: reduced representatives, points of the subgroup, and a compute key
  whose PRF key is the hash of its points (its constructors compute it).\<close>

definition valid_address :: "crypto \<Rightarrow> address \<Rightarrow> bool" where
  "valid_address cr a \<longleftrightarrow> a < field_modulus \<and> on_subgroup cr a"

definition valid_compute_key :: "crypto \<Rightarrow> compute_key \<Rightarrow> bool" where
  "valid_compute_key cr ck \<longleftrightarrow> valid_address cr (pk_sig ck) \<and> valid_address cr (pr_sig ck) \<and>
     compute_key_try_from cr (pk_sig ck, pr_sig ck) = Ok ck"

definition valid_signature :: "crypto \<Rightarrow> signature \<Rightarrow> bool" where
  "valid_signature cr s \<longleftrightarrow> challenge s < scalar_modulus \<and> response s < scalar_modulus \<and>
     valid_compute_key cr (compute_key_of s)"

lemma modulus_less: "x < field_modulus \<Longrightarrow> x < 256 ^ 32" "x < scalar_modulus \<Longrightarrow> x < 256 ^ 32"
  by (rule less_trans, assumption, simp add: field_modulus_def scalar_modulus_def)+

lemma read_field_back [simp]:
  "x < field_modulus \<Longrightarrow> read_field (le_bytes 32 x @ rest) = Ok (x, rest)"
  using read_uint_le_bytes[OF modulus_less(1)] by (simp add: read_field_def)

lemma read_scalar_back [simp]:
  "x < scalar_modulus \<Longrightarrow> read_scalar (le_bytes 32 x @ rest) = Ok (x, rest)"
  using read_uint_le_bytes[OF modulus_less(2)] by (simp add: read_scalar_def)

lemma read_address_back [simp]:
  "valid_address cr x \<Longrightarrow> read_address cr (le_bytes 32 x @ rest) = Ok (x, rest)"
  by (simp add: read_address_def from_x_coordinate_def valid_address_def)

interpretation field_bytes: fixed_codec write_field read_field "\<lambda>x. x < field_modulus" 32
  by unfold_locales (auto simp: write_field_def write_uint_def)

interpretation address_bytes: fixed_codec write_address "read_address cr" "valid_address cr" 32
  for cr
  by unfold_locales (auto simp: write_address_def write_field_def write_uint_def)

lemma write_compute_key_eq:
  "write_compute_key ck = Ok (le_bytes 32 (pk_sig ck) @ le_bytes 32 (pr_sig ck))"
  by (simp add: write_compute_key_def write_field_def write_uint_def)

lemma read_compute_key_back:
  "valid_compute_key cr ck \<Longrightarrow>
     read_compute_key cr (le_bytes 32 (pk_sig ck) @ le_bytes 32 (pr_sig ck) @ rest) = Ok (ck, rest)"
  by (simp add: read_compute_key_def from_x_coordinate_def valid_compute_key_def valid_address_def)

interpretation signature_bytes:
  fixed_codec write_signature "read_signature cr" "valid_signature cr" 128
  for cr
proof unfold_locales
  fix s
  assume "valid_signature cr s"
  then show "\<exists>bs. write_signature s = Ok bs \<and>
      (\<forall>rest. read_signature cr (bs @ rest) = Ok (s, rest))"
    by (simp add: write_signature_def read_signature_def write_uint_def
        valid_signature_def write_compute_key_eq read_compute_key_back)
next
  fix s bs
  assume "valid_signature cr s" "write_signature s = Ok bs"
  then show "length bs = 128"
    by (auto simp: write_signature_def write_uint_def valid_signature_def write_compute_key_eq read_compute_key_back)
qed

lemma read_field_less: "read_field bs = Ok (x, rest) \<Longrightarrow> x < field_modulus"
  by (auto simp: read_field_def result_simps)

lemma read_address_valid: "read_address cr bs = Ok (x, rest) \<Longrightarrow> valid_address cr x"
  by (auto simp: read_address_def from_x_coordinate_def valid_address_def result_simps
      dest: read_field_less)

lemma read_compute_key_valid: "read_compute_key cr bs = Ok (ck, rest) \<Longrightarrow> valid_compute_key cr ck"
  by (auto simp: read_compute_key_def from_x_coordinate_def valid_compute_key_def
      compute_key_try_from_def valid_address_def result_simps dest: read_field_less)

lemma read_signature_valid: "read_signature cr bs = Ok (s, rest) \<Longrightarrow> valid_signature cr s"
  by (auto simp: read_signature_def valid_signature_def read_scalar_def result_simps
      dest: read_compute_key_valid)

text \<open>The primitives return values of their types.\<close>

definition crypto_ranges :: "crypto \<Rightarrow> bool" where
  "crypto_ranges cr \<longleftrightarrow>
     (\<forall>a. valid_address cr (g_scalar_multiply cr a)) \<and>
     (\<forall>x y. valid_address cr x \<longrightarrow> valid_address cr y \<longrightarrow> valid_address cr (group_add cr x y)) \<and>
     (\<forall>xs h. hash_to_scalar_psd4 cr xs = Ok h \<longrightarrow> h < scalar_modulus) \<and>
     (\<forall>xs h. hash_to_scalar_psd8 cr xs = Ok h \<longrightarrow> h < scalar_modulus) \<and>
     (\<forall>xs h. hash_bhp1024 cr xs = Ok h \<longrightarrow> h < field_modulus)"

lemma compute_key_valid:
  assumes "crypto_ranges cr" "compute_key_of_private_key cr key = Ok ck"
  shows "valid_compute_key cr ck" "valid_address cr (compute_key_to_address cr ck)"
  using assms
  by (auto simp: crypto_ranges_def compute_key_of_private_key_def compute_key_try_from_def
      valid_compute_key_def compute_key_to_address_def result_simps)

lemma sign_valid:
  assumes "crypto_ranges cr" "sign cr nonce key m = Ok s"
  shows "valid_signature cr s" "valid_address cr (to_address cr s)"
proof -
  obtain ck chal p where *: "compute_key_of_private_key cr key = Ok ck"
      "hash_to_scalar_psd8 cr p = Ok chal"
      "s = \<lparr>challenge = chal, response = scalar_sub nonce (chal * sk_sig key mod scalar_modulus),
            compute_key_of = ck\<rparr>"
    using assms(2) by (auto simp: sign_def Let_def result_simps)
  have "scalar_sub a b < scalar_modulus" for a b
    unfolding scalar_sub_def by (rule mod_less_divisor) (simp add: scalar_modulus_def)
  then show "valid_signature cr s" "valid_address cr (to_address cr s)"
    using * compute_key_valid[OF assms(1) *(1)] assms(1)
    by (auto simp: valid_signature_def to_address_def crypto_ranges_def)
qed

section \<open>A concrete instance\<close>

text \<open>The integers modulo the scalar order, with simple sums for the hash functions: an instance of
  the primitives that satisfies \<open>group_laws\<close>, for evaluating the model.\<close>

definition sample_crypto :: crypto where
  "sample_crypto = \<lparr>
     g_scalar_multiply = (\<lambda>a. a mod scalar_modulus),
     group_add = (\<lambda>a b. (a + b) mod scalar_modulus),
     group_mul = (\<lambda>a b. a * b mod scalar_modulus),
     on_subgroup = (\<lambda>_. True),
     hash_to_scalar_psd4 = (\<lambda>xs. Ok (sum_list xs mod scalar_modulus)),
     hash_to_scalar_psd8 = (\<lambda>xs. Ok (sum_list xs mod scalar_modulus)),
     hash_to_group_psd4 = (\<lambda>xs. Ok (sum_list xs mod scalar_modulus)),
     hash_bhp1024 = (\<lambda>bits. Ok (fold (\<lambda>b n. 2 * n + of_bool b) bits 1 mod field_modulus))\<rparr>"

definition sample_key :: "nat \<Rightarrow> private_key" where
  "sample_key i = \<lparr>sk_sig = i, r_sig = 1\<rparr>"

lemma sample_group_laws: "group_laws sample_crypto"
  by (simp add: group_laws_def sample_crypto_def mod_add_eq mod_mult_left_eq)

lemma sample_ranges: "crypto_ranges sample_crypto"
proof -
  have p: "x mod scalar_modulus < scalar_modulus" "x mod scalar_modulus < field_modulus"
    "x mod field_modulus < field_modulus" for x
    using mod_less_divisor[of scalar_modulus x] mod_less_divisor[of field_modulus x]
    by (auto simp: scalar_modulus_def field_modulus_def)
  show ?thesis by (auto simp: crypto_ranges_def valid_address_def sample_crypto_def p)
qed

lemma sample_sign_ok: "is_ok (sign sample_crypto nonce key [x])"
  by (simp add: sign_def compute_key_of_private_key_def compute_key_try_from_def sample_crypto_def
      MAX_DATA_SIZE_IN_FIELDS_def Let_def)

section \<open>Properties\<close>

lemmas account_eval =
  sign_def address_try_from_def compute_key_of_private_key_def compute_key_try_from_def
  compute_key_to_address_def sample_key_def sample_crypto_def scalar_modulus_def
  MAX_DATA_SIZE_IN_FIELDS_def scalar_sub_def Let_def

text \<open>Signing and verification: a signature made with a private key verifies for the address
  of that key, and for no other address.\<close>

theorem sign_verify:
  assumes "group_laws cr" "nonce < scalar_modulus"
    and "sign cr nonce key m = Ok s" "address_try_from cr key = Ok owner"
  shows "verify cr s a m \<longleftrightarrow> a = owner"
  using sign_imp_verify[OF assms(1-3)] sign_address[OF assms(3)] assms(4)
    verify_imp_to_address[of cr s a m] by auto

theorem sign_verify_witness:
  "\<exists>s. sign sample_crypto 5 (sample_key 2) [7] = Ok s \<and> verify sample_crypto s 6 [7] \<and>
     \<not> verify sample_crypto s 8 [7]"
proof -
  obtain s where s: "sign sample_crypto 5 (sample_key 2) [7] = Ok s"
    using sample_sign_ok[of 5 "sample_key 2" 7] unfolding is_ok_iff by blast
  have a: "address_try_from sample_crypto (sample_key 2) = Ok 6" by (simp add: account_eval)
  have n: "(5 :: nat) < scalar_modulus" by (simp add: scalar_modulus_def)
  note v = sign_verify[OF sample_group_laws n s a]
  have "verify sample_crypto s 6 [7]" unfolding v by (rule refl)
  moreover have "\<not> verify sample_crypto s 8 [7]" unfolding v by simp
  ultimately show ?thesis using s by blast
qed

end
