(* ===== verification/Network.thy ===== *)
theory Network
  imports Prelude
begin

text \<open>
  The network parameters of \<open>snarkVM/console/network\<close>: the consensus versions, the constants of
  the \<open>Network\<close> trait that the modelled components read, and the lookup of the consensus version
  (and of a versioned constant) that is active at a block height.
\<close>

section \<open>Consensus versions\<close>

datatype consensus_version =
    V1 | V2 | V3 | V4 | V5 | V6 | V7 | V8 | V9 | V10 | V11 | V12 | V13 | V14 | V15

text \<open>The discriminant (\<open>repr(u16)\<close>), which also gives the derived order.\<close>

fun version_number :: "consensus_version \<Rightarrow> u16" where
  "version_number V1 = 1"
| "version_number V2 = 2"
| "version_number V3 = 3"
| "version_number V4 = 4"
| "version_number V5 = 5"
| "version_number V6 = 6"
| "version_number V7 = 7"
| "version_number V8 = 8"
| "version_number V9 = 9"
| "version_number V10 = 10"
| "version_number V11 = 11"
| "version_number V12 = 12"
| "version_number V13 = 13"
| "version_number V14 = 14"
| "version_number V15 = 15"

lemma version_number_inject: "version_number v = version_number w \<Longrightarrow> v = w"
  by (cases v; cases w) simp_all

lemma version_number_inject_iff [simp]: "version_number v = version_number w \<longleftrightarrow> v = w"
  using version_number_inject by blast

instantiation consensus_version :: linorder
begin

definition less_eq_consensus_version :: "consensus_version \<Rightarrow> consensus_version \<Rightarrow> bool" where
  "less_eq_consensus_version v w \<longleftrightarrow> version_number v \<le> version_number w"

definition less_consensus_version :: "consensus_version \<Rightarrow> consensus_version \<Rightarrow> bool" where
  "less_consensus_version v w \<longleftrightarrow> version_number v < version_number w"

instance
  by standard (auto simp: less_eq_consensus_version_def less_consensus_version_def)

end

section \<open>The network constants\<close>

text \<open>The associated constants of the trait \<open>Network\<close>.  The versioned ones are arrays of pairs,
  sorted by version; the array types of the source rule out an empty one.\<close>

record network =
  CONSENSUS_VERSION_HEIGHTS :: "(consensus_version \<times> u32) list"
  MAX_CERTIFICATES :: "(consensus_version \<times> u16) list"
  TRANSACTION_SPEND_LIMIT :: "(consensus_version \<times> u64) list"
  ANCHOR_TIMES :: "(consensus_version \<times> u16) list"
  GENESIS_COINBASE_TARGET :: u64
  GENESIS_PROOF_TARGET :: u64
  MAX_SOLUTIONS_AS_POWER_OF_TWO :: u8
  NUM_BLOCKS_PER_EPOCH :: u32
  MAX_SUPPLY_LIMIT_HEIGHT :: u32

definition MAINNET_V0_CONSENSUS_VERSION_HEIGHTS :: "(consensus_version \<times> u32) list" where
  "MAINNET_V0_CONSENSUS_VERSION_HEIGHTS =
     [(V1, 0), (V2, 2800000), (V3, 4900000), (V4, 6135000), (V5, 7060000), (V6, 7560000),
      (V7, 7570000), (V8, 9430000), (V9, 10272000), (V10, 11205000), (V11, 12870000),
      (V12, 13815000), (V13, 16850000), (V14, 17700000), (V15, u32_max)]"

definition MainnetV0 :: network where
  "MainnetV0 = \<lparr>
     CONSENSUS_VERSION_HEIGHTS = MAINNET_V0_CONSENSUS_VERSION_HEIGHTS,
     MAX_CERTIFICATES = [(V1, 16), (V3, 25), (V5, 30), (V6, 35), (V9, 40)],
     TRANSACTION_SPEND_LIMIT = [(V1, 100000000), (V10, 4000000)],
     ANCHOR_TIMES = [(V1, 25), (V15, 35)],
     GENESIS_COINBASE_TARGET = 2 ^ 29 - 1,
     GENESIS_PROOF_TARGET = 2 ^ 27,
     MAX_SOLUTIONS_AS_POWER_OF_TWO = 2,
     NUM_BLOCKS_PER_EPOCH = 360,
     MAX_SUPPLY_LIMIT_HEIGHT = 263527685\<rparr>"

definition LATEST_MAX_CERTIFICATES :: "network \<Rightarrow> u16" where
  "LATEST_MAX_CERTIFICATES n = snd (last (MAX_CERTIFICATES n))"

section \<open>Lookup by height and by version\<close>

text \<open>\<open>slice::binary_search_by\<close> on a slice sorted by \<open>key\<close>: the index of the element with the
  sought key, or the index where it would have to be inserted.\<close>

definition binary_search :: "('a \<Rightarrow> 'k::linorder) \<Rightarrow> 'k \<Rightarrow> 'a list \<Rightarrow> nat + nat" where
  "binary_search key x xs =
     (let i = length (takeWhile (\<lambda>e. key e < x) xs)
      in if i < length xs \<and> key (xs ! i) = x then Inr i else Inl i)"

definition CONSENSUS_VERSION :: "network \<Rightarrow> u32 \<Rightarrow> consensus_version result" where
  "CONSENSUS_VERSION n seek_height =
     (case binary_search snd seek_height (CONSENSUS_VERSION_HEIGHTS n) of
        Inr index \<Rightarrow> Ok (fst (CONSENSUS_VERSION_HEIGHTS n ! index))
      | Inl index \<Rightarrow>
          if index = 0 then bail ''Expected consensus version 1 to exist at height 0.''
          else Ok (fst (CONSENSUS_VERSION_HEIGHTS n ! (index - 1))))"

definition consensus_config_value_by_version ::
    "(consensus_version \<times> 'a) list \<Rightarrow> consensus_version \<Rightarrow> 'a option" where
  "consensus_config_value_by_version constant seek_version =
     (case binary_search fst seek_version constant of
        Inr index \<Rightarrow> Some (snd (constant ! index))
      | Inl index \<Rightarrow> if index = 0 then None else Some (snd (constant ! (index - 1))))"

definition consensus_config_value ::
    "network \<Rightarrow> (consensus_version \<times> 'a) list \<Rightarrow> u32 \<Rightarrow> 'a option" where
  "consensus_config_value n constant seek_height =
     (case CONSENSUS_VERSION n seek_height of
        Inl _ \<Rightarrow> None
      | Inr seek_version \<Rightarrow> consensus_config_value_by_version constant seek_version)"

text \<open>Both lookups find the last entry whose key does not exceed the sought one.\<close>

definition floor_entry :: "('a \<Rightarrow> 'k::linorder) \<Rightarrow> 'k \<Rightarrow> 'a list \<Rightarrow> 'a option" where
  "floor_entry key x xs =
     (case filter (\<lambda>e. key e \<le> x) xs of [] \<Rightarrow> None | e # es \<Rightarrow> Some (last (e # es)))"

text \<open>The height at which a version becomes active: the table is indexed by the discriminant.\<close>

definition CONSENSUS_HEIGHT :: "network \<Rightarrow> consensus_version \<Rightarrow> u32 result" where
  "CONSENSUS_HEIGHT n version =
     (let i = version_number version - 1
      in if i < length (CONSENSUS_VERSION_HEIGHTS n)
         then Ok (snd (CONSENSUS_VERSION_HEIGHTS n ! i))
         else bail ''Invalid consensus version'')"

lemma binary_search_split:
  fixes key :: "'a \<Rightarrow> 'k::linorder"
  assumes "sorted_wrt (<) (map key xs)"
  obtains (found) i where "binary_search key x xs = Inr i" "i < length xs" "key (xs ! i) = x"
      "filter (\<lambda>e. key e \<le> x) xs = take (Suc i) xs"
    | (missing) i where "binary_search key x xs = Inl i" "i \<le> length xs"
      "filter (\<lambda>e. key e \<le> x) xs = take i xs"
proof -
  define i where "i = length (takeWhile (\<lambda>e. key e < x) xs)"
  define tw where "tw = takeWhile (\<lambda>e. key e < x) xs"
  define dw where "dw = dropWhile (\<lambda>e. key e < x) xs"
  have xs: "xs = tw @ dw" by (simp add: tw_def dw_def)
  have lenw: "i = length tw" by (simp add: tw_def i_def)
  have tk: "take i xs = tw" using xs i_def tw_def by (metis append_eq_conv_conj)
  have srt: "sorted_wrt (<) (map key dw)"
    using assms unfolding xs by (simp add: sorted_wrt_append)
  have ftw: "filter (\<lambda>e. key e \<le> x) tw = tw"
    unfolding filter_id_conv by (auto simp: tw_def dest: set_takeWhileD)
  show thesis
  proof (cases "i < length xs \<and> key (xs ! i) = x")
    case True
    have nth: "xs ! i = hd dw" "dw \<noteq> []"
      using True xs lenw by (auto simp: nth_append hd_conv_nth)
    obtain d ds where d: "dw = d # ds" using nth(2) by (meson list.exhaust)
    have "\<forall>e\<in>set ds. \<not> key e \<le> x" using srt True nth(1) unfolding d by auto
    then have "filter (\<lambda>e. key e \<le> x) dw = [d]"
      using True nth(1) d by (simp add: filter_empty_conv)
    moreover have "take (Suc i) xs = tw @ [d]"
      using tk True nth d by (simp add: take_Suc_conv_app_nth)
    ultimately have "filter (\<lambda>e. key e \<le> x) xs = take (Suc i) xs"
      unfolding xs using ftw by simp
    then show thesis using True found by (simp add: binary_search_def i_def Let_def)
  next
    case False
    have "\<not> key e \<le> x" if e: "e \<in> set dw" for e
    proof -
      obtain d ds where d: "dw = d # ds" using e by (cases dw) auto
      have "\<not> key d < x" using d dw_def by (metis hd_dropWhile list.discI list.sel(1))
      moreover have "key d \<noteq> x"
        using False d xs lenw by (simp add: nth_append)
      moreover have "key d \<le> key e" using e srt unfolding d by auto
      ultimately show ?thesis by auto
    qed
    then have "filter (\<lambda>e. key e \<le> x) xs = take i xs"
      unfolding tk using ftw xs by (metis (mono_tags) append_Nil2 filter_append filter_empty_conv)
    moreover have "i \<le> length xs" by (simp add: i_def length_takeWhile_le)
    ultimately show thesis using False missing by (simp add: binary_search_def i_def Let_def)
  qed
qed

lemma take_Suc_last: "i < length xs \<Longrightarrow> last (take (Suc i) xs) = xs ! i"
  by (simp add: take_Suc_conv_app_nth)

lemma floor_entry_alt:
  "floor_entry key x xs =
     (let f = filter (\<lambda>e. key e \<le> x) xs in if f = [] then None else Some (last f))"
  by (auto simp: floor_entry_def Let_def split: list.splits)

lemma CONSENSUS_VERSION_floor:
  assumes "sorted_wrt (<) (map snd (CONSENSUS_VERSION_HEIGHTS n))"
  shows "CONSENSUS_VERSION n h =
    (case floor_entry snd h (CONSENSUS_VERSION_HEIGHTS n) of
       None \<Rightarrow> bail ''Expected consensus version 1 to exist at height 0.''
     | Some e \<Rightarrow> Ok (fst e))"
proof (rule binary_search_split[OF assms, where x = h], goal_cases)
  case (1 i)
  then show ?thesis by (auto simp: CONSENSUS_VERSION_def floor_entry_alt Let_def take_Suc_last)
next
  case (2 i)
  then show ?thesis
    by (cases i) (auto simp: CONSENSUS_VERSION_def floor_entry_alt Let_def take_Suc_last)
qed

lemma config_value_floor:
  assumes "sorted_wrt (<) (map fst constant)"
  shows "consensus_config_value_by_version constant v = map_option snd (floor_entry fst v constant)"
proof (rule binary_search_split[OF assms, where x = v], goal_cases)
  case (1 i)
  then show ?thesis
    by (auto simp: consensus_config_value_by_version_def floor_entry_alt Let_def take_Suc_last)
next
  case (2 i)
  then show ?thesis
    by (cases i)
      (auto simp: consensus_config_value_by_version_def floor_entry_alt Let_def take_Suc_last)
qed

text \<open>What the table of a network has to look like: one entry per version in the order of the
  discriminants, heights strictly increasing from zero.\<close>

definition heights_ok :: "network \<Rightarrow> bool" where
  "heights_ok n \<longleftrightarrow>
     (let t = CONSENSUS_VERSION_HEIGHTS n
      in t \<noteq> [] \<and> snd (hd t) = 0 \<and> sorted_wrt (<) (map snd t) \<and>
         map (version_number \<circ> fst) t = [1..<Suc (length t)])"

lemma filter_prefix:
  fixes key :: "'a \<Rightarrow> 'k::linorder"
  assumes "sorted_wrt (<) (map key xs)"
  obtains k where "k \<le> length xs" "filter (\<lambda>e. key e \<le> x) xs = take k xs"
  by (rule binary_search_split[OF assms, where x = x]) (auto intro: that Suc_leI)

lemma heights_ok_nth:
  assumes "heights_ok n" "i < length (CONSENSUS_VERSION_HEIGHTS n)"
  shows "version_number (fst (CONSENSUS_VERSION_HEIGHTS n ! i)) = Suc i"
proof -
  let ?t = "CONSENSUS_VERSION_HEIGHTS n"
  have "map (version_number \<circ> fst) ?t ! i = [1..<Suc (length ?t)] ! i"
    using assms(1) by (simp add: heights_ok_def Let_def del: upt_Suc)
  then show ?thesis using assms(2) by (simp del: upt_Suc)
qed

lemma heights_ok_mainnet: "heights_ok MainnetV0"
  by (simp add: heights_ok_def MainnetV0_def MAINNET_V0_CONSENSUS_VERSION_HEIGHTS_def Let_def
      u32_max_def upt_conv_Cons)

text \<open>At every height exactly the right consensus version is active: the lookup succeeds, the
  version it returns has been activated at or below the height, and no later version has.  The two
  tables lookups \<open>CONSENSUS_VERSION\<close> (by height) and \<open>CONSENSUS_HEIGHT\<close> (by version) are thus
  adjoint.\<close>

theorem active_version:
  assumes "heights_ok n"
  shows "\<exists>v a. CONSENSUS_VERSION n h = Ok v \<and> CONSENSUS_HEIGHT n v = Ok a \<and> a \<le> h \<and>
    (\<forall>w b. CONSENSUS_HEIGHT n w = Ok b \<longrightarrow> b \<le> h \<longrightarrow> w \<le> v)"
proof -
  let ?t = "CONSENSUS_VERSION_HEIGHTS n"
  have srt: "sorted_wrt (<) (map snd ?t)" and ne: "?t \<noteq> []" "snd (hd ?t) = 0"
    using assms by (simp_all add: heights_ok_def Let_def)
  obtain k where k: "k \<le> length ?t" "filter (\<lambda>e. snd e \<le> h) ?t = take k ?t"
    by (rule filter_prefix[OF srt])
  have "hd ?t \<in> set (filter (\<lambda>e. snd e \<le> h) ?t)" using ne by simp
  then obtain j where j: "k = Suc j" using k(2) by (cases k) auto
  have jl: "j < length ?t" using j k(1) by simp
  have "CONSENSUS_VERSION n h = Ok (fst (?t ! j))"
    using CONSENSUS_VERSION_floor[OF srt, of h] jl ne
    by (simp add: floor_entry_alt k(2) j take_Suc_last Let_def)
  moreover have "CONSENSUS_HEIGHT n (fst (?t ! j)) = Ok (snd (?t ! j))"
    using jl heights_ok_nth[OF assms jl] by (simp add: CONSENSUS_HEIGHT_def Let_def)
  moreover have "snd (?t ! j) \<le> h"
  proof -
    have "?t ! j \<in> set (take k ?t)" using jl j by (auto simp: in_set_conv_nth)
    then show ?thesis using k(2)[symmetric] by simp
  qed
  moreover have "w \<le> fst (?t ! j)" if w: "CONSENSUS_HEIGHT n w = Ok b" "b \<le> h" for w b
  proof -
    define i where "i = version_number w - 1"
    have i: "i < length ?t" "snd (?t ! i) = b"
      using w by (auto simp: CONSENSUS_HEIGHT_def Let_def i_def split: if_splits)
    have "?t ! i \<in> set (take k ?t)" unfolding k(2)[symmetric] using i w(2) by simp
    then obtain m where m: "m < k" "?t ! m = ?t ! i" using k(1) by (auto simp: in_set_conv_nth)
    have "\<not> m < i"
      using sorted_wrt_nth_less[OF srt, of m i] m i(1) by auto
    then have "i \<le> j" using m(1) j by simp
    then show ?thesis
      using heights_ok_nth[OF assms jl] by (simp add: less_eq_consensus_version_def i_def)
  qed
  ultimately show ?thesis by blast
qed

theorem active_version_witness: "CONSENSUS_VERSION MainnetV0 5000000 = Ok V3"
proof -
  obtain v a where v: "CONSENSUS_VERSION MainnetV0 5000000 = Ok v" "CONSENSUS_HEIGHT MainnetV0 v = Ok a"
      "a \<le> 5000000"
    and m: "\<forall>w b. CONSENSUS_HEIGHT MainnetV0 w = Ok b \<longrightarrow> b \<le> 5000000 \<longrightarrow> w \<le> v"
    using active_version[OF heights_ok_mainnet] by blast
  note t = CONSENSUS_HEIGHT_def MainnetV0_def MAINNET_V0_CONSENSUS_VERSION_HEIGHTS_def u32_max_def
  have "V3 \<le> v" using m[rule_format, of V3] by (simp add: t)
  then show ?thesis using v by (cases v) (auto simp: t less_eq_consensus_version_def)
qed

end
