(* ===== verification/Narwhal.thy ===== *)
theory Narwhal
  imports Account Network
begin

text \<open>
  The Narwhal objects of \<open>snarkVM/ledger/narwhal\<close>: transmission IDs, batch headers and batch
  certificates, with their constructors, their identifiers and their encodings.
\<close>

section \<open>Transmission IDs\<close>

datatype transmission_id =
    Ratification
  | Solution u64 u128
  | Transaction field u128

fun solution :: "transmission_id \<Rightarrow> u64 option" where
  "solution (Solution i _) = Some i"
| "solution _ = None"

fun transaction :: "transmission_id \<Rightarrow> field option" where
  "transaction (Transaction i _) = Some i"
| "transaction _ = None"

fun checksum :: "transmission_id \<Rightarrow> u128 option" where
  "checksum Ratification = None"
| "checksum (Solution _ c) = Some c"
| "checksum (Transaction _ c) = Some c"

fun write_transmission_id :: "transmission_id writer" where
  "write_transmission_id Ratification = write_u8 0"
| "write_transmission_id (Solution i c) = write_seq [write_u8 1, write_u64 i, write_u128 c]"
| "write_transmission_id (Transaction i c) = write_seq [write_u8 2, write_field i, write_u128 c]"

definition read_transmission_id :: "transmission_id reader" where
  "read_transmission_id =
     read_then read_u8 (\<lambda>variant.
       if variant = 0 then read_lift (Ok Ratification)
       else if variant = 1 then
         read_then read_u64 (\<lambda>i. read_then read_u128 (\<lambda>c. read_lift (Ok (Solution i c))))
       else if variant = 2 then
         read_then read_field (\<lambda>i. read_then read_u128 (\<lambda>c. read_lift (Ok (Transaction i c))))
       else read_lift (bail ''Invalid worker transmission ID variant''))"

fun valid_transmission_id :: "transmission_id \<Rightarrow> bool" where
  "valid_transmission_id Ratification \<longleftrightarrow> True"
| "valid_transmission_id (Solution i c) \<longleftrightarrow> i \<le> u64_max \<and> c \<le> u128_max"
| "valid_transmission_id (Transaction i c) \<longleftrightarrow> i < field_modulus \<and> c \<le> u128_max"

lemma max_less_iff:
  "x \<le> u16_max \<longleftrightarrow> x < 256 ^ 2" "x \<le> u32_max \<longleftrightarrow> x < 256 ^ 4"
  "x \<le> u64_max \<longleftrightarrow> x < 256 ^ 8" "x \<le> u128_max \<longleftrightarrow> x < 256 ^ 16"
  by (auto simp: u16_max_def u32_max_def u64_max_def u128_max_def)

lemma read_uint_back [simp]:
  "x \<le> u16_max \<Longrightarrow> read_u16 (le_bytes 2 x @ rest) = Ok (x, rest)"
  "x \<le> u32_max \<Longrightarrow> read_u32 (le_bytes 4 x @ rest) = Ok (x, rest)"
  "x \<le> u64_max \<Longrightarrow> read_u64 (le_bytes 8 x @ rest) = Ok (x, rest)"
  "x \<le> u128_max \<Longrightarrow> read_u128 (le_bytes 16 x @ rest) = Ok (x, rest)"
  unfolding max_less_iff by (rule read_uint_le_bytes, assumption)+

lemma read_uint_max:
  "read_u16 bs = Ok (x, rest) \<Longrightarrow> x \<le> u16_max" "read_u32 bs = Ok (x, rest) \<Longrightarrow> x \<le> u32_max"
  "read_u64 bs = Ok (x, rest) \<Longrightarrow> x \<le> u64_max" "read_u128 bs = Ok (x, rest) \<Longrightarrow> x \<le> u128_max"
  unfolding max_less_iff by (rule read_uint_less, assumption)+

interpretation transmission_id_bytes:
  codec write_transmission_id read_transmission_id valid_transmission_id
proof unfold_locales
  fix x
  assume "valid_transmission_id x"
  then show "\<exists>bs. write_transmission_id x = Ok bs \<and>
      (\<forall>rest. read_transmission_id (bs @ rest) = Ok (x, rest))"
    by (cases x) (simp_all add: read_transmission_id_def write_uint_def write_field_def)
qed

lemma read_transmission_id_valid:
  "read_transmission_id bs = Ok (x, rest) \<Longrightarrow> valid_transmission_id x"
  by (auto simp: read_transmission_id_def result_simps
      dest: read_field_less read_uint_max split: if_splits)

section \<open>Batch headers\<close>

record batch_header =
  batch_id :: field
  author :: address
  round :: u64
  timestamp :: i64
  committee_id :: field
  transmission_ids :: "transmission_id list"
  previous_certificate_ids :: "field list"
  header_signature :: signature

definition MAX_GC_ROUNDS :: u64 where
  "MAX_GC_ROUNDS = 100"

definition MAX_TRANSMISSIONS_PER_BATCH :: usize where
  "MAX_TRANSMISSIONS_PER_BATCH = 50"

text \<open>The microcredits the transactions of a batch may spend; the multiplication is the wrapping one
  of a release build, and the \<open>unwrap\<close> of a missing constant panics.\<close>

definition batch_spend_limit :: "network \<Rightarrow> u32 \<Rightarrow> u64 result" where
  "batch_spend_limit n height =
     (case consensus_config_value n (TRANSACTION_SPEND_LIMIT n) height of
        None \<Rightarrow> Err (Panic ''called `Option::unwrap()` on a `None` value'')
      | Some limit \<Rightarrow> Ok (limit * MAX_TRANSMISSIONS_PER_BATCH mod 2 ^ 64 div 20))"

definition batch_id_preimage ::
    "address \<Rightarrow> u64 \<Rightarrow> i64 \<Rightarrow> field \<Rightarrow> transmission_id list \<Rightarrow> field list \<Rightarrow> byte list result" where
  "batch_id_preimage a r t c tids prev =
     write_seq ([write_address a, write_u64 r, write_i64 t, write_field c, write_len 4 (length tids)]
       @ map write_transmission_id tids
       @ [write_len 4 (length prev)]
       @ map write_field prev)"

definition compute_batch_id ::
    "crypto \<Rightarrow> address \<Rightarrow> u64 \<Rightarrow> i64 \<Rightarrow> field \<Rightarrow> transmission_id list \<Rightarrow> field list \<Rightarrow> field result" where
  "compute_batch_id cr a r t c tids prev =
     try_bind (batch_id_preimage a r t c tids prev) (\<lambda>bs. hash_bhp1024 cr (to_bits_le bs))"

text \<open>The checks that \<open>BatchHeader::new\<close> and \<open>BatchHeader::from\<close> both start with.\<close>

definition header_checks ::
    "network \<Rightarrow> u64 \<Rightarrow> transmission_id list \<Rightarrow> field list \<Rightarrow> 'a result \<Rightarrow> 'a result" where
  "header_checks n r tids prev k =
     (if r = 0 \<or> r = 1
      then ensure (prev = []) ''Invalid round number, must not have certificates''
      else ensure (prev \<noteq> []) ''Invalid round number, must have certificates'')
     (ensure (length tids \<le> MAX_TRANSMISSIONS_PER_BATCH) ''Invalid number of transmission IDs''
     (ensure (length prev \<le> LATEST_MAX_CERTIFICATES n) ''Invalid number of previous certificate IDs''
     k))"

definition batch_header_new ::
    "network \<Rightarrow> crypto \<Rightarrow> scalar \<Rightarrow> private_key \<Rightarrow> u64 \<Rightarrow> i64 \<Rightarrow> field \<Rightarrow> transmission_id list
      \<Rightarrow> field list \<Rightarrow> batch_header result" where
  "batch_header_new n cr nonce key r t c tids prev =
     header_checks n r tids prev
     (try_bind (address_try_from cr key) (\<lambda>a.
      try_bind (compute_batch_id cr a r t c tids prev) (\<lambda>bid.
      try_bind (sign cr nonce key [bid]) (\<lambda>s.
      Ok \<lparr>batch_id = bid, author = a, round = r, timestamp = t, committee_id = c,
          transmission_ids = tids, previous_certificate_ids = prev, header_signature = s\<rparr>))))"

definition batch_header_from_unchecked ::
    "address \<Rightarrow> field \<Rightarrow> u64 \<Rightarrow> i64 \<Rightarrow> field \<Rightarrow> transmission_id list \<Rightarrow> field list \<Rightarrow> signature
      \<Rightarrow> batch_header" where
  "batch_header_from_unchecked a bid r t c tids prev s =
     \<lparr>batch_id = bid, author = a, round = r, timestamp = t, committee_id = c,
      transmission_ids = tids, previous_certificate_ids = prev, header_signature = s\<rparr>"

definition batch_header_from ::
    "network \<Rightarrow> crypto \<Rightarrow> address \<Rightarrow> u64 \<Rightarrow> i64 \<Rightarrow> field \<Rightarrow> transmission_id list \<Rightarrow> field list
      \<Rightarrow> signature \<Rightarrow> batch_header result" where
  "batch_header_from n cr a r t c tids prev s =
     header_checks n r tids prev
     (try_bind (compute_batch_id cr a r t c tids prev) (\<lambda>bid.
      ensure (verify cr s a [bid]) ''Invalid signature for the batch header''
      (Ok (batch_header_from_unchecked a bid r t c tids prev s))))"

text \<open>The constructor applied to the parts of a header: what a peer recomputes.\<close>

definition recheck_header :: "network \<Rightarrow> crypto \<Rightarrow> batch_header \<Rightarrow> batch_header result" where
  "recheck_header n cr h =
     batch_header_from n cr (author h) (round h) (timestamp h) (committee_id h)
       (transmission_ids h) (previous_certificate_ids h) (header_signature h)"

lemma header_checks_Ok_iff [result_simps]:
  "header_checks n r tids prev k = Ok y \<longleftrightarrow>
     (prev = [] \<longleftrightarrow> r \<le> 1) \<and> length tids \<le> MAX_TRANSMISSIONS_PER_BATCH \<and>
     length prev \<le> LATEST_MAX_CERTIFICATES n \<and> k = Ok y"
  by (auto simp: header_checks_def result_simps)

lemma recheck_header_Ok_iff:
  "recheck_header n cr h = Ok h' \<longleftrightarrow>
     (previous_certificate_ids h = [] \<longleftrightarrow> round h \<le> 1) \<and>
     length (transmission_ids h) \<le> MAX_TRANSMISSIONS_PER_BATCH \<and>
     length (previous_certificate_ids h) \<le> LATEST_MAX_CERTIFICATES n \<and>
     compute_batch_id cr (author h) (round h) (timestamp h) (committee_id h) (transmission_ids h)
       (previous_certificate_ids h) = Ok (batch_id h') \<and>
     verify cr (header_signature h) (author h) [batch_id h'] \<and>
     h' = h\<lparr>batch_id := batch_id h'\<rparr>"
  by (cases h, cases h')
    (auto simp: recheck_header_def batch_header_from_def batch_header_from_unchecked_def
      result_simps)

lemma batch_header_new_rechecks:
  assumes "group_laws cr" "nonce < scalar_modulus"
    and "batch_header_new n cr nonce key r t c tids prev = Ok h"
  shows "recheck_header n cr h = Ok h"
proof -
  obtain a bid s where *: "address_try_from cr key = Ok a"
      "compute_batch_id cr a r t c tids prev = Ok bid" "sign cr nonce key [bid] = Ok s"
      "h = \<lparr>batch_id = bid, author = a, round = r, timestamp = t, committee_id = c,
        transmission_ids = tids, previous_certificate_ids = prev, header_signature = s\<rparr>"
      "(prev = []) = (r \<le> 1)" "length tids \<le> MAX_TRANSMISSIONS_PER_BATCH"
      "length prev \<le> LATEST_MAX_CERTIFICATES n"
    using assms(3) unfolding batch_header_new_def result_simps by blast
  have "a = to_address cr s" using sign_address[OF *(3)] *(1) by simp
  then have "verify cr s a [bid]" using sign_imp_verify[OF assms(1,2) *(3)] by simp
  then show ?thesis using *(2,4-7) unfolding recheck_header_Ok_iff by simp
qed

subsection \<open>Encoding of a header\<close>

definition write_batch_header :: "batch_header writer" where
  "write_batch_header h =
     write_seq ([write_u8 1, write_field (batch_id h), write_address (author h),
         write_u64 (round h), write_i64 (timestamp h), write_field (committee_id h),
         write_len 4 (length (transmission_ids h))]
       @ map write_transmission_id (transmission_ids h)
       @ [write_len 2 (length (previous_certificate_ids h))]
       @ map write_field (previous_certificate_ids h)
       @ [write_signature (header_signature h)])"

definition read_batch_header_with_unchecked ::
    "network \<Rightarrow> crypto \<Rightarrow> bool \<Rightarrow> batch_header reader" where
  "read_batch_header_with_unchecked n cr unchecked =
     read_then read_u8 (\<lambda>version.
     read_ensure (version = 1) ''Invalid batch header version'' (
     read_then read_field (\<lambda>bid.
     read_then (read_address cr) (\<lambda>a.
     read_then read_u64 (\<lambda>r.
     read_then read_i64 (\<lambda>t.
     read_then read_field (\<lambda>c.
     read_then read_u32 (\<lambda>num_transmission_ids.
     read_ensure (num_transmission_ids \<le> MAX_TRANSMISSIONS_PER_BATCH)
       ''Number of transmission IDs exceeds the maximum'' (
     read_then (read_many num_transmission_ids read_transmission_id) (\<lambda>tids.
     read_then read_u16 (\<lambda>num_previous_certificate_ids.
     read_ensure (num_previous_certificate_ids \<le> LATEST_MAX_CERTIFICATES n)
       ''Number of previous certificate IDs exceeds the maximum.'' (
     read_then (read_chunks num_previous_certificate_ids 32 read_field) (\<lambda>prev.
     read_then (read_signature cr) (\<lambda>s.
     read_then (read_lift
       (if unchecked
        then Ok (batch_header_from_unchecked a bid r t c (iset_of_list tids) (iset_of_list prev) s)
        else batch_header_from n cr a r t c (iset_of_list tids) (iset_of_list prev) s)) (\<lambda>batch.
     read_lift (ensure (batch_id batch = bid) ''Invalid batch ID'' (Ok batch)))))))))))))))))"

definition read_batch_header :: "network \<Rightarrow> crypto \<Rightarrow> batch_header reader" where
  "read_batch_header n cr = read_batch_header_with_unchecked n cr False"

definition read_batch_header_unchecked :: "network \<Rightarrow> crypto \<Rightarrow> batch_header reader" where
  "read_batch_header_unchecked n cr = read_batch_header_with_unchecked n cr True"

text \<open>A header whose parts are values of their types and that the checked constructor accepts.\<close>

definition wf_header_values :: "network \<Rightarrow> crypto \<Rightarrow> batch_header \<Rightarrow> bool" where
  "wf_header_values n cr h \<longleftrightarrow>
     batch_id h < field_modulus \<and> valid_address cr (author h) \<and> round h \<le> u64_max \<and>
     i64_min \<le> timestamp h \<and> timestamp h \<le> i64_max \<and> committee_id h < field_modulus \<and>
     (\<forall>i\<in>set (transmission_ids h). valid_transmission_id i) \<and> distinct (transmission_ids h) \<and>
     (\<forall>i\<in>set (previous_certificate_ids h). i < field_modulus) \<and>
     distinct (previous_certificate_ids h) \<and> valid_signature cr (header_signature h)"

definition valid_header :: "network \<Rightarrow> crypto \<Rightarrow> batch_header \<Rightarrow> bool" where
  "valid_header n cr h \<longleftrightarrow>
     LATEST_MAX_CERTIFICATES n \<le> u16_max \<and> wf_header_values n cr h \<and> recheck_header n cr h = Ok h"

lemma write_batch_header_bytes:
  assumes "valid_header n cr h"
  obtains t tids prev s where
    "write_i64 (timestamp h) = Ok t"
    "write_seq (map write_transmission_id (transmission_ids h)) = Ok tids"
    "write_seq (map write_field (previous_certificate_ids h)) = Ok prev"
    "write_signature (header_signature h) = Ok s"
    "write_batch_header h = Ok ([1] @ le_bytes 32 (batch_id h) @ le_bytes 32 (author h)
       @ le_bytes 8 (round h) @ t @ le_bytes 32 (committee_id h)
       @ le_bytes 4 (length (transmission_ids h)) @ tids
       @ le_bytes 2 (length (previous_certificate_ids h)) @ prev @ s)"
proof -
  note v = assms[unfolded valid_header_def wf_header_values_def recheck_header_Ok_iff]
  obtain t where t: "write_i64 (timestamp h) = Ok t"
    using i64_bytes.write_total v by blast
  obtain tids where tids: "write_seq (map write_transmission_id (transmission_ids h)) = Ok tids"
    using transmission_id_bytes.write_seq_total v by blast
  obtain prev where prev: "write_seq (map write_field (previous_certificate_ids h)) = Ok prev"
    using field_bytes.write_seq_total v by blast
  obtain s where s: "write_signature (header_signature h) = Ok s"
    using signature_bytes.write_total v by blast
  have "write_len 4 (length (transmission_ids h)) = Ok (le_bytes 4 (length (transmission_ids h)))"
    using v by (intro write_len_uint) (auto simp: MAX_TRANSMISSIONS_PER_BATCH_def)
  moreover have "write_len 2 (length (previous_certificate_ids h))
      = Ok (le_bytes 2 (length (previous_certificate_ids h)))"
    using v by (intro write_len_uint) (auto simp: u16_max_def)
  ultimately show thesis
    using that t tids prev s
    by (simp add: write_batch_header_def write_seq_append write_address_def write_field_def
        write_uint_def)
qed

lemma read_batch_header_back:
  assumes "valid_header n cr h" "write_batch_header h = Ok bs"
  shows "read_batch_header_with_unchecked n cr unchecked (bs @ rest) = Ok (h, rest)"
proof -
  note v = assms(1)[unfolded valid_header_def]
  note w = v[unfolded wf_header_values_def recheck_header_Ok_iff]
  obtain t tids prev s where b: "write_i64 (timestamp h) = Ok t"
    "write_seq (map write_transmission_id (transmission_ids h)) = Ok tids"
    "write_seq (map write_field (previous_certificate_ids h)) = Ok prev"
    "write_signature (header_signature h) = Ok s"
    "bs = [1] @ le_bytes 32 (batch_id h) @ le_bytes 32 (author h)
       @ le_bytes 8 (round h) @ t @ le_bytes 32 (committee_id h)
       @ le_bytes 4 (length (transmission_ids h)) @ tids
       @ le_bytes 2 (length (previous_certificate_ids h)) @ prev @ s"
    using write_batch_header_bytes[OF assms(1)] assms(2) by (metis sum.inject(2))
  have r: "read_i64 (t @ x) = Ok (timestamp h, x)"
      "read_many (length (transmission_ids h)) read_transmission_id (tids @ x)
         = Ok (transmission_ids h, x)"
      "read_chunks (length (previous_certificate_ids h)) 32 read_field (prev @ x)
         = Ok (previous_certificate_ids h, x)"
      "read_signature cr (s @ x) = Ok (header_signature h, x)" for x
    using w b(1-4) i64_bytes.read_back transmission_id_bytes.read_many_back
      field_bytes.read_chunks_back signature_bytes.read_back by blast+
  have "length (transmission_ids h) \<le> u32_max" "length (previous_certificate_ids h) \<le> u16_max"
    using w by (auto simp: MAX_TRANSMISSIONS_PER_BATCH_def u32_max_def)
  moreover have "batch_header_from_unchecked (author h) (batch_id h) (round h) (timestamp h)
      (committee_id h) (transmission_ids h) (previous_certificate_ids h) (header_signature h) = h"
    by (simp add: batch_header_from_unchecked_def)
  ultimately show ?thesis
    unfolding b(5) using w r v[THEN conjunct2, THEN conjunct2, unfolded recheck_header_def]
    by (simp add: read_batch_header_with_unchecked_def)
qed

interpretation batch_header_bytes:
  codec write_batch_header "read_batch_header n cr" "valid_header n cr" for n cr
proof unfold_locales
  fix h
  assume h: "valid_header n cr h"
  then obtain bs where "write_batch_header h = Ok bs"
    using write_batch_header_bytes[OF h] by metis
  then show "\<exists>bs. write_batch_header h = Ok bs \<and>
      (\<forall>rest. read_batch_header n cr (bs @ rest) = Ok (h, rest))"
    using read_batch_header_back[OF h] unfolding read_batch_header_def by blast
qed

text \<open>Whatever bytes arrive: a header that the checked reader returns is valid.\<close>

lemma read_batch_header_valid:
  assumes "LATEST_MAX_CERTIFICATES n \<le> u16_max" "read_batch_header n cr bs = Ok (h, rest)"
  shows "valid_header n cr h"
proof -
  obtain b1 bid b2 a b3 r b4 t b5 c b6 nt b7 tids b8 np b9 prev b10 s where
    rd: "read_field b1 = Ok (bid, b2)" "read_address cr b2 = Ok (a, b3)"
    "read_u64 b3 = Ok (r, b4)" "read_i64 b4 = Ok (t, b5)" "read_field b5 = Ok (c, b6)"
    "read_many nt read_transmission_id b7 = Ok (tids, b8)"
    "read_chunks np 32 read_field b9 = Ok (prev, b10)" "read_signature cr b10 = Ok (s, rest)"
    and h: "batch_header_from n cr a r t c (iset_of_list tids) (iset_of_list prev) s = Ok h"
      "batch_id h = bid"
    using assms(2)
    unfolding read_batch_header_def read_batch_header_with_unchecked_def
      read_then_Ok_iff read_ensure_Ok_iff read_lift_Ok_iff ensure_Ok_iff if_False sum.inject
      prod.inject
    by blast
  have "\<forall>i\<in>set tids. valid_transmission_id i"
    by (rule conjunct2, rule read_many_sound) (erule read_transmission_id_valid, rule rd(6))
  moreover have "\<forall>i\<in>set prev. i < field_modulus"
    by (rule conjunct2, rule read_chunks_sound) (erule read_field_less, rule rd(7))
  ultimately have v: "bid < field_modulus" "valid_address cr a" "r \<le> u64_max"
      "i64_min \<le> t \<and> t \<le> i64_max" "c < field_modulus" "valid_signature cr s"
      "\<forall>i\<in>set tids. valid_transmission_id i" "\<forall>i\<in>set prev. i < field_modulus"
    using read_field_less[OF rd(1)] read_address_valid[OF rd(2)] read_uint_max(3)[OF rd(3)]
      read_i64_range[OF rd(4)] read_field_less[OF rd(5)] read_signature_valid[OF rd(8)]
    by blast+
  have parts: "h = \<lparr>batch_id = bid, author = a, round = r, timestamp = t, committee_id = c,
      transmission_ids = iset_of_list tids, previous_certificate_ids = iset_of_list prev,
      header_signature = s\<rparr>"
    using h by (auto simp: batch_header_from_def batch_header_from_unchecked_def result_simps)
  then show ?thesis
    using assms(1) v h(1) by (simp add: valid_header_def wf_header_values_def recheck_header_def)
qed

subsection \<open>The batch ID commits to the content\<close>

lemma batch_id_preimage_bytes:
  assumes "i64_min \<le> t \<and> t \<le> i64_max" "\<forall>i\<in>set tids. valid_transmission_id i"
    "\<forall>i\<in>set prev. i < field_modulus" "length tids \<le> u32_max" "length prev \<le> u32_max"
  obtains tb tidsb prevb where "write_i64 t = Ok tb"
    "write_seq (map write_transmission_id tids) = Ok tidsb"
    "write_seq (map write_field prev) = Ok prevb"
    "batch_id_preimage a r t c tids prev = Ok (le_bytes 32 a @ le_bytes 8 r @ tb @ le_bytes 32 c
       @ le_bytes 4 (length tids) @ tidsb @ le_bytes 4 (length prev) @ prevb)"
proof -
  obtain tb where t: "write_i64 t = Ok tb" using i64_bytes.write_total[OF assms(1)] by blast
  obtain tidsb where tids: "write_seq (map write_transmission_id tids) = Ok tidsb"
    using transmission_id_bytes.write_seq_total[OF assms(2)] by blast
  obtain prevb where prev: "write_seq (map write_field prev) = Ok prevb"
    using field_bytes.write_seq_total[OF assms(3)] by blast
  have "write_len 4 (length tids) = Ok (le_bytes 4 (length tids))"
    "write_len 4 (length prev) = Ok (le_bytes 4 (length prev))"
    by (rule write_len_uint, rule assms(4,5)[unfolded max_less_iff])+
  then show thesis
    using that t tids prev
    by (simp add: batch_id_preimage_def write_seq_append write_address_def write_field_def
        write_uint_def)
qed

lemma batch_id_preimage_inject:
  assumes "valid_address cr a" "r \<le> u64_max" "i64_min \<le> t \<and> t \<le> i64_max" "c < field_modulus"
    "\<forall>i\<in>set tids. valid_transmission_id i" "\<forall>i\<in>set prev. i < field_modulus"
    "length tids \<le> u32_max" "length prev \<le> u32_max"
    and "valid_address cr a'" "r' \<le> u64_max" "i64_min \<le> t' \<and> t' \<le> i64_max"
    "c' < field_modulus" "\<forall>i\<in>set tids'. valid_transmission_id i"
    "\<forall>i\<in>set prev'. i < field_modulus" "length tids' \<le> u32_max" "length prev' \<le> u32_max"
    and "batch_id_preimage a r t c tids prev = batch_id_preimage a' r' t' c' tids' prev'"
  shows "a = a' \<and> r = r' \<and> t = t' \<and> c = c' \<and> tids = tids' \<and> prev = prev'"
proof -
  obtain b1 b2 b3 where b: "write_i64 t = Ok b1" "write_seq (map write_transmission_id tids) = Ok b2"
    "write_seq (map write_field prev) = Ok b3"
    "batch_id_preimage a r t c tids prev = Ok (le_bytes 32 a @ le_bytes 8 r @ b1 @ le_bytes 32 c
       @ le_bytes 4 (length tids) @ b2 @ le_bytes 4 (length prev) @ b3)"
    by (rule batch_id_preimage_bytes[OF assms(3,5,6,7,8)])
  obtain d1 d2 d3 where d: "write_i64 t' = Ok d1" "write_seq (map write_transmission_id tids') = Ok d2"
    "write_seq (map write_field prev') = Ok d3"
    "batch_id_preimage a' r' t' c' tids' prev' = Ok (le_bytes 32 a' @ le_bytes 8 r' @ d1
       @ le_bytes 32 c' @ le_bytes 4 (length tids') @ d2 @ le_bytes 4 (length prev') @ d3)"
    by (rule batch_id_preimage_bytes[OF assms(11,13,14,15,16)])
  note eq = assms(17)[unfolded b(4) d(4), THEN arg_cong[where f = ok], simplified]
  have 1: "a = a' \<and> le_bytes 8 r @ b1 @ le_bytes 32 c @ le_bytes 4 (length tids) @ b2
      @ le_bytes 4 (length prev) @ b3 = le_bytes 8 r' @ d1 @ le_bytes 32 c'
      @ le_bytes 4 (length tids') @ d2 @ le_bytes 4 (length prev') @ d3"
    using eq field_bytes.prefix_free[of a a'] assms(1,9)
    by (auto simp: write_field_def write_uint_def valid_address_def)
  have 2: "r = r' \<and> b1 @ le_bytes 32 c @ le_bytes 4 (length tids) @ b2
      @ le_bytes 4 (length prev) @ b3 = d1 @ le_bytes 32 c'
      @ le_bytes 4 (length tids') @ d2 @ le_bytes 4 (length prev') @ d3"
    using 1[THEN conjunct2]
    by (intro uint.prefix_free[OF assms(2,10)[unfolded max_less_iff]]) (simp_all add: write_uint_def)
  have 3: "t = t' \<and> le_bytes 32 c @ le_bytes 4 (length tids) @ b2
      @ le_bytes 4 (length prev) @ b3 = le_bytes 32 c'
      @ le_bytes 4 (length tids') @ d2 @ le_bytes 4 (length prev') @ d3"
    by (rule i64_bytes.prefix_free[OF assms(3,11) b(1) d(1) 2[THEN conjunct2]])
  have 4: "c = c' \<and> le_bytes 4 (length tids) @ b2 @ le_bytes 4 (length prev) @ b3 =
      le_bytes 4 (length tids') @ d2 @ le_bytes 4 (length prev') @ d3"
    using 3[THEN conjunct2]
    by (intro field_bytes.prefix_free[OF assms(4,12)])
      (simp_all add: write_field_def write_uint_def)
  have 5: "length tids = length tids' \<and> b2 @ le_bytes 4 (length prev) @ b3 =
      d2 @ le_bytes 4 (length prev') @ d3"
    using 4[THEN conjunct2]
    by (intro uint.prefix_free[OF assms(7,15)[unfolded max_less_iff]]) (simp_all add: write_uint_def)
  have 6: "tids = tids' \<and> le_bytes 4 (length prev) @ b3 = le_bytes 4 (length prev') @ d3"
    using transmission_id_bytes.seq_prefix_free[OF assms(5,13) _ b(2) d(2)] 5 by blast
  have 7: "length prev = length prev' \<and> b3 = d3"
    using 6[THEN conjunct2]
    by (intro uint.prefix_free[OF assms(8,16)[unfolded max_less_iff]]) (simp_all add: write_uint_def)
  have "prev = prev' \<and> [] = []"
    using field_bytes.seq_prefix_free[OF assms(6,14) _ b(3) d(3), of "[]" "[]"] 7 by auto
  then show ?thesis using 1 2 3 4 6 by blast
qed

lemma same_batch_id:
  assumes "valid_header n cr h" "valid_header m cr h'" "batch_id h = batch_id h'"
  shows "h' = h\<lparr>header_signature := header_signature h'\<rparr> \<or>
    (\<exists>p q. p \<noteq> q \<and> hash_bhp1024 cr p = Ok (batch_id h) \<and> hash_bhp1024 cr q = Ok (batch_id h))"
proof -
  note v = assms(1,2)[unfolded valid_header_def wf_header_values_def recheck_header_Ok_iff]
  have len: "length (transmission_ids x) \<le> u32_max" "length (previous_certificate_ids x) \<le> u32_max"
    if "valid_header k cr x" for k x
    using that
    by (auto simp: valid_header_def recheck_header_Ok_iff MAX_TRANSMISSIONS_PER_BATCH_def
        u16_max_def u32_max_def)
  obtain p q where p: "batch_id_preimage (author h) (round h) (timestamp h) (committee_id h)
        (transmission_ids h) (previous_certificate_ids h) = Ok p"
      "hash_bhp1024 cr (to_bits_le p) = Ok (batch_id h)"
    and q: "batch_id_preimage (author h') (round h') (timestamp h') (committee_id h')
        (transmission_ids h') (previous_certificate_ids h') = Ok q"
      "hash_bhp1024 cr (to_bits_le q) = Ok (batch_id h')"
    using v by (auto simp: compute_batch_id_def try_bind_Ok_iff)
  show ?thesis
  proof (cases "p = q")
    case True
    then have "author h = author h' \<and> round h = round h' \<and> timestamp h = timestamp h' \<and>
        committee_id h = committee_id h' \<and> transmission_ids h = transmission_ids h' \<and>
        previous_certificate_ids h = previous_certificate_ids h'"
      using v p(1) q(1) len[OF assms(1)] len[OF assms(2)]
      by (intro batch_id_preimage_inject[of cr]) auto
    then show ?thesis using assms(3) by (cases h, cases h') simp
  next
    case False
    then show ?thesis using p(2) q(2) assms(3) inj_to_bits_le by metis
  qed
qed

section \<open>Batch certificates\<close>

record batch_certificate =
  batch_header :: batch_header
  signatures :: "signature list"

abbreviation cert_id :: "batch_certificate \<Rightarrow> field" where
  "cert_id c \<equiv> batch_id (batch_header c)"
abbreviation cert_author :: "batch_certificate \<Rightarrow> address" where
  "cert_author c \<equiv> author (batch_header c)"
abbreviation cert_round :: "batch_certificate \<Rightarrow> u64" where
  "cert_round c \<equiv> round (batch_header c)"
abbreviation cert_timestamp :: "batch_certificate \<Rightarrow> i64" where
  "cert_timestamp c \<equiv> timestamp (batch_header c)"
abbreviation cert_committee_id :: "batch_certificate \<Rightarrow> field" where
  "cert_committee_id c \<equiv> committee_id (batch_header c)"
abbreviation cert_transmission_ids :: "batch_certificate \<Rightarrow> transmission_id list" where
  "cert_transmission_ids c \<equiv> transmission_ids (batch_header c)"
abbreviation cert_previous_ids :: "batch_certificate \<Rightarrow> field list" where
  "cert_previous_ids c \<equiv> previous_certificate_ids (batch_header c)"

text \<open>Certificates compare by their batch ID, so a set of them has at most one per ID.\<close>

abbreviation cset_insert :: "batch_certificate \<Rightarrow> batch_certificate list \<Rightarrow> batch_certificate list" where
  "cset_insert \<equiv> iset_insert_key cert_id"

definition cset_of_list :: "batch_certificate list \<Rightarrow> batch_certificate list" where
  "cset_of_list cs = fold cset_insert cs []"

lemma fold_cset_insert_distinct:
  "distinct (map cert_id (ys @ xs)) \<Longrightarrow> fold cset_insert xs ys = ys @ xs"
  by (induction xs arbitrary: ys) (auto simp: iset_insert_key_def)

lemma cset_of_list_distinct: "distinct (map cert_id cs) \<Longrightarrow> cset_of_list cs = cs"
  using fold_cset_insert_distinct[of "[]" cs] by (simp add: cset_of_list_def)

definition max_signatures :: "network \<Rightarrow> u16" where
  "max_signatures n = LATEST_MAX_CERTIFICATES n"

definition batch_certificate_from_unchecked ::
    "batch_header \<Rightarrow> signature list \<Rightarrow> batch_certificate result" where
  "batch_certificate_from_unchecked h sigs =
     ensure (sigs \<noteq> []) ''Batch certificate must contain signatures''
     (Ok \<lparr>batch_header = h, signatures = sigs\<rparr>)"

definition batch_certificate_from ::
    "network \<Rightarrow> crypto \<Rightarrow> batch_header \<Rightarrow> signature list \<Rightarrow> batch_certificate result" where
  "batch_certificate_from n cr h sigs =
     ensure (length sigs \<le> max_signatures n) ''Invalid number of signatures''
     (let signature_authors = remdups (map (to_address cr) sigs) in
      ensure (author h \<notin> set signature_authors)
        ''The author's signature was included in the signers''
     (ensure (length signature_authors = length sigs)
        ''A duplicate author was found in the set of signatures''
     (ensure (\<forall>s\<in>set sigs. verify cr s (to_address cr s) [batch_id h])
        ''Invalid batch certificate signature''
     (batch_certificate_from_unchecked h sigs))))"

lemma length_remdups_eq_iff: "length (remdups (map f xs)) = length xs \<longleftrightarrow> distinct (map f xs)"
  by (metis length_remdups_card_conv distinct_card card_distinct length_map)

lemma batch_certificate_from_Ok_iff:
  "batch_certificate_from n cr h sigs = Ok c \<longleftrightarrow>
     sigs \<noteq> [] \<and> length sigs \<le> max_signatures n \<and> author h \<notin> to_address cr ` set sigs \<and>
     distinct (map (to_address cr) sigs) \<and>
     (\<forall>s\<in>set sigs. verify cr s (to_address cr s) [batch_id h]) \<and>
     c = \<lparr>batch_header = h, signatures = sigs\<rparr>"
  unfolding batch_certificate_from_def batch_certificate_from_unchecked_def Let_def
    ensure_Ok_iff length_remdups_eq_iff
  by auto

definition write_batch_certificate :: "batch_certificate writer" where
  "write_batch_certificate c =
     write_seq ([write_u8 1, write_batch_header (batch_header c),
         write_len 2 (length (signatures c))]
       @ map write_signature (signatures c))"

definition read_signatures :: "network \<Rightarrow> crypto \<Rightarrow> signature list reader" where
  "read_signatures n cr =
     read_then read_u16 (\<lambda>num_signatures.
     read_ensure (num_signatures \<le> max_signatures n) ''Number of signatures exceeds the maximum'' (
     read_then (read_chunks num_signatures 128 (read_signature cr)) (\<lambda>sigs.
     read_lift (Ok (iset_of_list sigs)))))"

definition read_batch_certificate :: "network \<Rightarrow> crypto \<Rightarrow> batch_certificate reader" where
  "read_batch_certificate n cr =
     read_then read_u8 (\<lambda>version.
     read_ensure (version = 1) ''Invalid batch certificate version'' (
     read_then (read_batch_header n cr) (\<lambda>h.
     read_then (read_signatures n cr) (\<lambda>sigs.
     read_lift (batch_certificate_from n cr h sigs)))))"

definition read_batch_certificate_unchecked :: "network \<Rightarrow> crypto \<Rightarrow> batch_certificate reader" where
  "read_batch_certificate_unchecked n cr =
     read_then read_u8 (\<lambda>version.
     read_ensure (version = 1) ''Invalid batch certificate version'' (
     read_then (read_batch_header_unchecked n cr) (\<lambda>h.
     read_then (read_signatures n cr) (\<lambda>sigs.
     read_lift (batch_certificate_from_unchecked h sigs)))))"

definition valid_certificate :: "network \<Rightarrow> crypto \<Rightarrow> batch_certificate \<Rightarrow> bool" where
  "valid_certificate n cr c \<longleftrightarrow> valid_header n cr (batch_header c) \<and>
     (\<forall>s\<in>set (signatures c). valid_signature cr s) \<and>
     batch_certificate_from n cr (batch_header c) (signatures c) = Ok c"

lemma valid_certificate_iff:
  "valid_certificate n cr c \<longleftrightarrow> valid_header n cr (batch_header c) \<and>
     signatures c \<noteq> [] \<and> length (signatures c) \<le> max_signatures n \<and>
     (\<forall>s\<in>set (signatures c). valid_signature cr s \<and> verify cr s (to_address cr s) [cert_id c]) \<and>
     distinct (map (to_address cr) (signatures c)) \<and>
     cert_author c \<notin> to_address cr ` set (signatures c)"
  unfolding valid_certificate_def batch_certificate_from_Ok_iff by (cases c) auto

lemma write_batch_certificate_bytes:
  assumes "valid_certificate n cr c"
  obtains hb sb where "write_batch_header (batch_header c) = Ok hb"
    "write_seq (map write_signature (signatures c)) = Ok sb"
    "write_batch_certificate c = Ok ([1] @ hb @ le_bytes 2 (length (signatures c)) @ sb)"
proof -
  note v = assms[unfolded valid_certificate_iff]
  obtain hb where hb: "write_batch_header (batch_header c) = Ok hb"
    using batch_header_bytes.write_total v by blast
  obtain sb where sb: "write_seq (map write_signature (signatures c)) = Ok sb"
    using signature_bytes.write_seq_total v by blast
  have "length (signatures c) < 256 ^ 2"
    using v by (auto simp: max_signatures_def valid_header_def u16_max_def)
  from write_len_uint[OF this] show thesis
    using that hb sb by (simp add: write_batch_certificate_def write_uint_def)
qed

lemma read_signatures_back:
  assumes "valid_certificate n cr c" "write_seq (map write_signature (signatures c)) = Ok sb"
  shows "read_signatures n cr (le_bytes 2 (length (signatures c)) @ sb @ rest)
    = Ok (signatures c, rest)"
proof -
  note v = assms(1)[unfolded valid_certificate_iff]
  have "read_chunks (length (signatures c)) 128 (read_signature cr) (sb @ rest)
      = Ok (signatures c, rest)"
    using signature_bytes.read_chunks_back assms(2) v by blast
  moreover have "length (signatures c) \<le> u16_max"
    using v by (auto simp: max_signatures_def valid_header_def)
  moreover have "distinct (signatures c)" using v by (simp add: distinct_map)
  ultimately show ?thesis using v by (simp add: read_signatures_def)
qed

lemma read_batch_certificate_back:
  assumes "valid_certificate n cr c" "write_batch_certificate c = Ok bs"
  shows "read_batch_certificate n cr (bs @ rest) = Ok (c, rest)"
    and "read_batch_certificate_unchecked n cr (bs @ rest) = Ok (c, rest)"
proof -
  obtain hb sb where w: "write_batch_header (batch_header c) = Ok hb"
    "write_seq (map write_signature (signatures c)) = Ok sb"
    "bs = [1] @ hb @ le_bytes 2 (length (signatures c)) @ sb"
    using write_batch_certificate_bytes[OF assms(1)] assms(2) by (metis sum.inject(2))
  have h: "valid_header n cr (batch_header c)"
    using assms(1) unfolding valid_certificate_def by blast
  note rd = read_batch_header_back[OF h w(1)] read_signatures_back[OF assms(1) w(2)]
  have mk: "batch_certificate_from n cr (batch_header c) (signatures c) = Ok c"
    using assms(1) unfolding valid_certificate_def by blast
  then have "batch_certificate_from_unchecked (batch_header c) (signatures c) = Ok c"
    by (simp add: batch_certificate_from_Ok_iff batch_certificate_from_unchecked_def)
  then show "read_batch_certificate n cr (bs @ rest) = Ok (c, rest)"
    and "read_batch_certificate_unchecked n cr (bs @ rest) = Ok (c, rest)"
    using rd mk unfolding w(3)
    by (simp_all add: read_batch_certificate_def read_batch_certificate_unchecked_def
        read_batch_header_def read_batch_header_unchecked_def)
qed

interpretation batch_certificate_bytes:
  codec write_batch_certificate "read_batch_certificate n cr" "valid_certificate n cr" for n cr
proof unfold_locales
  fix c
  assume c: "valid_certificate n cr c"
  then obtain bs where "write_batch_certificate c = Ok bs"
    using write_batch_certificate_bytes[OF c] by metis
  then show "\<exists>bs. write_batch_certificate c = Ok bs \<and>
      (\<forall>rest. read_batch_certificate n cr (bs @ rest) = Ok (c, rest))"
    using read_batch_certificate_back(1)[OF c] by blast
qed

lemma read_batch_certificate_valid:
  assumes "LATEST_MAX_CERTIFICATES n \<le> u16_max" "read_batch_certificate n cr bs = Ok (c, rest)"
  shows "valid_certificate n cr c"
proof -
  obtain b1 h b2 k sigs b3 where rd: "read_batch_header n cr b1 = Ok (h, b2)"
      "read_chunks k 128 (read_signature cr) b3 = Ok (sigs, rest)"
      "batch_certificate_from n cr h (iset_of_list sigs) = Ok c"
    using assms(2)
    unfolding read_batch_certificate_def read_signatures_def read_then_Ok_iff read_ensure_Ok_iff
      read_lift_Ok_iff sum.inject prod.inject
    by blast
  have "\<forall>s\<in>set sigs. valid_signature cr s"
    by (rule conjunct2, rule read_chunks_sound) (erule read_signature_valid, rule rd(2))
  moreover have "c = \<lparr>batch_header = h, signatures = iset_of_list sigs\<rparr>"
    using rd(3) unfolding batch_certificate_from_Ok_iff by blast
  ultimately show ?thesis
    using read_batch_header_valid[OF assms(1) rd(1)] rd(3) by (simp add: valid_certificate_def)
qed

section \<open>Headers and certificates as validators make them\<close>

lemma batch_header_new_valid:
  assumes "group_laws cr" "crypto_ranges cr" "nonce < scalar_modulus"
    and "LATEST_MAX_CERTIFICATES n \<le> u16_max" "r \<le> u64_max" "i64_min \<le> t" "t \<le> i64_max"
    and "c < field_modulus" "\<forall>i\<in>set tids. valid_transmission_id i" "distinct tids"
    and "\<forall>i\<in>set prev. i < field_modulus" "distinct prev"
    and "batch_header_new n cr nonce key r t c tids prev = Ok h"
  shows "valid_header n cr h"
proof -
  obtain a bid s where *: "address_try_from cr key = Ok a"
      "compute_batch_id cr a r t c tids prev = Ok bid" "sign cr nonce key [bid] = Ok s"
      "h = \<lparr>batch_id = bid, author = a, round = r, timestamp = t, committee_id = c,
        transmission_ids = tids, previous_certificate_ids = prev, header_signature = s\<rparr>"
    using assms(13) unfolding batch_header_new_def result_simps by blast
  have "bid < field_modulus"
    using *(2) assms(2) by (auto simp: compute_batch_id_def result_simps crypto_ranges_def)
  moreover have "valid_signature cr s" "valid_address cr a"
    using sign_valid[OF assms(2) *(3)] sign_address[OF *(3)] *(1) by simp_all
  ultimately show ?thesis
    using batch_header_new_rechecks[OF assms(1,3,13)] assms(4-12) *(4)
    by (simp add: valid_header_def wf_header_values_def)
qed

text \<open>A concrete header and certificate: the author is the validator with key \<open>k\<close>, the endorsers
  those with the given keys.\<close>

definition sample_header :: "nat \<Rightarrow> u64 \<Rightarrow> transmission_id list \<Rightarrow> field list \<Rightarrow> batch_header" where
  "sample_header k r tids prev =
     the (ok (batch_header_new MainnetV0 sample_crypto 5 (sample_key k) r 100 7 tids prev))"

definition sample_signature :: "nat \<Rightarrow> field \<Rightarrow> signature" where
  "sample_signature k i = the (ok (sign sample_crypto 5 (sample_key k) [i]))"

definition sample_certificate ::
    "nat \<Rightarrow> u64 \<Rightarrow> transmission_id list \<Rightarrow> field list \<Rightarrow> nat list \<Rightarrow> batch_certificate" where
  "sample_certificate k r tids prev endorsers =
     \<lparr>batch_header = sample_header k r tids prev,
      signatures = map (\<lambda>j. sample_signature j (batch_id (sample_header k r tids prev))) endorsers\<rparr>"

lemma mainnet_max_certificates: "LATEST_MAX_CERTIFICATES MainnetV0 = 40"
  by (simp add: LATEST_MAX_CERTIFICATES_def MainnetV0_def)

lemma sample_signature_Ok: "sign sample_crypto 5 (sample_key k) [i] = Ok (sample_signature k i)"
  using sample_sign_ok[of 5 "sample_key k" i] by (auto simp: sample_signature_def is_ok_iff)

lemma sample_address: "k < 1000 \<Longrightarrow> address_try_from sample_crypto (sample_key k) = Ok (2 * k + 2)"
  by (simp add: account_eval)

lemma sample_signature_address: "k < 1000 \<Longrightarrow> to_address sample_crypto (sample_signature k i) = 2 * k + 2"
  using sign_address[OF sample_signature_Ok[of k i]] sample_address[of k] by simp

lemma sample_header_Ok:
  assumes "k < 1000" "\<forall>i\<in>set tids. valid_transmission_id i" "length tids \<le> 50"
    and "\<forall>i\<in>set prev. i < field_modulus" "length prev \<le> 40" "prev = [] \<longleftrightarrow> r \<le> 1"
  shows "batch_header_new MainnetV0 sample_crypto 5 (sample_key k) r 100 7 tids prev
    = Ok (sample_header k r tids prev)"
proof -
  have "length tids \<le> u32_max" "length prev \<le> u32_max" "i64_min \<le> 100 \<and> 100 \<le> i64_max"
    using assms(3,5) by (simp_all add: u32_max_def i64_min_def i64_max_def)
  then obtain p where "batch_id_preimage (2 * k + 2) r 100 7 tids prev = Ok p"
    using batch_id_preimage_bytes[of 100 tids prev "2 * k + 2" r 7] assms(2,4) by blast
  then obtain bid where "compute_batch_id sample_crypto (2 * k + 2) r 100 7 tids prev = Ok bid"
    by (simp add: compute_batch_id_def sample_crypto_def)
  then have "is_ok (batch_header_new MainnetV0 sample_crypto 5 (sample_key k) r 100 7 tids prev)"
    using assms sample_address[OF assms(1)] sample_sign_ok[of 5 "sample_key k" bid]
    by (auto simp: batch_header_new_def header_checks_def mainnet_max_certificates
        MAX_TRANSMISSIONS_PER_BATCH_def is_ok_iff)
  then show ?thesis by (auto simp: sample_header_def is_ok_iff)
qed

lemma sample_header_valid:
  assumes "k < 1000" "\<forall>i\<in>set tids. valid_transmission_id i" "length tids \<le> 50" "distinct tids"
    and "\<forall>i\<in>set prev. i < field_modulus" "length prev \<le> 40" "prev = [] \<longleftrightarrow> r \<le> 1" "distinct prev"
    and "r \<le> u64_max"
  shows "valid_header MainnetV0 sample_crypto (sample_header k r tids prev)"
    and "author (sample_header k r tids prev) = 2 * k + 2" "round (sample_header k r tids prev) = r"
    "transmission_ids (sample_header k r tids prev) = tids"
    "previous_certificate_ids (sample_header k r tids prev) = prev"
    "timestamp (sample_header k r tids prev) = 100"
proof -
  note new = sample_header_Ok[OF assms(1-3,5-7)]
  obtain a bid s where a: "address_try_from sample_crypto (sample_key k) = Ok a"
    and e': "\<lparr>batch_id = bid, author = a, round = r, timestamp = 100, committee_id = 7,
      transmission_ids = tids, previous_certificate_ids = prev, header_signature = s\<rparr>
      = sample_header k r tids prev"
    using new unfolding batch_header_new_def header_checks_Ok_iff try_bind_Ok_iff sum.inject by blast
  note e = e'[symmetric]
  have "a = 2 * k + 2" using a sample_address[OF assms(1)] by simp
  show "valid_header MainnetV0 sample_crypto (sample_header k r tids prev)"
    by (rule batch_header_new_valid[OF sample_group_laws sample_ranges _ _ assms(9) _ _ _ assms(2,4,5,8) new])
      (simp_all add: scalar_modulus_def field_modulus_def mainnet_max_certificates u16_max_def
        i64_min_def i64_max_def)
  show "author (sample_header k r tids prev) = 2 * k + 2" "round (sample_header k r tids prev) = r"
    "transmission_ids (sample_header k r tids prev) = tids"
    "previous_certificate_ids (sample_header k r tids prev) = prev"
    "timestamp (sample_header k r tids prev) = 100"
    using \<open>a = 2 * k + 2\<close> by (simp_all add: e)
qed

lemma sample_signature_verifies:
  "k < 1000 \<Longrightarrow> verify sample_crypto (sample_signature k i) (2 * k + 2) [i]"
  using sign_imp_verify[OF sample_group_laws _ sample_signature_Ok[of k i]]
    sample_signature_address[of k i] by (simp add: scalar_modulus_def)

lemma sample_certificate_valid:
  assumes "k < 1000" "\<forall>i\<in>set tids. valid_transmission_id i" "length tids \<le> 50" "distinct tids"
    and "\<forall>i\<in>set prev. i < field_modulus" "length prev \<le> 40" "prev = [] \<longleftrightarrow> r \<le> 1" "distinct prev"
    and "r \<le> u64_max"
    and "\<forall>j\<in>set endorsers. j < 1000" "distinct (k # endorsers)" "endorsers \<noteq> []" "length endorsers \<le> 40"
  shows "valid_certificate MainnetV0 sample_crypto (sample_certificate k r tids prev endorsers)"
proof -
  note h = sample_header_valid[OF assms(1-9)]
  let ?b = "batch_id (sample_header k r tids prev)"
  have a: "to_address sample_crypto (sample_signature j ?b) = 2 * j + 2" if "j \<in> set endorsers" for j
    using assms(10) that by (simp add: sample_signature_address)
  have "map (to_address sample_crypto \<circ> (\<lambda>j. sample_signature j ?b)) endorsers = map (\<lambda>j. 2 * j + 2) endorsers"
    using a by simp
  then have "distinct (map (to_address sample_crypto \<circ> (\<lambda>j. sample_signature j ?b)) endorsers)"
    using assms(11) by (simp only:) (simp add: distinct_map inj_on_def)
  moreover have "valid_signature sample_crypto (sample_signature j ?b)" for j
    by (rule sign_valid(1)[OF sample_ranges sample_signature_Ok])
  moreover have "verify sample_crypto (sample_signature j ?b) (2 * j + 2) [?b]" if "j \<in> set endorsers" for j
    by (rule sample_signature_verifies) (use assms(10) that in blast)
  ultimately show ?thesis
    using h assms(11-13) a
    by (auto simp: valid_certificate_iff sample_certificate_def max_signatures_def
        mainnet_max_certificates)
qed

text \<open>A certificate with chosen ID, author, round and predecessors, for code that looks at nothing else.\<close>

definition plain_certificate :: "field \<Rightarrow> address \<Rightarrow> u64 \<Rightarrow> field list \<Rightarrow> batch_certificate" where
  "plain_certificate i a r prev =
     \<lparr>batch_header = \<lparr>batch_id = i, author = a, round = r, timestamp = 0, committee_id = 0,
        transmission_ids = [], previous_certificate_ids = prev, header_signature = sample_signature 1 i\<rparr>,
      signatures = []\<rparr>"

lemma plain_certificate_fields [simp]:
  "cert_id (plain_certificate i a r prev) = i" "cert_author (plain_certificate i a r prev) = a"
  "cert_round (plain_certificate i a r prev) = r" "cert_previous_ids (plain_certificate i a r prev) = prev"
  by (simp_all add: plain_certificate_def)

section \<open>Properties\<close>

text \<open>A header that a validator creates reaches its peers unchanged: it encodes, and both the
  checked and the unchecked reader give it back from the bytes, leaving what follows unread.\<close>

theorem batch_header_round_trip:
  assumes "group_laws cr" "crypto_ranges cr" "nonce < scalar_modulus"
    and "LATEST_MAX_CERTIFICATES n \<le> u16_max" "r \<le> u64_max" "i64_min \<le> t" "t \<le> i64_max"
    and "c < field_modulus" "\<forall>i\<in>set tids. valid_transmission_id i" "distinct tids"
    and "\<forall>i\<in>set prev. i < field_modulus" "distinct prev"
    and "batch_header_new n cr nonce key r t c tids prev = Ok h"
  shows "\<exists>bs. write_batch_header h = Ok bs \<and>
    (\<forall>rest. read_batch_header n cr (bs @ rest) = Ok (h, rest) \<and>
            read_batch_header_unchecked n cr (bs @ rest) = Ok (h, rest))"
proof -
  have v: "valid_header n cr h" by (rule batch_header_new_valid[OF assms])
  then obtain bs where "write_batch_header h = Ok bs" using batch_header_bytes.write_total by blast
  then show ?thesis
    using read_batch_header_back[OF v]
    by (auto simp: read_batch_header_def read_batch_header_unchecked_def)
qed

theorem batch_header_round_trip_witness:
  "\<exists>h bs. batch_header_new MainnetV0 sample_crypto 5 (sample_key 2) 2 100 7
        [Solution 1 2, Transaction 3 4] [11, 12] = Ok h \<and>
     write_batch_header h = Ok bs \<and> read_batch_header MainnetV0 sample_crypto (bs @ [0]) = Ok (h, [0])"
proof -
  let ?tids = "[Solution 1 2, Transaction 3 4]"
  have new: "batch_header_new MainnetV0 sample_crypto 5 (sample_key 2) 2 100 7 ?tids [11, 12]
      = Ok (sample_header 2 2 ?tids [11, 12])"
    by (rule sample_header_Ok) (simp_all add: field_modulus_def u64_max_def u128_max_def)
  have "\<exists>bs. write_batch_header (sample_header 2 2 ?tids [11, 12]) = Ok bs \<and>
      (\<forall>rest. read_batch_header MainnetV0 sample_crypto (bs @ rest)
                = Ok (sample_header 2 2 ?tids [11, 12], rest) \<and>
              read_batch_header_unchecked MainnetV0 sample_crypto (bs @ rest)
                = Ok (sample_header 2 2 ?tids [11, 12], rest))"
    by (rule batch_header_round_trip[OF sample_group_laws sample_ranges _ _ _ _ _ _ _ _ _ _ new])
      (simp_all add: scalar_modulus_def field_modulus_def mainnet_max_certificates u16_max_def
        u64_max_def u128_max_def i64_min_def i64_max_def)
  then show ?thesis using new by blast
qed

text \<open>Whatever bytes a peer sends, a header that the checked reader accepts satisfies every
  structural rule, carries the hash of its own content as its ID, and is signed by its author.\<close>

theorem read_batch_header_sound:
  assumes "LATEST_MAX_CERTIFICATES n \<le> u16_max" "read_batch_header n cr bs = Ok (h, rest)"
  shows "compute_batch_id cr (author h) (round h) (timestamp h) (committee_id h)
      (transmission_ids h) (previous_certificate_ids h) = Ok (batch_id h) \<and>
    verify cr (header_signature h) (author h) [batch_id h] \<and>
    length (transmission_ids h) \<le> MAX_TRANSMISSIONS_PER_BATCH \<and> distinct (transmission_ids h) \<and>
    length (previous_certificate_ids h) \<le> LATEST_MAX_CERTIFICATES n \<and>
    distinct (previous_certificate_ids h) \<and> (previous_certificate_ids h = [] \<longleftrightarrow> round h \<le> 1)"
  using read_batch_header_valid[OF assms]
  by (simp add: valid_header_def wf_header_values_def recheck_header_Ok_iff)

theorem read_batch_header_sound_witness:
  "\<exists>bs h. read_batch_header MainnetV0 sample_crypto bs = Ok (h, []) \<and>
     verify sample_crypto (header_signature h) (author h) [batch_id h]"
proof -
  let ?h = "sample_header 2 1 [] []"
  have v: "valid_header MainnetV0 sample_crypto ?h"
    by (rule sample_header_valid) (simp_all add: u64_max_def)
  obtain bs where "write_batch_header ?h = Ok bs" using batch_header_bytes.write_total[OF v] by blast
  then have r: "read_batch_header MainnetV0 sample_crypto (bs @ []) = Ok (?h, [])"
    using batch_header_bytes.read_back[OF v] by blast
  have m: "LATEST_MAX_CERTIFICATES MainnetV0 \<le> u16_max"
    by (simp add: mainnet_max_certificates u16_max_def)
  show ?thesis using r read_batch_header_sound[OF m r] by blast
qed

text \<open>The batch ID commits to the whole content of a batch: two valid headers with the same ID
  differ at most in the signature, unless they exhibit a collision of the hash function.\<close>

theorem batch_id_commits:
  assumes "valid_header n cr h" "valid_header n cr h'" "batch_id h = batch_id h'"
  shows "h' = h\<lparr>header_signature := header_signature h'\<rparr> \<or>
    (\<exists>p q. p \<noteq> q \<and> hash_bhp1024 cr p = Ok (batch_id h) \<and> hash_bhp1024 cr q = Ok (batch_id h))"
  using same_batch_id[OF assms] .

theorem batch_id_commits_witness:
  "\<exists>h. valid_header MainnetV0 sample_crypto h \<and>
     (h = h\<lparr>header_signature := header_signature h\<rparr> \<or>
      (\<exists>p q. p \<noteq> q \<and> hash_bhp1024 sample_crypto p = Ok (batch_id h) \<and>
             hash_bhp1024 sample_crypto q = Ok (batch_id h)))"
proof -
  have v: "valid_header MainnetV0 sample_crypto (sample_header 2 1 [] [])"
    by (rule sample_header_valid) (simp_all add: u64_max_def)
  show ?thesis using v batch_id_commits[OF v v refl] by blast
qed

text \<open>Certificates: a valid certificate encodes and is read back by both readers, and whatever
  the checked reader accepts is valid: at least one endorsement, each a valid signature of the batch
  ID, from pairwise distinct validators other than the author.\<close>

theorem batch_certificate_codec:
  assumes "LATEST_MAX_CERTIFICATES n \<le> u16_max"
  shows "(valid_certificate n cr c \<longrightarrow> (\<exists>bs. write_batch_certificate c = Ok bs \<and>
      (\<forall>rest. read_batch_certificate n cr (bs @ rest) = Ok (c, rest) \<and>
              read_batch_certificate_unchecked n cr (bs @ rest) = Ok (c, rest)))) \<and>
    (read_batch_certificate n cr bs = Ok (c, rest) \<longrightarrow> valid_certificate n cr c \<and>
      signatures c \<noteq> [] \<and> distinct (map (to_address cr) (signatures c)) \<and>
      cert_author c \<notin> to_address cr ` set (signatures c) \<and>
      (\<forall>s\<in>set (signatures c). verify cr s (to_address cr s) [cert_id c]))"
proof (intro conjI[of "_ \<longrightarrow> _"] impI)
  show "\<exists>bs. write_batch_certificate c = Ok bs \<and>
      (\<forall>rest. read_batch_certificate n cr (bs @ rest) = Ok (c, rest) \<and>
              read_batch_certificate_unchecked n cr (bs @ rest) = Ok (c, rest))"
    if "valid_certificate n cr c"
    using batch_certificate_bytes.write_total[OF that] read_batch_certificate_back[OF that] by blast
  show "valid_certificate n cr c \<and> signatures c \<noteq> [] \<and> distinct (map (to_address cr) (signatures c)) \<and>
      cert_author c \<notin> to_address cr ` set (signatures c) \<and>
      (\<forall>s\<in>set (signatures c). verify cr s (to_address cr s) [cert_id c])"
    if "read_batch_certificate n cr bs = Ok (c, rest)"
    using read_batch_certificate_valid[OF assms that] valid_certificate_iff[of n cr c] by blast
qed

theorem batch_certificate_codec_witness:
  "\<exists>c bs. read_batch_certificate MainnetV0 sample_crypto bs = Ok (c, []) \<and> signatures c \<noteq> [] \<and>
     distinct (map (to_address sample_crypto) (signatures c))"
proof -
  let ?c = "sample_certificate 2 1 [] [] [3, 4]"
  have m: "LATEST_MAX_CERTIFICATES MainnetV0 \<le> u16_max"
    by (simp add: mainnet_max_certificates u16_max_def)
  have "valid_certificate MainnetV0 sample_crypto ?c"
    by (rule sample_certificate_valid) (simp_all add: u64_max_def)
  then obtain bs where "read_batch_certificate MainnetV0 sample_crypto (bs @ []) = Ok (?c, [])"
    using batch_certificate_codec[OF m] by blast
  then show ?thesis using batch_certificate_codec[OF m] by blast
qed

end
