(* ===== verification/Traversal.thy ===== *)
theory Traversal
  imports Narwhal
begin

text \<open>The depth-first traversal that both \<open>order_dag_with_dfs\<close> (\<open>node/bft/src/bft.rs\<close>) and
  \<open>sanity_check_subdag_with_dfs\<close> (\<open>subdag/src/lib.rs\<close>) run: pop a certificate from the buffer, put it
  into the commit under its round, push those of its predecessors that qualify and are not ordered
  yet.  The two differ in how predecessors are found; \<open>worklist\<close> states what the traversal needs from
  that step, and shows that it ends and collects exactly the certificates reachable from the start.\<close>

section \<open>The loop\<close>

type_synonym commit_map = "(u64, batch_certificate list) imap"

type_synonym work = "field list \<times> batch_certificate list"

abbreviation commit_insert :: "batch_certificate \<Rightarrow> commit_map \<Rightarrow> commit_map" where
  "commit_insert c \<equiv> bmap_entry [] (cert_round c) (cset_insert c)"

lemma case_sum_mono [partial_function_mono]:
  assumes "\<And>x. monotone orda ordb (\<lambda>f. B f x)" "\<And>y. monotone orda ordb (\<lambda>f. C f y)"
  shows "monotone orda ordb (\<lambda>f. case s of Inl x \<Rightarrow> B f x | Inr y \<Rightarrow> C f y)"
  using assms by (cases s) simp_all

lemma case_list_mono [partial_function_mono]:
  assumes "monotone orda ordb B" "\<And>x xs. monotone orda ordb (\<lambda>f. C f x xs)"
  shows "monotone orda ordb (\<lambda>f. case l of [] \<Rightarrow> B f | x # xs \<Rightarrow> C f x xs)"
  using assms by (cases l) simp_all

text \<open>The buffer is a stack whose top is the head of the list.  \<open>None\<close> stands for a loop that does not
  end.\<close>

partial_function (option) dfs_loop ::
    "(batch_certificate \<Rightarrow> work \<Rightarrow> work result) \<Rightarrow> commit_map \<Rightarrow> field list
      \<Rightarrow> batch_certificate list \<Rightarrow> commit_map result option" where
  "dfs_loop step commit already_ordered buffer =
     (case buffer of
        [] \<Rightarrow> Some (Ok commit)
      | c # rest \<Rightarrow>
          (case step c (already_ordered, rest) of
             Inl err \<Rightarrow> Some (Inl err)
           | Inr (already_ordered', buffer') \<Rightarrow>
               dfs_loop step (commit_insert c commit) already_ordered' buffer'))"

lemma dfs_loop_Nil [simp]: "dfs_loop step commit a [] = Some (Ok commit)"
  by (simp add: dfs_loop.simps)

lemma dfs_loop_Cons:
  "dfs_loop step commit a (c # b) =
     (case step c (a, b) of Inl err \<Rightarrow> Some (Inl err)
      | Inr (a', b') \<Rightarrow> dfs_loop step (commit_insert c commit) a' b')"
  by (simp add: dfs_loop.simps)

lemma dfs_loop_induct [consumes 1, case_names finish fail push]:
  assumes "dfs_loop step commit a b = Some res"
    and "\<And>commit a. P commit a [] (Ok commit)"
    and "\<And>commit a c b err. step c (a, b) = Inl err \<Longrightarrow> P commit a (c # b) (Inl err)"
    and "\<And>commit a c b a' b' res. step c (a, b) = Ok (a', b') \<Longrightarrow>
      dfs_loop step (commit_insert c commit) a' b' = Some res \<Longrightarrow>
      P (commit_insert c commit) a' b' res \<Longrightarrow> P commit a (c # b) res"
  shows "P commit a b res"
proof -
  let ?Q = "\<lambda>s commit a b res. s = step \<longrightarrow> dfs_loop s commit a b = Some res \<and> P commit a b res"
  have "?Q step commit a b res"
  proof (rule dfs_loop.raw_induct[of ?Q, OF _ assms(1)], goal_cases)
    case (1 dfs s commit a b res)
    show ?case
    proof (cases b)
      case Nil
      then show ?thesis using 1(2) assms(2) by auto
    next
      case (Cons c rest)
      show ?thesis
      proof (cases "s c (a, rest)")
        case (Inl err)
        then show ?thesis using 1(2) Cons assms(3) by (auto simp: dfs_loop_Cons)
      next
        case (Inr w)
        obtain a' b' where w: "w = (a', b')" by (cases w)
        have "dfs s (commit_insert c commit) a' b' = Some res" using 1(2) Cons Inr w by simp
        from 1(1)[OF this] show ?thesis using Cons Inr w assms(4)[of c a rest a' b'] by (auto simp: dfs_loop_Cons)
      qed
    qed
  qed
  then show ?thesis by blast
qed

section \<open>Commits\<close>

definition commit_certs :: "commit_map \<Rightarrow> batch_certificate set" where
  "commit_certs m = (\<Union>cs\<in>set (vals m). set cs)"

definition commit_ok :: "commit_map \<Rightarrow> bool" where
  "commit_ok m \<longleftrightarrow> wf_bmap m \<and>
     (\<forall>(r, cs)\<in>set m. cs \<noteq> [] \<and> distinct (map cert_id cs) \<and> (\<forall>c\<in>set cs. cert_round c = r))"

lemma commit_ok_wf [simp]: "commit_ok m \<Longrightarrow> wf_bmap m"
  by (simp add: commit_ok_def)

lemma commit_ok_Nil [simp]: "commit_ok []" "commit_certs [] = {}"
  by (simp_all add: commit_ok_def commit_certs_def)

lemma mem_commit_certs: "c \<in> commit_certs m \<longleftrightarrow> (\<exists>r cs. (r, cs) \<in> set m \<and> c \<in> set cs)"
  by (force simp: commit_certs_def)

lemma wf_bmap_mem: "wf_bmap m \<Longrightarrow> (k, v) \<in> set m \<longleftrightarrow> map_of m k = Some v"
  by (simp add: wf_map_def[symmetric] map_of_eq_Some_iff[OF wf_bmap_imp_wf_map[unfolded wf_map_def]])

lemma commit_okD:
  assumes "commit_ok m" "map_of m r = Some cs"
  shows "cs \<noteq> []" "distinct (map cert_id cs)" "c \<in> set cs \<Longrightarrow> cert_round c = r"
  using assms map_of_SomeD[OF assms(2)] by (auto simp: commit_ok_def)

lemma commit_okI:
  assumes "wf_bmap m"
    and "\<And>r cs. map_of m r = Some cs \<Longrightarrow>
      cs \<noteq> [] \<and> distinct (map cert_id cs) \<and> (\<forall>c\<in>set cs. cert_round c = r)"
  shows "commit_ok m"
  unfolding commit_ok_def
proof (intro conjI ballI)
  fix p assume "p \<in> set m"
  moreover obtain r cs where "p = (r, cs)" by (cases p)
  ultimately have p: "p = (r, cs)" "map_of m r = Some cs" using assms(1) by (simp_all add: wf_bmap_mem)
  show "case p of (r, cs) \<Rightarrow> cs \<noteq> [] \<and> distinct (map cert_id cs) \<and> (\<forall>c\<in>set cs. cert_round c = r)"
    using assms(2)[OF p(2)] p(1) by simp
qed (rule assms(1))

lemma commit_ok_mem:
  assumes "commit_ok m"
  shows "c \<in> commit_certs m \<longleftrightarrow> (\<exists>cs. map_of m (cert_round c) = Some cs \<and> c \<in> set cs)"
proof
  assume "c \<in> commit_certs m"
  then obtain r cs where rc: "map_of m r = Some cs" "c \<in> set cs"
    using assms by (auto simp: mem_commit_certs wf_bmap_mem)
  then show "\<exists>cs. map_of m (cert_round c) = Some cs \<and> c \<in> set cs" using commit_okD(3)[OF assms rc] by simp
qed (auto simp: mem_commit_certs dest: map_of_SomeD)

lemma commit_keys:
  assumes "commit_ok m"
  shows "set (keys m) = cert_round ` commit_certs m"
proof (intro set_eqI iffI)
  fix r assume "r \<in> set (keys m)"
  then obtain cs where "map_of m r = Some cs" using assms by (force simp: wf_bmap_mem)
  moreover from this obtain c where "c \<in> set cs" using commit_okD(1)[OF assms] by (meson list.set_sel(1))
  ultimately show "r \<in> cert_round ` commit_certs m"
    using commit_okD(3)[OF assms, of r cs c] commit_ok_mem[OF assms, of c] by auto
next
  fix r assume "r \<in> cert_round ` commit_certs m"
  then show "r \<in> set (keys m)"
    using assms by (auto simp: commit_ok_mem dest!: map_of_SomeD intro: image_eqI[where f = fst, OF fst_conv[symmetric]])
qed

lemma commit_insert_ok:
  assumes "commit_ok m"
  shows "commit_ok (commit_insert c m)"
proof (rule commit_okI)
  show "wf_bmap (commit_insert c m)" using assms by simp
  fix r cs assume "map_of (commit_insert c m) r = Some cs"
  then consider "map_of m r = Some cs"
    | "r = cert_round c" "cs = [c]"
    | cs' where "r = cert_round c" "map_of m r = Some cs'" "cs = cset_insert c cs'"
  proof (cases "r = cert_round c")
    case True
    assume "map_of (commit_insert c m) r = Some cs"
    then have "cs = cset_insert c (case map_of m r of None \<Rightarrow> [] | Some v \<Rightarrow> v)"
      using assms True by (simp add: map_of_bmap_entry)
    then show thesis using True that(2,3) by (cases "map_of m r") (simp_all add: iset_insert_key_def)
  next
    case False
    assume "map_of (commit_insert c m) r = Some cs"
    then show thesis using assms False that(1) by (simp add: map_of_bmap_entry)
  qed
  then show "cs \<noteq> [] \<and> distinct (map cert_id cs) \<and> (\<forall>c\<in>set cs. cert_round c = r)"
  proof cases
    case 1
    then show ?thesis using commit_okD[OF assms 1] by blast
  next
    case (3 cs')
    have "\<forall>x\<in>set cs. cert_round x = r"
      using commit_okD(3)[OF assms 3(2)] set_iset_insert_key_subset[of cert_id c cs'] 3(1,3) by blast
    then show ?thesis
      using distinct_iset_insert_key[OF commit_okD(2)[OF assms 3(2)]] 3(3) by simp
  qed simp
qed

lemma commit_insert_certs:
  assumes ok: "commit_ok m" and inj: "inj_on cert_id (insert c (commit_certs m))"
  shows "commit_certs (commit_insert c m) = insert c (commit_certs m)"
proof (rule set_eqI)
  fix x
  let ?old = "case map_of m (cert_round c) of None \<Rightarrow> [] | Some v \<Rightarrow> v"
  have old: "set ?old \<subseteq> commit_certs m"
  proof
    fix x assume "x \<in> set ?old"
    then obtain cs where cs: "map_of m (cert_round c) = Some cs" "x \<in> set cs"
      by (cases "map_of m (cert_round c)") auto
    then show "x \<in> commit_certs m" using commit_okD(3)[OF ok cs] commit_ok_mem[OF ok, of x] by simp
  qed
  have ins: "set (cset_insert c ?old) = insert c (set ?old)"
  proof (cases "cert_id c \<in> cert_id ` set ?old")
    case True
    then have "c \<in> set ?old" using inj old by (auto dest: inj_onD)
    then show ?thesis using True by (auto simp: iset_insert_key_def)
  qed (auto simp: iset_insert_key_def)
  show "x \<in> commit_certs (commit_insert c m) \<longleftrightarrow> x \<in> insert c (commit_certs m)"
    unfolding commit_ok_mem[OF commit_insert_ok[OF ok]] insert_iff commit_ok_mem[OF ok]
    using ins ok by (auto simp: map_of_bmap_entry split: option.splits)
qed

section \<open>The worklist contract\<close>

text \<open>\<open>edge e c p\<close>: the traversal in environment \<open>e\<close> may go from \<open>c\<close> to \<open>p\<close>.  A successful step pushes
  a list of new targets of edges, marks their IDs, and leaves no target unmarked.\<close>

locale worklist =
  fixes step :: "'e \<Rightarrow> batch_certificate \<Rightarrow> work \<Rightarrow> work result"
    and edge :: "'e \<Rightarrow> batch_certificate \<Rightarrow> batch_certificate \<Rightarrow> bool"
    and ok :: "'e \<Rightarrow> bool"
  assumes step_Ok: "ok e \<Longrightarrow> step e c (a, b) = Ok (a', b') \<Longrightarrow>
      \<exists>new. set a' = cert_id ` set new \<union> set a \<and> set b \<subseteq> set b' \<and> set b' \<subseteq> set new \<union> set b \<and>
        cert_id ` set new \<subseteq> cert_id ` set b' \<and> length b' \<le> length new + length b \<and>
        (new \<noteq> [] \<longrightarrow> (\<exists>p\<in>set new. cert_id p \<notin> set a)) \<and>
        (\<forall>p\<in>set new. edge e c p) \<and> (\<forall>p. edge e c p \<longrightarrow> cert_id p \<in> set a')"
    and finite_targets: "ok e \<Longrightarrow> finite {p. \<exists>c. edge e c p}"
begin

definition reach :: "'e \<Rightarrow> batch_certificate set \<Rightarrow> batch_certificate set" where
  "reach e S = {p. \<exists>s\<in>S. (edge e)\<^sup>*\<^sup>* s p}"

lemma reach_start: "S \<subseteq> reach e S"
  by (auto simp: reach_def)

lemma reach_step: "c \<in> reach e S \<Longrightarrow> edge e c p \<Longrightarrow> p \<in> reach e S"
  by (auto simp: reach_def intro: rtranclp.rtrancl_into_rtrancl)

lemma reach_least:
  assumes "S \<subseteq> X" "\<And>c p. c \<in> X \<Longrightarrow> edge e c p \<Longrightarrow> p \<in> X"
  shows "reach e S \<subseteq> X"
proof
  fix p assume "p \<in> reach e S"
  then obtain s where s: "s \<in> S" "(edge e)\<^sup>*\<^sup>* s p" by (auto simp: reach_def)
  from s(2) show "p \<in> X" by induction (use s(1) assms in auto)
qed

lemma terminates:
  assumes "ok e"
  shows "\<exists>res. dfs_loop (step e) commit a b = Some res"
proof -
  let ?U = "cert_id ` {p. \<exists>c. edge e c p}"
  have fin: "finite ?U" using finite_targets[OF assms] by simp
  have "wf (inv_image (less_than <*lex*> less_than) (\<lambda>(commit, a, b). (card (?U - set a), length b)))"
    by (rule wf_inv_image) (rule wf_lex_prod; rule wf_less_than)
  then have "\<exists>res. case s of (commit, a, b) \<Rightarrow> dfs_loop (step e) commit a b = Some res" for s
  proof (induction s)
    case (less s)
    obtain commit a b where s: "s = (commit, a, b)" by (cases s)
    show ?case
    proof (cases b)
      case (Cons c rest)
      show ?thesis
      proof (cases "step e c (a, rest)")
        case (Inr w)
        obtain a' b' where w: "w = (a', b')" by (cases w)
        obtain new where new: "set a' = cert_id ` set new \<union> set a" "length b' \<le> length new + length rest"
            "new \<noteq> [] \<longrightarrow> (\<exists>p\<in>set new. cert_id p \<notin> set a)" "\<forall>p\<in>set new. edge e c p"
          using step_Ok[OF assms Inr[unfolded w]] by metis
        have "card (?U - set a') < card (?U - set a) \<or>
            card (?U - set a') = card (?U - set a) \<and> length b' < length b"
        proof (cases "new = []")
          case False
          then obtain p where "p \<in> set new" "cert_id p \<notin> set a" using new(3) by blast
          then have "cert_id p \<in> ?U - set a" "cert_id p \<notin> ?U - set a'" using new(1,4) by auto
          moreover have "?U - set a' \<subseteq> ?U - set a" using new(1) by blast
          ultimately have "?U - set a' \<subset> ?U - set a" by blast
          then show ?thesis using fin by (simp add: psubset_card_mono)
        qed (use new(1,2) Cons in auto)
        then have "((commit_insert c commit, a', b'), s) \<in>
            inv_image (less_than <*lex*> less_than) (\<lambda>(commit, a, b). (card (?U - set a), length b))"
          by (auto simp: s)
        from less.IH[OF this] show ?thesis by (auto simp: s Cons dfs_loop_Cons Inr w)
      qed (simp add: s Cons dfs_loop_Cons)
    qed (simp add: s)
  qed
  from this[of "(commit, a, b)"] show ?thesis by simp
qed

text \<open>The invariant of the loop.\<close>

definition progress :: "'e \<Rightarrow> batch_certificate set \<Rightarrow> commit_map \<Rightarrow> field list \<Rightarrow> batch_certificate list \<Rightarrow> bool"
  where "progress e S commit a b \<longleftrightarrow>
    commit_ok commit \<and> commit_certs commit \<union> set b \<subseteq> reach e S \<and> S \<subseteq> commit_certs commit \<union> set b \<and>
    (\<forall>c\<in>commit_certs commit. \<forall>p. edge e c p \<longrightarrow> cert_id p \<in> set a) \<and>
    set a \<subseteq> cert_id ` (commit_certs commit \<union> set b)"

lemma progress_step:
  assumes "ok e" "inj_on cert_id (reach e S)" "progress e S commit a (c # b)" "step e c (a, b) = Ok (a', b')"
  shows "progress e S (commit_insert c commit) a' b'"
proof -
  obtain new where new: "set a' = cert_id ` set new \<union> set a" "set b \<subseteq> set b'" "set b' \<subseteq> set new \<union> set b"
      "cert_id ` set new \<subseteq> cert_id ` set b'" "\<forall>p\<in>set new. edge e c p"
      "\<forall>p. edge e c p \<longrightarrow> cert_id p \<in> set a'"
    using step_Ok[OF assms(1,4)] by metis
  have old: "commit_ok commit" "commit_certs commit \<subseteq> reach e S" "c \<in> reach e S" "set b \<subseteq> reach e S"
      "S \<subseteq> commit_certs commit \<union> insert c (set b)"
      "\<forall>c\<in>commit_certs commit. \<forall>p. edge e c p \<longrightarrow> cert_id p \<in> set a"
      "set a \<subseteq> cert_id ` (commit_certs commit \<union> insert c (set b))"
    using assms(3) by (auto simp: progress_def)
  have "inj_on cert_id (insert c (commit_certs commit))"
    by (rule inj_on_subset[OF assms(2)]) (use old in blast)
  then have certs: "commit_certs (commit_insert c commit) = insert c (commit_certs commit)"
    by (rule commit_insert_certs[OF old(1)])
  have "set new \<subseteq> reach e S" using new(5) old(3) reach_step by blast
  then have "set b' \<subseteq> reach e S" using new(3) old(4) by blast
  moreover have "set a' \<subseteq> cert_id ` (insert c (commit_certs commit) \<union> set b')"
    using old(7) new(1,2,4) by blast
  moreover have "S \<subseteq> insert c (commit_certs commit) \<union> set b'" using old(5) new(2) by blast
  moreover have "\<forall>x\<in>insert c (commit_certs commit). \<forall>p. edge e x p \<longrightarrow> cert_id p \<in> set a'"
    using old(6) new(1,6) by blast
  ultimately show ?thesis
    unfolding progress_def certs using commit_insert_ok[OF old(1)] old(2,3) by blast
qed

lemma progress_final:
  assumes "inj_on cert_id (reach e S)" "progress e S commit a []"
  shows "commit_ok commit \<and> commit_certs commit = reach e S"
proof -
  have p: "commit_ok commit" "commit_certs commit \<subseteq> reach e S" "S \<subseteq> commit_certs commit"
      "\<forall>c\<in>commit_certs commit. \<forall>p. edge e c p \<longrightarrow> cert_id p \<in> set a"
      "set a \<subseteq> cert_id ` commit_certs commit"
    using assms(2) by (auto simp: progress_def)
  have "q \<in> commit_certs commit" if "c \<in> commit_certs commit" "edge e c q" for c q
  proof -
    have "cert_id q \<in> cert_id ` commit_certs commit" using p(4,5) that by blast
    moreover have "q \<in> reach e S" using p(2) that reach_step by blast
    ultimately show ?thesis using assms(1) p(2) by (auto dest: inj_onD)
  qed
  then have "reach e S \<subseteq> commit_certs commit" using reach_least[OF p(3)] by blast
  then show ?thesis using p(1,2) by blast
qed

lemma loop_correct:
  assumes "dfs_loop (step e) commit a b = Some (Ok res)" "ok e" "inj_on cert_id (reach e S)"
    and "progress e S commit a b"
  shows "commit_ok res \<and> commit_certs res = reach e S"
proof -
  have "case r of Inl _ \<Rightarrow> True | Inr res \<Rightarrow> progress e S commit a b \<longrightarrow>
      commit_ok res \<and> commit_certs res = reach e S"
    if "dfs_loop (step e) commit a b = Some r" for r
    using that
  proof (induction rule: dfs_loop_induct)
    case (finish commit a)
    then show ?case using progress_final[OF assms(3)] by simp
  next
    case (push commit a c b a' b' r)
    then show ?case using progress_step[OF assms(2,3) _ push(1)] by (auto split: sum.splits)
  qed simp
  from this[OF assms(1)] show ?thesis using assms(4) by simp
qed

text \<open>The traversal from a single certificate.\<close>

lemma traversal_correct:
  assumes "dfs_loop (step e) [] [] b = Some (Ok res)" "ok e" "inj_on cert_id (reach e (set b))"
  shows "commit_ok res" "commit_certs res = reach e (set b)"
proof -
  have "progress e (set b) [] [] b" using reach_start by (simp add: progress_def)
  from loop_correct[OF assms this] show "commit_ok res" "commit_certs res = reach e (set b)" by blast+
qed

end

end
