(* ===== verification/Committee.thy ===== *)
theory Committee
  imports Narwhal "HOL-Library.Multiset"
begin

text \<open>
  The committee of \<open>snarkVM/ledger/committee\<close>: construction and its checks, stake thresholds, the
  leader of a round, the committee ID and the encoding.
\<close>

section \<open>Definitions\<close>

type_synonym member_state = "u64 \<times> bool \<times> u8"

record committee =
  comm_id :: field
  starting_round :: u64
  members :: "(address, member_state) imap"
  total_stake :: u64

definition MIN_VALIDATOR_STAKE :: u64 where
  "MIN_VALIDATOR_STAKE = 10000000000000"

definition COMMITTEE_LOOKBACK_RANGE :: u64 where
  "COMMITTEE_LOOKBACK_RANGE = MAX_GC_ROUNDS"

definition max_committee_size :: "network \<Rightarrow> u16" where
  "max_committee_size n = LATEST_MAX_CERTIFICATES n"

definition compute_total_stake :: "(address, member_state) imap \<Rightarrow> u64 result" where
  "compute_total_stake ms =
     try_fold (\<lambda>(stake, _, _) power.
       case checked_add u64_max power stake of
         Some power' \<Rightarrow> Ok power'
       | None \<Rightarrow> bail ''Failed to calculate total stake - overflow detected'') (vals ms) 0"

definition write_member :: "(address \<times> member_state) writer" where
  "write_member = (\<lambda>(a, stake, is_open, commission).
     write_seq [write_address a, write_u64 stake, write_bool is_open, write_u8 commission])"

definition compute_committee_id ::
    "crypto \<Rightarrow> u64 \<Rightarrow> (address, member_state) imap \<Rightarrow> u64 \<Rightarrow> field result" where
  "compute_committee_id cr r ms stake =
     try_bind (write_seq ([write_u64 r, write_len 2 (length ms)] @ map write_member ms
         @ [write_u64 stake]))
       (\<lambda>preimage. hash_bhp1024 cr (to_bits_le preimage))"

definition committee_new ::
    "network \<Rightarrow> crypto \<Rightarrow> u64 \<Rightarrow> (address, member_state) imap \<Rightarrow> committee result" where
  "committee_new n cr r ms =
     ensure (length ms \<ge> 3) ''Committee must have at least 3 members''
     (ensure (length ms \<le> max_committee_size n) ''Committee must have no more than the maximum members''
     (ensure (\<forall>(stake, _, _)\<in>set (vals ms). stake \<ge> MIN_VALIDATOR_STAKE)
        ''All members must have at least the minimum stake''
     (ensure (\<forall>(_, _, commission)\<in>set (vals ms). commission \<le> 100)
        ''All members must have a commission percentage less than or equal to 100''
     (try_bind (compute_total_stake ms) (\<lambda>stake.
      try_bind (compute_committee_id cr r ms stake) (\<lambda>i.
      Ok \<lparr>comm_id = i, starting_round = r, members = ms, total_stake = stake\<rparr>))))))"

definition committee_new_genesis ::
    "network \<Rightarrow> crypto \<Rightarrow> (address, member_state) imap \<Rightarrow> committee result" where
  "committee_new_genesis n cr ms = committee_new n cr 0 ms"

definition is_committee_member :: "committee \<Rightarrow> address \<Rightarrow> bool" where
  "is_committee_member c a = contains_key (members c) a"

definition is_committee_member_open :: "committee \<Rightarrow> address \<Rightarrow> bool" where
  "is_committee_member_open c a =
     (case map_of (members c) a of None \<Rightarrow> False | Some (_, is_open, _) \<Rightarrow> is_open)"

definition get_stake :: "committee \<Rightarrow> address \<Rightarrow> u64" where
  "get_stake c a = (case map_of (members c) a of None \<Rightarrow> 0 | Some (stake, _, _) \<Rightarrow> stake)"

definition availability_threshold :: "committee \<Rightarrow> u64" where
  "availability_threshold c = saturating_add u64_max (total_stake c) 2 div 3"

definition quorum_threshold :: "committee \<Rightarrow> u64" where
  "quorum_threshold c =
     saturating_add u64_max (saturating_mul u64_max (total_stake c) 2 div 3) 1"

text \<open>The argument is a \<open>HashSet\<close>: a list without repetitions, in the order it is iterated.\<close>

definition combined_stake :: "committee \<Rightarrow> address list \<Rightarrow> u64" where
  "combined_stake c addresses =
     fold (\<lambda>a stake. saturating_add u64_max stake (get_stake c a)) addresses 0"

definition is_availability_threshold_reached :: "committee \<Rightarrow> address list \<Rightarrow> bool" where
  "is_availability_threshold_reached c addresses \<longleftrightarrow>
     combined_stake c addresses \<ge> availability_threshold c"

definition is_quorum_threshold_reached :: "committee \<Rightarrow> address list \<Rightarrow> bool" where
  "is_quorum_threshold_reached c addresses \<longleftrightarrow>
     combined_stake c addresses \<ge> quorum_threshold c"

definition sorted_members :: "committee \<Rightarrow> (address, member_state) imap" where
  "sorted_members c = rev (sort_key fst (members c))"

text \<open>The loop of \<open>get_leader\<close>: the first candidate at which the running stake reaches the index.\<close>

fun find_leader :: "u64 \<Rightarrow> u64 \<Rightarrow> (address, member_state) imap \<Rightarrow> address option" where
  "find_leader stake_index current [] = None"
| "find_leader stake_index current ((candidate, stake, _, _) # cs) =
     (let current' = saturating_add u64_max current stake
      in if current' \<ge> stake_index then Some candidate
         else find_leader stake_index current' cs)"

definition get_leader :: "crypto \<Rightarrow> committee \<Rightarrow> u64 \<Rightarrow> address result" where
  "get_leader cr c current_round =
     ensure (current_round \<ge> starting_round c)
       ''Current round must be at least the starting round''
     (try_bind (hash_to_group_psd4 cr [current_round]) (\<lambda>x.
      if total_stake c = 0
      then Err (Panic ''attempt to calculate the remainder with a divisor of zero'')
      else
        let stake_index = (x mod 2 ^ 64) mod total_stake c
        in case find_leader stake_index 0 (sorted_members c) of
             None \<Rightarrow> Err (Panic ''called `Option::unwrap()` on a `None` value'')
           | Some leader \<Rightarrow> Ok leader))"

section \<open>Well-formed committees\<close>

definition wf_committee :: "committee \<Rightarrow> bool" where
  "wf_committee c \<longleftrightarrow> wf_map (members c) \<and> 3 \<le> length (members c) \<and>
     (\<forall>(_, stake, _, commission)\<in>set (members c). MIN_VALIDATOR_STAKE \<le> stake \<and> commission \<le> 100) \<and>
     total_stake c = sum_list (map (\<lambda>(_, stake, _, _). stake) (members c)) \<and>
     total_stake c \<le> u64_max"

lemma compute_total_stake_fold:
  "try_fold (\<lambda>(stake, _, _) power.
       case checked_add u64_max power stake of
         Some power' \<Rightarrow> Ok power'
       | None \<Rightarrow> bail ''Failed to calculate total stake - overflow detected'') vs p = Ok t \<longleftrightarrow>
     t = p + sum_list (map (\<lambda>(stake, _, _). stake) vs) \<and> (vs = [] \<or> t \<le> u64_max)"
proof (induction vs arbitrary: p)
  case (Cons v vs)
  obtain s b k where "v = (s, b, k)" by (cases v)
  then show ?case using Cons.IH[of "p + s"] by (auto simp: checked_add_def result_simps)
qed auto

lemma compute_total_stake_Ok_iff:
  "ms \<noteq> [] \<Longrightarrow> compute_total_stake ms = Ok t \<longleftrightarrow>
     t = sum_list (map (\<lambda>(_, stake, _, _). stake) ms) \<and> t \<le> u64_max"
  unfolding compute_total_stake_def compute_total_stake_fold
  by (auto simp: o_def case_prod_unfold)

lemma committee_new_wf:
  assumes "wf_map ms" "committee_new n cr r ms = Ok c"
  shows "wf_committee c \<and> members c = ms \<and> starting_round c = r"
proof -
  have "ms \<noteq> []" using assms(2) by (auto simp: committee_new_def result_simps)
  then show ?thesis
    using assms by (auto simp: committee_new_def result_simps wf_committee_def
        compute_total_stake_Ok_iff case_prod_unfold)
qed

subsection \<open>Stake of a set of members\<close>

definition stake_of :: "committee \<Rightarrow> address set \<Rightarrow> nat" where
  "stake_of c A = (\<Sum>a\<in>A. get_stake c a)"

lemma get_stake_member: "wf_map (members c) \<Longrightarrow> (a, s, b, k) \<in> set (members c) \<Longrightarrow> get_stake c a = s"
  by (simp add: get_stake_def map_of_Some_in)

lemma get_stake_nonmember: "a \<notin> set (keys (members c)) \<Longrightarrow> get_stake c a = 0"
  by (auto simp: get_stake_def dest!: map_of_SomeD split: option.splits) force

lemma total_stake_sum:
  assumes "wf_committee c"
  shows "total_stake c = stake_of c (set (keys (members c)))"
proof -
  have wf: "wf_map (members c)" and t: "total_stake c = sum_list (map (\<lambda>(_, s, _, _). s) (members c))"
    using assms by (auto simp: wf_committee_def)
  have "map (\<lambda>(_, s, _, _). s) (members c) = map (get_stake c) (keys (members c))"
    using get_stake_member[OF wf] by (auto simp: o_def)
  then have "total_stake c = sum_list (map (get_stake c) (keys (members c)))"
    unfolding t by (rule arg_cong)
  also have "\<dots> = stake_of c (set (keys (members c)))"
    using wf unfolding stake_of_def wf_map_def by (subst sum_list_distinct_conv_sum_set) auto
  finally show ?thesis .
qed

lemma stake_of_le_total:
  assumes "wf_committee c" "finite A"
  shows "stake_of c A \<le> total_stake c"
proof -
  have "stake_of c A = stake_of c (A \<inter> set (keys (members c)))"
    unfolding stake_of_def using assms(2) get_stake_nonmember
    by (intro sum.mono_neutral_right) auto
  also have "\<dots> \<le> stake_of c (set (keys (members c)))"
    unfolding stake_of_def by (intro sum_mono2) auto
  finally show ?thesis using total_stake_sum[OF assms(1)] by simp
qed

lemma combined_stake_sum:
  "combined_stake c addresses = min u64_max (sum_list (map (get_stake c) addresses))"
  unfolding combined_stake_def using fold_saturating_add[of 0 u64_max "get_stake c"] by simp

lemma combined_stake_exact:
  assumes "wf_committee c" "distinct addresses"
  shows "combined_stake c addresses = stake_of c (set addresses)"
proof -
  note combined_stake_sum
  also have "sum_list (map (get_stake c) addresses) = stake_of c (set addresses)"
    using assms(2) by (simp add: stake_of_def sum_list_distinct_conv_sum_set)
  finally show ?thesis
    using stake_of_le_total[OF assms(1), of "set addresses"] assms(1)
    by (simp add: wf_committee_def)
qed

subsection \<open>Thresholds and quorums\<close>

text \<open>The number of faulty units of stake that is tolerated, \<open>f\<close> in the comments of the source.\<close>

definition max_faulty :: "committee \<Rightarrow> nat" where
  "max_faulty c = (total_stake c - 1) div 3"

lemma div3_arith:
  fixes n :: nat
  assumes "0 < n"
  shows "(n + 2) div 3 = (n - 1) div 3 + 1" and "n * 2 div 3 + 1 = n - (n - 1) div 3"
proof -
  obtain m where m: "n = Suc m" using assms by (cases n) auto
  define q r where "q = m div 3" and "r = m mod 3"
  have "m = 3 * q + r" using mult_div_mod_eq[of 3 m] unfolding q_def r_def by simp
  then have n: "n + 2 = r + 3 + q * 3" "n * 2 = 2 * r + 2 + (2 * q) * 3" "n = 3 * q + r + 1"
    using m by simp_all
  have "r < 3" unfolding r_def by simp
  then consider "r = 0" | "r = 1" | "r = 2" by fastforce
  then have "(r + 3) div 3 = 1" "(2 * r + 2) div 3 = r" by (cases, simp_all)+
  then have "(n + 2) div 3 = q + 1" "n * 2 div 3 = 2 * q + r"
    unfolding n(1,2) by (simp_all only: div_mult_self1[OF zero_neq_numeral[symmetric]] add.commute)
  moreover have "(n - 1) div 3 = q" using m q_def by simp
  ultimately show "(n + 2) div 3 = (n - 1) div 3 + 1" "n * 2 div 3 + 1 = n - (n - 1) div 3"
    using n(3) by simp_all
qed

lemma thresholds:
  assumes "0 < total_stake c" "2 * total_stake c \<le> u64_max"
  shows "availability_threshold c = max_faulty c + 1"
    and "quorum_threshold c = total_stake c - max_faulty c"
proof -
  have "total_stake c + 2 \<le> u64_max" using assms by (simp add: u64_max_def)
  from saturating_add_exact[OF this] show "availability_threshold c = max_faulty c + 1"
    unfolding availability_threshold_def max_faulty_def by (simp only: div3_arith(1)[OF assms(1)])
  have mul: "saturating_mul u64_max (total_stake c) 2 = total_stake c * 2"
    using assms(2) by (intro saturating_mul_exact) simp
  have "total_stake c * 2 div 3 + 1 \<le> u64_max"
    using assms(2) unfolding u64_max_def by linarith
  from saturating_add_exact[OF this] show "quorum_threshold c = total_stake c - max_faulty c"
    unfolding quorum_threshold_def max_faulty_def mul by (simp only: div3_arith(2)[OF assms(1)])
qed

lemma wf_committee_total_pos: "wf_committee c \<Longrightarrow> 0 < total_stake c"
proof -
  assume wf: "wf_committee c"
  then obtain a s b k ms where "members c = (a, s, b, k) # ms"
    by (cases "members c") (auto simp: wf_committee_def)
  then show ?thesis using wf by (auto simp: wf_committee_def MIN_VALIDATOR_STAKE_def)
qed

lemma quorum_intersection_stake:
  assumes "wf_committee c" "2 * total_stake c \<le> u64_max"
    and "distinct A" "distinct B"
    and "is_quorum_threshold_reached c A" "is_quorum_threshold_reached c B"
  shows "availability_threshold c \<le> stake_of c (set A \<inter> set B)"
proof -
  have pos: "0 < total_stake c" by (rule wf_committee_total_pos[OF assms(1)])
  have "stake_of c (set A \<union> set B) + stake_of c (set A \<inter> set B) = stake_of c (set A) + stake_of c (set B)"
    unfolding stake_of_def by (rule sum.union_inter) auto
  moreover have "stake_of c (set A \<union> set B) \<le> total_stake c"
    by (rule stake_of_le_total[OF assms(1)]) simp
  moreover have "quorum_threshold c \<le> stake_of c (set A)" "quorum_threshold c \<le> stake_of c (set B)"
    using assms combined_stake_exact unfolding is_quorum_threshold_reached_def by metis+
  ultimately show ?thesis
    using pos unfolding thresholds[OF pos assms(2)] max_faulty_def by linarith
qed

lemma stake_of_complement:
  assumes "wf_committee c" "A \<subseteq> set (keys (members c))"
  shows "stake_of c A + stake_of c (set (keys (members c)) - A) = total_stake c"
  unfolding total_stake_sum[OF assms(1)] stake_of_def
  using sum.subset_diff[OF assms(2), of "get_stake c"] by simp

lemma quorum_iff_complement_not_available:
  assumes "wf_committee c" "2 * total_stake c \<le> u64_max" "distinct A" "distinct B"
    and "set A \<subseteq> set (keys (members c))" "set B = set (keys (members c)) - set A"
  shows "is_quorum_threshold_reached c A \<longleftrightarrow> \<not> is_availability_threshold_reached c B"
proof -
  have pos: "0 < total_stake c" by (rule wf_committee_total_pos[OF assms(1)])
  have "stake_of c (set A) + stake_of c (set B) = total_stake c"
    using stake_of_complement[OF assms(1,5)] assms(6) by simp
  moreover have "max_faulty c < total_stake c" using pos by (simp add: max_faulty_def)
  ultimately show ?thesis
    unfolding is_quorum_threshold_reached_def is_availability_threshold_reached_def
      combined_stake_exact[OF assms(1,3)] combined_stake_exact[OF assms(1,4)]
      thresholds[OF pos assms(2)]
    by linarith
qed

subsection \<open>The leader of a round\<close>

definition stakes :: "(address, member_state) imap \<Rightarrow> nat" where
  "stakes cs = sum_list (map (\<lambda>(_, s, _, _). s) cs)"

lemma stakes_simps [simp]:
  "stakes [] = 0" "stakes ((a, s, b, k) # cs) = s + stakes cs" "stakes (xs @ ys) = stakes xs + stakes ys"
  by (simp_all add: stakes_def)

lemma find_leader_Cons:
  assumes "current + stakes ((a, s, b, k) # cs) \<le> u64_max"
  shows "find_leader idx current ((a, s, b, k) # cs) =
    (if idx \<le> current + s then Some a else find_leader idx (current + s) cs)"
  using assms by (simp add: saturating_add_exact Let_def)

lemma find_leader_SomeD:
  "current + stakes cs \<le> u64_max \<Longrightarrow> find_leader idx current cs = Some a \<Longrightarrow>
     \<exists>pre s b k post. cs = pre @ (a, s, b, k) # post \<and> idx \<le> current + stakes pre + s \<and>
       (pre \<noteq> [] \<longrightarrow> current + stakes pre < idx)"
proof (induction cs arbitrary: current)
  case (Cons p cs)
  obtain b s q k where p: "p = (b, s, q, k)" by (cases p)
  note step = find_leader_Cons[OF Cons.prems(1)[unfolded p], of idx]
  show ?case
  proof (cases "idx \<le> current + s")
    case True
    then have "a = b" using Cons.prems(2) step p by simp
    then show ?thesis using True p by (intro exI[of _ "[]"]) auto
  next
    case False
    then have "find_leader idx (current + s) cs = Some a" using Cons.prems(2) step p by simp
    moreover have "current + s + stakes cs \<le> u64_max" using Cons.prems(1) p by simp
    ultimately obtain pre s' b' k' post where *: "cs = pre @ (a, s', b', k') # post"
        "idx \<le> current + s + stakes pre + s'" "pre \<noteq> [] \<longrightarrow> current + s + stakes pre < idx"
      using Cons.IH by blast
    have "current + stakes (p # pre) < idx" using False *(3) p by (cases "pre = []") auto
    moreover have "idx \<le> current + stakes (p # pre) + s'" using *(2) p by simp
    moreover have "p # cs = (p # pre) @ (a, s', b', k') # post" using *(1) by simp
    ultimately show ?thesis by blast
  qed
qed simp

lemma find_leader_total:
  "current + stakes cs \<le> u64_max \<Longrightarrow> cs \<noteq> [] \<Longrightarrow> idx \<le> current + stakes cs \<Longrightarrow>
     \<exists>a. find_leader idx current cs = Some a"
proof (induction cs arbitrary: current)
  case (Cons p cs)
  obtain b s q k where p: "p = (b, s, q, k)" by (cases p)
  have "find_leader idx current (p # cs) =
      (if idx \<le> current + s then Some b else find_leader idx (current + s) cs)"
    unfolding p by (rule find_leader_Cons) (use Cons.prems(1) p in simp)
  moreover have "\<exists>a. find_leader idx (current + s) cs = Some a" if "\<not> idx \<le> current + s"
    using that Cons.prems p by (intro Cons.IH) auto
  ultimately show ?case by auto
qed simp

lemma stakes_mset: "stakes cs = sum_mset (image_mset (\<lambda>(_, s, _, _). s) (mset cs))"
  unfolding stakes_def by (simp only: mset_map[symmetric] sum_mset_sum_list)

lemma stakes_sorted_members: "stakes (sorted_members c) = stakes (members c)"
  unfolding stakes_mset sorted_members_def by simp

lemma get_leader_Ok:
  assumes "wf_committee c" "starting_round c \<le> r" "hash_to_group_psd4 cr [r] = Ok x"
  obtains pre a s b k post where "get_leader cr c r = Ok a"
    "sorted_members c = pre @ (a, s, b, k) # post"
    "x mod 2 ^ 64 mod total_stake c \<le> stakes pre + s"
    "pre = [] \<or> stakes pre < x mod 2 ^ 64 mod total_stake c"
proof -
  define idx where "idx = x mod 2 ^ 64 mod total_stake c"
  have pos: "0 < total_stake c" by (rule wf_committee_total_pos[OF assms(1)])
  have st: "stakes (sorted_members c) = total_stake c"
    using assms(1) unfolding stakes_sorted_members by (simp add: wf_committee_def stakes_def)
  have le: "0 + stakes (sorted_members c) \<le> u64_max"
    using assms(1) unfolding st by (simp add: wf_committee_def)
  have "idx < total_stake c" unfolding idx_def by (rule mod_less_divisor[OF pos])
  moreover have "sorted_members c \<noteq> []" using st pos by (auto simp: stakes_def)
  ultimately obtain a where a: "find_leader idx 0 (sorted_members c) = Some a"
    using find_leader_total[OF le, of idx] st by auto
  then have leader: "get_leader cr c r = Ok a"
    using assms(2,3) pos by (simp add: get_leader_def Let_def idx_def)
  obtain pre s b k post where "sorted_members c = pre @ (a, s, b, k) # post"
      "idx \<le> 0 + stakes pre + s" "pre \<noteq> [] \<longrightarrow> 0 + stakes pre < idx"
    using find_leader_SomeD[OF le a] by blast
  then show thesis using leader by (intro that) (auto simp: idx_def)
qed

section \<open>Encoding\<close>

definition read_member :: "crypto \<Rightarrow> (address \<times> member_state) reader" where
  "read_member cr =
     read_then (read_address cr) (\<lambda>a.
     read_then read_u64 (\<lambda>stake.
     read_then read_bool (\<lambda>is_open.
     read_then read_u8 (\<lambda>commission.
     read_lift (Ok (a, stake, is_open, commission))))))"

definition write_committee :: "committee writer" where
  "write_committee c =
     write_seq ([write_u8 1, write_field (comm_id c), write_u64 (starting_round c),
         write_len 2 (length (members c))]
       @ map write_member (members c)
       @ [write_u64 (total_stake c)])"

text \<open>Collecting pairs into an \<open>IndexMap\<close>: a later value for a key replaces the earlier one.\<close>

definition imap_of_list :: "('k \<times> 'v) list \<Rightarrow> ('k, 'v) imap" where
  "imap_of_list ps = fold (\<lambda>(k, v). AList.update k v) ps []"

definition read_committee :: "network \<Rightarrow> crypto \<Rightarrow> committee reader" where
  "read_committee n cr =
     read_then read_u8 (\<lambda>version.
     read_ensure (version = 1) ''Invalid committee version'' (
     read_then read_field (\<lambda>i.
     read_then read_u64 (\<lambda>r.
     read_then read_u16 (\<lambda>num_members.
     read_ensure (num_members \<le> max_committee_size n) ''Committee cannot exceed the maximum members'' (
     read_then (read_chunks num_members 42 (read_member cr)) (\<lambda>ms.
     read_then read_u64 (\<lambda>stake.
     read_then (read_lift (committee_new n cr r (imap_of_list ms))) (\<lambda>c.
     read_ensure (comm_id c = i) ''Invalid committee ID during deserialization'' (
     read_lift (ensure (total_stake c = stake)
       ''Invalid total stake in committee during deserialization'' (Ok c))))))))))))"

definition valid_member :: "crypto \<Rightarrow> address \<times> member_state \<Rightarrow> bool" where
  "valid_member cr = (\<lambda>(a, stake, _, commission).
     valid_address cr a \<and> stake \<le> u64_max \<and> commission < 256)"

definition valid_committee :: "network \<Rightarrow> crypto \<Rightarrow> committee \<Rightarrow> bool" where
  "valid_committee n cr c \<longleftrightarrow> LATEST_MAX_CERTIFICATES n \<le> u16_max \<and> comm_id c < field_modulus \<and>
     starting_round c \<le> u64_max \<and> (\<forall>m\<in>set (members c). valid_member cr m) \<and>
     wf_map (members c) \<and> committee_new n cr (starting_round c) (members c) = Ok c"

lemma write_bool_eq: "write_bool b = Ok [if b then 1 else 0]"
  by (simp add: write_bool_def write_uint_def)

lemma read_bool_Cons: "read_bool ((if b then 1 else 0) # rest) = Ok (b, rest)"
  by (simp add: read_bool_def)

interpretation member_bytes: fixed_codec write_member "read_member cr" "valid_member cr" 42 for cr
proof unfold_locales
  fix m
  assume "valid_member cr m"
  moreover obtain a s b k where m: "m = (a, s, b, k)" by (cases m)
  ultimately have v: "valid_address cr a" "s \<le> u64_max" "k < 256" by (auto simp: valid_member_def)
  have w: "write_member m = Ok (le_bytes 32 a @ le_bytes 8 s @ [if b then 1 else 0] @ le_bytes 1 k)"
    by (simp add: write_member_def m write_address_def write_field_def write_uint_def write_bool_eq)
  then show "\<exists>bs. write_member m = Ok bs \<and> (\<forall>rest. read_member cr (bs @ rest) = Ok (m, rest))"
    using v by (simp add: read_member_def m read_bool_Cons)
  show "length bs = 42" if "write_member m = Ok bs" for bs
    using that unfolding w by auto
qed

lemma fold_update_distinct:
  "distinct (keys (ms @ ps)) \<Longrightarrow> fold (\<lambda>(k, v). AList.update k v) ps ms = ms @ ps"
proof (induction ps arbitrary: ms)
  case (Cons p ps)
  obtain k v where p: "p = (k, v)" by (cases p)
  have "AList.update k v ms = ms @ [(k, v)]"
    using Cons.prems by (intro alist_update_append) (auto simp: p)
  then show ?case using Cons.IH[of "ms @ [p]"] Cons.prems by (auto simp: p)
qed simp

lemma imap_of_list_wf [simp]: "wf_map ms \<Longrightarrow> imap_of_list ms = ms"
  using fold_update_distinct[of "[]"] by (simp add: imap_of_list_def wf_map_def)

lemma valid_committee_sizes:
  assumes "valid_committee n cr c"
  shows "length (members c) \<le> max_committee_size n" "length (members c) \<le> u16_max"
    "total_stake c \<le> u64_max"
proof -
  note v = assms[unfolded valid_committee_def]
  show "length (members c) \<le> max_committee_size n"
    using v by (auto simp: committee_new_def result_simps)
  then show "length (members c) \<le> u16_max" using v by (simp add: max_committee_size_def)
  show "total_stake c \<le> u64_max"
    using committee_new_wf[of "members c" n cr "starting_round c" c] v by (simp add: wf_committee_def)
qed

lemma write_committee_bytes:
  assumes "valid_committee n cr c"
  obtains mb where "write_seq (map write_member (members c)) = Ok mb"
    "write_committee c = Ok ([1] @ le_bytes 32 (comm_id c) @ le_bytes 8 (starting_round c)
       @ le_bytes 2 (length (members c)) @ mb @ le_bytes 8 (total_stake c))"
proof -
  obtain mb where mb: "write_seq (map write_member (members c)) = Ok mb"
    using member_bytes.write_seq_total assms unfolding valid_committee_def by blast
  have "length (members c) < 256 ^ 2"
    using valid_committee_sizes(2)[OF assms] unfolding max_less_iff .
  from write_len_uint[OF this] show thesis
    using that mb
    by (simp add: write_committee_def write_seq_append write_field_def write_uint_def)
qed

interpretation committee_bytes:
  codec write_committee "read_committee n cr" "valid_committee n cr" for n cr
proof unfold_locales
  fix c
  assume c: "valid_committee n cr c"
  note v = c[unfolded valid_committee_def]
  obtain mb where mb: "write_seq (map write_member (members c)) = Ok mb"
      and w: "write_committee c = Ok ([1] @ le_bytes 32 (comm_id c) @ le_bytes 8 (starting_round c)
       @ le_bytes 2 (length (members c)) @ mb @ le_bytes 8 (total_stake c))"
    using write_committee_bytes[OF c] .
  have "read_chunks (length (members c)) 42 (read_member cr) (mb @ x) = Ok (members c, x)" for x
    using member_bytes.read_chunks_back mb v by blast
  then show "\<exists>bs. write_committee c = Ok bs \<and>
      (\<forall>rest. read_committee n cr (bs @ rest) = Ok (c, rest))"
    using v w valid_committee_sizes[OF c] by (simp add: read_committee_def)
qed

section \<open>A concrete committee\<close>

text \<open>Validators with the keys \<open>2\<close> to \<open>5\<close> of the concrete instance, with equal stake.\<close>

definition sample_members :: "(address, member_state) imap" where
  "sample_members = map (\<lambda>k. (2 * k + 2, 10000000000000, True, 0)) [2, 3, 4, 5]"

definition sample_committee :: committee where
  "sample_committee = the (ok (committee_new MainnetV0 sample_crypto 0 sample_members))"

lemma sample_committee_new:
  "committee_new MainnetV0 sample_crypto 0 sample_members = Ok sample_committee"
proof -
  have "is_ok (committee_new MainnetV0 sample_crypto 0 sample_members)"
    by (simp add: committee_new_def sample_members_def max_committee_size_def mainnet_max_certificates
        MIN_VALIDATOR_STAKE_def compute_total_stake_def checked_add_def u64_max_def
        compute_committee_id_def write_member_def write_address_def write_field_def write_uint_def
        write_len_def write_bool_eq sample_crypto_def)
  then show ?thesis by (auto simp: sample_committee_def is_ok_iff)
qed

lemma sample_committee_wf: "wf_map sample_members"
  by (simp add: wf_map_def sample_members_def)

lemma sample_committee_fields:
  "members sample_committee = sample_members" "starting_round sample_committee = 0"
  "total_stake sample_committee = 40000000000000"
  using committee_new_wf[OF sample_committee_wf sample_committee_new]
  by (auto simp: wf_committee_def sample_members_def)

lemma sample_committee_eval:
  "get_stake sample_committee a = (if a \<in> {6, 8, 10, 12} then 10000000000000 else 0)"
  "quorum_threshold sample_committee = 26666666666667"
  "availability_threshold sample_committee = 13333333333334"
  by (simp_all add: get_stake_def sample_committee_fields sample_members_def quorum_threshold_def
      availability_threshold_def saturating_add_def saturating_mul_def u64_max_def)

section \<open>Properties\<close>

text \<open>Quorum intersection: for a committee that \<open>Committee::new\<close> accepts (and whose doubled
  stake fits in 64 bits), the validators common to two quorums reach the availability threshold, so
  they hold more stake than the faulty validators together.\<close>

theorem quorum_intersection:
  assumes "wf_map ms" "committee_new n cr r ms = Ok c" "2 * total_stake c \<le> u64_max"
    and "distinct A" "distinct B"
    and "is_quorum_threshold_reached c A" "is_quorum_threshold_reached c B"
  shows "is_availability_threshold_reached c (filter (\<lambda>a. a \<in> set B) A) \<and>
    max_faulty c < stake_of c (set A \<inter> set B)"
proof -
  have wf: "wf_committee c" using committee_new_wf[OF assms(1,2)] by blast
  have s: "set (filter (\<lambda>a. a \<in> set B) A) = set A \<inter> set B" by auto
  have i: "availability_threshold c \<le> stake_of c (set A \<inter> set B)"
    by (rule quorum_intersection_stake[OF wf assms(3-7)])
  moreover have "distinct (filter (\<lambda>a. a \<in> set B) A)" using assms(4) by simp
  ultimately have "is_availability_threshold_reached c (filter (\<lambda>a. a \<in> set B) A)"
    unfolding is_availability_threshold_reached_def by (simp only: combined_stake_exact[OF wf] s)
  then show ?thesis
    using i thresholds(1)[OF wf_committee_total_pos[OF wf] assms(3)] by simp
qed

theorem quorum_intersection_witness:
  "is_quorum_threshold_reached sample_committee [6, 8, 10] \<and>
   is_quorum_threshold_reached sample_committee [8, 10, 12] \<and>
   is_availability_threshold_reached sample_committee (filter (\<lambda>a. a \<in> set [8, 10, 12]) [6, 8, 10])"
proof -
  have q: "is_quorum_threshold_reached sample_committee [6, 8, 10]"
    "is_quorum_threshold_reached sample_committee [8, 10, 12]"
    by (simp_all add: is_quorum_threshold_reached_def combined_stake_sum sample_committee_eval
        u64_max_def)
  have "2 * total_stake sample_committee \<le> u64_max"
    by (simp add: sample_committee_fields u64_max_def)
  from quorum_intersection[OF sample_committee_wf sample_committee_new this _ _ q] show ?thesis
    using q by simp
qed

text \<open>Quorums and availability are dual: a set of members is a quorum exactly when the other
  members do not reach the availability threshold.  In particular the correct members form a quorum
  whenever the faulty ones hold at most \<open>f\<close>.\<close>

theorem quorum_availability_dual:
  assumes "wf_map ms" "committee_new n cr r ms = Ok c" "2 * total_stake c \<le> u64_max"
    and "distinct A" "set A \<subseteq> set (keys ms)"
  shows "is_quorum_threshold_reached c A \<longleftrightarrow>
    \<not> is_availability_threshold_reached c (filter (\<lambda>a. a \<notin> set A) (keys ms))"
proof -
  have wf: "wf_committee c" and ms: "members c = ms" using committee_new_wf[OF assms(1,2)] by auto
  show ?thesis
    using assms(1,5)
    by (intro quorum_iff_complement_not_available[OF wf assms(3,4)]) (auto simp: ms wf_map_def)
qed

theorem quorum_availability_dual_witness:
  "is_quorum_threshold_reached sample_committee [6, 8, 10] \<longleftrightarrow>
    \<not> is_availability_threshold_reached sample_committee
      (filter (\<lambda>a. a \<notin> set [6, 8, 10]) (keys sample_members))"
  by (rule quorum_availability_dual[OF sample_committee_wf sample_committee_new])
    (simp_all add: sample_committee_fields u64_max_def sample_members_def)

text \<open>Leader election: for every round from the starting round on, \<open>get_leader\<close> returns a
  member of the committee (its \<open>unwrap\<close> never fails); it is the first member, in decreasing order of
  addresses, at which the accumulated stake reaches the sampled stake index.\<close>

theorem leader_elected:
  assumes "wf_map ms" "committee_new n cr r ms = Ok c"
    and "r \<le> current_round" "hash_to_group_psd4 cr [current_round] = Ok x"
  shows "\<exists>a pre s post. get_leader cr c current_round = Ok a \<and> is_committee_member c a \<and>
    sorted_members c = pre @ (a, s) # post \<and>
    x mod 2 ^ 64 mod total_stake c \<le> stakes pre + fst s \<and>
    (pre = [] \<or> stakes pre < x mod 2 ^ 64 mod total_stake c)"
proof -
  have wf: "wf_committee c" and c: "members c = ms" "starting_round c = r"
    using committee_new_wf[OF assms(1,2)] by auto
  have le: "starting_round c \<le> current_round" using assms(3) c(2) by simp
  obtain pre a s b k post where l: "get_leader cr c current_round = Ok a"
    "sorted_members c = pre @ (a, s, b, k) # post"
    "x mod 2 ^ 64 mod total_stake c \<le> stakes pre + s"
    "pre = [] \<or> stakes pre < x mod 2 ^ 64 mod total_stake c"
    by (rule get_leader_Ok[OF wf le assms(4)])
  have "(a, s, b, k) \<in> set (members c)"
    using l(2) unfolding sorted_members_def
    by (metis in_set_conv_decomp set_rev set_sort)
  then have "is_committee_member c a"
    by (force simp: is_committee_member_def map_of_eq_None_iff)
  moreover have "x mod 2 ^ 64 mod total_stake c \<le> stakes pre + fst (s, b, k)" using l(3) by simp
  ultimately show ?thesis using l(1,2,4) by blast
qed

theorem leader_elected_witness:
  "\<exists>a. get_leader sample_crypto sample_committee 9 = Ok a \<and> is_committee_member sample_committee a"
proof -
  have "hash_to_group_psd4 sample_crypto [9] = Ok 9"
    by (simp add: sample_crypto_def scalar_modulus_def)
  from leader_elected[OF sample_committee_wf sample_committee_new _ this] show ?thesis by auto
qed

text \<open>A committee survives its encoding: what \<open>Committee::new\<close> built is read back unchanged,
  with the recomputed ID and total stake matching the stored ones.\<close>

theorem committee_round_trip:
  assumes "LATEST_MAX_CERTIFICATES n \<le> u16_max" "crypto_ranges cr" "r \<le> u64_max"
    and "wf_map ms" "\<forall>m\<in>set ms. valid_member cr m" "committee_new n cr r ms = Ok c"
  shows "\<exists>bs. write_committee c = Ok bs \<and> (\<forall>rest. read_committee n cr (bs @ rest) = Ok (c, rest))"
proof -
  have c: "members c = ms" "starting_round c = r" using committee_new_wf[OF assms(4,6)] by auto
  have "comm_id c < field_modulus"
    using assms(2,6)
    by (auto simp: committee_new_def compute_committee_id_def crypto_ranges_def result_simps)
  then have "valid_committee n cr c" using assms c by (simp add: valid_committee_def)
  from committee_bytes.read_write[OF this] show ?thesis .
qed

theorem committee_round_trip_witness:
  "\<exists>bs. write_committee sample_committee = Ok bs \<and>
     (\<forall>rest. read_committee MainnetV0 sample_crypto (bs @ rest) = Ok (sample_committee, rest))"
  by (rule committee_round_trip[OF _ sample_ranges _ sample_committee_wf _ sample_committee_new])
    (simp_all add: mainnet_max_certificates u16_max_def u64_max_def sample_members_def
      valid_member_def valid_address_def sample_crypto_def field_modulus_def)

end
