(* ===== verification/Subdag.thy ===== *)
theory Subdag
  imports Traversal Committee
begin

text \<open>The subdag of \<open>snarkVM/ledger/narwhal/subdag/src/{lib,bytes}.rs\<close>: the certificates that one anchor
  commits, by round.  \<open>Subdag::from\<close> accepts exactly the maps whose rounds are consecutive up to an even
  round with a single leader and whose certificates are all reachable from that leader; the weighted
  median of timestamps is a median in the usual sense; the encoding is read back.\<close>

section \<open>Definitions\<close>

fun sequential_keys :: "u64 option \<Rightarrow> u64 list \<Rightarrow> bool" where
  "sequential_keys previous_round [] = True"
| "sequential_keys previous_round (r # rs) =
     (case previous_round of
        Some previous \<Rightarrow> if u64_add previous 1 \<noteq> r then False else sequential_keys (Some r) rs
      | None \<Rightarrow> sequential_keys (Some r) rs)"

definition is_sequential :: "(u64, 'v) imap \<Rightarrow> bool" where
  "is_sequential m = sequential_keys None (keys m)"

definition subdag_find :: "commit_map \<Rightarrow> u64 \<Rightarrow> field \<Rightarrow> batch_certificate option" where
  "subdag_find subdag r i =
     (case map_of subdag r of None \<Rightarrow> None | Some m \<Rightarrow> List.find (\<lambda>c. cert_id c = i) m)"

definition sanity_prev :: "commit_map \<Rightarrow> u64 \<Rightarrow> field \<Rightarrow> work \<Rightarrow> work" where
  "sanity_prev subdag previous_round i = (\<lambda>(already_ordered, buffer).
     case subdag_find subdag previous_round i of
       None \<Rightarrow> (already_ordered, buffer)
     | Some p \<Rightarrow>
         if cert_id p \<in> set already_ordered then (already_ordered, buffer)
         else (cert_id p # already_ordered,
               if cert_id p \<in> cert_id ` set buffer then buffer else p # buffer))"

definition sanity_step :: "commit_map \<Rightarrow> batch_certificate \<Rightarrow> work \<Rightarrow> work" where
  "sanity_step subdag c = fold (sanity_prev subdag (u64_sub (cert_round c) 1)) (cert_previous_ids c)"

definition subdag_edge :: "commit_map \<Rightarrow> batch_certificate \<Rightarrow> batch_certificate \<Rightarrow> bool" where
  "subdag_edge subdag c p \<longleftrightarrow>
     (\<exists>i\<in>set (cert_previous_ids c). subdag_find subdag (u64_sub (cert_round c) 1) i = Some p)"

lemma find_Some_set: "List.find P xs = Some x \<Longrightarrow> x \<in> set xs \<and> P x"
  by (auto simp: find_Some_iff)

lemma subdag_find_Some:
  "subdag_find sd r i = Some p \<Longrightarrow> cert_id p = i \<and> p \<in> commit_certs sd"
  by (auto simp: subdag_find_def mem_commit_certs split: option.splits dest!: find_Some_set map_of_SomeD)

lemma sanity_fold:
  "fold (sanity_prev sd r) ids (a, b) = (a', b') \<Longrightarrow>
   \<exists>new. set a' = cert_id ` set new \<union> set a \<and> set b \<subseteq> set b' \<and> set b' \<subseteq> set new \<union> set b \<and>
     cert_id ` set new \<subseteq> cert_id ` set b' \<and> length b' \<le> length new + length b \<and>
     (new \<noteq> [] \<longrightarrow> (\<exists>p\<in>set new. cert_id p \<notin> set a)) \<and>
     (\<forall>p\<in>set new. \<exists>i\<in>set ids. subdag_find sd r i = Some p) \<and>
     (\<forall>p. (\<exists>i\<in>set ids. subdag_find sd r i = Some p) \<longrightarrow> cert_id p \<in> set a')"
proof (induction ids arbitrary: a b)
  case Nil
  then show ?case by (intro exI[of _ "[]"]) simp
next
  case (Cons i ids)
  obtain a1 b1 where s: "sanity_prev sd r i (a, b) = (a1, b1)" by (cases "sanity_prev sd r i (a, b)")
  have "fold (sanity_prev sd r) ids (a1, b1) = (a', b')" using Cons.prems s by simp
  from Cons.IH[OF this] obtain new where new:
    "set a' = cert_id ` set new \<union> set a1" "set b1 \<subseteq> set b'" "set b' \<subseteq> set new \<union> set b1"
    "cert_id ` set new \<subseteq> cert_id ` set b'" "length b' \<le> length new + length b1"
    "new \<noteq> [] \<longrightarrow> (\<exists>p\<in>set new. cert_id p \<notin> set a1)"
    "\<forall>p\<in>set new. \<exists>i\<in>set ids. subdag_find sd r i = Some p"
    "\<forall>p. (\<exists>i\<in>set ids. subdag_find sd r i = Some p) \<longrightarrow> cert_id p \<in> set a'"
    by blast
  show ?case
  proof (cases "\<exists>p. subdag_find sd r i = Some p \<and> cert_id p \<notin> set a")
    case True
    then obtain p where p: "subdag_find sd r i = Some p" "cert_id p \<notin> set a" by blast
    then have ab: "a1 = cert_id p # a" "b1 = (if cert_id p \<in> cert_id ` set b then b else p # b)"
      using s by (auto simp: sanity_prev_def)
    have id: "cert_id p \<in> cert_id ` set b1" by (simp add: ab(2))
    show ?thesis
    proof (intro exI[of _ "p # new"] conjI)
      show "cert_id ` set (p # new) \<subseteq> cert_id ` set b'" using id new(2,4) by auto
      show "set b \<subseteq> set b'" using new(2) ab(2) by (auto split: if_splits)
      show "set b' \<subseteq> set (p # new) \<union> set b" using new(3) ab(2) by (auto split: if_splits)
      show "length b' \<le> length (p # new) + length b" using new(5) ab(2) by (simp split: if_splits)
      show "\<forall>q\<in>set (p # new). \<exists>i\<in>set (i # ids). subdag_find sd r i = Some q" using new(7) p(1) by auto
      show "\<forall>q. (\<exists>j\<in>set (i # ids). subdag_find sd r j = Some q) \<longrightarrow> cert_id q \<in> set a'"
        using new(1,8) p(1) ab(1) by auto
    qed (use new(1) p(2) ab(1) in auto)
  next
    case False
    then have ab: "a1 = a" "b1 = b" using s by (auto simp: sanity_prev_def split: option.splits if_splits)
    show ?thesis
    proof (intro exI[of _ new] conjI)
      show "\<forall>q. (\<exists>j\<in>set (i # ids). subdag_find sd r j = Some q) \<longrightarrow> cert_id q \<in> set a'"
        using new(1,8) ab(1) False by auto
    qed (use new ab in auto)
  qed
qed

lemma sanity_step_new:
  "sanity_step sd c (a, b) = (a', b') \<Longrightarrow>
   \<exists>new. set a' = cert_id ` set new \<union> set a \<and> set b \<subseteq> set b' \<and> set b' \<subseteq> set new \<union> set b \<and>
     cert_id ` set new \<subseteq> cert_id ` set b' \<and> length b' \<le> length new + length b \<and>
     (new \<noteq> [] \<longrightarrow> (\<exists>p\<in>set new. cert_id p \<notin> set a)) \<and>
     (\<forall>p\<in>set new. subdag_edge sd c p) \<and> (\<forall>p. subdag_edge sd c p \<longrightarrow> cert_id p \<in> set a')"
  unfolding sanity_step_def subdag_edge_def by (rule sanity_fold)

lemma subdag_edge_certs: "subdag_edge sd c p \<Longrightarrow> p \<in> commit_certs sd"
  by (auto simp: subdag_edge_def dest: subdag_find_Some)

lemma finite_commit_certs [simp]: "finite (commit_certs m)"
  by (simp add: commit_certs_def)

interpretation sanity: worklist "\<lambda>sd c w. Ok (sanity_step sd c w)" subdag_edge "\<lambda>_. True"
proof unfold_locales
  fix sd c a b a' b'
  assume "Ok (sanity_step sd c (a, b)) = Ok (a', b')"
  then show "\<exists>new. set a' = cert_id ` set new \<union> set a \<and> set b \<subseteq> set b' \<and> set b' \<subseteq> set new \<union> set b \<and>
        cert_id ` set new \<subseteq> cert_id ` set b' \<and> length b' \<le> length new + length b \<and>
        (new \<noteq> [] \<longrightarrow> (\<exists>p\<in>set new. cert_id p \<notin> set a)) \<and>
        (\<forall>p\<in>set new. subdag_edge sd c p) \<and> (\<forall>p. subdag_edge sd c p \<longrightarrow> cert_id p \<in> set a')"
    by (intro sanity_step_new) simp
next
  fix sd
  show "finite {p. \<exists>c. subdag_edge sd c p}"
    by (rule finite_subset[of _ "commit_certs sd"]) (auto dest: subdag_edge_certs)
qed

text \<open>The loop always ends: every push marks another ID of the subdag.\<close>

function sanity_loop ::
    "commit_map \<Rightarrow> commit_map \<Rightarrow> field list \<Rightarrow> batch_certificate list \<Rightarrow> commit_map" where
  "sanity_loop subdag commit already_ordered [] = commit"
| "sanity_loop subdag commit already_ordered (c # buffer) =
     (case sanity_step subdag c (already_ordered, buffer) of
        (already_ordered', buffer') \<Rightarrow>
          sanity_loop subdag (commit_insert c commit) already_ordered' buffer')"
  by pat_completeness auto

termination
proof (relation "inv_image (less_than <*lex*> less_than)
    (\<lambda>(sd, commit, a, b). (card (cert_id ` commit_certs sd - set a), length b))", goal_cases)
  case (2 sd commit a c b a' b')
  obtain new where new: "set a' = cert_id ` set new \<union> set a" "length b' \<le> length new + length b"
      "new \<noteq> [] \<longrightarrow> (\<exists>p\<in>set new. cert_id p \<notin> set a)" "\<forall>p\<in>set new. subdag_edge sd c p"
    using sanity_step_new[of sd c a b a' b'] 2 by metis
  let ?U = "cert_id ` commit_certs sd"
  have "card (?U - set a') < card (?U - set a) \<or> card (?U - set a') = card (?U - set a) \<and> length b' \<le> length b"
  proof (cases "new = []")
    case False
    then obtain p where "p \<in> set new" "cert_id p \<notin> set a" using new(3) by blast
    then have "cert_id p \<in> ?U - set a" "cert_id p \<notin> ?U - set a'"
      using new(1,4) subdag_edge_certs[of sd c] by auto
    moreover have "?U - set a' \<subseteq> ?U - set a" using new(1) by blast
    ultimately have "?U - set a' \<subset> ?U - set a" by blast
    then show ?thesis by (simp add: psubset_card_mono)
  qed (use new(1,2) in auto)
  then show ?case by auto
qed (rule wf_inv_image, rule wf_lex_prod; rule wf_less_than)

lemma sanity_loop_dfs:
  "dfs_loop (\<lambda>c w. Ok (sanity_step sd c w)) commit a b = Some (Ok (sanity_loop sd commit a b))"
proof (induction sd commit a b rule: sanity_loop.induct)
  case (2 sd commit a c b)
  then show ?case by (cases "sanity_step sd c (a, b)") (simp add: dfs_loop_Cons)
qed simp

text \<open>\<open>==\<close> on \<open>IndexSet\<close>s does not look at the order, and compares certificates by ID.\<close>

definition cset_eq :: "batch_certificate list \<Rightarrow> batch_certificate list \<Rightarrow> bool" where
  "cset_eq xs ys \<longleftrightarrow> length xs = length ys \<and> (\<forall>x\<in>set xs. cert_id x \<in> cert_id ` set ys)"

definition commit_eq :: "commit_map \<Rightarrow> commit_map \<Rightarrow> bool" where
  "commit_eq m m' \<longleftrightarrow> list_all2 (\<lambda>(r, xs) (s, ys). r = s \<and> cset_eq xs ys) m m'"

definition subdag_leaders :: "commit_map \<Rightarrow> batch_certificate list" where
  "subdag_leaders subdag = (if subdag = [] then [] else snd (last subdag))"

definition sanity_check_subdag_with_dfs :: "commit_map \<Rightarrow> bool" where
  "sanity_check_subdag_with_dfs subdag =
     commit_eq (sanity_loop subdag [] [] (rev (subdag_leaders subdag))) subdag"

definition subdag_MAX_ROUNDS :: u64 where
  "subdag_MAX_ROUNDS = MAX_GC_ROUNDS"

definition anchor_round :: "commit_map \<Rightarrow> u64" where
  "anchor_round subdag = (if subdag = [] then 0 else fst (last subdag))"

definition subdag_from :: "commit_map \<Rightarrow> commit_map result" where
  "subdag_from subdag =
     ensure (subdag \<noteq> []) ''Subdag cannot be empty''
     (ensure (length subdag \<le> subdag_MAX_ROUNDS) ''Subdag cannot exceed the maximum number of rounds''
     (ensure (anchor_round subdag mod 2 = 0) ''Anchor round must be even''
     (ensure (length (subdag_leaders subdag) = 1) ''Subdag cannot have multiple leaders''
     (ensure (is_sequential subdag) ''Subdag rounds must be sequential''
     (ensure (sanity_check_subdag_with_dfs subdag) ''Subdag structure does not match commit''
     (Ok subdag))))))"

definition subdag_certificates :: "commit_map \<Rightarrow> batch_certificate list" where
  "subdag_certificates subdag = concat (vals subdag)"

definition certificate_ids :: "commit_map \<Rightarrow> field list" where
  "certificate_ids subdag = map cert_id (subdag_certificates subdag)"

definition leader_certificate :: "commit_map \<Rightarrow> batch_certificate result" where
  "leader_certificate subdag =
     (if subdag = [] then Err (Panic ''There must be one round in the subdag'')
      else case snd (last subdag) of
             [] \<Rightarrow> Err (Panic ''There must be a leader certificate'')
           | c # _ \<Rightarrow> Ok c)"

definition leader_address :: "commit_map \<Rightarrow> address result" where
  "leader_address subdag = try_bind (leader_certificate subdag) (\<lambda>c. Ok (cert_author c))"

definition subdag_transmission_ids :: "commit_map \<Rightarrow> transmission_id list" where
  "subdag_transmission_ids subdag = concat (map cert_transmission_ids (subdag_certificates subdag))"

text \<open>The unstable sort leaves the order of equal timestamps open; the stable sort used here is one of
  the possible results, and \<open>weighted_median_perm\<close> below shows that the choice does not matter.\<close>

fun median_loop :: "u64 \<Rightarrow> u64 \<Rightarrow> i64 \<Rightarrow> (i64 \<times> u64) list \<Rightarrow> i64" where
  "median_loop tot accumulated current [] = current"
| "median_loop tot accumulated current ((t, stake) # rest) =
     (let accumulated = saturating_add u64_max accumulated stake
      in if saturating_mul u64_max accumulated 2 \<ge> tot then t
         else median_loop tot accumulated t rest)"

definition weighted_median :: "(i64 \<times> u64) list \<Rightarrow> i64" where
  "weighted_median ts =
     (let sorted_ts = sort_key fst ts;
          tot = fold (\<lambda>(_, stake) sum. u64_add sum stake) sorted_ts 0
      in median_loop tot 0 0 sorted_ts)"

definition subdag_timestamp :: "commit_map \<Rightarrow> committee \<Rightarrow> i64" where
  "subdag_timestamp subdag committee =
     weighted_median (map (\<lambda>c. (cert_timestamp c, get_stake committee (cert_author c)))
       (filter (\<lambda>c. cert_round c = saturating_sub (anchor_round subdag) 1) (subdag_certificates subdag)))"

section \<open>The rounds\<close>

lemma sequential_keys_Some:
  "sorted_wrt (<) (p # rs) \<Longrightarrow> \<forall>r\<in>set (p # rs). r \<le> u64_max \<Longrightarrow>
     sequential_keys (Some p) rs \<longleftrightarrow> rs = [Suc p ..< Suc p + length rs]"
proof (induction rs arbitrary: p)
  case (Cons r rs)
  show ?case
  proof (cases "r = Suc p")
    case True
    then have "u64_add p 1 = r" using Cons.prems(2) by (simp add: u64_add_exact)
    moreover have "[Suc p ..< Suc p + length (r # rs)] = Suc p # [Suc (Suc p) ..< Suc (Suc p) + length rs]"
      by (subst upt_conv_Cons) simp_all
    ultimately show ?thesis using True Cons.IH[of r] Cons.prems by simp
  next
    case False
    have "p + 1 \<le> u64_max" using Cons.prems by auto
    then have "u64_add p 1 \<noteq> r" using False by (simp add: u64_add_exact)
    moreover have "r # rs \<noteq> [Suc p ..< Suc p + length (r # rs)]"
      by (subst upt_conv_Cons) (use False in simp_all)
    ultimately show ?thesis by (simp del: upt_Suc)
  qed
qed simp

lemma is_sequential_iff:
  assumes "wf_bmap m" "\<forall>r\<in>set (keys m). r \<le> u64_max" "m \<noteq> []"
  shows "is_sequential m \<longleftrightarrow> keys m = [fst (hd m) ..< fst (hd m) + length m]"
proof -
  obtain p ps where m: "m = p # ps" using assms(3) by (cases m) auto
  have "is_sequential m \<longleftrightarrow> keys ps = [Suc (fst p) ..< Suc (fst p) + length (keys ps)]"
    unfolding is_sequential_def m list.map sequential_keys.simps option.simps
    using assms by (intro sequential_keys_Some) (simp_all add: m wf_bmap_def)
  moreover have "[fst p ..< fst p + length m] = fst p # [Suc (fst p) ..< Suc (fst p) + length ps]"
    unfolding m by (subst upt_conv_Cons) simp_all
  ultimately show ?thesis by (simp add: m del: upt_Suc)
qed

section \<open>The structure check\<close>

text \<open>What the types guarantee: keys in order, and no two certificates of a set with the same ID.\<close>

definition wf_subdag :: "commit_map \<Rightarrow> bool" where
  "wf_subdag m \<longleftrightarrow> wf_bmap m \<and> (\<forall>(r, cs)\<in>set m. distinct (map cert_id cs))"

lemma cset_eq_set:
  assumes "distinct (map cert_id xs)" "distinct (map cert_id ys)" "inj_on cert_id (set xs \<union> set ys)"
  shows "cset_eq xs ys \<longleftrightarrow> set xs = set ys"
proof
  assume e: "cset_eq xs ys"
  have "set xs \<subseteq> set ys"
  proof
    fix x assume x: "x \<in> set xs"
    then obtain y where "y \<in> set ys" "cert_id x = cert_id y" using e by (auto simp: cset_eq_def)
    then show "x \<in> set ys" using inj_onD[OF assms(3), of x y] x by simp
  qed
  moreover have "card (set xs) = card (set ys)"
    using e assms(1,2) by (simp add: cset_eq_def distinct_map distinct_card)
  ultimately show "set xs = set ys" by (simp add: card_subset_eq)
next
  assume "set xs = set ys"
  moreover from this have "length xs = length ys"
    using distinct_card[of xs] distinct_card[of ys] assms(1,2) by (simp add: distinct_map)
  ultimately show "cset_eq xs ys" by (simp add: cset_eq_def)
qed

lemma commit_eq_certs:
  assumes m: "commit_ok m" and m': "wf_subdag m'" and inj: "inj_on cert_id (commit_certs m \<union> commit_certs m')"
  shows "commit_eq m m' \<longleftrightarrow> commit_ok m' \<and> commit_certs m = commit_certs m'"
proof -
  have entry: "(\<lambda>(r, xs) (s, ys). r = s \<and> cset_eq xs ys) p q \<longleftrightarrow> fst p = fst q \<and> set (snd p) = set (snd q)"
    if "p \<in> set m" "q \<in> set m'" for p q
  proof -
    have "set (snd p) \<subseteq> commit_certs m" "set (snd q) \<subseteq> commit_certs m'"
      using that by (auto simp: commit_certs_def)
    then have "inj_on cert_id (set (snd p) \<union> set (snd q))" using inj by (blast intro: inj_on_subset)
    moreover have "distinct (map cert_id (snd p))" "distinct (map cert_id (snd q))"
      using that m m' by (auto simp: commit_ok_def wf_subdag_def)
    ultimately show ?thesis using cset_eq_set[of "snd p" "snd q"] by (simp add: case_prod_unfold)
  qed
  show ?thesis
  proof
    assume "commit_eq m m'"
    then have l: "list_all2 (\<lambda>p q. fst p = fst q \<and> set (snd p) = set (snd q)) m m'"
      unfolding commit_eq_def by (rule list.rel_mono_strong) (simp only: entry)
    have "set (map (\<lambda>p. (fst p, set (snd p))) m) = set (map (\<lambda>p. (fst p, set (snd p))) m')"
      using l by (intro arg_cong[where f = set]) (auto simp: list_all2_conv_all_nth list_eq_iff_nth_eq)
    then have e: "(\<lambda>p. (fst p, set (snd p))) ` set m = (\<lambda>p. (fst p, set (snd p))) ` set m'" by simp
    have "commit_certs m = commit_certs m'"
    proof -
      have u: "commit_certs x = \<Union> (snd ` (\<lambda>p. (fst p, set (snd p))) ` set x)" for x :: commit_map
        by (auto simp: commit_certs_def)
      show ?thesis by (simp only: u e)
    qed
    moreover have "commit_ok m'"
      unfolding commit_ok_def
    proof (intro conjI ballI)
      show "wf_bmap m'" using m' by (simp add: wf_subdag_def)
      fix q assume q: "q \<in> set m'"
      then have "(fst q, set (snd q)) \<in> (\<lambda>p. (fst p, set (snd p))) ` set m" unfolding e by blast
      then obtain p where p: "p \<in> set m" "fst p = fst q" "set (snd p) = set (snd q)" by auto
      have "snd p \<noteq> []" "\<forall>c\<in>set (snd p). cert_round c = fst p" using m p(1) by (auto simp: commit_ok_def)
      moreover have "distinct (map cert_id (snd q))" using m' q by (auto simp: wf_subdag_def)
      moreover from calculation have "snd q \<noteq> []" using p(3) by auto
      ultimately show "case q of (r, cs) \<Rightarrow> cs \<noteq> [] \<and> distinct (map cert_id cs) \<and>
          (\<forall>c\<in>set cs. cert_round c = r)"
        using p(2,3) by (simp add: case_prod_unfold)
    qed
    ultimately show "commit_ok m' \<and> commit_certs m = commit_certs m'" by blast
  next
    assume a: "commit_ok m' \<and> commit_certs m = commit_certs m'"
    have keys: "keys m = keys m'"
      using commit_keys[OF m] commit_keys[of m'] a m
      by (intro sorted_distinct_set_unique) (auto simp: commit_ok_def wf_bmap_def strict_sorted_iff)
    have sets: "set (snd (m ! i)) = set (snd (m' ! i))" if "i < length m" for i
    proof -
      have i: "i < length m'" "fst (m ! i) = fst (m' ! i)"
        using that keys by (metis length_map, metis length_map nth_map)
      have "(fst (m ! i), snd (m ! i)) \<in> set m" "(fst (m' ! i), snd (m' ! i)) \<in> set m'"
        using nth_mem[OF that] nth_mem[OF i(1)] by simp_all
      then have "map_of m (fst (m ! i)) = Some (snd (m ! i))" "map_of m' (fst (m ! i)) = Some (snd (m' ! i))"
        unfolding i(2) using m a wf_bmap_mem[of m] wf_bmap_mem[of m'] by (simp_all del: prod.collapse)
      then have "c \<in> set (snd (m ! i)) \<longleftrightarrow> c \<in> commit_certs m \<and> cert_round c = fst (m ! i)"
        "c \<in> set (snd (m' ! i)) \<longleftrightarrow> c \<in> commit_certs m' \<and> cert_round c = fst (m ! i)" for c
        using m a commit_ok_mem[of m c] commit_ok_mem[of m' c] commit_okD(3)[of m "fst (m ! i)" "snd (m ! i)" c]
          commit_okD(3)[of m' "fst (m ! i)" "snd (m' ! i)" c] by auto
      then show ?thesis using a by blast
    qed
    show "commit_eq m m'"
      unfolding commit_eq_def list_all2_conv_all_nth
    proof (intro conjI allI impI)
      show "length m = length m'" using keys by (metis length_map)
      fix i assume i: "i < length m"
      then have "i < length m'" "fst (m ! i) = fst (m' ! i)" using keys by (metis length_map, metis length_map nth_map)
      then show "(case m ! i of (r, xs) \<Rightarrow> \<lambda>(s, ys). r = s \<and> cset_eq xs ys) (m' ! i)"
        using entry[of "m ! i" "m' ! i"] sets[OF i] i by simp
    qed
  qed
qed

lemma subdag_leaders_certs: "set (subdag_leaders sd) \<subseteq> commit_certs sd"
proof (cases "sd = []")
  case False
  then have "last sd \<in> set sd" by simp
  then have "snd (last sd) \<in> set (vals sd)" by simp
  then show ?thesis using False by (auto simp: subdag_leaders_def commit_certs_def simp del: set_map)
qed (simp add: subdag_leaders_def)

lemma sanity_reach_certs: "sanity.reach sd (set (subdag_leaders sd)) \<subseteq> commit_certs sd"
  by (rule sanity.reach_least[OF subdag_leaders_certs]) (rule subdag_edge_certs)

lemma sanity_check_iff:
  assumes "wf_subdag sd" "inj_on cert_id (commit_certs sd)"
  shows "sanity_check_subdag_with_dfs sd \<longleftrightarrow>
    commit_ok sd \<and> commit_certs sd \<subseteq> sanity.reach sd (set (subdag_leaders sd))"
proof -
  let ?res = "sanity_loop sd [] [] (rev (subdag_leaders sd))"
  let ?R = "sanity.reach sd (set (subdag_leaders sd))"
  have "inj_on cert_id (sanity.reach sd (set (rev (subdag_leaders sd))))"
    using inj_on_subset[OF assms(2) sanity_reach_certs] by simp
  note res = sanity.traversal_correct[OF sanity_loop_dfs TrueI this]
  have certs: "commit_certs ?res = ?R" using res(2) by simp
  have "inj_on cert_id (commit_certs ?res \<union> commit_certs sd)"
    unfolding certs using assms(2) sanity_reach_certs by (simp add: Un_absorb1)
  from commit_eq_certs[OF res(1) assms(1) this] show ?thesis
    unfolding sanity_check_subdag_with_dfs_def certs using sanity_reach_certs by blast
qed

lemma subdag_from_Ok_iff:
  "subdag_from sd = Ok sd' \<longleftrightarrow> sd' = sd \<and> sd \<noteq> [] \<and> length sd \<le> subdag_MAX_ROUNDS \<and>
     even (anchor_round sd) \<and> length (subdag_leaders sd) = 1 \<and> is_sequential sd \<and>
     sanity_check_subdag_with_dfs sd"
  by (auto simp: subdag_from_def ensure_Ok_iff)

section \<open>The median\<close>

definition stake_sum :: "(i64 \<times> u64) list \<Rightarrow> nat" where
  "stake_sum ts = sum_list (map snd ts)"

definition stake_upto :: "(i64 \<Rightarrow> bool) \<Rightarrow> (i64 \<times> u64) list \<Rightarrow> nat" where
  "stake_upto P ts = stake_sum (filter (P \<circ> fst) ts)"

lemma stake_sum_simps [simp]:
  "stake_sum [] = 0" "stake_sum (p # ts) = snd p + stake_sum ts" "stake_sum (ts @ us) = stake_sum ts + stake_sum us"
  by (simp_all add: stake_sum_def)

lemma stake_sum_mset: "mset ts = mset us \<Longrightarrow> stake_sum ts = stake_sum us"
  unfolding stake_sum_def by (metis mset_map sum_mset_sum_list)

lemma fold_u64_add:
  "acc + stake_sum ts \<le> u64_max \<Longrightarrow> fold (\<lambda>(_, stake) sum. u64_add sum stake) ts acc = acc + stake_sum ts"
  by (induction ts arbitrary: acc) (auto simp: u64_add_exact)

lemma median_loop_spec:
  assumes "2 * tot \<le> u64_max" "acc + stake_sum ts = tot" "2 * acc < tot"
  shows "\<exists>pre s post. ts = pre @ (median_loop tot acc cur ts, s) # post \<and>
    2 * (acc + stake_sum pre) < tot \<and> tot \<le> 2 * (acc + stake_sum pre + s)"
  using assms
proof (induction ts arbitrary: acc cur)
  case (Cons p ts)
  obtain t s where p: "p = (t, s)" by (cases p)
  have acc: "saturating_add u64_max acc s = acc + s" "saturating_mul u64_max (acc + s) 2 = 2 * (acc + s)"
    using Cons.prems by (simp_all add: p saturating_add_def saturating_mul_def min_def)
  show ?case
  proof (cases "tot \<le> 2 * (acc + s)")
    case True
    then have "median_loop tot acc cur (p # ts) = t" by (simp add: p acc Let_def)
    then show ?thesis using True Cons.prems(3) by (intro exI[of _ "[]"]) (simp add: p)
  next
    case False
    then have m: "median_loop tot acc cur (p # ts) = median_loop tot (acc + s) t ts"
      by (simp add: p acc Let_def)
    obtain pre s' post where "ts = pre @ (median_loop tot (acc + s) t ts, s') # post"
        "2 * (acc + s + stake_sum pre) < tot" "tot \<le> 2 * (acc + s + stake_sum pre + s')"
      using Cons.IH[of "acc + s" t] Cons.prems False by (auto simp: p)
    then show ?thesis unfolding m by (intro exI[of _ "p # pre"]) (auto simp: p algebra_simps)
  qed
qed simp

lemma weighted_median_spec:
  assumes "2 * stake_sum ts \<le> u64_max" "0 < stake_sum ts"
  shows "weighted_median ts \<in> fst ` set ts \<and>
    2 * stake_upto (\<lambda>t. t < weighted_median ts) ts < stake_sum ts \<and>
    stake_sum ts \<le> 2 * stake_upto (\<lambda>t. t \<le> weighted_median ts) ts"
proof -
  let ?s = "sort_key fst ts"
  have sum: "stake_sum ?s = stake_sum ts" by (rule stake_sum_mset) simp
  have upto: "stake_upto P ?s = stake_upto P ts" for P
    unfolding stake_upto_def by (rule stake_sum_mset) simp
  have m: "weighted_median ts = median_loop (stake_sum ts) 0 0 ?s"
    unfolding weighted_median_def Let_def using fold_u64_add[of 0 ?s] assms(1) sum by simp
  obtain pre s post where ps: "?s = pre @ (weighted_median ts, s) # post"
      "2 * stake_sum pre < stake_sum ts" "stake_sum ts \<le> 2 * (stake_sum pre + s)"
    using median_loop_spec[of "stake_sum ts" 0 ?s 0] assms sum unfolding m by auto
  let ?m = "weighted_median ts"
  have "sorted (map fst (pre @ (?m, s) # post))" unfolding ps(1)[symmetric] by simp
  then have le: "\<forall>p\<in>set pre. fst p \<le> ?m" "\<forall>p\<in>set post. ?m \<le> fst p"
    by (auto simp: sorted_append)
  have "stake_upto (\<lambda>t. t < ?m) ?s \<le> stake_sum pre"
  proof -
    have "filter ((\<lambda>t. t < ?m) \<circ> fst) post = []" using le(2) by (auto simp: filter_empty_conv)
    moreover have "stake_sum (filter P pre) \<le> stake_sum pre" for P by (induction pre) auto
    ultimately show ?thesis by (simp add: stake_upto_def ps(1))
  qed
  moreover have "stake_sum pre + s \<le> stake_upto (\<lambda>t. t \<le> ?m) ?s"
  proof -
    have "filter ((\<lambda>t. t \<le> ?m) \<circ> fst) pre = pre" using le(1) by (simp add: filter_id_conv)
    then show ?thesis by (simp add: stake_upto_def ps(1))
  qed
  moreover have "?m \<in> fst ` set ts"
  proof -
    have "(?m, s) \<in> set ?s" unfolding ps(1) by simp
    then show ?thesis by force
  qed
  ultimately show ?thesis using ps(2,3) upto by auto
qed

text \<open>The median is the only timestamp with these two inequalities, so it does not depend on the order
  in which the certificates were listed.\<close>

lemma stake_upto_mono: "(\<And>t. P t \<Longrightarrow> Q t) \<Longrightarrow> stake_upto P ts \<le> stake_upto Q ts"
  by (induction ts) (auto simp: stake_upto_def)

lemma stake_split: "stake_upto P ts + stake_upto (\<lambda>t. \<not> P t) ts = stake_sum ts"
  by (induction ts) (auto simp: stake_upto_def)

lemma weighted_median_perm:
  assumes "2 * stake_sum ts \<le> u64_max" "0 < stake_sum ts" "mset ts = mset us"
  shows "weighted_median ts = weighted_median us"
proof -
  have e: "stake_sum ts = stake_sum us" "stake_upto P ts = stake_upto P us" for P
    using assms(3) by (auto intro!: stake_sum_mset simp: stake_upto_def)
  have a: "2 * stake_upto (\<lambda>t. t < weighted_median ts) ts < stake_sum ts"
      "stake_sum ts \<le> 2 * stake_upto (\<lambda>t. t \<le> weighted_median ts) ts"
    using weighted_median_spec[OF assms(1,2)] by auto
  have b: "2 * stake_upto (\<lambda>t. t < weighted_median us) ts < stake_sum ts"
      "stake_sum ts \<le> 2 * stake_upto (\<lambda>t. t \<le> weighted_median us) ts"
    using weighted_median_spec[of us] assms(1,2) e by auto
  have "False" if "x < y" "stake_sum ts \<le> 2 * stake_upto (\<lambda>t. t \<le> x) ts"
      "2 * stake_upto (\<lambda>t. t < y) ts < stake_sum ts" for x y
    using stake_upto_mono[of "\<lambda>t. t \<le> x" "\<lambda>t. t < y" ts] that by fastforce
  from this[of "weighted_median ts" "weighted_median us"] this[of "weighted_median us" "weighted_median ts"]
  show ?thesis using a b by (meson linorder_neqE_linordered_idom)
qed

section \<open>Encoding\<close>

definition write_round :: "(u64 \<times> batch_certificate list) writer" where
  "write_round p =
     write_seq ([write_u64 (fst p), write_len 2 (length (snd p))] @ map write_batch_certificate (snd p))"

definition write_subdag :: "commit_map writer" where
  "write_subdag subdag =
     write_seq ([write_u8 1, write_len 4 (length subdag)] @ map write_round subdag)"

definition read_certificate_with_unchecked :: "network \<Rightarrow> crypto \<Rightarrow> bool \<Rightarrow> batch_certificate reader" where
  "read_certificate_with_unchecked n cr unch =
     (if unch then read_batch_certificate_unchecked n cr else read_batch_certificate n cr)"

definition read_round :: "network \<Rightarrow> crypto \<Rightarrow> bool \<Rightarrow> (u64 \<times> batch_certificate list) reader" where
  "read_round n cr unch =
     read_then read_u64 (\<lambda>r.
     read_then read_u16 (\<lambda>num_certificates.
     read_ensure (\<not> num_certificates > LATEST_MAX_CERTIFICATES n) ''Number of certificates exceeds the maximum.'' (
     read_then (read_many num_certificates (read_certificate_with_unchecked n cr unch)) (\<lambda>cs.
     read_lift (Ok (r, cset_of_list cs))))))"

definition internal_read_le :: "network \<Rightarrow> crypto \<Rightarrow> bool \<Rightarrow> commit_map reader" where
  "internal_read_le n cr unch =
     read_then read_u8 (\<lambda>version.
     read_ensure (version = 1) ''Invalid subdag version'' (
     read_then read_u32 (\<lambda>num_rounds.
     read_ensure (\<not> num_rounds > subdag_MAX_ROUNDS) ''Number of rounds exceeds the maximum'' (
     read_then (read_many num_rounds (read_round n cr unch)) (\<lambda>entries.
     let subdag = fold (\<lambda>(r, cs). bmap_update r cs) entries []
     in read_lift (if unch then Ok subdag else subdag_from subdag))))))"

definition read_subdag :: "network \<Rightarrow> crypto \<Rightarrow> commit_map reader" where
  "read_subdag n cr = internal_read_le n cr False"

definition read_subdag_unchecked :: "network \<Rightarrow> crypto \<Rightarrow> commit_map reader" where
  "read_subdag_unchecked n cr = internal_read_le n cr True"

definition valid_round :: "network \<Rightarrow> crypto \<Rightarrow> u64 \<times> batch_certificate list \<Rightarrow> bool" where
  "valid_round n cr p \<longleftrightarrow> fst p \<le> u64_max \<and> LATEST_MAX_CERTIFICATES n \<le> u16_max \<and>
     length (snd p) \<le> LATEST_MAX_CERTIFICATES n \<and> distinct (map cert_id (snd p)) \<and>
     (\<forall>c\<in>set (snd p). valid_certificate n cr c)"

lemma certificate_with_unchecked_back:
  assumes "valid_certificate n cr c" "write_batch_certificate c = Ok bs"
  shows "read_certificate_with_unchecked n cr unch (bs @ rest) = Ok (c, rest)"
  using read_batch_certificate_back[OF assms] by (simp add: read_certificate_with_unchecked_def)

interpretation certificate_bytes:
  codec write_batch_certificate "read_certificate_with_unchecked n cr unch" "valid_certificate n cr"
    for n cr unch
proof unfold_locales
  fix c assume c: "valid_certificate n cr c"
  then obtain bs where "write_batch_certificate c = Ok bs" using batch_certificate_bytes.write_total by blast
  then show "\<exists>bs. write_batch_certificate c = Ok bs \<and>
      (\<forall>rest. read_certificate_with_unchecked n cr unch (bs @ rest) = Ok (c, rest))"
    using certificate_with_unchecked_back[OF c] by blast
qed

interpretation round_bytes: codec write_round "read_round n cr unch" "valid_round n cr" for n cr unch
proof unfold_locales
  fix p assume p: "valid_round n cr p"
  obtain cb where cb: "write_seq (map write_batch_certificate (snd p)) = Ok cb"
    using batch_certificate_bytes.write_seq_total[of "snd p" n cr] p by (auto simp: valid_round_def)
  have len: "length (snd p) < 256 ^ 2" "fst p < 256 ^ 8"
    using p by (simp_all add: valid_round_def u16_max_def u64_max_def)
  then have w: "write_round p = Ok (le_bytes 8 (fst p) @ le_bytes 2 (length (snd p)) @ cb)"
    using cb write_len_uint[of "length (snd p)" 2] by (simp add: write_round_def write_uint_def)
  have "read_many (length (snd p)) (read_certificate_with_unchecked n cr unch) (cb @ rest) = Ok (snd p, rest)"
    for rest using certificate_bytes.read_many_back[OF _ cb] p by (simp add: valid_round_def)
  then have "read_round n cr unch ((le_bytes 8 (fst p) @ le_bytes 2 (length (snd p)) @ cb) @ rest)
      = Ok (p, rest)" for rest
    using len p by (simp add: read_round_def valid_round_def cset_of_list_distinct)
  then show "\<exists>bs. write_round p = Ok bs \<and> (\<forall>rest. read_round n cr unch (bs @ rest) = Ok (p, rest))"
    using w by blast
qed

lemma bmap_update_snoc:
  "\<forall>k'\<in>set (keys m). k' < k \<Longrightarrow> bmap_update k v m = m @ [(k, v)]"
  by (induction m) auto

lemma fold_bmap_update_sorted:
  "wf_bmap (m @ entries) \<Longrightarrow> fold (\<lambda>(r, cs). bmap_update r cs) entries m = m @ entries"
proof (induction entries arbitrary: m)
  case (Cons p entries)
  obtain r cs where p: "p = (r, cs)" by (cases p)
  have "\<forall>k'\<in>set (keys m). k' < r"
    using Cons.prems by (auto simp: wf_bmap_def sorted_wrt_append p)
  then have "bmap_update r cs m = m @ [p]" by (simp add: p bmap_update_snoc)
  then show ?case using Cons.IH[of "m @ [p]"] Cons.prems by (simp add: p)
qed simp

definition valid_subdag :: "network \<Rightarrow> crypto \<Rightarrow> commit_map \<Rightarrow> bool" where
  "valid_subdag n cr sd \<longleftrightarrow> wf_bmap sd \<and> (\<forall>p\<in>set sd. valid_round n cr p) \<and> subdag_from sd = Ok sd"

interpretation subdag_bytes: codec write_subdag "internal_read_le n cr unch" "valid_subdag n cr"
  for n cr unch
proof unfold_locales
  fix sd assume sd: "valid_subdag n cr sd"
  have v: "\<forall>p\<in>set sd. valid_round n cr p" "subdag_from sd = Ok sd" "wf_bmap sd"
    using sd by (simp_all add: valid_subdag_def)
  obtain rb where rb: "write_seq (map write_round sd) = Ok rb"
    using round_bytes.write_seq_total[OF v(1)] by blast
  have len: "length sd \<le> subdag_MAX_ROUNDS" using v(2) by (simp add: subdag_from_Ok_iff)
  then have "length sd < 256 ^ 4" by (simp add: subdag_MAX_ROUNDS_def MAX_GC_ROUNDS_def)
  then have w: "write_subdag sd = Ok ([1] @ le_bytes 4 (length sd) @ rb)"
    using rb write_len_uint[of "length sd" 4] by (simp add: write_subdag_def write_uint_def)
  have "read_many (length sd) (read_round n cr unch) (rb @ rest) = Ok (sd, rest)" for rest
    using round_bytes.read_many_back[OF v(1) rb] .
  then have "internal_read_le n cr unch (([1] @ le_bytes 4 (length sd) @ rb) @ rest) = Ok (sd, rest)" for rest
    using len \<open>length sd < 256 ^ 4\<close> v(2,3) fold_bmap_update_sorted[of "[]" sd]
    by (simp add: internal_read_le_def Let_def)
  then show "\<exists>bs. write_subdag sd = Ok bs \<and> (\<forall>rest. internal_read_le n cr unch (bs @ rest) = Ok (sd, rest))"
    using w by blast
qed

section \<open>Order within a round\<close>

lemma find_unique:
  "distinct (map f xs) \<Longrightarrow> List.find (\<lambda>x. f x = i) xs = Some p \<longleftrightarrow> p \<in> set xs \<and> f p = i"
  by (induction xs) auto

lemma subdag_find_iff:
  assumes "wf_subdag sd"
  shows "subdag_find sd r i = Some p \<longleftrightarrow> (\<exists>cs. map_of sd r = Some cs \<and> p \<in> set cs \<and> cert_id p = i)"
proof (cases "map_of sd r")
  case (Some cs)
  then have "distinct (map cert_id cs)" using assms by (auto simp: wf_subdag_def dest!: map_of_SomeD)
  from find_unique[OF this, of i p] show ?thesis by (simp add: subdag_find_def Some)
qed (simp add: subdag_find_def)

lemma map_of_rounds:
  assumes "list_all2 (\<lambda>p q. fst p = fst q \<and> set (snd p) = set (snd q)) sd sd'"
  shows "case map_of sd r of None \<Rightarrow> map_of sd' r = None
    | Some cs \<Rightarrow> \<exists>cs'. map_of sd' r = Some cs' \<and> set cs' = set cs"
  using assms by (induction rule: list_all2_induct) (auto split: option.splits)

lemma commit_ok_alt:
  "commit_ok m \<longleftrightarrow> wf_subdag m \<and> (\<forall>p\<in>set m. set (snd p) \<noteq> {} \<and> (\<forall>c\<in>set (snd p). cert_round c = fst p))"
  by (auto simp: commit_ok_def wf_subdag_def)

lemma option_eqI: "(\<And>v. x = Some v \<longleftrightarrow> y = Some v) \<Longrightarrow> x = y"
  by (cases x; cases y) auto

section \<open>Concrete subdags\<close>

definition sample_subdag :: commit_map where
  "sample_subdag = [(1, [plain_certificate 5 7 1 [], plain_certificate 6 8 1 []]),
     (2, [plain_certificate 9 7 2 [5, 6]])]"

lemma sample_subdag_wf: "wf_subdag sample_subdag" "commit_ok sample_subdag"
  by (simp_all add: sample_subdag_def wf_subdag_def commit_ok_def wf_bmap_def)

lemma sample_subdag_certs:
  "commit_certs sample_subdag = {plain_certificate 5 7 1 [], plain_certificate 6 8 1 [], plain_certificate 9 7 2 [5, 6]}"
  "inj_on cert_id (commit_certs sample_subdag)"
  by (auto simp: sample_subdag_def commit_certs_def inj_on_def)

lemma sample_subdag_from: "subdag_from sample_subdag = Ok sample_subdag"
proof -
  have e: "subdag_edge sample_subdag (plain_certificate 9 7 2 [5, 6]) c"
    if "c = plain_certificate 5 7 1 [] \<or> c = plain_certificate 6 8 1 []" for c
    using that by (auto simp: subdag_edge_def sample_subdag_def subdag_find_def u64_sub_def)
  have l: "subdag_leaders sample_subdag = [plain_certificate 9 7 2 [5, 6]]"
    by (simp add: subdag_leaders_def sample_subdag_def)
  have "commit_certs sample_subdag \<subseteq> sanity.reach sample_subdag (set (subdag_leaders sample_subdag))"
    unfolding sample_subdag_certs(1) l sanity.reach_def using e by auto
  then have "sanity_check_subdag_with_dfs sample_subdag"
    using sanity_check_iff[OF sample_subdag_wf(1) sample_subdag_certs(2)] sample_subdag_wf(2) by blast
  then show ?thesis
    by (simp add: subdag_from_Ok_iff l)
      (simp add: sample_subdag_def anchor_round_def is_sequential_def subdag_MAX_ROUNDS_def
        MAX_GC_ROUNDS_def u64_add_def)
qed

section \<open>Properties\<close>

text \<open>\<open>Subdag::from\<close> accepts a map exactly when it is non-empty, has at most as many rounds as the
  GC depth, its rounds are consecutive and end in an even round with a single leader certificate, every
  certificate is filed under its own round, and every certificate can be reached from the leader through
  previous-certificate references inside the map (for certificates whose IDs do not collide).\<close>

theorem subdag_from_accepts:
  assumes "wf_subdag sd" "inj_on cert_id (commit_certs sd)" "\<forall>r\<in>set (keys sd). r \<le> u64_max"
  shows "subdag_from sd = Ok sd \<longleftrightarrow> sd \<noteq> [] \<and> length sd \<le> MAX_GC_ROUNDS \<and> even (anchor_round sd) \<and>
    keys sd = [fst (hd sd) ..< fst (hd sd) + length sd] \<and> commit_ok sd \<and>
    (\<exists>leader. subdag_leaders sd = [leader] \<and> (\<forall>c\<in>commit_certs sd. (subdag_edge sd)\<^sup>*\<^sup>* leader c))"
proof -
  have "wf_bmap sd" using assms(1) by (simp add: wf_subdag_def)
  then have "sd \<noteq> [] \<Longrightarrow> is_sequential sd \<longleftrightarrow> keys sd = [fst (hd sd) ..< fst (hd sd) + length sd]"
    using is_sequential_iff assms(3) by blast
  then show ?thesis
    unfolding subdag_from_Ok_iff sanity_check_iff[OF assms(1,2)] subdag_MAX_ROUNDS_def sanity.reach_def
      length_Suc_conv One_nat_def
    by (auto simp: subset_iff)
qed

theorem subdag_from_accepts_witness:
  "subdag_from sample_subdag = Ok sample_subdag \<and>
   (subdag_edge sample_subdag)\<^sup>*\<^sup>* (plain_certificate 9 7 2 [5, 6]) (plain_certificate 5 7 1 [])"
proof -
  have "\<forall>r\<in>set (keys sample_subdag). r \<le> u64_max" by (simp add: sample_subdag_def u64_max_def)
  from subdag_from_accepts[OF sample_subdag_wf(1) sample_subdag_certs(2) this] sample_subdag_from
  obtain leader where "subdag_leaders sample_subdag = [leader]"
      "\<forall>c\<in>commit_certs sample_subdag. (subdag_edge sample_subdag)\<^sup>*\<^sup>* leader c" by blast
  moreover have "subdag_leaders sample_subdag = [plain_certificate 9 7 2 [5, 6]]"
    by (simp add: subdag_leaders_def sample_subdag_def)
  ultimately show ?thesis using sample_subdag_from sample_subdag_certs(1) by simp
qed

text \<open>The structure check does not look at the order of the certificates within a round: rearranging
  each round's set gives the same verdict, because sets compare without order.  The comment of
  \<open>sanity_check_subdag_with_dfs\<close> says that it checks that the batches are ordered as expected.\<close>

theorem sanity_check_ignores_order:
  assumes "wf_subdag sd" "wf_subdag sd'" "inj_on cert_id (commit_certs sd)"
    and "list_all2 (\<lambda>p q. fst p = fst q \<and> set (snd p) = set (snd q)) sd sd'"
  shows "sanity_check_subdag_with_dfs sd \<longleftrightarrow> sanity_check_subdag_with_dfs sd'"
proof -
  have certs: "commit_certs sd = commit_certs sd'"
    using assms(4) by (induction rule: list_all2_induct) (auto simp: commit_certs_def)
  have leaders: "set (subdag_leaders sd) = set (subdag_leaders sd')"
    using assms(4) by (induction rule: list_all2_induct) (auto simp: subdag_leaders_def)
  have inj: "inj_on cert_id (commit_certs sd')" using assms(3) certs by simp
  have "(\<forall>p\<in>set sd. set (snd p) \<noteq> {} \<and> (\<forall>c\<in>set (snd p). cert_round c = fst p)) \<longleftrightarrow>
      (\<forall>p\<in>set sd'. set (snd p) \<noteq> {} \<and> (\<forall>c\<in>set (snd p). cert_round c = fst p))"
    using assms(4) by (induction rule: list_all2_induct) (simp_all del: set_empty)
  then have ok: "commit_ok sd \<longleftrightarrow> commit_ok sd'" using assms(1,2) unfolding commit_ok_alt by blast
  have find: "subdag_find sd r i = subdag_find sd' r i" for r i
    using subdag_find_iff[OF assms(1)] subdag_find_iff[OF assms(2)] map_of_rounds[OF assms(4), of r]
    by (intro option_eqI) (auto split: option.splits)
  have "subdag_edge sd = subdag_edge sd'" by (simp add: subdag_edge_def find fun_eq_iff)
  then show ?thesis
    unfolding sanity_check_iff[OF assms(1,3)] sanity_check_iff[OF assms(2) inj] sanity.reach_def
      certs leaders ok by simp
qed

theorem sanity_check_ignores_order_witness:
  "sanity_check_subdag_with_dfs [(1, [plain_certificate 6 8 1 [], plain_certificate 5 7 1 []]),
     (2, [plain_certificate 9 7 2 [5, 6]])]"
proof -
  let ?sd = "[(1, [plain_certificate 6 8 1 [], plain_certificate 5 7 1 []]), (2, [plain_certificate 9 7 2 [5, 6]])]"
  have wf: "wf_subdag ?sd" by (simp add: wf_subdag_def wf_bmap_def)
  have "list_all2 (\<lambda>p q. fst p = fst q \<and> set (snd p) = set (snd q)) sample_subdag ?sd"
    by (auto simp: sample_subdag_def)
  from sanity_check_ignores_order[OF sample_subdag_wf(1) wf sample_subdag_certs(2) this]
  show ?thesis using sample_subdag_from by (simp add: subdag_from_Ok_iff)
qed

text \<open>The block timestamp is a median: it is one of the timestamps, the stake strictly below it is
  less than half of the total and the stake up to it at least half; it does not depend on the order in
  which the certificates are listed; and if the timestamps outside an interval carry less than half of the
  stake, it lies in the interval, so a minority cannot move it out of the range of the others.\<close>

theorem weighted_median_correct:
  assumes "2 * stake_sum ts \<le> u64_max" "0 < stake_sum ts"
  shows "weighted_median ts \<in> fst ` set ts \<and>
    2 * stake_upto (\<lambda>t. t < weighted_median ts) ts < stake_sum ts \<and>
    stake_sum ts \<le> 2 * stake_upto (\<lambda>t. t \<le> weighted_median ts) ts \<and>
    (\<forall>us. mset us = mset ts \<longrightarrow> weighted_median us = weighted_median ts) \<and>
    (\<forall>lo hi. 2 * stake_upto (\<lambda>t. t < lo \<or> hi < t) ts < stake_sum ts \<longrightarrow>
       lo \<le> weighted_median ts \<and> weighted_median ts \<le> hi)"
proof -
  let ?m = "weighted_median ts"
  note m = weighted_median_spec[OF assms]
  have split: "stake_upto (\<lambda>t. t < ?m) ts + stake_upto (\<lambda>t. ?m \<le> t) ts = stake_sum ts"
    using stake_split[of "\<lambda>t. t < ?m"] by (simp add: not_less)
  have range: "lo \<le> ?m \<and> ?m \<le> hi" if "2 * stake_upto (\<lambda>t. t < lo \<or> hi < t) ts < stake_sum ts" for lo hi
  proof (rule ccontr)
    assume "\<not> (lo \<le> ?m \<and> ?m \<le> hi)"
    then consider "?m < lo" | "hi < ?m" by linarith
    then show False
    proof cases
      case 1
      then have "stake_upto (\<lambda>t. t \<le> ?m) ts \<le> stake_upto (\<lambda>t. t < lo \<or> hi < t) ts"
        by (intro stake_upto_mono) auto
      then show False using m that by linarith
    next
      case 2
      then have "stake_upto (\<lambda>t. ?m \<le> t) ts \<le> stake_upto (\<lambda>t. t < lo \<or> hi < t) ts"
        by (intro stake_upto_mono) auto
      then show False using m that split by linarith
    qed
  qed
  have perm: "weighted_median us = ?m" if "mset us = mset ts" for us
    by (rule weighted_median_perm[OF assms, symmetric]) (simp add: that)
  show ?thesis
    using m by (intro conjI allI impI) (auto dest: range perm)
qed

theorem weighted_median_correct_witness: "weighted_median [(30, 5), (10, 4), (20, 3)] = 20"
proof -
  let ?ts = "[(30, 5), (10, 4), (20, 3)] :: (i64 \<times> u64) list"
  define m where "m = weighted_median ?ts"
  have s: "2 * stake_sum ?ts \<le> u64_max" "0 < stake_sum ?ts" by (simp_all add: u64_max_def)
  have "m \<in> fst ` set ?ts" "2 * stake_upto (\<lambda>t. t < m) ?ts < stake_sum ?ts"
      "stake_sum ?ts \<le> 2 * stake_upto (\<lambda>t. t \<le> m) ?ts"
    using weighted_median_correct[OF s] unfolding m_def by blast+
  then have "m = 20" by (auto simp: stake_upto_def)
  then show ?thesis by (simp add: m_def)
qed

text \<open>Encoding: a subdag that \<open>Subdag::from\<close> accepts, with valid certificates, encodes, and both
  the checked and the unchecked reader give it back from the bytes.\<close>

theorem subdag_round_trip:
  assumes "valid_subdag n cr sd"
  shows "\<exists>bs. write_subdag sd = Ok bs \<and> (\<forall>rest. read_subdag n cr (bs @ rest) = Ok (sd, rest) \<and>
    read_subdag_unchecked n cr (bs @ rest) = Ok (sd, rest))"
  using subdag_bytes.write_total[OF assms] subdag_bytes.read_back[OF assms]
  by (auto simp: read_subdag_def read_subdag_unchecked_def)

theorem subdag_round_trip_witness:
  "\<exists>sd bs. write_subdag sd = Ok bs \<and> read_subdag MainnetV0 sample_crypto bs = Ok (sd, []) \<and>
     length (subdag_certificates sd) = 1"
proof -
  let ?c = "sample_certificate 2 0 [] [] [3, 4, 5]"
  have v: "valid_certificate MainnetV0 sample_crypto ?c"
    by (rule sample_certificate_valid) (simp_all add: field_modulus_def u64_max_def)
  have r: "cert_round ?c = 0" "cert_previous_ids ?c = []"
    using sample_header_valid[of 2 "[]" "[]" 0] by (simp_all add: sample_certificate_def field_modulus_def)
  let ?sd = "[(0, [?c])]"
  have "sanity_check_subdag_with_dfs ?sd"
    by (simp add: sanity_check_subdag_with_dfs_def subdag_leaders_def sanity_step_def r bmap_entry_def
        iset_insert_key_def commit_eq_def cset_eq_def)
  then have "subdag_from ?sd = Ok ?sd"
    by (simp add: subdag_from_Ok_iff subdag_MAX_ROUNDS_def MAX_GC_ROUNDS_def anchor_round_def
        subdag_leaders_def is_sequential_def)
  then have "valid_subdag MainnetV0 sample_crypto ?sd"
    using v by (simp add: valid_subdag_def valid_round_def wf_bmap_def mainnet_max_certificates u16_max_def)
  from subdag_round_trip[OF this] obtain bs where "write_subdag ?sd = Ok bs"
      "read_subdag MainnetV0 sample_crypto (bs @ []) = Ok (?sd, [])" by blast
  then show ?thesis by (intro exI[of _ ?sd] exI[of _ bs]) (simp add: subdag_certificates_def)
qed

end
