(* ===== verification/DAG.thy ===== *)
theory DAG
  imports Narwhal
begin

text \<open>The certificate DAG of \<open>node/bft/src/helpers/dag.rs\<close>: certificates by round and author, the IDs
  committed recently, and the last committed round.  The lemmas give the effect of every operation,
  the invariant of the structure, and show that \<open>is_linked\<close> decides whether the DAG has a path
  between two certificates.\<close>

section \<open>Definitions\<close>

record dag =
  graph :: "(u64, (address, batch_certificate) imap) imap"
  recent_committed_ids :: "(u64, field list) imap"
  last_committed_round :: u64

definition dag_new :: dag where
  "dag_new = \<lparr>graph = [], recent_committed_ids = [], last_committed_round = 0\<rparr>"

definition is_recently_committed :: "dag \<Rightarrow> u64 \<Rightarrow> field \<Rightarrow> bool" where
  "is_recently_committed d r i =
     (case map_of (recent_committed_ids d) r of None \<Rightarrow> False | Some ids \<Rightarrow> i \<in> set ids)"

definition contains_certificate_in_round :: "dag \<Rightarrow> u64 \<Rightarrow> field \<Rightarrow> bool" where
  "contains_certificate_in_round d r i =
     (case map_of (graph d) r of None \<Rightarrow> False | Some m \<Rightarrow> \<exists>c\<in>set (vals m). cert_id c = i)"

definition dag_get_certificate_for_round_with_author ::
    "dag \<Rightarrow> u64 \<Rightarrow> address \<Rightarrow> batch_certificate option" where
  "dag_get_certificate_for_round_with_author d r a =
     (case map_of (graph d) r of None \<Rightarrow> None | Some m \<Rightarrow> map_of m a)"

definition get_certificate_for_round_with_id :: "dag \<Rightarrow> u64 \<Rightarrow> field \<Rightarrow> batch_certificate option" where
  "get_certificate_for_round_with_id d r i =
     (case map_of (graph d) r of None \<Rightarrow> None | Some m \<Rightarrow> List.find (\<lambda>c. cert_id c = i) (vals m))"

definition dag_get_certificates_for_round ::
    "dag \<Rightarrow> u64 \<Rightarrow> (address, batch_certificate) imap option" where
  "dag_get_certificates_for_round d r = map_of (graph d) r"

definition dag_insert :: "batch_certificate \<Rightarrow> dag \<Rightarrow> dag" where
  "dag_insert c d =
     (if \<not> is_recently_committed d (cert_round c) (cert_id c)
      then d\<lparr>graph := bmap_entry [] (cert_round c) (AList.update (cert_author c) c) (graph d)\<rparr>
      else d)"

text \<open>The last \<open>retain\<close> of \<open>commit\<close> also edits the entries it visits.\<close>

definition drop_author :: "u64 \<Rightarrow> address \<Rightarrow> (u64, (address, batch_certificate) imap) imap
    \<Rightarrow> (u64, (address, batch_certificate) imap) imap" where
  "drop_author certificate_round a g =
     map_retain (\<lambda>r m. r > certificate_round \<or> m \<noteq> [])
       (map (\<lambda>(r, m). if r > certificate_round then (r, m) else (r, AList.delete a m)) g)"

definition dag_commit :: "batch_certificate \<Rightarrow> u64 \<Rightarrow> dag \<Rightarrow> dag" where
  "dag_commit c max_gc d =
     (let recent = bmap_entry [] (cert_round c) (iset_insert (cert_id c)) (recent_committed_ids d);
          last = (if last_committed_round d < cert_round c then cert_round c else last_committed_round d);
          keep = (\<lambda>r _. u64_add r max_gc > last)
      in \<lparr>graph = drop_author (cert_round c) (cert_author c) (map_retain keep (graph d)),
          recent_committed_ids = map_retain (\<lambda>r _. u64_add r max_gc > last) recent,
          last_committed_round = last\<rparr>)"

definition link_step :: "dag \<Rightarrow> u64 \<Rightarrow> batch_certificate list \<Rightarrow> batch_certificate list result" where
  "link_step d r traversal =
     (case dag_get_certificates_for_round d r of
        None \<Rightarrow> bail ''BFT failed to retrieve the certificates for past round''
      | Some m \<Rightarrow>
          Ok (filter (\<lambda>p. \<exists>c\<in>set traversal. cert_id p \<in> set (cert_previous_ids c)) (vals m)))"

definition is_linked :: "dag \<Rightarrow> batch_certificate \<Rightarrow> batch_certificate \<Rightarrow> bool result" where
  "is_linked d previous current =
     ensure (cert_round previous < cert_round current) ''is_linked''
     (try_bind (try_fold (link_step d) (rev [cert_round previous ..< cert_round current]) [current])
       (\<lambda>traversal. Ok (cert_id previous \<in> cert_id ` set traversal)))"

section \<open>The invariant\<close>

definition dag_certs :: "dag \<Rightarrow> u64 \<Rightarrow> batch_certificate set" where
  "dag_certs d r = (case map_of (graph d) r of None \<Rightarrow> {} | Some m \<Rightarrow> set (vals m))"

definition graph_ok :: "(u64, (address, batch_certificate) imap) imap \<Rightarrow> bool" where
  "graph_ok g \<longleftrightarrow> wf_bmap g \<and>
     (\<forall>(r, m)\<in>set g. wf_map m \<and> m \<noteq> [] \<and> (\<forall>(a, c)\<in>set m. cert_round c = r \<and> cert_author c = a))"

definition recent_ok :: "dag \<Rightarrow> bool" where
  "recent_ok d \<longleftrightarrow> wf_bmap (recent_committed_ids d) \<and>
     (\<forall>r\<in>set (keys (recent_committed_ids d)). r \<le> last_committed_round d) \<and>
     (0 < last_committed_round d \<longrightarrow> last_committed_round d \<in> set (keys (recent_committed_ids d)))"

definition dag_inv :: "dag \<Rightarrow> bool" where
  "dag_inv d \<longleftrightarrow> graph_ok (graph d) \<and> recent_ok d"

lemma graph_okD:
  assumes "graph_ok g" "map_of g r = Some m"
  shows "wf_map m" "m \<noteq> []" "map_of m a = Some c \<Longrightarrow> cert_round c = r \<and> cert_author c = a"
    "c \<in> set (vals m) \<Longrightarrow> cert_round c = r \<and> map_of m (cert_author c) = Some c"
proof -
  have m: "wf_map m \<and> m \<noteq> [] \<and> (\<forall>(a, c)\<in>set m. cert_round c = r \<and> cert_author c = a)"
    using assms map_of_SomeD[OF assms(2)] by (fastforce simp: graph_ok_def)
  then show "wf_map m" "m \<noteq> []" by auto
  show "cert_round c = r \<and> cert_author c = a" if "map_of m a = Some c"
    using m map_of_SomeD[OF that] by auto
  show "cert_round c = r \<and> map_of m (cert_author c) = Some c" if "c \<in> set (vals m)"
  proof -
    obtain a where a: "(a, c) \<in> set m" using \<open>c \<in> set (vals m)\<close> by auto
    then show ?thesis using m by (auto intro: map_of_Some_in)
  qed
qed

lemma graph_ok_wf [simp]: "graph_ok g \<Longrightarrow> wf_bmap g"
  by (simp add: graph_ok_def)

lemma dag_inv_wf [simp]: "dag_inv d \<Longrightarrow> wf_bmap (graph d)" "dag_inv d \<Longrightarrow> wf_bmap (recent_committed_ids d)"
  by (simp_all add: dag_inv_def recent_ok_def)

lemma dag_inv_graph: "dag_inv d \<Longrightarrow> graph_ok (graph d)"
  by (simp add: dag_inv_def)

lemma graph_okI:
  assumes "wf_bmap g"
    and "\<And>r m. map_of g r = Some m \<Longrightarrow> wf_map m \<and> m \<noteq> [] \<and>
      (\<forall>a c. map_of m a = Some c \<longrightarrow> cert_round c = r \<and> cert_author c = a)"
  shows "graph_ok g"
  unfolding graph_ok_def
proof (intro conjI ballI, rule assms(1))
  fix p assume "p \<in> set g"
  moreover obtain r m where "p = (r, m)" by (cases p)
  ultimately have p: "p = (r, m)" "map_of g r = Some m" using assms(1) by (auto intro: map_of_Some_in)
  show "case p of (r, m) \<Rightarrow> wf_map m \<and> m \<noteq> [] \<and>
      (\<forall>(a, c)\<in>set m. cert_round c = r \<and> cert_author c = a)"
    using assms(2)[OF p(2)] p(1) by (auto dest: map_of_Some_in)
qed

lemma dag_new_inv: "dag_inv dag_new"
  by (simp add: dag_inv_def dag_new_def graph_ok_def recent_ok_def)

subsection \<open>Insertion\<close>

lemma alist_update_nonempty [simp]: "AList.update k v m \<noteq> []"
  by (cases m) auto

lemma wf_map_single: "wf_map [p]"
  by (simp add: wf_map_def)

lemma dag_insert_inv:
  assumes "dag_inv d"
  shows "dag_inv (dag_insert c d)"
proof -
  have "graph_ok (bmap_entry [] (cert_round c) (AList.update (cert_author c) c) (graph d))"
  proof (rule graph_okI)
    show "wf_bmap (bmap_entry [] (cert_round c) (AList.update (cert_author c) c) (graph d))"
      using assms by simp
  next
    fix r m assume "map_of (bmap_entry [] (cert_round c) (AList.update (cert_author c) c) (graph d)) r = Some m"
    then consider "map_of (graph d) r = Some m"
      | "r = cert_round c" "map_of (graph d) r = None" "m = [(cert_author c, c)]"
      | m' where "r = cert_round c" "map_of (graph d) r = Some m'" "m = AList.update (cert_author c) c m'"
      using assms by (auto simp: map_of_bmap_entry split: if_splits option.splits)
    then show "wf_map m \<and> m \<noteq> [] \<and>
        (\<forall>a c. map_of m a = Some c \<longrightarrow> cert_round c = r \<and> cert_author c = a)"
    proof cases
      case 1
      note D = graph_okD(1-3)[OF dag_inv_graph[OF assms] 1]
      show ?thesis by (intro conjI allI impI) (simp_all add: D(1,2) D(3))
    next
      case 2
      then show ?thesis by (simp add: wf_map_single)
    next
      case 3
      note D = graph_okD(1-3)[OF dag_inv_graph[OF assms] 3(2)]
      have "cert_round c' = r \<and> cert_author c' = a" if "map_of m a = Some c'" for a c'
        using that D(3)[of a c'] 3 by (cases "a = cert_author c") simp_all
      moreover have "wf_map m" "m \<noteq> []" using D(1) 3(3) by simp_all
      ultimately show ?thesis by blast
    qed
  qed
  then show ?thesis using assms by (simp add: dag_insert_def dag_inv_def recent_ok_def)
qed

lemma dag_insert_lookup:
  assumes "dag_inv d"
  shows "dag_get_certificate_for_round_with_author (dag_insert c d) r a =
    (if r = cert_round c \<and> a = cert_author c \<and> \<not> is_recently_committed d (cert_round c) (cert_id c)
     then Some c else dag_get_certificate_for_round_with_author d r a)"
  using assms by (auto simp: dag_insert_def dag_get_certificate_for_round_with_author_def
      map_of_bmap_entry split: option.splits)

lemma dag_insert_rest [simp]:
  "last_committed_round (dag_insert c d) = last_committed_round d"
  "is_recently_committed (dag_insert c d) = is_recently_committed d"
  by (simp_all add: dag_insert_def is_recently_committed_def fun_eq_iff)

subsection \<open>Commits\<close>

lemma map_of_map_value: "map_of (map (\<lambda>(k, v). (k, f k v)) m) k = map_option (f k) (map_of m k)"
  by (induction m) auto

lemma keys_map_value [simp]: "map (fst \<circ> (\<lambda>(k, v). (k, f k v))) m = keys m"
  by (induction m) auto

lemma drop_author_alt:
  "drop_author cr a g = map_retain (\<lambda>r m. r > cr \<or> m \<noteq> [])
     (map (\<lambda>(r, m). (r, if r > cr then m else AList.delete a m)) g)"
  unfolding drop_author_def by (rule arg_cong[where f = "map_retain _"]) (auto intro: map_cong)

lemma drop_author_wf [simp]: "wf_bmap g \<Longrightarrow> wf_bmap (drop_author cr a g)"
  unfolding drop_author_alt by (rule wf_bmap_retain) (simp add: wf_bmap_def)

lemma map_of_drop_author:
  assumes "wf_bmap g"
  shows "map_of (drop_author cr a g) r =
    (case map_of g r of None \<Rightarrow> None
     | Some m \<Rightarrow> if r > cr then Some m else if AList.delete a m = [] then None else Some (AList.delete a m))"
proof -
  have "wf_map (map (\<lambda>(r, m). (r, if r > cr then m else AList.delete a m)) g)"
    using assms by (simp add: wf_bmap_def strict_sorted_iff wf_map_def)
  then show ?thesis
    by (auto simp: drop_author_alt map_of_retain map_of_map_value split: option.splits)
qed

definition kept_round :: "u64 \<Rightarrow> u64 \<Rightarrow> u64 \<Rightarrow> bool" where
  "kept_round max_gc l r \<longleftrightarrow> u64_add r max_gc > l"

lemma dag_commit_last [simp]:
  "last_committed_round (dag_commit c gc d) = max (last_committed_round d) (cert_round c)"
  by (simp add: dag_commit_def Let_def max_def)

lemma dag_commit_lookup:
  assumes "dag_inv d"
  shows "dag_get_certificate_for_round_with_author (dag_commit c gc d) r a =
    (if (r \<le> cert_round c \<and> a = cert_author c) \<or>
        \<not> kept_round gc (max (last_committed_round d) (cert_round c)) r
     then None else dag_get_certificate_for_round_with_author d r a)"
proof -
  let ?last = "max (last_committed_round d) (cert_round c)"
  let ?g = "map_retain (\<lambda>round _. u64_add round gc > ?last) (graph d)"
  have g: "graph (dag_commit c gc d) = drop_author (cert_round c) (cert_author c) ?g"
    by (simp add: dag_commit_def Let_def max_def)
  have "map_of ?g r = (if kept_round gc ?last r then map_of (graph d) r else None)"
    using assms by (simp add: map_of_retain kept_round_def split: option.splits)
  moreover have "map_of (AList.delete (cert_author c) m) a = (if a = cert_author c then None else map_of m a)" for m :: "(address, batch_certificate) imap"
    by (simp add: delete_conv')
  moreover have "map_of m a = None" if "AList.delete (cert_author c) m = []" "a \<noteq> cert_author c"
    for m :: "(address, batch_certificate) imap"
    using that by (metis delete_conv' fun_upd_other map_of.simps(1))
  ultimately show ?thesis
    using assms unfolding dag_get_certificate_for_round_with_author_def g
    by (auto simp: map_of_drop_author split: option.splits)
qed

lemma dag_commit_recent:
  assumes "dag_inv d"
  shows "is_recently_committed (dag_commit c gc d) r i \<longleftrightarrow>
    kept_round gc (max (last_committed_round d) (cert_round c)) r \<and>
    (is_recently_committed d r i \<or> r = cert_round c \<and> i = cert_id c)"
proof -
  let ?last = "max (last_committed_round d) (cert_round c)"
  let ?r = "bmap_entry [] (cert_round c) (iset_insert (cert_id c)) (recent_committed_ids d)"
  have "recent_committed_ids (dag_commit c gc d) = map_retain (\<lambda>round _. u64_add round gc > ?last) ?r"
    by (simp add: dag_commit_def Let_def max_def)
  moreover have "wf_bmap ?r" using assms by simp
  ultimately show ?thesis
    using assms unfolding is_recently_committed_def
    by (auto simp: map_of_retain map_of_bmap_entry kept_round_def index_simps split: option.splits)
qed

lemma kept_round_self: "0 < gc \<Longrightarrow> r + gc \<le> u64_max \<Longrightarrow> kept_round gc r r"
  by (simp add: kept_round_def u64_add_exact)

lemma keys_retain: "set (keys (map_retain (\<lambda>k _. P k) m)) = {k \<in> set (keys m). P k}"
  by (force simp: map_retain_def)

lemma dag_commit_inv:
  assumes inv: "dag_inv d" and gc: "0 < gc"
    and fit: "cert_round c + gc \<le> u64_max" "last_committed_round d + gc \<le> u64_max"
  shows "dag_inv (dag_commit c gc d)"
proof -
  let ?last = "max (last_committed_round d) (cert_round c)"
  let ?d = "dag_commit c gc d"
  have "graph_ok (graph ?d)"
  proof (rule graph_okI)
    show "wf_bmap (graph ?d)" using inv by (simp add: dag_commit_def Let_def)
    fix r m assume "map_of (graph ?d) r = Some m"
    then obtain m' where m: "map_of (graph d) r = Some m'"
        "m = m' \<or> (m = AList.delete (cert_author c) m' \<and> m \<noteq> [])"
      using inv by (auto simp: dag_commit_def Let_def map_of_drop_author map_of_retain
          split: option.splits if_splits)
    note D = graph_okD(1-3)[OF dag_inv_graph[OF inv] m(1)]
    have "cert_round c' = r \<and> cert_author c' = a" if "map_of m a = Some c'" for a c'
      using that D(3)[of a c'] m(2) by (auto simp: delete_conv' split: if_splits)
    moreover have "wf_map m" using D(1) m(2) by (auto simp: wf_map_def intro: distinct_delete)
    ultimately show "wf_map m \<and> m \<noteq> [] \<and>
        (\<forall>a c. map_of m a = Some c \<longrightarrow> cert_round c = r \<and> cert_author c = a)"
      using D(2) m(2) by blast
  qed
  moreover have "recent_ok ?d"
  proof -
    let ?r = "bmap_entry [] (cert_round c) (iset_insert (cert_id c)) (recent_committed_ids d)"
    have r: "recent_committed_ids ?d = map_retain (\<lambda>round _. u64_add round gc > ?last) ?r"
      by (simp add: dag_commit_def Let_def max_def)
    have k: "r \<in> set (keys (recent_committed_ids ?d)) \<longleftrightarrow>
        (r = cert_round c \<or> r \<in> set (keys (recent_committed_ids d))) \<and> u64_add r gc > ?last" for r
      unfolding r keys_retain bmap_entry_def keys_bmap_update by auto
    have last: "u64_add ?last gc > ?last"
      using kept_round_self[OF gc, of ?last] fit by (simp add: kept_round_def max_def)
    have old: "\<forall>r\<in>set (keys (recent_committed_ids d)). r \<le> last_committed_round d"
        "0 < last_committed_round d \<longrightarrow> last_committed_round d \<in> set (keys (recent_committed_ids d))"
      using inv by (simp_all add: dag_inv_def recent_ok_def)
    show ?thesis
      unfolding recent_ok_def dag_commit_last
    proof (intro conjI ballI impI)
      show "wf_bmap (recent_committed_ids ?d)" unfolding r using inv by simp
    next
      fix x assume "x \<in> set (keys (recent_committed_ids ?d))"
      then show "x \<le> ?last" using old(1) unfolding k by (auto intro: max.coboundedI1)
    next
      assume "0 < ?last"
      then have "?last = cert_round c \<or> ?last \<in> set (keys (recent_committed_ids d))"
        using old(2) by (cases "last_committed_round d \<le> cert_round c") (simp_all add: max_def)
      then show "?last \<in> set (keys (recent_committed_ids ?d))" using last unfolding k by simp
    qed
  qed
  ultimately show ?thesis by (simp add: dag_inv_def)
qed

text \<open>A committed certificate leaves the graph and cannot come back while its ID is remembered.\<close>

definition uncommitted :: "dag \<Rightarrow> bool" where
  "uncommitted d \<longleftrightarrow> (\<forall>r a c. dag_get_certificate_for_round_with_author d r a = Some c \<longrightarrow>
     \<not> is_recently_committed d r (cert_id c))"

lemma dag_new_uncommitted: "uncommitted dag_new"
  by (simp add: uncommitted_def dag_get_certificate_for_round_with_author_def dag_new_def)

lemma dag_insert_uncommitted: "dag_inv d \<Longrightarrow> uncommitted d \<Longrightarrow> uncommitted (dag_insert c d)"
  by (auto simp: uncommitted_def dag_insert_lookup split: if_splits)

lemma dag_lookup_keys:
  assumes "dag_inv d" "dag_get_certificate_for_round_with_author d r a = Some c"
  shows "cert_round c = r \<and> cert_author c = a"
  using assms graph_okD(3)[of "graph d" r] dag_inv_graph[OF assms(1)]
  by (auto simp: dag_get_certificate_for_round_with_author_def split: option.splits)

lemma dag_commit_uncommitted:
  assumes "dag_inv d" "uncommitted d"
    and "\<forall>r a c'. dag_get_certificate_for_round_with_author d r a = Some c' \<longrightarrow>
       cert_id c' = cert_id c \<longrightarrow> cert_author c' = cert_author c"
  shows "uncommitted (dag_commit c gc d)"
  unfolding uncommitted_def
proof (intro allI impI)
  fix r a c' assume l: "dag_get_certificate_for_round_with_author (dag_commit c gc d) r a = Some c'"
  then have o: "dag_get_certificate_for_round_with_author d r a = Some c'"
      "\<not> (r \<le> cert_round c \<and> a = cert_author c)"
    by (auto simp: dag_commit_lookup[OF assms(1)] split: if_splits)
  have "\<not> is_recently_committed d r (cert_id c')" using o(1) assms(2) unfolding uncommitted_def by blast
  moreover have "\<not> (r = cert_round c \<and> cert_id c' = cert_id c)"
    using o assms(3)[rule_format, OF o(1)] dag_lookup_keys[OF assms(1) o(1)] by force
  ultimately show "\<not> is_recently_committed (dag_commit c gc d) r (cert_id c')"
    by (simp add: dag_commit_recent[OF assms(1)])
qed

section \<open>Paths\<close>

text \<open>There is a path from a certificate down to another when the second is stored for the round
  before some certificate on the path and that certificate refers to it.\<close>

inductive dag_path :: "dag \<Rightarrow> batch_certificate \<Rightarrow> batch_certificate \<Rightarrow> bool" for d c where
  here: "dag_path d c c"
| down: "dag_path d c q \<Longrightarrow> cert_round q = Suc r \<Longrightarrow> p \<in> dag_certs d r \<Longrightarrow>
    cert_id p \<in> set (cert_previous_ids q) \<Longrightarrow> dag_path d c p"

inductive_cases dag_pathE: "dag_path d c p"

lemma dag_certs_round: "dag_inv d \<Longrightarrow> p \<in> dag_certs d r \<Longrightarrow> cert_round p = r"
  using graph_okD(4)[OF dag_inv_graph, of d r] by (auto simp: dag_certs_def split: option.splits)

lemma dag_path_round: "dag_path d c p \<Longrightarrow> dag_inv d \<Longrightarrow> cert_round p \<le> cert_round c"
  by (induction rule: dag_path.induct) (auto dest: dag_certs_round)

lemma dag_path_at_top: "dag_path d c p \<Longrightarrow> dag_inv d \<Longrightarrow> cert_round p = cert_round c \<Longrightarrow> p = c"
proof (erule dag_pathE)
  fix q r assume "dag_path d c q" "dag_inv d" "cert_round q = Suc r" "p \<in> dag_certs d r"
    "cert_round p = cert_round c"
  then show "p = c" using dag_path_round[of d c q] dag_certs_round[of d p r] by simp
qed simp

lemma dag_path_prev:
  assumes "dag_inv d" "cert_round p < cert_round c"
  shows "dag_path d c p \<longleftrightarrow> p \<in> dag_certs d (cert_round p) \<and>
    (\<exists>q. dag_path d c q \<and> cert_round q = Suc (cert_round p) \<and> cert_id p \<in> set (cert_previous_ids q))"
proof
  assume "dag_path d c p"
  then show "p \<in> dag_certs d (cert_round p) \<and>
    (\<exists>q. dag_path d c q \<and> cert_round q = Suc (cert_round p) \<and> cert_id p \<in> set (cert_previous_ids q))"
  proof cases
    case (down q r)
    then show ?thesis using dag_certs_round[OF assms(1) down(3)] by blast
  qed (use assms(2) in simp)
qed (auto intro: dag_path.down)

lemma link_step_Ok:
  "link_step d r t = Ok t' \<longleftrightarrow>
     r \<in> dom (map_of (graph d)) \<and> t' = filter (\<lambda>p. \<exists>c\<in>set t. cert_id p \<in> set (cert_previous_ids c))
       (vals (the (map_of (graph d) r)))"
  by (auto simp: link_step_def dag_get_certificates_for_round_def split: option.splits)

lemma traversal_set:
  assumes inv: "dag_inv d" and le: "k \<le> cert_round c"
    and keys: "\<forall>r. k \<le> r \<longrightarrow> r < cert_round c \<longrightarrow> r \<in> dom (map_of (graph d))"
  shows "\<exists>t. try_fold (link_step d) (rev [k ..< cert_round c]) [c] = Ok t \<and>
    set t = {p. dag_path d c p \<and> cert_round p = k}"
  using le keys
proof (induction "cert_round c - k" arbitrary: k)
  case 0
  then have "k = cert_round c" by simp
  then show ?case using dag_path_at_top[OF _ inv] by (auto intro: dag_path.here)
next
  case (Suc n)
  then have lt: "k < cert_round c" by simp
  obtain t where t: "try_fold (link_step d) (rev [Suc k ..< cert_round c]) [c] = Ok t"
      "set t = {p. dag_path d c p \<and> cert_round p = Suc k}"
  proof -
    have "n = cert_round c - Suc k" "Suc k \<le> cert_round c" using Suc.hyps(2) lt by simp_all
    moreover have "\<forall>r. Suc k \<le> r \<longrightarrow> r < cert_round c \<longrightarrow> r \<in> dom (map_of (graph d))"
      using Suc.prems(2) by (simp add: Suc_le_eq)
    ultimately show thesis using Suc.hyps(1) that by blast
  qed
  have k: "k \<in> dom (map_of (graph d))" using Suc.prems(2) lt by blast
  let ?t = "filter (\<lambda>p. \<exists>c\<in>set t. cert_id p \<in> set (cert_previous_ids c)) (vals (the (map_of (graph d) k)))"
  have "[k ..< cert_round c] = k # [Suc k ..< cert_round c]" using lt by (rule upt_conv_Cons)
  then have "try_fold (link_step d) (rev [k ..< cert_round c]) [c] = Ok ?t"
    using t(1) k link_step_Ok[of d k t ?t] by (simp add: try_fold_append try_bind_def)
  moreover have "set ?t = {p. dag_path d c p \<and> cert_round p = k}"
  proof -
    have "set (vals (the (map_of (graph d) k))) = dag_certs d k"
      using k by (auto simp: dag_certs_def simp del: set_map)
    then show ?thesis
      using dag_path_prev[OF inv, of _ c] dag_certs_round[OF inv] lt t(2) by auto
  qed
  ultimately show ?case by blast
qed

lemma try_fold_link_Err:
  assumes "r \<in> set rs" "r \<notin> dom (map_of (graph d))"
  shows "\<exists>err. try_fold (link_step d) rs t = Inl err"
  using assms
proof (induction rs arbitrary: t)
  case (Cons x rs)
  show ?case
  proof (cases "link_step d x t")
    case (Inr t')
    then have "x \<noteq> r" using Cons.prems(2) by (auto simp: link_step_Ok)
    then show ?thesis using Cons Inr by (auto simp: try_bind_def)
  qed (simp add: try_bind_def)
qed simp

lemma is_linked_spec:
  assumes "dag_inv d"
  shows "case is_linked d p c of
      Inl _ \<Rightarrow> cert_round c \<le> cert_round p \<or>
        (\<exists>r. cert_round p \<le> r \<and> r < cert_round c \<and> map_of (graph d) r = None)
    | Inr b \<Rightarrow> cert_round p < cert_round c \<and> (b \<longleftrightarrow> (\<exists>q. dag_path d c q \<and>
        cert_round q = cert_round p \<and> cert_id q = cert_id p))"
proof (cases "cert_round p < cert_round c")
  case lt: True
  show ?thesis
  proof (cases "\<forall>r. cert_round p \<le> r \<longrightarrow> r < cert_round c \<longrightarrow> r \<in> dom (map_of (graph d))")
    case True
    obtain t where t: "try_fold (link_step d) (rev [cert_round p ..< cert_round c]) [c] = Ok t"
        "set t = {q. dag_path d c q \<and> cert_round q = cert_round p}"
      using traversal_set[OF assms less_imp_le[OF lt] True] by blast
    have "is_linked d p c = Ok (cert_id p \<in> cert_id ` set t)"
      using lt t(1) by (simp add: is_linked_def ensure_def try_bind_def)
    moreover have "cert_id p \<in> cert_id ` set t \<longleftrightarrow> (\<exists>q. dag_path d c q \<and> cert_round q = cert_round p \<and>
        cert_id q = cert_id p)"
      unfolding t(2) by (simp add: image_iff) (rule ex_cong, safe, simp_all)
    ultimately show ?thesis using lt by simp
  next
    case False
    then obtain r where r: "cert_round p \<le> r" "r < cert_round c" "r \<notin> dom (map_of (graph d))"
      by blast
    then obtain err where "try_fold (link_step d) (rev [cert_round p ..< cert_round c]) [c] = Inl err"
      using try_fold_link_Err[of r "rev [cert_round p ..< cert_round c]" d "[c]"] by auto
    then have "is_linked d p c = Inl err" using lt by (simp add: is_linked_def ensure_def try_bind_def)
    then show ?thesis using r by auto
  qed
qed (simp add: is_linked_def ensure_def)

inductive dag_reachable :: "batch_certificate set \<Rightarrow> u64 \<Rightarrow> dag \<Rightarrow> bool" for cs gc where
  new: "dag_reachable cs gc dag_new"
| ins: "dag_reachable cs gc d \<Longrightarrow> c \<in> cs \<Longrightarrow> dag_reachable cs gc (dag_insert c d)"
| com: "dag_reachable cs gc d \<Longrightarrow> c \<in> cs \<Longrightarrow> dag_reachable cs gc (dag_commit c gc d)"

lemma dag_reachable_inv:
  assumes "dag_reachable cs gc d" "0 < gc" "\<forall>c\<in>cs. cert_round c + gc \<le> u64_max"
    and "\<forall>c\<in>cs. \<forall>c'\<in>cs. cert_id c = cert_id c' \<longrightarrow> cert_author c = cert_author c'"
  shows "dag_inv d \<and> uncommitted d \<and> (last_committed_round d = 0 \<or> last_committed_round d + gc \<le> u64_max) \<and>
    (\<forall>r a c. dag_get_certificate_for_round_with_author d r a = Some c \<longrightarrow> c \<in> cs)"
  using assms(1)
proof induction
  case new
  then show ?case
    by (simp add: dag_new_inv dag_new_uncommitted dag_get_certificate_for_round_with_author_def)
      (simp add: dag_new_def)
next
  case (ins d c)
  then show ?case by (simp add: dag_insert_inv dag_insert_uncommitted dag_insert_lookup)
next
  case (com d c)
  have fit: "cert_round c + gc \<le> u64_max" using com.hyps(2) assms(3) by blast
  then have fit': "last_committed_round d + gc \<le> u64_max" using com.IH by auto
  have author: "\<forall>r a c'. dag_get_certificate_for_round_with_author d r a = Some c' \<longrightarrow>
       cert_id c' = cert_id c \<longrightarrow> cert_author c' = cert_author c"
    using com.IH com.hyps(2) assms(4) by blast
  show ?case
    using com.IH dag_commit_inv[OF _ assms(2) fit fit'] dag_commit_uncommitted[OF _ _ author] fit fit'
    by (auto simp: dag_commit_lookup max_def split: if_splits)
qed

definition sample_dag :: dag where
  "sample_dag = dag_insert (plain_certificate 2 7 2 [1]) (dag_insert (plain_certificate 1 8 1 []) dag_new)"

lemma sample_dag_inv: "dag_inv sample_dag"
  by (simp add: sample_dag_def dag_insert_inv dag_new_inv)

section \<open>Properties\<close>

text \<open>C15. \<open>is_linked\<close> decides reachability: on a well-formed DAG it fails only when the rounds are out
  of order or a round in between has no certificates, and otherwise answers whether a path leads from
  the current certificate down, through certificates that refer to one another, to a certificate with
  the ID of the previous one.\<close>

theorem is_linked_decides:
  assumes "dag_inv d"
  shows "case is_linked d p c of
      Inl _ \<Rightarrow> cert_round c \<le> cert_round p \<or>
        (\<exists>r. cert_round p \<le> r \<and> r < cert_round c \<and> map_of (graph d) r = None)
    | Inr b \<Rightarrow> cert_round p < cert_round c \<and> (b \<longleftrightarrow> (\<exists>q. dag_path d c q \<and>
        cert_round q = cert_round p \<and> cert_id q = cert_id p))"
  by (rule is_linked_spec[OF assms])

theorem is_linked_decides_witness:
  "\<exists>q. dag_path sample_dag (plain_certificate 3 7 3 [2]) q \<and> cert_round q = 1 \<and> cert_id q = 1"
proof -
  have "is_linked sample_dag (plain_certificate 1 8 1 []) (plain_certificate 3 7 3 [2]) = Ok True"
    by (simp add: is_linked_def sample_dag_def dag_insert_def dag_new_def is_recently_committed_def
        bmap_entry_def link_step_def dag_get_certificates_for_round_def ensure_def try_bind_def upt_conv_Cons)
  with is_linked_decides[OF sample_dag_inv, of "plain_certificate 3 7 3 [2]" "plain_certificate 1 8 1 []"]
  show ?thesis by simp
qed

text \<open>What a commit does to the DAG (for positive GC depth and rounds far from the end of
  \<open>u64\<close>): the last committed round becomes the maximum and stays the newest round with committed IDs,
  as documented; the author's certificates up to the committed round and everything out of GC range
  leave the graph, every other lookup is unchanged; the certificate's ID is remembered, so inserting
  the certificate again has no effect.\<close>

theorem dag_commit_effect:
  assumes "dag_inv d" "0 < gc" "cert_round c + gc \<le> u64_max" "last_committed_round d + gc \<le> u64_max"
    and "last_committed_round d < cert_round c + gc"
  shows "let l = max (last_committed_round d) (cert_round c); d' = dag_commit c gc d in
    last_committed_round d' = l \<and> dag_inv d' \<and> dag_insert c d' = d' \<and>
    (\<forall>r a. r + gc \<le> u64_max \<longrightarrow> dag_get_certificate_for_round_with_author d' r a =
       (if r \<le> cert_round c \<and> a = cert_author c \<or> r + gc \<le> l then None
        else dag_get_certificate_for_round_with_author d r a))"
proof -
  let ?l = "max (last_committed_round d) (cert_round c)"
  have "is_recently_committed (dag_commit c gc d) (cert_round c) (cert_id c)"
    using assms by (simp add: dag_commit_recent kept_round_def u64_add_exact)
  then show ?thesis
    using dag_commit_inv[OF assms(1-4)]
    by (auto simp: Let_def dag_insert_def dag_commit_lookup[OF assms(1)] kept_round_def u64_add_exact)
qed

theorem dag_commit_effect_witness:
  "dag_get_certificate_for_round_with_author (dag_commit (plain_certificate 2 7 2 [1]) 50 sample_dag) 1 8
     = Some (plain_certificate 1 8 1 []) \<and>
   dag_get_certificate_for_round_with_author (dag_commit (plain_certificate 2 7 2 [1]) 50 sample_dag) 2 7 = None"
proof -
  have l: "last_committed_round sample_dag = 0"
      "dag_get_certificate_for_round_with_author sample_dag 1 8 = Some (plain_certificate 1 8 1 [])"
    by (simp_all add: sample_dag_def dag_insert_lookup dag_insert_inv dag_new_inv)
      (simp_all add: dag_new_def is_recently_committed_def)
  show ?thesis
    using dag_commit_effect[OF sample_dag_inv, of 50 "plain_certificate 2 7 2 [1]"] l
    by (simp add: Let_def u64_max_def)
qed

text \<open>The DAG never holds a certificate it has committed: starting from the empty DAG and
  applying insertions and commits of certificates whose IDs are free of collisions, no certificate in
  the graph has an ID that is recorded as committed for its round.\<close>

theorem dag_forgets_committed:
  assumes "dag_reachable cs gc d" "0 < gc" "\<forall>c\<in>cs. cert_round c + gc \<le> u64_max"
    and "\<forall>c\<in>cs. \<forall>c'\<in>cs. cert_id c = cert_id c' \<longrightarrow> cert_author c = cert_author c'"
  shows "dag_inv d \<and> uncommitted d"
  using dag_reachable_inv[OF assms] by blast

theorem dag_forgets_committed_witness:
  "uncommitted (dag_insert (plain_certificate 3 7 2 []) (dag_commit (plain_certificate 3 7 2 []) 50
     (dag_insert (plain_certificate 4 8 2 []) dag_new)))"
proof -
  let ?c = "plain_certificate 3 7 2 []" and ?c' = "plain_certificate 4 8 2 []"
  have "dag_reachable {?c, ?c'} 50 (dag_insert ?c (dag_commit ?c 50 (dag_insert ?c' dag_new)))"
    by (intro dag_reachable.intros) simp_all
  from dag_forgets_committed[OF this] show ?thesis by (auto simp: u64_max_def)
qed

end
