(* ===== verification/Storage_Service.thy ===== *)
theory Storage_Service
  imports Narwhal
begin

text \<open>
  The transmission stores of \<open>node/bft/storage-service\<close>: the trait \<open>StorageService\<close> as a record
  of operations on a state, the in-memory implementation and the persistent one.  A transmission
  is kept as long as a certificate refers to it, so each entry carries the set of the referring
  certificate IDs.  The type \<open>'t\<close> is the type of transmissions.

  The locale \<open>storage_service\<close> states the contract in terms of these references; the lemma about
  inserting and removing a certificate is proved there once, and both implementations are shown
  to satisfy the contract.

  The maps of the persistent store are modelled without database failures (the code logs such an
  error and continues).  Its LRU caches are third-party code and a parameter, \<open>lru_ops\<close>.
\<close>

section \<open>The interface\<close>

type_synonym 't tmap = "(transmission_id, 't) imap"

record ('s, 't) service_ops =
  contains_transmission :: "'s \<Rightarrow> transmission_id \<Rightarrow> bool"
  get_transmission :: "'s \<Rightarrow> transmission_id \<Rightarrow> 't option"
  find_missing_transmissions ::
    "'s \<Rightarrow> batch_header \<Rightarrow> 't tmap \<Rightarrow> transmission_id list \<Rightarrow> 't tmap result"
  insert_transmissions ::
    "'s \<Rightarrow> field \<Rightarrow> transmission_id list \<Rightarrow> transmission_id list \<Rightarrow> 't tmap \<Rightarrow> 's result"
  remove_transmissions :: "'s \<Rightarrow> field \<Rightarrow> transmission_id list \<Rightarrow> 's"

text \<open>The loop of \<open>find_missing_transmissions\<close>; \<open>known\<close> is the test that differs between the
  implementations.\<close>

definition find_missing_step ::
    "(transmission_id \<Rightarrow> bool) \<Rightarrow> transmission_id list \<Rightarrow> transmission_id \<Rightarrow> 't tmap \<times> 't tmap
      \<Rightarrow> ('t tmap \<times> 't tmap) result" where
  "find_missing_step known aborted tid = (\<lambda>(missing, transmissions).
     if known tid then Ok (missing, transmissions)
     else case map_of transmissions tid of
            Some t \<Rightarrow> Ok (AList.update tid t missing, AList.delete tid transmissions)
          | None \<Rightarrow> if tid \<in> set aborted then Ok (missing, transmissions)
                    else bail ''Failed to provide a transmission'')"

definition find_missing ::
    "(transmission_id \<Rightarrow> bool) \<Rightarrow> transmission_id list \<Rightarrow> 't tmap \<Rightarrow> transmission_id list
      \<Rightarrow> 't tmap result" where
  "find_missing known tids transmissions aborted =
     try_bind (try_fold (find_missing_step known aborted) tids ([], transmissions))
       (\<lambda>(missing, _). Ok missing)"

text \<open>Dropping a certificate ID from an entry, and the entry with its last one.\<close>

definition drop_reference :: "field \<Rightarrow> transmission_id \<Rightarrow> ('v \<Rightarrow> field list) \<Rightarrow> (field list \<Rightarrow> 'v \<Rightarrow> 'v)
      \<Rightarrow> (transmission_id, 'v) imap \<Rightarrow> (transmission_id, 'v) imap" where
  "drop_reference cid tid get put m =
     (case map_of m tid of
        None \<Rightarrow> m
      | Some v \<Rightarrow>
          let ids = swap_remove cid (get v)
          in if ids = [] then AList.delete tid m else AList.update tid (put ids v) m)"

section \<open>The in-memory store\<close>

record 't memory_service =
  mem_transmissions :: "(transmission_id, 't \<times> field list) imap"
  mem_aborted :: "(transmission_id, field list) imap"

definition memory_new :: "'t memory_service" where
  "memory_new = \<lparr>mem_transmissions = [], mem_aborted = []\<rparr>"

definition memory_contains :: "'t memory_service \<Rightarrow> transmission_id \<Rightarrow> bool" where
  "memory_contains s tid \<longleftrightarrow>
     contains_key (mem_transmissions s) tid \<or> contains_key (mem_aborted s) tid"

definition memory_get :: "'t memory_service \<Rightarrow> transmission_id \<Rightarrow> 't option" where
  "memory_get s tid = map_option fst (map_of (mem_transmissions s) tid)"

definition memory_find_missing ::
    "'t memory_service \<Rightarrow> batch_header \<Rightarrow> 't tmap \<Rightarrow> transmission_id list \<Rightarrow> 't tmap result" where
  "memory_find_missing s h transmissions aborted =
     find_missing (contains_key (mem_transmissions s)) (transmission_ids h) transmissions aborted"

text \<open>In the vacant case without a transmission and outside the aborted IDs, the code calls
  \<open>self.contains_transmission\<close>, which locks \<open>transmissions\<close> for reading while this call still
  holds its write lock.\<close>

definition memory_insert_step ::
    "field \<Rightarrow> transmission_id list \<Rightarrow> transmission_id
      \<Rightarrow> (transmission_id, 't \<times> field list) imap \<times> 't tmap
      \<Rightarrow> ((transmission_id, 't \<times> field list) imap \<times> 't tmap) result" where
  "memory_insert_step cid aborted tid = (\<lambda>(m, missing).
     case map_of m tid of
       Some (t, ids) \<Rightarrow> Ok (AList.update tid (t, iset_insert cid ids) m, missing)
     | None \<Rightarrow>
         (case map_of missing tid of
            Some t \<Rightarrow> Ok (AList.update tid (t, [cid]) m, AList.delete tid missing)
          | None \<Rightarrow> if tid \<in> set aborted then Ok (m, missing) else Err Deadlock))"

definition insert_aborted ::
    "field \<Rightarrow> transmission_id \<Rightarrow> (transmission_id, field list) imap
      \<Rightarrow> (transmission_id, field list) imap" where
  "insert_aborted cid tid m =
     (case map_of m tid of
        Some ids \<Rightarrow> AList.update tid (iset_insert cid ids) m
      | None \<Rightarrow> AList.update tid [cid] m)"

definition memory_insert ::
    "'t memory_service \<Rightarrow> field \<Rightarrow> transmission_id list \<Rightarrow> transmission_id list \<Rightarrow> 't tmap
      \<Rightarrow> 't memory_service result" where
  "memory_insert s cid tids aborted missing =
     try_bind (try_fold (memory_insert_step cid aborted) tids (mem_transmissions s, missing))
       (\<lambda>(m, _). Ok (s\<lparr>mem_transmissions := m,
                       mem_aborted := fold (insert_aborted cid) aborted (mem_aborted s)\<rparr>))"

definition memory_remove ::
    "'t memory_service \<Rightarrow> field \<Rightarrow> transmission_id list \<Rightarrow> 't memory_service" where
  "memory_remove s cid tids =
     fold (\<lambda>tid s. s\<lparr>
         mem_transmissions := drop_reference cid tid snd (\<lambda>ids (t, _). (t, ids)) (mem_transmissions s),
         mem_aborted := drop_reference cid tid (\<lambda>ids. ids) (\<lambda>ids _. ids) (mem_aborted s)\<rparr>) tids s"

definition memory_ops :: "('t memory_service, 't) service_ops" where
  "memory_ops = \<lparr>
     contains_transmission = memory_contains,
     get_transmission = memory_get,
     find_missing_transmissions = memory_find_missing,
     insert_transmissions = memory_insert,
     remove_transmissions = memory_remove\<rparr>"

section \<open>The persistent store\<close>

record ('c, 'k, 'v) lru_ops =
  lru_put :: "'k \<Rightarrow> 'v \<Rightarrow> 'c \<Rightarrow> 'c"
  lru_get :: "'c \<Rightarrow> 'k \<Rightarrow> 'v option"
  lru_pop :: "'k \<Rightarrow> 'c \<Rightarrow> 'c"

record ('c, 'd, 't) persistent_storage =
  db_transmissions :: "(transmission_id, 't \<times> field list) imap"
  db_aborted :: "(transmission_id, field list) imap"
  cache_transmissions :: 'c
  cache_aborted :: 'd

definition persistent_contains :: "('c, 'd, 't) persistent_storage \<Rightarrow> transmission_id \<Rightarrow> bool" where
  "persistent_contains s tid \<longleftrightarrow>
     contains_key (db_transmissions s) tid \<or> contains_key (db_aborted s) tid"

text \<open>The lookup also refreshes the entry in the cache; the parameter \<open>lru_get\<close> gives its value.\<close>

definition persistent_get ::
    "('c, transmission_id, 't \<times> field list) lru_ops \<Rightarrow> ('c, 'd, 't) persistent_storage \<Rightarrow> transmission_id
      \<Rightarrow> 't option" where
  "persistent_get lru s tid =
     (case lru_get lru (cache_transmissions s) tid of
        Some (t, _) \<Rightarrow> Some t
      | None \<Rightarrow> map_option fst (map_of (db_transmissions s) tid))"

definition persistent_find_missing ::
    "('c, 'd, 't) persistent_storage \<Rightarrow> batch_header \<Rightarrow> 't tmap \<Rightarrow> transmission_id list
      \<Rightarrow> 't tmap result" where
  "persistent_find_missing s h transmissions aborted =
     find_missing (persistent_contains s) (transmission_ids h) transmissions aborted"

definition persistent_insert_step ::
    "('c, transmission_id, 't \<times> field list) lru_ops \<Rightarrow> field \<Rightarrow> transmission_id
      \<Rightarrow> ('c, 'd, 't) persistent_storage \<times> 't tmap \<Rightarrow> ('c, 'd, 't) persistent_storage \<times> 't tmap" where
  "persistent_insert_step lru cid tid = (\<lambda>(s, missing).
     let put = (\<lambda>e. s\<lparr>db_transmissions := AList.update tid e (db_transmissions s),
                     cache_transmissions := lru_put lru tid e (cache_transmissions s)\<rparr>)
     in case map_of (db_transmissions s) tid of
          Some (t, ids) \<Rightarrow> (put (t, iset_insert cid ids), missing)
        | None \<Rightarrow>
            (case map_of missing tid of
               Some t \<Rightarrow> (put (t, [cid]), AList.delete tid missing)
             | None \<Rightarrow> (s, missing)))"

definition persistent_insert_aborted ::
    "('d, transmission_id, field list) lru_ops \<Rightarrow> field \<Rightarrow> transmission_id
      \<Rightarrow> ('c, 'd, 't) persistent_storage \<Rightarrow> ('c, 'd, 't) persistent_storage" where
  "persistent_insert_aborted lru cid tid s =
     (let ids = (case map_of (db_aborted s) tid of
                   Some ids \<Rightarrow> iset_insert cid ids
                 | None \<Rightarrow> [cid])
      in s\<lparr>db_aborted := AList.update tid ids (db_aborted s),
           cache_aborted := lru_put lru tid ids (cache_aborted s)\<rparr>)"

definition persistent_insert ::
    "('c, transmission_id, 't \<times> field list) lru_ops \<Rightarrow> ('d, transmission_id, field list) lru_ops \<Rightarrow> ('c, 'd, 't) persistent_storage
      \<Rightarrow> field \<Rightarrow> transmission_id list \<Rightarrow> transmission_id list \<Rightarrow> 't tmap
      \<Rightarrow> ('c, 'd, 't) persistent_storage result" where
  "persistent_insert lru lru' s cid tids aborted missing =
     Ok (fold (persistent_insert_aborted lru' cid) aborted
           (fst (fold (persistent_insert_step lru cid) tids (s, missing))))"

definition persistent_remove ::
    "('c, 'd, 't) persistent_storage \<Rightarrow> field \<Rightarrow> transmission_id list
      \<Rightarrow> ('c, 'd, 't) persistent_storage" where
  "persistent_remove s cid tids =
     fold (\<lambda>tid s. s\<lparr>
         db_transmissions := drop_reference cid tid snd (\<lambda>ids (t, _). (t, ids)) (db_transmissions s),
         db_aborted := drop_reference cid tid (\<lambda>ids. ids) (\<lambda>ids _. ids) (db_aborted s)\<rparr>) tids s"

definition persistent_ops ::
    "('c, transmission_id, 't \<times> field list) lru_ops \<Rightarrow> ('d, transmission_id, field list) lru_ops
      \<Rightarrow> (('c, 'd, 't) persistent_storage, 't) service_ops" where
  "persistent_ops lru lru' = \<lparr>
     contains_transmission = persistent_contains,
     get_transmission = persistent_get lru,
     find_missing_transmissions = persistent_find_missing,
     insert_transmissions = persistent_insert lru lru',
     remove_transmissions = persistent_remove\<rparr>"

section \<open>The contract\<close>

text \<open>\<open>refs s t\<close> are the certificates that keep transmission \<open>t\<close>, \<open>arefs s t\<close> those that
  declared it aborted.\<close>

locale storage_service =
  fixes ops :: "('s, 't) service_ops"
    and inv :: "'s \<Rightarrow> bool"
    and refs :: "'s \<Rightarrow> transmission_id \<Rightarrow> field set"
    and arefs :: "'s \<Rightarrow> transmission_id \<Rightarrow> field set"
  assumes contains_iff:
      "inv s \<Longrightarrow> contains_transmission ops s t \<longleftrightarrow> refs s t \<noteq> {} \<or> arefs s t \<noteq> {}"
    and find_missing_sound:
      "inv s \<Longrightarrow> distinct (transmission_ids h) \<Longrightarrow>
       find_missing_transmissions ops s h ts aborted = Ok missing \<Longrightarrow> t \<in> set (transmission_ids h) \<Longrightarrow>
       refs s t \<noteq> {} \<or> arefs s t \<noteq> {} \<or> contains_key missing t \<or> t \<in> set aborted"
    and find_then_insert:
      "inv s \<Longrightarrow> distinct (transmission_ids h) \<Longrightarrow>
       find_missing_transmissions ops s h ts aborted = Ok missing \<Longrightarrow>
       \<exists>s'. insert_transmissions ops s cid (transmission_ids h) aborted missing = Ok s' \<and> inv s' \<and>
         (\<forall>t. refs s' t = (if t \<in> set (transmission_ids h) \<and> (refs s t \<noteq> {} \<or> contains_key missing t)
                          then insert cid (refs s t) else refs s t)) \<and>
         (\<forall>t. arefs s' t = (if t \<in> set aborted then insert cid (arefs s t) else arefs s t))"
    and remove_inv: "inv s \<Longrightarrow> inv (remove_transmissions ops s cid tids)"
    and remove_refs: "inv s \<Longrightarrow> refs (remove_transmissions ops s cid tids) t =
       (if t \<in> set tids then refs s t - {cid} else refs s t)"
    and remove_arefs: "inv s \<Longrightarrow> arefs (remove_transmissions ops s cid tids) t =
       (if t \<in> set tids then arefs s t - {cid} else arefs s t)"
begin

text \<open>After a certificate is recorded, the store contains every transmission it declares.\<close>

lemma insert_contains:
  assumes "inv s" "distinct (transmission_ids h)"
    and "find_missing_transmissions ops s h ts aborted = Ok missing"
    and "insert_transmissions ops s cid (transmission_ids h) aborted missing = Ok s'"
    and "t \<in> set (transmission_ids h)"
  shows "contains_transmission ops s' t"
proof -
  have "inv s'" and r: "refs s' t = (if t \<in> set (transmission_ids h) \<and>
        (refs s t \<noteq> {} \<or> contains_key missing t) then insert cid (refs s t) else refs s t)"
    and a: "arefs s' t = (if t \<in> set aborted then insert cid (arefs s t) else arefs s t)"
    using find_then_insert[OF assms(1-3), of cid] assms(4) by auto
  then show ?thesis
    using find_missing_sound[OF assms(1-3,5)] assms(5) contains_iff[of s' t] by auto
qed

text \<open>Removing a certificate undoes recording it.\<close>

lemma remove_insert_refs:
  assumes "inv s" "distinct (transmission_ids h)"
    and "find_missing_transmissions ops s h ts aborted = Ok missing"
    and "insert_transmissions ops s cid (transmission_ids h) aborted missing = Ok s'"
    and "set aborted \<subseteq> set (transmission_ids h)"
    and "cid \<notin> refs s t" "cid \<notin> arefs s t"
  shows "refs (remove_transmissions ops s' cid (transmission_ids h)) t = refs s t"
    and "arefs (remove_transmissions ops s' cid (transmission_ids h)) t = arefs s t"
proof -
  have "inv s'" and "refs s' t = (if t \<in> set (transmission_ids h) \<and>
        (refs s t \<noteq> {} \<or> contains_key missing t) then insert cid (refs s t) else refs s t)"
    and "arefs s' t = (if t \<in> set aborted then insert cid (arefs s t) else arefs s t)"
    using find_then_insert[OF assms(1-3), of cid] assms(4) by auto
  then show "refs (remove_transmissions ops s' cid (transmission_ids h)) t = refs s t"
    and "arefs (remove_transmissions ops s' cid (transmission_ids h)) t = arefs s t"
    using assms(5-7) remove_refs[of s' cid "transmission_ids h" t]
      remove_arefs[of s' cid "transmission_ids h" t] by auto
qed

end

subsection \<open>Reference sets of a map\<close>

definition refs_of :: "('v \<Rightarrow> field list) \<Rightarrow> (transmission_id, 'v) imap \<Rightarrow> transmission_id \<Rightarrow> field set" where
  "refs_of get m t = (case map_of m t of None \<Rightarrow> {} | Some v \<Rightarrow> set (get v))"

definition entries_ok :: "('v \<Rightarrow> field list) \<Rightarrow> (transmission_id, 'v) imap \<Rightarrow> bool" where
  "entries_ok get m \<longleftrightarrow> wf_map m \<and>
     (\<forall>t v. map_of m t = Some v \<longrightarrow> get v \<noteq> [] \<and> distinct (get v))"

lemma entries_ok_update:
  "entries_ok get m \<Longrightarrow> get v \<noteq> [] \<Longrightarrow> distinct (get v) \<Longrightarrow> entries_ok get (AList.update t v m)"
  by (auto simp: entries_ok_def split: if_splits)

lemma refs_of_update: "refs_of get (AList.update t v m) = (refs_of get m)(t := set (get v))"
  by (auto simp: refs_of_def fun_eq_iff)

lemma entries_ok_delete: "entries_ok get m \<Longrightarrow> entries_ok get (AList.delete t m)"
  by (auto simp: entries_ok_def map_of_alist_delete split: if_splits)

lemma refs_of_delete: "refs_of get (AList.delete t m) = (refs_of get m)(t := {})"
  by (auto simp: refs_of_def map_of_alist_delete fun_eq_iff)

lemma refs_of_empty_iff: "entries_ok get m \<Longrightarrow> refs_of get m t = {} \<longleftrightarrow> map_of m t = None"
  by (auto simp: refs_of_def entries_ok_def split: option.splits)

lemma refs_of_Some: "map_of m t = Some v \<Longrightarrow> refs_of get m t = set (get v)"
  by (simp add: refs_of_def)

lemma drop_reference_ok:
  assumes "entries_ok get m" "\<And>ids v. get (put ids v) = ids"
  shows "entries_ok get (drop_reference cid t get put m)"
    and "refs_of get (drop_reference cid t get put m) = (refs_of get m)(t := refs_of get m t - {cid})"
proof -
  have "entries_ok get (drop_reference cid t get put m) \<and>
    refs_of get (drop_reference cid t get put m) = (refs_of get m)(t := refs_of get m t - {cid})"
  proof (cases "map_of m t")
    case None
    then show ?thesis using assms(1) by (auto simp: drop_reference_def refs_of_def fun_eq_iff)
  next
    case (Some v)
    have d: "distinct (get v)" using assms(1) Some by (auto simp: entries_ok_def)
    have ids: "set (swap_remove cid (get v)) = set (get v) - {cid}"
        "distinct (swap_remove cid (get v))"
      using d by simp_all
    have "refs_of get (AList.delete t m) = (refs_of get m)(t := set (get v) - {cid})"
      if "swap_remove cid (get v) = []"
      unfolding ids(1)[symmetric] that by (simp add: refs_of_delete)
    then show ?thesis
      using assms Some ids
      by (auto simp: drop_reference_def Let_def refs_of_update refs_of_Some
          entries_ok_update entries_ok_delete)
  qed
  then show "entries_ok get (drop_reference cid t get put m)"
    and "refs_of get (drop_reference cid t get put m) = (refs_of get m)(t := refs_of get m t - {cid})"
    by blast+
qed

lemma insert_aborted_ok:
  assumes "entries_ok (\<lambda>ids. ids) m"
  shows "entries_ok (\<lambda>ids. ids) (insert_aborted cid t m)"
    and "refs_of (\<lambda>ids. ids) (insert_aborted cid t m) =
      (refs_of (\<lambda>ids. ids) m)(t := insert cid (refs_of (\<lambda>ids. ids) m t))"
  using assms
  by (auto simp: insert_aborted_def refs_of_update entries_ok_update refs_of_def entries_ok_def
      split: option.splits)

lemma fold_insert_aborted_ok:
  "entries_ok (\<lambda>ids. ids) m \<Longrightarrow>
     entries_ok (\<lambda>ids. ids) (fold (insert_aborted cid) ts m) \<and>
     refs_of (\<lambda>ids. ids) (fold (insert_aborted cid) ts m) t =
       (if t \<in> set ts then insert cid (refs_of (\<lambda>ids. ids) m t) else refs_of (\<lambda>ids. ids) m t)"
  by (induction ts arbitrary: m) (auto simp: insert_aborted_ok)

subsection \<open>What is missing\<close>

lemma find_missing_loop:
  "distinct tids \<Longrightarrow>
   (if \<forall>t\<in>set tids. known t \<or> contains_key ts t \<or> t \<in> set aborted
    then \<exists>missing' ts'. try_fold (find_missing_step known aborted) tids (missing, ts) = Ok (missing', ts') \<and>
      map_of missing' = (\<lambda>t. if t \<in> set tids \<and> \<not> known t \<and> contains_key ts t then map_of ts t
                          else map_of missing t)
    else try_fold (find_missing_step known aborted) tids (missing, ts)
      = bail ''Failed to provide a transmission'')"
proof (induction tids arbitrary: missing ts)
  case (Cons x tids)
  have d: "distinct tids" "x \<notin> set tids" using Cons.prems by auto
  show ?case
  proof (cases "known x \<or> contains_key ts x \<or> x \<in> set aborted")
    case False
    then show ?thesis by (auto simp: find_missing_step_def)
  next
    case True
    define missing1 ts1 where "missing1 = (if known x then missing else
        case map_of ts x of Some t \<Rightarrow> AList.update x t missing | None \<Rightarrow> missing)"
      and "ts1 = (if known x \<or> map_of ts x = None then ts else AList.delete x ts)"
    have step: "find_missing_step known aborted x (missing, ts) = Ok (missing1, ts1)"
      using True by (auto simp: find_missing_step_def missing1_def ts1_def split: option.splits)
    have ts1: "map_of ts1 t = map_of ts t" if "t \<in> set tids" for t
      using that d(2) by (auto simp: ts1_def map_of_alist_delete)
    have m1: "map_of missing1 = (if \<not> known x \<and> contains_key ts x
        then (map_of missing)(x := map_of ts x) else map_of missing)"
      by (auto simp: missing1_def fun_eq_iff split: option.splits)
    show ?thesis
      using Cons.IH[OF d(1), of ts1 missing1] True ts1 m1 d(2) step by (auto simp: fun_eq_iff)
  qed
qed (auto simp: fun_eq_iff)

lemma find_missing_map:
  assumes "\<forall>t\<in>set tids. known t \<or> contains_key ts t \<or> t \<in> set aborted"
  shows "(\<lambda>t. if t \<in> set tids \<and> \<not> known t \<and> contains_key ts t then map_of ts t else map_of [] t)
    = (\<lambda>t. if t \<in> set tids \<and> \<not> known t then map_of ts t else None)"
  by (auto simp: fun_eq_iff)

lemma find_missing_char:
  assumes "distinct tids" "find_missing known tids ts aborted = Ok missing"
  shows "\<forall>t\<in>set tids. known t \<or> contains_key ts t \<or> t \<in> set aborted"
    and "map_of missing = (\<lambda>t. if t \<in> set tids \<and> \<not> known t then map_of ts t else None)"
proof -
  note loop = find_missing_loop[OF assms(1), of known ts aborted "[]"]
  show all: "\<forall>t\<in>set tids. known t \<or> contains_key ts t \<or> t \<in> set aborted"
    using loop assms(2) by (auto simp: find_missing_def split: if_splits)
  show "map_of missing = (\<lambda>t. if t \<in> set tids \<and> \<not> known t then map_of ts t else None)"
    using loop assms(2) unfolding find_missing_map[OF all] if_P[OF all]
    by (auto simp: find_missing_def)
qed

lemma find_missing_total:
  assumes "distinct tids" "\<forall>t\<in>set tids. known t \<or> contains_key ts t \<or> t \<in> set aborted"
  shows "\<exists>missing. find_missing known tids ts aborted = Ok missing"
  using find_missing_loop[OF assms(1), of known ts aborted "[]"] assms(2)
  by (auto simp: find_missing_def)

subsection \<open>The in-memory store meets the contract\<close>

definition memory_inv :: "'t memory_service \<Rightarrow> bool" where
  "memory_inv s \<longleftrightarrow> entries_ok snd (mem_transmissions s) \<and> entries_ok (\<lambda>ids. ids) (mem_aborted s)"

definition memory_refs :: "'t memory_service \<Rightarrow> transmission_id \<Rightarrow> field set" where
  "memory_refs s = refs_of snd (mem_transmissions s)"

definition memory_arefs :: "'t memory_service \<Rightarrow> transmission_id \<Rightarrow> field set" where
  "memory_arefs s = refs_of (\<lambda>ids. ids) (mem_aborted s)"

lemma memory_insert_loop:
  "distinct tids \<Longrightarrow> entries_ok snd m \<Longrightarrow>
   \<forall>t\<in>set tids. contains_key m t \<or> contains_key missing t \<or> t \<in> set aborted \<Longrightarrow>
   \<exists>m' missing'. try_fold (memory_insert_step cid aborted) tids (m, missing) = Ok (m', missing') \<and>
     entries_ok snd m' \<and>
     (\<forall>t. refs_of snd m' t = (if t \<in> set tids \<and> (contains_key m t \<or> contains_key missing t)
        then insert cid (refs_of snd m t) else refs_of snd m t))"
proof (induction tids arbitrary: m missing)
  case (Cons x tids)
  have d: "distinct tids" "x \<notin> set tids" using Cons.prems(1) by auto
  obtain m1 missing1 where step: "memory_insert_step cid aborted x (m, missing) = Ok (m1, missing1)"
    and ok: "entries_ok snd m1"
    and refs: "refs_of snd m1 = (if contains_key m x \<or> contains_key missing x
        then (refs_of snd m)(x := insert cid (refs_of snd m x)) else refs_of snd m)"
    and rest: "\<And>t. t \<noteq> x \<Longrightarrow> map_of m1 t = map_of m t \<and> map_of missing1 t = map_of missing t"
  proof (cases "map_of m x")
    case (Some e)
    obtain tr ids where e: "e = (tr, ids)" by (cases e)
    have "distinct ids" using Cons.prems(2) Some e by (auto simp: entries_ok_def)
    then have "entries_ok snd (AList.update x (tr, iset_insert cid ids) m)"
      using Cons.prems(2) by (intro entries_ok_update) auto
    then show ?thesis
      using Some e by (intro that[of "AList.update x (tr, iset_insert cid ids) m" missing])
        (auto simp: memory_insert_step_def refs_of_update refs_of_Some)
  next
    case None
    then have "refs_of snd m x = {}" by (simp add: refs_of_def)
    moreover have "entries_ok snd (AList.update x (tr, [cid]) m)" for tr
      using Cons.prems(2) by (intro entries_ok_update) auto
    ultimately show ?thesis
      using None Cons.prems(2,3)
      by (cases "map_of missing x")
        (auto intro!: that simp: memory_insert_step_def refs_of_update map_of_alist_delete)
  qed
  have "\<forall>t\<in>set tids. contains_key m1 t \<or> contains_key missing1 t \<or> t \<in> set aborted"
    using Cons.prems(3) rest d(2) by (metis list.set_intros(2))
  from Cons.IH[OF d(1) ok this] obtain m' missing' where
    *: "try_fold (memory_insert_step cid aborted) tids (m1, missing1) = Ok (m', missing')"
      "entries_ok snd m'"
      "\<And>t. refs_of snd m' t = (if t \<in> set tids \<and> (contains_key m1 t \<or> contains_key missing1 t)
        then insert cid (refs_of snd m1 t) else refs_of snd m1 t)" by blast
  have "refs_of snd m' t = (if t \<in> set (x # tids) \<and> (contains_key m t \<or> contains_key missing t)
      then insert cid (refs_of snd m t) else refs_of snd m t)" for t
    using *(3)[of t] rest[of t] refs d(2) by (cases "t = x") auto
  then show ?case using step *(1,2) by simp
qed simp

lemma memory_refs_empty:
  assumes "memory_inv s"
  shows "memory_refs s t = {} \<longleftrightarrow> map_of (mem_transmissions s) t = None"
    and "memory_arefs s t = {} \<longleftrightarrow> map_of (mem_aborted s) t = None"
  using assms by (auto simp: memory_inv_def memory_refs_def memory_arefs_def refs_of_empty_iff)

lemma memory_insert_ok:
  assumes "memory_inv s" "distinct tids"
    and "\<forall>t\<in>set tids. memory_refs s t \<noteq> {} \<or> contains_key missing t \<or> t \<in> set aborted"
  shows "\<exists>s'. memory_insert s cid tids aborted missing = Ok s' \<and> memory_inv s' \<and>
    (\<forall>t. memory_refs s' t = (if t \<in> set tids \<and> (memory_refs s t \<noteq> {} \<or> contains_key missing t)
       then insert cid (memory_refs s t) else memory_refs s t)) \<and>
    (\<forall>t. memory_arefs s' t = (if t \<in> set aborted then insert cid (memory_arefs s t)
       else memory_arefs s t))"
proof -
  note e = memory_refs_empty[OF assms(1)]
  have "\<forall>t\<in>set tids. contains_key (mem_transmissions s) t \<or> contains_key missing t \<or> t \<in> set aborted"
    using assms(3) e by blast
  then obtain m' missing' where
    *: "try_fold (memory_insert_step cid aborted) tids (mem_transmissions s, missing) = Ok (m', missing')"
      "entries_ok snd m'"
      "\<And>t. refs_of snd m' t = (if t \<in> set tids \<and> (contains_key (mem_transmissions s) t \<or> contains_key missing t)
        then insert cid (refs_of snd (mem_transmissions s) t) else refs_of snd (mem_transmissions s) t)"
    using memory_insert_loop[OF assms(2), of "mem_transmissions s" missing aborted cid] assms(1)
    unfolding memory_inv_def by blast
  have "entries_ok (\<lambda>ids. ids) (mem_aborted s)" using assms(1) by (simp add: memory_inv_def)
  from fold_insert_aborted_ok[OF this, of cid aborted] show ?thesis
    using * e by (auto simp: memory_insert_def memory_inv_def memory_refs_def memory_arefs_def)
qed

lemma memory_remove_ok:
  "memory_inv s \<Longrightarrow> memory_inv (memory_remove s cid tids) \<and>
     memory_refs (memory_remove s cid tids) t =
       (if t \<in> set tids then memory_refs s t - {cid} else memory_refs s t) \<and>
     memory_arefs (memory_remove s cid tids) t =
       (if t \<in> set tids then memory_arefs s t - {cid} else memory_arefs s t)"
proof (induction tids arbitrary: s)
  case (Cons x tids)
  define s1 where "s1 = memory_remove s cid [x]"
  have "memory_inv s1 \<and> memory_refs s1 = (memory_refs s)(x := memory_refs s x - {cid}) \<and>
      memory_arefs s1 = (memory_arefs s)(x := memory_arefs s x - {cid})"
    using Cons.prems
      drop_reference_ok[of snd "mem_transmissions s" "\<lambda>ids (tr, _). (tr, ids)" cid x]
      drop_reference_ok[of "\<lambda>ids. ids" "mem_aborted s" "\<lambda>ids _. ids" cid x]
    by (auto simp: s1_def memory_remove_def memory_inv_def memory_refs_def memory_arefs_def)
  moreover have "memory_remove s cid (x # tids) = memory_remove s1 cid tids"
    by (simp add: s1_def memory_remove_def)
  ultimately show ?case using Cons.IH[of s1] by auto
qed (simp add: memory_remove_def)

lemma memory_find_missing_sound:
  assumes "memory_inv s" "distinct (transmission_ids h)"
    "memory_find_missing s h ts aborted = Ok missing" "t \<in> set (transmission_ids h)"
  shows "memory_refs s t \<noteq> {} \<or> contains_key missing t \<or> t \<in> set aborted"
  using find_missing_char[OF assms(2) assms(3)[unfolded memory_find_missing_def]] assms(4)
    memory_refs_empty(1)[OF assms(1)] by auto

interpretation memory: storage_service memory_ops memory_inv memory_refs memory_arefs
proof (unfold_locales, goal_cases)
  case (1 s t)
  then show ?case using memory_refs_empty[OF 1] by (simp add: memory_ops_def memory_contains_def)
next
  case (2 s h ts aborted missing t)
  then show ?case using memory_find_missing_sound[of s h ts aborted missing t]
    by (auto simp: memory_ops_def)
next
  case (3 s h ts aborted missing cid)
  then have "\<forall>t\<in>set (transmission_ids h). memory_refs s t \<noteq> {} \<or> contains_key missing t \<or>
      t \<in> set aborted"
    using memory_find_missing_sound[OF 3(1,2), of ts aborted missing] 3(3)
    by (auto simp: memory_ops_def)
  from memory_insert_ok[OF 3(1,2) this] show ?case by (simp add: memory_ops_def)
next
  case (4 s cid tids)
  then show ?case using memory_remove_ok[OF 4, of cid tids] by (simp add: memory_ops_def)
next
  case (5 s cid tids t)
  then show ?case using memory_remove_ok[OF 5, of cid tids t] by (simp add: memory_ops_def)
next
  case (6 s cid tids t)
  then show ?case using memory_remove_ok[OF 6, of cid tids t] by (simp add: memory_ops_def)
qed

subsection \<open>The persistent store meets the contract\<close>

definition persistent_inv :: "('c, 'd, 't) persistent_storage \<Rightarrow> bool" where
  "persistent_inv s \<longleftrightarrow> entries_ok snd (db_transmissions s) \<and> entries_ok (\<lambda>ids. ids) (db_aborted s)"

definition persistent_refs :: "('c, 'd, 't) persistent_storage \<Rightarrow> transmission_id \<Rightarrow> field set" where
  "persistent_refs s = refs_of snd (db_transmissions s)"

definition persistent_arefs :: "('c, 'd, 't) persistent_storage \<Rightarrow> transmission_id \<Rightarrow> field set" where
  "persistent_arefs s = refs_of (\<lambda>ids. ids) (db_aborted s)"

lemma persistent_refs_empty:
  assumes "persistent_inv s"
  shows "persistent_refs s t = {} \<longleftrightarrow> map_of (db_transmissions s) t = None"
    and "persistent_arefs s t = {} \<longleftrightarrow> map_of (db_aborted s) t = None"
  using assms
  by (auto simp: persistent_inv_def persistent_refs_def persistent_arefs_def refs_of_empty_iff)

text \<open>Apart from the caches, the two stores insert alike once nothing is missing.\<close>

lemma persistent_insert_loop:
  "distinct tids \<Longrightarrow> entries_ok snd (db_transmissions s) \<Longrightarrow>
   fold (persistent_insert_step lru cid) tids (s, missing) = (s', missing') \<Longrightarrow>
     entries_ok snd (db_transmissions s') \<and> db_aborted s' = db_aborted s \<and>
     (\<forall>t. refs_of snd (db_transmissions s') t =
       (if t \<in> set tids \<and> (contains_key (db_transmissions s) t \<or> contains_key missing t)
        then insert cid (refs_of snd (db_transmissions s) t) else refs_of snd (db_transmissions s) t))"
proof (induction tids arbitrary: s missing)
  case (Cons x tids)
  have d: "distinct tids" "x \<notin> set tids" using Cons.prems(1) by auto
  obtain s1 missing1 where step: "persistent_insert_step lru cid x (s, missing) = (s1, missing1)"
    by fastforce
  have ab: "db_aborted s1 = db_aborted s"
    using step by (auto simp: persistent_insert_step_def Let_def split: option.splits)
  have "entries_ok snd (AList.update x (tr, [cid]) (db_transmissions s))" for tr
    using Cons.prems(2) by (intro entries_ok_update) auto
  moreover have "entries_ok snd (AList.update x (tr, iset_insert cid ids) (db_transmissions s))"
    if "map_of (db_transmissions s) x = Some (tr, ids)" for tr ids
    using Cons.prems(2) that by (intro entries_ok_update) (auto simp: entries_ok_def)
  ultimately have ok: "entries_ok snd (db_transmissions s1)"
    using step Cons.prems(2)
    by (auto simp: persistent_insert_step_def Let_def split: option.splits)
  have refs: "refs_of snd (db_transmissions s1) =
      (if contains_key (db_transmissions s) x \<or> contains_key missing x
       then (refs_of snd (db_transmissions s))(x := insert cid (refs_of snd (db_transmissions s) x))
       else refs_of snd (db_transmissions s))"
    using step by (auto simp: persistent_insert_step_def Let_def refs_of_update refs_of_def
        split: option.splits)
  have rest: "map_of (db_transmissions s1) t = map_of (db_transmissions s) t \<and>
      map_of missing1 t = map_of missing t" if "t \<noteq> x" for t
    using step that by (auto simp: persistent_insert_step_def Let_def map_of_alist_delete
        split: option.splits)
  have "fold (persistent_insert_step lru cid) tids (s1, missing1) = (s', missing')"
    using Cons.prems(3) step by simp
  from Cons.IH[OF d(1) ok this] have
    *: "entries_ok snd (db_transmissions s')" "db_aborted s' = db_aborted s1"
      "\<And>t. refs_of snd (db_transmissions s') t =
        (if t \<in> set tids \<and> (contains_key (db_transmissions s1) t \<or> contains_key missing1 t)
         then insert cid (refs_of snd (db_transmissions s1) t)
         else refs_of snd (db_transmissions s1) t)" by blast+
  have "refs_of snd (db_transmissions s') t =
      (if t \<in> set (x # tids) \<and> (contains_key (db_transmissions s) t \<or> contains_key missing t)
       then insert cid (refs_of snd (db_transmissions s) t)
       else refs_of snd (db_transmissions s) t)" for t
    using *(3)[of t] rest[of t] refs d(2) by (cases "t = x") auto
  then show ?case using *(1,2) ab by simp
qed simp

lemma persistent_insert_aborted_fields:
  "db_transmissions (fold (persistent_insert_aborted lru cid) ts s) = db_transmissions s \<and>
   db_aborted (fold (persistent_insert_aborted lru cid) ts s) = fold (insert_aborted cid) ts (db_aborted s)"
proof (induction ts arbitrary: s)
  case (Cons x ts)
  have "db_transmissions (persistent_insert_aborted lru cid x s) = db_transmissions s"
    "db_aborted (persistent_insert_aborted lru cid x s) = insert_aborted cid x (db_aborted s)"
    by (auto simp: persistent_insert_aborted_def insert_aborted_def Let_def split: option.splits)
  then show ?case using Cons.IH[of "persistent_insert_aborted lru cid x s"] by simp
qed simp

lemma persistent_insert_ok:
  assumes "persistent_inv s" "distinct tids"
  shows "\<exists>s'. persistent_insert lru lru' s cid tids aborted missing = Ok s' \<and> persistent_inv s' \<and>
    (\<forall>t. persistent_refs s' t =
       (if t \<in> set tids \<and> (persistent_refs s t \<noteq> {} \<or> contains_key missing t)
        then insert cid (persistent_refs s t) else persistent_refs s t)) \<and>
    (\<forall>t. persistent_arefs s' t = (if t \<in> set aborted then insert cid (persistent_arefs s t)
       else persistent_arefs s t))"
proof -
  note e = persistent_refs_empty[OF assms(1)]
  obtain s1 missing1 where loop: "fold (persistent_insert_step lru cid) tids (s, missing) = (s1, missing1)"
    by fastforce
  have inv: "entries_ok snd (db_transmissions s)" "entries_ok (\<lambda>ids. ids) (db_aborted s)"
    using assms(1) by (simp_all add: persistent_inv_def)
  note s1 = persistent_insert_loop[OF assms(2) inv(1) loop]
  show ?thesis
    using s1 e fold_insert_aborted_ok[OF inv(2), of cid aborted]
    by (auto simp: persistent_insert_def loop persistent_insert_aborted_fields persistent_inv_def
        persistent_refs_def persistent_arefs_def)
qed

lemma persistent_remove_ok:
  "persistent_inv s \<Longrightarrow> persistent_inv (persistent_remove s cid tids) \<and>
     persistent_refs (persistent_remove s cid tids) t =
       (if t \<in> set tids then persistent_refs s t - {cid} else persistent_refs s t) \<and>
     persistent_arefs (persistent_remove s cid tids) t =
       (if t \<in> set tids then persistent_arefs s t - {cid} else persistent_arefs s t)"
proof (induction tids arbitrary: s)
  case (Cons x tids)
  define s1 where "s1 = persistent_remove s cid [x]"
  have "persistent_inv s1 \<and> persistent_refs s1 = (persistent_refs s)(x := persistent_refs s x - {cid}) \<and>
      persistent_arefs s1 = (persistent_arefs s)(x := persistent_arefs s x - {cid})"
    using Cons.prems
      drop_reference_ok[of snd "db_transmissions s" "\<lambda>ids (tr, _). (tr, ids)" cid x]
      drop_reference_ok[of "\<lambda>ids. ids" "db_aborted s" "\<lambda>ids _. ids" cid x]
    by (auto simp: s1_def persistent_remove_def persistent_inv_def persistent_refs_def
        persistent_arefs_def)
  moreover have "persistent_remove s cid (x # tids) = persistent_remove s1 cid tids"
    by (simp add: s1_def persistent_remove_def)
  ultimately show ?case using Cons.IH[of s1] by auto
qed (simp add: persistent_remove_def)

interpretation persistent: storage_service "persistent_ops lru lru'" persistent_inv persistent_refs
  persistent_arefs for lru lru'
proof (unfold_locales, goal_cases)
  case (1 s t)
  then show ?case
    using persistent_refs_empty[OF 1] by (simp add: persistent_ops_def persistent_contains_def)
next
  case (2 s h ts aborted missing t)
  then have f: "find_missing (persistent_contains s) (transmission_ids h) ts aborted = Ok missing"
    by (simp add: persistent_ops_def persistent_find_missing_def)
  show ?case
    using find_missing_char[OF 2(2) f] persistent_refs_empty[OF 2(1)] 2(4)
    by (auto simp: persistent_contains_def)
next
  case (3 s h ts aborted missing cid)
  from persistent_insert_ok[OF 3(1,2)] show ?case by (simp add: persistent_ops_def)
next
  case (4 s cid tids)
  then show ?case using persistent_remove_ok[OF 4, of cid tids] by (simp add: persistent_ops_def)
next
  case (5 s cid tids t)
  then show ?case using persistent_remove_ok[OF 5, of cid tids t] by (simp add: persistent_ops_def)
next
  case (6 s cid tids t)
  then show ?case using persistent_remove_ok[OF 6, of cid tids t] by (simp add: persistent_ops_def)
qed

section \<open>Properties\<close>

definition sample_solution_header :: batch_header where
  "sample_solution_header = sample_header 2 1 [Solution 1 2, Solution 3 4] []"

lemma sample_solution_header_ids:
  "transmission_ids sample_solution_header = [Solution 1 2, Solution 3 4]"
  unfolding sample_solution_header_def
  by (rule sample_header_valid) (simp_all add: u64_max_def u128_max_def)

text \<open>Recording a batch in memory cannot block: once \<open>find_missing_transmissions\<close> accepted the
  batch, \<open>insert_transmissions\<close> never takes the branch that locks the store against itself; it
  returns, keeps the store consistent, and afterwards the store contains every declared
  transmission.\<close>

theorem memory_insert_returns:
  assumes "memory_inv s" "distinct (transmission_ids h)"
    and "memory_find_missing s h ts aborted = Ok missing"
  shows "\<exists>s'. memory_insert s cid (transmission_ids h) aborted missing = Ok s' \<and> memory_inv s' \<and>
    (\<forall>t\<in>set (transmission_ids h). memory_contains s' t)"
proof -
  have f: "find_missing_transmissions memory_ops s h ts aborted = Ok missing"
    using assms(3) by (simp add: memory_ops_def)
  obtain s' where s': "insert_transmissions memory_ops s cid (transmission_ids h) aborted missing = Ok s'"
      "memory_inv s'"
    using memory.find_then_insert[OF assms(1,2) f, of cid] by blast
  moreover have "\<forall>t\<in>set (transmission_ids h). memory_contains s' t"
    using memory.insert_contains[OF assms(1,2) f s'(1)] by (simp add: memory_ops_def)
  ultimately show ?thesis by (auto simp: memory_ops_def)
qed

theorem memory_insert_returns_witness:
  "\<exists>s'. memory_insert (memory_new :: nat memory_service) 9 [Solution 1 2, Solution 3 4] [Solution 3 4]
      [(Solution 1 2, 50)] = Ok s' \<and> memory_contains s' (Solution 3 4)"
proof -
  have i: "memory_inv (memory_new :: nat memory_service)"
    by (simp add: memory_inv_def memory_new_def entries_ok_def)
  have f: "memory_find_missing (memory_new :: nat memory_service) sample_solution_header
      [(Solution 1 2, 50)] [Solution 3 4] = Ok [(Solution 1 2, 50)]"
    by (simp add: memory_find_missing_def find_missing_def find_missing_step_def memory_new_def
        sample_solution_header_ids)
  from memory_insert_returns[OF i _ f, of 9] show ?thesis by (auto simp: sample_solution_header_ids)
qed

text \<open>The branch exists, however: called on its own with a transmission that is neither stored,
  provided nor aborted, the in-memory \<open>insert_transmissions\<close> locks its map for reading while it
  holds the write lock, and blocks; the persistent store skips the transmission instead.\<close>

theorem memory_insert_blocks:
  "memory_insert memory_new cid [t] [] [] = Err Deadlock \<and>
   (\<exists>s'. persistent_insert lru lru' \<lparr>db_transmissions = [], db_aborted = [],
       cache_transmissions = c, cache_aborted = d\<rparr> cid [t] [] [] = Ok s' \<and> \<not> persistent_contains s' t)"
  by (simp add: memory_insert_def memory_insert_step_def memory_new_def persistent_insert_def
      persistent_insert_step_def persistent_contains_def)

text \<open>Reference counting is exact in both stores: removing a certificate after recording it
  leaves every transmission with the references it had before, so nothing leaks and nothing that
  another certificate needs is dropped.\<close>

theorem references_restored:
  assumes "memory_inv s" "persistent_inv p" "distinct (transmission_ids h)"
    and "set aborted \<subseteq> set (transmission_ids h)"
    and "memory_find_missing s h ts aborted = Ok missing"
      "memory_insert s cid (transmission_ids h) aborted missing = Ok s'"
      "cid \<notin> memory_refs s t" "cid \<notin> memory_arefs s t"
    and "persistent_find_missing p h ts aborted = Ok missing'"
      "persistent_insert lru lru' p cid (transmission_ids h) aborted missing' = Ok p'"
      "cid \<notin> persistent_refs p t" "cid \<notin> persistent_arefs p t"
  shows "memory_refs (memory_remove s' cid (transmission_ids h)) t = memory_refs s t \<and>
    memory_arefs (memory_remove s' cid (transmission_ids h)) t = memory_arefs s t \<and>
    persistent_refs (persistent_remove p' cid (transmission_ids h)) t = persistent_refs p t \<and>
    persistent_arefs (persistent_remove p' cid (transmission_ids h)) t = persistent_arefs p t"
  using memory.remove_insert_refs[OF assms(1,3), of ts aborted missing cid s' t]
    persistent.remove_insert_refs[OF assms(2,3), of lru lru' ts aborted missing' cid p' t] assms(4-)
  by (simp add: memory_ops_def persistent_ops_def)

definition sample_lru :: "((transmission_id, 'v) imap, transmission_id, 'v) lru_ops" where
  "sample_lru = \<lparr>lru_put = (\<lambda>k v c. (k, v) # filter (\<lambda>e. fst e \<noteq> k) c),
     lru_get = map_of, lru_pop = (\<lambda>k. filter (\<lambda>e. fst e \<noteq> k))\<rparr>"

definition empty_persistent ::
    "((transmission_id, 't \<times> field list) imap, (transmission_id, field list) imap, 't) persistent_storage" where
  "empty_persistent = \<lparr>db_transmissions = [], db_aborted = [], cache_transmissions = [],
     cache_aborted = []\<rparr>"

theorem references_restored_witness:
  "\<exists>s'. memory_insert (memory_new :: nat memory_service) 9 [Solution 1 2, Solution 3 4] [Solution 3 4]
      [(Solution 1 2, 50)] = Ok s' \<and>
    memory_refs (memory_remove s' 9 [Solution 1 2, Solution 3 4]) (Solution 1 2) = {}"
proof -
  let ?s = "memory_new :: nat memory_service"
  let ?p = "empty_persistent :: (_, _, nat) persistent_storage"
  note d = memory_find_missing_def persistent_find_missing_def find_missing_def find_missing_step_def
    memory_new_def empty_persistent_def persistent_contains_def sample_solution_header_ids
  have inv: "memory_inv ?s" "persistent_inv ?p"
    by (simp_all add: memory_inv_def persistent_inv_def entries_ok_def memory_new_def empty_persistent_def)
  have f: "memory_find_missing ?s sample_solution_header [(Solution 1 2, 50)] [Solution 3 4]
        = Ok [(Solution 1 2, 50)]"
      "persistent_find_missing ?p sample_solution_header [(Solution 1 2, 50)] [Solution 3 4]
        = Ok [(Solution 1 2, 50)]"
    by (simp_all add: d)
  have r: "memory_refs ?s t = {}" "memory_arefs ?s t = {}" "persistent_refs ?p t = {}"
      "persistent_arefs ?p t = {}" for t
    by (simp_all add: memory_refs_def memory_arefs_def persistent_refs_def persistent_arefs_def
        refs_of_def memory_new_def empty_persistent_def)
  obtain s' where s': "memory_insert ?s 9 (transmission_ids sample_solution_header) [Solution 3 4]
      [(Solution 1 2, 50)] = Ok s'"
    by (simp add: d memory_insert_def memory_insert_step_def)
  obtain p' where p': "persistent_insert sample_lru sample_lru ?p 9
      (transmission_ids sample_solution_header) [Solution 3 4] [(Solution 1 2, 50)] = Ok p'"
    by (simp add: persistent_insert_def)
  show ?thesis
    using references_restored[OF inv _ _ f(1) s' _ _ f(2) p', of "Solution 1 2"] s' r
    by (simp add: sample_solution_header_ids)
qed

text \<open>The cache of the persistent store outlives its entries: \<open>remove_transmissions\<close> does not
  touch it, so after the last certificate of a transmission is removed, \<open>contains_transmission\<close>
  denies it while \<open>get_transmission\<close> still returns it, although its documentation promises \<open>None\<close>.
  The cache is assumed to return the value that was put last.\<close>

theorem persistent_stale_cache:
  assumes "\<forall>k v c. lru_get lru (lru_put lru k v c) k = Some v"
    and "map_of (db_transmissions p) t = None" "map_of (db_aborted p) t = None"
    and "persistent_insert lru lru' p cid [t] [] [(t, v)] = Ok p'"
  shows "\<not> persistent_contains (persistent_remove p' cid [t]) t \<and>
    persistent_get lru (persistent_remove p' cid [t]) t = Some v"
proof -
  have p': "p' = p\<lparr>db_transmissions := AList.update t (v, [cid]) (db_transmissions p),
      cache_transmissions := lru_put lru t (v, [cid]) (cache_transmissions p)\<rparr>"
    using assms(2,4) by (simp add: persistent_insert_def persistent_insert_step_def Let_def)
  then show ?thesis
    using assms(1,3)
    by (simp add: persistent_remove_def persistent_contains_def persistent_get_def
        drop_reference_def Let_def map_of_alist_delete)
qed

theorem persistent_stale_cache_witness:
  "\<exists>p'. persistent_insert sample_lru sample_lru (empty_persistent :: (_, _, nat) persistent_storage) 9
      [Ratification] [] [(Ratification, 50)] = Ok p' \<and>
    persistent_get sample_lru (persistent_remove p' 9 [Ratification]) Ratification = Some 50"
proof -
  have l: "\<forall>k v c. lru_get sample_lru (lru_put sample_lru k v c) k = Some v"
    by (simp add: sample_lru_def)
  obtain p' where p: "persistent_insert sample_lru sample_lru
      (empty_persistent :: (_, _, nat) persistent_storage) 9 [Ratification] [] [(Ratification, 50)] = Ok p'"
    by (simp add: persistent_insert_def)
  show ?thesis
    using persistent_stale_cache[OF l _ _ p] p by (simp add: empty_persistent_def)
qed

text \<open>The two stores disagree on a transmission that an earlier certificate declared aborted and
  a later one provides: the in-memory store keeps it, the persistent one counts it as known and drops
  it, so that it cannot be retrieved.\<close>

theorem aborted_then_provided:
  assumes "transmission_ids h = [t]" "lru_get lru c t = None"
  shows "\<exists>s p s' p' missing.
    memory_insert memory_new cid' [t] [t] [] = Ok s \<and>
    memory_find_missing s h [(t, v)] [] = Ok [(t, v)] \<and>
    memory_insert s cid [t] [] [(t, v)] = Ok s' \<and> memory_get s' t = Some v \<and>
    persistent_insert lru lru' \<lparr>db_transmissions = [], db_aborted = [], cache_transmissions = c,
      cache_aborted = d\<rparr> cid' [t] [t] [] = Ok p \<and>
    persistent_find_missing p h [(t, v)] [] = Ok missing \<and>
    persistent_insert lru lru' p cid [t] [] missing = Ok p' \<and> persistent_get lru p' t = None"
  using assms
  by (simp add: memory_insert_def memory_insert_step_def memory_new_def insert_aborted_def
      memory_find_missing_def find_missing_def find_missing_step_def memory_get_def
      persistent_insert_def persistent_insert_step_def persistent_insert_aborted_def Let_def
      persistent_find_missing_def persistent_contains_def persistent_get_def)

theorem aborted_then_provided_witness:
  "\<exists>s s'. memory_insert (memory_new :: nat memory_service) 9 [Ratification] [Ratification] [] = Ok s \<and>
     memory_insert s 10 [Ratification] [] [(Ratification, 50)] = Ok s' \<and>
     memory_get s' Ratification = Some 50"
proof -
  have "transmission_ids (sample_header 2 1 [Ratification] []) = [Ratification]"
    by (rule sample_header_valid) (simp_all add: u64_max_def)
  moreover have "lru_get sample_lru [] Ratification = (None :: (nat \<times> field list) option)"
    by (simp add: sample_lru_def)
  ultimately show ?thesis
    using aborted_then_provided[of "sample_header 2 1 [Ratification] []" Ratification
        "sample_lru :: (_, _, nat \<times> field list) lru_ops" "[]" 9 50 10 sample_lru "[]"] by blast
qed

end
