(* ===== verification/BFT_Storage.thy ===== *)
theory BFT_Storage
  imports Committee Storage_Service
begin

text \<open>
  The BFT storage of \<open>node/bft/src/helpers/storage.rs\<close>: certificates by round, by ID and by
  author, the admission checks for batch headers and certificates, garbage collection, and the
  synchronisation with blocks.

  The ledger is the trait object \<open>LedgerService\<close>, the record \<open>ledger\<close> of the queries that the
  storage makes; the transmission store is an instance of \<open>service_ops\<close>; the cache of unprocessed
  certificates is an LRU cache, a parameter.  Operations run one at a time, so the
  \<open>compare_exchange\<close> of the GC round succeeds.
\<close>

section \<open>Definitions\<close>

record 't ledger =
  current_committee :: "committee result"
  latest_round :: u64
  get_committee_lookback_for_round :: "u64 \<Rightarrow> committee result"
  ledger_contains_certificate :: "field \<Rightarrow> bool result"
  ledger_contains_transmission :: "transmission_id \<Rightarrow> bool result"
  ledger_get_solution :: "u64 \<Rightarrow> 't option result"
  ledger_get_unconfirmed_transaction :: "field \<Rightarrow> 't option result"

record ('s, 'u) storage =
  current_height :: u32
  current_round :: u64
  gc_round :: u64
  max_gc_rounds :: u64
  rounds :: "(u64, (field \<times> address) list) imap"
  unprocessed_certificates :: 'u
  certificates :: "(field, batch_certificate) imap"
  batch_ids :: "(field, u64) imap"
  transmissions :: 's

text \<open>What a storage is built from: the network, the primitives, the stores and the ledger.\<close>

record ('s, 't, 'u) storage_env =
  env_network :: network
  env_crypto :: crypto
  env_ledger :: "'t ledger"
  env_service :: "('s, 't) service_ops"
  env_lru :: "('u, field, batch_certificate) lru_ops"

definition MAX_TIMESTAMP_DELTA :: i64 where
  "MAX_TIMESTAMP_DELTA = 10"

definition check_timestamp_for_liveness :: "i64 \<Rightarrow> i64 \<Rightarrow> unit result" where
  "check_timestamp_for_liveness now t =
     ensure (\<not> t > now + MAX_TIMESTAMP_DELTA) ''Timestamp is too far in the future'' (Ok ())"

subsection \<open>Queries\<close>

definition contains_certificates_for_round :: "('s, 'u) storage \<Rightarrow> u64 \<Rightarrow> bool" where
  "contains_certificates_for_round st r = contains_key (rounds st) r"

definition contains_certificate :: "('s, 'u) storage \<Rightarrow> field \<Rightarrow> bool" where
  "contains_certificate st i = contains_key (certificates st) i"

definition contains_certificate_in_round_from :: "('s, 'u) storage \<Rightarrow> u64 \<Rightarrow> address \<Rightarrow> bool" where
  "contains_certificate_in_round_from st r a =
     (case map_of (rounds st) r of None \<Rightarrow> False | Some entries \<Rightarrow> \<exists>(_, a')\<in>set entries. a' = a)"

definition contains_unprocessed_certificate ::
    "('s, 't, 'u) storage_env \<Rightarrow> ('s, 'u) storage \<Rightarrow> field \<Rightarrow> bool" where
  "contains_unprocessed_certificate e st i =
     (lru_get (env_lru e) (unprocessed_certificates st) i \<noteq> None)"

definition contains_batch :: "('s, 'u) storage \<Rightarrow> field \<Rightarrow> bool" where
  "contains_batch st i = contains_key (batch_ids st) i"

definition get_round_for_certificate :: "('s, 'u) storage \<Rightarrow> field \<Rightarrow> u64 option" where
  "get_round_for_certificate st i = map_option cert_round (map_of (certificates st) i)"

definition get_round_for_batch :: "('s, 'u) storage \<Rightarrow> field \<Rightarrow> u64 option" where
  "get_round_for_batch st i = map_of (batch_ids st) i"

definition get_certificate :: "('s, 'u) storage \<Rightarrow> field \<Rightarrow> batch_certificate option" where
  "get_certificate st i = map_of (certificates st) i"

definition get_unprocessed_certificate ::
    "('s, 't, 'u) storage_env \<Rightarrow> ('s, 'u) storage \<Rightarrow> field \<Rightarrow> batch_certificate option" where
  "get_unprocessed_certificate e st i = lru_get (env_lru e) (unprocessed_certificates st) i"

text \<open>\<open>find_map\<close>: the first defined result.\<close>

fun find_map :: "('a \<Rightarrow> 'b option) \<Rightarrow> 'a list \<Rightarrow> 'b option" where
  "find_map f [] = None"
| "find_map f (x # xs) = (case f x of Some y \<Rightarrow> Some y | None \<Rightarrow> find_map f xs)"

definition get_certificate_for_round_with_author ::
    "('s, 'u) storage \<Rightarrow> u64 \<Rightarrow> address \<Rightarrow> batch_certificate option" where
  "get_certificate_for_round_with_author st r a =
     (case map_of (rounds st) r of
        None \<Rightarrow> None
      | Some entries \<Rightarrow>
          find_map (\<lambda>(i, a'). if a' = a then map_of (certificates st) i else None) entries)"

definition get_certificates_for_round :: "('s, 'u) storage \<Rightarrow> u64 \<Rightarrow> batch_certificate list" where
  "get_certificates_for_round st r =
     (if r = 0 then []
      else case map_of (rounds st) r of
             None \<Rightarrow> []
           | Some entries \<Rightarrow>
               cset_of_list (List.map_filter (\<lambda>(i, _). map_of (certificates st) i) entries))"

definition get_certificate_ids_for_round :: "('s, 'u) storage \<Rightarrow> u64 \<Rightarrow> field list" where
  "get_certificate_ids_for_round st r =
     (if r = 0 then []
      else case map_of (rounds st) r of
             None \<Rightarrow> []
           | Some entries \<Rightarrow> iset_of_list (map fst entries))"

definition get_certificate_authors_for_round :: "('s, 'u) storage \<Rightarrow> u64 \<Rightarrow> address list" where
  "get_certificate_authors_for_round st r =
     (if r = 0 then []
      else case map_of (rounds st) r of
             None \<Rightarrow> []
           | Some entries \<Rightarrow> iset_of_list (map snd entries))"

definition get_pending_certificates ::
    "('s, 't, 'u) storage_env \<Rightarrow> ('s, 'u) storage \<Rightarrow> batch_certificate list" where
  "get_pending_certificates e st =
     cset_of_list (List.map_filter
       (\<lambda>(i, _). if unwrap_or False (ledger_contains_certificate (env_ledger e) i) then None
                 else map_of (certificates st) i)
       (concat (vals (sort_key fst (rounds st)))))"

subsection \<open>Removing certificates\<close>

definition remove_certificate ::
    "('s, 't, 'u) storage_env \<Rightarrow> field \<Rightarrow> ('s, 'u) storage \<Rightarrow> bool \<times> ('s, 'u) storage" where
  "remove_certificate e i st =
     (case get_certificate st i of
        None \<Rightarrow> (False, st)
      | Some c \<Rightarrow>
          (True, st\<lparr>
             rounds :=
               (case map_of (rounds st) (cert_round c) of
                  None \<Rightarrow> rounds st
                | Some entries \<Rightarrow>
                    let entries' = swap_remove (i, cert_author c) entries
                    in if entries' = [] then map_swap_remove (cert_round c) (rounds st)
                       else AList.update (cert_round c) entries' (rounds st)),
             certificates := map_swap_remove i (certificates st),
             unprocessed_certificates := lru_pop (env_lru e) i (unprocessed_certificates st),
             batch_ids := map_swap_remove i (batch_ids st),
             transmissions :=
               remove_transmissions (env_service e) (transmissions st) i (cert_transmission_ids c)\<rparr>))"

definition gc_one_round ::
    "('s, 't, 'u) storage_env \<Rightarrow> u64 \<Rightarrow> ('s, 'u) storage \<Rightarrow> ('s, 'u) storage" where
  "gc_one_round e r st =
     fold (\<lambda>i st. snd (remove_certificate e i st)) (get_certificate_ids_for_round st r) st"

definition garbage_collect_certificates ::
    "('s, 't, 'u) storage_env \<Rightarrow> u64 \<Rightarrow> ('s, 'u) storage \<Rightarrow> ('s, 'u) storage result" where
  "garbage_collect_certificates e next_round st =
     (let current_gc_round = gc_round st;
          next_gc_round = saturating_sub next_round (max_gc_rounds st)
      in if next_gc_round > current_gc_round
         then Ok ((fold (gc_one_round e) [current_gc_round ..< Suc next_gc_round]
                     (st\<lparr>gc_round := next_gc_round\<rparr>))\<lparr>gc_round := next_gc_round\<rparr>)
         else if next_gc_round < current_gc_round
         then bail ''Attempted to decrease GC round''
         else Ok st)"

subsection \<open>Rounds and heights\<close>

definition sync_height_with_block :: "u32 \<Rightarrow> ('s, 'u) storage \<Rightarrow> ('s, 'u) storage" where
  "sync_height_with_block next_height st =
     (if next_height > current_height st then st\<lparr>current_height := next_height\<rparr> else st)"

definition sync_round_with_block :: "u64 \<Rightarrow> ('s, 'u) storage \<Rightarrow> ('s, 'u) storage" where
  "sync_round_with_block next_round st =
     (let next_round = max next_round 1
      in if next_round > current_round st then st\<lparr>current_round := next_round\<rparr> else st)"

definition increment_to_next_round ::
    "('s, 't, 'u) storage_env \<Rightarrow> u64 \<Rightarrow> ('s, 'u) storage \<Rightarrow> u64 result \<times> ('s, 'u) storage" where
  "increment_to_next_round e r st =
     (let next_round = u64_add r 1
      in if next_round < current_round st then (Ok (current_round st), st)
         else case current_committee (env_ledger e) of
                Inl err \<Rightarrow> (Inl err, st)
              | Inr committee \<Rightarrow>
                  if next_round < starting_round committee
                  then (Ok (latest_round (env_ledger e)),
                        sync_round_with_block (latest_round (env_ledger e)) st)
                  else
                    let st' = st\<lparr>current_round := next_round\<rparr>
                    in (ensure (next_round = current_round st')
                          ''The next round does not match in storage''
                        (ensure (next_round \<ge> gc_round st')
                          ''The next round is behind the GC round''
                        (Ok next_round)), st'))"

definition storage_new ::
    "('s, 't, 'u) storage_env \<Rightarrow> 's \<Rightarrow> 'u \<Rightarrow> u64 \<Rightarrow> ('s, 'u) storage result" where
  "storage_new e service cache max_gc =
     (case current_committee (env_ledger e) of
        Inl _ \<Rightarrow> Err (Panic ''Ledger is missing a committee.'')
      | Inr committee \<Rightarrow>
          let r = max (starting_round committee) 1
          in if LATEST_MAX_CERTIFICATES (env_network e) * 2 mod 2 ^ 16 = 0
             then Err (Panic ''called `Option::unwrap()` on a `None` value'')
             else garbage_collect_certificates e r
                    \<lparr>current_height = 0, current_round = r, gc_round = 0, max_gc_rounds = max_gc,
                     rounds = [], unprocessed_certificates = cache, certificates = [],
                     batch_ids = [], transmissions = service\<rparr>)"

subsection \<open>Admission checks\<close>

definition check_previous_certificate ::
    "('s, 'u) storage \<Rightarrow> u64 \<Rightarrow> field \<Rightarrow> address list \<Rightarrow> address list result" where
  "check_previous_certificate st previous_round i authors =
     (case get_certificate st i of
        None \<Rightarrow> bail ''Missing previous certificate''
      | Some c \<Rightarrow>
          ensure (cert_round c = previous_round) ''certificate contains a certificate of another round''
          (ensure (cert_author c \<notin> set authors) ''certificate contains a duplicate author''
          (Ok (authors @ [cert_author c]))))"

definition check_previous_certificates ::
    "('s, 't, 'u) storage_env \<Rightarrow> ('s, 'u) storage \<Rightarrow> batch_header \<Rightarrow> unit result" where
  "check_previous_certificates e st h =
     (let previous_round = saturating_sub (round h) 1
      in if previous_round > gc_round st
         then
           case get_committee_lookback_for_round (env_ledger e) previous_round of
             Inl _ \<Rightarrow> bail ''Missing committee for the previous round''
           | Inr previous_committee_lookback \<Rightarrow>
               ensure (contains_certificates_for_round st previous_round)
                 ''Missing certificates for the previous round''
               (ensure (\<not> length (previous_certificate_ids h) > length (members previous_committee_lookback))
                 ''Too many previous certificates''
               (try_bind (try_fold (check_previous_certificate st previous_round)
                   (previous_certificate_ids h) []) (\<lambda>previous_authors.
                ensure (is_quorum_threshold_reached previous_committee_lookback previous_authors)
                  ''Previous certificates did not reach quorum threshold''
                (Ok ()))))
         else Ok ())"

definition check_batch_header ::
    "('s, 't, 'u) storage_env \<Rightarrow> i64 \<Rightarrow> ('s, 'u) storage \<Rightarrow> batch_header \<Rightarrow> 't tmap
      \<Rightarrow> transmission_id list \<Rightarrow> 't tmap option result" where
  "check_batch_header e now st h ts aborted =
     (if contains_batch st (batch_id h) then Ok None
      else case get_committee_lookback_for_round (env_ledger e) (round h) of
             Inl _ \<Rightarrow> bail ''Storage failed to retrieve the committee lookback''
           | Inr committee_lookback \<Rightarrow>
               ensure (is_committee_member committee_lookback (author h))
                 ''Author is not in the committee''
               (try_bind (check_timestamp_for_liveness now (timestamp h)) (\<lambda>_.
                try_bind (find_missing_transmissions (env_service e) (transmissions st) h ts aborted)
                  (\<lambda>missing.
                try_bind (check_previous_certificates e st h) (\<lambda>_.
                Ok (Some missing))))))"

definition check_incoming_certificate ::
    "('s, 't, 'u) storage_env \<Rightarrow> batch_certificate \<Rightarrow> unit result" where
  "check_incoming_certificate e c =
     try_bind (get_committee_lookback_for_round (env_ledger e) (cert_round c)) (\<lambda>committee_lookback.
     let signers = iset_insert (cert_author c)
           (iset_of_list (map (to_address (env_crypto e)) (signatures c)))
     in ensure (is_quorum_threshold_reached committee_lookback signers)
          ''Certificate does not meet quorum requirements''
        (ensure (\<forall>signer\<in>set signers. is_committee_member committee_lookback signer)
          ''Signer of certificate is not in the committee''
        (Ok ())))"

definition check_signer ::
    "crypto \<Rightarrow> committee \<Rightarrow> signature \<Rightarrow> address list \<Rightarrow> address list result" where
  "check_signer cr committee_lookback s signers =
     ensure (is_committee_member committee_lookback (to_address cr s))
       ''Signer is not in the committee''
     (Ok (iset_insert (to_address cr s) signers))"

definition check_certificate ::
    "('s, 't, 'u) storage_env \<Rightarrow> i64 \<Rightarrow> ('s, 'u) storage \<Rightarrow> batch_certificate \<Rightarrow> 't tmap
      \<Rightarrow> transmission_id list \<Rightarrow> 't tmap result" where
  "check_certificate e now st c ts aborted =
     ensure (\<not> contains_certificate st (cert_id c)) ''Certificate already exists in storage''
     (ensure (\<not> contains_certificate_in_round_from st (cert_round c) (cert_author c))
       ''Certificate with this author already exists in storage''
     (try_bind (check_batch_header e now st (batch_header c) ts aborted) (\<lambda>checked.
      case checked of
        None \<Rightarrow> bail ''Certificate already exists in storage''
      | Some missing \<Rightarrow>
          try_bind (check_timestamp_for_liveness now (cert_timestamp c)) (\<lambda>_.
          case get_committee_lookback_for_round (env_ledger e) (cert_round c) of
            Inl _ \<Rightarrow> bail ''Storage failed to retrieve the committee''
          | Inr committee_lookback \<Rightarrow>
              try_bind (try_fold (check_signer (env_crypto e) committee_lookback) (signatures c)
                  [cert_author c]) (\<lambda>signers.
              ensure (is_quorum_threshold_reached committee_lookback signers)
                ''Signatures did not reach quorum threshold''
              (Ok missing))))))"

subsection \<open>Inserting certificates\<close>

definition insert_certificate_atomic ::
    "('s, 't, 'u) storage_env \<Rightarrow> batch_certificate \<Rightarrow> transmission_id list \<Rightarrow> 't tmap
      \<Rightarrow> ('s, 'u) storage \<Rightarrow> ('s, 'u) storage result" where
  "insert_certificate_atomic e c aborted missing st =
     (let st' = st\<lparr>
            rounds := entry_update [] (cert_round c) (iset_insert (cert_id c, cert_author c)) (rounds st),
            certificates := AList.update (cert_id c) c (certificates st),
            unprocessed_certificates := lru_pop (env_lru e) (cert_id c) (unprocessed_certificates st),
            batch_ids := AList.update (cert_id c) (cert_round c) (batch_ids st)\<rparr>
      in try_bind (insert_transmissions (env_service e) (transmissions st') (cert_id c)
            (cert_transmission_ids c) aborted missing)
           (\<lambda>service. Ok (st'\<lparr>transmissions := service\<rparr>)))"

definition insert_certificate ::
    "('s, 't, 'u) storage_env \<Rightarrow> i64 \<Rightarrow> batch_certificate \<Rightarrow> 't tmap \<Rightarrow> transmission_id list
      \<Rightarrow> ('s, 'u) storage \<Rightarrow> ('s, 'u) storage result" where
  "insert_certificate e now c ts aborted st =
     ensure (cert_round c > gc_round st) ''Certificate round is at or below the GC round''
     (try_bind (check_certificate e now st c ts aborted) (\<lambda>missing.
      insert_certificate_atomic e c aborted missing st))"

definition insert_unprocessed_certificate ::
    "('s, 't, 'u) storage_env \<Rightarrow> batch_certificate \<Rightarrow> ('s, 'u) storage \<Rightarrow> ('s, 'u) storage result" where
  "insert_unprocessed_certificate e c st =
     ensure (cert_round c > gc_round st) ''Certificate round is at or below the GC round''
     (Ok (st\<lparr>unprocessed_certificates :=
            lru_put (env_lru e) (cert_id c) c (unprocessed_certificates st)\<rparr>))"

text \<open>The parts of a block that the synchronisation of a certificate looks at.\<close>

record 't block_view =
  get_solution :: "u64 \<Rightarrow> 't option"
  aborted_solution_ids :: "u64 list"
  aborted_transaction_ids :: "field list"

definition sync_transmission ::
    "('s, 't, 'u) storage_env \<Rightarrow> ('s, 'u) storage \<Rightarrow> 't block_view \<Rightarrow> (field, 't) imap
      \<Rightarrow> transmission_id \<Rightarrow> 't tmap \<times> transmission_id list \<Rightarrow> ('t tmap \<times> transmission_id list) result" where
  "sync_transmission e st block unconfirmed tid = (\<lambda>(missing, aborted).
     if contains_key missing tid then Ok (missing, aborted)
     else if contains_transmission (env_service e) (transmissions st) tid then Ok (missing, aborted)
     else case tid of
       Ratification \<Rightarrow> Ok (missing, aborted)
     | Solution i _ \<Rightarrow>
         (case get_solution block i of
            Some t \<Rightarrow> Ok (AList.update tid t missing, aborted)
          | None \<Rightarrow>
              (case ledger_get_solution (env_ledger e) i of
                 Inr (Some t) \<Rightarrow> Ok (AList.update tid t missing, aborted)
               | _ \<Rightarrow>
                   if i \<in> set (aborted_solution_ids block) \<or>
                      unwrap_or False (ledger_contains_transmission (env_ledger e) tid)
                   then Ok (missing, iset_insert tid aborted)
                   else bail ''Missing solution for block''))
     | Transaction i _ \<Rightarrow>
         (case map_of unconfirmed i of
            Some t \<Rightarrow> Ok (AList.update tid t missing, aborted)
          | None \<Rightarrow>
              (case ledger_get_unconfirmed_transaction (env_ledger e) i of
                 Inr (Some t) \<Rightarrow> Ok (AList.update tid t missing, aborted)
               | _ \<Rightarrow>
                   if i \<in> set (aborted_transaction_ids block) \<or>
                      unwrap_or False (ledger_contains_transmission (env_ledger e) tid)
                   then Ok (missing, iset_insert tid aborted)
                   else bail ''Missing transaction for block'')))"

definition sync_certificate_with_block ::
    "('s, 't, 'u) storage_env \<Rightarrow> i64 \<Rightarrow> 't block_view \<Rightarrow> batch_certificate \<Rightarrow> (field, 't) imap
      \<Rightarrow> ('s, 'u) storage \<Rightarrow> ('s, 'u) storage result" where
  "sync_certificate_with_block e now block c unconfirmed st =
     (if cert_round c \<le> gc_round st then Ok st
      else if contains_certificate st (cert_id c) then Ok st
      else try_bind (try_fold (sync_transmission e st block unconfirmed) (cert_transmission_ids c) ([], []))
             (\<lambda>(missing, aborted). insert_certificate e now c missing aborted st))"

section \<open>The invariant\<close>

definition entries_at :: "('s, 'u) storage \<Rightarrow> u64 \<Rightarrow> (field \<times> address) list" where
  "entries_at st r = (case map_of (rounds st) r of None \<Rightarrow> [] | Some entries \<Rightarrow> entries)"

text \<open>The maps agree: \<open>certificates\<close> is keyed by ID, \<open>batch_ids\<close> holds the round of every stored
  certificate, \<open>rounds\<close> lists exactly the stored certificates of each round, no empty round is kept,
  and a round has at most one certificate per author.\<close>

definition maps_agree :: "('s, 'u) storage \<Rightarrow> bool" where
  "maps_agree st \<longleftrightarrow>
     wf_map (rounds st) \<and> wf_map (certificates st) \<and> wf_map (batch_ids st) \<and>
     (\<forall>i c. map_of (certificates st) i = Some c \<longrightarrow> cert_id c = i) \<and>
     (\<forall>i. map_of (batch_ids st) i = map_option cert_round (map_of (certificates st) i)) \<and>
     (\<forall>r entries. map_of (rounds st) r = Some entries \<longrightarrow> entries \<noteq> []) \<and>
     (\<forall>r. distinct (map snd (entries_at st r))) \<and>
     (\<forall>r i a. (i, a) \<in> set (entries_at st r) \<longleftrightarrow>
        (\<exists>c. map_of (certificates st) i = Some c \<and> cert_round c = r \<and> cert_author c = a))"

definition above_gc :: "('s, 'u) storage \<Rightarrow> bool" where
  "above_gc st \<longleftrightarrow> (\<forall>i c. map_of (certificates st) i = Some c \<longrightarrow> gc_round st < cert_round c)"

text \<open>Causal completeness: a certificate whose previous round is not garbage collected has all its
  previous certificates in storage, from distinct authors, with a quorum of the committee.\<close>

definition causally_complete ::
    "('s, 't, 'u) storage_env \<Rightarrow> ('s, 'u) storage \<Rightarrow> batch_certificate \<Rightarrow> bool" where
  "causally_complete e st c \<longleftrightarrow>
     (gc_round st < cert_round c - 1 \<longrightarrow>
       (\<exists>pc ps. get_committee_lookback_for_round (env_ledger e) (cert_round c - 1) = Ok pc \<and>
          map (map_of (certificates st)) (cert_previous_ids c) = map Some ps \<and>
          (\<forall>p\<in>set ps. cert_round p = cert_round c - 1) \<and>
          distinct (map cert_author ps) \<and>
          is_quorum_threshold_reached pc (map cert_author ps)))"

definition storage_inv :: "('s, 't, 'u) storage_env \<Rightarrow> ('s, 'u) storage \<Rightarrow> bool" where
  "storage_inv e st \<longleftrightarrow> maps_agree st \<and> above_gc st \<and> 0 < current_round st \<and>
     (\<forall>i c. map_of (certificates st) i = Some c \<longrightarrow> causally_complete e st c)"

subsection \<open>Removal and garbage collection\<close>

lemma maps_agreeD:
  assumes "maps_agree st"
  shows "map_of (certificates st) i = Some c \<Longrightarrow> cert_id c = i"
    and "map_of (batch_ids st) i = map_option cert_round (map_of (certificates st) i)"
    and "distinct (map snd (entries_at st r))"
    and "(i, a) \<in> set (entries_at st r) \<longleftrightarrow>
        (\<exists>c. map_of (certificates st) i = Some c \<and> cert_round c = r \<and> cert_author c = a)"
    and "wf_map (rounds st)" "wf_map (certificates st)" "wf_map (batch_ids st)"
  using assms unfolding maps_agree_def by blast+

lemma entries_at_remove:
  assumes "maps_agree st" "map_of (certificates st) i = Some c"
  shows "entries_at (snd (remove_certificate e i st)) r =
    (if r = cert_round c then swap_remove (i, cert_author c) (entries_at st r) else entries_at st r)"
proof -
  have "(i, cert_author c) \<in> set (entries_at st (cert_round c))"
    using maps_agreeD(4)[OF assms(1)] assms(2) by blast
  then obtain es where es: "map_of (rounds st) (cert_round c) = Some es"
    by (cases "map_of (rounds st) (cert_round c)") (auto simp: entries_at_def)
  then show ?thesis
    using assms maps_agreeD(5)[OF assms(1)]
    by (auto simp: entries_at_def remove_certificate_def get_certificate_def Let_def
        map_of_swap_remove)
qed

lemma swap_remove_map_snd:
  "distinct (map snd es) \<Longrightarrow> distinct (map snd (swap_remove p es))"
proof -
  assume d: "distinct (map snd es)"
  then have "inj_on snd (set es)" "distinct es" by (simp_all add: distinct_map)
  then show ?thesis by (auto simp: distinct_map intro: inj_on_subset)
qed

lemma remove_certificate_maps:
  assumes "maps_agree st"
  shows "maps_agree (snd (remove_certificate e i st))"
    and "map_of (certificates (snd (remove_certificate e i st))) = (map_of (certificates st))(i := None)"
proof -
  let ?st = "snd (remove_certificate e i st)"
  note D = maps_agreeD[OF assms]
  show certs: "map_of (certificates ?st) = (map_of (certificates st))(i := None)"
    using D(6) by (auto simp: remove_certificate_def get_certificate_def map_of_swap_remove
        split: option.splits)
  show "maps_agree ?st"
  proof (cases "map_of (certificates st) i")
    case None
    then show ?thesis using assms by (simp add: remove_certificate_def get_certificate_def)
  next
    case (Some c)
    note E = entries_at_remove[OF assms Some, of e]
    have wf: "wf_map (rounds ?st)" "wf_map (certificates ?st)" "wf_map (batch_ids ?st)"
      using D(5-7) Some
      by (auto simp: remove_certificate_def get_certificate_def Let_def split: option.splits)
    have ids: "map_of (batch_ids ?st) = (map_of (batch_ids st))(i := None)"
      using D(7) Some by (simp add: remove_certificate_def get_certificate_def map_of_swap_remove)
    have nonempty: "es \<noteq> []" if "map_of (rounds ?st) r = Some es" for r es
      using that assms D(5) Some
      by (auto simp: remove_certificate_def get_certificate_def Let_def map_of_swap_remove
          maps_agree_def split: option.splits if_splits)
    have dist: "distinct (map snd (entries_at ?st r))" for r
      using E[of r] D(3)[of r] swap_remove_map_snd by auto
    have mem: "(j, a) \<in> set (entries_at ?st r) \<longleftrightarrow>
        (\<exists>c'. map_of (certificates ?st) j = Some c' \<and> cert_round c' = r \<and> cert_author c' = a)" for r j a
    proof -
      have "distinct (entries_at st r)" using D(3)[of r] by (simp add: distinct_map)
      then have "(j, a) \<in> set (entries_at ?st r) \<longleftrightarrow> (j, a) \<in> set (entries_at st r) \<and>
          \<not> (r = cert_round c \<and> j = i \<and> a = cert_author c)"
        using E[of r] by auto
      also have "\<dots> \<longleftrightarrow>
          (\<exists>c'. map_of (certificates ?st) j = Some c' \<and> cert_round c' = r \<and> cert_author c' = a)"
        unfolding D(4) certs using Some by auto
      finally show ?thesis .
    qed
    show ?thesis
      unfolding maps_agree_def using wf nonempty dist mem D(1,2) ids certs
      by (auto split: if_splits)
  qed
qed

lemma remove_certificate_rest:
  "gc_round (snd (remove_certificate e i st)) = gc_round st"
  "current_round (snd (remove_certificate e i st)) = current_round st"
  "max_gc_rounds (snd (remove_certificate e i st)) = max_gc_rounds st"
  by (auto simp: remove_certificate_def split: option.splits)

lemma fold_remove_maps:
  "maps_agree st \<Longrightarrow>
     maps_agree (fold (\<lambda>i st. snd (remove_certificate e i st)) ids st) \<and>
     map_of (certificates (fold (\<lambda>i st. snd (remove_certificate e i st)) ids st)) =
       (\<lambda>i. if i \<in> set ids then None else map_of (certificates st) i) \<and>
     gc_round (fold (\<lambda>i st. snd (remove_certificate e i st)) ids st) = gc_round st \<and>
     current_round (fold (\<lambda>i st. snd (remove_certificate e i st)) ids st) = current_round st"
proof (induction ids arbitrary: st)
  case (Cons j ids)
  have "maps_agree (snd (remove_certificate e j st))"
    by (rule remove_certificate_maps(1)[OF Cons.prems])
  from Cons.IH[OF this] show ?case
    using remove_certificate_maps(2)[OF Cons.prems, of e j]
    by (auto simp: fun_eq_iff remove_certificate_rest)
qed simp

lemma certificate_ids_for_round:
  assumes "maps_agree st" "r \<noteq> 0"
  shows "set (get_certificate_ids_for_round st r) =
    {i. \<exists>c. map_of (certificates st) i = Some c \<and> cert_round c = r}"
proof -
  have "set (get_certificate_ids_for_round st r) = fst ` set (entries_at st r)"
    using assms(2) by (auto simp: get_certificate_ids_for_round_def entries_at_def split: option.splits)
  then show ?thesis using maps_agreeD(4)[OF assms(1)] by force
qed

lemma gc_one_round_maps:
  assumes "maps_agree st" "\<forall>i c. map_of (certificates st) i = Some c \<longrightarrow> cert_round c \<noteq> 0"
  shows "maps_agree (gc_one_round e r st)"
    and "map_of (certificates (gc_one_round e r st)) i =
      (case map_of (certificates st) i of None \<Rightarrow> None
       | Some c \<Rightarrow> if cert_round c = r then None else Some c)"
    and "gc_round (gc_one_round e r st) = gc_round st"
    and "current_round (gc_one_round e r st) = current_round st"
proof -
  note F = fold_remove_maps[OF assms(1), of e "get_certificate_ids_for_round st r"]
  show "maps_agree (gc_one_round e r st)" "gc_round (gc_one_round e r st) = gc_round st"
    "current_round (gc_one_round e r st) = current_round st"
    using F by (simp_all add: gc_one_round_def)
  show "map_of (certificates (gc_one_round e r st)) i =
      (case map_of (certificates st) i of None \<Rightarrow> None
       | Some c \<Rightarrow> if cert_round c = r then None else Some c)"
  proof (cases "r = 0")
    case True
    then show ?thesis
      using assms(2)
      by (fastforce simp: gc_one_round_def get_certificate_ids_for_round_def split: option.splits)
  next
    case False
    then show ?thesis
      using F certificate_ids_for_round[OF assms(1) False]
      by (auto simp: gc_one_round_def split: option.splits)
  qed
qed

lemma gc_rounds_maps:
  "maps_agree st \<Longrightarrow> \<forall>i c. map_of (certificates st) i = Some c \<longrightarrow> cert_round c \<noteq> 0 \<Longrightarrow>
     maps_agree (fold (gc_one_round e) rs st) \<and>
     (\<forall>i. map_of (certificates (fold (gc_one_round e) rs st)) i =
       (case map_of (certificates st) i of None \<Rightarrow> None
        | Some c \<Rightarrow> if cert_round c \<in> set rs then None else Some c)) \<and>
     gc_round (fold (gc_one_round e) rs st) = gc_round st \<and>
     current_round (fold (gc_one_round e) rs st) = current_round st"
proof (induction rs arbitrary: st)
  case Nil
  then show ?case by (auto split: option.splits)
next
  case (Cons r rs)
  note G = gc_one_round_maps[OF Cons.prems, of e r]
  have "\<forall>i c. map_of (certificates (gc_one_round e r st)) i = Some c \<longrightarrow> cert_round c \<noteq> 0"
    unfolding G(2) using Cons.prems(2) by (auto split: option.splits if_splits)
  from Cons.IH[OF G(1) this] show ?case
    using G(2-4) by (auto split: option.splits)
qed

lemma maps_agree_gc_round: "maps_agree (st\<lparr>gc_round := g\<rparr>) \<longleftrightarrow> maps_agree st"
  by (simp add: maps_agree_def entries_at_def)

lemma garbage_collect_Ok:
  assumes "maps_agree st" "above_gc st" "garbage_collect_certificates e r st = Ok st'"
  shows "maps_agree st'" "above_gc st'" "current_round st' = current_round st"
    and "gc_round st' = max (gc_round st) (r - max_gc_rounds st)"
    and "map_of (certificates st') i = (case map_of (certificates st) i of None \<Rightarrow> None
         | Some c \<Rightarrow> if cert_round c \<le> gc_round st' then None else Some c)"
proof -
  let ?g = "saturating_sub r (max_gc_rounds st)"
  have pos: "\<forall>i c. map_of (certificates st) i = Some c \<longrightarrow> cert_round c \<noteq> 0"
    using assms(2) unfolding above_gc_def by force
  have "maps_agree st' \<and> above_gc st' \<and> current_round st' = current_round st \<and>
      gc_round st' = max (gc_round st) (r - max_gc_rounds st) \<and>
      (\<forall>i. map_of (certificates st') i = (case map_of (certificates st) i of None \<Rightarrow> None
         | Some c \<Rightarrow> if cert_round c \<le> gc_round st' then None else Some c))"
  proof (cases "?g > gc_round st")
    case True
    let ?rs = "[gc_round st ..< Suc ?g]"
    have st': "st' = (fold (gc_one_round e) ?rs (st\<lparr>gc_round := ?g\<rparr>))\<lparr>gc_round := ?g\<rparr>"
      using assms(3) True by (simp add: garbage_collect_certificates_def Let_def)
    have "maps_agree (st\<lparr>gc_round := ?g\<rparr>)" using assms(1) by (simp add: maps_agree_gc_round)
    from gc_rounds_maps[OF this, of e ?rs] pos have
      G: "maps_agree st'" "current_round st' = current_round st"
        "\<And>i. map_of (certificates st') i = (case map_of (certificates st) i of None \<Rightarrow> None
           | Some c \<Rightarrow> if cert_round c \<in> set ?rs then None else Some c)"
      unfolding st' by (simp_all add: maps_agree_gc_round)
    have "cert_round c \<in> set ?rs \<longleftrightarrow> cert_round c \<le> ?g" if "map_of (certificates st) i = Some c" for i c
      using assms(2) that unfolding above_gc_def by fastforce
    then show ?thesis
      using G True unfolding above_gc_def
      by (auto simp: st' saturating_sub_def split: option.splits if_splits)
  next
    case False
    then have "st' = st" "?g = gc_round st"
      using assms(3) by (auto simp: garbage_collect_certificates_def Let_def split: if_splits)
    then show ?thesis
      using assms(1,2) unfolding above_gc_def
      by (force simp: saturating_sub_def split: option.splits)
  qed
  then show "maps_agree st'" "above_gc st'" "current_round st' = current_round st"
    "gc_round st' = max (gc_round st) (r - max_gc_rounds st)"
    "map_of (certificates st') i = (case map_of (certificates st) i of None \<Rightarrow> None
         | Some c \<Rightarrow> if cert_round c \<le> gc_round st' then None else Some c)"
    by blast+
qed

lemma causally_complete_gc:
  assumes "maps_agree st" "above_gc st" "garbage_collect_certificates e r st = Ok st'"
    and "causally_complete e st c"
  shows "causally_complete e st' c"
  unfolding causally_complete_def
proof (intro impI)
  assume gc: "gc_round st' < cert_round c - 1"
  note G = garbage_collect_Ok[OF assms(1-3)]
  have "gc_round st < cert_round c - 1" using gc G(4) by simp
  then obtain pc ps where p: "get_committee_lookback_for_round (env_ledger e) (cert_round c - 1) = Ok pc"
      "map (map_of (certificates st)) (cert_previous_ids c) = map Some ps"
      "\<forall>p\<in>set ps. cert_round p = cert_round c - 1" "distinct (map cert_author ps)"
      "is_quorum_threshold_reached pc (map cert_author ps)"
    using assms(4) unfolding causally_complete_def by blast
  have "map_of (certificates st') i = map_of (certificates st) i" if "i \<in> set (cert_previous_ids c)" for i
  proof -
    have "map_of (certificates st) i \<in> Some ` set ps"
      using p(2) that by (metis image_eqI list.set_map)
    then show ?thesis using G(5)[of i] p(3) gc by auto
  qed
  then have "map (map_of (certificates st')) (cert_previous_ids c) = map Some ps"
    unfolding p(2)[symmetric] by simp
  then show "\<exists>pc ps. get_committee_lookback_for_round (env_ledger e) (cert_round c - 1) = Ok pc \<and>
      map (map_of (certificates st')) (cert_previous_ids c) = map Some ps \<and>
      (\<forall>p\<in>set ps. cert_round p = cert_round c - 1) \<and> distinct (map cert_author ps) \<and>
      is_quorum_threshold_reached pc (map cert_author ps)"
    using p by blast
qed

lemma garbage_collect_inv:
  assumes "storage_inv e st" "garbage_collect_certificates e r st = Ok st'"
  shows "storage_inv e st'"
proof -
  have ag: "maps_agree st" "above_gc st" "0 < current_round st"
    using assms(1) by (simp_all add: storage_inv_def)
  note G = garbage_collect_Ok[OF ag(1,2) assms(2)]
  have "causally_complete e st' c" if "map_of (certificates st') i = Some c" for i c
  proof (rule causally_complete_gc[OF ag(1,2) assms(2)])
    have "map_of (certificates st) i = Some c"
      using that G(5)[of i] by (auto split: option.splits if_splits)
    then show "causally_complete e st c" using assms(1) by (simp add: storage_inv_def)
  qed
  then show ?thesis using G(1-3) ag(3) by (simp add: storage_inv_def)
qed

subsection \<open>Insertion\<close>

lemma previous_loop:
  "try_fold (check_previous_certificate st r) is as = Ok bs \<Longrightarrow>
     \<exists>ps. bs = as @ map cert_author ps \<and> map (map_of (certificates st)) is = map Some ps \<and>
       (\<forall>p\<in>set ps. cert_round p = r) \<and> (distinct as \<longrightarrow> distinct bs)"
proof (induction "is" arbitrary: as)
  case (Cons i "is")
  obtain as1 where s: "check_previous_certificate st r i as = Ok as1"
      "try_fold (check_previous_certificate st r) is as1 = Ok bs"
    using Cons.prems by (auto simp: try_bind_Ok_iff)
  obtain p where p: "map_of (certificates st) i = Some p" "cert_round p = r"
      "cert_author p \<notin> set as" "as1 = as @ [cert_author p]"
    using s(1) by (auto simp: check_previous_certificate_def get_certificate_def result_simps
        split: option.splits)
  obtain ps where "bs = as1 @ map cert_author ps" "map (map_of (certificates st)) is = map Some ps"
      "\<forall>p\<in>set ps. cert_round p = r" "distinct as1 \<longrightarrow> distinct bs"
    using Cons.IH[OF s(2)] by blast
  then show ?case using p by (intro exI[of _ "p # ps"]) auto
qed simp

lemma check_previous_certificates_complete:
  assumes "check_previous_certificates e st (batch_header c) = Ok ()"
  shows "causally_complete e st c"
  unfolding causally_complete_def
proof (intro impI)
  assume "gc_round st < cert_round c - 1"
  then obtain pc authors where
    "get_committee_lookback_for_round (env_ledger e) (cert_round c - 1) = Ok pc"
    "try_fold (check_previous_certificate st (cert_round c - 1)) (cert_previous_ids c) [] = Ok authors"
    "is_quorum_threshold_reached pc authors"
    using assms
    by (auto simp: check_previous_certificates_def Let_def saturating_sub_def result_simps
        split: sum.splits)
  then show "\<exists>pc ps. get_committee_lookback_for_round (env_ledger e) (cert_round c - 1) = Ok pc \<and>
      map (map_of (certificates st)) (cert_previous_ids c) = map Some ps \<and>
      (\<forall>p\<in>set ps. cert_round p = cert_round c - 1) \<and> distinct (map cert_author ps) \<and>
      is_quorum_threshold_reached pc (map cert_author ps)"
    using previous_loop[of st "cert_round c - 1" "cert_previous_ids c" "[]" authors] by fastforce
qed

lemma check_certificate_Ok:
  assumes "check_certificate e now st c ts aborted = Ok missing"
  obtains lookback signers where
    "\<not> contains_certificate st (cert_id c)"
    "\<not> contains_certificate_in_round_from st (cert_round c) (cert_author c)"
    "\<not> contains_batch st (cert_id c)"
    "get_committee_lookback_for_round (env_ledger e) (cert_round c) = Ok lookback"
    "is_committee_member lookback (cert_author c)"
    "cert_timestamp c \<le> now + MAX_TIMESTAMP_DELTA"
    "find_missing_transmissions (env_service e) (transmissions st) (batch_header c) ts aborted = Ok missing"
    "causally_complete e st c"
    "try_fold (check_signer (env_crypto e) lookback) (signatures c) [cert_author c] = Ok signers"
    "is_quorum_threshold_reached lookback signers"
  using assms check_previous_certificates_complete[of e st c] that
  unfolding check_certificate_def check_batch_header_def check_timestamp_for_liveness_def
  by (auto simp: result_simps split: option.splits sum.splits if_splits)

lemma insert_certificate_Ok:
  assumes "insert_certificate e now c ts aborted st = Ok st'"
  obtains missing service where
    "gc_round st < cert_round c" "check_certificate e now st c ts aborted = Ok missing"
    "insert_transmissions (env_service e) (transmissions st) (cert_id c) (cert_transmission_ids c)
       aborted missing = Ok service"
    "st' = st\<lparr>
       rounds := entry_update [] (cert_round c) (iset_insert (cert_id c, cert_author c)) (rounds st),
       certificates := AList.update (cert_id c) c (certificates st),
       unprocessed_certificates := lru_pop (env_lru e) (cert_id c) (unprocessed_certificates st),
       batch_ids := AList.update (cert_id c) (cert_round c) (batch_ids st),
       transmissions := service\<rparr>"
  using assms that
  unfolding insert_certificate_def insert_certificate_atomic_def Let_def
  by (auto simp: result_simps)

lemma insert_certificate_parts:
  assumes "insert_certificate e now c ts aborted st = Ok st'"
  obtains missing where "check_certificate e now st c ts aborted = Ok missing"
    "insert_transmissions (env_service e) (transmissions st) (cert_id c) (cert_transmission_ids c)
       aborted missing = Ok (transmissions st')"
    "certificates st' = AList.update (cert_id c) c (certificates st)"
  by (rule insert_certificate_Ok[OF assms]) (rule that, simp_all)

lemma insert_maps_agree:
  assumes "maps_agree st" "map_of (certificates st) (cert_id c) = None"
    and "\<not> contains_certificate_in_round_from st (cert_round c) (cert_author c)"
    and "rounds st' = entry_update [] (cert_round c) (iset_insert (cert_id c, cert_author c)) (rounds st)"
    and "certificates st' = AList.update (cert_id c) c (certificates st)"
    and "batch_ids st' = AList.update (cert_id c) (cert_round c) (batch_ids st)"
  shows "maps_agree st'"
proof -
  note D = maps_agreeD[OF assms(1)]
  have new: "cert_author c \<notin> snd ` set (entries_at st (cert_round c))"
    using assms(3) by (force simp: contains_certificate_in_round_from_def entries_at_def
        split: option.splits)
  then have fresh: "(cert_id c, cert_author c) \<notin> set (entries_at st (cert_round c))" by force
  have E: "entries_at st' r = (if r = cert_round c then entries_at st r @ [(cert_id c, cert_author c)]
      else entries_at st r)" for r
    using fresh unfolding entries_at_def assms(4)
    by (auto simp: map_of_entry_update iset_insert_key_def split: option.splits)
  have "map_of (rounds st') r = Some es \<Longrightarrow> es \<noteq> []" for r es
    using assms(1) unfolding assms(4)
    by (auto simp: map_of_entry_update maps_agree_def split: if_splits)
  moreover have "distinct (map snd (entries_at st' r))" for r
    using E[of r] D(3)[of r] new by auto
  moreover have "(i, a) \<in> set (entries_at st' r) \<longleftrightarrow>
      (\<exists>c'. map_of (certificates st') i = Some c' \<and> cert_round c' = r \<and> cert_author c' = a)" for r i a
    using E[of r] D(4)[of i a r] assms(2) unfolding assms(5) by auto
  ultimately show ?thesis
    unfolding maps_agree_def using D(1,2,5-7) assms(4-6) by auto
qed

lemma causally_complete_insert:
  assumes "causally_complete e st c'" "map_of (certificates st) i = None"
    and "certificates st' = AList.update i c (certificates st)" "gc_round st' = gc_round st"
  shows "causally_complete e st' c'"
proof -
  have "map (map_of (certificates st')) is = map Some ps"
    if "map (map_of (certificates st)) is = map Some ps" for "is" ps
    using that assms(2) unfolding assms(3)
    by (auto simp: map_eq_conv list_eq_iff_nth_eq)
  then show ?thesis using assms(1,4) unfolding causally_complete_def by metis
qed

lemma insert_certificate_inv:
  assumes "storage_inv e st" "insert_certificate e now c ts aborted st = Ok st'"
  shows "storage_inv e st'"
proof -
  obtain missing service where gc: "gc_round st < cert_round c"
    and chk: "check_certificate e now st c ts aborted = Ok missing"
    and st': "st' = st\<lparr>
       rounds := entry_update [] (cert_round c) (iset_insert (cert_id c, cert_author c)) (rounds st),
       certificates := AList.update (cert_id c) c (certificates st),
       unprocessed_certificates := lru_pop (env_lru e) (cert_id c) (unprocessed_certificates st),
       batch_ids := AList.update (cert_id c) (cert_round c) (batch_ids st),
       transmissions := service\<rparr>"
    by (rule insert_certificate_Ok[OF assms(2)])
  have inv: "maps_agree st" "above_gc st" "0 < current_round st"
    using assms(1) by (simp_all add: storage_inv_def)
  have new: "map_of (certificates st) (cert_id c) = None"
      "\<not> contains_certificate_in_round_from st (cert_round c) (cert_author c)"
      "causally_complete e st c"
    using check_certificate_Ok[OF chk] by (auto simp: contains_certificate_def)
  have f: "certificates st' = AList.update (cert_id c) c (certificates st)" "gc_round st' = gc_round st"
    by (simp_all add: st')
  have "maps_agree st'" by (rule insert_maps_agree[OF inv(1) new(1,2)]) (simp_all add: st')
  moreover have "above_gc st'" using inv(2) gc unfolding above_gc_def f by simp
  moreover have "causally_complete e st' c'" if "map_of (certificates st') i = Some c'" for i c'
  proof (rule causally_complete_insert[OF _ new(1) f])
    show "causally_complete e st c'"
      using that new(3) assms(1) unfolding f(1) storage_inv_def by (auto split: if_splits)
  qed
  ultimately show ?thesis using inv(3) by (simp add: storage_inv_def st')
qed

lemma storage_inv_fields:
  assumes "storage_inv e st" "rounds st' = rounds st" "certificates st' = certificates st"
    "batch_ids st' = batch_ids st" "gc_round st' = gc_round st" "0 < current_round st'"
  shows "storage_inv e st'"
  using assms
  by (simp add: storage_inv_def maps_agree_def entries_at_def above_gc_def causally_complete_def)

lemma sync_certificate_inv:
  assumes "storage_inv e st" "sync_certificate_with_block e now block c unconfirmed st = Ok st'"
  shows "storage_inv e st'"
  using assms
  by (auto simp: sync_certificate_with_block_def result_simps split: if_splits
      intro: insert_certificate_inv)

lemma insert_unprocessed_inv:
  assumes "storage_inv e st" "insert_unprocessed_certificate e c st = Ok st'"
  shows "storage_inv e st'"
  using assms(2)
  by (intro storage_inv_fields[OF assms(1)])
    (use assms in \<open>auto simp: insert_unprocessed_certificate_def result_simps storage_inv_def\<close>)

lemma sync_round_inv: "storage_inv e st \<Longrightarrow> storage_inv e (sync_round_with_block r st)"
  by (rule storage_inv_fields[of e st]) (auto simp: sync_round_with_block_def Let_def storage_inv_def)

lemma sync_height_inv: "storage_inv e st \<Longrightarrow> storage_inv e (sync_height_with_block h st)"
  by (rule storage_inv_fields[of e st]) (auto simp: sync_height_with_block_def storage_inv_def)

lemma increment_inv:
  assumes "storage_inv e st"
  shows "storage_inv e (snd (increment_to_next_round e r st))"
proof -
  have "storage_inv e (st\<lparr>current_round := u64_add r 1\<rparr>)" if "\<not> u64_add r 1 < current_round st"
    by (rule storage_inv_fields[OF assms]) (use that assms in \<open>auto simp: storage_inv_def\<close>)
  then show ?thesis
    using assms sync_round_inv[OF assms]
    by (auto simp: increment_to_next_round_def Let_def split: sum.splits)
qed

lemma storage_new_inv:
  assumes "storage_new e service cache max_gc = Ok st"
  shows "storage_inv e st"
proof -
  define st0 where "st0 r = \<lparr>current_height = 0, current_round = r, gc_round = 0,
    max_gc_rounds = max_gc, rounds = [], unprocessed_certificates = cache, certificates = [],
    batch_ids = [], transmissions = service\<rparr>" for r
  obtain cm where "current_committee (env_ledger e) = Ok cm"
    using assms by (cases "current_committee (env_ledger e)") (auto simp: storage_new_def)
  then have "garbage_collect_certificates e (max (starting_round cm) 1)
      (st0 (max (starting_round cm) 1)) = Ok st"
    using assms by (simp add: storage_new_def st0_def Let_def split: if_splits)
  moreover have "storage_inv e (st0 (max (starting_round cm) 1))"
    by (simp add: st0_def storage_inv_def maps_agree_def above_gc_def entries_at_def)
  ultimately show ?thesis using garbage_collect_inv by blast
qed

subsection \<open>Signers\<close>

lemma signers_loop:
  "try_fold (check_signer cr lookback) sigs as = Ok bs \<Longrightarrow>
     bs = fold iset_insert (map (to_address cr) sigs) as \<and>
     (\<forall>s\<in>set sigs. is_committee_member lookback (to_address cr s))"
  by (induction sigs arbitrary: as) (auto simp: check_signer_def result_simps)

definition cert_signers :: "crypto \<Rightarrow> batch_certificate \<Rightarrow> address list" where
  "cert_signers cr c = fold iset_insert (map (to_address cr) (signatures c)) [cert_author c]"

lemma cert_signers_set [simp]:
  "set (cert_signers cr c) = insert (cert_author c) (to_address cr ` set (signatures c))"
  "distinct (cert_signers cr c)"
  by (simp_all add: cert_signers_def fold_iset_insert)

lemma check_certificate_signers:
  assumes "check_certificate e now st c ts aborted = Ok missing"
  obtains lookback where
    "get_committee_lookback_for_round (env_ledger e) (cert_round c) = Ok lookback"
    "is_quorum_threshold_reached lookback (cert_signers (env_crypto e) c)"
    "\<forall>a\<in>set (cert_signers (env_crypto e) c). is_committee_member lookback a"
  using check_certificate_Ok[OF assms] signers_loop that
  by (smt (verit) cert_signers_def cert_signers_set(1) image_iff insert_iff)

lemma combined_stake_perm:
  "set as = set bs \<Longrightarrow> distinct as \<Longrightarrow> distinct bs \<Longrightarrow> combined_stake c as = combined_stake c bs"
  unfolding combined_stake_sum by (simp add: sum_list_distinct_conv_sum_set)

lemma quorum_perm:
  "set as = set bs \<Longrightarrow> distinct as \<Longrightarrow> distinct bs \<Longrightarrow>
     is_quorum_threshold_reached c as = is_quorum_threshold_reached c bs"
  using combined_stake_perm unfolding is_quorum_threshold_reached_def by metis

lemma check_incoming_certificate_Ok_iff:
  "check_incoming_certificate e c = Ok () \<longleftrightarrow>
     (\<exists>lookback. get_committee_lookback_for_round (env_ledger e) (cert_round c) = Ok lookback \<and>
        is_quorum_threshold_reached lookback (cert_signers (env_crypto e) c) \<and>
        (\<forall>a\<in>set (cert_signers (env_crypto e) c). is_committee_member lookback a))"
proof -
  let ?s = "iset_insert (cert_author c)
    (iset_of_list (map (to_address (env_crypto e)) (signatures c)))"
  have "set ?s = set (cert_signers (env_crypto e) c)" "distinct ?s" by auto
  then have "is_quorum_threshold_reached l ?s =
      is_quorum_threshold_reached l (cert_signers (env_crypto e) c)" for l
    by (intro quorum_perm) simp_all
  then show ?thesis
    unfolding check_incoming_certificate_def Let_def by (auto simp: result_simps)
qed

section \<open>Certificates and their transmissions\<close>

text \<open>A certificate references a transmission it declares, or declared it aborted; and every
  reference comes from a stored certificate that declares the transmission.\<close>

definition references_exact ::
    "('s \<Rightarrow> transmission_id \<Rightarrow> field set) \<Rightarrow> ('s \<Rightarrow> transmission_id \<Rightarrow> field set)
      \<Rightarrow> ('s, 'u) storage \<Rightarrow> bool" where
  "references_exact refs arefs st \<longleftrightarrow>
     (\<forall>i c t. map_of (certificates st) i = Some c \<longrightarrow> t \<in> set (cert_transmission_ids c) \<longrightarrow>
        i \<in> refs (transmissions st) t \<union> arefs (transmissions st) t) \<and>
     (\<forall>i t. i \<in> refs (transmissions st) t \<union> arefs (transmissions st) t \<longrightarrow>
        (\<exists>c. map_of (certificates st) i = Some c \<and> t \<in> set (cert_transmission_ids c)))"

context storage_service
begin

text \<open>The checks leave nothing for the transmission store to miss: the insertion goes through.\<close>

lemma insert_certificate_returns:
  assumes "env_service e = ops" "inv (transmissions st)" "distinct (cert_transmission_ids c)"
    and "gc_round st < cert_round c" "check_certificate e now st c ts aborted = Ok missing"
  shows "\<exists>st'. insert_certificate e now c ts aborted st = Ok st' \<and> inv (transmissions st')"
proof -
  have "find_missing_transmissions ops (transmissions st) (batch_header c) ts aborted = Ok missing"
    using check_certificate_Ok[OF assms(5)] unfolding assms(1) by blast
  from find_then_insert[OF assms(2,3) this, of "cert_id c"] obtain service where
    "insert_transmissions ops (transmissions st) (cert_id c) (cert_transmission_ids c) aborted missing
       = Ok service" "inv service" by blast
  then show ?thesis
    using assms(1,4,5) by (simp add: insert_certificate_def insert_certificate_atomic_def Let_def)
qed

lemma insert_certificate_service:
  assumes "env_service e = ops" "inv (transmissions st)" "distinct (cert_transmission_ids c)"
    and "insert_certificate e now c ts aborted st = Ok st'"
  shows "inv (transmissions st')"
    and "t \<in> set (cert_transmission_ids c) \<Longrightarrow> contains_transmission ops (transmissions st') t"
proof -
  obtain missing where chk: "check_certificate e now st c ts aborted = Ok missing"
    and ins: "insert_transmissions ops (transmissions st) (cert_id c) (cert_transmission_ids c)
       aborted missing = Ok (transmissions st')"
    using insert_certificate_parts[OF assms(4)] unfolding assms(1) by blast
  have f: "find_missing_transmissions ops (transmissions st) (batch_header c) ts aborted = Ok missing"
    using check_certificate_Ok[OF chk] unfolding assms(1) by blast
  show "inv (transmissions st')"
    using find_then_insert[OF assms(2,3) f, of "cert_id c"] ins by auto
  show "contains_transmission ops (transmissions st') t" if "t \<in> set (cert_transmission_ids c)"
    using insert_contains[OF assms(2,3) f ins that] .
qed

lemma remove_certificate_service:
  "env_service e = ops \<Longrightarrow> inv (transmissions st) \<Longrightarrow>
     inv (transmissions (snd (remove_certificate e i st)))"
  by (auto simp: remove_certificate_def remove_inv split: option.splits)

lemma garbage_collect_service:
  fixes e :: "('s, 't, 'u) storage_env"
  assumes "env_service e = ops" "inv (transmissions st)"
    and "garbage_collect_certificates e r st = Ok st'"
  shows "inv (transmissions st')"
proof -
  have ids: "inv (transmissions (fold (\<lambda>i st. snd (remove_certificate e i st)) is st))"
    if "inv (transmissions st)" for "is" and st :: "('s, 'u) storage"
    using that by (induction "is" arbitrary: st) (auto simp: remove_certificate_service[OF assms(1)])
  have "inv (transmissions (fold (gc_one_round e) rs st))"
    if "inv (transmissions st)" for rs and st :: "('s, 'u) storage"
    using that by (induction rs arbitrary: st) (auto simp: gc_one_round_def ids)
  from this[of "st\<lparr>gc_round := g\<rparr>" rs for g rs] show ?thesis
    using assms(2,3)
    by (auto simp: garbage_collect_certificates_def Let_def simp del: upt_Suc split: if_splits)
qed

end

text \<open>A store that only passes over a transmission when it holds it: then the references are exact.\<close>

locale precise_storage_service = storage_service ops inv refs arefs
  for ops :: "('s, 't) service_ops" and inv refs arefs +
  assumes find_missing_precise:
    "inv s \<Longrightarrow> distinct (transmission_ids h) \<Longrightarrow>
     find_missing_transmissions ops s h ts aborted = Ok missing \<Longrightarrow> t \<in> set (transmission_ids h) \<Longrightarrow>
     refs s t \<noteq> {} \<or> contains_key missing t \<or> t \<in> set aborted"
begin

lemma insert_certificate_references:
  assumes "env_service e = ops" "inv (transmissions st)" "distinct (cert_transmission_ids c)"
    and "set aborted \<subseteq> set (cert_transmission_ids c)"
    and "insert_certificate e now c ts aborted st = Ok st'" "references_exact refs arefs st"
  shows "references_exact refs arefs st'"
proof -
  let ?service = "transmissions st'"
  obtain missing where chk: "check_certificate e now st c ts aborted = Ok missing"
    and ins: "insert_transmissions ops (transmissions st) (cert_id c) (cert_transmission_ids c)
       aborted missing = Ok ?service"
    and st': "certificates st' = AList.update (cert_id c) c (certificates st)"
    using insert_certificate_parts[OF assms(5)] unfolding assms(1) by blast
  have f: "find_missing_transmissions ops (transmissions st) (batch_header c) ts aborted = Ok missing"
    and new: "map_of (certificates st) (cert_id c) = None"
    using check_certificate_Ok[OF chk] unfolding assms(1) contains_certificate_def by blast+
  have r: "refs ?service t = (if t \<in> set (cert_transmission_ids c) \<and>
        (refs (transmissions st) t \<noteq> {} \<or> contains_key missing t)
        then insert (cert_id c) (refs (transmissions st) t) else refs (transmissions st) t)"
    and a: "arefs ?service t = (if t \<in> set aborted then insert (cert_id c) (arefs (transmissions st) t)
        else arefs (transmissions st) t)" for t
    using find_then_insert[OF assms(2,3) f, of "cert_id c"] ins by auto
  have "cert_id c \<in> refs ?service t \<union> arefs ?service t" if "t \<in> set (cert_transmission_ids c)" for t
    using find_missing_precise[OF assms(2,3) f that] that unfolding r a by auto
  moreover have "\<exists>c'. map_of (certificates st) i = Some c' \<and> t \<in> set (cert_transmission_ids c')"
    if "i \<in> refs ?service t \<union> arefs ?service t" "i \<noteq> cert_id c" for i t
    using that assms(6) unfolding r a references_exact_def by (auto split: if_splits)
  moreover have "t \<in> set (cert_transmission_ids c)" if "cert_id c \<in> refs ?service t \<union> arefs ?service t" for t
    using that new assms(4,6) unfolding r a references_exact_def by (fastforce split: if_splits)
  moreover have "i \<in> refs ?service t \<union> arefs ?service t"
    if "i \<in> refs (transmissions st) t \<union> arefs (transmissions st) t" for i t
    using that unfolding r a by auto
  ultimately show ?thesis
    using assms(6) unfolding references_exact_def st' by auto
qed

lemma remove_certificate_references:
  assumes "env_service e = ops" "inv (transmissions st)" "wf_map (certificates st)"
    and "references_exact refs arefs st"
  shows "references_exact refs arefs (snd (remove_certificate e i st))"
proof (cases "map_of (certificates st) i")
  case None
  then show ?thesis using assms(4) by (simp add: remove_certificate_def get_certificate_def)
next
  case (Some c)
  let ?st = "snd (remove_certificate e i st)"
  have "transmissions ?st = remove_transmissions ops (transmissions st) i (cert_transmission_ids c)"
    and certs: "map_of (certificates ?st) = (map_of (certificates st))(i := None)"
    using Some assms(1,3) by (simp_all add: remove_certificate_def get_certificate_def map_of_swap_remove)
  then have r: "refs (transmissions ?st) t = (if t \<in> set (cert_transmission_ids c)
        then refs (transmissions st) t - {i} else refs (transmissions st) t)"
    and a: "arefs (transmissions ?st) t = (if t \<in> set (cert_transmission_ids c)
        then arefs (transmissions st) t - {i} else arefs (transmissions st) t)" for t
    using remove_refs[OF assms(2)] remove_arefs[OF assms(2)] by simp_all
  show ?thesis
    using assms(4) Some unfolding references_exact_def certs r a by (fastforce split: if_splits)
qed

end

interpretation memory: precise_storage_service memory_ops memory_inv memory_refs memory_arefs
  by unfold_locales (rule memory_find_missing_sound, simp_all add: memory_ops_def)

text \<open>The exact references survive garbage collection.\<close>

context precise_storage_service
begin

lemma fold_remove_references:
  fixes e :: "('s, 't, 'u) storage_env"
  assumes "env_service e = ops"
  shows "inv (transmissions st) \<Longrightarrow> maps_agree st \<Longrightarrow> references_exact refs arefs st \<Longrightarrow>
    (let st' = fold (\<lambda>i st. snd (remove_certificate e i st)) ids st
     in inv (transmissions st') \<and> maps_agree st' \<and> references_exact refs arefs st')"
proof (induction ids arbitrary: st)
  case (Cons i ids)
  then show ?case
    using Cons.IH[of "snd (remove_certificate e i st)"] remove_certificate_service[OF assms]
      remove_certificate_maps(1)[of st e i] maps_agreeD(6)[of st]
      remove_certificate_references[OF assms, of st i]
    by simp
qed (simp add: Let_def)

lemma fold_gc_references:
  fixes e :: "('s, 't, 'u) storage_env"
  assumes "env_service e = ops"
  shows "inv (transmissions st) \<Longrightarrow> maps_agree st \<Longrightarrow> references_exact refs arefs st \<Longrightarrow>
    references_exact refs arefs (fold (gc_one_round e) rs st)"
proof (induction rs arbitrary: st)
  case (Cons r rs)
  then show ?case
    using fold_remove_references[OF assms, of st "get_certificate_ids_for_round st r"]
      Cons.IH[of "gc_one_round e r st"]
    by (simp add: gc_one_round_def Let_def)
qed simp

lemma garbage_collect_references:
  fixes e :: "('s, 't, 'u) storage_env"
  assumes "env_service e = ops" "inv (transmissions st)" "maps_agree st"
    and "references_exact refs arefs st" "garbage_collect_certificates e r st = Ok st'"
  shows "references_exact refs arefs st'"
proof -
  have gc: "references_exact refs arefs (x\<lparr>gc_round := g\<rparr>) = references_exact refs arefs x"
    for x :: "('s, 'u) storage" and g
    by (simp add: references_exact_def)
  have "references_exact refs arefs (fold (gc_one_round e) rs (st\<lparr>gc_round := g\<rparr>))" for rs g
    using assms(2-4) by (intro fold_gc_references[OF assms(1)]) (simp_all add: gc maps_agree_gc_round)
  then show ?thesis
    using assms(4,5)
    by (auto simp: garbage_collect_certificates_def Let_def gc simp del: upt_Suc split: if_splits)
qed

end

section \<open>Reachable storages\<close>

text \<open>Every way the code builds and changes a storage.\<close>

inductive storage_reachable :: "('s, 't, 'u) storage_env \<Rightarrow> ('s, 'u) storage \<Rightarrow> bool" for e where
  new: "storage_new e service cache max_gc = Ok st \<Longrightarrow> storage_reachable e st"
| gc: "storage_reachable e st \<Longrightarrow> garbage_collect_certificates e r st = Ok st' \<Longrightarrow>
    storage_reachable e st'"
| insert: "storage_reachable e st \<Longrightarrow> insert_certificate e now c ts aborted st = Ok st' \<Longrightarrow>
    storage_reachable e st'"
| sync: "storage_reachable e st \<Longrightarrow>
    sync_certificate_with_block e now block c unconfirmed st = Ok st' \<Longrightarrow> storage_reachable e st'"
| unprocessed: "storage_reachable e st \<Longrightarrow> insert_unprocessed_certificate e c st = Ok st' \<Longrightarrow>
    storage_reachable e st'"
| increment: "storage_reachable e st \<Longrightarrow> storage_reachable e (snd (increment_to_next_round e r st))"
| sync_round: "storage_reachable e st \<Longrightarrow> storage_reachable e (sync_round_with_block r st)"
| sync_height: "storage_reachable e st \<Longrightarrow> storage_reachable e (sync_height_with_block h st)"

lemma reachable_inv: "storage_reachable e st \<Longrightarrow> storage_inv e st"
  by (induction rule: storage_reachable.induct)
    (blast intro: storage_new_inv garbage_collect_inv insert_certificate_inv sync_certificate_inv
      insert_unprocessed_inv increment_inv sync_round_inv sync_height_inv)+

section \<open>A concrete storage\<close>

definition sample_ledger :: "'t ledger" where
  "sample_ledger = \<lparr>current_committee = Ok sample_committee, latest_round = 0,
     get_committee_lookback_for_round = (\<lambda>_. Ok sample_committee),
     ledger_contains_certificate = (\<lambda>_. Ok False), ledger_contains_transmission = (\<lambda>_. Ok False),
     ledger_get_solution = (\<lambda>_. Ok None), ledger_get_unconfirmed_transaction = (\<lambda>_. Ok None)\<rparr>"

definition sample_env :: "(nat memory_service, nat, unit) storage_env" where
  "sample_env = \<lparr>env_network = MainnetV0, env_crypto = sample_crypto, env_ledger = sample_ledger,
     env_service = memory_ops,
     env_lru = \<lparr>lru_put = (\<lambda>_ _ u. u), lru_get = (\<lambda>_ _. None), lru_pop = (\<lambda>_ u. u)\<rparr>\<rparr>"

definition sample_storage :: "(nat memory_service, unit) storage" where
  "sample_storage = \<lparr>current_height = 0, current_round = 1, gc_round = 0, max_gc_rounds = 100,
     rounds = [], unprocessed_certificates = (), certificates = [], batch_ids = [],
     transmissions = memory_new\<rparr>"

definition sample_cert :: batch_certificate where
  "sample_cert = sample_certificate 2 1 [Solution 1 2] [] [3, 4, 5]"

lemma sample_storage_new: "storage_new sample_env memory_new () 100 = Ok sample_storage"
  by (simp add: storage_new_def sample_env_def sample_ledger_def sample_committee_fields
      mainnet_max_certificates garbage_collect_certificates_def saturating_sub_def Let_def
      sample_storage_def)

lemma sample_cert_fields:
  "cert_author sample_cert = 6" "cert_round sample_cert = 1" "cert_previous_ids sample_cert = []"
  "cert_transmission_ids sample_cert = [Solution 1 2]" "cert_timestamp sample_cert = 100"
  "map (to_address sample_crypto) (signatures sample_cert) = [8, 10, 12]"
proof -
  note h = sample_header_valid[of 2 "[Solution 1 2]" "[]" 1]
  have v: "valid_transmission_id (Solution 1 2)" "(1 :: nat) \<le> u64_max"
    by (simp_all add: u64_max_def u128_max_def)
  show "cert_author sample_cert = 6" "cert_round sample_cert = 1" "cert_previous_ids sample_cert = []"
    "cert_transmission_ids sample_cert = [Solution 1 2]" "cert_timestamp sample_cert = 100"
    using h v by (simp_all add: sample_cert_def sample_certificate_def)
  show "map (to_address sample_crypto) (signatures sample_cert) = [8, 10, 12]"
    by (simp add: sample_cert_def sample_certificate_def sample_signature_address)
qed

lemma sample_quorum: "is_quorum_threshold_reached sample_committee [6, 8, 10, 12]"
  by (simp add: is_quorum_threshold_reached_def combined_stake_sum sample_committee_eval u64_max_def)

lemma sample_member: "a \<in> {6, 8, 10, 12} \<Longrightarrow> is_committee_member sample_committee a"
  by (auto simp: is_committee_member_def sample_committee_fields sample_members_def)

lemma sample_check_signers:
  "try_fold (check_signer sample_crypto sample_committee) (signatures sample_cert) [6] = Ok [6, 8, 10, 12]"
proof -
  obtain x y z where s: "signatures sample_cert = [x, y, z]"
    by (auto simp: sample_cert_def sample_certificate_def)
  then have "to_address sample_crypto x = 8" "to_address sample_crypto y = 10"
      "to_address sample_crypto z = 12"
    using sample_cert_fields(6) by simp_all
  then show ?thesis
    by (simp add: s check_signer_def sample_member iset_insert_key_def)
qed

lemma sample_check:
  "check_certificate sample_env 100 sample_storage sample_cert [(Solution 1 2, 50)] [] =
     Ok [(Solution 1 2, 50)]"
  using sample_check_signers sample_quorum sample_member[of 6]
  by (simp add: check_certificate_def check_batch_header_def sample_storage_def sample_env_def
      sample_ledger_def contains_certificate_def contains_certificate_in_round_from_def
      contains_batch_def sample_cert_fields check_timestamp_for_liveness_def MAX_TIMESTAMP_DELTA_def
      memory_ops_def memory_find_missing_def find_missing_def find_missing_step_def memory_new_def
      check_previous_certificates_def saturating_sub_def)

lemma sample_insert:
  "\<exists>st. insert_certificate sample_env 100 sample_cert [(Solution 1 2, 50)] [] sample_storage = Ok st"
proof -
  have "env_service sample_env = memory_ops" "memory_inv (transmissions sample_storage)"
    "distinct (cert_transmission_ids sample_cert)" "gc_round sample_storage < cert_round sample_cert"
    by (simp_all add: sample_env_def sample_storage_def memory_inv_def memory_new_def entries_ok_def
        sample_cert_fields)
  from memory.insert_certificate_returns[OF this sample_check] show ?thesis by blast
qed

lemma sample_reachable: "storage_reachable sample_env sample_storage"
  by (rule storage_reachable.new[OF sample_storage_new])

lemma sample_incoming: "check_incoming_certificate sample_env sample_cert = Ok ()"
proof -
  have "cert_signers sample_crypto sample_cert = [6, 8, 10, 12]"
    by (simp add: cert_signers_def sample_cert_fields iset_insert_key_def)
  then show ?thesis
    using sample_quorum sample_member
    by (simp add: check_incoming_certificate_Ok_iff sample_env_def sample_ledger_def)
qed

lemma insert_certificate_get:
  "insert_certificate e now c ts aborted st = Ok st' \<Longrightarrow> get_certificate st' (cert_id c) = Some c"
  by (erule insert_certificate_parts) (simp add: get_certificate_def)

section \<open>Properties\<close>

text \<open>C8. The storage invariant holds in every state the code can reach: the maps of certificates,
  batch IDs and rounds describe the same certificates, everything stored lies above the GC round, the
  current round is positive, and every certificate whose previous round is still kept has all its
  previous certificates in storage, from distinct authors who form a quorum of that round's
  committee.\<close>

theorem storage_invariant:
  assumes "storage_reachable e st"
  shows "maps_agree st \<and> above_gc st \<and> 0 < current_round st \<and>
    (\<forall>i c. map_of (certificates st) i = Some c \<longrightarrow> causally_complete e st c)"
  using reachable_inv[OF assms] by (simp add: storage_inv_def)

theorem storage_invariant_witness:
  "\<exists>st. storage_reachable sample_env st \<and> contains_certificate st (cert_id sample_cert) \<and>
     maps_agree st \<and> above_gc st"
proof -
  obtain st where st: "insert_certificate sample_env 100 sample_cert [(Solution 1 2, 50)] []
      sample_storage = Ok st"
    using sample_insert by blast
  have r: "storage_reachable sample_env st"
    by (rule storage_reachable.insert[OF sample_reachable st])
  have "contains_certificate st (cert_id sample_cert)"
    using insert_certificate_get[OF st] by (simp add: contains_certificate_def get_certificate_def)
  then show ?thesis using r storage_invariant[OF r] by blast
qed

text \<open>No equivocation in storage: a reachable storage holds at most one certificate of an author
  for a round, and looking that certificate up by round and author finds exactly it.\<close>

theorem one_certificate_per_author:
  assumes "storage_reachable e st" "get_certificate st i = Some c"
  shows "get_certificate_for_round_with_author st (cert_round c) (cert_author c) = Some c \<and>
    (\<forall>j c'. get_certificate st j = Some c' \<longrightarrow> cert_round c' = cert_round c \<longrightarrow>
       cert_author c' = cert_author c \<longrightarrow> c' = c \<and> j = i)"
proof -
  have "maps_agree st" using reachable_inv[OF assms(1)] by (simp add: storage_inv_def)
  note D = maps_agreeD[OF this]
  have c: "map_of (certificates st) i = Some c" using assms(2) by (simp add: get_certificate_def)
  have uniq: "j = i" if "map_of (certificates st) j = Some c'" "cert_round c' = cert_round c"
      "cert_author c' = cert_author c" for j c'
  proof -
    let ?es = "entries_at st (cert_round c)"
    have "(i, cert_author c) \<in> set ?es" "(j, cert_author c) \<in> set ?es"
      using D(4)[of i "cert_author c" "cert_round c"] D(4)[of j "cert_author c" "cert_round c"] c that
      by blast+
    then show "j = i" using D(3)[of "cert_round c"] by (auto simp: distinct_map dest: inj_onD[where x = "(i, cert_author c)" and y = "(j, cert_author c)"])
  qed
  have "find_map (\<lambda>(k, a). if a = cert_author c then map_of (certificates st) k else None) es = Some c"
    if "(i, cert_author c) \<in> set es" "set es \<subseteq> set (entries_at st (cert_round c))" for es
    using that
  proof (induction es)
    case (Cons p es)
    obtain k a where p: "p = (k, a)" by (cases p)
    then obtain c' where c': "map_of (certificates st) k = Some c'" "cert_round c' = cert_round c"
        "cert_author c' = a"
      using Cons.prems(2) D(4)[of k a "cert_round c"] by auto
    show ?case using Cons c' uniq[OF c'(1,2)] c p by (auto split: option.splits)
  qed simp
  from this[of "entries_at st (cert_round c)"] have
    "get_certificate_for_round_with_author st (cert_round c) (cert_author c) = Some c"
    using D(4)[of i "cert_author c" "cert_round c"] c
    by (auto simp: get_certificate_for_round_with_author_def entries_at_def split: option.splits)
  then show ?thesis using uniq c by (auto simp: get_certificate_def)
qed

theorem one_certificate_per_author_witness:
  "\<exists>st. insert_certificate sample_env 100 sample_cert [(Solution 1 2, 50)] [] sample_storage = Ok st \<and>
     get_certificate_for_round_with_author st 1 6 = Some sample_cert"
proof -
  obtain st where st: "insert_certificate sample_env 100 sample_cert [(Solution 1 2, 50)] []
      sample_storage = Ok st"
    using sample_insert by blast
  have r: "storage_reachable sample_env st"
    by (rule storage_reachable.insert[OF sample_reachable st])
  have "get_certificate st (cert_id sample_cert) = Some sample_cert"
    by (rule insert_certificate_get[OF st])
  from one_certificate_per_author[OF r this] show ?thesis using st by (simp add: sample_cert_fields)
qed

text \<open>C16. What an accepted certificate guarantees: it was new and above the GC round, its author and
  endorsers are members of the committee and form a quorum, its timestamp is not too far ahead, its
  causal past is complete; afterwards it is stored under its ID, its round and its author, and the
  other certificates are untouched.\<close>

theorem insert_certificate_effect:
  assumes "insert_certificate e now c ts aborted st = Ok st'"
  shows "get_certificate st (cert_id c) = None \<and> gc_round st < cert_round c \<and>
    cert_timestamp c \<le> now + MAX_TIMESTAMP_DELTA \<and> causally_complete e st c \<and>
    (\<exists>lookback. get_committee_lookback_for_round (env_ledger e) (cert_round c) = Ok lookback \<and>
       is_quorum_threshold_reached lookback (cert_signers (env_crypto e) c) \<and>
       (\<forall>a\<in>set (cert_signers (env_crypto e) c). is_committee_member lookback a)) \<and>
    get_round_for_batch st' (cert_id c) = Some (cert_round c) \<and>
    contains_certificate_in_round_from st' (cert_round c) (cert_author c) \<and>
    (\<forall>i. get_certificate st' i = (if i = cert_id c then Some c else get_certificate st i))"
proof -
  obtain missing service where gc: "gc_round st < cert_round c"
    and chk: "check_certificate e now st c ts aborted = Ok missing"
    and st': "st' = st\<lparr>
       rounds := entry_update [] (cert_round c) (iset_insert (cert_id c, cert_author c)) (rounds st),
       certificates := AList.update (cert_id c) c (certificates st),
       unprocessed_certificates := lru_pop (env_lru e) (cert_id c) (unprocessed_certificates st),
       batch_ids := AList.update (cert_id c) (cert_round c) (batch_ids st),
       transmissions := service\<rparr>"
    by (rule insert_certificate_Ok[OF assms])
  have "get_certificate st (cert_id c) = None" "cert_timestamp c \<le> now + MAX_TIMESTAMP_DELTA"
      "causally_complete e st c"
    using check_certificate_Ok[OF chk] by (auto simp: contains_certificate_def get_certificate_def)
  moreover have "\<exists>lookback. get_committee_lookback_for_round (env_ledger e) (cert_round c) = Ok lookback \<and>
       is_quorum_threshold_reached lookback (cert_signers (env_crypto e) c) \<and>
       (\<forall>a\<in>set (cert_signers (env_crypto e) c). is_committee_member lookback a)"
    using check_certificate_signers[OF chk] by blast
  moreover have "contains_certificate_in_round_from st' (cert_round c) (cert_author c)"
    by (force simp: st' contains_certificate_in_round_from_def map_of_entry_update)
  ultimately show ?thesis
    using gc by (simp add: st' get_round_for_batch_def get_certificate_def)
qed

theorem insert_certificate_effect_witness:
  "\<exists>st. insert_certificate sample_env 100 sample_cert [(Solution 1 2, 50)] [] sample_storage = Ok st \<and>
     get_certificate st (cert_id sample_cert) = Some sample_cert"
  using sample_insert insert_certificate_effect[of sample_env 100 sample_cert "[(Solution 1 2, 50)]" "[]"]
  by metis

text \<open>Two certificates of one round that pass \<open>check_incoming_certificate\<close> share signers with
  more stake than the faulty validators can hold: some correct validator signed both.  As a correct
  validator signs one batch per author and round, an author cannot get two batches certified.\<close>

theorem certificates_share_signers:
  assumes "check_incoming_certificate e c1 = Ok ()" "check_incoming_certificate e c2 = Ok ()"
    and "cert_round c1 = cert_round c2"
    and "get_committee_lookback_for_round (env_ledger e) (cert_round c1) = Ok lookback"
    and "wf_committee lookback" "2 * total_stake lookback \<le> u64_max"
  shows "max_faulty lookback <
    stake_of lookback (set (cert_signers (env_crypto e) c1) \<inter> set (cert_signers (env_crypto e) c2))"
proof -
  have q: "is_quorum_threshold_reached lookback (cert_signers (env_crypto e) c1)"
    "is_quorum_threshold_reached lookback (cert_signers (env_crypto e) c2)"
    using assms(1-4) by (auto simp: check_incoming_certificate_Ok_iff)
  show ?thesis
    using quorum_intersection_stake[OF assms(5,6) cert_signers_set(2) cert_signers_set(2) q]
      thresholds(1)[OF wf_committee_total_pos[OF assms(5)] assms(6)] by linarith
qed

theorem certificates_share_signers_witness:
  "max_faulty sample_committee <
    stake_of sample_committee (set (cert_signers sample_crypto sample_cert) \<inter>
      set (cert_signers sample_crypto sample_cert))"
proof -
  have "wf_committee sample_committee"
    using committee_new_wf[OF sample_committee_wf sample_committee_new] by blast
  moreover have "2 * total_stake sample_committee \<le> u64_max"
    by (simp add: sample_committee_fields u64_max_def)
  moreover have "get_committee_lookback_for_round (env_ledger sample_env) (cert_round sample_cert)
      = Ok sample_committee"
    by (simp add: sample_env_def sample_ledger_def)
  ultimately show ?thesis
    using certificates_share_signers[OF sample_incoming sample_incoming refl]
    by (simp add: sample_env_def)
qed

text \<open>C17. Garbage collection: it never moves the GC round back; when it succeeds it removes exactly
  the certificates at or below the new GC round, keeps the others with all lookups intact, and it
  fails only when asked to decrease the GC round, in which case nothing changes.\<close>

theorem garbage_collection_exact:
  assumes "storage_reachable e st"
  shows "case garbage_collect_certificates e r st of
      Inl err \<Rightarrow> r - max_gc_rounds st < gc_round st
    | Inr st' \<Rightarrow> gc_round st' = max (gc_round st) (r - max_gc_rounds st) \<and> gc_round st \<le> gc_round st' \<and>
        (\<forall>i. get_certificate st' i = (case get_certificate st i of None \<Rightarrow> None
           | Some c \<Rightarrow> if cert_round c \<le> gc_round st' then None else Some c)) \<and> storage_inv e st'"
proof (cases "garbage_collect_certificates e r st")
  case (Inl err)
  then show ?thesis
    by (auto simp: garbage_collect_certificates_def saturating_sub_def Let_def split: if_splits)
next
  case (Inr st')
  have inv: "storage_inv e st" by (rule reachable_inv[OF assms])
  then have ag: "maps_agree st" "above_gc st" by (simp_all add: storage_inv_def)
  show ?thesis
    using garbage_collect_Ok(4,5)[OF ag Inr] garbage_collect_inv[OF inv Inr] Inr
    by (simp add: get_certificate_def)
qed

theorem garbage_collection_exact_witness:
  "\<exists>st st'. insert_certificate sample_env 100 sample_cert [(Solution 1 2, 50)] [] sample_storage = Ok st \<and>
     garbage_collect_certificates sample_env 101 st = Ok st' \<and>
     get_certificate st' (cert_id sample_cert) = None"
proof -
  obtain st where st: "insert_certificate sample_env 100 sample_cert [(Solution 1 2, 50)] []
      sample_storage = Ok st"
    using sample_insert by blast
  have r: "storage_reachable sample_env st"
    by (rule storage_reachable.insert[OF sample_reachable st])
  have f: "gc_round st = 0" "max_gc_rounds st = 100"
    by (rule insert_certificate_Ok[OF st], simp add: sample_storage_def)+
  have g: "get_certificate st (cert_id sample_cert) = Some sample_cert"
    by (rule insert_certificate_get[OF st])
  obtain st' where st': "garbage_collect_certificates sample_env 101 st = Ok st'"
    using f by (simp add: garbage_collect_certificates_def saturating_sub_def Let_def)
  from garbage_collection_exact[OF r, of 101] have "get_certificate st' (cert_id sample_cert) = None"
    using g f st' by (simp add: sample_cert_fields)
  then show ?thesis using st st' by blast
qed

text \<open>With the in-memory store, certificates and transmissions stay in step under insertion and
  garbage collection: every transmission a stored certificate declares is kept for it (or recorded as
  aborted), and every reference belongs to a stored certificate that declares the transmission, so
  collected certificates leave nothing behind.\<close>

theorem transmissions_in_step:
  assumes "env_service e = memory_ops" "storage_reachable e st" "memory_inv (transmissions st)"
    and "references_exact memory_refs memory_arefs st"
  shows "(distinct (cert_transmission_ids c) \<longrightarrow> set aborted \<subseteq> set (cert_transmission_ids c) \<longrightarrow>
      insert_certificate e now c ts aborted st = Ok st' \<longrightarrow>
      memory_inv (transmissions st') \<and> references_exact memory_refs memory_arefs st') \<and>
    (garbage_collect_certificates e r st = Ok st' \<longrightarrow>
      memory_inv (transmissions st') \<and> references_exact memory_refs memory_arefs st')"
proof -
  have "maps_agree st" using reachable_inv[OF assms(2)] by (simp add: storage_inv_def)
  then show ?thesis
    using memory.insert_certificate_service(1)[OF assms(1,3)]
      memory.insert_certificate_references[OF assms(1,3) _ _ _ assms(4)]
      memory.garbage_collect_service[OF assms(1,3)]
      memory.garbage_collect_references[OF assms(1,3) _ assms(4)] by blast
qed

theorem transmissions_in_step_witness:
  "\<exists>st. insert_certificate sample_env 100 sample_cert [(Solution 1 2, 50)] [] sample_storage = Ok st \<and>
     references_exact memory_refs memory_arefs st"
proof -
  have i: "memory_inv (transmissions sample_storage)"
      "references_exact memory_refs memory_arefs sample_storage"
      "env_service sample_env = memory_ops"
    by (simp_all add: sample_storage_def memory_inv_def memory_new_def entries_ok_def
        references_exact_def memory_refs_def memory_arefs_def refs_of_def sample_env_def)
  show ?thesis
    using sample_insert transmissions_in_step[OF i(3) sample_reachable i(1,2), of sample_cert "[]"]
    by (auto simp: sample_cert_fields)
qed

end
