(* ===== verification/BFT_Order.thy ===== *)
theory BFT_Order
  imports Subdag DAG BFT_Storage
begin

text \<open>\<open>order_dag_with_dfs\<close> of \<open>node/bft/src/bft.rs\<close>: the certificates that an anchor commits.  Whatever the
  DAG and the storage contain, the traversal ends (certificates are stored under their own IDs), returns
  exactly the uncommitted certificates reachable from the anchor within GC range, gives the same result
  on every validator with the same committed prefix, and produces a map that \<open>Subdag::from\<close> accepts.\<close>

section \<open>Definitions\<close>

text \<open>What the traversal reads: the DAG, the storage and the ledger.\<close>

record ('s, 't, 'u) order_view =
  view_dag :: dag
  view_storage :: "('s, 'u) storage"
  view_ledger :: "'t ledger"

definition previous_certificate :: "('s, 't, 'u) order_view \<Rightarrow> u64 \<Rightarrow> field \<Rightarrow> batch_certificate option" where
  "previous_certificate v previous_round i =
     (case get_certificate_for_round_with_id (view_dag v) previous_round i of
        Some c \<Rightarrow> Some c
      | None \<Rightarrow> get_certificate (view_storage v) i)"

text \<open>A predecessor that is committed already is skipped; a ledger that cannot be read counts as not
  containing it.\<close>

definition is_settled :: "('s, 't, 'u) order_view \<Rightarrow> u64 \<Rightarrow> field \<Rightarrow> bool" where
  "is_settled v previous_round i \<longleftrightarrow>
     is_recently_committed (view_dag v) previous_round i \<or>
     unwrap_or False (ledger_contains_certificate (view_ledger v) i)"

definition order_prev :: "('s, 't, 'u) order_view \<Rightarrow> u64 \<Rightarrow> field \<Rightarrow> work \<Rightarrow> work result" where
  "order_prev v previous_round i = (\<lambda>(already_ordered, buffer).
     if i \<in> set already_ordered then Ok (already_ordered, buffer)
     else if is_settled v previous_round i then Ok (already_ordered, buffer)
     else case previous_certificate v previous_round i of
            None \<Rightarrow> bail ''Missing previous certificate''
          | Some p \<Rightarrow> Ok (iset_insert (cert_id p) already_ordered, p # buffer))"

definition order_step :: "('s, 't, 'u) order_view \<Rightarrow> batch_certificate \<Rightarrow> work \<Rightarrow> work result" where
  "order_step v c w =
     (let previous_round = saturating_sub (cert_round c) 1
      in if u64_add previous_round (max_gc_rounds (view_storage v)) \<le> last_committed_round (view_dag v)
         then Ok w
         else try_fold (order_prev v previous_round) (rev (cert_previous_ids c)) w)"

definition order_retain :: "('s, 't, 'u) order_view \<Rightarrow> commit_map \<Rightarrow> commit_map" where
  "order_retain v commit = map_retain (\<lambda>r _.
     u64_add r (max_gc_rounds (view_storage v)) > last_committed_round (view_dag v)) commit"

definition order_dag_with_dfs ::
    "('s, 't, 'u) order_view \<Rightarrow> batch_certificate \<Rightarrow> commit_map result option" where
  "order_dag_with_dfs v leader =
     map_option (\<lambda>res. try_bind res (\<lambda>commit. Ok (order_retain v commit)))
       (dfs_loop (order_step v) [] [] [leader])"

section \<open>Edges\<close>

definition in_range :: "('s, 't, 'u) order_view \<Rightarrow> u64 \<Rightarrow> bool" where
  "in_range v r \<longleftrightarrow> kept_round (max_gc_rounds (view_storage v)) (last_committed_round (view_dag v)) r"

definition order_edge :: "('s, 't, 'u) order_view \<Rightarrow> batch_certificate \<Rightarrow> batch_certificate \<Rightarrow> bool" where
  "order_edge v c p \<longleftrightarrow>
     (let previous_round = saturating_sub (cert_round c) 1
      in in_range v previous_round \<and>
         (\<exists>i\<in>set (cert_previous_ids c). \<not> is_settled v previous_round i \<and>
            previous_certificate v previous_round i = Some p))"

text \<open>Certificates are stored under their own IDs: the storage invariant and the lookup by ID in the DAG
  guarantee it.\<close>

definition keys_match :: "('s, 't, 'u) order_view \<Rightarrow> bool" where
  "keys_match v \<longleftrightarrow> (\<forall>i c. get_certificate (view_storage v) i = Some c \<longrightarrow> cert_id c = i)"

lemma previous_certificate_id:
  "keys_match v \<Longrightarrow> previous_certificate v r i = Some p \<Longrightarrow> cert_id p = i"
  by (auto simp: previous_certificate_def keys_match_def get_certificate_for_round_with_id_def
      split: option.splits dest: find_Some_set)

lemma order_fold:
  assumes "keys_match v"
  shows "try_fold (order_prev v r) ids (a, b) = Ok (a', b') \<Longrightarrow>
   \<exists>new. set a' = cert_id ` set new \<union> set a \<and> b' = new @ b \<and>
     (new \<noteq> [] \<longrightarrow> (\<exists>p\<in>set new. cert_id p \<notin> set a)) \<and>
     (\<forall>p\<in>set new. \<exists>i\<in>set ids. \<not> is_settled v r i \<and> previous_certificate v r i = Some p) \<and>
     (\<forall>p. (\<exists>i\<in>set ids. \<not> is_settled v r i \<and> previous_certificate v r i = Some p) \<longrightarrow> cert_id p \<in> set a')"
proof (induction ids arbitrary: a b)
  case (Cons i ids)
  obtain a1 b1 where s: "order_prev v r i (a, b) = Ok (a1, b1)"
      "try_fold (order_prev v r) ids (a1, b1) = Ok (a', b')"
    using Cons.prems by (auto simp: try_bind_Ok_iff)
  from Cons.IH[OF s(2)] obtain new where new: "set a' = cert_id ` set new \<union> set a1" "b' = new @ b1"
    "new \<noteq> [] \<longrightarrow> (\<exists>p\<in>set new. cert_id p \<notin> set a1)"
    "\<forall>p\<in>set new. \<exists>i\<in>set ids. \<not> is_settled v r i \<and> previous_certificate v r i = Some p"
    "\<forall>p. (\<exists>i\<in>set ids. \<not> is_settled v r i \<and> previous_certificate v r i = Some p) \<longrightarrow> cert_id p \<in> set a'"
    by blast
  show ?case
  proof (cases "i \<in> set a \<or> is_settled v r i")
    case True
    then have ab: "a1 = a" "b1 = b" using s(1) by (auto simp: order_prev_def split: if_splits)
    have "cert_id p \<in> set a'" if "\<not> is_settled v r i" "previous_certificate v r i = Some p" for p
      using that True new(1) ab(1) previous_certificate_id[OF assms that(2)] by simp
    then show ?thesis using new ab by (intro exI[of _ new]) auto
  next
    case False
    then obtain p where p: "previous_certificate v r i = Some p" "a1 = iset_insert (cert_id p) a" "b1 = p # b"
      using s(1) by (auto simp: order_prev_def split: if_splits option.splits)
    have id: "cert_id p = i" by (rule previous_certificate_id[OF assms p(1)])
    show ?thesis
    proof (intro exI[of _ "new @ [p]"] conjI)
      show "set a' = cert_id ` set (new @ [p]) \<union> set a" using new(1) p(2) by (auto simp: index_simps)
      show "\<forall>q. (\<exists>j\<in>set (i # ids). \<not> is_settled v r j \<and> previous_certificate v r j = Some q) \<longrightarrow> cert_id q \<in> set a'"
        using new(1,5) p(1,2) by (auto simp: index_simps)
    qed (use new(2,4) p False id in auto)
  qed
qed (intro exI[of _ "[]"]; simp)

lemma not_in_range:
  "in_range v r \<longleftrightarrow> \<not> u64_add r (max_gc_rounds (view_storage v)) \<le> last_committed_round (view_dag v)"
  by (auto simp: in_range_def kept_round_def)

lemma order_step_alt:
  "order_step v c w = (if in_range v (saturating_sub (cert_round c) 1)
     then try_fold (order_prev v (saturating_sub (cert_round c) 1)) (rev (cert_previous_ids c)) w else Ok w)"
  by (simp add: order_step_def not_in_range Let_def)

lemma order_step_new:
  assumes "keys_match v" "order_step v c (a, b) = Ok (a', b')"
  shows "\<exists>new. set a' = cert_id ` set new \<union> set a \<and> set b \<subseteq> set b' \<and> set b' \<subseteq> set new \<union> set b \<and>
     cert_id ` set new \<subseteq> cert_id ` set b' \<and> length b' \<le> length new + length b \<and>
     (new \<noteq> [] \<longrightarrow> (\<exists>p\<in>set new. cert_id p \<notin> set a)) \<and>
     (\<forall>p\<in>set new. order_edge v c p) \<and> (\<forall>p. order_edge v c p \<longrightarrow> cert_id p \<in> set a')"
proof (cases "in_range v (saturating_sub (cert_round c) 1)")
  case True
  let ?r = "saturating_sub (cert_round c) 1"
  have edge: "order_edge v c p \<longleftrightarrow> (\<exists>i\<in>set (rev (cert_previous_ids c)). \<not> is_settled v ?r i \<and>
      previous_certificate v ?r i = Some p)" for p
    using True by (simp add: order_edge_def Let_def)
  from True have "try_fold (order_prev v (saturating_sub (cert_round c) 1)) (rev (cert_previous_ids c)) (a, b) = Ok (a', b')"
    using assms(2) by (simp add: order_step_def not_in_range Let_def)
  note n = order_fold[OF assms(1) this, folded edge]
  show ?thesis
  proof (rule exE[OF n], elim conjE, intro exI conjI)
    fix new assume new: "b' = new @ b"
    show "cert_id ` set new \<subseteq> cert_id ` set b'" using new by auto
    show "length b' \<le> length new + length b" using new by simp
    show "set b \<subseteq> set b'" "set b' \<subseteq> set new \<union> set b" using new by auto
  qed
next
  case False
  then show ?thesis
    using assms(2) by (intro exI[of _ "[]"]) (auto simp: order_step_def order_edge_def not_in_range Let_def)
qed

lemma with_id_mem: "get_certificate_for_round_with_id d r i = Some p \<Longrightarrow> p \<in> dag_certs d r \<and> cert_id p = i"
  by (auto simp: get_certificate_for_round_with_id_def dag_certs_def split: option.splits dest!: find_Some_set
      simp del: set_map)

lemma previous_certificate_mem:
  "previous_certificate v r i = Some p \<Longrightarrow>
     p \<in> dag_certs (view_dag v) r \<or> map_of (certificates (view_storage v)) i = Some p"
  by (auto simp: previous_certificate_def get_certificate_def split: option.splits dest: with_id_mem)

definition view_certs :: "('s, 't, 'u) order_view \<Rightarrow> batch_certificate set" where
  "view_certs v = (\<Union>p\<in>set (graph (view_dag v)). set (vals (snd p))) \<union> set (vals (certificates (view_storage v)))"

lemma dag_certs_view: "dag_certs (view_dag v) r \<subseteq> view_certs v"
proof (cases "map_of (graph (view_dag v)) r")
  case (Some m)
  then have "(r, m) \<in> set (graph (view_dag v))" by (rule map_of_SomeD)
  then have "set (vals (snd (r, m))) \<subseteq> (\<Union>p\<in>set (graph (view_dag v)). set (vals (snd p)))" by (rule UN_upper)
  then have "set (vals m) \<subseteq> view_certs v" unfolding view_certs_def snd_conv by (rule le_supI1)
  then show ?thesis using Some by (simp add: dag_certs_def)
qed (simp add: dag_certs_def)

lemma previous_certificate_view: "previous_certificate v r i = Some p \<Longrightarrow> p \<in> view_certs v"
proof -
  assume "previous_certificate v r i = Some p"
  from previous_certificate_mem[OF this] show ?thesis
  proof
    assume "map_of (certificates (view_storage v)) i = Some p"
    then have "p \<in> set (vals (certificates (view_storage v)))" by (force dest: map_of_SomeD)
    then show ?thesis unfolding view_certs_def by blast
  qed (use dag_certs_view[of v r] in blast)
qed

lemma order_edge_view: "order_edge v c p \<Longrightarrow> p \<in> view_certs v"
  by (auto simp: order_edge_def Let_def dest: previous_certificate_view)

lemma order_targets_finite: "finite {p. \<exists>c. order_edge v c p}"
  by (rule finite_subset[of _ "view_certs v"]) (auto dest: order_edge_view simp: view_certs_def)

interpretation order: worklist order_step order_edge keys_match
  by unfold_locales (use order_step_new order_targets_finite in blast)+

section \<open>The result\<close>

lemma order_reach_view: "order.reach v {leader} \<subseteq> insert leader (view_certs v)"
  by (rule order.reach_least) (auto dest: order_edge_view)

lemma order_dag_Ok:
  "order_dag_with_dfs v leader = Some (Ok commit) \<longleftrightarrow>
     (\<exists>res. dfs_loop (order_step v) [] [] [leader] = Some (Ok res) \<and> commit = order_retain v res)"
  by (auto simp: order_dag_with_dfs_def try_bind_Ok_iff)

lemma map_of_order_retain:
  "wf_bmap m \<Longrightarrow> map_of (order_retain v m) r = (if in_range v r then map_of m r else None)"
  by (auto simp: order_retain_def map_of_retain in_range_def kept_round_def split: option.splits)

lemma order_retain_ok:
  assumes "commit_ok m"
  shows "commit_ok (order_retain v m)"
    "commit_certs (order_retain v m) = {c \<in> commit_certs m. in_range v (cert_round c)}"
proof -
  show ok: "commit_ok (order_retain v m)"
  proof (rule commit_okI)
    show "wf_bmap (order_retain v m)" using assms by (simp add: order_retain_def)
    fix r cs assume "map_of (order_retain v m) r = Some cs"
    then have "map_of m r = Some cs" using assms by (simp add: map_of_order_retain split: if_splits)
    then show "cs \<noteq> [] \<and> distinct (map cert_id cs) \<and> (\<forall>c\<in>set cs. cert_round c = r)"
      using commit_okD[OF assms] by blast
  qed
  show "commit_certs (order_retain v m) = {c \<in> commit_certs m. in_range v (cert_round c)}"
    using assms by (auto simp: commit_ok_mem[OF ok] commit_ok_mem[OF assms] map_of_order_retain split: if_splits)
qed

lemma order_dag_exact:
  assumes "order_dag_with_dfs v leader = Some (Ok commit)" "keys_match v"
    and "inj_on cert_id (insert leader (view_certs v))"
  shows "commit_ok commit"
    "commit_certs commit = {c. (order_edge v)\<^sup>*\<^sup>* leader c \<and> in_range v (cert_round c)}"
proof -
  obtain res where res: "dfs_loop (order_step v) [] [] [leader] = Some (Ok res)" "commit = order_retain v res"
    using assms(1) by (auto simp: order_dag_Ok)
  have "inj_on cert_id (order.reach v (set [leader]))"
    using inj_on_subset[OF assms(3) order_reach_view] by simp
  note t = order.traversal_correct[OF res(1) assms(2) this]
  show "commit_ok commit" using order_retain_ok(1)[OF t(1)] res(2) by simp
  show "commit_certs commit = {c. (order_edge v)\<^sup>*\<^sup>* leader c \<and> in_range v (cert_round c)}"
    unfolding res(2) order_retain_ok(2)[OF t(1)] t(2) by (auto simp: order.reach_def)
qed

subsection \<open>It returns\<close>

lemma order_dag_returns: "keys_match v \<Longrightarrow> \<exists>res. order_dag_with_dfs v leader = Some res"
  using order.terminates[of v "[]" "[]" "[leader]"] by (auto simp: order_dag_with_dfs_def)

text \<open>The causal past is available: every predecessor in range is settled or can be found.\<close>

definition past_available :: "('s, 't, 'u) order_view \<Rightarrow> batch_certificate \<Rightarrow> bool" where
  "past_available v c \<longleftrightarrow>
     (let r = saturating_sub (cert_round c) 1
      in in_range v r \<longrightarrow> (\<forall>i\<in>set (cert_previous_ids c). is_settled v r i \<or> previous_certificate v r i \<noteq> None))"

lemma order_prev_fold_Ok:
  "\<forall>i\<in>set ids. is_settled v r i \<or> previous_certificate v r i \<noteq> None \<Longrightarrow>
     \<exists>w'. try_fold (order_prev v r) ids w = Ok w'"
proof (induction ids arbitrary: w)
  case (Cons i ids)
  have "\<exists>w'. order_prev v r i w = Ok w'" using Cons.prems by (cases w) (auto simp: order_prev_def)
  then obtain w' where "order_prev v r i w = Ok w'" by blast
  then show ?case using Cons by simp
qed simp

lemma order_step_succeeds: "past_available v c \<Longrightarrow> \<exists>w'. order_step v c w = Ok w'"
  using order_prev_fold_Ok[of "rev (cert_previous_ids c)" v "saturating_sub (cert_round c) 1" w]
  by (auto simp: order_step_def past_available_def not_in_range Let_def)

lemma order_dag_succeeds:
  assumes "keys_match v" "\<forall>c. (order_edge v)\<^sup>*\<^sup>* leader c \<longrightarrow> past_available v c"
  shows "\<exists>commit. order_dag_with_dfs v leader = Some (Ok commit)"
proof -
  have "set b \<subseteq> order.reach v {leader} \<longrightarrow> (\<exists>commit. res = Ok commit)"
    if "dfs_loop (order_step v) commit a b = Some res" for commit a b res
    using that
  proof (induction rule: dfs_loop_induct)
    case (fail commit a c b err)
    have "False" if "c \<in> order.reach v {leader}"
      using that assms(2) order_step_succeeds[of v c "(a, b)"] fail by (auto simp: order.reach_def)
    then show ?case by auto
  next
    case (push commit a c b a' b' res)
    have "set b' \<subseteq> order.reach v {leader}" if "set (c # b) \<subseteq> order.reach v {leader}"
      using order_step_new[OF assms(1) push(1)] that order.reach_step[of c v "{leader}"] by auto
    then show ?case using push by blast
  qed simp
  moreover obtain res where "dfs_loop (order_step v) [] [] [leader] = Some res"
    using order.terminates[OF assms(1)] by blast
  ultimately obtain commit where "dfs_loop (order_step v) [] [] [leader] = Some (Ok commit)"
    using order.reach_start[of "{leader}" v] by force
  then show ?thesis by (auto simp: order_dag_Ok)
qed

subsection \<open>Rounds\<close>

text \<open>References go down by one round: \<open>check_batch_header\<close> ensures it for every stored certificate.\<close>

definition rounds_descend :: "('s, 't, 'u) order_view \<Rightarrow> batch_certificate \<Rightarrow> bool" where
  "rounds_descend v leader \<longleftrightarrow>
     (\<forall>c p. (order_edge v)\<^sup>*\<^sup>* leader c \<longrightarrow> order_edge v c p \<longrightarrow> cert_round c = Suc (cert_round p))"

lemma path_rounds:
  assumes "rounds_descend v leader" "(order_edge v)\<^sup>*\<^sup>* leader c"
  shows "cert_round c \<le> cert_round leader \<and> (cert_round c = cert_round leader \<longrightarrow> c = leader)"
  using assms(2)
proof (induction rule: rtranclp_induct)
  case (step c p)
  have "cert_round c = Suc (cert_round p)"
    using assms(1) step.hyps unfolding rounds_descend_def by blast
  then show ?case using step.IH by simp
qed simp

lemma in_range_mono:
  assumes "in_range v r" "r \<le> s" "s + max_gc_rounds (view_storage v) \<le> u64_max"
  shows "in_range v s"
  using assms by (simp add: in_range_def kept_round_def u64_add_exact)

subsection \<open>It is the same everywhere\<close>

text \<open>The uncommitted past of an anchor: what is reached from it by references to predecessors that are in GC range and not
  committed.\<close>

definition uncommitted_past :: "('s, 't, 'u) order_view \<Rightarrow> batch_certificate \<Rightarrow> batch_certificate set" where
  "uncommitted_past v leader = {c. (order_edge v)\<^sup>*\<^sup>* leader c}"

text \<open>Another validator has committed as much: the GC range is the same, and so is what is committed of the predecessors that
  the uncommitted past refers to.  What the two hold outside of it is not restricted.\<close>

definition same_prefix :: "('s, 't, 'u) order_view \<Rightarrow> ('s2, 't2, 'u2) order_view \<Rightarrow> batch_certificate \<Rightarrow> bool" where
  "same_prefix v v' leader \<longleftrightarrow> last_committed_round (view_dag v') = last_committed_round (view_dag v) \<and>
     max_gc_rounds (view_storage v') = max_gc_rounds (view_storage v) \<and>
     (\<forall>c\<in>uncommitted_past v leader. let r = saturating_sub (cert_round c) 1
        in in_range v r \<longrightarrow> (\<forall>i\<in>set (cert_previous_ids c). is_settled v' r i = is_settled v r i))"

definition holds_past :: "('s, 't, 'u) order_view \<Rightarrow> ('s2, 't2, 'u2) order_view \<Rightarrow> batch_certificate \<Rightarrow> bool" where
  "holds_past v' v leader \<longleftrightarrow>
     (\<forall>c\<in>uncommitted_past v leader. c \<noteq> leader \<longrightarrow> previous_certificate v' (cert_round c) (cert_id c) \<noteq> None)"

abbreviation missing_previous :: "'a result" where
  "missing_previous \<equiv> bail ''Missing previous certificate''"

lemma order_prev_follows:
  assumes "keys_match v" "keys_match v'" "inj_on cert_id (view_certs v \<union> view_certs v')" "is_settled v' r i = is_settled v r i"
    and "order_prev v r i w = Ok w1"
  shows "order_prev v' r i w = Ok w1 \<or> order_prev v' r i w = missing_previous \<and>
    (\<exists>p. \<not> is_settled v r i \<and> previous_certificate v r i = Some p \<and> previous_certificate v' r (cert_id p) = None)"
proof -
  obtain a b where w: "w = (a, b)" by (cases w)
  show ?thesis
  proof (cases "i \<in> set a \<or> is_settled v r i")
    case True
    then show ?thesis using assms(4,5) by (auto simp: order_prev_def w split: if_splits)
  next
    case False
    then obtain p where p: "previous_certificate v r i = Some p" "w1 = (iset_insert (cert_id p) a, p # b)"
      using assms(5) by (auto simp: order_prev_def w split: option.splits)
    note id = previous_certificate_id[OF assms(1) p(1)]
    show ?thesis
    proof (cases "previous_certificate v' r i")
      case None
      then show ?thesis using False assms(4) p(1) id by (auto simp: order_prev_def w)
    next
      case (Some p')
      have "cert_id p' = cert_id p" using previous_certificate_id[OF assms(2) Some] id by simp
      moreover have "p \<in> view_certs v" "p' \<in> view_certs v'" using previous_certificate_view p(1) Some by blast+
      ultimately have "p' = p" using assms(3) by (auto dest: inj_onD)
      then show ?thesis using False assms(4) p Some by (simp add: order_prev_def w)
    qed
  qed
qed

lemma uncommitted_past_step: "c \<in> uncommitted_past v leader \<Longrightarrow> order_edge v c p \<Longrightarrow> p \<in> uncommitted_past v leader"
  by (simp add: uncommitted_past_def rtranclp.rtrancl_into_rtrancl)

lemma order_step_follows:
  assumes "keys_match v" "keys_match v'" "inj_on cert_id (view_certs v \<union> view_certs v')" "same_prefix v v' leader" "c \<in> uncommitted_past v leader"
    and "order_step v c w = Ok w1"
  shows "order_step v' c w = Ok w1 \<or> order_step v' c w = missing_previous \<and>
    (\<exists>p. order_edge v c p \<and> previous_certificate v' (saturating_sub (cert_round c) 1) (cert_id p) = None)"
proof (cases "in_range v (saturating_sub (cert_round c) 1)")
  case True
  let ?r = "saturating_sub (cert_round c) 1"
  have "in_range v' ?r" using True assms(4) by (simp add: same_prefix_def in_range_def)
  moreover have "\<forall>i\<in>set (cert_previous_ids c). is_settled v' ?r i = is_settled v ?r i"
    using True assms(4,5) by (simp add: same_prefix_def Let_def)
  moreover have "try_fold (order_prev v' ?r) ids w = Ok w1 \<or> try_fold (order_prev v' ?r) ids w = missing_previous \<and>
      (\<exists>p. order_edge v c p \<and> previous_certificate v' ?r (cert_id p) = None)"
    if "set ids \<subseteq> set (cert_previous_ids c)" "\<forall>i\<in>set ids. is_settled v' ?r i = is_settled v ?r i"
      "try_fold (order_prev v ?r) ids w = Ok w1" for ids w
    using that
  proof (induction ids arbitrary: w)
    case (Cons i ids)
    obtain u where u: "order_prev v ?r i w = Ok u" "try_fold (order_prev v ?r) ids u = Ok w1"
      using Cons.prems(3) by (auto simp: try_bind_Ok_iff)
    have s: "is_settled v' ?r i = is_settled v ?r i" using Cons.prems(2) by simp
    from order_prev_follows[OF assms(1-3) s u(1)] show ?case
    proof (elim disjE conjE exE)
      assume "order_prev v' ?r i w = Ok u"
      then show ?thesis using Cons.IH[OF _ _ u(2)] Cons.prems(1,2) by simp
    next
      fix p assume "order_prev v' ?r i w = missing_previous" "\<not> is_settled v ?r i" "previous_certificate v ?r i = Some p"
        "previous_certificate v' ?r (cert_id p) = None"
      then show ?thesis using True Cons.prems(1) by (auto simp: order_edge_def Let_def)
    qed
  qed simp
  ultimately show ?thesis using assms(6) True by (simp add: order_step_alt)
next
  case False
  then have "\<not> in_range v' (saturating_sub (cert_round c) 1)" using assms(4) by (simp add: same_prefix_def in_range_def)
  then show ?thesis using assms(6) False by (simp add: order_step_alt)
qed

lemma order_loop_follows:
  assumes "keys_match v" "keys_match v'" "inj_on cert_id (view_certs v \<union> view_certs v')" "same_prefix v v' leader"
    and "dfs_loop (order_step v) commit a b = Some (Ok x)" "set b \<subseteq> uncommitted_past v leader"
  shows "dfs_loop (order_step v') commit a b = Some (Ok x) \<or> dfs_loop (order_step v') commit a b = Some missing_previous \<and>
    (\<exists>c p. c \<in> uncommitted_past v leader \<and> order_edge v c p \<and> previous_certificate v' (saturating_sub (cert_round c) 1) (cert_id p) = None)"
proof -
  have "res = Ok x \<Longrightarrow> set b \<subseteq> uncommitted_past v leader \<Longrightarrow>
      dfs_loop (order_step v') commit a b = Some (Ok x) \<or> dfs_loop (order_step v') commit a b = Some missing_previous \<and>
      (\<exists>c p. c \<in> uncommitted_past v leader \<and> order_edge v c p \<and> previous_certificate v' (saturating_sub (cert_round c) 1) (cert_id p) = None)"
    if "dfs_loop (order_step v) commit a b = Some res" for commit a b res
    using that
  proof (induction rule: dfs_loop_induct)
    case (push commit a c b a' b' res)
    have c: "c \<in> uncommitted_past v leader" using push.prems(2) by simp
    obtain new where "set b' \<subseteq> set new \<union> set b" "\<forall>p\<in>set new. order_edge v c p"
      using order_step_new[OF assms(1) push.hyps(1)] by blast
    then have "set b' \<subseteq> uncommitted_past v leader" using push.prems(2) uncommitted_past_step[OF c] by auto
    from push.IH[OF push.prems(1) this] order_step_follows[OF assms(1-4) c push.hyps(1)] c show ?case
      by (auto simp: dfs_loop_Cons)
  qed simp_all
  then show ?thesis using assms(5,6) by blast
qed

lemma subdag_parent:
  assumes "rounds_descend v leader" "(order_edge v)\<^sup>*\<^sup>* leader c" "c \<noteq> leader"
  obtains q where "(order_edge v)\<^sup>*\<^sup>* leader q" "order_edge v q c" "saturating_sub (cert_round q) 1 = cert_round c"
proof -
  obtain q where q: "(order_edge v)\<^sup>*\<^sup>* leader q" "order_edge v q c"
    using assms(2,3) by (auto elim: rtranclp.cases)
  then have "cert_round q = Suc (cert_round c)" using assms(1) unfolding rounds_descend_def by blast
  then show thesis using that[OF q] by (simp add: saturating_sub_def)
qed

lemma uncommitted_past_committed:
  assumes "order_dag_with_dfs v leader = Some (Ok m)" "keys_match v" "inj_on cert_id (insert leader (view_certs v))"
    and "rounds_descend v leader" "in_range v (cert_round leader)"
  shows "commit_certs m = uncommitted_past v leader"
proof -
  have "in_range v (cert_round c)" if path: "(order_edge v)\<^sup>*\<^sup>* leader c" for c
  proof (cases "c = leader")
    case False
    obtain q where "order_edge v q c" "saturating_sub (cert_round q) 1 = cert_round c" by (rule subdag_parent[OF assms(4) path False])
    then show ?thesis by (auto simp: order_edge_def Let_def)
  qed (simp add: assms(5))
  then show ?thesis unfolding order_dag_exact(2)[OF assms(1-3)] uncommitted_past_def by blast
qed

lemma order_dag_follows:
  assumes "keys_match v" "keys_match v'" "inj_on cert_id (insert leader (view_certs v \<union> view_certs v'))"
    and "rounds_descend v leader" "rounds_descend v' leader" "in_range v (cert_round leader)" "same_prefix v v' leader"
    and "order_dag_with_dfs v leader = Some (Ok m)"
  shows "order_dag_with_dfs v' leader = Some (if holds_past v' v leader then Ok m else missing_previous)"
proof -
  have inj: "inj_on cert_id (view_certs v \<union> view_certs v')" "inj_on cert_id (insert leader (view_certs v))"
    "inj_on cert_id (insert leader (view_certs v'))" by (rule inj_on_subset[OF assms(3)]; blast)+
  note m = uncommitted_past_committed[OF assms(8,1) inj(2) assms(4,6)]
  obtain x where x: "dfs_loop (order_step v) [] [] [leader] = Some (Ok x)" "m = order_retain v x"
    using assms(8) by (auto simp: order_dag_Ok)
  have retain: "order_retain v' = order_retain v" using assms(7) by (simp add: same_prefix_def order_retain_def fun_eq_iff)
  have "set [leader] \<subseteq> uncommitted_past v leader" by (simp add: uncommitted_past_def)
  from order_loop_follows[OF assms(1,2) inj(1) assms(7) x(1) this] show ?thesis
  proof (elim disjE conjE exE)
    assume "dfs_loop (order_step v') [] [] [leader] = Some (Ok x)"
    then have ok: "order_dag_with_dfs v' leader = Some (Ok m)" by (auto simp: order_dag_Ok x(2) retain)
    have "previous_certificate v' (cert_round c) (cert_id c) \<noteq> None" if c: "c \<in> commit_certs m" "c \<noteq> leader" for c
    proof -
      have "(order_edge v')\<^sup>*\<^sup>* leader c" using c(1) order_dag_exact(2)[OF ok assms(2) inj(3)] by blast
      from subdag_parent[OF assms(5) this c(2)] obtain q where
        q: "order_edge v' q c" "saturating_sub (cert_round q) 1 = cert_round c" .
      then obtain i where "previous_certificate v' (cert_round c) i = Some c" by (auto simp: order_edge_def Let_def)
      then show ?thesis using previous_certificate_id[OF assms(2)] by fastforce
    qed
    then show ?thesis using ok m by (simp add: holds_past_def)
  next
    fix c p assume f: "dfs_loop (order_step v') [] [] [leader] = Some missing_previous" "c \<in> uncommitted_past v leader"
      "order_edge v c p" "previous_certificate v' (saturating_sub (cert_round c) 1) (cert_id p) = None"
    have r: "cert_round c = Suc (cert_round p)" using assms(4) f(2,3) unfolding uncommitted_past_def rounds_descend_def by blast
    then have "p \<noteq> leader" using path_rounds[OF assms(4), of c] f(2) by (auto simp: uncommitted_past_def)
    moreover have "previous_certificate v' (cert_round p) (cert_id p) = None" using f(4) r by (simp add: saturating_sub_def)
    ultimately have "\<not> holds_past v' v leader" using uncommitted_past_step[OF f(2,3)] by (auto simp: holds_past_def)
    then show ?thesis using f(1) by (simp add: order_dag_with_dfs_def)
  qed
qed

subsection \<open>It forms a subdag\<close>

definition ordered_commit :: "('s, 't, 'u) order_view \<Rightarrow> batch_certificate \<Rightarrow> commit_map \<Rightarrow> bool" where
  "ordered_commit v leader commit \<longleftrightarrow>
     order_dag_with_dfs v leader = Some (Ok commit) \<and> keys_match v \<and>
     inj_on cert_id (insert leader (view_certs v)) \<and> rounds_descend v leader \<and>
     cert_round leader + max_gc_rounds (view_storage v) \<le> u64_max \<and> in_range v (cert_round leader)"

lemma ordered_commitD:
  assumes "ordered_commit v leader commit"
  shows "order_dag_with_dfs v leader = Some (Ok commit)" "keys_match v"
    "inj_on cert_id (insert leader (view_certs v))" "rounds_descend v leader"
    "cert_round leader + max_gc_rounds (view_storage v) \<le> u64_max" "in_range v (cert_round leader)"
  using assms by (simp_all add: ordered_commit_def)

lemma ordered_commit_ok: "ordered_commit v leader commit \<Longrightarrow> commit_ok commit"
  using order_dag_exact(1)[OF ordered_commitD(1-3)] .

lemma ordered_commit_mem:
  "ordered_commit v leader commit \<Longrightarrow>
     c \<in> commit_certs commit \<longleftrightarrow> (order_edge v)\<^sup>*\<^sup>* leader c \<and> in_range v (cert_round c)"
  using order_dag_exact(2)[OF ordered_commitD(1-3)] by blast

lemma ordered_commit_leader: "ordered_commit v leader commit \<Longrightarrow> leader \<in> commit_certs commit"
  using ordered_commitD(6) by (simp add: ordered_commit_mem)

lemma ordered_commit_parent:
  assumes oc: "ordered_commit v leader commit"
    and "(order_edge v)\<^sup>*\<^sup>* leader c" "order_edge v c p" "p \<in> commit_certs commit"
  shows "c \<in> commit_certs commit" "cert_round c = Suc (cert_round p)"
proof -
  note D = ordered_commitD[OF oc]
  show r: "cert_round c = Suc (cert_round p)" using D(4) assms(2,3) unfolding rounds_descend_def by blast
  have "cert_round c + max_gc_rounds (view_storage v) \<le> u64_max"
    using path_rounds[OF D(4) assms(2)] D(5) by linarith
  then show "c \<in> commit_certs commit"
    using in_range_mono[of v "cert_round p"] assms r by (simp add: ordered_commit_mem[OF oc])
qed

lemma ordered_commit_wf: "ordered_commit v leader commit \<Longrightarrow> wf_subdag commit"
  by (drule ordered_commit_ok) (auto simp: commit_ok_def wf_subdag_def)

lemma ordered_commit_inj:
  assumes oc: "ordered_commit v leader commit"
  shows "inj_on cert_id (commit_certs commit)"
proof (rule inj_on_subset[OF ordered_commitD(3)[OF oc]])
  show "commit_certs commit \<subseteq> insert leader (view_certs v)"
    using order_reach_view[of v leader] by (auto simp: ordered_commit_mem[OF oc] order.reach_def)
qed

lemma ordered_commit_edge:
  assumes oc: "ordered_commit v leader commit"
    and "order_edge v c p" "p \<in> commit_certs commit" "cert_round c = Suc (cert_round p)"
  shows "subdag_edge commit c p"
proof -
  obtain i where i: "i \<in> set (cert_previous_ids c)" "previous_certificate v (cert_round c - 1) i = Some p"
    using assms(2) by (auto simp: order_edge_def saturating_sub_def Let_def)
  have "cert_id p = i" by (rule previous_certificate_id[OF ordered_commitD(2)[OF oc] i(2)])
  moreover have "u64_sub (cert_round c) 1 = cert_round p" using assms(4) by (simp add: u64_sub_def)
  moreover obtain cs where "map_of commit (cert_round p) = Some cs" "p \<in> set cs"
    using assms(3) by (auto simp: commit_ok_mem[OF ordered_commit_ok[OF oc]])
  ultimately show ?thesis
    unfolding subdag_edge_def using subdag_find_iff[OF ordered_commit_wf[OF oc], of "cert_round p" i p] i(1) by force
qed

lemma ordered_commit_reach:
  assumes oc: "ordered_commit v leader commit" and "(order_edge v)\<^sup>*\<^sup>* leader c" "c \<in> commit_certs commit"
  shows "(subdag_edge commit)\<^sup>*\<^sup>* leader c"
  using assms(2,3)
proof (induction rule: rtranclp_induct)
  case (step c p)
  note p = ordered_commit_parent[OF oc step.hyps step.prems]
  show ?case
    using step.IH[OF p(1)] ordered_commit_edge[OF oc step.hyps(2) step.prems p(2)]
    by (rule rtranclp.rtrancl_into_rtrancl)
qed simp

lemma ordered_commit_keys:
  assumes oc: "ordered_commit v leader commit"
  shows "cert_round leader \<in> set (keys commit)" "r \<in> set (keys commit) \<Longrightarrow> r \<le> cert_round leader"
    "r \<in> set (keys commit) \<Longrightarrow> r < cert_round leader \<Longrightarrow> Suc r \<in> set (keys commit)"
proof -
  note k = commit_keys[OF ordered_commit_ok[OF oc]]
  show "cert_round leader \<in> set (keys commit)" unfolding k using ordered_commit_leader[OF oc] by blast
  show "r \<le> cert_round leader" if "r \<in> set (keys commit)"
    using that path_rounds[OF ordered_commitD(4)[OF oc]] unfolding k by (auto simp: ordered_commit_mem[OF oc])
  show "Suc r \<in> set (keys commit)" if rk: "r \<in> set (keys commit)" "r < cert_round leader"
  proof -
    obtain c where c: "c \<in> commit_certs commit" "cert_round c = r" "c \<noteq> leader"
      using rk unfolding k by blast
    then obtain q where "(order_edge v)\<^sup>*\<^sup>* leader q" "order_edge v q c"
      using ordered_commit_mem[OF oc, of c] rtranclp.cases[of "order_edge v" leader c] by blast
    from ordered_commit_parent[OF oc this c(1)] show ?thesis
      unfolding k using c(2) by (auto intro: rev_image_eqI)
  qed
qed

lemma wf_bmap_last: "wf_bmap m \<Longrightarrow> r \<in> set (keys m) \<Longrightarrow> r \<le> fst (last m)"
proof (induction m rule: rev_induct)
  case (snoc x xs)
  have "\<forall>k\<in>set (keys xs). k < fst x" using snoc.prems(1) by (simp add: wf_bmap_def sorted_wrt_append)
  then show ?case using snoc.prems(2) by (auto intro: less_imp_le)
qed simp

lemma consecutive_keys:
  assumes "sorted_wrt (<) (ks :: nat list)" "hi \<in> set ks" "\<And>r. r \<in> set ks \<Longrightarrow> r \<le> hi"
    and "\<And>r. r \<in> set ks \<Longrightarrow> r < hi \<Longrightarrow> Suc r \<in> set ks"
  shows "ks = [hd ks ..< hd ks + length ks]"
proof -
  obtain k rest where ks: "ks = k # rest" using assms(2) by (cases ks) auto
  have up: "k + n \<le> hi \<Longrightarrow> k + n \<in> set ks" for n
  proof (induction n)
    case (Suc n)
    then show ?case using assms(4)[of "k + n"] by simp
  qed (simp add: ks)
  have low: "k \<le> r" if "r \<in> set ks" for r using that assms(1) by (auto simp: ks)
  have "set ks = {k ..< Suc hi}"
  proof (intro set_eqI iffI)
    fix r assume "r \<in> {k ..< Suc hi}"
    then show "r \<in> set ks" using up[of "r - k"] by simp
  qed (use low assms(3) in \<open>auto simp: less_Suc_eq_le\<close>)
  then have e: "ks = [k ..< Suc hi]"
    using assms(1) by (intro sorted_distinct_set_unique) (simp_all add: strict_sorted_iff del: upt_Suc)
  have "length ks = Suc hi - k" by (subst e) (simp del: upt_Suc)
  moreover have "k \<le> hi" using low assms(2) by blast
  ultimately have "k + length ks = Suc hi" by simp
  moreover have "hd ks = k" by (simp add: ks)
  ultimately show ?thesis using e by metis
qed

lemma ordered_commit_last:
  assumes oc: "ordered_commit v leader commit"
  shows "commit \<noteq> []" "fst (last commit) = cert_round leader" "subdag_leaders commit = [leader]"
proof -
  note ok = ordered_commit_ok[OF oc] and k = ordered_commit_keys[OF oc]
  show ne: "commit \<noteq> []" using k(1) by auto
  have "fst (last commit) \<in> set (keys commit)" using ne by simp
  then show l: "fst (last commit) = cert_round leader"
    using k(2) wf_bmap_last[OF commit_ok_wf[OF ok] k(1)] by (simp add: le_antisym)
  let ?cs = "snd (last commit)"
  have "(cert_round leader, ?cs) \<in> set commit" using last_in_set[OF ne] l[symmetric] by simp
  then have m: "map_of commit (cert_round leader) = Some ?cs" using wf_bmap_mem[OF commit_ok_wf[OF ok]] by blast
  have "c = leader" if "c \<in> set ?cs" for c
  proof -
    have r: "cert_round c = cert_round leader" by (rule commit_okD(3)[OF ok m that])
    then have "c \<in> commit_certs commit" using that m by (simp add: commit_ok_mem[OF ok])
    then show ?thesis using path_rounds[OF ordered_commitD(4)[OF oc], of c] r by (simp add: ordered_commit_mem[OF oc])
  qed
  moreover have "?cs \<noteq> []" "distinct ?cs" using commit_okD(1,2)[OF ok m] by (simp_all add: distinct_map)
  ultimately have "?cs = [leader]"
  proof (cases ?cs)
    case (Cons x xs)
    then show ?thesis
      using \<open>\<And>c. c \<in> set ?cs \<Longrightarrow> c = leader\<close> \<open>distinct ?cs\<close> by (cases xs) auto
  qed simp
  then show "subdag_leaders commit = [leader]" using ne by (simp add: subdag_leaders_def)
qed

lemma ordered_commit_subdag:
  assumes oc: "ordered_commit v leader commit" and "even (cert_round leader)"
  shows "subdag_from commit = Ok commit \<longleftrightarrow> length commit \<le> MAX_GC_ROUNDS"
proof -
  note ok = ordered_commit_ok[OF oc] and k = ordered_commit_keys[OF oc] and l = ordered_commit_last[OF oc]
  have "sorted_wrt (<) (keys commit)" using commit_ok_wf[OF ok] by (simp add: wf_bmap_def)
  from consecutive_keys[OF this k] have "keys commit = [fst (hd commit) ..< fst (hd commit) + length commit]"
    using l(1) by (simp add: hd_map)
  moreover have "\<forall>r\<in>set (keys commit). r \<le> u64_max"
    using k(2) ordered_commitD(5)[OF oc] by (metis add_leD1 order_trans)
  ultimately have "is_sequential commit"
    using is_sequential_iff[OF commit_ok_wf[OF ok]] l(1) by blast
  moreover have "sanity_check_subdag_with_dfs commit"
    unfolding sanity_check_iff[OF ordered_commit_wf[OF oc] ordered_commit_inj[OF oc]] sanity.reach_def l(3)
    using ok ordered_commit_reach[OF oc] by (auto simp: ordered_commit_mem[OF oc])
  ultimately show ?thesis
    using l assms(2) by (simp add: subdag_from_Ok_iff subdag_MAX_ROUNDS_def anchor_round_def)
qed

section \<open>A chain of uncommitted certificates\<close>

text \<open>One validator's certificates for the rounds from \<open>lo\<close> to 202, each referring to the one before, none
  of them committed while the last committed round went up to 200; the certificate before them is.\<close>

definition chain_cert :: "u64 \<Rightarrow> batch_certificate" where
  "chain_cert r = plain_certificate r 7 r [r - 1]"

definition chain_dag :: "u64 \<Rightarrow> dag" where
  "chain_dag lo = \<lparr>graph = map (\<lambda>r. (r, [(7, chain_cert r)])) [lo ..< 203],
     recent_committed_ids = [(lo - 1, [lo - 1])], last_committed_round = 200\<rparr>"

definition chain_view :: "u64 \<Rightarrow> (nat memory_service, nat, unit) order_view" where
  "chain_view lo = \<lparr>view_dag = chain_dag lo, view_storage = sample_storage, view_ledger = sample_ledger\<rparr>"

lemma chain_cert_fields [simp]:
  "cert_id (chain_cert r) = r" "cert_round (chain_cert r) = r" "cert_previous_ids (chain_cert r) = [r - 1]"
  by (simp_all add: chain_cert_def)

lemma map_of_upt: "map_of (map (\<lambda>r. (r, f r)) [a ..< b]) r = (if a \<le> r \<and> r < b then Some (f r) else None)"
  by (simp add: map_of_map_restrict restrict_map_def)

lemma chain_graph:
  "map_of (graph (chain_dag lo)) r = (if lo \<le> r \<and> r < 203 then Some [(7, chain_cert r)] else None)"
  by (simp only: chain_dag_def dag.select_convs map_of_upt)

lemma chain_previous:
  "previous_certificate (chain_view lo) r i = (if lo \<le> r \<and> r < 203 \<and> i = r then Some (chain_cert r) else None)"
  by (simp add: previous_certificate_def get_certificate_for_round_with_id_def chain_view_def chain_graph
      get_certificate_def sample_storage_def)

lemma chain_settled: "is_settled (chain_view lo) r i \<longleftrightarrow> r = lo - 1 \<and> i = lo - 1"
  by (auto simp: is_settled_def chain_view_def chain_dag_def is_recently_committed_def sample_ledger_def
      unwrap_or_def)

lemma chain_range: "r + 100 \<le> u64_max \<Longrightarrow> in_range (chain_view lo) r \<longleftrightarrow> 101 \<le> r"
  by (auto simp: in_range_def kept_round_def chain_view_def chain_dag_def sample_storage_def u64_add_exact)

lemma chain_edge:
  assumes "r < 1000" "101 \<le> lo"
  shows "order_edge (chain_view lo) (chain_cert r) p \<longleftrightarrow> lo < r \<and> r \<le> 203 \<and> p = chain_cert (r - 1)"
proof -
  have "in_range (chain_view lo) (r - 1) \<longleftrightarrow> 101 \<le> r - 1"
    by (rule chain_range) (use assms in \<open>simp add: u64_max_def\<close>)
  then show ?thesis
    using assms(2) by (auto simp: order_edge_def Let_def saturating_sub_def chain_previous chain_settled)
qed

lemma chain_path:
  assumes "0 < lo" "lo \<le> 202" "\<And>r p. lo \<le> r \<Longrightarrow> r \<le> 202 \<Longrightarrow> order_edge v (chain_cert r) p \<longleftrightarrow> lo < r \<and> p = chain_cert (r - 1)"
  shows "(order_edge v)\<^sup>*\<^sup>* (chain_cert 202) c \<longleftrightarrow> (\<exists>r. lo \<le> r \<and> r \<le> 202 \<and> c = chain_cert r)"
proof
  assume "(order_edge v)\<^sup>*\<^sup>* (chain_cert 202) c"
  then show "\<exists>r. lo \<le> r \<and> r \<le> 202 \<and> c = chain_cert r"
  proof (induction rule: rtranclp_induct)
    case (step c p)
    then obtain r where r: "lo \<le> r" "r \<le> 202" "c = chain_cert r" by blast
    then have "lo < r" "p = chain_cert (r - 1)" using step.hyps(2) assms(3)[of r p] by simp_all
    then show ?case using r by (intro exI[of _ "r - 1"]) auto
  qed (use assms(2) in auto)
next
  assume "\<exists>r. lo \<le> r \<and> r \<le> 202 \<and> c = chain_cert r"
  then obtain r where r: "lo \<le> r" "r \<le> 202" "c = chain_cert r" by blast
  have "lo \<le> 202 - n \<Longrightarrow> (order_edge v)\<^sup>*\<^sup>* (chain_cert 202) (chain_cert (202 - n))" for n
  proof (induction n)
    case (Suc n)
    have "order_edge v (chain_cert (202 - n)) (chain_cert (202 - Suc n))"
      using Suc.prems assms(1,2) by (subst assms(3)) auto
    moreover have "(order_edge v)\<^sup>*\<^sup>* (chain_cert 202) (chain_cert (202 - n))"
      using Suc by simp
    ultimately show ?case by (rule rtranclp.rtrancl_into_rtrancl[rotated])
  qed simp
  from this[of "202 - r"] show "(order_edge v)\<^sup>*\<^sup>* (chain_cert 202) c" using r by simp
qed

lemma chain_reach:
  assumes "101 \<le> lo" "lo \<le> 202"
  shows "(order_edge (chain_view lo))\<^sup>*\<^sup>* (chain_cert 202) c \<longleftrightarrow> (\<exists>r. lo \<le> r \<and> r \<le> 202 \<and> c = chain_cert r)"
  using assms by (intro chain_path) (simp_all add: chain_edge)

lemma chain_past:
  assumes "101 \<le> lo" "lo \<le> 202" "(order_edge (chain_view lo))\<^sup>*\<^sup>* (chain_cert 202) c"
  shows "past_available (chain_view lo) c"
proof -
  obtain r where "lo \<le> r" "r \<le> 202" "c = chain_cert r" using assms(3) chain_reach[OF assms(1,2)] by blast
  then show ?thesis
    by (auto simp: past_available_def Let_def saturating_sub_def chain_previous chain_settled)
qed

lemma chain_match: "keys_match (chain_view lo)"
  by (simp add: keys_match_def chain_view_def get_certificate_def sample_storage_def)

lemma chain_ordered:
  assumes "101 \<le> lo" "lo \<le> 202"
  shows "\<exists>commit. ordered_commit (chain_view lo) (chain_cert 202) commit"
proof -
  obtain commit where c: "order_dag_with_dfs (chain_view lo) (chain_cert 202) = Some (Ok commit)"
    using order_dag_succeeds[OF chain_match] chain_past[OF assms] by blast
  have "(\<Union>p\<in>set (map (\<lambda>r. (r, [(7 :: nat, chain_cert r)])) xs). set (vals (snd p))) \<subseteq> range chain_cert" for xs
    by auto
  then have "view_certs (chain_view lo) \<subseteq> range chain_cert"
    by (simp only: view_certs_def chain_view_def chain_dag_def sample_storage_def order_view.select_convs
        dag.select_convs storage.select_convs list.set list.map Un_empty_right)
  moreover have "inj_on cert_id (range chain_cert)" by (auto simp: inj_on_def)
  ultimately have "inj_on cert_id (insert (chain_cert 202) (view_certs (chain_view lo)))"
    by (meson inj_on_subset insert_subset rangeI)
  moreover have "rounds_descend (chain_view lo) (chain_cert 202)"
    unfolding rounds_descend_def chain_reach[OF assms] using assms by (auto simp: chain_edge)
  moreover have "in_range (chain_view lo) 202" by (subst chain_range) (simp_all add: u64_max_def)
  moreover have "max_gc_rounds (view_storage (chain_view lo)) = 100"
    by (simp add: chain_view_def sample_storage_def)
  ultimately show ?thesis using chain_match c by (auto simp: ordered_commit_def u64_max_def)
qed

text \<open>Two validators with this chain.  One still stores the certificates below it; the other has lost all that is committed or out
  of GC range, and the IDs of committed certificates that are out of range.\<close>

definition full_view :: "u64 \<Rightarrow> (nat memory_service, nat, unit) order_view" where
  "full_view lo = (chain_view lo)\<lparr>view_storage := sample_storage\<lparr>certificates := map (\<lambda>r. (r, chain_cert r)) [lo - 51 ..< 203]\<rparr>\<rparr>"

definition pruned_view :: "u64 \<Rightarrow> (nat memory_service, nat, unit) order_view" where
  "pruned_view lo = (chain_view lo)\<lparr>view_dag := (chain_dag lo)\<lparr>recent_committed_ids := if lo \<le> 101 then [] else [(lo - 1, [lo - 1])]\<rparr>\<rparr>"

lemma view_ranges:
  "in_range (full_view lo) = in_range (chain_view lo)" "in_range (pruned_view lo) = in_range (chain_view lo)"
  by (simp_all add: full_view_def pruned_view_def chain_view_def in_range_def fun_eq_iff)

lemma view_settled:
  "is_settled (full_view lo) r i \<longleftrightarrow> r = lo - 1 \<and> i = lo - 1"
  "is_settled (pruned_view lo) r i \<longleftrightarrow> \<not> lo \<le> 101 \<and> r = lo - 1 \<and> i = lo - 1"
  by (auto simp: full_view_def pruned_view_def is_settled_def chain_view_def chain_dag_def is_recently_committed_def
      sample_ledger_def unwrap_or_def simp del: upt_rec_numeral)

lemma view_storage_get:
  "get_certificate (view_storage (full_view lo)) i = (if lo - 51 \<le> i \<and> i < 203 then Some (chain_cert i) else None)"
  "get_certificate (view_storage (pruned_view lo)) i = None"
  using map_of_upt[of chain_cert "lo - 51" 203 i]
  by (simp_all add: get_certificate_def full_view_def pruned_view_def chain_view_def sample_storage_def del: map_of_map upt_rec_numeral)

lemma view_dag_graph:
  "graph (view_dag (full_view lo)) = graph (chain_dag lo)" "graph (view_dag (pruned_view lo)) = graph (chain_dag lo)"
  by (simp_all add: full_view_def pruned_view_def chain_view_def)

lemma view_previous:
  "previous_certificate (full_view lo) r i =
     (if lo \<le> r \<and> r < 203 \<and> i = r \<or> lo - 51 \<le> i \<and> i < 203 then Some (chain_cert i) else None)"
  "previous_certificate (pruned_view lo) r i = (if lo \<le> r \<and> r < 203 \<and> i = r then Some (chain_cert r) else None)"
  by (auto simp: previous_certificate_def get_certificate_for_round_with_id_def view_dag_graph view_storage_get chain_graph)

lemma view_edges:
  assumes "101 \<le> lo" "lo \<le> r" "r \<le> 202"
  shows "order_edge (full_view lo) (chain_cert r) p \<longleftrightarrow> lo < r \<and> p = chain_cert (r - 1)"
    "order_edge (pruned_view lo) (chain_cert r) p \<longleftrightarrow> lo < r \<and> p = chain_cert (r - 1)"
proof -
  have "in_range (chain_view lo) (r - 1) \<longleftrightarrow> 101 \<le> r - 1" by (rule chain_range) (use assms in \<open>simp add: u64_max_def\<close>)
  then show "order_edge (full_view lo) (chain_cert r) p \<longleftrightarrow> lo < r \<and> p = chain_cert (r - 1)"
    "order_edge (pruned_view lo) (chain_cert r) p \<longleftrightarrow> lo < r \<and> p = chain_cert (r - 1)"
    using assms by (auto simp: order_edge_def Let_def saturating_sub_def view_ranges view_settled view_previous)
qed

lemma view_paths:
  assumes "101 \<le> lo" "lo \<le> 202"
  shows "(order_edge (full_view lo))\<^sup>*\<^sup>* (chain_cert 202) c \<longleftrightarrow> (\<exists>r. lo \<le> r \<and> r \<le> 202 \<and> c = chain_cert r)"
    "(order_edge (pruned_view lo))\<^sup>*\<^sup>* (chain_cert 202) c \<longleftrightarrow> (\<exists>r. lo \<le> r \<and> r \<le> 202 \<and> c = chain_cert r)"
  by (rule chain_path; use assms view_edges[OF assms(1)] in simp)+

lemma view_certs_chain: "view_certs (full_view lo) \<union> view_certs (pruned_view lo) \<subseteq> range chain_cert"
proof -
  have "(\<Union>p\<in>set (map (\<lambda>r. (r, [(7 :: nat, chain_cert r)])) xs). set (vals (snd p))) \<subseteq> range chain_cert"
    "set (vals (map (\<lambda>r. (r, chain_cert r)) xs)) \<subseteq> range chain_cert" for xs by auto
  then show ?thesis
    by (simp only: view_certs_def view_dag_graph full_view_def pruned_view_def chain_view_def chain_dag_def sample_storage_def
        order_view.simps dag.simps storage.simps list.set list.map Un_empty_right Un_subset_iff)
qed

lemma view_facts:
  assumes "101 \<le> lo" "lo \<le> 202"
  shows "keys_match (full_view lo)" "keys_match (pruned_view lo)"
    "inj_on cert_id (insert (chain_cert 202) (view_certs (full_view lo) \<union> view_certs (pruned_view lo)))"
    "rounds_descend (full_view lo) (chain_cert 202)" "rounds_descend (pruned_view lo) (chain_cert 202)"
    "in_range (full_view lo) (cert_round (chain_cert 202))"
    "\<exists>m. order_dag_with_dfs (full_view lo) (chain_cert 202) = Some (Ok m)"
proof -
  show km: "keys_match (full_view lo)" "keys_match (pruned_view lo)"
    by (auto simp: keys_match_def view_storage_get split: if_splits)
  have "inj_on cert_id (range chain_cert)" by (auto simp: inj_on_def)
  then show "inj_on cert_id (insert (chain_cert 202) (view_certs (full_view lo) \<union> view_certs (pruned_view lo)))"
    by (rule inj_on_subset) (use view_certs_chain[of lo] in blast)
  show "rounds_descend (full_view lo) (chain_cert 202)" "rounds_descend (pruned_view lo) (chain_cert 202)"
    unfolding rounds_descend_def view_paths[OF assms(1,2)] by (auto simp: view_edges[OF assms(1)])
  show "in_range (full_view lo) (cert_round (chain_cert 202))" by (simp add: view_ranges chain_range u64_max_def)
  have "past_available (full_view lo) c" if c: "(order_edge (full_view lo))\<^sup>*\<^sup>* (chain_cert 202) c" for c
    using c assms unfolding view_paths(1)[OF assms(1,2)] by (auto simp: past_available_def Let_def saturating_sub_def view_previous)
  then show "\<exists>m. order_dag_with_dfs (full_view lo) (chain_cert 202) = Some (Ok m)" by (intro order_dag_succeeds km) blast
qed

lemma view_past:
  assumes "101 \<le> lo" "lo \<le> 202"
  shows "uncommitted_past (full_view lo) (chain_cert 202) = chain_cert ` {lo..202}"
    "same_prefix (full_view lo) (pruned_view lo) (chain_cert 202)" "holds_past (pruned_view lo) (full_view lo) (chain_cert 202)"
proof -
  show u: "uncommitted_past (full_view lo) (chain_cert 202) = chain_cert ` {lo..202}"
    unfolding uncommitted_past_def view_paths(1)[OF assms] by auto
  show "holds_past (pruned_view lo) (full_view lo) (chain_cert 202)" by (auto simp: holds_past_def u view_previous)
  have "is_settled (pruned_view lo) (r - 1) (r - 1) = is_settled (full_view lo) (r - 1) (r - 1)"
    if "lo \<le> r" "r \<le> 202" "in_range (full_view lo) (r - 1)" for r
  proof -
    have "101 \<le> r - 1" using that(2,3) chain_range[of "r - 1" lo] by (simp add: view_ranges u64_max_def)
    then show ?thesis by (auto simp: view_settled)
  qed
  moreover have "last_committed_round (view_dag (pruned_view lo)) = last_committed_round (view_dag (full_view lo))"
    "max_gc_rounds (view_storage (pruned_view lo)) = max_gc_rounds (view_storage (full_view lo))"
    by (simp_all add: full_view_def pruned_view_def chain_view_def)
  ultimately show "same_prefix (full_view lo) (pruned_view lo) (chain_cert 202)"
    by (auto simp: same_prefix_def u Let_def saturating_sub_def)
qed

section \<open>Properties\<close>

text \<open>C11. Ordering an anchor always comes to an end: on every storage the node can reach, whatever the DAG
  holds, the traversal returns; and when every predecessor it meets within GC range is committed already or
  available, it succeeds.\<close>

theorem order_dag_total:
  assumes "storage_reachable e (view_storage v)"
  shows "\<exists>res. order_dag_with_dfs v leader = Some res \<and>
    ((\<forall>c. (order_edge v)\<^sup>*\<^sup>* leader c \<longrightarrow> past_available v c) \<longrightarrow> (\<exists>commit. res = Ok commit))"
proof -
  have "maps_agree (view_storage v)" using reachable_inv[OF assms] by (simp add: storage_inv_def)
  then have m: "keys_match v" by (auto simp: keys_match_def get_certificate_def dest: maps_agreeD(1))
  show ?thesis using order_dag_returns[OF m, of leader] order_dag_succeeds[OF m, of leader] by force
qed

theorem order_dag_total_witness:
  "\<exists>commit. order_dag_with_dfs (chain_view 201) (chain_cert 202) = Some (Ok commit)"
proof -
  have "storage_reachable sample_env (view_storage (chain_view 201))"
    using sample_reachable by (simp add: chain_view_def)
  from order_dag_total[OF this, of "chain_cert 202"] show ?thesis using chain_past[of 201] by auto
qed

text \<open>C10. What an anchor commits: the certificates reachable from it through references to predecessors that
  are not committed yet, as far as their rounds are within GC range, each under its own round, in ascending
  rounds and without repetitions.\<close>

theorem order_dag_result:
  assumes "order_dag_with_dfs v leader = Some (Ok commit)" "keys_match v"
    and "inj_on cert_id (insert leader (view_certs v))"
  shows "commit_certs commit = {c. (order_edge v)\<^sup>*\<^sup>* leader c \<and> in_range v (cert_round c)} \<and> commit_ok commit"
  using order_dag_exact[OF assms] by blast

theorem order_dag_result_witness:
  "\<exists>commit. order_dag_with_dfs (chain_view 201) (chain_cert 202) = Some (Ok commit) \<and>
     chain_cert 201 \<in> commit_certs commit \<and> chain_cert 200 \<notin> commit_certs commit"
proof -
  obtain commit where oc: "ordered_commit (chain_view 201) (chain_cert 202) commit"
    using chain_ordered[of 201] by auto
  note D = ordered_commitD[OF oc]
  have e: "chain_cert r = chain_cert r' \<longleftrightarrow> r = r'" for r r' by (metis chain_cert_fields(1))
  show ?thesis
    using order_dag_result[OF D(1-3)] D(1) chain_range[of 201 201]
    by (auto simp: chain_reach e u64_max_def)
qed

text \<open>C4. Validators do not fork on what an anchor commits.  Let one validator order an anchor into a subdag.  Another validator
  that has committed as much, which fixes the GC range and which predecessors count as committed, orders the anchor into
  the same subdag, with the same certificates in the same order, as soon as it holds the uncommitted past of the anchor in GC
  range; until then it reports a missing certificate and commits nothing else.  It need not hold what is committed or below the GC
  round, and what else the two hold does not matter, so neither does when they collect garbage.\<close>

theorem order_dag_agreement:
  assumes "keys_match v" "keys_match v'" "inj_on cert_id (insert leader (view_certs v \<union> view_certs v'))"
    and "rounds_descend v leader" "rounds_descend v' leader" "in_range v (cert_round leader)" "same_prefix v v' leader"
    and "order_dag_with_dfs v leader = Some (Ok m)"
  shows "order_dag_with_dfs v' leader =
    Some (if holds_past v' v leader then Ok m else bail ''Missing previous certificate'')"
  by (rule order_dag_follows[OF assms])

theorem order_dag_agreement_witness:
  "(\<exists>m. order_dag_with_dfs (full_view 101) (chain_cert 202) = Some (Ok m) \<and>
      order_dag_with_dfs (pruned_view 101) (chain_cert 202) = Some (Ok m)) \<and>
   previous_certificate (full_view 101) 100 100 \<noteq> None \<and> previous_certificate (pruned_view 101) 100 100 = None \<and>
   (\<exists>m. order_dag_with_dfs (full_view 150) (chain_cert 202) = Some (Ok m) \<and>
      order_dag_with_dfs (pruned_view 150) (chain_cert 202) = Some (Ok m)) \<and>
   previous_certificate (full_view 150) 149 149 \<noteq> None \<and> previous_certificate (pruned_view 150) 149 149 = None"
proof (intro conjI)
  show "\<exists>m. order_dag_with_dfs (full_view 101) (chain_cert 202) = Some (Ok m) \<and>
      order_dag_with_dfs (pruned_view 101) (chain_cert 202) = Some (Ok m)"
    using order_dag_agreement[OF view_facts(1-6)[of 101] view_past(2)] view_facts(7)[of 101] view_past(3)[of 101] by auto
  show "\<exists>m. order_dag_with_dfs (full_view 150) (chain_cert 202) = Some (Ok m) \<and>
      order_dag_with_dfs (pruned_view 150) (chain_cert 202) = Some (Ok m)"
    using order_dag_agreement[OF view_facts(1-6)[of 150] view_past(2)] view_facts(7)[of 150] view_past(3)[of 150] by auto
qed (simp_all add: view_previous)

text \<open>C12. What the BFT orders is a subdag: for an anchor in an even round, the output of
  \<open>order_dag_with_dfs\<close> passes every check of \<open>Subdag::from\<close> (single leader, consecutive rounds, structure)
  except possibly the limit on the number of rounds.\<close>

theorem order_dag_is_subdag:
  assumes "order_dag_with_dfs v leader = Some (Ok commit)" "keys_match v"
    and "inj_on cert_id (insert leader (view_certs v))" "rounds_descend v leader"
    and "cert_round leader + max_gc_rounds (view_storage v) \<le> u64_max" "in_range v (cert_round leader)"
    and "even (cert_round leader)"
  shows "subdag_from commit = Ok commit \<longleftrightarrow> length commit \<le> MAX_GC_ROUNDS"
proof -
  have "ordered_commit v leader commit" unfolding ordered_commit_def using assms(1-6) by blast
  then show ?thesis by (rule ordered_commit_subdag[OF _ assms(7)])
qed

theorem order_dag_is_subdag_witness:
  "\<exists>commit. order_dag_with_dfs (chain_view 201) (chain_cert 202) = Some (Ok commit) \<and>
     subdag_from commit = Ok commit"
proof -
  obtain commit where oc: "ordered_commit (chain_view 201) (chain_cert 202) commit"
    using chain_ordered[of 201] by auto
  note D = ordered_commitD[OF oc] and ok = ordered_commit_ok[OF oc]
  have "set (keys commit) \<subseteq> {201, 202}"
    unfolding commit_keys[OF ok] by (auto simp: ordered_commit_mem[OF oc] chain_reach)
  then have "card (set (keys commit)) \<le> card {201, 202 :: nat}" by (intro card_mono) simp_all
  moreover have "distinct (keys commit)"
    using commit_ok_wf[OF ok] by (simp add: wf_bmap_def strict_sorted_iff)
  ultimately have "length commit \<le> MAX_GC_ROUNDS"
    using distinct_card[of "keys commit"] by (simp add: MAX_GC_ROUNDS_def)
  then show ?thesis using order_dag_is_subdag[OF D] D(1) by simp
qed

text \<open>C34. The limit can be exceeded: when the uncommitted certificates reachable from the anchor fill every
  round still in GC range, the ordered map has more rounds than \<open>Subdag::from\<close> admits, and committing the
  anchor fails.  The range kept by the traversal reaches from 99 rounds below the last committed round up
  to the anchor, at least 102 rounds, while a subdag may have 100.\<close>

theorem order_dag_exceeds_limit:
  assumes "ordered_commit v leader commit" "max_gc_rounds (view_storage v) = MAX_GC_ROUNDS"
    and "MAX_GC_ROUNDS \<le> last_committed_round (view_dag v)"
    and "last_committed_round (view_dag v) + 2 \<le> cert_round leader"
    and "\<forall>r. in_range v r \<longrightarrow> r \<le> cert_round leader \<longrightarrow>
      (\<exists>c. (order_edge v)\<^sup>*\<^sup>* leader c \<and> cert_round c = r)"
  shows "MAX_GC_ROUNDS + 2 \<le> length commit \<and>
    subdag_from commit = bail ''Subdag cannot exceed the maximum number of rounds''"
proof -
  note ok = ordered_commit_ok[OF assms(1)] and D = ordered_commitD[OF assms(1)]
  let ?l = "last_committed_round (view_dag v)"
  have "{?l + 1 - MAX_GC_ROUNDS .. cert_round leader} \<subseteq> set (keys commit)"
  proof
    fix r assume r: "r \<in> {?l + 1 - MAX_GC_ROUNDS .. cert_round leader}"
    then have "r + max_gc_rounds (view_storage v) \<le> u64_max" using D(5) by simp
    then have "in_range v r"
      using r assms(2,3) by (simp add: in_range_def kept_round_def u64_add_exact MAX_GC_ROUNDS_def) linarith
    then obtain c where "c \<in> commit_certs commit" "cert_round c = r"
      using assms(5) r by (auto simp: ordered_commit_mem[OF assms(1)])
    then show "r \<in> set (keys commit)" unfolding commit_keys[OF ok] by blast
  qed
  then have "card {?l + 1 - MAX_GC_ROUNDS .. cert_round leader} \<le> card (set (keys commit))"
    by (intro card_mono) simp_all
  also have "\<dots> \<le> length commit" by (metis card_length length_map)
  finally have len: "MAX_GC_ROUNDS + 2 \<le> length commit"
    using assms(3,4) by (simp add: MAX_GC_ROUNDS_def)
  then show ?thesis
    using ordered_commit_last(1)[OF assms(1)]
    by (simp add: subdag_from_def ensure_def subdag_MAX_ROUNDS_def)
qed

theorem order_dag_exceeds_limit_witness:
  "\<exists>commit. order_dag_with_dfs (chain_view 101) (chain_cert 202) = Some (Ok commit) \<and>
     subdag_from commit = bail ''Subdag cannot exceed the maximum number of rounds''"
proof -
  obtain commit where oc: "ordered_commit (chain_view 101) (chain_cert 202) commit"
    using chain_ordered[of 101] by auto
  have v: "max_gc_rounds (view_storage (chain_view 101)) = MAX_GC_ROUNDS"
      "last_committed_round (view_dag (chain_view 101)) = 200"
    by (simp_all add: chain_view_def chain_dag_def sample_storage_def MAX_GC_ROUNDS_def)
  have "\<forall>r. in_range (chain_view 101) r \<longrightarrow> r \<le> cert_round (chain_cert 202) \<longrightarrow>
      (\<exists>c. (order_edge (chain_view 101))\<^sup>*\<^sup>* (chain_cert 202) c \<and> cert_round c = r)"
    by (auto simp: chain_reach chain_range u64_max_def intro!: exI[of _ "chain_cert _"])
  from order_dag_exceeds_limit[OF oc v(1) _ _ this] show ?thesis
    using ordered_commitD(1)[OF oc] by (simp add: v(2) MAX_GC_ROUNDS_def)
qed

end
