(* ===== verification/BFT.thy ===== *)
theory BFT
  imports BFT_Order
begin

text \<open>The BFT of \<open>node/bft/src/bft.rs\<close>: when a round may be left, which anchors are committed, and what a
  commit does.  The methods take \<open>&self\<close> and mutate the shared storage, DAG, leader certificate and timer;
  here they take the state and return it.  Commits are serialised by \<open>commit_lock\<close>, so a commit is one
  step of the state.  The consensus task that receives subdags and answers is a parameter.\<close>

section \<open>Definitions\<close>

record ('s, 't, 'u) bft =
  bft_storage :: "('s, 'u) storage"
  bft_dag :: dag
  bft_leader_certificate :: "batch_certificate option"
  leader_certificate_timer :: i64
  bft_ledger :: "'t ledger"
  latest_leader :: "(u64 \<times> address) option"
  consensus_sender :: bool
  sent_subdags :: "(commit_map \<times> 't tmap) list"

text \<open>What the consensus task does with a subdag: the channel may be closed, otherwise it answers whether
  the ledger advanced and leaves the ledger in some state.\<close>

datatype 't consensus_reply = Closed | Reply bool "'t ledger"

definition MAX_LEADER_CERTIFICATE_DELAY :: i64 where
  "MAX_LEADER_CERTIFICATE_DELAY = 5"

definition bft_env :: "('s, 't, 'u) storage_env \<Rightarrow> ('s, 't, 'u) bft \<Rightarrow> ('s, 't, 'u) storage_env" where
  "bft_env e s = e\<lparr>env_ledger := bft_ledger s\<rparr>"

definition bft_view :: "('s, 't, 'u) bft \<Rightarrow> ('s, 't, 'u) order_view" where
  "bft_view s = \<lparr>view_dag = bft_dag s, view_storage = bft_storage s, view_ledger = bft_ledger s\<rparr>"

text \<open>The leader of a round: the cached one if it is for this round, otherwise computed and cached.\<close>

definition leader_of_round ::
    "('s, 't, 'u) storage_env \<Rightarrow> committee \<Rightarrow> u64 \<Rightarrow> ('s, 't, 'u) bft \<Rightarrow> address result \<times> ('s, 't, 'u) bft" where
  "leader_of_round e committee_lookback r s =
     (case latest_leader s of
        Some (cached_round, cached_leader) \<Rightarrow>
          if cached_round = r then (Ok cached_leader, s)
          else (case get_leader (env_crypto e) committee_lookback r of
                  Inl err \<Rightarrow> (Inl err, s)
                | Inr computed_leader \<Rightarrow> (Ok computed_leader, s\<lparr>latest_leader := Some (r, computed_leader)\<rparr>))
      | None \<Rightarrow>
          (case get_leader (env_crypto e) committee_lookback r of
             Inl err \<Rightarrow> (Inl err, s)
           | Inr computed_leader \<Rightarrow> (Ok computed_leader, s\<lparr>latest_leader := Some (r, computed_leader)\<rparr>)))"

subsection \<open>Leaving a round\<close>

definition is_timer_expired :: "i64 \<Rightarrow> ('s, 't, 'u) bft \<Rightarrow> bool" where
  "is_timer_expired now s \<longleftrightarrow> i64_add (leader_certificate_timer s) MAX_LEADER_CERTIFICATE_DELAY \<le> now"

definition is_even_round_ready_for_next_round ::
    "i64 \<Rightarrow> batch_certificate list \<Rightarrow> committee \<Rightarrow> u64 \<Rightarrow> ('s, 't, 'u) bft \<Rightarrow> bool" where
  "is_even_round_ready_for_next_round now cs committee r s =
     (if \<not> is_quorum_threshold_reached committee (iset_of_list (map cert_author cs)) then False
      else if (case bft_leader_certificate s of None \<Rightarrow> False | Some c \<Rightarrow> cert_round c = r) then True
      else if is_timer_expired now s then True
      else False)"

definition update_leader_certificate_to_even_round ::
    "('s, 't, 'u) storage_env \<Rightarrow> i64 \<Rightarrow> u64 \<Rightarrow> ('s, 't, 'u) bft \<Rightarrow> bool \<times> ('s, 't, 'u) bft" where
  "update_leader_certificate_to_even_round e now even_round s =
     (let r = current_round (bft_storage s)
      in if r \<noteq> even_round then (False, s)
         else if r mod 2 \<noteq> 0 \<or> r < 2 then (False, s)
         else
           let current_certificates = get_certificates_for_round (bft_storage s) r
           in if current_certificates = [] then (False, s\<lparr>bft_leader_certificate := None\<rparr>)
              else case get_committee_lookback_for_round (bft_ledger s) r of
                     Inl _ \<Rightarrow> (False, s)
                   | Inr committee_lookback \<Rightarrow>
                       (case leader_of_round e committee_lookback r s of
                          (Inl _, s) \<Rightarrow> (False, s)
                        | (Inr leader, s) \<Rightarrow>
                            let s = s\<lparr>bft_leader_certificate :=
                                  List.find (\<lambda>c. cert_author c = leader) current_certificates\<rparr>
                            in (is_even_round_ready_for_next_round now current_certificates committee_lookback r s, s)))"

fun compute_stakes :: "field \<Rightarrow> committee \<Rightarrow> batch_certificate list \<Rightarrow> u64 \<times> u64 \<Rightarrow> u64 \<times> u64" where
  "compute_stakes i committee [] acc = acc"
| "compute_stakes i committee (c # cs) (stake_with_leader, stake_without_leader) =
     (let stake = get_stake committee (cert_author c)
      in compute_stakes i committee cs
           (if i \<in> set (cert_previous_ids c)
            then (saturating_add u64_max stake_with_leader stake, stake_without_leader)
            else (stake_with_leader, saturating_add u64_max stake_without_leader stake)))"

definition compute_stake_for_leader_certificate ::
    "field \<Rightarrow> batch_certificate list \<Rightarrow> committee \<Rightarrow> u64 \<times> u64" where
  "compute_stake_for_leader_certificate i cs committee =
     (if cs = [] then (0, 0) else compute_stakes i committee cs (0, 0))"

definition is_leader_quorum_or_nonleaders_available :: "i64 \<Rightarrow> u64 \<Rightarrow> ('s, 't, 'u) bft \<Rightarrow> bool" where
  "is_leader_quorum_or_nonleaders_available now odd_round s =
     (let r = current_round (bft_storage s)
      in if r \<noteq> odd_round then False
         else if r mod 2 \<noteq> 1 then False
         else
           let current_certificates = get_certificates_for_round (bft_storage s) r
           in case get_committee_lookback_for_round (bft_ledger s) r of
                Inl _ \<Rightarrow> False
              | Inr committee_lookback \<Rightarrow>
                  if \<not> is_quorum_threshold_reached committee_lookback
                       (iset_of_list (map cert_author current_certificates)) then False
                  else case bft_leader_certificate s of
                         None \<Rightarrow> True
                       | Some leader_cert \<Rightarrow>
                           let (stake_with_leader, stake_without_leader) =
                             compute_stake_for_leader_certificate (cert_id leader_cert) current_certificates
                               committee_lookback
                           in stake_with_leader \<ge> availability_threshold committee_lookback \<or>
                              stake_without_leader \<ge> quorum_threshold committee_lookback \<or>
                              is_timer_expired now s)"

definition try_advance_to_next_round ::
    "('s, 't, 'u) storage_env \<Rightarrow> i64 \<Rightarrow> u64 \<Rightarrow> ('s, 't, 'u) bft \<Rightarrow> bool \<times> ('s, 't, 'u) bft" where
  "try_advance_to_next_round e now r s =
     (if r < current_round (bft_storage s) then (False, s)
      else
        let (is_ready, s) =
          (if r mod 2 = 0 then update_leader_certificate_to_even_round e now r s
           else (is_leader_quorum_or_nonleaders_available now r s, s))
        in if is_ready
           then case increment_to_next_round (bft_env e s) r (bft_storage s) of
                  (Inl _, st) \<Rightarrow> (False, s\<lparr>bft_storage := st\<rparr>)
                | (Inr _, st) \<Rightarrow> (True, s\<lparr>bft_storage := st, leader_certificate_timer := now\<rparr>)
           else (False, s))"

subsection \<open>Committing\<close>

text \<open>The rounds of earlier anchors, \<open>(a..=b).rev().step_by(2)\<close>.\<close>

definition leader_rounds :: "u64 \<Rightarrow> u64 \<Rightarrow> u64 list" where
  "leader_rounds a b = filter (\<lambda>r. (b - r) mod 2 = 0) (rev [a ..< Suc b])"

text \<open>The anchors to commit, oldest first.\<close>

fun collect_leaders ::
    "('s, 't, 'u) storage_env \<Rightarrow> u64 list \<Rightarrow> batch_certificate \<Rightarrow> batch_certificate list
      \<Rightarrow> ('s, 't, 'u) bft \<Rightarrow> batch_certificate list result \<times> ('s, 't, 'u) bft" where
  "collect_leaders e [] current_certificate leaders s = (Ok leaders, s)"
| "collect_leaders e (r # rs) current_certificate leaders s =
     (case get_committee_lookback_for_round (bft_ledger s) r of
        Inl err \<Rightarrow> (Inl err, s)
      | Inr previous_committee_lookback \<Rightarrow>
          (case leader_of_round e previous_committee_lookback r s of
             (Inl err, s) \<Rightarrow> (Inl err, s)
           | (Inr leader, s) \<Rightarrow>
               (case dag_get_certificate_for_round_with_author (bft_dag s) r leader of
                  None \<Rightarrow> collect_leaders e rs current_certificate leaders s
                | Some previous \<Rightarrow>
                    (case is_linked (bft_dag s) previous current_certificate of
                       Inl err \<Rightarrow> (Inl err, s)
                     | Inr linked \<Rightarrow>
                         if linked then collect_leaders e rs previous (previous # leaders) s
                         else collect_leaders e rs current_certificate leaders s))))"

text \<open>The transmissions of a subdag, without duplicates and without those the ledger has.\<close>

record 't gathered =
  gathered_transmissions :: "'t tmap"
  seen_transaction_ids :: "field list"
  seen_solution_ids :: "u64 list"

definition gather_transmission ::
    "('s, 't) service_ops \<Rightarrow> 's \<Rightarrow> 't ledger \<Rightarrow> transmission_id \<Rightarrow> 't gathered \<Rightarrow> 't gathered result" where
  "gather_transmission ops store l tid g =
     (case tid of
        Ratification \<Rightarrow> bail ''Ratifications are currently not supported in the BFT.''
      | _ \<Rightarrow>
          if (case tid of Solution i _ \<Rightarrow> i \<in> set (seen_solution_ids g)
              | Transaction i _ \<Rightarrow> i \<in> set (seen_transaction_ids g) | Ratification \<Rightarrow> False) then Ok g
          else if contains_key (gathered_transmissions g) tid then Ok g
          else if unwrap_or True (ledger_contains_transmission l tid) then Ok g
          else case get_transmission ops store tid of
                 None \<Rightarrow> bail ''BFT failed to retrieve transmission''
               | Some t \<Rightarrow>
                   let g = (case tid of
                         Solution i _ \<Rightarrow> g\<lparr>seen_solution_ids := iset_insert i (seen_solution_ids g)\<rparr>
                       | Transaction i _ \<Rightarrow> g\<lparr>seen_transaction_ids := iset_insert i (seen_transaction_ids g)\<rparr>
                       | Ratification \<Rightarrow> g)
                   in Ok (g\<lparr>gathered_transmissions := AList.update tid t (gathered_transmissions g)\<rparr>))"

definition gather_transmissions ::
    "('s, 't) service_ops \<Rightarrow> 's \<Rightarrow> 't ledger \<Rightarrow> commit_map \<Rightarrow> 't tmap result" where
  "gather_transmissions ops store l commit =
     try_bind (try_fold (gather_transmission ops store l) (subdag_transmission_ids commit)
         \<lparr>gathered_transmissions = [], seen_transaction_ids = [], seen_solution_ids = []\<rparr>)
       (\<lambda>g. Ok (gathered_transmissions g))"

text \<open>Committing one anchor.  \<open>Ok True\<close>: go on; \<open>Ok False\<close>: the ledger did not advance, the whole commit
  returns; \<open>None\<close>: the ordering does not end.\<close>

definition dag_commit_all :: "('s, 't, 'u) bft \<Rightarrow> commit_map \<Rightarrow> dag" where
  "dag_commit_all s commit =
     fold (\<lambda>c d. dag_commit c (max_gc_rounds (bft_storage s)) d) (subdag_certificates commit) (bft_dag s)"

definition commit_anchor ::
    "('s, 't, 'u) storage_env \<Rightarrow> ('t ledger \<Rightarrow> commit_map \<Rightarrow> 't tmap \<Rightarrow> 't consensus_reply) \<Rightarrow> bool
      \<Rightarrow> batch_certificate \<Rightarrow> ('s, 't, 'u) bft \<Rightarrow> (bool result \<times> ('s, 't, 'u) bft) option" where
  "commit_anchor e consensus skip_consensus leader s =
     (case order_dag_with_dfs (bft_view s) leader of
        None \<Rightarrow> None
      | Some (Inl err) \<Rightarrow> Some (Inl err, s)
      | Some (Inr commit) \<Rightarrow>
          (case gather_transmissions (env_service e) (transmissions (bft_storage s)) (bft_ledger s) commit of
             Inl err \<Rightarrow> Some (Inl err, s)
           | Inr ts \<Rightarrow>
               (case subdag_from commit of
                  Inl err \<Rightarrow> Some (Inl err, s)
                | Inr subdag \<Rightarrow>
                    if anchor_round subdag \<noteq> cert_round leader
                    then Some (bail ''BFT failed to commit - the subdag anchor round does not match the leader round'', s)
                    else if \<not> skip_consensus \<and> consensus_sender s
                    then (case consensus (bft_ledger s) subdag ts of
                            Closed \<Rightarrow> Some (bail ''channel closed'', s)
                          | Reply advanced l \<Rightarrow>
                              let s = s\<lparr>bft_ledger := l\<rparr>
                              in if advanced
                                 then Some (Ok True, s\<lparr>sent_subdags := sent_subdags s @ [(subdag, ts)],
                                        bft_dag := dag_commit_all s commit\<rparr>)
                                 else Some (Ok False, s))
                    else Some (Ok True, s\<lparr>bft_dag := dag_commit_all s commit\<rparr>))))"

fun commit_anchors ::
    "('s, 't, 'u) storage_env \<Rightarrow> ('t ledger \<Rightarrow> commit_map \<Rightarrow> 't tmap \<Rightarrow> 't consensus_reply) \<Rightarrow> bool
      \<Rightarrow> batch_certificate list \<Rightarrow> ('s, 't, 'u) bft \<Rightarrow> (bool result \<times> ('s, 't, 'u) bft) option" where
  "commit_anchors e consensus skip_consensus [] s = Some (Ok True, s)"
| "commit_anchors e consensus skip_consensus (leader # leaders) s =
     (case commit_anchor e consensus skip_consensus leader s of
        None \<Rightarrow> None
      | Some (Inr True, s) \<Rightarrow> commit_anchors e consensus skip_consensus leaders s
      | Some (res, s) \<Rightarrow> Some (res, s))"

definition commit_leader_certificate ::
    "('s, 't, 'u) storage_env \<Rightarrow> ('t ledger \<Rightarrow> commit_map \<Rightarrow> 't tmap \<Rightarrow> 't consensus_reply)
      \<Rightarrow> batch_certificate \<Rightarrow> ('s, 't, 'u) bft \<Rightarrow> (unit result \<times> ('s, 't, 'u) bft) option" where
  "commit_leader_certificate e consensus leader s =
     (let latest_leader_round = cert_round leader;
          last = last_committed_round (bft_dag s)
      in if latest_leader_round < last then Some (Ok (), s)
         else
           case collect_leaders e (leader_rounds (u64_add last 2) (saturating_sub latest_leader_round 2))
                  leader [leader] s of
             (Inl err, s) \<Rightarrow> Some (Inl err, s)
           | (Inr leaders, s) \<Rightarrow>
               (case commit_anchors e consensus (latest_leader_round = last) leaders s of
                  None \<Rightarrow> None
                | Some (Inl err, s) \<Rightarrow> Some (Inl err, s)
                | Some (Inr False, s) \<Rightarrow> Some (Ok (), s)
                | Some (Inr True, s) \<Rightarrow>
                    (case garbage_collect_certificates (bft_env e s) latest_leader_round (bft_storage s) of
                       Inl err \<Rightarrow> Some (Inl err, s)
                     | Inr st \<Rightarrow> Some (Ok (), s\<lparr>bft_storage := st\<rparr>))))"

definition add_new_certificate ::
    "('s, 't, 'u) storage_env \<Rightarrow> ('t ledger \<Rightarrow> commit_map \<Rightarrow> 't tmap \<Rightarrow> 't consensus_reply)
      \<Rightarrow> batch_certificate \<Rightarrow> ('s, 't, 'u) bft \<Rightarrow> (unit result \<times> ('s, 't, 'u) bft) option" where
  "add_new_certificate e consensus c s =
     (let s = s\<lparr>bft_dag := dag_insert c (bft_dag s)\<rparr>;
          commit_round = saturating_sub (cert_round c) 1
      in if commit_round mod 2 \<noteq> 0 \<or> commit_round < 2 then Some (Ok (), s)
         else if commit_round \<le> last_committed_round (bft_dag s) then Some (Ok (), s)
         else
           case get_committee_lookback_for_round (bft_ledger s) commit_round of
             Inl err \<Rightarrow> Some (Inl err, s)
           | Inr committee_lookback \<Rightarrow>
               (case leader_of_round e committee_lookback commit_round s of
                  (Inl err, s) \<Rightarrow> Some (Inl err, s)
                | (Inr leader, s) \<Rightarrow>
                    (case dag_get_certificate_for_round_with_author (bft_dag s) commit_round leader of
                       None \<Rightarrow> Some (Ok (), s)
                     | Some leader_cert \<Rightarrow>
                         (case dag_get_certificates_for_round (bft_dag s) (cert_round c) of
                            None \<Rightarrow> Some (bail ''BFT failed to retrieve the certificates for certificate round'', s)
                          | Some m \<Rightarrow>
                              (case get_committee_lookback_for_round (bft_ledger s) (cert_round c) of
                                 Inl err \<Rightarrow> Some (Inl err, s)
                               | Inr certificate_committee_lookback \<Rightarrow>
                                   let authors = iset_of_list (map cert_author
                                         (filter (\<lambda>p. cert_id leader_cert \<in> set (cert_previous_ids p)) (vals m)))
                                   in if is_availability_threshold_reached certificate_committee_lookback authors
                                      then commit_leader_certificate e consensus leader_cert s
                                      else Some (Ok (), s))))))"

definition add_certificate_from_sync :: "batch_certificate \<Rightarrow> ('s, 't, 'u) bft \<Rightarrow> ('s, 't, 'u) bft" where
  "add_certificate_from_sync c s = s\<lparr>bft_dag := dag_insert c (bft_dag s)\<rparr>"

definition commit_certificate_from_sync :: "batch_certificate \<Rightarrow> ('s, 't, 'u) bft \<Rightarrow> ('s, 't, 'u) bft" where
  "commit_certificate_from_sync c s =
     s\<lparr>bft_dag := dag_commit c (max_gc_rounds (bft_storage s)) (bft_dag s)\<rparr>"

section \<open>Leaving a round\<close>

lemma leader_of_round_frame:
  assumes "leader_of_round e c r s = (res, s')"
  shows "bft_storage s' = bft_storage s" "bft_dag s' = bft_dag s" "bft_ledger s' = bft_ledger s"
    "bft_leader_certificate s' = bft_leader_certificate s" "sent_subdags s' = sent_subdags s"
    "consensus_sender s' = consensus_sender s" "leader_certificate_timer s' = leader_certificate_timer s"
  using assms by (auto simp: leader_of_round_def split: option.splits sum.splits if_splits)

text \<open>The quorum of a round: the authors of the certificates in storage.\<close>

definition round_quorum :: "('s, 't, 'u) bft \<Rightarrow> u64 \<Rightarrow> committee \<Rightarrow> bool" where
  "round_quorum s r committee \<longleftrightarrow> get_committee_lookback_for_round (bft_ledger s) r = Ok committee \<and>
     is_quorum_threshold_reached committee
       (iset_of_list (map cert_author (get_certificates_for_round (bft_storage s) r)))"

lemma even_ready:
  assumes "update_leader_certificate_to_even_round e now r s = (True, s')"
  shows "\<exists>committee. round_quorum s r committee \<and> current_round (bft_storage s) = r \<and>
    ((\<exists>c. bft_leader_certificate s' = Some c \<and> cert_round c = r) \<or> is_timer_expired now s) \<and>
    bft_storage s' = bft_storage s \<and> bft_dag s' = bft_dag s \<and> bft_ledger s' = bft_ledger s \<and>
    sent_subdags s' = sent_subdags s"
proof -
  let ?cs = "get_certificates_for_round (bft_storage s) r"
  have c: "current_round (bft_storage s) = r" "r mod 2 = 0" "2 \<le> r" "?cs \<noteq> []"
    using assms by (auto simp: update_leader_certificate_to_even_round_def Let_def split: if_splits)
  obtain committee where k: "get_committee_lookback_for_round (bft_ledger s) r = Ok committee"
    using assms c by (cases "get_committee_lookback_for_round (bft_ledger s) r")
      (simp_all add: update_leader_certificate_to_even_round_def Let_def)
  obtain res s1 where l: "leader_of_round e committee r s = (res, s1)" by fastforce
  obtain leader where res: "res = Ok leader"
    using assms c k l by (cases res) (simp_all add: update_leader_certificate_to_even_round_def Let_def)
  have s': "s' = s1\<lparr>bft_leader_certificate := List.find (\<lambda>c. cert_author c = leader) ?cs\<rparr>"
      "is_even_round_ready_for_next_round now ?cs committee r s'"
    using assms c k l res by (auto simp: update_leader_certificate_to_even_round_def Let_def)
  have "is_timer_expired now s' \<longleftrightarrow> is_timer_expired now s"
    using leader_of_round_frame(7)[OF l] by (simp add: is_timer_expired_def s'(1))
  then show ?thesis
    using s' c(1) k leader_of_round_frame[OF l]
    by (auto simp: is_even_round_ready_for_next_round_def round_quorum_def split: if_splits option.splits)
qed

lemma odd_ready:
  assumes "is_leader_quorum_or_nonleaders_available now r s"
  shows "\<exists>committee. round_quorum s r committee \<and> current_round (bft_storage s) = r \<and> odd r"
  using assms
  by (auto simp: is_leader_quorum_or_nonleaders_available_def Let_def round_quorum_def
      split: if_splits sum.splits option.splits)

lemma increment_frame:
  assumes "increment_to_next_round e r st = (res, st')"
  shows "certificates st' = certificates st" "rounds st' = rounds st" "transmissions st' = transmissions st"
    "gc_round st' = gc_round st" "max_gc_rounds st' = max_gc_rounds st"
  using assms
  by (auto simp: increment_to_next_round_def sync_round_with_block_def Let_def split: if_splits sum.splits)

lemma quorum_not_empty: "\<not> is_quorum_threshold_reached c []"
  by (simp add: is_quorum_threshold_reached_def combined_stake_def quorum_threshold_def saturating_add_def
      u64_max_def)

lemma round_quorum_certificates: "round_quorum s r c \<Longrightarrow> get_certificates_for_round (bft_storage s) r \<noteq> []"
  by (auto simp: round_quorum_def quorum_not_empty iset_of_list_def)

lemma increment_succeeds:
  assumes "current_round st = r" "r + 1 \<le> u64_max" "gc_round st \<le> r + 1" "current_committee (env_ledger e) = Ok c"
  shows "\<exists>n st'. increment_to_next_round e r st = (Ok n, st')"
  using assms by (auto simp: increment_to_next_round_def Let_def u64_add_exact ensure_def)

lemma even_ready_expired:
  assumes "round_quorum s r committee" "current_round (bft_storage s) = r" "r mod 2 = 0" "r \<noteq> 0"
    and "is_timer_expired now s" "leader_of_round e committee r s = (Ok leader, s1)"
  shows "fst (update_leader_certificate_to_even_round e now r s)"
proof -
  have k: "get_committee_lookback_for_round (bft_ledger s) r = Ok committee"
    using assms(1) by (simp add: round_quorum_def)
  have "2 \<le> r" using assms(3,4) by presburger
  moreover have "is_timer_expired now (s1\<lparr>bft_leader_certificate := x\<rparr>)" for x
    using assms(5) leader_of_round_frame(7)[OF assms(6)] by (simp add: is_timer_expired_def)
  ultimately show ?thesis
    using assms(1-3,6) k round_quorum_certificates[OF assms(1)]
    by (simp add: update_leader_certificate_to_even_round_def Let_def is_even_round_ready_for_next_round_def
        round_quorum_def)
qed

lemma odd_ready_expired:
  assumes "round_quorum s r committee" "current_round (bft_storage s) = r" "odd r" "is_timer_expired now s"
  shows "is_leader_quorum_or_nonleaders_available now r s"
  using assms
  by (auto simp: is_leader_quorum_or_nonleaders_available_def Let_def round_quorum_def odd_iff_mod_2_eq_one
      split: option.splits prod.splits)

section \<open>Committing once\<close>

text \<open>A certificate is done with when its ID is recorded as committed, or its round is out of GC range:
  then \<open>order_dag_with_dfs\<close> does not return it any more.\<close>

definition done_with :: "u64 \<Rightarrow> dag \<Rightarrow> batch_certificate \<Rightarrow> bool" where
  "done_with gc d c \<longleftrightarrow>
     is_recently_committed d (cert_round c) (cert_id c) \<or> \<not> kept_round gc (last_committed_round d) (cert_round c)"

lemma kept_round_antimono: "l \<le> l' \<Longrightarrow> kept_round gc l' r \<Longrightarrow> kept_round gc l r"
  by (simp add: kept_round_def)

lemma done_with_commit:
  assumes "dag_inv d"
  shows "done_with gc (dag_commit c gc d) c" "done_with gc d c' \<Longrightarrow> done_with gc (dag_commit c gc d) c'"
  using assms kept_round_antimono[of "last_committed_round d" "max (last_committed_round d) (cert_round c)" gc]
  by (auto simp: done_with_def dag_commit_recent)

lemma fold_dag_commit:
  assumes "dag_inv d" "0 < gc" "last_committed_round d + gc \<le> u64_max" "\<forall>c\<in>set cs. cert_round c + gc \<le> u64_max"
  shows "let d' = fold (\<lambda>c d. dag_commit c gc d) cs d in
    dag_inv d' \<and> last_committed_round d \<le> last_committed_round d' \<and> last_committed_round d' + gc \<le> u64_max \<and>
    (\<forall>c\<in>set cs. done_with gc d' c) \<and> (\<forall>c. done_with gc d c \<longrightarrow> done_with gc d' c) \<and>
    last_committed_round d' = Max (insert (last_committed_round d) (cert_round ` set cs))"
  using assms
proof (induction cs arbitrary: d)
  case (Cons c cs)
  let ?d = "dag_commit c gc d" and ?d' = "fold (\<lambda>c d. dag_commit c gc d) cs (dag_commit c gc d)"
  have fit: "cert_round c + gc \<le> u64_max" using Cons.prems(4) by simp
  have inv: "dag_inv ?d" by (rule dag_commit_inv[OF Cons.prems(1,2) fit Cons.prems(3)])
  have last: "last_committed_round ?d + gc \<le> u64_max" using fit Cons.prems(3) by (simp add: max_def)
  have IH: "dag_inv ?d'" "last_committed_round ?d \<le> last_committed_round ?d'"
      "last_committed_round ?d' + gc \<le> u64_max" "\<forall>c\<in>set cs. done_with gc ?d' c"
      "\<forall>c. done_with gc ?d c \<longrightarrow> done_with gc ?d' c"
      "last_committed_round ?d' = Max (insert (last_committed_round ?d) (cert_round ` set cs))"
    using Cons.IH[OF inv Cons.prems(2) last] Cons.prems(4) by (simp_all add: Let_def)
  have "last_committed_round d \<le> last_committed_round ?d'" using IH(2) by simp
  moreover have "done_with gc ?d' c" using done_with_commit(1)[OF Cons.prems(1)] IH(5) by blast
  moreover have "\<forall>c'. done_with gc d c' \<longrightarrow> done_with gc ?d' c'"
    using done_with_commit(2)[OF Cons.prems(1)] IH(5) by blast
  moreover have "last_committed_round ?d' = Max (insert (last_committed_round d) (cert_round ` set (c # cs)))"
    unfolding IH(6) dag_commit_last by (cases "cs = []") (simp_all add: max.assoc)
  ultimately show ?case using IH(1,3,4) by (simp add: Let_def)
qed simp

lemma ordered_not_done:
  assumes "ordered_commit v leader commit" "dag_inv (view_dag v)" "c \<in> commit_certs commit"
    and "\<not> done_with (max_gc_rounds (view_storage v)) (view_dag v) leader"
  shows "\<not> done_with (max_gc_rounds (view_storage v)) (view_dag v) c"
proof (cases "c = leader")
  case False
  note D = ordered_commitD[OF assms(1)]
  have m: "(order_edge v)\<^sup>*\<^sup>* leader c" "in_range v (cert_round c)"
    using assms(3) ordered_commit_mem[OF assms(1)] by blast+
  then obtain q where q: "(order_edge v)\<^sup>*\<^sup>* leader q" "order_edge v q c"
    using False rtranclp.cases[of "order_edge v" leader c] by blast
  have "cert_round q = Suc (cert_round c)" using D(4) q unfolding rounds_descend_def by blast
  then obtain i where i: "\<not> is_settled v (cert_round c) i" "previous_certificate v (cert_round c) i = Some c"
    using q(2) by (auto simp: order_edge_def Let_def saturating_sub_def)
  have "cert_id c = i" by (rule previous_certificate_id[OF D(2) i(2)])
  then show ?thesis using i(1) m(2) by (simp add: done_with_def is_settled_def in_range_def)
qed (use assms(4) in simp)

lemma commit_anchor_Ok:
  assumes "commit_anchor e consensus skip leader s = Some (Ok True, s')"
  obtains commit ts where "order_dag_with_dfs (bft_view s) leader = Some (Ok commit)"
    "gather_transmissions (env_service e) (transmissions (bft_storage s)) (bft_ledger s) commit = Ok ts"
    "subdag_from commit = Ok commit" "anchor_round commit = cert_round leader"
    "bft_dag s' = dag_commit_all s commit" "bft_storage s' = bft_storage s"
    "sent_subdags s' = sent_subdags s @ (if \<not> skip \<and> consensus_sender s then [(commit, ts)] else [])"
proof -
  obtain commit where o: "order_dag_with_dfs (bft_view s) leader = Some (Ok commit)"
    using assms by (auto simp: commit_anchor_def split: option.splits sum.splits)
  obtain ts where g: "gather_transmissions (env_service e) (transmissions (bft_storage s)) (bft_ledger s) commit = Ok ts"
    using assms o by (auto simp: commit_anchor_def split: sum.splits)
  obtain sd where f: "subdag_from commit = Ok sd"
    using assms o g by (auto simp: commit_anchor_def split: sum.splits)
  then have sd: "sd = commit" by (simp add: subdag_from_Ok_iff)
  have a: "anchor_round commit = cert_round leader"
    using assms o g f sd by (auto simp: commit_anchor_def split: if_splits)
  have "bft_dag s' = dag_commit_all s commit \<and> bft_storage s' = bft_storage s \<and>
      sent_subdags s' = sent_subdags s @ (if \<not> skip \<and> consensus_sender s then [(commit, ts)] else [])"
    using assms o g f sd a
    by (auto simp: commit_anchor_def dag_commit_all_def Let_def split: if_splits consensus_reply.splits)
  then show thesis using that o g f sd a by blast
qed

section \<open>Transmissions\<close>

fun solution_or_transaction :: "transmission_id \<Rightarrow> (u64 + field) option" where
  "solution_or_transaction (Solution i _) = Some (Inl i)"
| "solution_or_transaction (Transaction i _) = Some (Inr i)"
| "solution_or_transaction Ratification = None"

lemma update_new_key: "map_of m k = None \<Longrightarrow> AList.update k v m = m @ [(k, v)]"
  by (induction m) (auto split: if_splits)

definition seen_ids :: "'t gathered \<Rightarrow> (u64 + field) option set" where
  "seen_ids g = Some ` (Inl ` set (seen_solution_ids g) \<union> Inr ` set (seen_transaction_ids g))"

lemma seen_ids_mem:
  "Some (Inl i) \<in> seen_ids g \<longleftrightarrow> i \<in> set (seen_solution_ids g)"
  "Some (Inr j) \<in> seen_ids g \<longleftrightarrow> j \<in> set (seen_transaction_ids g)"
  by (auto simp: seen_ids_def)

lemma gather_transmission_cases:
  assumes "gather_transmission ops store l tid g = Ok g'"
  shows "tid \<noteq> Ratification"
    and "g' = g \<and> (solution_or_transaction tid \<in> seen_ids g \<or> map_of (gathered_transmissions g) tid \<noteq> None \<or>
           ledger_contains_transmission l tid \<noteq> Ok False) \<or>
         (\<exists>t. solution_or_transaction tid \<notin> seen_ids g \<and> map_of (gathered_transmissions g) tid = None \<and>
           ledger_contains_transmission l tid = Ok False \<and> get_transmission ops store tid = Some t \<and>
           gathered_transmissions g' = gathered_transmissions g @ [(tid, t)] \<and>
           seen_ids g' = insert (solution_or_transaction tid) (seen_ids g))"
proof -
  have led: "unwrap_or True (ledger_contains_transmission l tid) \<longleftrightarrow> ledger_contains_transmission l tid \<noteq> Ok False"
    by (auto simp: unwrap_or_def split: sum.splits)
  show "tid \<noteq> Ratification" using assms by (auto simp: gather_transmission_def)
  show "g' = g \<and> (solution_or_transaction tid \<in> seen_ids g \<or> map_of (gathered_transmissions g) tid \<noteq> None \<or>
           ledger_contains_transmission l tid \<noteq> Ok False) \<or>
         (\<exists>t. solution_or_transaction tid \<notin> seen_ids g \<and> map_of (gathered_transmissions g) tid = None \<and>
           ledger_contains_transmission l tid = Ok False \<and> get_transmission ops store tid = Some t \<and>
           gathered_transmissions g' = gathered_transmissions g @ [(tid, t)] \<and>
           seen_ids g' = insert (solution_or_transaction tid) (seen_ids g))"
  proof (cases tid)
    case (Solution i c)
    show ?thesis
      using assms led update_new_key[of "gathered_transmissions g" tid]
      by (auto simp: gather_transmission_def Solution seen_ids_mem Let_def index_simps
          split: if_splits option.splits) (auto simp: seen_ids_def index_simps)
  next
    case (Transaction i c)
    show ?thesis
      using assms led update_new_key[of "gathered_transmissions g" tid]
      by (auto simp: gather_transmission_def Transaction seen_ids_mem Let_def index_simps
          split: if_splits option.splits) (auto simp: seen_ids_def index_simps)
  qed (use assms in \<open>simp add: gather_transmission_def\<close>)
qed

definition gathered_ok :: "('s, 't) service_ops \<Rightarrow> 's \<Rightarrow> 't ledger \<Rightarrow> transmission_id list \<Rightarrow> 't gathered \<Rightarrow> bool" where
  "gathered_ok ops store l tids g \<longleftrightarrow>
     (\<forall>(t, x)\<in>set (gathered_transmissions g). t \<in> set tids \<and> ledger_contains_transmission l t = Ok False \<and>
        get_transmission ops store t = Some x) \<and>
     distinct (map solution_or_transaction (keys (gathered_transmissions g))) \<and>
     seen_ids g = solution_or_transaction ` set (keys (gathered_transmissions g)) \<and>
     (\<forall>t\<in>set tids. t \<noteq> Ratification \<and> (ledger_contains_transmission l t \<noteq> Ok False \<or>
        solution_or_transaction t \<in> solution_or_transaction ` set (keys (gathered_transmissions g))))"

lemma gather_step_ok:
  assumes "gathered_ok ops store l tids g" "gather_transmission ops store l tid g = Ok g'"
  shows "gathered_ok ops store l (tids @ [tid]) g'"
proof -
  note c = gather_transmission_cases[OF assms(2)]
  let ?K = "solution_or_transaction ` set (keys (gathered_transmissions g))"
  have in_keys: "solution_or_transaction tid \<in> ?K" if "map_of (gathered_transmissions g) tid \<noteq> None"
    using that by (force dest: map_of_SomeD)
  from c(2) show ?thesis
  proof (elim disjE exE conjE)
    assume g: "g' = g" and "solution_or_transaction tid \<in> seen_ids g"
    then show ?thesis using assms(1) c(1) by (auto simp: gathered_ok_def)
  next
    assume g: "g' = g" and "map_of (gathered_transmissions g) tid \<noteq> None"
    then show ?thesis using assms(1) c(1) in_keys by (auto simp: gathered_ok_def)
  next
    assume "g' = g" "ledger_contains_transmission l tid \<noteq> Ok False"
    then show ?thesis using assms(1) c(1) by (auto simp: gathered_ok_def)
  next
    fix t assume "solution_or_transaction tid \<notin> seen_ids g" "ledger_contains_transmission l tid = Ok False"
      "get_transmission ops store tid = Some t" "gathered_transmissions g' = gathered_transmissions g @ [(tid, t)]"
      "seen_ids g' = insert (solution_or_transaction tid) (seen_ids g)"
    then show ?thesis using assms(1) c(1) by (auto simp: gathered_ok_def)
  qed
qed

lemma gather_fold_ok:
  "try_fold (gather_transmission ops store l) tids g = Ok g' \<Longrightarrow> gathered_ok ops store l pre g \<Longrightarrow>
     gathered_ok ops store l (pre @ tids) g'"
proof (induction tids arbitrary: g pre)
  case (Cons tid tids)
  obtain g1 where g1: "gather_transmission ops store l tid g = Ok g1"
      "try_fold (gather_transmission ops store l) tids g1 = Ok g'"
    using Cons.prems(1) by (auto simp: try_bind_Ok_iff)
  from Cons.IH[OF g1(2) gather_step_ok[OF Cons.prems(2) g1(1)]] show ?case by simp
qed simp

lemma gather_transmissions_ok:
  assumes "gather_transmissions ops store l commit = Ok ts"
  shows "\<exists>g. gathered_transmissions g = ts \<and> gathered_ok ops store l (subdag_transmission_ids commit) g"
proof -
  obtain g where g: "try_fold (gather_transmission ops store l) (subdag_transmission_ids commit)
         \<lparr>gathered_transmissions = [], seen_transaction_ids = [], seen_solution_ids = []\<rparr> = Ok g"
      "ts = gathered_transmissions g"
    using assms by (auto simp: gather_transmissions_def try_bind_Ok_iff)
  have "gathered_ok ops store l [] \<lparr>gathered_transmissions = [], seen_transaction_ids = [], seen_solution_ids = []\<rparr>"
    by (simp add: gathered_ok_def seen_ids_def)
  from gather_fold_ok[OF g(1) this] show ?thesis using g(2) by auto
qed

section \<open>A concrete state\<close>

definition quorum_storage :: "(nat memory_service, unit) storage" where
  "quorum_storage = sample_storage\<lparr>rounds := [(1, [(1, 6), (2, 8), (3, 10), (4, 12)])],
     certificates := map (\<lambda>(i, a). (i, plain_certificate i a 1 [])) [(1, 6), (2, 8), (3, 10), (4, 12)]\<rparr>"

definition sample_bft :: "(nat memory_service, unit) storage \<Rightarrow> dag \<Rightarrow> (nat memory_service, nat, unit) bft" where
  "sample_bft st d = \<lparr>bft_storage = st, bft_dag = d, bft_leader_certificate = None, leader_certificate_timer = 0,
     bft_ledger = sample_ledger, latest_leader = None, consensus_sender = True, sent_subdags = []\<rparr>"

lemma quorum_storage_round:
  "round_quorum (sample_bft quorum_storage d) 1 sample_committee" "current_round quorum_storage = 1"
  using sample_quorum
  by (simp_all add: round_quorum_def sample_bft_def quorum_storage_def sample_storage_def sample_ledger_def
      get_certificates_for_round_def List.map_filter_simps cset_of_list_def iset_insert_key_def iset_of_list_def)

lemma sample_expired: "is_timer_expired 10 (sample_bft st d)"
  by (simp add: is_timer_expired_def sample_bft_def MAX_LEADER_CERTIFICATE_DELAY_def i64_add_def)

lemma chain_dag_inv: "dag_inv (chain_dag 201)"
proof -
  have "[201 ..< 203] = [201, 202 :: nat]" by (simp add: upt_rec)
  then show ?thesis
    by (simp add: dag_inv_def graph_ok_def recent_ok_def wf_bmap_def wf_map_def chain_dag_def chain_cert_def)
qed

lemma chain_subdag:
  "\<exists>commit. ordered_commit (chain_view 201) (chain_cert 202) commit \<and> subdag_from commit = Ok commit \<and>
     subdag_transmission_ids commit = [] \<and> anchor_round commit = 202"
proof -
  obtain commit where oc: "ordered_commit (chain_view 201) (chain_cert 202) commit"
    using chain_ordered[of 201] by auto
  note ok = ordered_commit_ok[OF oc]
  have mem: "c \<in> {chain_cert 201, chain_cert 202}" if c: "c \<in> commit_certs commit" for c
  proof -
    obtain r where "201 \<le> r" "r \<le> 202" "c = chain_cert r"
      using c chain_reach[of 201 c] by (auto simp: ordered_commit_mem[OF oc])
    moreover have "r = 201 \<or> r = 202" using \<open>201 \<le> r\<close> \<open>r \<le> 202\<close> by arith
    ultimately show ?thesis by blast
  qed
  have "cert_transmission_ids c = []" if "c \<in> commit_certs commit" for c
    using mem[OF that] by (auto simp: chain_cert_def plain_certificate_def)
  then have ids: "subdag_transmission_ids commit = []"
    by (simp add: subdag_transmission_ids_def subdag_certificates_def commit_certs_def)
  have "set (keys commit) \<subseteq> {201, 202}" unfolding commit_keys[OF ok] using mem by fastforce
  then have "card (set (keys commit)) \<le> card {201, 202 :: nat}" by (intro card_mono) simp_all
  moreover have "distinct (keys commit)"
    using commit_ok_wf[OF ok] by (simp add: wf_bmap_def strict_sorted_iff)
  ultimately have "length commit \<le> MAX_GC_ROUNDS"
    using distinct_card[of "keys commit"] by (simp add: MAX_GC_ROUNDS_def)
  then show ?thesis
    using oc ids ordered_commit_subdag[OF oc] ordered_commit_last[OF oc] by (auto simp: anchor_round_def)
qed

section \<open>Properties\<close>

text \<open>C13. A round is left only with a quorum: when \<open>try_advance_to_next_round\<close> succeeds, storage was at that
  round, the authors of the round's certificates reach the quorum threshold of the round's committee, an
  even round moreover has its leader's certificate or an expired timer, and neither the certificates nor
  the DAG change.\<close>

theorem advance_needs_quorum:
  assumes "try_advance_to_next_round e now r s = (True, s')"
  shows "\<exists>committee. round_quorum s r committee \<and> current_round (bft_storage s) = r \<and>
    (even r \<longrightarrow> (\<exists>c. bft_leader_certificate s' = Some c \<and> cert_round c = r) \<or> is_timer_expired now s) \<and>
    certificates (bft_storage s') = certificates (bft_storage s) \<and> bft_dag s' = bft_dag s \<and>
    sent_subdags s' = sent_subdags s \<and> leader_certificate_timer s' = now"
proof -
  obtain s1 where s1: "(if r mod 2 = 0 then update_leader_certificate_to_even_round e now r s
         else (is_leader_quorum_or_nonleaders_available now r s, s)) = (True, s1)"
    using assms by (auto simp: try_advance_to_next_round_def Let_def split: if_splits prod.splits)
  obtain n st where inc: "increment_to_next_round (bft_env e s1) r (bft_storage s1) = (Ok n, st)"
      "s' = s1\<lparr>bft_storage := st, leader_certificate_timer := now\<rparr>"
    using assms s1 by (auto simp: try_advance_to_next_round_def Let_def split: if_splits prod.splits sum.splits)
  note frame = increment_frame(1)[OF inc(1)]
  show ?thesis
  proof (cases "r mod 2 = 0")
    case True
    then have "update_leader_certificate_to_even_round e now r s = (True, s1)" using s1 by simp
    from even_ready[OF this] show ?thesis using inc(2) frame by auto
  next
    case False
    then have "s1 = s" "is_leader_quorum_or_nonleaders_available now r s" using s1 by auto
    then show ?thesis using odd_ready[of now r s] inc(2) frame by auto
  qed
qed

theorem advance_needs_quorum_witness:
  "\<exists>s'. try_advance_to_next_round sample_env 10 1 (sample_bft quorum_storage dag_new) = (True, s') \<and>
     bft_dag s' = dag_new \<and> leader_certificate_timer s' = 10"
proof -
  let ?s = "sample_bft quorum_storage dag_new"
  have st: "bft_storage ?s = quorum_storage" "bft_ledger ?s = sample_ledger" "bft_dag ?s = dag_new"
    by (simp_all add: sample_bft_def)
  have "is_leader_quorum_or_nonleaders_available 10 1 ?s"
    by (rule odd_ready_expired[OF quorum_storage_round(1)]) (simp_all add: st quorum_storage_round(2) sample_expired)
  moreover obtain n st' where "increment_to_next_round (bft_env sample_env ?s) 1 quorum_storage = (Ok n, st')"
    using increment_succeeds[OF quorum_storage_round(2), of "bft_env sample_env ?s" sample_committee] st
    by (auto simp: bft_env_def sample_ledger_def u64_max_def quorum_storage_def sample_storage_def)
  ultimately obtain s' where adv: "try_advance_to_next_round sample_env 10 1 ?s = (True, s')"
    using quorum_storage_round(2) by (auto simp: try_advance_to_next_round_def Let_def st)
  from advance_needs_quorum[OF this] show ?thesis using adv st(3) by auto
qed

text \<open>C14. A round with a quorum cannot hold a validator up for ever: once the timer for the leader certificate
  has expired, \<open>try_advance_to_next_round\<close> succeeds, whether or not the leader's certificate has arrived.\<close>

theorem advance_after_timeout:
  assumes "round_quorum s r committee" "current_round (bft_storage s) = r" "r \<noteq> 0" "is_timer_expired now s"
    and "even r \<longrightarrow> (\<exists>leader s1. leader_of_round e committee r s = (Ok leader, s1))"
    and "r + 1 \<le> u64_max" "gc_round (bft_storage s) \<le> r + 1" "current_committee (bft_ledger s) = Ok c"
  shows "fst (try_advance_to_next_round e now r s)"
proof -
  obtain b s1 where s1: "(if r mod 2 = 0 then update_leader_certificate_to_even_round e now r s
         else (is_leader_quorum_or_nonleaders_available now r s, s)) = (b, s1)" by fastforce
  have "b \<and> bft_storage s1 = bft_storage s \<and> bft_ledger s1 = bft_ledger s"
  proof (cases "r mod 2 = 0")
    case True
    then obtain leader s2 where "leader_of_round e committee r s = (Ok leader, s2)" using assms(5) by auto
    from even_ready_expired[OF assms(1,2) True assms(3,4) this]
    have "update_leader_certificate_to_even_round e now r s = (True, s1)" using s1 True by simp
    then show ?thesis using even_ready[of e now r s s1] s1 True by simp
  next
    case False
    then have "odd r" by presburger
    then show ?thesis using odd_ready_expired[OF assms(1,2) _ assms(4)] s1 False by auto
  qed
  moreover from this obtain n st where "increment_to_next_round (bft_env e s1) r (bft_storage s) = (Ok n, st)"
    using increment_succeeds[OF assms(2,6,7), of "bft_env e s1" c] assms(8) by (auto simp: bft_env_def)
  ultimately show ?thesis
    using s1 assms(2) by (simp add: try_advance_to_next_round_def Let_def)
qed

theorem advance_after_timeout_witness:
  "fst (try_advance_to_next_round sample_env 10 1 (sample_bft quorum_storage dag_new))"
proof -
  have "bft_storage (sample_bft quorum_storage dag_new) = quorum_storage"
    "bft_ledger (sample_bft quorum_storage dag_new) = sample_ledger" by (simp_all add: sample_bft_def)
  then show ?thesis
    using advance_after_timeout[OF quorum_storage_round(1)[of dag_new], of 10 sample_env sample_committee]
      quorum_storage_round(2) sample_expired
    by (simp add: sample_ledger_def u64_max_def quorum_storage_def sample_storage_def)
qed

text \<open>C3. No certificate is committed twice: when an anchor that has not been committed is committed, none of
  the certificates of its subdag was done with before (recorded as committed or out of GC range), all of them
  are afterwards, and what was done with stays so; the subdag is what \<open>Subdag::from\<close> accepts, and it is sent to
  the ledger exactly once, unless sending is skipped.\<close>

theorem commit_anchor_once:
  assumes "commit_anchor e consensus skip leader s = Some (Ok True, s')"
    and "dag_inv (bft_dag s)" "keys_match (bft_view s)" "rounds_descend (bft_view s) leader"
    and "inj_on cert_id (insert leader (view_certs (bft_view s)))"
    and "0 < max_gc_rounds (bft_storage s)" "cert_round leader + max_gc_rounds (bft_storage s) \<le> u64_max"
    and "last_committed_round (bft_dag s) + max_gc_rounds (bft_storage s) \<le> u64_max"
    and "\<not> done_with (max_gc_rounds (bft_storage s)) (bft_dag s) leader"
  shows "\<exists>commit ts. let gc = max_gc_rounds (bft_storage s) in
    subdag_from commit = Ok commit \<and> leader \<in> commit_certs commit \<and>
    (\<forall>c\<in>commit_certs commit. \<not> done_with gc (bft_dag s) c \<and> done_with gc (bft_dag s') c) \<and>
    (\<forall>c. done_with gc (bft_dag s) c \<longrightarrow> done_with gc (bft_dag s') c) \<and>
    last_committed_round (bft_dag s') = max (last_committed_round (bft_dag s)) (cert_round leader) \<and>
    sent_subdags s' = sent_subdags s @ (if \<not> skip \<and> consensus_sender s then [(commit, ts)] else [])"
proof -
  let ?gc = "max_gc_rounds (bft_storage s)"
  obtain commit ts where c: "order_dag_with_dfs (bft_view s) leader = Some (Ok commit)"
    "subdag_from commit = Ok commit" "bft_dag s' = dag_commit_all s commit"
    "sent_subdags s' = sent_subdags s @ (if \<not> skip \<and> consensus_sender s then [(commit, ts)] else [])"
    by (rule commit_anchor_Ok[OF assms(1)])
  have v: "view_dag (bft_view s) = bft_dag s" "view_storage (bft_view s) = bft_storage s"
    by (simp_all add: bft_view_def)
  have oc: "ordered_commit (bft_view s) leader commit"
    using assms c(1) by (simp add: ordered_commit_def v in_range_def done_with_def)
  have set_cs: "set (subdag_certificates commit) = commit_certs commit"
    by (simp add: subdag_certificates_def commit_certs_def)
  have rounds: "cert_round x \<le> cert_round leader" if "x \<in> commit_certs commit" for x
    using that path_rounds[OF assms(4)] ordered_commit_mem[OF oc] by blast
  then have "\<forall>x\<in>set (subdag_certificates commit). cert_round x + ?gc \<le> u64_max"
    unfolding set_cs using assms(7) by (meson add_le_mono1 le_trans)
  from fold_dag_commit[OF assms(2,6,8) this] have f:
    "\<forall>x\<in>commit_certs commit. done_with ?gc (bft_dag s') x"
    "\<forall>x. done_with ?gc (bft_dag s) x \<longrightarrow> done_with ?gc (bft_dag s') x"
    "last_committed_round (bft_dag s') = Max (insert (last_committed_round (bft_dag s)) (cert_round ` commit_certs commit))"
    unfolding c(3) dag_commit_all_def set_cs[symmetric] by (simp_all add: Let_def)
  have l: "leader \<in> commit_certs commit" by (rule ordered_commit_leader[OF oc])
  have "Max (cert_round ` commit_certs commit) = cert_round leader"
    by (rule Max_eqI) (use l rounds in auto)
  then have "last_committed_round (bft_dag s') = max (last_committed_round (bft_dag s)) (cert_round leader)"
    using f(3) l by (subst f(3), subst Max_insert) auto
  moreover have "\<forall>x\<in>commit_certs commit. \<not> done_with ?gc (bft_dag s) x"
    using ordered_not_done[OF oc] assms(2,9) by (simp add: v)
  ultimately show ?thesis using c(2,4) f(1,2) l unfolding Let_def by blast
qed

theorem commit_anchor_once_witness:
  "\<exists>s'. commit_anchor sample_env (\<lambda>l _ _. Reply True l) False (chain_cert 202)
       (sample_bft sample_storage (chain_dag 201)) = Some (Ok True, s') \<and>
     last_committed_round (bft_dag s') = 202 \<and> length (sent_subdags s') = 1"
proof -
  let ?s = "sample_bft sample_storage (chain_dag 201)"
  obtain commit where c: "ordered_commit (chain_view 201) (chain_cert 202) commit" "subdag_from commit = Ok commit"
      "subdag_transmission_ids commit = []" "anchor_round commit = 202"
    using chain_subdag by blast
  note D = ordered_commitD[OF c(1)]
  have s: "bft_view ?s = chain_view 201" "bft_storage ?s = sample_storage" "bft_dag ?s = chain_dag 201"
    "consensus_sender ?s" "sent_subdags ?s = []" "max_gc_rounds sample_storage = 100"
    "last_committed_round (chain_dag 201) = 200"
    by (simp_all add: sample_bft_def bft_view_def chain_view_def sample_storage_def chain_dag_def)
  obtain s' where s': "commit_anchor sample_env (\<lambda>l _ _. Reply True l) False (chain_cert 202) ?s = Some (Ok True, s')"
    using c D(1) by (simp add: commit_anchor_def s gather_transmissions_def Let_def)
  have "\<not> done_with 100 (chain_dag 201) (chain_cert 202)"
    by (simp add: done_with_def kept_round_def is_recently_committed_def chain_dag_def u64_add_exact u64_max_def)
  from commit_anchor_once[OF s', unfolded s, OF chain_dag_inv D(2,4,3) _ _ _ this]
  show ?thesis using s' s by (auto simp: Let_def u64_max_def)
qed

text \<open>C18. The block gets the right transmissions: every one is declared by a certificate of the subdag, is not
  in the ledger yet and comes from storage; no two have the same solution or transaction ID; and every
  transmission of the subdag is either in the ledger (or the ledger cannot tell) or represented by one with the
  same solution or transaction ID.\<close>

theorem transmissions_of_subdag:
  assumes "gather_transmissions ops store l commit = Ok ts"
  shows "(\<forall>(t, x)\<in>set ts. t \<in> set (subdag_transmission_ids commit) \<and>
      ledger_contains_transmission l t = Ok False \<and> get_transmission ops store t = Some x) \<and>
    distinct (map solution_or_transaction (keys ts)) \<and>
    (\<forall>t\<in>set (subdag_transmission_ids commit). t \<noteq> Ratification \<and>
      (ledger_contains_transmission l t \<noteq> Ok False \<or>
       solution_or_transaction t \<in> solution_or_transaction ` set (keys ts)))"
proof -
  obtain g where "gathered_transmissions g = ts" "gathered_ok ops store l (subdag_transmission_ids commit) g"
    using gather_transmissions_ok[OF assms] by blast
  then show ?thesis unfolding gathered_ok_def by blast
qed

theorem transmissions_of_subdag_witness:
  "\<exists>ts. gather_transmissions memory_ops
       \<lparr>mem_transmissions = [(Solution 1 2, 50 :: nat, [7])], mem_aborted = []\<rparr> sample_ledger
       [(1, [sample_cert])] = Ok ts \<and> distinct (map solution_or_transaction (keys ts)) \<and> length ts = 1"
proof -
  have "gather_transmissions memory_ops
       \<lparr>mem_transmissions = [(Solution 1 2, 50 :: nat, [7])], mem_aborted = []\<rparr> sample_ledger
       [(1, [sample_cert])] = Ok [(Solution 1 2, 50)]"
    by (simp add: gather_transmissions_def gather_transmission_def subdag_transmission_ids_def
        subdag_certificates_def sample_cert_fields sample_ledger_def unwrap_or_def
        memory_ops_def memory_get_def)
  from transmissions_of_subdag[OF this] this show ?thesis by auto
qed

end
