(* ===== verification/Anchors.thy ===== *)
theory Anchors
  imports BFT
begin

text \<open>
  Why validators commit the same anchors (the argument behind \<open>commit_leader_certificate\<close> of
  \<open>node/bft/src/bft.rs\<close>).  A validator commits an anchor on its own when certificates of the next round with
  enough stake refer to it; any other validator that commits a later anchor then finds a path from there to
  the first one, because availability and quorum thresholds overlap, and so commits it too; and below a
  common anchor both walk down the same chain of earlier anchors.  The theory also holds the committee a
  round uses, from \<open>node/bft/ledger-service/src/ledger.rs\<close>.
\<close>

section \<open>The committee of a round\<close>

definition committee_lookback_round :: "u64 \<Rightarrow> u64" where
  "committee_lookback_round r =
     (let previous_round = (if r mod 2 = 0 then saturating_sub r 1 else saturating_sub r 2)
      in saturating_sub previous_round COMMITTEE_LOOKBACK_RANGE)"

definition core_committee_lookback :: "(u64 \<Rightarrow> committee option result) \<Rightarrow> u64 \<Rightarrow> committee result" where
  "core_committee_lookback get_committee_for_round r =
     try_bind (get_committee_for_round (committee_lookback_round r))
       (\<lambda>res. case res of Some committee \<Rightarrow> Ok committee
          | None \<Rightarrow> bail ''No committee found for round in the ledger'')"

section \<open>Support in the DAG\<close>

definition round_list :: "dag \<Rightarrow> u64 \<Rightarrow> batch_certificate list" where
  "round_list d r = (case map_of (graph d) r of None \<Rightarrow> [] | Some m \<Rightarrow> vals m)"

definition referrers :: "dag \<Rightarrow> batch_certificate \<Rightarrow> address list" where
  "referrers d c = iset_of_list (map cert_author
     (filter (\<lambda>p. cert_id c \<in> set (cert_previous_ids p)) (round_list d (cert_round c + 1))))"

definition past_authors :: "dag \<Rightarrow> batch_certificate \<Rightarrow> address list" where
  "past_authors d c = iset_of_list (map cert_author
     (filter (\<lambda>p. cert_id p \<in> set (cert_previous_ids c)) (round_list d (cert_round c - 1))))"

text \<open>What storage guarantees of every certificate (\<open>storage_invariant\<close>), for the part of a DAG above a
  round: its predecessors are there, and from the second round on their authors form a quorum.\<close>

definition dag_complete :: "'t ledger \<Rightarrow> dag \<Rightarrow> u64 \<Rightarrow> bool" where
  "dag_complete l d r \<longleftrightarrow> (\<forall>k>r. \<forall>c\<in>dag_certs d k.
     (\<forall>i\<in>set (cert_previous_ids c). \<exists>p\<in>dag_certs d (k - 1). cert_id p = i) \<and>
     (r + 2 \<le> k \<longrightarrow> (\<exists>cm. get_committee_lookback_for_round l (k - 1) = Ok cm \<and> wf_committee cm \<and>
        2 * total_stake cm \<le> u64_max \<and> is_quorum_threshold_reached cm (past_authors d c))))"

definition no_equivocation :: "dag \<Rightarrow> dag \<Rightarrow> u64 \<Rightarrow> bool" where
  "no_equivocation d d' r \<longleftrightarrow>
     (\<forall>c\<in>dag_certs d r. \<forall>c'\<in>dag_certs d' r. cert_author c = cert_author c' \<longrightarrow> c = c')"

lemma set_round_list [simp]: "set (round_list d r) = dag_certs d r"
  by (simp add: round_list_def dag_certs_def split: option.splits)

lemma availability_meets_quorum:
  assumes "wf_committee c" "2 * total_stake c \<le> u64_max" "distinct A" "distinct B"
    and "is_availability_threshold_reached c A" "is_quorum_threshold_reached c B"
  shows "\<exists>a. a \<in> set A \<and> a \<in> set B"
proof (rule ccontr)
  assume "\<not> ?thesis"
  then have "set A \<inter> set B = {}" by auto
  then have "stake_of c (set A \<union> set B) = stake_of c (set A) + stake_of c (set B)"
    unfolding stake_of_def by (intro sum.union_disjoint) auto
  moreover have "stake_of c (set A \<union> set B) \<le> total_stake c"
    by (rule stake_of_le_total[OF assms(1)]) simp
  moreover have "availability_threshold c \<le> stake_of c (set A)" "quorum_threshold c \<le> stake_of c (set B)"
    using assms combined_stake_exact
    unfolding is_quorum_threshold_reached_def is_availability_threshold_reached_def by metis+
  moreover have "max_faulty c \<le> total_stake c" by (simp add: max_faulty_def)
  ultimately show False using thresholds[OF wf_committee_total_pos[OF assms(1)] assms(2)] by simp
qed

lemma dag_path_trans: "dag_path d p q \<Longrightarrow> dag_path d c p \<Longrightarrow> dag_path d c q"
  by (induction rule: dag_path.induct) (auto intro: dag_path.down)

lemma dag_path_end: "dag_path d c q \<Longrightarrow> dag_inv d \<Longrightarrow> cert_round q < cert_round c \<Longrightarrow> q \<in> dag_certs d (cert_round q)"
  by (erule dag_pathE) (auto dest: dag_certs_round)

lemma dag_path_step:
  assumes "dag_inv d" "c \<in> dag_certs d (Suc k)" "p \<in> dag_certs d k" "cert_id p \<in> set (cert_previous_ids c)"
  shows "dag_path d c p"
  using assms dag_certs_round[OF assms(1,2)] by (intro dag_path.down[OF dag_path.here]) auto

lemma dag_completeD:
  assumes "dag_complete l d r" "c \<in> dag_certs d k" "r < k"
  shows "i \<in> set (cert_previous_ids c) \<Longrightarrow> \<exists>p\<in>dag_certs d (k - 1). cert_id p = i"
    "r + 2 \<le> k \<Longrightarrow> \<exists>cm. get_committee_lookback_for_round l (k - 1) = Ok cm \<and> wf_committee cm \<and>
        2 * total_stake cm \<le> u64_max \<and> is_quorum_threshold_reached cm (past_authors d c)"
  using assms unfolding dag_complete_def by blast+

lemma mem_past_authors:
  assumes "dag_inv d" "c \<in> dag_certs d (Suc k)" "a \<in> set (past_authors d c)"
  shows "\<exists>p\<in>dag_certs d k. cert_author p = a \<and> cert_id p \<in> set (cert_previous_ids c)"
  using assms(3) dag_certs_round[OF assms(1,2)] by (auto simp: past_authors_def)

text \<open>An anchor with enough support is in the past of every certificate two or more rounds later.\<close>

lemma supported_in_past:
  assumes inv: "dag_inv d'" and d: "dag_inv d" and full: "dag_complete l d (cert_round a)"
    and cm: "get_committee_lookback_for_round l (cert_round a + 1) = Ok cm"
    and sup: "is_availability_threshold_reached cm (referrers d' a)"
    and eq: "no_equivocation d' d (cert_round a + 1)"
  shows "c \<in> dag_certs d (cert_round a + 2 + n) \<Longrightarrow>
    \<exists>q. dag_path d c q \<and> cert_round q = cert_round a \<and> cert_id q = cert_id a"
proof (induction n arbitrary: c)
  case 0
  let ?r = "cert_round a"
  have c: "c \<in> dag_certs d (Suc (Suc ?r))" using "0.prems" by simp
  obtain b where b: "b \<in> set (referrers d' a)" "b \<in> set (past_authors d c)"
    using dag_completeD(2)[OF full c] cm sup
    by (auto dest: availability_meets_quorum[of cm "referrers d' a" "past_authors d c"]
        simp: referrers_def past_authors_def)
  obtain p where p: "p \<in> dag_certs d (Suc ?r)" "cert_author p = b" "cert_id p \<in> set (cert_previous_ids c)"
    using mem_past_authors[OF d c b(2)] by blast
  obtain p' where p': "p' \<in> dag_certs d' (Suc ?r)" "cert_author p' = b" "cert_id a \<in> set (cert_previous_ids p')"
    using b(1) by (auto simp: referrers_def)
  have "p' = p" using eq p(1,2) p'(1,2) by (simp add: no_equivocation_def)
  then obtain q where q: "q \<in> dag_certs d ?r" "cert_id q = cert_id a"
    using dag_completeD(1)[OF full p(1) _ p'(3)[unfolded \<open>p' = p\<close>]] by auto
  have "dag_path d p q" using p' q \<open>p' = p\<close> by (intro dag_path_step[OF d p(1)]) auto
  from dag_path_trans[OF this dag_path_step[OF d c p(1,3)]] show ?case
    using q dag_certs_round[OF d q(1)] by blast
next
  case (Suc n)
  let ?k = "cert_round a + 2 + n"
  have c: "c \<in> dag_certs d (Suc ?k)" using Suc.prems by simp
  obtain cm where cm: "wf_committee cm" "2 * total_stake cm \<le> u64_max"
      "is_quorum_threshold_reached cm (past_authors d c)"
    using dag_completeD(2)[OF full c] by auto
  have "past_authors d c \<noteq> []" using quorum_not_empty[of cm] cm(3) by auto
  then obtain b where "b \<in> set (past_authors d c)" by (cases "past_authors d c") auto
  then obtain p where p: "p \<in> dag_certs d ?k" "cert_id p \<in> set (cert_previous_ids c)"
    using mem_past_authors[OF d c] by blast
  from Suc.IH[OF p(1)] show ?case
    using dag_path_trans[OF _ dag_path_step[OF d c p]] by blast
qed

section \<open>The walk over the anchors\<close>

text \<open>The cached leader is the one the committee of its round elects.\<close>

definition leader_coherent :: "('s, 't, 'u) storage_env \<Rightarrow> ('s, 't, 'u) bft \<Rightarrow> bool" where
  "leader_coherent e s \<longleftrightarrow> (\<forall>r a cm. latest_leader s = Some (r, a) \<longrightarrow>
     get_committee_lookback_for_round (bft_ledger s) r = Ok cm \<longrightarrow> get_leader (env_crypto e) cm r = Ok a)"

lemma leader_of_round_coherent:
  assumes "leader_of_round e cm r s = (Ok a, s')" "leader_coherent e s"
    and "get_committee_lookback_for_round (bft_ledger s) r = Ok cm"
  shows "get_leader (env_crypto e) cm r = Ok a" "leader_coherent e s'"
  using assms by (auto simp: leader_of_round_def leader_coherent_def split: option.splits sum.splits if_splits)

text \<open>The anchor of a round that the walk adds after \<open>c\<close>.\<close>

definition linked_leader :: "dag \<Rightarrow> u64 \<Rightarrow> address \<Rightarrow> batch_certificate \<Rightarrow> batch_certificate option" where
  "linked_leader d r a c =
     (case dag_get_certificate_for_round_with_author d r a of
        None \<Rightarrow> None | Some p \<Rightarrow> if is_linked d p c = Ok True then Some p else None)"

definition link_decided :: "dag \<Rightarrow> u64 \<Rightarrow> address \<Rightarrow> batch_certificate \<Rightarrow> bool" where
  "link_decided d r a c \<longleftrightarrow>
     (\<forall>p. dag_get_certificate_for_round_with_author d r a = Some p \<longrightarrow> is_ok (is_linked d p c))"

lemma dag_lookup_iff:
  assumes "dag_inv d"
  shows "dag_get_certificate_for_round_with_author d r a = Some p \<longleftrightarrow> p \<in> dag_certs d r \<and> cert_author p = a"
proof (cases "map_of (graph d) r")
  case (Some m)
  note ok = graph_okD[OF dag_inv_graph[OF assms] Some]
  have "p \<in> set (vals m)" if "map_of m a = Some p" using map_of_SomeD[OF that] by force
  then show ?thesis
    using ok(3)[of a p] ok(4)[of p]
    by (auto simp: dag_get_certificate_for_round_with_author_def dag_certs_def Some)
qed (simp add: dag_get_certificate_for_round_with_author_def dag_certs_def)

lemma linked_leader_iff:
  assumes "dag_inv d" "link_decided d r a c" "r < cert_round c"
    and "inj_on cert_id (dag_certs d r)"
  shows "linked_leader d r a c = Some p \<longleftrightarrow> p \<in> dag_certs d r \<and> cert_author p = a \<and> dag_path d c p"
proof -
  have "is_linked d p c = Ok True \<longleftrightarrow> dag_path d c p"
    if p: "p \<in> dag_certs d r" "cert_author p = a"
  proof -
    have r: "cert_round p = r" by (rule dag_certs_round[OF assms(1) p(1)])
    have "q = p" if "dag_path d c q" "cert_round q = r" "cert_id q = cert_id p" for q
      using dag_path_end[OF that(1) assms(1)] that(2,3) assms(3,4) p(1) by (auto simp: inj_on_def)
    moreover obtain b where "is_linked d p c = Ok b"
      using assms(2) p dag_lookup_iff[OF assms(1)] by (auto simp: link_decided_def is_ok_iff)
    ultimately show ?thesis using is_linked_spec[OF assms(1), where p = p and c = c] r by auto
  qed
  moreover have "linked_leader d r a c = Some p \<longleftrightarrow>
      dag_get_certificate_for_round_with_author d r a = Some p \<and> is_linked d p c = Ok True"
    by (auto simp: linked_leader_def split: option.splits)
  ultimately show ?thesis using dag_lookup_iff[OF assms(1), of r a p] by blast
qed

text \<open>One round of the walk, when it does not fail.\<close>

lemma collect_leaders_step:
  assumes "collect_leaders e (r # rs) c ls s = (Ok ls', s')" "leader_coherent e s"
  obtains cm a s1 where "get_committee_lookback_for_round (bft_ledger s) r = Ok cm"
    "get_leader (env_crypto e) cm r = Ok a" "leader_coherent e s1" "bft_dag s1 = bft_dag s"
    "bft_ledger s1 = bft_ledger s" "link_decided (bft_dag s) r a c"
    "(case linked_leader (bft_dag s) r a c of
        None \<Rightarrow> collect_leaders e rs c ls s1
      | Some p \<Rightarrow> collect_leaders e rs p (p # ls) s1) = (Ok ls', s')"
proof -
  obtain cm where cm: "get_committee_lookback_for_round (bft_ledger s) r = Ok cm"
    using assms(1) by (auto split: sum.splits)
  obtain a s1 where a: "leader_of_round e cm r s = (Ok a, s1)"
    using assms(1) cm by (auto split: sum.splits prod.splits)
  note coh = leader_of_round_coherent[OF a assms(2) cm] and fr = leader_of_round_frame[OF a]
  have "link_decided (bft_dag s) r a c \<and> (case linked_leader (bft_dag s) r a c of
        None \<Rightarrow> collect_leaders e rs c ls s1
      | Some p \<Rightarrow> collect_leaders e rs p (p # ls) s1) = (Ok ls', s')"
    using assms(1) cm a fr(2)
    by (auto simp: linked_leader_def link_decided_def is_ok_iff split: option.splits sum.splits if_splits)
  then show thesis using that cm coh fr by blast
qed

lemma collect_leaders_acc: "collect_leaders e rs c ls s = (Ok ls', s') \<Longrightarrow> set ls \<subseteq> set ls'"
proof (induction e rs c ls s rule: collect_leaders.induct)
  case (2 e r rs c ls s)
  then show ?case by (fastforce split: sum.splits prod.splits option.splits if_splits)
qed simp

definition spaced :: "u64 list \<Rightarrow> batch_certificate \<Rightarrow> bool" where
  "spaced rs c \<longleftrightarrow> sorted_wrt (\<lambda>a b. b + 2 \<le> a) rs \<and> (\<forall>r\<in>set rs. r + 2 \<le> cert_round c)"

text \<open>The walk meets every anchor that is in the past of all later certificates.\<close>

lemma collect_leaders_meets:
  assumes inv: "dag_inv d" and inj: "\<forall>r. inj_on cert_id (dag_certs d r)"
    and past: "\<And>k c. c \<in> dag_certs d k \<Longrightarrow> cert_round p + 2 \<le> k \<Longrightarrow> dag_path d c p"
    and p: "p \<in> dag_certs d (cert_round p)"
    and lead: "get_committee_lookback_for_round l (cert_round p) = Ok cm"
      "get_leader (env_crypto e) cm (cert_round p) = Ok (cert_author p)"
  shows "collect_leaders e rs c ls s = (Ok ls', s') \<Longrightarrow> bft_dag s = d \<Longrightarrow> bft_ledger s = l \<Longrightarrow>
    leader_coherent e s \<Longrightarrow> c \<in> dag_certs d (cert_round c) \<Longrightarrow> spaced rs c \<Longrightarrow>
    cert_round p \<in> set rs \<Longrightarrow> p \<in> set ls'"
proof (induction rs arbitrary: c ls s)
  case (Cons r rs)
  obtain cm' a s1 where st: "get_committee_lookback_for_round l r = Ok cm'"
    "get_leader (env_crypto e) cm' r = Ok a" "leader_coherent e s1" "bft_dag s1 = d" "bft_ledger s1 = l"
    "link_decided d r a c" "(case linked_leader d r a c of
        None \<Rightarrow> collect_leaders e rs c ls s1
      | Some p \<Rightarrow> collect_leaders e rs p (p # ls) s1) = (Ok ls', s')"
    by (rule collect_leaders_step[OF Cons.prems(1,4), unfolded Cons.prems(2,3)])
  have lt: "r < cert_round c" and ge: "r + 2 \<le> cert_round c" using Cons.prems(6) by (auto simp: spaced_def)
  note iff = linked_leader_iff[OF inv st(6) lt inj[rule_format]]
  show ?case
  proof (cases "cert_round p = r")
    case True
    then have "a = cert_author p" using st(1,2) lead by simp
    then have "linked_leader d r a c = Some p" using iff p past[OF Cons.prems(5)] ge True by simp
    then show ?thesis using st(7) collect_leaders_acc[of e rs p "p # ls"] by auto
  next
    case False
    then have r: "cert_round p \<in> set rs" using Cons.prems(7) by simp
    show ?thesis
    proof (cases "linked_leader d r a c")
      case None
      then show ?thesis using Cons.IH[of c ls s1] Cons.prems(5,6) st r by (auto simp: spaced_def)
    next
      case (Some q)
      then have q: "q \<in> dag_certs d r" using iff by blast
      have "cert_round q = r" by (rule dag_certs_round[OF inv q])
      then show ?thesis
        using Cons.IH[of q "q # ls" s1] Cons.prems(6) st r Some q by (auto simp: spaced_def)
    qed
  qed
qed simp

section \<open>Two validators\<close>

text \<open>A certificate's past is the same in every DAG that holds all of it.\<close>

lemma dag_path_transfer:
  assumes "dag_path d c q" "dag_inv d" "dag_inv d'" "dag_complete l d' lo"
    and "inj_on cert_id (\<Union>r. dag_certs d r \<union> dag_certs d' r)"
    and "c \<in> dag_certs d' (cert_round c)" "lo \<le> cert_round q"
  shows "dag_path d' c q \<and> q \<in> dag_certs d' (cert_round q)"
  using assms(1,7)
proof (induction rule: dag_path.induct)
  case here
  then show ?case using assms(6) by (auto intro: dag_path.here)
next
  case (down q r p)
  have r: "cert_round p = r" by (rule dag_certs_round[OF assms(2) down.hyps(3)])
  have q: "dag_path d' c q" "q \<in> dag_certs d' (Suc r)"
    using down.IH down.prems down.hyps(2) r by auto
  have "lo < Suc r" using down.prems r by simp
  then obtain p' where p': "p' \<in> dag_certs d' r" "cert_id p' = cert_id p"
    using dag_completeD(1)[OF assms(4) q(2) _ down.hyps(4)] by auto
  then have "p' = p"
    using inj_onD[OF assms(5), of p' p] down.hyps(3) by blast
  then show ?case using dag_path.down[OF q(1) down.hyps(2) _ down.hyps(4)] p'(1) r by simp
qed

lemma linked_leader_agree:
  assumes "dag_inv d" "dag_inv d'" "dag_complete l d lo" "dag_complete l' d' lo"
    and inj: "inj_on cert_id (\<Union>r. dag_certs d r \<union> dag_certs d' r)"
    and "c \<in> dag_certs d (cert_round c)" "c \<in> dag_certs d' (cert_round c)" "lo \<le> r" "r < cert_round c"
    and "link_decided d r a c" "link_decided d' r a c"
  shows "linked_leader d r a c = linked_leader d' r a c"
proof -
  have inj1: "inj_on cert_id (dag_certs d r)" "inj_on cert_id (dag_certs d' r)"
    by (rule inj_on_subset[OF inj]; blast)+
  have inj2: "inj_on cert_id (\<Union>r. dag_certs d' r \<union> dag_certs d r)" using inj by (simp add: Un_commute)
  note iff = linked_leader_iff[OF assms(1,10,9) inj1(1)] and iff' = linked_leader_iff[OF assms(2,11,9) inj1(2)]
  have "linked_leader d r a c = Some p \<longleftrightarrow> linked_leader d' r a c = Some p" for p
  proof
    assume "linked_leader d r a c = Some p"
    then have p: "p \<in> dag_certs d r" "cert_author p = a" "dag_path d c p" using iff by blast+
    then show "linked_leader d' r a c = Some p"
      using dag_path_transfer[OF p(3) assms(1,2,4) inj assms(7)] dag_certs_round[OF assms(1) p(1)] assms(8) iff'
      by simp
  next
    assume "linked_leader d' r a c = Some p"
    then have p: "p \<in> dag_certs d' r" "cert_author p = a" "dag_path d' c p" using iff' by blast+
    then show "linked_leader d r a c = Some p"
      using dag_path_transfer[OF p(3) assms(2,1,3) inj2 assms(6)] dag_certs_round[OF assms(2) p(1)] assms(8) iff
      by simp
  qed
  then show ?thesis by (metis option.exhaust)
qed

lemma collect_leaders_agree:
  assumes d: "dag_inv d" "dag_inv d'" "dag_complete l d lo" "dag_complete l' d' lo"
    and inj: "inj_on cert_id (\<Union>r. dag_certs d r \<union> dag_certs d' r)"
    and look: "get_committee_lookback_for_round l = get_committee_lookback_for_round l'"
    and cr: "env_crypto e = env_crypto e'"
  shows "collect_leaders e rs c ls s = (Ok xs, s1) \<Longrightarrow> collect_leaders e' rs c ls s' = (Ok xs', s1') \<Longrightarrow>
    bft_dag s = d \<Longrightarrow> bft_ledger s = l \<Longrightarrow> leader_coherent e s \<Longrightarrow>
    bft_dag s' = d' \<Longrightarrow> bft_ledger s' = l' \<Longrightarrow> leader_coherent e' s' \<Longrightarrow>
    c \<in> dag_certs d (cert_round c) \<Longrightarrow> c \<in> dag_certs d' (cert_round c) \<Longrightarrow> spaced rs c \<Longrightarrow>
    \<forall>r\<in>set rs. lo \<le> r \<Longrightarrow> xs = xs'"
proof (induction rs arbitrary: c ls s s')
  case (Cons r rs)
  obtain cm a t where st: "get_committee_lookback_for_round l r = Ok cm"
    "get_leader (env_crypto e) cm r = Ok a" "leader_coherent e t" "bft_dag t = d" "bft_ledger t = l"
    "link_decided d r a c" "(case linked_leader d r a c of
        None \<Rightarrow> collect_leaders e rs c ls t
      | Some p \<Rightarrow> collect_leaders e rs p (p # ls) t) = (Ok xs, s1)"
    by (rule collect_leaders_step[OF Cons.prems(1,5), unfolded Cons.prems(3,4)])
  obtain cm' a' t' where st': "get_committee_lookback_for_round l' r = Ok cm'"
    "get_leader (env_crypto e') cm' r = Ok a'" "leader_coherent e' t'" "bft_dag t' = d'" "bft_ledger t' = l'"
    "link_decided d' r a' c" "(case linked_leader d' r a' c of
        None \<Rightarrow> collect_leaders e' rs c ls t'
      | Some p \<Rightarrow> collect_leaders e' rs p (p # ls) t') = (Ok xs', s1')"
    by (rule collect_leaders_step[OF Cons.prems(2,8), unfolded Cons.prems(6,7)])
  have a: "a' = a" using st(1,2) st'(1,2) look cr by simp
  have lt: "r < cert_round c" and lo: "lo \<le> r" using Cons.prems(11,12) by (auto simp: spaced_def)
  have eq: "linked_leader d r a c = linked_leader d' r a c"
    using linked_leader_agree[OF d inj Cons.prems(9,10) lo lt st(6)] st'(6) a by simp
  show ?case
  proof (cases "linked_leader d r a c")
    case None
    then show ?thesis
      using Cons.IH[of c ls t t'] st(3-5,7) st'(3-5,7) Cons.prems(9-12) eq a by (simp add: spaced_def)
  next
    case (Some p)
    have p: "p \<in> dag_certs d r" "p \<in> dag_certs d' r"
      using Some eq dag_lookup_iff[OF d(1)] dag_lookup_iff[OF d(2)]
      by (auto simp: linked_leader_def split: option.splits if_splits)
    moreover have "cert_round p = r" by (rule dag_certs_round[OF d(1) p(1)])
    moreover have "collect_leaders e rs p (p # ls) t = (Ok xs, s1)"
      "collect_leaders e' rs p (p # ls) t' = (Ok xs', s1')"
      using st(7) st'(7) Some eq[symmetric] a by simp_all
    ultimately show ?thesis
      using Cons.IH[of p "p # ls" t t'] st(3-5) st'(3-5) Cons.prems(11,12) by (simp add: spaced_def)
  qed
qed simp

lemma leader_rounds_spaced:
  assumes "2 \<le> cert_round c"
  shows "spaced (leader_rounds lo (saturating_sub (cert_round c) 2)) c"
    "r \<in> set (leader_rounds lo (saturating_sub (cert_round c) 2)) \<longleftrightarrow>
       lo \<le> r \<and> r + 2 \<le> cert_round c \<and> even (cert_round c - r)"
proof -
  let ?b = "saturating_sub (cert_round c) 2"
  have b: "?b + 2 = cert_round c" using assms by (simp add: saturating_sub_def)
  have "sorted_wrt (\<lambda>a b. b < a) (rev [lo ..< Suc ?b])" by (simp add: sorted_wrt_rev del: upt_Suc)
  then have "sorted_wrt (\<lambda>a b. b < a) (leader_rounds lo ?b)"
    unfolding leader_rounds_def by (rule sorted_wrt_filter)
  then have "sorted_wrt (\<lambda>a b. b + 2 \<le> a) (leader_rounds lo ?b)"
  proof (rule sorted_wrt_mono_rel[rotated])
    fix x y assume "x \<in> set (leader_rounds lo ?b)" "y \<in> set (leader_rounds lo ?b)" "y < x"
    then have "(?b - x) mod 2 = 0" "(?b - y) mod 2 = 0" "x \<le> ?b" "y < x"
      by (auto simp: leader_rounds_def simp del: upt_Suc)
    then show "y + 2 \<le> x" by presburger
  qed
  then show "spaced (leader_rounds lo ?b) c"
    using b by (auto simp: spaced_def leader_rounds_def simp del: upt_Suc)
  have "even (?b - r) \<longleftrightarrow> even (cert_round c - r)" if "r \<le> ?b" using b that by presburger
  then show "r \<in> set (leader_rounds lo ?b) \<longleftrightarrow> lo \<le> r \<and> r + 2 \<le> cert_round c \<and> even (cert_round c - r)"
    using b by (auto simp: leader_rounds_def even_iff_mod_2_eq_zero[symmetric] simp del: upt_Suc)
qed

end
