(* ===== verification/Transmission.thy ===== *)
theory Transmission
  imports Narwhal
begin

text \<open>
  Transmissions and their deferred payloads, after \<open>snarkVM/ledger/narwhal/data/src/lib.rs\<close> and
  \<open>snarkVM/ledger/narwhal/transmission/src\<close>.  A payload is an object or the bytes it will be read from;
  the encodings of solutions and transactions and the hash function are parameters.  The checksum that a
  transmission ID carries is shown to be the same before and after a payload travels over the network.
\<close>

section \<open>Bits\<close>

definition from_bits_le :: "nat \<Rightarrow> bool list \<Rightarrow> nat result" where
  "from_bits_le n bits =
     ensure (\<forall>b\<in>set (drop n bits). \<not> b) ''upper bits are not zero''
       (Ok (fold (\<lambda>b v. 2 * v + of_bool b) (rev (take n bits)) 0))"

lemma fold_bits_le: "x < 2 ^ n \<Longrightarrow> fold (\<lambda>b v. 2 * v + of_bool b) (rev (bits_le n x)) 0 = x"
proof (induction n arbitrary: x)
  case (Suc n)
  have "x div 2 < 2 ^ n" using Suc.prems by simp
  from Suc.IH[OF this] show ?case by (cases "odd x") simp_all
qed simp

lemma fold_bits_less: "fold (\<lambda>b v. 2 * v + of_bool b) bs (v :: nat) < 2 ^ length bs * (v + 1)"
proof (induction bs arbitrary: v)
  case (Cons b bs)
  have "2 ^ length bs * (2 * v + of_bool b + 1) \<le> 2 ^ length bs * (2 * (v + 1))"
    by (rule mult_le_mono2) simp
  with Cons.IH[of "2 * v + of_bool b"]
  have "fold (\<lambda>b v. 2 * v + of_bool b) bs (2 * v + of_bool b) < 2 ^ length bs * (2 * (v + 1))"
    by (rule less_le_trans)
  then show ?case by (simp only: fold_simps list.size power_Suc add_0 Suc_eq_plus1 power_add power_one_right mult.assoc)
qed simp

lemma from_bits_le_bits_le: "x < 2 ^ n \<Longrightarrow> from_bits_le n (bits_le n x) = Ok x"
  by (simp add: from_bits_le_def fold_bits_le)

lemma from_bits_le_less: "from_bits_le n bits = Ok x \<Longrightarrow> x < 2 ^ n"
proof -
  assume "from_bits_le n bits = Ok x"
  then have "x = fold (\<lambda>b v. 2 * v + of_bool b) (rev (take n bits)) 0"
    by (auto simp: from_bits_le_def ensure_def split: if_splits)
  then have "x < 2 ^ length (take n bits)" using fold_bits_less[of "rev (take n bits)" 0] by simp
  also have "\<dots> \<le> 2 ^ n" by (rule power_increasing) simp_all
  finally show ?thesis .
qed

section \<open>Data\<close>

datatype 'a data = Object 'a | Buffer "byte list"

definition MAX_DATA_SIZE :: u32 where
  "MAX_DATA_SIZE = 1024 * 1024 * 1024"

text \<open>A slice that is too short panics; the hash gives 256 bits.\<close>

definition data_to_checksum :: "(bool list \<Rightarrow> bool list result) \<Rightarrow> 'a writer \<Rightarrow> 'a data \<Rightarrow> u128 result" where
  "data_to_checksum hash_sha3_256 w d =
     try_bind (case d of Object x \<Rightarrow> try_bind (w x) (\<lambda>bs. Ok (to_bits_le bs)) | Buffer bytes \<Rightarrow> Ok (to_bits_le bytes))
       (\<lambda>preimage. try_bind (hash_sha3_256 preimage) (\<lambda>hash.
         if length hash < 128 then Err (Panic ''range end index out of range for slice'')
         else from_bits_le 128 (take 128 hash)))"

definition deserialize_blocking :: "'a reader \<Rightarrow> 'a data \<Rightarrow> 'a result" where
  "deserialize_blocking rd d =
     (case d of Object x \<Rightarrow> Ok x | Buffer bytes \<Rightarrow> try_bind (rd bytes) (\<lambda>(x, _). Ok x))"

definition serialize_blocking_into :: "'a writer \<Rightarrow> 'a data \<Rightarrow> byte list result" where
  "serialize_blocking_into w d = (case d of Object x \<Rightarrow> w x | Buffer bytes \<Rightarrow> Ok bytes)"

text \<open>\<open>take(n).read_to_end\<close> returns what there is, up to \<open>n\<close> bytes.\<close>

definition read_up_to :: "nat \<Rightarrow> byte list reader" where
  "read_up_to n bs = Ok (take n bs, drop n bs)"

definition read_data :: "'a data reader" where
  "read_data =
     read_then read_u8 (\<lambda>version.
     read_ensure (version = 1) ''Invalid data version'' (
     read_then read_u32 (\<lambda>num_bytes.
     read_ensure (\<not> num_bytes > MAX_DATA_SIZE) ''Failed to deserialize data'' (
     read_then (read_up_to num_bytes) (\<lambda>bytes. read_lift (Ok (Buffer bytes)))))))"

definition write_data :: "'a writer \<Rightarrow> 'a data writer" where
  "write_data w d =
     (case d of
        Object x \<Rightarrow> try_bind (w x) (\<lambda>buffer. write_seq [write_u8 1, write_len 4 (length buffer), Ok buffer])
      | Buffer buffer \<Rightarrow> write_seq [write_u8 1, write_len 4 (length buffer), Ok buffer])"

section \<open>Transmissions\<close>

datatype ('s, 'x) transmission =
    RatificationData
  | SolutionData "'s data"
  | TransactionData "'x data"

definition to_checksum ::
    "(bool list \<Rightarrow> bool list result) \<Rightarrow> 's writer \<Rightarrow> 'x writer \<Rightarrow> ('s, 'x) transmission \<Rightarrow> u128 option result" where
  "to_checksum sha3 ws wx t =
     (case t of
        RatificationData \<Rightarrow> Ok None
      | SolutionData d \<Rightarrow> try_bind (data_to_checksum sha3 ws d) (\<lambda>c. Ok (Some c))
      | TransactionData d \<Rightarrow> try_bind (data_to_checksum sha3 wx d) (\<lambda>c. Ok (Some c)))"

definition read_transmission :: "('s, 'x) transmission reader" where
  "read_transmission =
     read_then read_u8 (\<lambda>version.
     read_ensure (version = 1) ''Invalid transmission version'' (
     read_then read_u8 (\<lambda>variant.
     if variant = 0 then read_lift (Ok RatificationData)
     else if variant = 1 then read_then read_data (\<lambda>d. read_lift (Ok (SolutionData d)))
     else if variant = 2 then read_then read_data (\<lambda>d. read_lift (Ok (TransactionData d)))
     else read_lift (bail ''Invalid transmission variant''))))"

definition write_transmission :: "'s writer \<Rightarrow> 'x writer \<Rightarrow> ('s, 'x) transmission writer" where
  "write_transmission ws wx t =
     (case t of
        RatificationData \<Rightarrow> write_seq [write_u8 1, write_u8 0]
      | SolutionData d \<Rightarrow> write_seq [write_u8 1, write_u8 1, write_data ws d]
      | TransactionData d \<Rightarrow> write_seq [write_u8 1, write_u8 2, write_data wx d])"

section \<open>Travelling payloads\<close>

text \<open>What a receiver holds: the payload as bytes.\<close>

definition buffered :: "'a writer \<Rightarrow> 'a data \<Rightarrow> 'a data result" where
  "buffered w d = try_bind (serialize_blocking_into w d) (\<lambda>bs. Ok (Buffer bs))"

definition buffered_transmission ::
    "'s writer \<Rightarrow> 'x writer \<Rightarrow> ('s, 'x) transmission \<Rightarrow> ('s, 'x) transmission result" where
  "buffered_transmission ws wx t =
     (case t of
        RatificationData \<Rightarrow> Ok RatificationData
      | SolutionData d \<Rightarrow> try_bind (buffered ws d) (\<lambda>d. Ok (SolutionData d))
      | TransactionData d \<Rightarrow> try_bind (buffered wx d) (\<lambda>d. Ok (TransactionData d)))"

definition fits :: "'a writer \<Rightarrow> 'a data \<Rightarrow> bool" where
  "fits w d \<longleftrightarrow> (\<exists>bs. serialize_blocking_into w d = Ok bs \<and> length bs \<le> MAX_DATA_SIZE)"

definition transmission_fits :: "'s writer \<Rightarrow> 'x writer \<Rightarrow> ('s, 'x) transmission \<Rightarrow> bool" where
  "transmission_fits ws wx t \<longleftrightarrow>
     (case t of RatificationData \<Rightarrow> True | SolutionData d \<Rightarrow> fits ws d | TransactionData d \<Rightarrow> fits wx d)"

lemma write_data_bytes:
  assumes "serialize_blocking_into w d = Ok bs" "length bs \<le> MAX_DATA_SIZE"
  shows "write_data w d = Ok (1 # le_bytes 4 (length bs) @ bs)"
proof -
  have "length bs < 256 ^ 4" using assms(2) by (simp add: MAX_DATA_SIZE_def)
  from write_len_uint[OF this] show ?thesis
    using assms(1) by (cases d) (simp_all add: write_data_def serialize_blocking_into_def write_uint_def)
qed

lemma read_data_prefix:
  assumes "n \<le> MAX_DATA_SIZE"
  shows "read_data (1 # le_bytes 4 n @ bs) = Ok (Buffer (take n bs), drop n bs)"
proof -
  have "n < 256 ^ 4" using assms by (simp add: MAX_DATA_SIZE_def)
  then show ?thesis using assms by (simp add: read_data_def read_up_to_def)
qed

lemma data_travels:
  assumes "serialize_blocking_into w d = Ok bs" "length bs \<le> MAX_DATA_SIZE"
  shows "\<exists>out. write_data w d = Ok out \<and> (\<forall>rest. read_data (out @ rest) = Ok (Buffer bs, rest))"
  using write_data_bytes[OF assms] by (simp add: read_data_prefix[OF assms(2)])

lemma buffered_checksum:
  "buffered w d = Ok d' \<Longrightarrow> data_to_checksum sha3 w d' = data_to_checksum sha3 w d"
  by (cases d) (auto simp: buffered_def data_to_checksum_def serialize_blocking_into_def try_bind_Ok_iff)

lemma buffered_deserialize:
  "buffered w d = Ok d' \<Longrightarrow> \<forall>x bs. w x = Ok bs \<longrightarrow> rd bs = Ok (x, []) \<Longrightarrow>
     deserialize_blocking rd d' = deserialize_blocking rd d"
  by (cases d) (auto simp: buffered_def serialize_blocking_into_def deserialize_blocking_def try_bind_Ok_iff)

lemma transmission_travels:
  assumes "transmission_fits ws wx t"
  shows "\<exists>out t'. write_transmission ws wx t = Ok out \<and> buffered_transmission ws wx t = Ok t' \<and>
    (\<forall>rest. read_transmission (out @ rest) = Ok (t', rest))"
proof (cases t)
  case RatificationData
  then show ?thesis
    by (simp add: write_transmission_def buffered_transmission_def read_transmission_def write_uint_def)
next
  case (SolutionData d)
  then obtain bs where bs: "serialize_blocking_into ws d = Ok bs" "length bs \<le> MAX_DATA_SIZE"
    using assms by (auto simp: transmission_fits_def fits_def)
  from data_travels[OF this] obtain out where out: "write_data ws d = Ok out"
    "\<forall>rest. read_data (out @ rest) = Ok (Buffer bs :: 'a data, rest)" by blast
  then show ?thesis
    using bs(1) by (simp add: SolutionData write_transmission_def buffered_transmission_def buffered_def
        read_transmission_def write_uint_def)
next
  case (TransactionData d)
  then obtain bs where bs: "serialize_blocking_into wx d = Ok bs" "length bs \<le> MAX_DATA_SIZE"
    using assms by (auto simp: transmission_fits_def fits_def)
  from data_travels[OF this] obtain out where out: "write_data wx d = Ok out"
    "\<forall>rest. read_data (out @ rest) = Ok (Buffer bs :: 'b data, rest)" by blast
  then show ?thesis
    using bs(1) by (simp add: TransactionData write_transmission_def buffered_transmission_def buffered_def
        read_transmission_def write_uint_def)
qed

text \<open>Transmissions that have already travelled are encoded and decoded exactly.\<close>

definition valid_transmission :: "('s, 'x) transmission \<Rightarrow> bool" where
  "valid_transmission t \<longleftrightarrow>
     (case t of RatificationData \<Rightarrow> True
      | SolutionData d \<Rightarrow> (case d of Object _ \<Rightarrow> False | Buffer bs \<Rightarrow> length bs \<le> MAX_DATA_SIZE)
      | TransactionData d \<Rightarrow> (case d of Object _ \<Rightarrow> False | Buffer bs \<Rightarrow> length bs \<le> MAX_DATA_SIZE))"

lemma valid_transmission_fits:
  "valid_transmission t \<Longrightarrow> transmission_fits ws wx t \<and> buffered_transmission ws wx t = Ok t"
  by (auto simp: valid_transmission_def transmission_fits_def fits_def buffered_transmission_def buffered_def
      serialize_blocking_into_def split: transmission.splits data.splits)

interpretation transmission_bytes:
  codec "write_transmission ws wx" "read_transmission :: ('s, 'x) transmission reader" valid_transmission
  for ws :: "'s writer" and wx :: "'x writer"
proof unfold_locales
  fix t :: "('s, 'x) transmission"
  assume "valid_transmission t"
  then show "\<exists>bs. write_transmission ws wx t = Ok bs \<and> (\<forall>rest. read_transmission (bs @ rest) = Ok (t, rest))"
    using transmission_travels[of ws wx t] valid_transmission_fits[of t ws wx] by auto
qed

text \<open>What such a payload turns into, as a total function, and what a receiver can rely on.\<close>

definition buffered_form :: "'s writer \<Rightarrow> 'x writer \<Rightarrow> ('s, 'x) transmission \<Rightarrow> ('s, 'x) transmission" where
  "buffered_form ws wx t = (case buffered_transmission ws wx t of Inl _ \<Rightarrow> t | Inr t' \<Rightarrow> t')"

definition same_payload :: "'s reader \<Rightarrow> 'x reader \<Rightarrow> ('s, 'x) transmission \<Rightarrow> ('s, 'x) transmission \<Rightarrow> bool" where
  "same_payload rs rx t t' \<longleftrightarrow>
     (case (t, t') of
        (RatificationData, RatificationData) \<Rightarrow> True
      | (SolutionData d, SolutionData d') \<Rightarrow> deserialize_blocking rs d' = deserialize_blocking rs d
      | (TransactionData d, TransactionData d') \<Rightarrow> deserialize_blocking rx d' = deserialize_blocking rx d
      | _ \<Rightarrow> False)"

lemma buffered_form_fits:
  assumes "transmission_fits ws wx t"
  shows "buffered_transmission ws wx t = Ok (buffered_form ws wx t)" "valid_transmission (buffered_form ws wx t)"
    "write_transmission ws wx (buffered_form ws wx t) = write_transmission ws wx t"
  using assms
  by (auto simp: transmission_fits_def fits_def buffered_form_def buffered_transmission_def buffered_def valid_transmission_def
      write_transmission_def write_data_def serialize_blocking_into_def split: transmission.splits data.splits)

lemma buffered_same:
  assumes "buffered_transmission ws wx t = Ok t'"
  shows "to_checksum sha3 ws wx t' = to_checksum sha3 ws wx t"
    "\<forall>x bs. ws x = Ok bs \<longrightarrow> rs bs = Ok (x, []) \<Longrightarrow> \<forall>x bs. wx x = Ok bs \<longrightarrow> rx bs = Ok (x, []) \<Longrightarrow> same_payload rs rx t t'"
  using assms buffered_checksum[of ws _ _ sha3] buffered_checksum[of wx _ _ sha3]
  by (cases t; auto simp: buffered_transmission_def to_checksum_def same_payload_def try_bind_Ok_iff buffered_deserialize)+

lemma read_transmission_valid: "read_transmission bs = Ok (t, rest) \<Longrightarrow> valid_transmission t"
  by (auto simp: read_transmission_def read_data_def read_up_to_def valid_transmission_def result_simps
      split: if_splits)

section \<open>Properties\<close>

text \<open>A checksum identifies a transmission wherever it is: a transmission whose payload encodes within the
  size limit is written, and what the receiver reads is the same payload as bytes, with the same checksum; and
  when the payload's own encoding is read back, the receiver recovers the very object that was sent.\<close>

theorem transmission_checksum_stable:
  assumes "transmission_fits ws wx t"
    and "\<forall>x bs. ws x = Ok bs \<longrightarrow> rs bs = Ok (x, [])" "\<forall>x bs. wx x = Ok bs \<longrightarrow> rx bs = Ok (x, [])"
  shows "\<exists>out t'. write_transmission ws wx t = Ok out \<and> (\<forall>rest. read_transmission (out @ rest) = Ok (t', rest)) \<and>
    to_checksum sha3 ws wx t' = to_checksum sha3 ws wx t \<and>
    (case t of
       RatificationData \<Rightarrow> t' = RatificationData
     | SolutionData d \<Rightarrow> (\<exists>d'. t' = SolutionData d' \<and> deserialize_blocking rs d' = deserialize_blocking rs d)
     | TransactionData d \<Rightarrow> (\<exists>d'. t' = TransactionData d' \<and> deserialize_blocking rx d' = deserialize_blocking rx d))"
proof -
  obtain out t' where t': "write_transmission ws wx t = Ok out" "buffered_transmission ws wx t = Ok t'"
    "\<forall>rest. read_transmission (out @ rest) = Ok (t', rest)"
    using transmission_travels[OF assms(1)] by blast
  have "to_checksum sha3 ws wx t' = to_checksum sha3 ws wx t"
    using t'(2) buffered_checksum[of ws _ _ sha3] buffered_checksum[of wx _ _ sha3]
    by (cases t) (auto simp: buffered_transmission_def to_checksum_def try_bind_Ok_iff)
  then show ?thesis
    using t' assms(2,3)
    by (cases t) (auto simp: buffered_transmission_def try_bind_Ok_iff buffered_deserialize)
qed

theorem transmission_checksum_stable_witness:
  "let ws = (\<lambda>x :: byte. Ok [x]); sha3 = (\<lambda>bits. Ok (replicate 256 (hd bits))); t = SolutionData (Object 5) in
   \<exists>out t'. write_transmission ws ws t = Ok out \<and> read_transmission out = Ok (t', []) \<and>
     to_checksum sha3 ws ws t' = to_checksum sha3 ws ws t"
proof -
  let ?ws = "\<lambda>x :: byte. Ok [x] :: byte list result"
  let ?rs = "\<lambda>bs :: byte list. Ok (hd bs, tl bs) :: (byte \<times> byte list) result"
  have f: "transmission_fits ?ws ?ws (SolutionData (Object 5) :: (byte, byte) transmission)"
    by (simp add: transmission_fits_def fits_def serialize_blocking_into_def MAX_DATA_SIZE_def)
  have r: "\<forall>x bs. ?ws x = Ok bs \<longrightarrow> ?rs bs = Ok (x, [])" by auto
  from transmission_checksum_stable[OF f r r, of "\<lambda>bits. Ok (replicate 256 (hd bits))"]
  obtain out t' where t': "write_transmission ?ws ?ws (SolutionData (Object 5)) = Ok out"
    "\<forall>rest. read_transmission (out @ rest) = Ok (t', rest)"
    "to_checksum (\<lambda>bits. Ok (replicate 256 (hd bits))) ?ws ?ws t' =
     to_checksum (\<lambda>bits. Ok (replicate 256 (hd bits))) ?ws ?ws (SolutionData (Object 5))" by blast
  then show ?thesis using spec[OF t'(2), of "[]"] by (auto simp: Let_def)
qed

text \<open>Truncated payloads are accepted: when the input ends before the announced number of bytes, the reader
  returns the bytes there are, without an error.\<close>

theorem read_data_truncated:
  assumes "n \<le> MAX_DATA_SIZE" "length bs < n"
  shows "read_data (1 # le_bytes 4 n @ bs) = Ok (Buffer bs :: 'a data, [])"
  using read_data_prefix[OF assms(1), of bs] assms(2) by simp

theorem read_data_truncated_witness:
  "read_data (1 # le_bytes 4 1000 @ [7, 8]) = Ok (Buffer [7, 8] :: nat data, [])"
  by (rule read_data_truncated) (simp_all add: MAX_DATA_SIZE_def)

end
