(* ===== verification/Ready.thy ===== *)
theory Ready
  imports Transmission
begin

text \<open>
  The queue of verified transmissions of a worker, after \<open>node/bft/src/helpers/ready.rs\<close>.  It pairs a deque
  with a map from transmission IDs to logical indices, which are physical indices shifted by an offset, so
  that nothing has to be renumbered when the front changes.  The queue implements a plain list of
  transmissions without duplicate IDs.
\<close>

section \<open>The queue\<close>

record ('s, 'x) ready =
  ready_ids :: "(transmission_id, i64) imap"
  ready_queue :: "(transmission_id \<times> ('s, 'x) transmission) list"
  ready_offset :: i64

definition ready_new :: "('s, 'x) ready" where
  "ready_new = \<lparr>ready_ids = [], ready_queue = [], ready_offset = 0\<rparr>"

definition ready_is_empty :: "('s, 'x) ready \<Rightarrow> bool" where
  "ready_is_empty q \<longleftrightarrow> ready_queue q = []"

definition num_transmissions :: "('s, 'x) ready \<Rightarrow> usize" where
  "num_transmissions q = length (ready_queue q)"

definition num_ratifications :: "('s, 'x) ready \<Rightarrow> usize" where
  "num_ratifications q = length (filter (\<lambda>i. case i of Ratification \<Rightarrow> True | _ \<Rightarrow> False) (keys (ready_ids q)))"

definition num_solutions :: "('s, 'x) ready \<Rightarrow> usize" where
  "num_solutions q = length (filter (\<lambda>i. case i of Solution _ _ \<Rightarrow> True | _ \<Rightarrow> False) (keys (ready_ids q)))"

definition num_transactions :: "('s, 'x) ready \<Rightarrow> usize" where
  "num_transactions q = length (filter (\<lambda>i. case i of Transaction _ _ \<Rightarrow> True | _ \<Rightarrow> False) (keys (ready_ids q)))"

definition ready_transmission_ids :: "('s, 'x) ready \<Rightarrow> transmission_id list" where
  "ready_transmission_ids q = iset_of_list (keys (ready_ids q))"

definition ready_transmissions :: "('s, 'x) ready \<Rightarrow> (transmission_id, ('s, 'x) transmission) imap" where
  "ready_transmissions q = fold (\<lambda>(i, t). AList.update i t) (ready_queue q) []"

definition ready_solutions :: "('s, 'x) ready \<Rightarrow> (u64 \<times> 's data) list" where
  "ready_solutions q = List.map_filter (\<lambda>(i, t).
     case (i, t) of (Solution i _, SolutionData d) \<Rightarrow> Some (i, d) | _ \<Rightarrow> None) (ready_queue q)"

definition ready_transactions :: "('s, 'x) ready \<Rightarrow> (field \<times> 'x data) list" where
  "ready_transactions q = List.map_filter (\<lambda>(i, t).
     case (i, t) of (Transaction i _, TransactionData d) \<Rightarrow> Some (i, d) | _ \<Rightarrow> None) (ready_queue q)"

definition ready_contains :: "('s, 'x) ready \<Rightarrow> transmission_id \<Rightarrow> bool" where
  "ready_contains q i \<longleftrightarrow> i \<in> set (keys (ready_ids q))"

text \<open>\<open>as usize\<close> reads a negative difference as a huge index.\<close>

definition i64_as_usize :: "i64 \<Rightarrow> usize" where
  "i64_as_usize x = nat (x mod 2 ^ 64)"

definition i64_sub :: "i64 \<Rightarrow> i64 \<Rightarrow> i64" where
  "i64_sub a b = i64_add a (- b)"

definition ready_get :: "('s, 'x) ready \<Rightarrow> transmission_id \<Rightarrow> ('s, 'x) transmission option" where
  "ready_get q i =
     (case map_of (ready_ids q) i of
        None \<Rightarrow> None
      | Some index \<Rightarrow>
          let k = i64_as_usize (i64_sub index (ready_offset q))
          in if k < length (ready_queue q) then Some (snd (ready_queue q ! k)) else None)"

definition ready_insert ::
    "transmission_id \<Rightarrow> ('s, 'x) transmission \<Rightarrow> ('s, 'x) ready \<Rightarrow> bool \<times> ('s, 'x) ready" where
  "ready_insert i t q =
     (if i \<in> set (keys (ready_ids q)) then (False, q)
      else (True, q\<lparr>ready_ids := AList.update i (i64_add (int (length (ready_queue q))) (ready_offset q)) (ready_ids q),
               ready_queue := ready_queue q @ [(i, t)]\<rparr>))"

definition ready_insert_front ::
    "transmission_id \<Rightarrow> ('s, 'x) transmission \<Rightarrow> ('s, 'x) ready \<Rightarrow> bool \<times> ('s, 'x) ready" where
  "ready_insert_front i t q =
     (if i \<in> set (keys (ready_ids q)) then (False, q)
      else let index = i64_sub (ready_offset q) 1
           in (True, q\<lparr>ready_offset := index, ready_ids := AList.update i index (ready_ids q),
                ready_queue := (i, t) # ready_queue q\<rparr>))"

definition ready_remove_front ::
    "('s, 'x) ready \<Rightarrow> (transmission_id \<times> ('s, 'x) transmission) option \<times> ('s, 'x) ready" where
  "ready_remove_front q =
     (case ready_queue q of
        [] \<Rightarrow> (None, q)
      | (i, t) # rest \<Rightarrow>
          let ids = AList.delete i (ready_ids q)
          in (Some (i, t), q\<lparr>ready_queue := rest, ready_ids := ids,
                ready_offset := if ids = [] then 0 else i64_add (ready_offset q) 1\<rparr>))"

definition clear_solutions :: "('s, 'x) ready \<Rightarrow> ('s, 'x) ready" where
  "clear_solutions q =
     (let rest = filter (\<lambda>(_, t). \<not> (case t of SolutionData _ \<Rightarrow> True | _ \<Rightarrow> False)) (ready_queue q)
      in q\<lparr>ready_queue := rest, ready_offset := 0,
           ready_ids := fold (\<lambda>(k, (i, _)). AList.update i (int k)) (enumerate 0 rest) []\<rparr>)"

section \<open>Deques without duplicates\<close>

text \<open>What the operations promise on the list they represent, as long as there is room for one more
  index; and what follows for a client that fills and drains the queue.\<close>

locale keyed_deque =
  fixes contents :: "'q \<Rightarrow> ('k \<times> 'v) list" and inv :: "'q \<Rightarrow> bool" and room :: "nat \<Rightarrow> 'q \<Rightarrow> bool"
    and empty :: 'q and contains :: "'q \<Rightarrow> 'k \<Rightarrow> bool" and get :: "'q \<Rightarrow> 'k \<Rightarrow> 'v option"
    and put :: "'k \<Rightarrow> 'v \<Rightarrow> 'q \<Rightarrow> bool \<times> 'q" and put_front :: "'k \<Rightarrow> 'v \<Rightarrow> 'q \<Rightarrow> bool \<times> 'q"
    and pop_front :: "'q \<Rightarrow> ('k \<times> 'v) option \<times> 'q"
  assumes empty_law: "inv empty" "contents empty = []"
    and distinct_law: "inv q \<Longrightarrow> distinct (keys (contents q))"
    and contains_law: "inv q \<Longrightarrow> contains q k \<longleftrightarrow> k \<in> set (keys (contents q))"
    and get_law: "inv q \<Longrightarrow> get q k = map_of (contents q) k"
    and put_law: "inv q \<Longrightarrow> room (Suc n) q \<Longrightarrow> put k v q = (b, q') \<Longrightarrow>
      b = (k \<notin> set (keys (contents q))) \<and> inv q' \<and> room n q' \<and>
      contents q' = (if k \<in> set (keys (contents q)) then contents q else contents q @ [(k, v)])"
    and put_front_law: "inv q \<Longrightarrow> room (Suc n) q \<Longrightarrow> put_front k v q = (b, q') \<Longrightarrow>
      b = (k \<notin> set (keys (contents q))) \<and> inv q' \<and> room n q' \<and>
      contents q' = (if k \<in> set (keys (contents q)) then contents q else (k, v) # contents q)"
    and pop_law: "inv q \<Longrightarrow> pop_front q = (r, q') \<Longrightarrow>
      inv q' \<and> (room n q \<longrightarrow> room n q') \<and>
      (case contents q of [] \<Rightarrow> r = None \<and> q' = q | x # xs \<Rightarrow> r = Some x \<and> contents q' = xs)"
begin

text \<open>Taking the front \<open>n\<close> times.\<close>

fun take_front :: "nat \<Rightarrow> 'q \<Rightarrow> ('k \<times> 'v) list" where
  "take_front 0 q = []"
| "take_front (Suc n) q = (case pop_front q of (None, _) \<Rightarrow> [] | (Some x, q') \<Rightarrow> x # take_front n q')"

definition put_all :: "('k \<times> 'v) list \<Rightarrow> 'q \<Rightarrow> 'q" where
  "put_all kvs q = fold (\<lambda>(k, v) q. snd (put k v q)) kvs q"

lemma take_front_contents: "inv q \<Longrightarrow> take_front n q = take n (contents q)"
proof (induction n arbitrary: q)
  case (Suc n)
  obtain r q' where p: "pop_front q = (r, q')" by (cases "pop_front q")
  from pop_law[OF Suc.prems p] Suc.IH[of q'] show ?case
    by (cases "contents q") (auto simp: p)
qed simp

lemma put_all_contents:
  "inv q \<Longrightarrow> room (length kvs) q \<Longrightarrow> distinct (keys (contents q @ kvs)) \<Longrightarrow>
     inv (put_all kvs q) \<and> contents (put_all kvs q) = contents q @ kvs"
proof (induction kvs arbitrary: q)
  case (Cons kv kvs)
  obtain k v where kv: "kv = (k, v)" by (cases kv)
  obtain b q' where p: "put k v q = (b, q')" by (cases "put k v q")
  have "inv q'" "room (length kvs) q'" "contents q' = contents q @ [(k, v)]"
    using put_law[OF Cons.prems(1) _ p, of "length kvs"] Cons.prems(2,3) kv by auto
  moreover have "distinct (keys (contents q' @ kvs))" using Cons.prems(3) kv calculation(3) by simp
  ultimately show ?case using Cons.IH[of q'] kv p by (simp add: put_all_def)
qed (simp add: put_all_def)

text \<open>First in, first out.\<close>

lemma fifo:
  assumes "inv q" "room (length kvs) q" "distinct (keys (contents q @ kvs))"
  shows "take_front n (put_all kvs q) = take n (contents q @ kvs)"
  using put_all_contents[OF assms] take_front_contents by simp

lemma put_front_pop:
  assumes "inv q" "room (Suc n) q" "k \<notin> set (keys (contents q))" "put_front k v q = (b, q1)" "pop_front q1 = (r, q2)"
  shows "r = Some (k, v) \<and> contents q2 = contents q"
  using put_front_law[OF assms(1,2,4)] pop_law[of q1 r q2] assms(3,5) by auto

end

section \<open>The ready queue is such a deque\<close>

definition ready_inv :: "('s, 'x) ready \<Rightarrow> bool" where
  "ready_inv q \<longleftrightarrow> distinct (keys (ready_queue q)) \<and> set (keys (ready_ids q)) = set (keys (ready_queue q)) \<and>
     wf_map (ready_ids q) \<and>
     (\<forall>k < length (ready_queue q). map_of (ready_ids q) (fst (ready_queue q ! k)) = Some (ready_offset q + int k)) \<and>
     i64_min \<le> ready_offset q \<and> ready_offset q + int (length (ready_queue q)) \<le> i64_max \<and>
     int (length (ready_queue q)) \<le> i64_max"

definition ready_room :: "nat \<Rightarrow> ('s, 'x) ready \<Rightarrow> bool" where
  "ready_room n q \<longleftrightarrow> i64_min + int n \<le> ready_offset q \<and>
     ready_offset q + int (length (ready_queue q)) + int n \<le> i64_max \<and>
     int (length (ready_queue q)) + int n \<le> i64_max"

lemma ready_new_inv: "ready_inv ready_new" "n < 2 ^ 62 \<Longrightarrow> ready_room n ready_new"
  by (simp_all add: ready_inv_def ready_new_def wf_map_def ready_room_def i64_min_def i64_max_def)

lemma ready_index:
  assumes "ready_inv q" "map_of (ready_ids q) i = Some x"
  obtains k where "k < length (ready_queue q)" "x = ready_offset q + int k" "fst (ready_queue q ! k) = i"
proof -
  have "i \<in> set (keys (ready_queue q))"
    using assms map_of_SomeD[OF assms(2)] by (force simp: ready_inv_def)
  then obtain k where "k < length (ready_queue q)" "fst (ready_queue q ! k) = i"
    by (auto simp: in_set_conv_nth)
  then show thesis using that assms by (auto simp: ready_inv_def)
qed

lemma map_of_nth: "distinct (keys xs) \<Longrightarrow> k < length xs \<Longrightarrow> map_of xs (fst (xs ! k)) = Some (snd (xs ! k))"
  by (metis map_of_eq_Some_iff nth_mem prod.collapse)

lemma ready_get_correct: "ready_inv q \<Longrightarrow> ready_get q i = map_of (ready_queue q) i"
proof (cases "map_of (ready_ids q) i")
  case None
  assume inv: "ready_inv q"
  then have "i \<notin> set (keys (ready_queue q))" using None by (simp add: ready_inv_def map_of_eq_None_iff)
  then have "map_of (ready_queue q) i = None" by (simp add: map_of_eq_None_iff)
  then show ?thesis using None by (simp add: ready_get_def)
next
  case (Some x)
  assume inv: "ready_inv q"
  from ready_index[OF inv Some] obtain k where k: "k < length (ready_queue q)" "x = ready_offset q + int k"
    "fst (ready_queue q ! k) = i" .
  have "int k \<le> i64_max - i64_min" using inv k(1) by (simp add: ready_inv_def)
  then have "int k < 2 ^ 64" by (simp add: i64_max_def i64_min_def)
  then have "i64_as_usize (i64_sub x (ready_offset q)) = k"
    by (simp add: k(2) i64_as_usize_def i64_sub_def i64_add_def mod_diff_left_eq)
  then show ?thesis
    using Some k map_of_nth[of "ready_queue q" k] inv by (simp add: ready_get_def ready_inv_def)
qed

lemma ready_insert_correct:
  assumes "ready_inv q" "ready_room (Suc n) q" "ready_insert i t q = (b, q')"
  shows "b = (i \<notin> set (keys (ready_queue q))) \<and> ready_inv q' \<and> ready_room n q' \<and>
    ready_queue q' = (if i \<in> set (keys (ready_queue q)) then ready_queue q else ready_queue q @ [(i, t)])"
proof (cases "i \<in> set (keys (ready_queue q))")
  case True
  then show ?thesis using assms by (auto simp: ready_insert_def ready_inv_def ready_room_def)
next
  case False
  let ?n = "length (ready_queue q)"
  have x: "i64_add (int ?n) (ready_offset q) = ready_offset q + int ?n"
    using assms(1,2) by (simp add: ready_room_def ready_inv_def i64_add_exact)
  have keys: "set (keys (ready_ids q)) = set (keys (ready_queue q))" using assms(1) by (simp add: ready_inv_def)
  have q': "b" "q' = q\<lparr>ready_ids := AList.update i (ready_offset q + int ?n) (ready_ids q),
      ready_queue := ready_queue q @ [(i, t)]\<rparr>"
    using assms(3) False x unfolding ready_insert_def keys by auto
  have kset: "set (keys (AList.update i v (ready_ids q))) = insert i (set (keys (ready_ids q)))" for v
    using False keys by (subst alist_update_append) simp_all
  have "map_of (AList.update i (ready_offset q + int ?n) (ready_ids q)) (fst ((ready_queue q @ [(i, t)]) ! k)) =
      Some (ready_offset q + int k)" if "k < Suc ?n" for k
  proof (cases "k = ?n")
    case neq: False
    then have "k < ?n" using that by simp
    then have "fst (ready_queue q ! k) \<noteq> i" using False by (metis length_map nth_map nth_mem)
    then show ?thesis using \<open>k < ?n\<close> assms(1) by (simp add: nth_append update_conv' ready_inv_def)
  qed (simp add: update_conv')
  then have "ready_inv q'"
    using assms(1,2) False keys kset
    by (simp add: q'(2) ready_inv_def ready_room_def)
  moreover have "ready_room n q'" using assms(2) by (simp add: q'(2) ready_room_def)
  ultimately show ?thesis using False q' by simp
qed

lemma ready_insert_front_correct:
  assumes "ready_inv q" "ready_room (Suc n) q" "ready_insert_front i t q = (b, q')"
  shows "b = (i \<notin> set (keys (ready_queue q))) \<and> ready_inv q' \<and> ready_room n q' \<and>
    ready_queue q' = (if i \<in> set (keys (ready_queue q)) then ready_queue q else (i, t) # ready_queue q)"
proof (cases "i \<in> set (keys (ready_queue q))")
  case True
  then show ?thesis using assms by (auto simp: ready_insert_front_def ready_inv_def ready_room_def)
next
  case False
  let ?n = "length (ready_queue q)" and ?o = "ready_offset q - 1"
  have x: "i64_sub (ready_offset q) 1 = ?o"
    using assms(1,2) by (simp add: ready_room_def ready_inv_def i64_sub_def i64_add_exact)
  have keys: "set (keys (ready_ids q)) = set (keys (ready_queue q))" using assms(1) by (simp add: ready_inv_def)
  have q': "b" "q' = q\<lparr>ready_offset := ?o, ready_ids := AList.update i ?o (ready_ids q),
      ready_queue := (i, t) # ready_queue q\<rparr>"
    using assms(3) False x unfolding ready_insert_front_def keys by (auto simp: Let_def)
  have kset: "set (keys (AList.update i v (ready_ids q))) = insert i (set (keys (ready_ids q)))" for v
    using False keys by (subst alist_update_append) simp_all
  have "map_of (AList.update i ?o (ready_ids q)) (fst (((i, t) # ready_queue q) ! k)) =
      Some (?o + int k)" if "k < Suc ?n" for k
  proof (cases k)
    case (Suc j)
    then have "j < ?n" using that by simp
    then have "fst (ready_queue q ! j) \<noteq> i" using False by (metis length_map nth_map nth_mem)
    then show ?thesis using \<open>j < ?n\<close> assms(1) Suc by (simp add: update_conv' ready_inv_def)
  qed (simp add: update_conv')
  then have "ready_inv q'"
    using assms(1,2) False keys kset
    by (simp add: q'(2) ready_inv_def ready_room_def)
  moreover have "ready_room n q'" using assms(2) by (simp add: q'(2) ready_room_def)
  ultimately show ?thesis using False q' by simp
qed

lemma ready_remove_front_correct:
  assumes "ready_inv q" "ready_remove_front q = (r, q')"
  shows "ready_inv q' \<and> (ready_room n q \<longrightarrow> ready_room n q') \<and>
    (case ready_queue q of [] \<Rightarrow> r = None \<and> q' = q | x # xs \<Rightarrow> r = Some x \<and> ready_queue q' = xs)"
proof (cases "ready_queue q")
  case Nil
  then show ?thesis using assms by (simp add: ready_remove_front_def)
next
  case (Cons x rest)
  obtain i t where x: "x = (i, t)" by (cases x)
  let ?ids = "AList.delete i (ready_ids q)"
  have keys: "set (keys ?ids) = set (keys rest)"
    using assms(1) Cons x by (auto simp: ready_inv_def delete_keys)
  have look: "map_of ?ids (fst (rest ! k)) = Some (ready_offset q + 1 + int k)" if "k < length rest" for k
  proof -
    have "fst (rest ! k) \<noteq> i" using that assms(1) Cons x by (simp add: ready_inv_def) (metis imageI nth_mem)
    moreover have "map_of (ready_ids q) (fst (ready_queue q ! Suc k)) = Some (ready_offset q + int (Suc k))"
      using assms(1) Cons that unfolding ready_inv_def by (metis Suc_less_eq length_Cons)
    ultimately show ?thesis by (simp add: delete_conv' Cons)
  qed
  have wf: "wf_map ?ids" using assms(1) by (simp add: ready_inv_def wf_map_def distinct_delete)
  have e: "?ids = [] \<longleftrightarrow> rest = []" using keys by (metis list.map_disc_iff set_empty)
  have q': "r = Some x" "ready_queue q' = rest" "ready_ids q' = ?ids"
    "ready_offset q' = (if rest = [] then 0 else i64_add (ready_offset q) 1)"
    using assms(2) Cons x e by (auto simp: ready_remove_front_def Let_def)
  have "rest \<noteq> [] \<Longrightarrow> i64_add (ready_offset q) 1 = ready_offset q + 1"
    using assms(1) Cons by (simp add: ready_inv_def i64_add_exact)
  then have o: "ready_offset q' = (if rest = [] then 0 else ready_offset q + 1)" using q'(4) by simp
  have "ready_inv q'"
    using assms(1) Cons x keys look wf
    by (auto simp: ready_inv_def q'(2,3) o i64_min_def i64_max_def)
  moreover have "ready_room n q \<longrightarrow> ready_room n q'"
    using Cons by (auto simp: ready_room_def q'(2) o i64_min_def i64_max_def)
  ultimately show ?thesis using Cons q' by simp
qed

interpretation ready: keyed_deque ready_queue ready_inv ready_room ready_new ready_contains ready_get
    ready_insert ready_insert_front ready_remove_front
proof unfold_locales
  show "ready_contains q k \<longleftrightarrow> k \<in> set (keys (ready_queue q))" if "ready_inv q" for q :: "('a, 'b) ready" and k
    using that by (simp add: ready_contains_def ready_inv_def)
  show "distinct (keys (ready_queue q))" if "ready_inv q" for q :: "('a, 'b) ready"
    using that by (simp add: ready_inv_def)
qed (fact ready_new_inv(1), simp add: ready_new_def, fact ready_get_correct, fact ready_insert_correct,
    fact ready_insert_front_correct, fact ready_remove_front_correct)

lemma fold_enumerate:
  "distinct (keys acc @ keys xs) \<Longrightarrow>
   fold (\<lambda>(k, (i, _)). AList.update i (int k)) (enumerate n xs) acc =
   acc @ map (\<lambda>(k, (i, _)). (i, int k)) (enumerate n xs)"
proof (induction xs arbitrary: acc n)
  case (Cons x xs)
  obtain i t where x: "x = (i, t)" by (cases x)
  have "AList.update i (int n) acc = acc @ [(i, int n)]"
    using Cons.prems x by (intro alist_update_append) auto
  then show ?case
    using Cons.IH[of "acc @ [(i, int n)]" "Suc n"] Cons.prems x by simp
qed simp

lemma clear_solutions_correct:
  assumes "ready_inv q"
  shows "ready_queue (clear_solutions q) =
      filter (\<lambda>(_, t). case t of SolutionData _ \<Rightarrow> False | _ \<Rightarrow> True) (ready_queue q)"
    and "ready_inv (clear_solutions q)"
proof -
  let ?rest = "filter (\<lambda>(_, t). \<not> (case t of SolutionData _ \<Rightarrow> True | _ \<Rightarrow> False)) (ready_queue q)"
  show f: "ready_queue (clear_solutions q) =
      filter (\<lambda>(_, t). case t of SolutionData _ \<Rightarrow> False | _ \<Rightarrow> True) (ready_queue q)"
    by (auto simp: clear_solutions_def Let_def intro!: filter_cong split: transmission.splits)
  have d: "distinct (keys ?rest)" using assms by (simp add: ready_inv_def distinct_map_filter)
  have ids: "ready_ids (clear_solutions q) = map (\<lambda>(k, (i, _)). (i, int k)) (enumerate 0 ?rest)"
    using fold_enumerate[of "[]" ?rest 0] d by (simp add: clear_solutions_def Let_def)
  have k: "keys (map (\<lambda>(k, (i, _)). (i, int k)) (enumerate n xs)) = keys xs"
    for n and xs :: "(transmission_id \<times> ('a, 'b) transmission) list"
    by (induction xs arbitrary: n) auto
  have look: "map_of (map (\<lambda>(k, (i, _)). (i, int k)) (enumerate 0 ?rest)) (fst (?rest ! j)) = Some (int j)"
    if "j < length ?rest" for j
  proof (rule map_of_is_SomeI)
    show "distinct (keys (map (\<lambda>(k, (i, _)). (i, int k)) (enumerate 0 ?rest)))" using d k[of 0 ?rest] by simp
    have "(j, ?rest ! j) \<in> set (enumerate 0 ?rest)" using that by (simp add: in_set_enumerate_eq)
    from imageI[OF this, of "\<lambda>(k, (i, _)). (i, int k)"]
    show "(fst (?rest ! j), int j) \<in> set (map (\<lambda>(k, (i, _)). (i, int k)) (enumerate 0 ?rest))"
      unfolding set_map by (cases "?rest ! j") simp
  qed
  have "int (length ?rest) \<le> int (length (ready_queue q))" by (simp only: of_nat_le_iff length_filter_le)
  moreover have "int (length (ready_queue q)) \<le> i64_max" using assms by (simp add: ready_inv_def)
  ultimately have "int (length ?rest) \<le> i64_max" by linarith
  moreover have "i64_min \<le> 0" by (simp add: i64_min_def)
  moreover have "ready_queue (clear_solutions q) = ?rest" "ready_offset (clear_solutions q) = 0"
    by (simp_all add: clear_solutions_def Let_def)
  ultimately show "ready_inv (clear_solutions q)"
    using d k[of 0 ?rest] look unfolding ready_inv_def ids wf_map_def by (simp del: set_map map_map)
qed

section \<open>Properties\<close>

text \<open>C36. The ready queue refines a list without duplicate IDs: on every queue satisfying the invariant, with room
  for another index, each operation acts on the list of queued transmissions as its name says, answers
  whether the ID was new, and keeps the invariant; lookups through the index map find what the list holds;
  removing the solutions keeps the others in order.\<close>

theorem ready_refines:
  assumes "ready_inv q" "ready_room 1 q"
  shows "ready_get q i = map_of (ready_queue q) i \<and> (ready_contains q i \<longleftrightarrow> i \<in> set (keys (ready_queue q))) \<and>
    (case ready_insert i t q of (b, q') \<Rightarrow> ready_inv q' \<and> (b \<longleftrightarrow> i \<notin> set (keys (ready_queue q))) \<and>
       ready_queue q' = (if b then ready_queue q @ [(i, t)] else ready_queue q)) \<and>
    (case ready_insert_front i t q of (b, q') \<Rightarrow> ready_inv q' \<and> (b \<longleftrightarrow> i \<notin> set (keys (ready_queue q))) \<and>
       ready_queue q' = (if b then (i, t) # ready_queue q else ready_queue q)) \<and>
    (case ready_remove_front q of (r, q') \<Rightarrow> ready_inv q' \<and> ready_queue q' = tl (ready_queue q) \<and>
       r = (case ready_queue q of [] \<Rightarrow> None | x # _ \<Rightarrow> Some x)) \<and>
    ready_inv (clear_solutions q) \<and> ready_queue (clear_solutions q) =
      filter (\<lambda>(_, t). case t of SolutionData _ \<Rightarrow> False | _ \<Rightarrow> True) (ready_queue q)"
proof -
  have room: "ready_room (Suc 0) q" using assms(2) by simp
  obtain b q1 b2 q2 r q3 where ops: "ready_insert i t q = (b, q1)" "ready_insert_front i t q = (b2, q2)"
    "ready_remove_front q = (r, q3)" by (metis surj_pair)
  show ?thesis
    using ready.get_law[OF assms(1), of i] ready.contains_law[OF assms(1), of i]
      ready.put_law[OF assms(1) room ops(1)] ready.put_front_law[OF assms(1) room ops(2)]
      ready.pop_law[OF assms(1) ops(3)] clear_solutions_correct[OF assms(1)] ops
    by (auto split: list.splits)
qed

theorem ready_refines_witness:
  "ready_inv (ready_new :: (nat, nat) ready) \<and>
   snd (ready_insert_front Ratification RatificationData ready_new) \<noteq> (ready_new :: (nat, nat) ready)"
proof -
  have "ready_room 1 (ready_new :: (nat, nat) ready)" by (rule ready_new_inv(2)) simp
  from ready_refines[OF ready_new_inv(1) this, of Ratification RatificationData]
  show ?thesis
    using ready_new_inv(1) by (auto simp: ready_new_def split: prod.splits)
qed

text \<open>First in, first out: transmissions with new, distinct IDs leave the queue in the order in which they were
  inserted, after those that were there before.\<close>

lemma ready_fifo:
  assumes "ready_inv q" "ready_room (length kvs) q" "distinct (keys (ready_queue q @ kvs))"
  shows "ready.take_front n (fold (\<lambda>(i, t) q. snd (ready_insert i t q)) kvs q) = take n (ready_queue q @ kvs)"
  using ready.fifo[OF assms] by (simp add: ready.put_all_def)

end
