(* ===== verification/Pending.thy ===== *)
theory Pending
  imports BFT_Storage
begin

text \<open>
  The requests a validator is waiting for, after \<open>node/bft/src/helpers/pending.rs\<close>: for every item, the peers
  asked for it and the callbacks to notify when it arrives.  Callbacks expire.  The expiry keeps exactly
  the live callbacks, a removal notifies each of them once, and the number of requests sent for an item is
  the number of live callbacks that stand for a request.
\<close>

definition MAX_BATCH_DELAY_IN_MS :: u64 where
  "MAX_BATCH_DELAY_IN_MS = 2500"

definition MAX_FETCH_TIMEOUT_IN_MS :: u64 where
  "MAX_FETCH_TIMEOUT_IN_MS = 3 * MAX_BATCH_DELAY_IN_MS"

text \<open>\<open>Duration::as_secs\<close> drops the fraction of a second.\<close>

definition as_secs :: "u64 \<Rightarrow> u64" where
  "as_secs ms = ms div 1000"

definition CALLBACK_EXPIRATION_IN_SECS :: i64 where
  "CALLBACK_EXPIRATION_IN_SECS = int (as_secs MAX_FETCH_TIMEOUT_IN_MS)"

definition max_redundant_requests :: "network \<Rightarrow> 't ledger \<Rightarrow> u32 \<Rightarrow> u64 \<Rightarrow> usize result" where
  "max_redundant_requests n l latest_block_height r =
     try_bind (case get_committee_lookback_for_round l r of
         Inr committee \<Rightarrow> Ok (length (members committee))
       | Inl _ \<Rightarrow> (case consensus_config_value n (MAX_CERTIFICATES n) latest_block_height of
             Some mx \<Rightarrow> Ok mx
           | None \<Rightarrow> bail ''Couldn't obtain MAX_CERTIFICATES''))
       (\<lambda>num_validators. Ok (1 + num_validators div 3))"

section \<open>The pending queue\<close>

type_synonym 'c callbacks = "('c \<times> i64 \<times> bool) list"
type_synonym ('k, 'p, 'c) pending = "('k, ('p, 'c callbacks) imap) imap"

definition pending_is_empty :: "('k, 'p, 'c) pending \<Rightarrow> bool" where
  "pending_is_empty m \<longleftrightarrow> m = []"

definition pending_len :: "('k, 'p, 'c) pending \<Rightarrow> usize" where
  "pending_len m = length m"

definition pending_contains :: "('k, 'p, 'c) pending \<Rightarrow> 'k \<Rightarrow> bool" where
  "pending_contains m item \<longleftrightarrow> item \<in> set (keys m)"

definition contains_peer :: "('k, 'p, 'c) pending \<Rightarrow> 'k \<Rightarrow> 'p \<Rightarrow> bool" where
  "contains_peer m item peer_ip \<longleftrightarrow>
     (case map_of m item of None \<Rightarrow> False | Some peer_ips \<Rightarrow> peer_ip \<in> set (keys peer_ips))"

definition contains_peer_with_sent_request :: "('k, 'p, 'c) pending \<Rightarrow> 'k \<Rightarrow> 'p \<Rightarrow> bool" where
  "contains_peer_with_sent_request m item peer_ip \<longleftrightarrow>
     (case map_of m item of
        None \<Rightarrow> False
      | Some peer_ips \<Rightarrow>
          (case map_of peer_ips peer_ip of
             None \<Rightarrow> False | Some callbacks \<Rightarrow> \<exists>(_, _, request_sent)\<in>set callbacks. request_sent))"

definition get_peers :: "('k, 'p, 'c) pending \<Rightarrow> 'k \<Rightarrow> 'p list option" where
  "get_peers m item = map_option keys (map_of m item)"

definition get_sent_peers :: "('k, 'p, 'c) pending \<Rightarrow> 'k \<Rightarrow> 'p list option" where
  "get_sent_peers m item = map_option (\<lambda>peers.
     map fst (filter (\<lambda>(_, cbs). \<exists>(_, _, sent)\<in>set cbs. sent) peers)) (map_of m item)"

text \<open>A callback lives while \<open>now - timestamp\<close>, in 64 bits, does not exceed the limit.\<close>

definition live :: "i64 \<Rightarrow> 'c \<times> i64 \<times> bool \<Rightarrow> bool" where
  "live now = (\<lambda>(_, timestamp, _). i64_add now (- timestamp) \<le> CALLBACK_EXPIRATION_IN_SECS)"

definition clear_expired_peers :: "i64 \<Rightarrow> ('p, 'c callbacks) imap \<Rightarrow> ('p, 'c callbacks) imap" where
  "clear_expired_peers now peer_map =
     map_retain (\<lambda>_ callbacks. callbacks \<noteq> []) (map (\<lambda>(p, callbacks). (p, filter (live now) callbacks)) peer_map)"

definition clear_expired_callbacks_for_item :: "i64 \<Rightarrow> 'k \<Rightarrow> ('k, 'p, 'c) pending \<Rightarrow> ('k, 'p, 'c) pending" where
  "clear_expired_callbacks_for_item now item m =
     (case map_of m item of
        None \<Rightarrow> m
      | Some peer_map \<Rightarrow>
          let peer_map = clear_expired_peers now peer_map
          in if peer_map = [] then AList.delete item m else AList.update item peer_map m)"

definition clear_expired_callbacks :: "i64 \<Rightarrow> ('k, 'p, 'c) pending \<Rightarrow> ('k, 'p, 'c) pending" where
  "clear_expired_callbacks now m =
     map_retain (\<lambda>_ peer_map. peer_map \<noteq> []) (map (\<lambda>(item, peer_map). (item, clear_expired_peers now peer_map)) m)"

text \<open>The two counters clear the item's expired callbacks first.\<close>

definition num_callbacks :: "i64 \<Rightarrow> 'k \<Rightarrow> ('k, 'p, 'c) pending \<Rightarrow> usize \<times> ('k, 'p, 'c) pending" where
  "num_callbacks now item m =
     (let m = clear_expired_callbacks_for_item now item m
      in (case map_of m item of
            None \<Rightarrow> 0
          | Some peers \<Rightarrow> fold (\<lambda>v acc. saturating_add u64_max acc (length v)) (vals peers) 0, m))"

definition num_sent_requests :: "i64 \<Rightarrow> 'k \<Rightarrow> ('k, 'p, 'c) pending \<Rightarrow> usize \<times> ('k, 'p, 'c) pending" where
  "num_sent_requests now item m =
     (let m = clear_expired_callbacks_for_item now item m
      in (case map_of m item of
            None \<Rightarrow> 0
          | Some peers \<Rightarrow> length (filter (\<lambda>(_, _, request_sent). request_sent) (concat (vals peers))), m))"

definition pending_insert ::
    "i64 \<Rightarrow> 'k \<Rightarrow> 'p \<Rightarrow> ('c \<times> bool) option \<Rightarrow> ('k, 'p, 'c) pending \<Rightarrow> bool \<times> ('k, 'p, 'c) pending" where
  "pending_insert now item peer_ip callback m =
     (let entry = (case map_of m item of None \<Rightarrow> [] | Some entry \<Rightarrow> entry);
          is_new_peer = (peer_ip \<notin> set (keys entry));
          peer_entry = (case map_of entry peer_ip of None \<Rightarrow> [] | Some cbs \<Rightarrow> cbs);
          peer_entry = (case callback of None \<Rightarrow> peer_entry | Some (cb, request_sent) \<Rightarrow> peer_entry @ [(cb, now, request_sent)]);
          m = AList.update item (AList.update peer_ip peer_entry entry) m
      in (is_new_peer, clear_expired_callbacks_for_item now item m))"

text \<open>A removal returns the peers, if the item was there, and the notifications it sends.\<close>

definition pending_remove ::
    "'k \<Rightarrow> 'v option \<Rightarrow> ('k, 'p, 'c) pending \<Rightarrow> ('p list option \<times> ('c \<times> 'v) list) \<times> ('k, 'p, 'c) pending" where
  "pending_remove item callback_value m =
     (case map_of m item of
        None \<Rightarrow> ((None, []), m)
      | Some callbacks \<Rightarrow>
          ((Some (keys callbacks),
            case callback_value of
              None \<Rightarrow> []
            | Some v \<Rightarrow> map (\<lambda>(callback, _, _). (callback, v)) (concat (vals callbacks))),
           AList.delete item m))"

text \<open>How a request for an item is decided and registered, from \<open>send_transmission_request\<close> of
  \<open>node/bft/src/worker.rs\<close>: the answer says whether a message goes out to the peer.  Whether the peers asked
  so far hold enough stake is an argument.\<close>

definition register_request ::
    "i64 \<Rightarrow> usize \<Rightarrow> bool \<Rightarrow> 'k \<Rightarrow> 'p \<Rightarrow> 'c \<Rightarrow> ('k, 'p, 'c) pending \<Rightarrow> bool \<times> ('k, 'p, 'c) pending" where
  "register_request now num_redundant_requests stake_redundancy_reached item peer_ip callback m =
     (let (num_sent, m) = num_sent_requests now item m;
          should_send_request = (\<not> contains_peer_with_sent_request m item peer_ip \<and>
            (num_sent < num_redundant_requests \<or> \<not> stake_redundancy_reached))
      in (should_send_request, snd (pending_insert now item peer_ip (Some (callback, should_send_request)) m)))"

section \<open>Live callbacks\<close>

definition pending_inv :: "('k, 'p, 'c) pending \<Rightarrow> bool" where
  "pending_inv m \<longleftrightarrow> wf_map m \<and> (\<forall>item peers. map_of m item = Some peers \<longrightarrow> wf_map peers)"

definition callbacks_of :: "('k, 'p, 'c) pending \<Rightarrow> 'k \<Rightarrow> 'p \<Rightarrow> 'c callbacks" where
  "callbacks_of m item p =
     (case map_of m item of None \<Rightarrow> []
      | Some peers \<Rightarrow> (case map_of peers p of None \<Rightarrow> [] | Some cbs \<Rightarrow> cbs))"

lemma clear_expired_peers_lookup:
  "map_of (clear_expired_peers now peers) p =
     (case map_of peers p of
        None \<Rightarrow> None
      | Some cbs \<Rightarrow> if filter (live now) cbs = [] then None else Some (filter (live now) cbs))"
  if "wf_map peers"
proof -
  have "wf_map (map (\<lambda>(p, callbacks). (p, filter (live now) callbacks)) peers)"
    using that by (simp add: wf_map_def case_prod_unfold comp_def)
  from map_of_retain[OF this] show ?thesis
    by (auto simp: clear_expired_peers_def map_of_map option.map_comp split: option.splits)
qed

lemma clear_expired_peers_wf: "wf_map peers \<Longrightarrow> wf_map (clear_expired_peers now peers)"
  by (auto simp: clear_expired_peers_def map_retain_def wf_map_def case_prod_unfold comp_def distinct_map_filter)

lemma pending_inv_lookup: "pending_inv m \<Longrightarrow> map_of m item = Some peers \<Longrightarrow> wf_map peers"
  by (simp add: pending_inv_def)

lemma pending_inv_update: "pending_inv m \<Longrightarrow> wf_map peers \<Longrightarrow> pending_inv (AList.update item peers m)"
  by (auto simp: pending_inv_def)

lemma pending_inv_delete: "pending_inv m \<Longrightarrow> pending_inv (AList.delete item m)"
  by (auto simp: pending_inv_def map_of_alist_delete split: if_splits)

lemma clear_item_inv: "pending_inv m \<Longrightarrow> pending_inv (clear_expired_callbacks_for_item now item m)"
  by (auto simp: clear_expired_callbacks_for_item_def Let_def pending_inv_update pending_inv_delete
      clear_expired_peers_wf pending_inv_lookup split: option.splits)

lemma clear_item_lookup:
  assumes "pending_inv m"
  shows "map_of (clear_expired_callbacks_for_item now item m) item' =
    (if item' = item
     then (case map_of m item of None \<Rightarrow> None
           | Some peers \<Rightarrow> if clear_expired_peers now peers = [] then None else Some (clear_expired_peers now peers))
     else map_of m item')"
  by (auto simp: clear_expired_callbacks_for_item_def Let_def map_of_alist_delete split: option.splits)

lemma clear_item_callbacks:
  assumes "pending_inv m"
  shows "callbacks_of (clear_expired_callbacks_for_item now item m) item' p =
    (if item' = item then filter (live now) (callbacks_of m item p) else callbacks_of m item' p)"
proof (cases "item' = item \<and> map_of m item \<noteq> None")
  case True
  then obtain peers where peers: "map_of m item = Some peers" by auto
  note l = clear_expired_peers_lookup[OF pending_inv_lookup[OF assms peers], of now p]
  have "clear_expired_peers now peers = [] \<Longrightarrow> map_of (clear_expired_peers now peers) p = None" by simp
  then show ?thesis
    using True l
    by (auto simp: callbacks_of_def clear_item_lookup[OF assms] peers split: option.splits if_splits)
qed (auto simp: callbacks_of_def clear_item_lookup[OF assms] split: option.splits)

lemma insert_callbacks:
  assumes "pending_inv m" "pending_insert now item p cb m = (b, m')"
  shows "pending_inv m'" "b \<longleftrightarrow> \<not> contains_peer m item p"
    "callbacks_of m' item' q =
      (if item' = item
       then filter (live now) (callbacks_of m item q @
         (if q = p then (case cb of None \<Rightarrow> [] | Some (c, sent) \<Rightarrow> [(c, now, sent)]) else []))
       else callbacks_of m item' q)"
proof -
  let ?entry = "case map_of m item of None \<Rightarrow> [] | Some entry \<Rightarrow> entry"
  let ?new = "case cb of None \<Rightarrow> [] | Some (c, sent) \<Rightarrow> [(c, now, sent)]"
  let ?m = "AList.update item (AList.update p (callbacks_of m item p @ ?new) ?entry) m"
  have e: "wf_map ?entry" using pending_inv_lookup[OF assms(1)] by (simp split: option.splits)
  have inv: "pending_inv ?m" by (intro pending_inv_update assms(1) wf_map_update e)
  have m': "m' = clear_expired_callbacks_for_item now item ?m" "b = (p \<notin> set (keys ?entry))"
    using assms(2)
    by (auto simp: pending_insert_def Let_def callbacks_of_def split: option.splits)
  show "pending_inv m'" unfolding m' by (rule clear_item_inv[OF inv])
  show "b \<longleftrightarrow> \<not> contains_peer m item p" unfolding m' contains_peer_def by (simp split: option.splits)
  have "callbacks_of ?m item q = callbacks_of m item q @ (if q = p then ?new else [])"
    "item' \<noteq> item \<Longrightarrow> callbacks_of ?m item' q = callbacks_of m item' q"
    by (auto simp: callbacks_of_def split: option.splits)
  with clear_item_callbacks[OF inv, of now item item' q] show "callbacks_of m' item' q = (if item' = item
      then filter (live now) (callbacks_of m item q @ (if q = p then ?new else [])) else callbacks_of m item' q)"
    by (cases "item' = item") (simp_all only: m'(1) if_True if_False simp_thms)
qed

section \<open>Counting requests\<close>

definition count_sent :: "i64 \<Rightarrow> ('p, 'c callbacks) imap \<Rightarrow> nat" where
  "count_sent now peers = sum_list (map (\<lambda>cbs. length (filter (\<lambda>c. live now c \<and> snd (snd c)) cbs)) (vals peers))"

definition item_sent :: "i64 \<Rightarrow> 'k \<Rightarrow> ('k, 'p, 'c) pending \<Rightarrow> nat" where
  "item_sent now item m = (case map_of m item of None \<Rightarrow> 0 | Some peers \<Rightarrow> count_sent now peers)"

lemma sum_vals_update:
  fixes f :: "'v \<Rightarrow> nat"
  shows "wf_map m \<Longrightarrow> sum_list (map f (vals (AList.update k v m))) + (case map_of m k of None \<Rightarrow> 0 | Some w \<Rightarrow> f w) =
    sum_list (map f (vals m)) + f v"
proof (induction m)
  case (Cons p m)
  have "wf_map m" "fst p \<notin> set (keys m)" using Cons.prems by (simp_all add: wf_map_def)
  then show ?case using Cons.IH by (cases p) (auto simp: map_of_eq_None_iff split: option.splits)
qed simp

lemma sum_vals_retain:
  "f [] = (0 :: nat) \<Longrightarrow> sum_list (map f (vals (map_retain (\<lambda>_ cbs. cbs \<noteq> []) m))) = sum_list (map f (vals m))"
  by (induction m) (auto simp: map_retain_def)

lemma count_sent_clear:
  "sum_list (map (\<lambda>cbs. length (filter (\<lambda>(_, _, sent). sent) cbs)) (vals (clear_expired_peers now peers))) =
     count_sent now peers"
  "count_sent now (clear_expired_peers now peers) = count_sent now peers"
proof -
  have e: "map f (vals (map (\<lambda>(p, callbacks). (p, filter (live now) callbacks)) peers)) =
      map (\<lambda>cbs. f (filter (live now) cbs)) (vals peers)" for f :: "'a callbacks \<Rightarrow> nat"
    by (simp add: case_prod_unfold comp_def)
  show "sum_list (map (\<lambda>cbs. length (filter (\<lambda>(_, _, sent). sent) cbs)) (vals (clear_expired_peers now peers))) =
     count_sent now peers"
    unfolding clear_expired_peers_def
    by (subst sum_vals_retain, simp, subst e) (simp add: count_sent_def case_prod_unfold conj_commute)
  show "count_sent now (clear_expired_peers now peers) = count_sent now peers"
    unfolding clear_expired_peers_def count_sent_def
    by (subst sum_vals_retain, simp, subst e) (simp add: conj_ac)
qed

lemma num_sent_requests_eq:
  assumes "pending_inv m"
  shows "num_sent_requests now item m = (item_sent now item m, clear_expired_callbacks_for_item now item m)"
proof -
  have "length (filter P (concat xs)) = sum_list (map (\<lambda>x. length (filter P x)) xs)" for P and xs :: "'c callbacks list"
    by (induction xs) simp_all
  note len = this
  show ?thesis
  proof (cases "map_of m item")
    case (Some peers)
    have "clear_expired_peers now peers = [] \<Longrightarrow> count_sent now peers = 0"
      using count_sent_clear(2)[of now peers] by (simp add: count_sent_def)
    then show ?thesis
      by (simp add: num_sent_requests_def Let_def item_sent_def clear_item_lookup[OF assms] Some len
          count_sent_clear(1) del: map_map)
  qed (simp add: num_sent_requests_def Let_def item_sent_def clear_item_lookup[OF assms])
qed

lemma item_sent_clear:
  assumes "pending_inv m"
  shows "item_sent now item (clear_expired_callbacks_for_item now item m) = item_sent now item m"
proof (cases "map_of m item")
  case (Some peers)
  have "clear_expired_peers now peers = [] \<Longrightarrow> count_sent now peers = 0"
    using count_sent_clear(2)[of now peers] by (simp add: count_sent_def)
  then show ?thesis by (simp add: item_sent_def clear_item_lookup[OF assms] Some count_sent_clear(2))
qed (simp add: item_sent_def clear_item_lookup[OF assms])

lemma live_now: "live now (c, now, sent)"
  by (simp add: live_def i64_add_def CALLBACK_EXPIRATION_IN_SECS_def)

lemma item_sent_insert:
  assumes "pending_inv m" "pending_insert now item p (Some (c, sent)) m = (b, m')"
  shows "item_sent now item m' = item_sent now item m + of_bool sent"
proof -
  let ?entry = "case map_of m item of None \<Rightarrow> [] | Some entry \<Rightarrow> entry"
  let ?m = "AList.update item (AList.update p (callbacks_of m item p @ [(c, now, sent)]) ?entry) m"
  have e: "wf_map ?entry" using pending_inv_lookup[OF assms(1)] by (simp split: option.splits)
  have inv: "pending_inv ?m" by (intro pending_inv_update assms(1) wf_map_update e)
  have m': "m' = clear_expired_callbacks_for_item now item ?m"
    using assms(2) by (auto simp: pending_insert_def Let_def callbacks_of_def split: option.splits)
  have cb: "(case map_of ?entry p of None \<Rightarrow> [] | Some cbs \<Rightarrow> cbs) = callbacks_of m item p"
    by (simp add: callbacks_of_def split: option.splits)
  let ?f = "\<lambda>cbs. length (filter (\<lambda>c. live now c \<and> snd (snd c)) cbs)"
  have "(case map_of ?entry p of None \<Rightarrow> 0 | Some w \<Rightarrow> ?f w) = ?f (callbacks_of m item p)"
    unfolding cb[symmetric] by (simp split: option.splits)
  with sum_vals_update[OF e, of ?f p "callbacks_of m item p @ [(c, now, sent)]"]
  have "count_sent now (AList.update p (callbacks_of m item p @ [(c, now, sent)]) ?entry) =
      count_sent now ?entry + of_bool sent"
    by (simp add: count_sent_def live_now)
  moreover have "item_sent now item ?m = count_sent now (AList.update p (callbacks_of m item p @ [(c, now, sent)]) ?entry)"
    by (simp add: item_sent_def)
  moreover have "item_sent now item m = count_sent now ?entry"
    by (simp add: item_sent_def count_sent_def split: option.splits)
  ultimately show ?thesis unfolding m' item_sent_clear[OF inv] by simp
qed

lemma register_request_effect:
  assumes "pending_inv m" "register_request now k enough item p c m = (should, m')"
  shows "pending_inv m'" "item_sent now item m' = item_sent now item m + of_bool should"
    "should \<longleftrightarrow> \<not> (\<exists>x\<in>set (callbacks_of m item p). live now x \<and> snd (snd x)) \<and> (item_sent now item m < k \<or> \<not> enough)"
    "callbacks_of m' item' q = (if item' = item
       then filter (live now) (callbacks_of m item q) @ (if q = p then [(c, now, should)] else [])
       else callbacks_of m item' q)"
proof -
  let ?m1 = "clear_expired_callbacks_for_item now item m"
  have inv1: "pending_inv ?m1" by (rule clear_item_inv[OF assms(1)])
  have sh: "should \<longleftrightarrow> \<not> contains_peer_with_sent_request ?m1 item p \<and> (item_sent now item m < k \<or> \<not> enough)"
    and m': "m' = snd (pending_insert now item p (Some (c, should)) ?m1)"
    using assms(2) by (auto simp: register_request_def num_sent_requests_eq[OF assms(1)] Let_def)
  obtain b where ins: "pending_insert now item p (Some (c, should)) ?m1 = (b, m')"
    using m' by (metis prod.collapse)
  show "pending_inv m'" by (rule insert_callbacks(1)[OF inv1 ins])
  show "item_sent now item m' = item_sent now item m + of_bool should"
    using item_sent_insert[OF inv1 ins] item_sent_clear[OF assms(1)] by simp
  have "contains_peer_with_sent_request ?m1 item p \<longleftrightarrow> (\<exists>x\<in>set (callbacks_of ?m1 item p). snd (snd x))"
    by (auto simp: contains_peer_with_sent_request_def callbacks_of_def split: option.splits)
  also have "\<dots> \<longleftrightarrow> (\<exists>x\<in>set (callbacks_of m item p). live now x \<and> snd (snd x))"
    by (simp only: clear_item_callbacks[OF assms(1)] set_filter simp_thms if_True) blast
  finally show "should \<longleftrightarrow> \<not> (\<exists>x\<in>set (callbacks_of m item p). live now x \<and> snd (snd x)) \<and>
      (item_sent now item m < k \<or> \<not> enough)"
    using sh by (simp only:)
  show "callbacks_of m' item' q = (if item' = item
       then filter (live now) (callbacks_of m item q) @ (if q = p then [(c, now, should)] else [])
       else callbacks_of m item' q)"
  proof (cases "item' = item")
    case True
    have "callbacks_of ?m1 item q = filter (live now) (callbacks_of m item q)"
      using clear_item_callbacks[OF assms(1), of now item item q] by simp
    then show ?thesis
      unfolding insert_callbacks(3)[OF inv1 ins, of item' q] using True by (cases "q = p") (simp_all add: live_now)
  next
    case False
    then show ?thesis
      using insert_callbacks(3)[OF inv1 ins, of item' q] clear_item_callbacks[OF assms(1), of now item item' q]
      by simp
  qed
qed

text \<open>A registered callback is there until it expires.\<close>

lemma request_stays:
  assumes "pending_inv m" "register_request now k enough item p c m = (should, m')"
    and "0 \<le> now" "now \<le> later" "later \<le> now + CALLBACK_EXPIRATION_IN_SECS" "later \<le> i64_max"
  obtains ps cbs where "map_of (clear_expired_callbacks_for_item later item m') item = Some ps" "map_of ps p = Some cbs"
    "(c, now, should) \<in> set cbs"
proof -
  note r = register_request_effect[OF assms(1,2)]
  let ?m2 = "clear_expired_callbacks_for_item later item m'"
  have "i64_add later (- now) = later - now"
    using assms(3-6) by (subst i64_add_exact) (simp_all add: i64_min_def CALLBACK_EXPIRATION_IN_SECS_def)
  then have "live later (c, now, should)" using assms(5) by (simp add: live_def)
  then have "(c, now, should) \<in> set (callbacks_of ?m2 item p)"
    by (simp add: clear_item_callbacks[OF r(1)] r(4))
  then show thesis using that
    by (cases "map_of ?m2 item"; cases "map_of (the (map_of ?m2 item)) p") (simp_all add: callbacks_of_def)
qed

section \<open>Properties\<close>

text \<open>Requests are bounded and answered.  Registering a request sends a message only if the peer has no live
  request for the item and either fewer than the redundancy limit are live or the peers asked hold too little
  stake; so at most one more request is live afterwards, never beyond the limit while the stake suffices.
  The callback is registered in any case, other items are untouched, and when the item arrives before it
  expires, removing the item notifies the callback with the value and leaves nothing pending for the item.\<close>

theorem requests_bounded_and_answered:
  assumes "pending_inv m" "register_request now k enough item p c m = (should, m')"
    and "0 \<le> now" "now \<le> later" "later \<le> now + CALLBACK_EXPIRATION_IN_SECS" "later \<le> i64_max"
    and "pending_remove item (Some v) (clear_expired_callbacks_for_item later item m') = ((peers, notified), m'')"
  shows "pending_inv m'' \<and> item_sent now item m' = item_sent now item m + of_bool should \<and>
    (should \<longrightarrow> \<not> (\<exists>x\<in>set (callbacks_of m item p). live now x \<and> snd (snd x))) \<and>
    (enough \<and> item_sent now item m \<le> k \<longrightarrow> item_sent now item m' \<le> k) \<and>
    (c, v) \<in> set notified \<and> p \<in> set (the peers) \<and> \<not> pending_contains m'' item \<and>
    (\<forall>other q. other \<noteq> item \<longrightarrow> callbacks_of m'' other q = callbacks_of m other q)"
proof -
  note r = register_request_effect[OF assms(1,2)]
  let ?m2 = "clear_expired_callbacks_for_item later item m'"
  have inv2: "pending_inv ?m2" by (rule clear_item_inv[OF r(1)])
  obtain ps cbs where ps: "map_of ?m2 item = Some ps" "map_of ps p = Some cbs" "(c, now, should) \<in> set cbs"
    by (rule request_stays[OF assms(1-6)])
  have m'': "peers = Some (keys ps)" "m'' = AList.delete item ?m2"
    "notified = map (\<lambda>(callback, _, _). (callback, v)) (concat (vals ps))"
    using assms(7) ps(1) by (auto simp: pending_remove_def)
  have "cbs \<in> set (vals ps)" "p \<in> set (keys ps)" using map_of_SomeD[OF ps(2)] by force+
  then have "(c, v) \<in> set notified" "p \<in> set (the peers)"
    using ps(3) by (force simp: m'')+
  moreover have "callbacks_of m'' other q = callbacks_of m other q" if "other \<noteq> item" for other q
  proof -
    have "callbacks_of m'' other q = callbacks_of ?m2 other q"
      using that by (simp add: m''(2) callbacks_of_def map_of_alist_delete)
    then show ?thesis using that clear_item_callbacks[OF r(1), of later item other q] r(4)[of other q] by simp
  qed
  moreover have "enough \<and> item_sent now item m \<le> k \<longrightarrow> item_sent now item m' \<le> k"
    using r(2,3) by (cases should) auto
  moreover have "\<not> pending_contains m'' item" by (simp add: m''(2) pending_contains_def delete_keys)
  ultimately show ?thesis using pending_inv_delete[OF inv2] r(2,3) m''(2) by blast
qed

theorem requests_bounded_and_answered_witness:
  "\<exists>m' peers notified m''. register_request 100 1 True (5 :: nat) (7 :: nat) ''cb'' [] = (True, m') \<and>
     pending_remove 5 (Some ''reply'') (clear_expired_callbacks_for_item 103 5 m') = ((peers, notified), m'') \<and>
     (''cb'', ''reply'') \<in> set notified"
proof -
  have r: "register_request 100 1 True (5 :: nat) (7 :: nat) ''cb'' [] = (True, [(5, [(7, [(''cb'', 100, True)])])])"
    by (simp add: register_request_def num_sent_requests_def clear_expired_callbacks_for_item_def pending_insert_def
        contains_peer_with_sent_request_def clear_expired_peers_def map_retain_def live_now[of 100 "''cb''" True])
  obtain peers notified m'' where d: "pending_remove 5 (Some ''reply'')
      (clear_expired_callbacks_for_item 103 5 [(5 :: nat, [(7 :: nat, [(''cb'', 100, True)])])]) = ((peers, notified), m'')"
    by (metis surj_pair)
  have "pending_inv ([] :: (nat, nat, string) pending)" by (simp add: pending_inv_def)
  from requests_bounded_and_answered[OF this r _ _ _ _ d] show ?thesis
    using r d by (auto simp: CALLBACK_EXPIRATION_IN_SECS_def as_secs_def MAX_FETCH_TIMEOUT_IN_MS_def
        MAX_BATCH_DELAY_IN_MS_def i64_max_def)
qed

text \<open>A callback without a request dies at once: inserting an item for a peer without a callback leaves only
  the callbacks that were live before, so a peer that had none is not pending afterwards, although the answer
  says that it was newly inserted.\<close>

theorem insert_without_callback:
  assumes "pending_inv m" "pending_insert now item p None m = (b, m')" "callbacks_of m item p = []" "\<not> contains_peer m item p"
  shows "b \<and> \<not> contains_peer m' item p"
proof -
  have "callbacks_of m' item p = []" using insert_callbacks(3)[OF assms(1,2), of item p] assms(3) by simp
  let ?entry = "case map_of m item of None \<Rightarrow> [] | Some entry \<Rightarrow> entry"
  have e: "wf_map (AList.update p [] ?entry)"
    using pending_inv_lookup[OF assms(1)] by (simp split: option.splits)
  have "map_of ?entry p = None"
    using assms(4) by (cases "map_of m item") (simp_all add: contains_peer_def map_of_eq_None_iff[of _ p])
  then have "m' = clear_expired_callbacks_for_item now item (AList.update item (AList.update p [] ?entry) m)"
    using assms(2) by (auto simp: pending_insert_def Let_def)
  then have "map_of m' item = Some peers \<Longrightarrow> map_of peers p = None" for peers
    using clear_item_lookup[OF pending_inv_update[OF assms(1) e], of now item item item] clear_expired_peers_lookup[OF e, of now p]
    by (auto split: if_splits)
  then have "\<not> contains_peer m' item p"
    by (auto simp: contains_peer_def map_of_eq_None_iff split: option.splits)
  then show ?thesis using insert_callbacks(2)[OF assms(1,2)] assms(4) by simp
qed

theorem insert_without_callback_witness:
  "\<exists>m'. pending_insert 100 (5 :: nat) (7 :: nat) None ([] :: (nat, nat, string) pending) = (True, m') \<and>
     \<not> contains_peer m' 5 7"
proof -
  obtain b m' where ins: "pending_insert 100 (5 :: nat) (7 :: nat) None ([] :: (nat, nat, string) pending) = (b, m')"
    by fastforce
  have "b \<and> \<not> contains_peer m' 5 7"
    by (rule insert_without_callback[OF _ ins]) (simp_all add: pending_inv_def callbacks_of_def contains_peer_def)
  then show ?thesis using ins by auto
qed

end
