(* ===== verification/Locators.thy ===== *)
theory Locators
  imports Committee
begin

text \<open>
  Block locators, after \<open>node/sync/locators/src/block_locators.rs\<close>: the hashes of the latest blocks of a node
  and of every ten-thousandth block, by height.  The checks accept exactly the locators of the form that the
  documentation of the struct describes, and no input makes them panic.
\<close>

section \<open>Locators and their checks\<close>

definition NUM_RECENT_BLOCKS :: usize where
  "NUM_RECENT_BLOCKS = 100"

definition RECENT_INTERVAL :: u32 where
  "RECENT_INTERVAL = 1"

definition CHECKPOINT_INTERVAL :: u32 where
  "CHECKPOINT_INTERVAL = 10000"

definition MAX_CHECKPOINTS :: usize where
  "MAX_CHECKPOINTS = u32_max div CHECKPOINT_INTERVAL"

record block_locators =
  recents :: "(u32, field) imap"
  checkpoints :: "(u32, field) imap"

definition new_genesis :: "field \<Rightarrow> block_locators" where
  "new_genesis genesis_hash = \<lparr>recents = [(0, genesis_hash)], checkpoints = [(0, genesis_hash)]\<rparr>"

text \<open>The locators in the order of their heights; a recent block replaces a checkpoint.\<close>

definition locators_into_iter :: "block_locators \<Rightarrow> (u32, field) imap" where
  "locators_into_iter l = fold (\<lambda>(h, x). bmap_update h x) (checkpoints l @ recents l) []"

definition latest_locator_height :: "block_locators \<Rightarrow> u32" where
  "latest_locator_height l = (if recents l = [] then 0 else last (keys (recents l)))"

definition get_hash :: "block_locators \<Rightarrow> u32 \<Rightarrow> field option" where
  "get_hash l h = (case map_of (recents l) h of Some x \<Rightarrow> Some x | None \<Rightarrow> map_of (checkpoints l) h)"

definition hashes_differ :: "(u32, field) imap \<Rightarrow> (u32, field) imap \<Rightarrow> bool" where
  "hashes_differ old new \<longleftrightarrow> (\<exists>(h, x)\<in>set new. case map_of old h of Some y \<Rightarrow> y \<noteq> x | None \<Rightarrow> False)"

definition check_consistent_block_locators :: "block_locators \<Rightarrow> block_locators \<Rightarrow> unit result" where
  "check_consistent_block_locators old_locators new_locators =
     (if hashes_differ (recents old_locators) (recents new_locators) then bail ''Recent block hash mismatch''
      else if hashes_differ (checkpoints old_locators) (checkpoints new_locators) then bail ''Block checkpoint hash mismatch''
      else Ok ())"

definition is_consistent_with :: "block_locators \<Rightarrow> block_locators \<Rightarrow> bool" where
  "is_consistent_with l other = is_ok (check_consistent_block_locators l other)"

fun check_recent_heights :: "usize \<Rightarrow> usize \<Rightarrow> u32 \<Rightarrow> u32 list \<Rightarrow> u32 result" where
  "check_recent_heights len i last_height [] = Ok last_height"
| "check_recent_heights len i last_height (current_height # hs) =
     (if i = 0 \<and> len < NUM_RECENT_BLOCKS \<and> current_height > 0 then bail ''The first recent block must be at height 0''
      else if i > 0 \<and> current_height \<le> last_height then bail ''Recent blocks must increment in height''
      else if i > 0 \<and> current_height - last_height \<noteq> RECENT_INTERVAL then bail ''Recent blocks must increment by one''
      else check_recent_heights len (Suc i) current_height hs)"

definition check_recent_blocks :: "(u32, field) imap \<Rightarrow> u32 result" where
  "check_recent_blocks rs =
     (if rs = [] then bail ''There must be at least 1 recent block''
      else if length rs > NUM_RECENT_BLOCKS then bail ''There are too many blocks in the map''
      else try_bind (check_recent_heights (length rs) 0 0 (keys rs)) (\<lambda>last_height.
        if last_height \<ge> NUM_RECENT_BLOCKS \<and> length rs \<noteq> NUM_RECENT_BLOCKS
        then bail ''Number of recent blocks does not match''
        else if \<not> distinct (vals rs) then bail ''Recent block hashes must be unique''
        else Ok last_height))"

fun check_checkpoint_heights :: "usize \<Rightarrow> u32 \<Rightarrow> u32 list \<Rightarrow> u32 result" where
  "check_checkpoint_heights i last_height [] = Ok last_height"
| "check_checkpoint_heights i last_height (current_height # hs) =
     (if i = 0 \<and> current_height \<noteq> 0 then bail ''First block checkpoint must be at height 0''
      else if i > 0 \<and> current_height \<le> last_height then bail ''Block checkpoints must increment in height''
      else if i > 0 \<and> current_height - last_height \<noteq> CHECKPOINT_INTERVAL then bail ''Block checkpoints have a wrong interval''
      else check_checkpoint_heights (Suc i) current_height hs)"

definition check_block_checkpoints :: "(u32, field) imap \<Rightarrow> u32 result" where
  "check_block_checkpoints cs =
     ensure (cs \<noteq> []) ''There must be at least 1 block checkpoint''
     (try_bind (check_checkpoint_heights 0 0 (keys cs)) (\<lambda>last_height.
      if \<not> distinct (vals cs) then bail ''Block checkpoints must be unique'' else Ok last_height))"

definition saturating_add_u32 :: "u32 \<Rightarrow> u32 \<Rightarrow> u32" where
  "saturating_add_u32 a b = min (a + b) u32_max"

definition check_block_locators :: "(u32, field) imap \<Rightarrow> (u32, field) imap \<Rightarrow> unit result" where
  "check_block_locators rs cs =
     try_bind (check_recent_blocks rs) (\<lambda>last_recent_height.
     try_bind (check_block_checkpoints cs) (\<lambda>last_checkpoint_height.
     if \<not> (last_checkpoint_height \<le> last_recent_height \<and>
           last_recent_height < saturating_add_u32 last_checkpoint_height CHECKPOINT_INTERVAL)
     then bail ''Last checkpoint height does not match the last recent height''
     else let distance = last_recent_height mod CHECKPOINT_INTERVAL
          in if distance < NUM_RECENT_BLOCKS
             then (case (map_of rs (last_recent_height - distance), map_of cs (last_recent_height - distance)) of
                     (Some x, Some y) \<Rightarrow> if x \<noteq> y then bail ''Recent block hash and checkpoint hash mismatch'' else Ok ()
                   | _ \<Rightarrow> Err (Panic ''called `Option::unwrap()` on a `None` value''))
             else Ok ()))"

definition locators_new :: "(u32, field) imap \<Rightarrow> (u32, field) imap \<Rightarrow> block_locators result" where
  "locators_new rs cs = try_bind (check_block_locators rs cs) (\<lambda>_. Ok \<lparr>recents = rs, checkpoints = cs\<rparr>)"

definition write_locator :: "(u32 \<times> field) writer" where
  "write_locator = (\<lambda>(h, x). write_seq [write_uint 4 h, write_field x])"

definition read_locator :: "(u32 \<times> field) reader" where
  "read_locator = read_then (read_uint 4) (\<lambda>h. read_then read_field (\<lambda>x. read_lift (Ok (h, x))))"

definition write_block_locators :: "block_locators writer" where
  "write_block_locators l =
     write_seq ([write_len 4 (length (recents l))] @ map write_locator (recents l)
       @ [write_len 4 (length (checkpoints l))] @ map write_locator (checkpoints l))"

definition read_block_locators :: "block_locators reader" where
  "read_block_locators =
     read_then (read_uint 4) (\<lambda>num_recents.
     read_ensure (\<not> num_recents > NUM_RECENT_BLOCKS) ''Number of recent blocks is greater than the maximum'' (
     read_then (read_many num_recents read_locator) (\<lambda>rs.
     read_then (read_uint 4) (\<lambda>num_checkpoints.
     read_ensure (\<not> num_checkpoints > MAX_CHECKPOINTS) ''Number of checkpoints is greater than the maximum'' (
     read_then (read_many num_checkpoints read_locator) (\<lambda>cs.
     read_lift (locators_new (imap_of_list rs) (imap_of_list cs))))))))"

section \<open>The documented form\<close>

text \<open>The last \<open>NUM_RECENT_BLOCKS\<close> heights up to \<open>last\<close>, every checkpoint up to it, hashes that are unique in each
  map and agree between the maps.\<close>

definition well_formed_locators :: "u32 \<Rightarrow> (u32, field) imap \<Rightarrow> (u32, field) imap \<Rightarrow> bool" where
  "well_formed_locators last_height rs cs \<longleftrightarrow>
     keys rs = [Suc last_height - NUM_RECENT_BLOCKS ..< Suc last_height] \<and>
     keys cs = map ((*) CHECKPOINT_INTERVAL) [0 ..< Suc (last_height div CHECKPOINT_INTERVAL)] \<and>
     distinct (vals rs) \<and> distinct (vals cs) \<and>
     (\<forall>h\<in>set (keys rs) \<inter> set (keys cs). map_of rs h = map_of cs h)"

lemma recent_heights_Suc:
  "check_recent_heights len (Suc i) l hs = Ok r \<longleftrightarrow> hs = [Suc l ..< Suc l + length hs] \<and> r = l + length hs"
proof (induction hs arbitrary: i l)
  case (Cons h hs)
  have u: "[Suc l ..< Suc l + length (h # hs)] = Suc l # [Suc (Suc l) ..< Suc (Suc l) + length hs]"
    by (simp add: upt_rec)
  have "\<not> h \<le> l \<and> h - l = RECENT_INTERVAL \<longleftrightarrow> h = Suc l" by (auto simp: RECENT_INTERVAL_def)
  then show ?case unfolding u using Cons.IH[of "Suc i" h] by auto
qed auto

lemma checkpoint_heights_Suc:
  "check_checkpoint_heights (Suc i) (CHECKPOINT_INTERVAL * k) hs = Ok r \<longleftrightarrow>
     hs = map ((*) CHECKPOINT_INTERVAL) [Suc k ..< Suc k + length hs] \<and> r = CHECKPOINT_INTERVAL * (k + length hs)"
proof (induction hs arbitrary: i k)
  case (Cons h hs)
  have u: "[Suc k ..< Suc k + length (h # hs)] = Suc k # [Suc (Suc k) ..< Suc (Suc k) + length hs]"
    by (simp add: upt_rec)
  have "\<not> h \<le> CHECKPOINT_INTERVAL * k \<and> h - CHECKPOINT_INTERVAL * k = CHECKPOINT_INTERVAL \<longleftrightarrow> h = CHECKPOINT_INTERVAL * Suc k"
    by (auto simp: CHECKPOINT_INTERVAL_def)
  then show ?case unfolding u using Cons.IH[of "Suc i" "Suc k"] by auto
qed auto

lemma no_panic_heights: "check_recent_heights n i l hs \<noteq> Err (Panic m)" "check_checkpoint_heights i l hs \<noteq> Err (Panic m)"
  by (induction hs arbitrary: i l) auto

lemma check_recent_blocks_iff:
  "check_recent_blocks rs = Ok l \<longleftrightarrow> keys rs = [Suc l - NUM_RECENT_BLOCKS ..< Suc l] \<and> distinct (vals rs)"
proof (cases "keys rs")
  case Nil
  then show ?thesis by (auto simp: check_recent_blocks_def NUM_RECENT_BLOCKS_def)
next
  case (Cons h hs)
  then have len: "length rs = Suc (length hs)" "rs \<noteq> []" by (cases rs; auto)+
  have "check_recent_blocks rs = Ok l \<longleftrightarrow> length rs \<le> 100 \<and> (length rs < 100 \<longrightarrow> h = 0) \<and> hs = [Suc h ..< Suc h + length hs] \<and>
      l = h + length hs \<and> (100 \<le> l \<longrightarrow> length rs = 100) \<and> distinct (vals rs)"
    using len(2) unfolding check_recent_blocks_def Cons NUM_RECENT_BLOCKS_def
    by (auto simp: result_simps recent_heights_Suc NUM_RECENT_BLOCKS_def)
  also have "\<dots> \<longleftrightarrow> h # hs = [Suc l - 100 ..< Suc l] \<and> distinct (vals rs)"
  proof (cases "l = h + length hs \<and> hs = [Suc h ..< Suc h + length hs]")
    case True
    then have "h # hs = [h ..< Suc l]" using upt_conv_Cons[of h "Suc l"] by auto
    moreover have "h = Suc l - 100" if "[h ..< Suc l] = [Suc l - 100 ..< Suc l]"
      using arg_cong[OF that, of hd] True by (simp add: hd_upt del: upt_Suc)
    then have "[h ..< Suc l] = [Suc l - 100 ..< Suc l] \<longleftrightarrow> h = Suc l - 100" by blast
    moreover have "h = Suc l - 100 \<longleftrightarrow> length rs \<le> 100 \<and> (length rs < 100 \<longrightarrow> h = 0) \<and> (100 \<le> l \<longrightarrow> length rs = 100)"
      using True len(1) by linarith
    ultimately show ?thesis using True by (metis (no_types, lifting))
  next
    case False
    have "l = h + length hs \<and> hs = [Suc h ..< Suc h + length hs]" if "h # hs = [Suc l - 100 ..< Suc l]"
    proof -
      have "[Suc l - 100 ..< Suc l] = (Suc l - 100) # [Suc (Suc l - 100) ..< Suc l]" by (intro upt_conv_Cons) simp
      then have h: "h = Suc l - 100" "hs = [Suc h ..< Suc l]" using that by (simp_all del: upt_Suc)
      then have "length hs = l - h" by (simp del: upt_Suc)
      then show ?thesis using h by (simp del: upt_Suc)
    qed
    then show ?thesis using False by blast
  qed
  finally show ?thesis by (simp add: Cons NUM_RECENT_BLOCKS_def)
qed

lemma check_block_checkpoints_iff:
  "check_block_checkpoints cs = Ok l \<longleftrightarrow>
     (\<exists>k. l = CHECKPOINT_INTERVAL * k \<and> keys cs = map ((*) CHECKPOINT_INTERVAL) [0 ..< Suc k]) \<and> distinct (vals cs)"
proof (cases "keys cs")
  case Nil
  then show ?thesis by (auto simp: check_block_checkpoints_def ensure_def)
next
  case (Cons h hs)
  have u: "[0 ..< Suc k] = 0 # [Suc 0 ..< Suc k]" for k by (simp add: upt_rec)
  have "(\<exists>k. l = CHECKPOINT_INTERVAL * k \<and> keys cs = map ((*) CHECKPOINT_INTERVAL) [0 ..< Suc k]) \<longleftrightarrow>
      h = 0 \<and> hs = map ((*) CHECKPOINT_INTERVAL) [Suc 0 ..< Suc 0 + length hs] \<and> l = CHECKPOINT_INTERVAL * length hs"
    unfolding Cons u by (auto dest: arg_cong[of _ _ length] simp del: upt_Suc)
  moreover have "cs \<noteq> []" using Cons by auto
  ultimately show ?thesis
    using checkpoint_heights_Suc[of 0 0 hs l] unfolding check_block_checkpoints_def Cons by (auto simp: result_simps)
qed

text \<open>The last checkpoint is the largest multiple of the interval up to the last height.\<close>

lemma last_checkpoint_iff:
  assumes "l \<le> u32_max"
  shows "CHECKPOINT_INTERVAL * k \<le> l \<and> l < saturating_add_u32 (CHECKPOINT_INTERVAL * k) CHECKPOINT_INTERVAL \<longleftrightarrow>
    k = l div CHECKPOINT_INTERVAL \<and> l < u32_max"
proof -
  have "CHECKPOINT_INTERVAL * k \<le> l \<and> l < CHECKPOINT_INTERVAL * k + CHECKPOINT_INTERVAL \<longleftrightarrow> k = l div CHECKPOINT_INTERVAL"
    unfolding CHECKPOINT_INTERVAL_def by linarith
  then show ?thesis using assms by (auto simp: saturating_add_u32_def)
qed

lemma common_height_arith:
  fixes h l n I :: nat
  assumes "n \<le> I" "0 < I"
  shows "(h \<le> l \<and> l < h + n) \<and> (\<exists>j \<le> l div I. h = I * j) \<longleftrightarrow> l mod I < n \<and> h = l - l mod I"
proof
  assume a: "(h \<le> l \<and> l < h + n) \<and> (\<exists>j \<le> l div I. h = I * j)"
  then obtain j where j: "j \<le> l div I" "h = I * j" by blast
  have "\<not> j < l div I"
  proof
    assume "j < l div I"
    then have "I * Suc j \<le> I * (l div I)" by (intro mult_le_mono) auto
    also have "\<dots> \<le> l" by simp
    finally show False using a j(2) assms(1) by simp
  qed
  then have "h = I * (l div I)" using j by simp
  then show "l mod I < n \<and> h = l - l mod I" using a by (simp add: minus_mod_eq_mult_div minus_div_mult_eq_mod[symmetric] mult.commute less_diff_conv2)
next
  assume a: "l mod I < n \<and> h = l - l mod I"
  then have "h = I * (l div I)" by (simp add: minus_mod_eq_mult_div)
  moreover have "h + l mod I = l" using a by simp
  ultimately show "(h \<le> l \<and> l < h + n) \<and> (\<exists>j \<le> l div I. h = I * j)" using a by fastforce
qed

lemma common_height:
  assumes "keys rs = [Suc l - NUM_RECENT_BLOCKS ..< Suc l]" "keys cs = map ((*) CHECKPOINT_INTERVAL) [0 ..< Suc (l div CHECKPOINT_INTERVAL)]"
  shows "h \<in> set (keys rs) \<and> h \<in> set (keys cs) \<longleftrightarrow>
    l mod CHECKPOINT_INTERVAL < NUM_RECENT_BLOCKS \<and> h = l - l mod CHECKPOINT_INTERVAL"
proof -
  have "h \<in> set (keys rs) \<longleftrightarrow> h \<le> l \<and> l < h + NUM_RECENT_BLOCKS"
    unfolding assms(1) NUM_RECENT_BLOCKS_def set_upt atLeastLessThan_iff by linarith
  moreover have "h \<in> set (keys cs) \<longleftrightarrow> (\<exists>j \<le> l div CHECKPOINT_INTERVAL. h = CHECKPOINT_INTERVAL * j)"
    unfolding assms(2) by (auto simp: image_iff less_Suc_eq_le simp del: upt_Suc)
  moreover have "NUM_RECENT_BLOCKS \<le> CHECKPOINT_INTERVAL" "0 < CHECKPOINT_INTERVAL"
    by (simp_all add: NUM_RECENT_BLOCKS_def CHECKPOINT_INTERVAL_def)
  ultimately show ?thesis using common_height_arith[of NUM_RECENT_BLOCKS CHECKPOINT_INTERVAL h l] by simp
qed

lemma check_block_locators_cases:
  assumes "check_recent_blocks rs = Ok l" "check_block_checkpoints cs = Ok (CHECKPOINT_INTERVAL * (l div CHECKPOINT_INTERVAL))" "l < u32_max"
  shows "check_block_locators rs cs = (if well_formed_locators l rs cs then Ok ()
    else bail ''Recent block hash and checkpoint hash mismatch'')"
proof -
  let ?d = "l mod CHECKPOINT_INTERVAL"
  have k: "keys rs = [Suc l - NUM_RECENT_BLOCKS ..< Suc l]" "distinct (vals rs)" "distinct (vals cs)"
    "keys cs = map ((*) CHECKPOINT_INTERVAL) [0 ..< Suc (l div CHECKPOINT_INTERVAL)]"
    using assms(1,2) by (auto simp: check_recent_blocks_iff check_block_checkpoints_iff CHECKPOINT_INTERVAL_def simp del: upt_Suc)
  have range: "CHECKPOINT_INTERVAL * (l div CHECKPOINT_INTERVAL) \<le> l \<and>
      l < saturating_add_u32 (CHECKPOINT_INTERVAL * (l div CHECKPOINT_INTERVAL)) CHECKPOINT_INTERVAL"
    using last_checkpoint_iff[of l] assms(3) by auto
  have eq: "check_block_locators rs cs = (if ?d < NUM_RECENT_BLOCKS
      then (case (map_of rs (l - ?d), map_of cs (l - ?d)) of
              (Some x, Some y) \<Rightarrow> if x \<noteq> y then bail ''Recent block hash and checkpoint hash mismatch'' else Ok ()
            | _ \<Rightarrow> Err (Panic ''called `Option::unwrap()` on a `None` value'')) else Ok ())"
    using assms(1,2) range by (simp add: check_block_locators_def Let_def)
  note common = common_height[OF k(1,4)]
  show ?thesis
  proof (cases "?d < NUM_RECENT_BLOCKS")
    case False
    then show ?thesis using eq k common by (auto simp: well_formed_locators_def simp del: upt_Suc set_map)
  next
    case True
    then obtain x y where xy: "map_of rs (l - ?d) = Some x" "map_of cs (l - ?d) = Some y"
      using common[of "l - ?d"] by (metis map_of_eq_None_iff not_Some_eq list.set_map)
    have "well_formed_locators l rs cs \<longleftrightarrow> x = y"
      unfolding well_formed_locators_def Int_iff Ball_def common using k xy True by simp
    then show ?thesis using eq xy True by simp
  qed
qed

lemma check_block_locators_result:
  assumes "\<forall>h\<in>set (keys rs). h \<le> u32_max"
  shows "check_block_locators rs cs = Ok () \<longleftrightarrow> (\<exists>l < u32_max. well_formed_locators l rs cs)"
    and "check_block_locators rs cs \<noteq> Err (Panic m)"
proof -
  have parts: "check_recent_blocks rs = Ok l \<and> check_block_checkpoints cs = Ok (CHECKPOINT_INTERVAL * (l div CHECKPOINT_INTERVAL))"
    if "well_formed_locators l rs cs" for l
    using that by (auto simp: well_formed_locators_def check_recent_blocks_iff check_block_checkpoints_iff simp del: upt_Suc)
  have reached: "\<exists>l < u32_max. check_recent_blocks rs = Ok l \<and> check_block_checkpoints cs = Ok (CHECKPOINT_INTERVAL * (l div CHECKPOINT_INTERVAL))"
    if a: "check_block_locators rs cs = Ok () \<or> check_block_locators rs cs = Err (Panic m)"
  proof -
    have np: "check_recent_blocks rs \<noteq> Err (Panic m)" "check_block_checkpoints cs \<noteq> Err (Panic m)"
      using no_panic_heights by (auto simp: check_recent_blocks_def check_block_checkpoints_def try_bind_def ensure_def split: sum.splits if_splits)
    obtain l where l: "check_recent_blocks rs = Ok l"
      using a np(1) by (cases "check_recent_blocks rs") (auto simp: check_block_locators_def)
    obtain q where q: "check_block_checkpoints cs = Ok q"
      using a np(2) l by (cases "check_block_checkpoints cs") (auto simp: check_block_locators_def)
    obtain k where k: "q = CHECKPOINT_INTERVAL * k" using q unfolding check_block_checkpoints_iff by blast
    have lk: "check_recent_blocks rs = Ok l" "CHECKPOINT_INTERVAL * k \<le> l \<and> l < saturating_add_u32 (CHECKPOINT_INTERVAL * k) CHECKPOINT_INTERVAL"
      using a l q k by (auto simp: check_block_locators_def split: if_splits)
    have "l \<in> set (keys rs)" using lk(1) by (simp add: check_recent_blocks_iff NUM_RECENT_BLOCKS_def)
    then have "l \<le> u32_max" using assms by blast
    then show ?thesis using lk q k last_checkpoint_iff[of l k] by auto
  qed
  show "check_block_locators rs cs = Ok () \<longleftrightarrow> (\<exists>l < u32_max. well_formed_locators l rs cs)"
    using parts reached check_block_locators_cases[of rs _ cs] by (metis Inr_not_Inl)
  show "check_block_locators rs cs \<noteq> Err (Panic m)"
    using reached check_block_locators_cases[of rs _ cs] by (auto split: if_splits)
qed

section \<open>Encoding\<close>

interpretation locator_bytes: codec write_locator read_locator "\<lambda>(h, x). h \<le> u32_max \<and> x < field_modulus"
proof unfold_locales
  fix e :: "u32 \<times> field"
  assume e: "case e of (h, x) \<Rightarrow> h \<le> u32_max \<and> x < field_modulus"
  obtain h x where p: "e = (h, x)" by (cases e)
  have "h < 256 ^ 4" using e p by (simp add: u32_max_def)
  then obtain b where b: "write_uint 4 h = Ok b" "\<forall>rest. read_uint 4 (b @ rest) = Ok (h, rest)"
    using uint.read_write[of h 4] by blast
  obtain c where c: "write_field x = Ok c" "\<forall>rest. read_field (c @ rest) = Ok (x, rest)"
    using field_bytes.read_write[of x] e p by auto
  show "\<exists>bs. write_locator e = Ok bs \<and> (\<forall>rest. read_locator (bs @ rest) = Ok (e, rest))"
    using b c by (simp add: p write_locator_def read_locator_def)
qed

definition valid_locators :: "block_locators \<Rightarrow> bool" where
  "valid_locators l \<longleftrightarrow> length (checkpoints l) \<le> MAX_CHECKPOINTS \<and>
     (\<exists>last_height < u32_max. well_formed_locators last_height (recents l) (checkpoints l)) \<and>
     (\<forall>(h, x)\<in>set (recents l @ checkpoints l). h \<le> u32_max \<and> x < field_modulus)"

lemma well_formed_maps:
  assumes "well_formed_locators l rs cs"
  shows "wf_map rs" "wf_map cs" "length rs \<le> NUM_RECENT_BLOCKS"
proof -
  note k = assms[unfolded well_formed_locators_def]
  show "wf_map rs" using k by (simp add: wf_map_def del: upt_Suc)
  show "wf_map cs" using k by (simp add: wf_map_def distinct_map inj_on_def CHECKPOINT_INTERVAL_def del: upt_Suc)
  have "length rs = length [Suc l - NUM_RECENT_BLOCKS ..< Suc l]" using k by (metis length_map)
  then show "length rs \<le> NUM_RECENT_BLOCKS" by (simp del: upt_Suc)
qed

interpretation locators_bytes: codec write_block_locators read_block_locators valid_locators
proof unfold_locales
  fix l
  assume v: "valid_locators l"
  note v' = v[unfolded valid_locators_def]
  from v' obtain h where h: "h < u32_max" "well_formed_locators h (recents l) (checkpoints l)" by blast
  note wf = well_formed_maps[OF h(2)]
  obtain rb where rb: "write_seq (map write_locator (recents l)) = Ok rb"
    using locator_bytes.write_seq_total[of "recents l"] v' by auto
  obtain cb where cb: "write_seq (map write_locator (checkpoints l)) = Ok cb"
    using locator_bytes.write_seq_total[of "checkpoints l"] v' by auto
  have rr: "read_many (length (recents l)) read_locator (rb @ rest) = Ok (recents l, rest)" for rest
    using locator_bytes.read_many_back[OF _ rb] v' by auto
  have cr: "read_many (length (checkpoints l)) read_locator (cb @ rest) = Ok (checkpoints l, rest)" for rest
    using locator_bytes.read_many_back[OF _ cb] v' by auto
  have len: "length (recents l) < 256 ^ 4" "length (checkpoints l) < 256 ^ 4" "length (recents l) \<le> NUM_RECENT_BLOCKS"
    using wf(3) v' by (simp_all add: NUM_RECENT_BLOCKS_def MAX_CHECKPOINTS_def CHECKPOINT_INTERVAL_def u32_max_def)
  have "\<forall>x\<in>set (keys (recents l)). x \<le> u32_max" using v' by auto
  from check_block_locators_result(1)[OF this, of "checkpoints l"] h
  have "locators_new (recents l) (checkpoints l) = Ok l" by (auto simp: locators_new_def)
  then have "read_block_locators ((le_bytes 4 (length (recents l)) @ rb @ le_bytes 4 (length (checkpoints l)) @ cb) @ rest) = Ok (l, rest)" for rest
    using rr cr len v' wf by (simp add: read_block_locators_def imap_of_list_wf)
  moreover have "write_block_locators l = Ok (le_bytes 4 (length (recents l)) @ rb @ le_bytes 4 (length (checkpoints l)) @ cb)"
    using rb cb write_len_uint[OF len(1)] write_len_uint[OF len(2)] by (simp add: write_block_locators_def write_seq_append)
  ultimately show "\<exists>bs. write_block_locators l = Ok bs \<and> (\<forall>rest. read_block_locators (bs @ rest) = Ok (l, rest))" by blast
qed

section \<open>Properties\<close>

text \<open>Locators have their documented form.  For any two maps from heights to hashes, \<open>BlockLocators::new\<close>
  succeeds exactly when, for some latest height, the recent blocks are the last hundred up to it (all of them
  on a shorter chain), the checkpoints are all multiples of the interval up to it, no hash repeats within a
  map and the maps agree where they overlap; the unwraps in the check never panic.\<close>

theorem locators_documented_form:
  assumes "\<forall>h\<in>set (keys rs). h \<le> u32_max"
  shows "(locators_new rs cs = Ok l \<longleftrightarrow> l = \<lparr>recents = rs, checkpoints = cs\<rparr> \<and>
      latest_locator_height l < u32_max \<and> well_formed_locators (latest_locator_height l) rs cs) \<and>
    locators_new rs cs \<noteq> Err (Panic m)"
proof -
  have "latest_locator_height \<lparr>recents = rs, checkpoints = cs\<rparr> = h" if "well_formed_locators h rs cs" for h
  proof -
    have "keys rs = [Suc h - NUM_RECENT_BLOCKS ..< Suc h]" using that by (simp add: well_formed_locators_def)
    then show ?thesis by (auto simp: latest_locator_height_def NUM_RECENT_BLOCKS_def)
  qed
  then show ?thesis
    using check_block_locators_result[OF assms, of cs] by (auto simp: locators_new_def try_bind_def split: sum.splits)
qed

theorem locators_documented_form_witness:
  "locators_new [(0, 5), (1, 6)] [(0, 5)] = Ok \<lparr>recents = [(0, 5), (1, 6)], checkpoints = [(0, 5)]\<rparr>"
  using locators_documented_form[of "[(0, 5), (1, 6)]" "[(0, 5)]" "\<lparr>recents = [(0, 5), (1, 6)], checkpoints = [(0, 5)]\<rparr>"]
  by (simp add: u32_max_def latest_locator_height_def well_formed_locators_def NUM_RECENT_BLOCKS_def CHECKPOINT_INTERVAL_def)

end
