(* ===== verification/Proposal.thy ===== *)
theory Proposal
  imports Transmission BFT_Storage Locators
begin

text \<open>
  The proposal a validator collects signatures for, the signatures it has given to others, and the file that
  keeps both over a restart: \<open>node/bft/src/helpers/proposal.rs\<close>, \<open>signed_proposals.rs\<close> and
  \<open>proposal_cache.rs\<close>.  A proposal with a quorum becomes a certificate that every other validator's storage
  admits as far as its signers go, and the cache is read back from the bytes it is stored as,
  with the payloads of the proposal as bytes.
\<close>

section \<open>Proposals\<close>

record 't proposal =
  p_header :: batch_header
  p_transmissions :: "'t tmap"
  p_signatures :: "signature list"

definition ids_match :: "transmission_id list \<Rightarrow> transmission_id list \<Rightarrow> bool" where
  "ids_match as bs \<longleftrightarrow> length as = length bs \<and> (\<forall>(a, b)\<in>set (zip as bs). a = b)"

definition proposal_new :: "committee \<Rightarrow> batch_header \<Rightarrow> 't tmap \<Rightarrow> 't proposal result" where
  "proposal_new committee h ts =
     ensure (round h \<ge> starting_round committee) ''Batch round must be >= the committee round''
     (ensure (is_committee_member committee (author h)) ''The batch author is not a committee member''
     (ensure (ids_match (transmission_ids h) (keys ts))
       ''The transmission IDs do not match in the batch header and transmissions''
     (Ok \<lparr>p_header = h, p_transmissions = ts, p_signatures = []\<rparr>)))"

definition proposal_signers :: "crypto \<Rightarrow> 't proposal \<Rightarrow> address list" where
  "proposal_signers cr p = iset_of_list (map (to_address cr) (p_signatures p @ [header_signature (p_header p)]))"

definition nonsigners :: "crypto \<Rightarrow> 't proposal \<Rightarrow> committee \<Rightarrow> address list" where
  "nonsigners cr p committee = iset_of_list (filter (\<lambda>a. a \<notin> set (proposal_signers cr p)) (keys (members committee)))"

definition proposal_quorum :: "crypto \<Rightarrow> 't proposal \<Rightarrow> committee \<Rightarrow> bool" where
  "proposal_quorum cr p committee \<longleftrightarrow> is_quorum_threshold_reached committee (proposal_signers cr p)"

definition proposal_contains_transmission :: "'t proposal \<Rightarrow> transmission_id \<Rightarrow> bool" where
  "proposal_contains_transmission p i \<longleftrightarrow> i \<in> set (keys (p_transmissions p))"

definition proposal_get_transmission :: "'t proposal \<Rightarrow> transmission_id \<Rightarrow> 't option" where
  "proposal_get_transmission p i = map_of (p_transmissions p) i"

definition add_signature ::
    "crypto \<Rightarrow> address \<Rightarrow> signature \<Rightarrow> committee \<Rightarrow> 't proposal \<Rightarrow> (bool \<times> 't proposal) result" where
  "add_signature cr signer s committee p =
     (if \<not> is_committee_member committee signer then bail ''Signature from a non-committee member''
      else if signer \<in> set (proposal_signers cr p) then Ok (False, p)
      else if \<not> verify cr s signer [batch_id (p_header p)] then bail ''Signature verification failed''
      else Ok (True, p\<lparr>p_signatures := iset_insert s (p_signatures p)\<rparr>))"

definition to_certificate ::
    "network \<Rightarrow> crypto \<Rightarrow> 't proposal \<Rightarrow> committee \<Rightarrow> (batch_certificate \<times> 't tmap) result" where
  "to_certificate n cr p committee =
     ensure (proposal_quorum cr p committee) ''The quorum threshold has not been reached''
     (try_bind (batch_certificate_from n cr (p_header p) (p_signatures p)) (\<lambda>c.
      Ok (c, p_transmissions p)))"

definition write_proposal :: "'t writer \<Rightarrow> 't proposal writer" where
  "write_proposal wt p =
     write_seq ([write_batch_header (p_header p), write_len 4 (length (p_transmissions p))]
       @ concat (map (\<lambda>(i, t). [write_transmission_id i, wt t]) (p_transmissions p))
       @ [write_len 4 (length (p_signatures p))]
       @ map write_signature (p_signatures p))"

definition read_proposal :: "network \<Rightarrow> crypto \<Rightarrow> 't reader \<Rightarrow> 't proposal reader" where
  "read_proposal n cr rt =
     read_then (read_batch_header n cr) (\<lambda>h.
     read_then read_u32 (\<lambda>num_transmissions.
     read_ensure (\<not> num_transmissions > MAX_TRANSMISSIONS_PER_BATCH) ''Invalid number of transmissions in the proposal'' (
     read_then (read_many num_transmissions (read_then read_transmission_id (\<lambda>i.
         read_then rt (\<lambda>t. read_lift (Ok (i, t)))))) (\<lambda>entries.
     read_then read_u32 (\<lambda>num_signatures.
     read_ensure (\<not> num_signatures > max_committee_size n) ''Invalid number of signatures in the proposal'' (
     read_then (read_many num_signatures (read_signature cr)) (\<lambda>sigs.
     let ts = imap_of_list entries
     in read_ensure (ids_match (transmission_ids h) (keys ts))
          ''The transmission IDs do not match in the batch header and transmissions''
        (read_lift (Ok \<lparr>p_header = h, p_transmissions = ts, p_signatures = iset_of_list sigs\<rparr>)))))))))"

section \<open>Signed proposals and the proposal cache\<close>

type_synonym signed_proposals = "(address, u64 \<times> field \<times> signature) imap"

definition signed_proposals_valid :: "crypto \<Rightarrow> signed_proposals \<Rightarrow> address \<Rightarrow> bool" where
  "signed_proposals_valid cr m expected_signer \<longleftrightarrow> (\<forall>(_, _, _, s)\<in>set m. to_address cr s = expected_signer)"

definition write_signed_proposal :: "(address \<times> u64 \<times> field \<times> signature) writer" where
  "write_signed_proposal = (\<lambda>(a, r, i, s). write_seq [write_address a, write_u64 r, write_field i, write_signature s])"

definition write_signed_proposals :: "signed_proposals writer" where
  "write_signed_proposals m = write_seq (write_len 4 (length m) # map write_signed_proposal m)"

definition read_signed_proposal :: "crypto \<Rightarrow> (address \<times> u64 \<times> field \<times> signature) reader" where
  "read_signed_proposal cr =
     read_then (read_address cr) (\<lambda>a. read_then read_u64 (\<lambda>r. read_then read_field (\<lambda>i.
     read_then (read_signature cr) (\<lambda>s. read_lift (Ok (a, r, i, s))))))"

definition read_signed_proposals :: "network \<Rightarrow> crypto \<Rightarrow> signed_proposals reader" where
  "read_signed_proposals n cr =
     read_then read_u32 (\<lambda>num.
     read_ensure (\<not> num > LATEST_MAX_CERTIFICATES n * NUM_RECENT_BLOCKS) ''Number of signed proposals is greater than the maximum'' (
     read_then (read_many num (read_signed_proposal cr)) (\<lambda>entries. read_lift (Ok (imap_of_list entries)))))"

record 't proposal_cache =
  cached_round :: u64
  cached_proposal :: "'t proposal option"
  cached_signed_proposals :: signed_proposals
  pending_certificates :: "batch_certificate list"

definition proposal_cache_default :: "'t proposal_cache" where
  "proposal_cache_default =
     \<lparr>cached_round = 0, cached_proposal = None, cached_signed_proposals = [], pending_certificates = []\<rparr>"

definition proposal_cache_valid :: "crypto \<Rightarrow> 't proposal_cache \<Rightarrow> address \<Rightarrow> bool" where
  "proposal_cache_valid cr pc expected_signer \<longleftrightarrow>
     (case cached_proposal pc of
        None \<Rightarrow> True
      | Some p \<Rightarrow> author (p_header p) = expected_signer \<and> cached_round pc = round (p_header p)) \<and>
     signed_proposals_valid cr (cached_signed_proposals pc) expected_signer"

definition SUBDAG_CERTIFICATES_DEPTH :: u8 where
  "SUBDAG_CERTIFICATES_DEPTH = 16"

definition write_proposal_cache :: "'t writer \<Rightarrow> 't proposal_cache writer" where
  "write_proposal_cache wt pc =
     write_seq ([write_u64 (cached_round pc), write_bool (cached_proposal pc \<noteq> None)]
       @ (case cached_proposal pc of None \<Rightarrow> [] | Some p \<Rightarrow> [write_proposal wt p])
       @ [write_signed_proposals (cached_signed_proposals pc), write_len 4 (length (pending_certificates pc))]
       @ map write_batch_certificate (pending_certificates pc))"

definition read_proposal_cache :: "network \<Rightarrow> crypto \<Rightarrow> 't reader \<Rightarrow> 't proposal_cache reader" where
  "read_proposal_cache n cr rt =
     read_then read_u64 (\<lambda>r.
     read_then read_bool (\<lambda>has_proposal.
     read_then (if has_proposal then read_then (read_proposal n cr rt) (\<lambda>p. read_lift (Ok (Some p)))
                else read_lift (Ok None)) (\<lambda>p.
     read_then (read_signed_proposals n cr) (\<lambda>signed.
     read_then read_u32 (\<lambda>num_certificates.
     read_ensure (\<not> num_certificates > min u32_max (2 ^ SUBDAG_CERTIFICATES_DEPTH))
       ''Number of certificates exceeds the maximum'' (
     read_then (read_many num_certificates (read_batch_certificate n cr)) (\<lambda>cs.
     read_lift (Ok \<lparr>cached_round = r, cached_proposal = p, cached_signed_proposals = signed,
       pending_certificates = cset_of_list cs\<rparr>))))))))"

text \<open>\<open>load\<close> and \<open>store\<close>; \<open>None\<close> stands for a file that cannot be read.\<close>

definition proposal_cache_load ::
    "network \<Rightarrow> crypto \<Rightarrow> 't reader \<Rightarrow> address \<Rightarrow> byte list option \<Rightarrow> 't proposal_cache result" where
  "proposal_cache_load n cr rt expected_signer file =
     (case file of
        None \<Rightarrow> bail ''Couldn't read the proposal''
      | Some bytes \<Rightarrow>
          (case read_proposal_cache n cr rt bytes of
             Inl _ \<Rightarrow> bail ''Couldn't deserialize the proposal''
           | Inr (pc, _) \<Rightarrow>
               if \<not> proposal_cache_valid cr pc expected_signer then bail ''The proposal cache is invalid''
               else Ok pc))"

definition proposal_cache_store :: "'t writer \<Rightarrow> 't proposal_cache \<Rightarrow> byte list option result" where
  "proposal_cache_store wt pc = try_bind (write_proposal_cache wt pc) (\<lambda>bytes. Ok (Some bytes))"

section \<open>From a proposal to a certificate\<close>

inductive proposal_reachable :: "network \<Rightarrow> crypto \<Rightarrow> committee \<Rightarrow> 't proposal \<Rightarrow> bool" for n cr cm where
  created: "valid_header n cr h \<Longrightarrow> proposal_new cm h ts = Ok p \<Longrightarrow> proposal_reachable n cr cm p"
| signed: "proposal_reachable n cr cm p \<Longrightarrow> add_signature cr a s cm p = Ok (b, p') \<Longrightarrow> proposal_reachable n cr cm p'"

definition proposal_inv :: "network \<Rightarrow> crypto \<Rightarrow> committee \<Rightarrow> 't proposal \<Rightarrow> bool" where
  "proposal_inv n cr cm p \<longleftrightarrow>
     valid_header n cr (p_header p) \<and> keys (p_transmissions p) = transmission_ids (p_header p) \<and>
     (\<forall>a\<in>set (proposal_signers cr p). is_committee_member cm a) \<and>
     distinct (map (to_address cr) (p_signatures p)) \<and>
     author (p_header p) \<notin> to_address cr ` set (p_signatures p) \<and>
     (\<forall>s\<in>set (p_signatures p). verify cr s (to_address cr s) [batch_id (p_header p)])"

lemma ids_match_eq: "ids_match as bs \<longleftrightarrow> as = bs"
  by (auto simp: ids_match_def list_eq_iff_zip_eq)

lemma header_signer: "valid_header n cr h \<Longrightarrow> to_address cr (header_signature h) = author h"
  by (auto simp: valid_header_def recheck_header_Ok_iff dest: verify_imp_to_address)

lemma proposal_signers_set:
  "valid_header n cr (p_header p) \<Longrightarrow>
     set (proposal_signers cr p) = insert (author (p_header p)) (to_address cr ` set (p_signatures p))"
  by (simp add: proposal_signers_def header_signer)

lemma proposal_new_inv:
  assumes "valid_header n cr h" "proposal_new cm h ts = Ok p"
  shows "proposal_inv n cr cm p"
  using assms header_signer[OF assms(1)]
  by (auto simp: proposal_inv_def proposal_new_def proposal_signers_def ids_match_eq result_simps)

lemma add_signature_cases:
  assumes "add_signature cr a s cm p = Ok (b, p')"
  obtains (old) "b = False" "p' = p" "a \<in> set (proposal_signers cr p)"
  | (new) "b = True" "p' = p\<lparr>p_signatures := iset_insert s (p_signatures p)\<rparr>" "is_committee_member cm a"
      "a \<notin> set (proposal_signers cr p)" "verify cr s a [batch_id (p_header p)]"
  using assms by (auto simp: add_signature_def split: if_splits)

lemma add_signature_inv:
  assumes "proposal_inv n cr cm p" "add_signature cr a s cm p = Ok (b, p')"
  shows "proposal_inv n cr cm p'"
  using assms(2)
proof (cases rule: add_signature_cases)
  case new
  have h: "valid_header n cr (p_header p)" using assms(1) by (simp add: proposal_inv_def)
  note sg = proposal_signers_set[OF h]
  have a: "a = to_address cr s" by (rule verify_imp_to_address[OF new(5)])
  have s: "to_address cr s \<notin> insert (author (p_header p)) (to_address cr ` set (p_signatures p))"
    using new(4) unfolding a sg .
  then have "s \<notin> set (p_signatures p)" by blast
  then have sigs: "p_signatures p' = p_signatures p @ [s]" "p_header p' = p_header p"
    "p_transmissions p' = p_transmissions p"
    by (simp_all add: new(2) iset_insert_key_def)
  then have "set (proposal_signers cr p') = insert (to_address cr s) (set (proposal_signers cr p))"
    using proposal_signers_set[of n cr p'] sg h by auto
  then show ?thesis using assms(1) s new(3,5) a by (simp add: proposal_inv_def sigs)
qed (use assms(1) in simp)

lemma proposal_reachable_inv: "proposal_reachable n cr cm p \<Longrightarrow> proposal_inv n cr cm p"
  by (induction rule: proposal_reachable.induct) (auto intro: proposal_new_inv add_signature_inv)

lemma member_iff: "is_committee_member cm a \<longleftrightarrow> a \<in> set (keys (members cm))"
  by (auto simp: is_committee_member_def map_of_eq_None_iff simp flip: not_None_eq)

lemma proposal_signature_count:
  assumes "proposal_inv n cr cm p" "wf_map (members cm)"
  shows "length (p_signatures p) < length (members cm)"
proof -
  have h: "valid_header n cr (p_header p)" and d: "distinct (map (to_address cr) (p_signatures p))"
    and a: "author (p_header p) \<notin> to_address cr ` set (p_signatures p)"
    using assms(1) by (simp_all add: proposal_inv_def)
  have "insert (author (p_header p)) (to_address cr ` set (p_signatures p)) \<subseteq> set (keys (members cm))"
    using assms(1) unfolding proposal_inv_def proposal_signers_set[OF h] member_iff by blast
  from card_mono[OF _ this]
  have "card (insert (author (p_header p)) (to_address cr ` set (p_signatures p))) \<le> length (members cm)"
    using assms(2) by (simp add: wf_map_def distinct_card[of "keys (members cm)", simplified])
  moreover have "card (to_address cr ` set (p_signatures p)) = length (p_signatures p)"
    using distinct_card[OF d] by simp
  ultimately show ?thesis using a by simp
qed

lemma to_certificate_eq:
  assumes "proposal_inv n cr cm p" "wf_map (members cm)" "length (members cm) \<le> max_committee_size n"
  shows "to_certificate n cr p cm = Ok (c, ts) \<longleftrightarrow>
    proposal_quorum cr p cm \<and> p_signatures p \<noteq> [] \<and>
    c = \<lparr>batch_header = p_header p, signatures = p_signatures p\<rparr> \<and> ts = p_transmissions p"
proof -
  have "length (p_signatures p) \<le> max_signatures n"
    using proposal_signature_count[OF assms(1,2)] assms(3) by (simp add: max_signatures_def max_committee_size_def)
  then have "batch_certificate_from n cr (p_header p) (p_signatures p) = Ok c \<longleftrightarrow>
      p_signatures p \<noteq> [] \<and> c = \<lparr>batch_header = p_header p, signatures = p_signatures p\<rparr>" for c
    using assms(1) unfolding batch_certificate_from_Ok_iff proposal_inv_def by auto
  then show ?thesis by (auto simp: to_certificate_def result_simps)
qed

lemma certificate_admitted:
  assumes "proposal_inv n cr cm p" "proposal_quorum cr p cm" "env_crypto e = cr"
    and "get_committee_lookback_for_round (env_ledger e) (round (p_header p)) = Ok cm"
  shows "check_incoming_certificate e \<lparr>batch_header = p_header p, signatures = p_signatures p\<rparr> = Ok ()"
proof -
  let ?c = "\<lparr>batch_header = p_header p, signatures = p_signatures p\<rparr>"
  have h: "valid_header n cr (p_header p)" using assms(1) by (simp add: proposal_inv_def)
  have s: "set (cert_signers cr ?c) = set (proposal_signers cr p)"
    using proposal_signers_set[OF h] by simp
  have "is_quorum_threshold_reached cm (cert_signers cr ?c)"
    using assms(2) quorum_perm[OF s] by (simp add: proposal_quorum_def proposal_signers_def)
  then show ?thesis
    using assms(1,3,4) s unfolding check_incoming_certificate_Ok_iff proposal_inv_def by simp
qed

section \<open>Encoding\<close>

definition valid_proposal :: "network \<Rightarrow> crypto \<Rightarrow> ('t \<Rightarrow> bool) \<Rightarrow> 't proposal \<Rightarrow> bool" where
  "valid_proposal n cr vt p \<longleftrightarrow> valid_header n cr (p_header p) \<and>
     keys (p_transmissions p) = transmission_ids (p_header p) \<and> (\<forall>t\<in>set (vals (p_transmissions p)). vt t) \<and>
     distinct (p_signatures p) \<and> length (p_signatures p) \<le> max_committee_size n \<and>
     (\<forall>s\<in>set (p_signatures p). valid_signature cr s)"

definition valid_signed_proposals :: "network \<Rightarrow> crypto \<Rightarrow> signed_proposals \<Rightarrow> bool" where
  "valid_signed_proposals n cr m \<longleftrightarrow> LATEST_MAX_CERTIFICATES n \<le> u16_max \<and> wf_map m \<and>
     length m \<le> LATEST_MAX_CERTIFICATES n * NUM_RECENT_BLOCKS \<and>
     (\<forall>(a, r, i, s)\<in>set m. valid_address cr a \<and> r \<le> u64_max \<and> i < field_modulus \<and> valid_signature cr s)"

definition valid_proposal_cache :: "network \<Rightarrow> crypto \<Rightarrow> ('t \<Rightarrow> bool) \<Rightarrow> 't proposal_cache \<Rightarrow> bool" where
  "valid_proposal_cache n cr vt pc \<longleftrightarrow> cached_round pc \<le> u64_max \<and>
     (\<forall>p. cached_proposal pc = Some p \<longrightarrow> valid_proposal n cr vt p) \<and>
     valid_signed_proposals n cr (cached_signed_proposals pc) \<and>
     length (pending_certificates pc) \<le> 2 ^ SUBDAG_CERTIFICATES_DEPTH \<and>
     distinct (map cert_id (pending_certificates pc)) \<and>
     (\<forall>c\<in>set (pending_certificates pc). valid_certificate n cr c)"

text \<open>An entry of the map of transmissions.\<close>

definition write_entry :: "'t writer \<Rightarrow> (transmission_id \<times> 't) writer" where
  "write_entry wt = (\<lambda>(i, t). write_seq [write_transmission_id i, wt t])"

definition read_entry :: "'t reader \<Rightarrow> (transmission_id \<times> 't) reader" where
  "read_entry rt = read_then read_transmission_id (\<lambda>i. read_then rt (\<lambda>t. read_lift (Ok (i, t))))"

lemma entry_codec:
  assumes "codec wt rt vt"
  shows "codec (write_entry wt) (read_entry rt) (\<lambda>(i, t). valid_transmission_id i \<and> vt t)"
proof
  fix x :: "transmission_id \<times> 'a"
  assume x: "case x of (i, t) \<Rightarrow> valid_transmission_id i \<and> vt t"
  obtain i t where p: "x = (i, t)" by (cases x)
  obtain b where b: "write_transmission_id i = Ok b" "\<forall>rest. read_transmission_id (b @ rest) = Ok (i, rest)"
    using transmission_id_bytes.read_write[of i] x p by auto
  obtain c where c: "wt t = Ok c" "\<forall>rest. rt (c @ rest) = Ok (t, rest)"
    using codec.read_write[OF assms, of t] x p by auto
  show "\<exists>bs. write_entry wt x = Ok bs \<and> (\<forall>rest. read_entry rt (bs @ rest) = Ok (x, rest))"
    using b c by (simp add: p write_entry_def read_entry_def)
qed

lemma write_seq_entries:
  "write_seq (concat (map (\<lambda>(i, t). [write_transmission_id i, wt t]) es)) = write_seq (map (write_entry wt) es)"
  by (induction es) (auto simp: write_entry_def write_seq_append)

lemma u16_bound: "(x :: nat) \<le> u16_max \<Longrightarrow> x * 100 < 256 ^ 4" "x \<le> u16_max \<Longrightarrow> x < 256 ^ 4"
  by (simp_all add: u16_max_def)

lemma proposal_round_trip_aux:
  assumes wt: "codec wt rt vt" and p: "valid_proposal n cr vt p"
  shows "\<exists>bs. write_proposal wt p = Ok bs \<and> (\<forall>rest. read_proposal n cr rt (bs @ rest) = Ok (p, rest))"
proof -
  note v = p[unfolded valid_proposal_def]
  have h: "valid_header n cr (p_header p)" using v by simp
  note hv = h[unfolded valid_header_def wf_header_values_def recheck_header_Ok_iff]
  obtain hb where hb: "write_batch_header (p_header p) = Ok hb"
    "\<forall>rest. read_batch_header n cr (hb @ rest) = Ok (p_header p, rest)"
    using batch_header_bytes.read_write[OF h] by blast
  have ev: "\<forall>e\<in>set (p_transmissions p). case e of (i, t) \<Rightarrow> valid_transmission_id i \<and> vt t"
  proof
    fix e assume "e \<in> set (p_transmissions p)"
    moreover from this have "fst e \<in> set (transmission_ids (p_header p))" using v by (metis imageI set_map)
    ultimately show "case e of (i, t) \<Rightarrow> valid_transmission_id i \<and> vt t"
      using v hv by (auto simp: case_prod_beta)
  qed
  obtain eb where eb: "write_seq (map (write_entry wt) (p_transmissions p)) = Ok eb"
    using codec.write_seq_total[OF entry_codec[OF wt] ev] by blast
  have er: "read_many (length (p_transmissions p)) (read_entry rt) (eb @ rest) = Ok (p_transmissions p, rest)" for rest
    by (rule codec.read_many_back[OF entry_codec[OF wt] ev eb])
  obtain sb where sb: "write_seq (map write_signature (p_signatures p)) = Ok sb"
    using signature_bytes.write_seq_total v by blast
  have sr: "read_many (length (p_signatures p)) (read_signature cr) (sb @ rest) = Ok (p_signatures p, rest)" for rest
    using signature_bytes.read_many_back[OF _ sb] v by blast
  have len: "length (p_transmissions p) = length (transmission_ids (p_header p))"
    using v by (metis length_map)
  have l1: "length (p_transmissions p) < 256 ^ 4" "length (p_transmissions p) \<le> MAX_TRANSMISSIONS_PER_BATCH"
    using hv len by (simp_all add: MAX_TRANSMISSIONS_PER_BATCH_def)
  have l2: "length (p_signatures p) < 256 ^ 4" "length (p_signatures p) \<le> max_committee_size n"
    using v hv u16_bound(2)[of "length (p_signatures p)"] by (auto simp: max_committee_size_def)
  have w: "write_proposal wt p = Ok (hb @ le_bytes 4 (length (p_transmissions p)) @ eb @
      le_bytes 4 (length (p_signatures p)) @ sb)"
    using hb(1) eb sb write_len_uint[OF l1(1)] write_len_uint[OF l2(1)]
    by (simp add: write_proposal_def write_seq_append write_seq_entries)
  have "wf_map (p_transmissions p)" using v hv by (simp add: wf_map_def)
  then have "read_proposal n cr rt ((hb @ le_bytes 4 (length (p_transmissions p)) @ eb @
      le_bytes 4 (length (p_signatures p)) @ sb) @ rest) = Ok (p, rest)" for rest
    using hb(2) er sr l1 l2 v
    by (simp add: read_proposal_def read_entry_def[symmetric] Let_def ids_match_eq)
  then show ?thesis using w by blast
qed

interpretation proposal_bytes:
  codec "write_proposal (write_transmission ws wx)" "read_proposal n cr read_transmission"
    "valid_proposal n cr valid_transmission"
  for n cr ws wx
  by unfold_locales (rule proposal_round_trip_aux[OF transmission_bytes.codec_axioms])

interpretation signed_proposal_bytes:
  codec write_signed_proposal "read_signed_proposal cr"
    "\<lambda>(a, r, i, s). valid_address cr a \<and> r \<le> u64_max \<and> i < field_modulus \<and> valid_signature cr s"
  for cr
proof unfold_locales
  fix x :: "address \<times> u64 \<times> field \<times> signature"
  assume x: "case x of (a, r, i, s) \<Rightarrow> valid_address cr a \<and> r \<le> u64_max \<and> i < field_modulus \<and> valid_signature cr s"
  obtain a r i s where p: "x = (a, r, i, s)" by (cases x)
  obtain ab where ab: "write_address a = Ok ab" "\<forall>rest. read_address cr (ab @ rest) = Ok (a, rest)"
    using address_bytes.read_write[of cr a] x p by auto
  obtain ib where ib: "write_field i = Ok ib" "\<forall>rest. read_field (ib @ rest) = Ok (i, rest)"
    using field_bytes.read_write[of i] x p by auto
  obtain sb where sb: "write_signature s = Ok sb" "\<forall>rest. read_signature cr (sb @ rest) = Ok (s, rest)"
    using signature_bytes.read_write[of cr s] x p by auto
  have "r < 256 ^ 8" using x p by (simp add: u64_max_def)
  then show "\<exists>bs. write_signed_proposal x = Ok bs \<and> (\<forall>rest. read_signed_proposal cr (bs @ rest) = Ok (x, rest))"
    using ab ib sb by (simp add: p write_signed_proposal_def read_signed_proposal_def write_uint_def)
qed

interpretation signed_proposals_bytes:
  codec write_signed_proposals "read_signed_proposals n cr" "valid_signed_proposals n cr" for n cr
proof unfold_locales
  fix m assume m: "valid_signed_proposals n cr m"
  note v = m[unfolded valid_signed_proposals_def]
  obtain b where b: "write_seq (map write_signed_proposal m) = Ok b"
    using signed_proposal_bytes.write_seq_total v by blast
  have r: "read_many (length m) (read_signed_proposal cr) (b @ rest) = Ok (m, rest)" for rest
    using signed_proposal_bytes.read_many_back[OF _ b] v by blast
  have "length m < 256 ^ 4"
    using v u16_bound(1)[of "LATEST_MAX_CERTIFICATES n"] by (auto simp: NUM_RECENT_BLOCKS_def)
  then show "\<exists>bs. write_signed_proposals m = Ok bs \<and> (\<forall>rest. read_signed_proposals n cr (bs @ rest) = Ok (m, rest))"
    using b r v write_len_uint[of "length m" 4]
    by (simp add: write_signed_proposals_def read_signed_proposals_def)
qed

lemma write_u64_Ok: "r \<le> u64_max \<Longrightarrow> write_u64 r = Ok (le_bytes 8 r) \<and> (\<forall>rest. read_u64 (le_bytes 8 r @ rest) = Ok (r, rest))"
  by (simp add: write_uint_def u64_max_def)

interpretation proposal_cache_bytes:
  codec "write_proposal_cache (write_transmission ws wx)" "read_proposal_cache n cr read_transmission"
    "valid_proposal_cache n cr valid_transmission"
  for n cr ws wx
proof unfold_locales
  fix pc :: "('a, 'b) transmission proposal_cache"
  assume pc: "valid_proposal_cache n cr valid_transmission pc"
  note v = pc[unfolded valid_proposal_cache_def]
  let ?wt = "write_transmission ws wx"
  obtain pb where pb: "write_seq (case cached_proposal pc of None \<Rightarrow> [] | Some p \<Rightarrow> [write_proposal ?wt p]) = Ok pb"
    "\<forall>rest. (if cached_proposal pc \<noteq> None
       then read_then (read_proposal n cr read_transmission) (\<lambda>p. read_lift (Ok (Some p)))
       else read_lift (Ok None)) (pb @ rest) = Ok (cached_proposal pc, rest)"
  proof (cases "cached_proposal pc")
    case (Some p)
    then have "valid_proposal n cr valid_transmission p" using v by simp
    from proposal_bytes.read_write[OF this, of ws wx] obtain b where
      "write_proposal ?wt p = Ok b" "\<forall>rest. read_proposal n cr read_transmission (b @ rest) = Ok (p, rest)" by blast
    then show thesis using that[of b] Some by simp
  qed (use that[of "[]"] in simp)
  obtain sb where sb: "write_signed_proposals (cached_signed_proposals pc) = Ok sb"
    "\<forall>rest. read_signed_proposals n cr (sb @ rest) = Ok (cached_signed_proposals pc, rest)"
    using signed_proposals_bytes.read_write[of n cr] v by blast
  obtain cb where cb: "write_seq (map write_batch_certificate (pending_certificates pc)) = Ok cb"
    using batch_certificate_bytes.write_seq_total[of _ n cr] v by blast
  have cr: "read_many (length (pending_certificates pc)) (read_batch_certificate n cr) (cb @ rest) =
      Ok (pending_certificates pc, rest)" for rest
    using batch_certificate_bytes.read_many_back[OF _ cb, of n cr] v by blast
  have l: "length (pending_certificates pc) < 256 ^ 4"
      "\<not> min u32_max (2 ^ SUBDAG_CERTIFICATES_DEPTH) < length (pending_certificates pc)"
    using v by (simp_all add: SUBDAG_CERTIFICATES_DEPTH_def u32_max_def)
  have bb: "write_bool b = Ok [if b then 1 else 0]" "read_bool ((if b then 1 else 0) # rest) = Ok (b, rest)" for b rest
    by (rule write_bool_eq, rule read_bool_Cons)
  have w: "write_proposal_cache ?wt pc = Ok (le_bytes 8 (cached_round pc) @
      [if cached_proposal pc \<noteq> None then 1 else 0] @ pb @ sb @ le_bytes 4 (length (pending_certificates pc)) @ cb)"
    using pb(1) sb(1) cb bb(1) write_len_uint[OF l(1)] write_u64_Ok[of "cached_round pc"] v
    by (simp add: write_proposal_cache_def write_seq_append del: write_uint_def)
  have "read_proposal_cache n cr read_transmission ((le_bytes 8 (cached_round pc) @
      [if cached_proposal pc \<noteq> None then 1 else 0] @ pb @ sb @ le_bytes 4 (length (pending_certificates pc)) @ cb) @ rest) =
      Ok (pc, rest)" for rest
    using pb(2) sb(2) cr l(1) write_u64_Ok[of "cached_round pc"] v bb(2)[of "cached_proposal pc \<noteq> None"]
    by (simp add: read_proposal_cache_def cset_of_list_distinct l(2) del: if_split)
  then show "\<exists>bs. write_proposal_cache ?wt pc = Ok bs \<and>
      (\<forall>rest. read_proposal_cache n cr read_transmission (bs @ rest) = Ok (pc, rest))"
    using w by blast
qed

text \<open>A proposal in memory holds objects and bytes; what is written is the same as with the bytes only.\<close>

definition sent_proposal :: "'s writer \<Rightarrow> 'x writer \<Rightarrow> ('s, 'x) transmission proposal \<Rightarrow> ('s, 'x) transmission proposal" where
  "sent_proposal ws wx p = p\<lparr>p_transmissions := map (map_prod id (buffered_form ws wx)) (p_transmissions p)\<rparr>"

definition sent_cache :: "'s writer \<Rightarrow> 'x writer \<Rightarrow> ('s, 'x) transmission proposal_cache \<Rightarrow> ('s, 'x) transmission proposal_cache" where
  "sent_cache ws wx pc = pc\<lparr>cached_proposal := map_option (sent_proposal ws wx) (cached_proposal pc)\<rparr>"

lemma sent_proposal_same:
  assumes "valid_proposal n cr (transmission_fits ws wx) p"
  shows "valid_proposal n cr valid_transmission (sent_proposal ws wx p)"
    "write_proposal (write_transmission ws wx) (sent_proposal ws wx p) = write_proposal (write_transmission ws wx) p"
proof -
  have f: "transmission_fits ws wx t" if "(i, t) \<in> set (p_transmissions p)" for i t
    using assms that by (force simp: valid_proposal_def)
  show "valid_proposal n cr valid_transmission (sent_proposal ws wx p)"
    using assms f buffered_form_fits(2) by (force simp: valid_proposal_def sent_proposal_def)
  have "map (\<lambda>(i, t). [write_transmission_id i, write_transmission ws wx t]) (map (map_prod id (buffered_form ws wx)) (p_transmissions p)) =
      map (\<lambda>(i, t). [write_transmission_id i, write_transmission ws wx t]) (p_transmissions p)"
    using buffered_form_fits(3)[OF f] by auto
  then show "write_proposal (write_transmission ws wx) (sent_proposal ws wx p) = write_proposal (write_transmission ws wx) p"
    by (simp add: write_proposal_def sent_proposal_def del: map_map map_eq_conv)
qed

lemma sent_cache_same:
  assumes "valid_proposal_cache n cr (transmission_fits ws wx) pc"
  shows "valid_proposal_cache n cr valid_transmission (sent_cache ws wx pc)"
    "write_proposal_cache (write_transmission ws wx) (sent_cache ws wx pc) = write_proposal_cache (write_transmission ws wx) pc"
    "proposal_cache_valid cr (sent_cache ws wx pc) signer = proposal_cache_valid cr pc signer"
  using assms sent_proposal_same[of n cr ws wx "the (cached_proposal pc)"]
  by (cases "cached_proposal pc"; simp add: valid_proposal_cache_def sent_cache_def write_proposal_cache_def
      proposal_cache_valid_def sent_proposal_def)+

section \<open>A concrete proposal\<close>

definition sample_proposal :: "nat list \<Rightarrow> nat proposal" where
  "sample_proposal js =
     \<lparr>p_header = sample_header 2 1 [Solution 1 2] [], p_transmissions = [(Solution 1 2, 50)],
      p_signatures = map (\<lambda>j. sample_signature j (batch_id (sample_header 2 1 [Solution 1 2] []))) js\<rparr>"

text \<open>A cache with a payload held as an object, a signature given to another validator and a pending certificate.\<close>

definition sample_cache :: "(byte, byte) transmission proposal_cache" where
  "sample_cache =
     \<lparr>cached_round = 1,
      cached_proposal = Some \<lparr>p_header = sample_header 2 1 [Solution 1 2] [],
        p_transmissions = [(Solution 1 2, SolutionData (Object 5))], p_signatures = [sample_signature 3 (batch_id (sample_header 2 1 [Solution 1 2] []))]\<rparr>,
      cached_signed_proposals = [(8, 1, 7, sample_signature 2 7)], pending_certificates = [sample_certificate 2 1 [] [] [3, 4]]\<rparr>"

lemma sample_proposal_header:
  "valid_header MainnetV0 sample_crypto (sample_header 2 1 [Solution 1 2] [])"
  "author (sample_header 2 1 [Solution 1 2] []) = 6" "round (sample_header 2 1 [Solution 1 2] []) = 1"
  "transmission_ids (sample_header 2 1 [Solution 1 2] []) = [Solution 1 2]"
  using sample_header_valid[of 2 "[Solution 1 2]" "[]" 1] by (simp_all add: u64_max_def u128_max_def)

lemma sample_proposal_signers:
  "\<forall>j\<in>set js. j < 1000 \<Longrightarrow> set (proposal_signers sample_crypto (sample_proposal js)) = insert 6 ((\<lambda>j. 2 * j + 2) ` set js)"
  using sample_proposal_header header_signer[OF sample_proposal_header(1)]
  by (auto simp: proposal_signers_def sample_proposal_def sample_signature_address image_iff)

lemma sample_proposal_reachable:
  "distinct js \<Longrightarrow> set js \<subseteq> {3, 4, 5} \<Longrightarrow> proposal_reachable MainnetV0 sample_crypto sample_committee (sample_proposal js)"
proof (induction js rule: rev_induct)
  case Nil
  have "proposal_new sample_committee (sample_header 2 1 [Solution 1 2] []) [(Solution 1 2, 50)] = Ok (sample_proposal [])"
    using sample_proposal_header sample_member[of 6]
    by (simp add: proposal_new_def ids_match_def sample_proposal_def sample_committee_fields)
  then show ?case by (rule proposal_reachable.created[OF sample_proposal_header(1)])
next
  case (snoc j js)
  let ?i = "batch_id (sample_header 2 1 [Solution 1 2] [])"
  have js: "\<forall>j\<in>set js. j < 1000" "j < 1000" "j \<in> {3, 4, 5}" "j \<notin> set js" using snoc.prems by auto
  have a: "2 * j + 2 \<notin> set (proposal_signers sample_crypto (sample_proposal js))"
    using js by (subst sample_proposal_signers[OF js(1)]) auto
  have m: "2 * j + 2 \<in> {6, 8, 10, 12}" using js(3) by auto
  have "sample_signature j ?i \<notin> (\<lambda>j. sample_signature j ?i) ` set js"
  proof
    assume "sample_signature j ?i \<in> (\<lambda>j. sample_signature j ?i) ` set js"
    then obtain k where k: "k \<in> set js" "sample_signature j ?i = sample_signature k ?i" by blast
    have "k < 1000" using js(1) k(1) by blast
    with arg_cong[OF k(2), of "to_address sample_crypto"] have "2 * j + 2 = 2 * k + 2"
      by (simp only: sample_signature_address js(2))
    then show False using k(1) js(4) by simp
  qed
  then have "add_signature sample_crypto (2 * j + 2) (sample_signature j ?i) sample_committee (sample_proposal js) =
      Ok (True, sample_proposal (js @ [j]))"
    unfolding add_signature_def using a sample_member[OF m] sample_signature_verifies[OF js(2), of ?i]
    by (simp add: sample_proposal_def iset_insert_key_def)
  then show ?case using snoc by (auto intro: proposal_reachable.signed)
qed

section \<open>Properties\<close>

text \<open>A proposal becomes a certificate that others admit.  For a proposal with a valid header and any
  sequence of added signatures, \<open>to_certificate\<close> succeeds exactly when the signers form a quorum and someone
  besides the author has signed; the certificate has the proposal's header, signatures and transmissions, and
  it passes \<open>check_incoming_certificate\<close> of every validator that uses the same committee for the round.\<close>

theorem proposal_certifies:
  assumes "proposal_reachable n cr cm p" "wf_map (members cm)" "length (members cm) \<le> max_committee_size n"
  shows "(is_ok (to_certificate n cr p cm) \<longleftrightarrow> proposal_quorum cr p cm \<and> p_signatures p \<noteq> []) \<and>
    (\<forall>c ts. to_certificate n cr p cm = Ok (c, ts) \<longrightarrow>
       batch_header c = p_header p \<and> signatures c = p_signatures p \<and> keys ts = cert_transmission_ids c \<and>
       (\<forall>e. env_crypto e = cr \<longrightarrow> get_committee_lookback_for_round (env_ledger e) (cert_round c) = Ok cm \<longrightarrow>
          check_incoming_certificate e c = Ok ()))"
proof -
  note inv = proposal_reachable_inv[OF assms(1)]
  note eq = to_certificate_eq[OF inv assms(2,3)]
  have "is_ok (to_certificate n cr p cm) \<longleftrightarrow> proposal_quorum cr p cm \<and> p_signatures p \<noteq> []"
    unfolding is_ok_iff by (metis eq surj_pair)
  moreover have "keys (p_transmissions p) = transmission_ids (p_header p)"
    using inv by (simp add: proposal_inv_def)
  moreover note certificate_admitted[OF inv]
  ultimately show ?thesis by (auto simp: eq)
qed

theorem proposal_certifies_witness:
  "is_ok (to_certificate MainnetV0 sample_crypto (sample_proposal [3, 4]) sample_committee)"
proof -
  have r: "proposal_reachable MainnetV0 sample_crypto sample_committee (sample_proposal [3, 4])"
    by (rule sample_proposal_reachable) simp_all
  have s: "set (proposal_signers sample_crypto (sample_proposal [3, 4])) = set [6, 8, 10]"
    using sample_proposal_signers[of "[3, 4]"] by simp
  have "is_quorum_threshold_reached sample_committee [6, 8, 10]"
    by (simp add: is_quorum_threshold_reached_def combined_stake_sum sample_committee_eval u64_max_def)
  then have "proposal_quorum sample_crypto (sample_proposal [3, 4]) sample_committee"
    using quorum_perm[OF s] by (simp add: proposal_quorum_def proposal_signers_def)
  moreover have "wf_map (members sample_committee)" "length (members sample_committee) \<le> max_committee_size MainnetV0"
    using sample_committee_wf
    by (simp_all add: sample_committee_fields sample_members_def max_committee_size_def mainnet_max_certificates)
  moreover have "p_signatures (sample_proposal [3, 4]) \<noteq> []" by (simp add: sample_proposal_def)
  ultimately show ?thesis using proposal_certifies[OF r] by blast
qed

text \<open>C35. A validator restarts where it stopped.  A cache of valid parts, whose proposal may hold its payloads as objects
  or as bytes, can be stored; the stored file is refused for another validator, and for its own it loads to a cache with the same
  round, signed proposals and pending certificates and with a proposal of the same header and signatures, whose
  transmissions come under the same IDs in the same order, each as the bytes of its payload, so with the same checksum and
  read to the same object.  A payload that was held as bytes is the same.\<close>

theorem proposal_cache_restored:
  assumes "valid_proposal_cache n cr (transmission_fits ws wx) pc"
    and "\<forall>x bs. ws x = Ok bs \<longrightarrow> rs bs = Ok (x, [])" "\<forall>x bs. wx x = Ok bs \<longrightarrow> rx bs = Ok (x, [])"
  shows "\<exists>file pc'. proposal_cache_store (write_transmission ws wx) pc = Ok file \<and>
    proposal_cache_load n cr read_transmission signer file =
      (if proposal_cache_valid cr pc signer then Ok pc' else bail ''The proposal cache is invalid'') \<and>
    cached_round pc' = cached_round pc \<and> cached_signed_proposals pc' = cached_signed_proposals pc \<and>
    pending_certificates pc' = pending_certificates pc \<and>
    rel_option (\<lambda>p p'. p_header p' = p_header p \<and> p_signatures p' = p_signatures p \<and>
      list_all2 (\<lambda>(i, t) (i', t'). i' = i \<and> buffered_transmission ws wx t = Ok t' \<and>
        (\<forall>sha3. to_checksum sha3 ws wx t' = to_checksum sha3 ws wx t) \<and> same_payload rs rx t t')
        (p_transmissions p) (p_transmissions p')) (cached_proposal pc) (cached_proposal pc')"
proof -
  let ?pc = "sent_cache ws wx pc" and ?wt = "write_transmission ws wx"
  note same = sent_cache_same[OF assms(1)]
  obtain bs where bs: "write_proposal_cache ?wt pc = Ok bs"
    "\<forall>rest. read_proposal_cache n cr read_transmission (bs @ rest) = Ok (?pc, rest)"
    using proposal_cache_bytes.read_write[OF same(1), of ws wx] same(2) by auto
  have "proposal_cache_store ?wt pc = Ok (Some bs)" using bs(1) by (simp add: proposal_cache_store_def)
  moreover have "proposal_cache_load n cr read_transmission signer (Some bs) =
      (if proposal_cache_valid cr pc signer then Ok ?pc else bail ''The proposal cache is invalid'')"
    using spec[OF bs(2), of "[]"] same(3) by (simp add: proposal_cache_load_def)
  moreover have "list_all2 (\<lambda>(i, t) (i', t'). i' = i \<and> buffered_transmission ws wx t = Ok t' \<and>
        (\<forall>sha3. to_checksum sha3 ws wx t' = to_checksum sha3 ws wx t) \<and> same_payload rs rx t t')
      (p_transmissions p) (p_transmissions (sent_proposal ws wx p))" if p: "cached_proposal pc = Some p" for p
  proof -
    have f: "buffered_transmission ws wx t = Ok (buffered_form ws wx t)" if "(i, t) \<in> set (p_transmissions p)" for i t
      using assms(1) p that buffered_form_fits(1) by (force simp: valid_proposal_cache_def valid_proposal_def)
    show ?thesis
      using f buffered_same(1)[OF f] buffered_same(2)[OF f assms(2,3)]
      by (auto simp: sent_proposal_def list.rel_map intro!: list.rel_refl_strong)
  qed
  ultimately show ?thesis
    by (intro exI[of _ "Some bs"] exI[of _ ?pc]) (cases "cached_proposal pc"; simp add: sent_cache_def sent_proposal_def)
qed

theorem proposal_cache_restored_witness:
  "\<exists>file pc' p'. proposal_cache_store (write_transmission (\<lambda>x. Ok [x]) (\<lambda>x. Ok [x])) sample_cache = Ok file \<and>
     proposal_cache_load MainnetV0 sample_crypto (read_transmission :: (byte, byte) transmission reader) 6 file = Ok pc' \<and>
     pending_certificates pc' = [sample_certificate 2 1 [] [] [3, 4]] \<and> cached_proposal pc' = Some p' \<and>
     p_header p' = sample_header 2 1 [Solution 1 2] [] \<and> p_transmissions p' = [(Solution 1 2, SolutionData (Buffer [5]))]"
proof -
  let ?ws = "\<lambda>x :: byte. Ok [x] :: byte list result"
  let ?rs = "\<lambda>bs :: byte list. Ok (hd bs, tl bs) :: (byte \<times> byte list) result"
  have r: "\<forall>x bs. ?ws x = Ok bs \<longrightarrow> ?rs bs = Ok (x, [])" by auto
  have c: "valid_certificate MainnetV0 sample_crypto (sample_certificate 2 1 [] [] [3, 4])"
    by (rule sample_certificate_valid) (simp_all add: u64_max_def)
  have g: "valid_signature sample_crypto (sample_signature j i)" for j i
    by (rule sign_valid(1)[OF sample_ranges sample_signature_Ok])
  have d: "valid_address sample_crypto 8"
    by (simp add: valid_address_def field_modulus_def sample_crypto_def)
  have v: "valid_proposal_cache MainnetV0 sample_crypto (transmission_fits ?ws ?ws) sample_cache"
    using c d g sample_proposal_header
    by (simp add: valid_proposal_cache_def sample_cache_def valid_proposal_def valid_signed_proposals_def transmission_fits_def
        fits_def serialize_blocking_into_def MAX_DATA_SIZE_def mainnet_max_certificates u16_max_def u64_max_def wf_map_def field_modulus_def NUM_RECENT_BLOCKS_def
        max_committee_size_def SUBDAG_CERTIFICATES_DEPTH_def)
  have "proposal_cache_valid sample_crypto sample_cache 6"
    using sample_proposal_header sample_signature_address[of 2 7]
    by (simp add: proposal_cache_valid_def sample_cache_def signed_proposals_valid_def)
  with proposal_cache_restored[OF v r r, of 6] show ?thesis
    by (clarsimp simp: sample_cache_def option_rel_Some1 list_all2_Cons1 buffered_transmission_def buffered_def
        serialize_blocking_into_def)
qed

end
