(* ===== verification/Worker.thy ===== *)
theory Worker
  imports Ready Pending Proposal
begin

text \<open>
  The workers of a validator, after \<open>node/bft/src/worker.rs\<close>, with the assignment of transmissions to
  workers (\<open>node/bft/src/helpers/partition.rs\<close>) and the checks that the ledger service makes on a single
  transmission (\<open>node/bft/ledger-service/src/ledger.rs\<close>).  A worker owns a ready queue and the requests it
  waits for; storage, ledger and the proposed batch are shared with the primary and only read here.  The
  virtual machine is a record of functions.
\<close>

section \<open>Checks on a transmission\<close>

datatype transaction_kind = Deploy | Execute | Fee

text \<open>What the node asks of solutions, transactions, the puzzle and the virtual machine.\<close>

record ('s, 'x) vm =
  hash_sha3_256 :: "bool list \<Rightarrow> bool list result"
  write_solution :: "'s writer"
  read_solution :: "'s reader"
  solution_id_of :: "'s \<Rightarrow> u64"
  solution_address :: "'s \<Rightarrow> address"
  is_solution_limit_reached :: "address \<Rightarrow> u64 \<Rightarrow> bool"
  latest_epoch_hash :: "field result"
  latest_proof_target :: u64
  check_solution :: "'s \<Rightarrow> field \<Rightarrow> u64 \<Rightarrow> unit result"
  write_transaction :: "'x writer"
  read_transaction :: "'x reader"
  transaction_id_of :: "'x \<Rightarrow> field"
  transaction_kind_of :: "'x \<Rightarrow> transaction_kind"
  check_transaction :: "'x \<Rightarrow> unit result"
  compute_cost :: "'x \<Rightarrow> consensus_version \<Rightarrow> u64 result"
  latest_block_height :: u32

definition MAX_TRANSACTION_SIZE :: "(consensus_version \<times> usize) list" where
  "MAX_TRANSACTION_SIZE = [(V1, 128000), (V14, 768000)]"

definition LATEST_MAX_TRANSACTION_SIZE :: usize where
  "LATEST_MAX_TRANSACTION_SIZE = snd (last MAX_TRANSACTION_SIZE)"

definition deserialize_transaction :: "('s, 'x) vm \<Rightarrow> 'x data \<Rightarrow> 'x result" where
  "deserialize_transaction v d =
     (case d of
        Object x \<Rightarrow> Ok x
      | Buffer bytes \<Rightarrow> try_bind (read_transaction v (take LATEST_MAX_TRANSACTION_SIZE bytes)) (\<lambda>(x, _). Ok x))"

text \<open>The check replaces the payload by the object it was read as.\<close>

definition ensure_transmission_is_well_formed ::
    "('s, 'x) vm \<Rightarrow> transmission_id \<Rightarrow> ('s, 'x) transmission \<Rightarrow> ('s, 'x) transmission result" where
  "ensure_transmission_is_well_formed v tid t =
     (case (tid, t) of
        (Ratification, RatificationData) \<Rightarrow> bail ''Ratification transmissions are currently not supported.''
      | (Transaction i c, TransactionData d) \<Rightarrow>
          try_bind (deserialize_transaction v d) (\<lambda>x.
          ensure (transaction_id_of v x = i) ''Received mismatching transaction ID''
          (try_bind (data_to_checksum (hash_sha3_256 v) (write_transaction v) d) (\<lambda>cs.
          ensure (cs = c) ''Received mismatching checksum for transaction''
          (ensure (transaction_kind_of v x \<noteq> Fee) ''Received a fee transaction in a transmission''
          (Ok (TransactionData (Object x)))))))
      | (Solution i c, SolutionData d) \<Rightarrow>
          (case deserialize_blocking (read_solution v) d of
             Inl _ \<Rightarrow> bail ''Failed to deserialize solution''
           | Inr s \<Rightarrow>
               ensure (solution_id_of v s = i) ''Received mismatching solution ID''
               (try_bind (data_to_checksum (hash_sha3_256 v) (write_solution v) d) (\<lambda>cs.
               ensure (cs = c) ''Received mismatching checksum for solution''
               (Ok (SolutionData (Object s))))))
      | _ \<Rightarrow> bail ''Mismatching (transmission_id, transmission) pair'')"

definition check_solution_basic :: "('s, 'x) vm \<Rightarrow> u64 \<Rightarrow> 's data \<Rightarrow> unit result" where
  "check_solution_basic v i d =
     try_bind (deserialize_blocking (read_solution v) d) (\<lambda>s.
     ensure (i = solution_id_of v s) ''Invalid solution''
     (ensure (\<not> is_solution_limit_reached v (solution_address v s) 0)
       ''Prover has reached their solution limit for the current epoch''
     (try_bind (latest_epoch_hash v) (\<lambda>epoch_hash.
      case check_solution v s epoch_hash (latest_proof_target v) of
        Inr _ \<Rightarrow> Ok ()
      | Inl _ \<Rightarrow> bail ''Invalid solution for the current epoch''))))"

definition check_transaction_basic :: "('s, 'x) vm \<Rightarrow> field \<Rightarrow> 'x \<Rightarrow> unit result" where
  "check_transaction_basic v i x =
     ensure (i = transaction_id_of v x) ''Invalid transaction''
     (ensure (transaction_kind_of v x \<noteq> Fee) ''Transaction::fee type is not valid at this stage''
     (check_transaction v x))"

definition transaction_spend_in_microcredits ::
    "network \<Rightarrow> ('s, 'x) vm \<Rightarrow> 'x \<Rightarrow> consensus_version \<Rightarrow> u64 result" where
  "transaction_spend_in_microcredits n v x version =
     (case consensus_config_value_by_version (TRANSACTION_SPEND_LIMIT n) version of
        None \<Rightarrow> Err (Panic ''called `Option::unwrap()` on a `None` value'')
      | Some limit \<Rightarrow>
          (case transaction_kind_of v x of
             Deploy \<Rightarrow>
               try_bind (compute_cost v x version) (\<lambda>compute_spend.
               ensure (compute_spend \<le> limit) ''Transaction exceeds the transaction spend limit'' (Ok compute_spend))
           | Execute \<Rightarrow>
               try_bind (compute_cost v x version) (\<lambda>compute_spend.
               if version \<ge> V11
               then ensure (compute_spend \<le> limit) ''Transaction exceeds the transaction spend limit'' (Ok compute_spend)
               else Ok compute_spend)
           | Fee \<Rightarrow> bail ''Fee transactions are internal to the VM''))"

section \<open>Workers\<close>

definition MAX_WORKERS :: u8 where
  "MAX_WORKERS = 1"

definition MAX_TRANSMISSIONS_PER_WORKER :: usize where
  "MAX_TRANSMISSIONS_PER_WORKER = MAX_TRANSMISSIONS_PER_BATCH div MAX_WORKERS"

record ('s, 'x, 'p, 'c) worker =
  worker_id :: u8
  w_ready :: "('s, 'x) ready"
  w_pending :: "(transmission_id, 'p, 'c) pending"

text \<open>The shared state a worker reads.\<close>

record ('a, 's, 'x, 'u) shared =
  shared_env :: "('a, ('s, 'x) transmission, 'u) storage_env"
  shared_storage :: "('a, 'u) storage"
  shared_proposal :: "('s, 'x) transmission proposal option"

definition worker_new :: "u8 \<Rightarrow> ('s, 'x, 'p, 'c) worker result" where
  "worker_new i = ensure (i < MAX_WORKERS) ''Invalid worker ID''
     (Ok \<lparr>worker_id = i, w_ready = ready_new, w_pending = []\<rparr>)"

definition storage_contains_transmission :: "('a, 's, 'x, 'u) shared \<Rightarrow> transmission_id \<Rightarrow> bool" where
  "storage_contains_transmission sh i =
     contains_transmission (env_service (shared_env sh)) (transmissions (shared_storage sh)) i"

definition worker_contains_transmission ::
    "('a, 's, 'x, 'u) shared \<Rightarrow> ('s, 'x, 'p, 'c) worker \<Rightarrow> transmission_id \<Rightarrow> bool" where
  "worker_contains_transmission sh w i \<longleftrightarrow>
     ready_contains (w_ready w) i \<or>
     (case shared_proposal sh of None \<Rightarrow> False | Some p \<Rightarrow> proposal_contains_transmission p i) \<or>
     storage_contains_transmission sh i \<or>
     unwrap_or False (ledger_contains_transmission (env_ledger (shared_env sh)) i)"

definition worker_get_transmission ::
    "('a, 's, 'x, 'u) shared \<Rightarrow> ('s, 'x, 'p, 'c) worker \<Rightarrow> transmission_id \<Rightarrow> ('s, 'x) transmission option" where
  "worker_get_transmission sh w i =
     (case ready_get (w_ready w) i of
        Some t \<Rightarrow> Some t
      | None \<Rightarrow>
          (case get_transmission (env_service (shared_env sh)) (transmissions (shared_storage sh)) i of
             Some t \<Rightarrow> Some t
           | None \<Rightarrow>
               (case shared_proposal sh of None \<Rightarrow> None | Some p \<Rightarrow> proposal_get_transmission p i)))"

definition worker_insert_front ::
    "transmission_id \<Rightarrow> ('s, 'x) transmission \<Rightarrow> ('s, 'x, 'p, 'c) worker \<Rightarrow> ('s, 'x, 'p, 'c) worker" where
  "worker_insert_front i t w = w\<lparr>w_ready := snd (ready_insert_front i t (w_ready w))\<rparr>"

definition worker_remove_front ::
    "('s, 'x, 'p, 'c) worker \<Rightarrow> (transmission_id \<times> ('s, 'x) transmission) option \<times> ('s, 'x, 'p, 'c) worker" where
  "worker_remove_front w =
     (let (x, q) = ready_remove_front (w_ready w) in (x, w\<lparr>w_ready := q\<rparr>))"

definition reinsert ::
    "('a, 's, 'x, 'u) shared \<Rightarrow> transmission_id \<Rightarrow> ('s, 'x) transmission \<Rightarrow> ('s, 'x, 'p, 'c) worker
      \<Rightarrow> bool \<times> ('s, 'x, 'p, 'c) worker" where
  "reinsert sh i t w =
     (if \<not> worker_contains_transmission sh w i
      then let (b, q) = ready_insert i t (w_ready w) in (b, w\<lparr>w_ready := q\<rparr>)
      else (False, w))"

definition worker_clear_solutions :: "('s, 'x, 'p, 'c) worker \<Rightarrow> ('s, 'x, 'p, 'c) worker" where
  "worker_clear_solutions w = w\<lparr>w_ready := clear_solutions (w_ready w)\<rparr>"

text \<open>Whether an ID from a worker ping is worth a request.\<close>

definition process_transmission_id_from_ping ::
    "('a, 's, 'x, 'u) shared \<Rightarrow> ('s, 'x, 'p, 'c) worker \<Rightarrow> transmission_id \<Rightarrow> bool" where
  "process_transmission_id_from_ping sh w i \<longleftrightarrow>
     \<not> worker_contains_transmission sh w i \<and> \<not> num_transmissions (w_ready w) > MAX_TRANSMISSIONS_PER_WORKER"

definition kinds_match :: "transmission_id \<Rightarrow> ('s, 'x) transmission \<Rightarrow> bool" where
  "kinds_match i t =
     (case (i, t) of
        (Solution _ _, SolutionData _) \<Rightarrow> True
      | (Transaction _ _, TransactionData _) \<Rightarrow> True
      | (Ratification, RatificationData) \<Rightarrow> False
      | _ \<Rightarrow> False)"

definition process_transmission_from_peer ::
    "('a, 's, 'x, 'u) shared \<Rightarrow> transmission_id \<Rightarrow> ('s, 'x) transmission \<Rightarrow> ('s, 'x, 'p, 'c) worker
      \<Rightarrow> ('s, 'x, 'p, 'c) worker" where
  "process_transmission_from_peer sh i t w =
     (if worker_contains_transmission sh w i then w
      else if kinds_match i t then w\<lparr>w_ready := snd (ready_insert i t (w_ready w))\<rparr>
      else w)"

text \<open>Unconfirmed transmissions from clients: the answer, the callbacks that are notified, and the worker.
  Waiting requests are answered before the transmission is checked.\<close>

definition process_unconfirmed_solution ::
    "('s, 'x) vm \<Rightarrow> ('a, 's, 'x, 'u) shared \<Rightarrow> u64 \<Rightarrow> 's data \<Rightarrow> ('s, 'x, 'p, 'c) worker
      \<Rightarrow> bool result \<times> ('c \<times> ('s, 'x) transmission) list \<times> ('s, 'x, 'p, 'c) worker" where
  "process_unconfirmed_solution v sh i d w =
     (case data_to_checksum (hash_sha3_256 v) (write_solution v) d of
        Inl err \<Rightarrow> (Inl err, [], w)
      | Inr cs \<Rightarrow>
          let tid = Solution i cs;
              ((_, notified), m) = pending_remove tid (Some (SolutionData d)) (w_pending w);
              w = w\<lparr>w_pending := m\<rparr>
          in if worker_contains_transmission sh w tid then (Ok False, notified, w)
             else case check_solution_basic v i d of
                    Inl err \<Rightarrow> (Inl err, notified, w)
                  | Inr _ \<Rightarrow> (Ok True, notified, w\<lparr>w_ready := snd (ready_insert tid (SolutionData d) (w_ready w))\<rparr>))"

definition process_unconfirmed_transaction ::
    "('s, 'x) vm \<Rightarrow> ('a, 's, 'x, 'u) shared \<Rightarrow> field \<Rightarrow> 'x data \<Rightarrow> ('s, 'x, 'p, 'c) worker
      \<Rightarrow> bool result \<times> ('c \<times> ('s, 'x) transmission) list \<times> ('s, 'x, 'p, 'c) worker" where
  "process_unconfirmed_transaction v sh i d w =
     (case data_to_checksum (hash_sha3_256 v) (write_transaction v) d of
        Inl err \<Rightarrow> (Inl err, [], w)
      | Inr cs \<Rightarrow>
          let tid = Transaction i cs;
              ((_, notified), m) = pending_remove tid (Some (TransactionData d)) (w_pending w);
              w = w\<lparr>w_pending := m\<rparr>
          in if worker_contains_transmission sh w tid then (Ok False, notified, w)
             else case try_bind (deserialize_transaction v d) (check_transaction_basic v i) of
                    Inl err \<Rightarrow> (Inl err, notified, w)
                  | Inr _ \<Rightarrow> (Ok True, notified, w\<lparr>w_ready := snd (ready_insert tid (TransactionData d) (w_ready w))\<rparr>))"

definition finish_transmission_request ::
    "('s, 'x) vm \<Rightarrow> 'p \<Rightarrow> transmission_id \<Rightarrow> ('s, 'x) transmission \<Rightarrow> ('s, 'x, 'p, 'c) worker
      \<Rightarrow> ('c \<times> ('s, 'x) transmission) list \<times> ('s, 'x, 'p, 'c) worker" where
  "finish_transmission_request v peer_ip i t w =
     (if (case get_peers (w_pending w) i of None \<Rightarrow> False | Some peers \<Rightarrow> peer_ip \<in> set peers)
      then case ensure_transmission_is_well_formed v i t of
             Inl _ \<Rightarrow> ([], w)
           | Inr t \<Rightarrow>
               let ((_, notified), m) = pending_remove i (Some t) (w_pending w)
               in (notified, w\<lparr>w_pending := m\<rparr>)
      else ([], w))"

section \<open>Assignment to workers\<close>

definition sha256d_to_u128 :: "(byte list \<Rightarrow> byte list) \<Rightarrow> byte list \<Rightarrow> u128" where
  "sha256d_to_u128 sha256 bytes = le_value (take 16 (sha256 (sha256 bytes)))"

definition assign_to_worker :: "(byte list \<Rightarrow> byte list) \<Rightarrow> transmission_id \<Rightarrow> u8 \<Rightarrow> u8 result" where
  "assign_to_worker sha256 i num_workers =
     (if num_workers = 1 then Ok 0
      else try_bind (write_transmission_id i) (\<lambda>bytes.
        if num_workers = 0 then Err (Panic ''attempt to calculate the remainder with a divisor of zero'')
        else Ok (sha256d_to_u128 sha256 bytes mod num_workers mod 256)))"

text \<open>The transmissions handed to an operation on their workers; an error leaves the earlier ones done.\<close>

fun assign_each ::
    "(byte list \<Rightarrow> byte list) \<Rightarrow> u8 \<Rightarrow> (transmission_id \<Rightarrow> 't \<Rightarrow> 'w \<Rightarrow> 'w) \<Rightarrow> (transmission_id \<times> 't) list
      \<Rightarrow> 'w list \<Rightarrow> unit result \<times> 'w list" where
  "assign_each sha256 n operation [] ws = (Ok (), ws)"
| "assign_each sha256 n operation ((i, t) # ts) ws =
     (case assign_to_worker sha256 i n of
        Inl _ \<Rightarrow> (bail ''Unable to assign transmission ID to a worker'', ws)
      | Inr k \<Rightarrow>
          if k < length ws then assign_each sha256 n operation ts (ws[k := operation i t (ws ! k)])
          else (bail ''Unable to find worker'', ws))"

definition assign_to_workers ::
    "(byte list \<Rightarrow> byte list) \<Rightarrow> (transmission_id \<Rightarrow> 't \<Rightarrow> 'w \<Rightarrow> 'w) \<Rightarrow> (transmission_id \<times> 't) list
      \<Rightarrow> 'w list \<Rightarrow> unit result \<times> 'w list" where
  "assign_to_workers sha256 operation ts ws =
     (if length ws > 255 then (Err (Panic ''Too many workers''), ws)
      else assign_each sha256 (length ws) operation ts ws)"

section \<open>What a queue holds\<close>

text \<open>A worker in order: its queue is well-formed with room for \<open>n\<close> more indices, every queued transmission has
  the kind its ID says, ratifications excluded, and its table of requests is well-formed.\<close>

definition worker_inv :: "nat \<Rightarrow> ('s, 'x, 'p, 'c) worker \<Rightarrow> bool" where
  "worker_inv n w \<longleftrightarrow> ready_inv (w_ready w) \<and> ready_room n (w_ready w) \<and>
     (\<forall>(i, t)\<in>set (ready_queue (w_ready w)). kinds_match i t) \<and> pending_inv (w_pending w)"

lemma worker_inv_insert:
  assumes "worker_inv (Suc n) w" "kinds_match i t"
  shows "worker_inv n (w\<lparr>w_ready := snd (ready_insert i t (w_ready w))\<rparr>)"
proof -
  obtain b q where q: "ready_insert i t (w_ready w) = (b, q)" by fastforce
  from assms show ?thesis
    using ready_insert_correct[OF _ _ q, of n] q by (auto simp: worker_inv_def split: if_splits)
qed

lemma worker_inv_insert_front:
  assumes "worker_inv (Suc n) w" "kinds_match i t"
  shows "worker_inv n (worker_insert_front i t w)"
proof -
  obtain b q where q: "ready_insert_front i t (w_ready w) = (b, q)" by fastforce
  from assms show ?thesis
    using ready_insert_front_correct[OF _ _ q, of n] q
    by (auto simp: worker_inv_def worker_insert_front_def split: if_splits)
qed

lemma worker_inv_mono: "worker_inv n w \<Longrightarrow> m \<le> n \<Longrightarrow> worker_inv m w"
  by (auto simp: worker_inv_def ready_room_def)

lemma worker_remove_front_cases:
  assumes "worker_inv n w" "worker_remove_front w = (r, w')"
  shows "worker_inv n w'" "w_pending w' = w_pending w" "worker_id w' = worker_id w"
    "case ready_queue (w_ready w) of
       [] \<Rightarrow> r = None \<and> w' = w
     | (i, t) # rest \<Rightarrow> r = Some (i, t) \<and> kinds_match i t \<and> ready_queue (w_ready w') = rest"
proof -
  obtain q where q: "ready_remove_front (w_ready w) = (r, q)" "w' = w\<lparr>w_ready := q\<rparr>"
    using assms(2) by (auto simp: worker_remove_front_def split: prod.splits)
  have inv: "ready_inv (w_ready w)" using assms(1) by (simp add: worker_inv_def)
  note c = ready_remove_front_correct[OF inv q(1)]
  show "worker_inv n w'" "case ready_queue (w_ready w) of
       [] \<Rightarrow> r = None \<and> w' = w
     | (i, t) # rest \<Rightarrow> r = Some (i, t) \<and> kinds_match i t \<and> ready_queue (w_ready w') = rest"
    using assms(1) c[of n] q(2) by (auto simp: worker_inv_def split: list.splits)
qed (use assms in \<open>auto simp: worker_remove_front_def split: prod.splits\<close>)

lemma worker_inv_pending: "worker_inv n w \<Longrightarrow> pending_inv m \<Longrightarrow> worker_inv n (w\<lparr>w_pending := m\<rparr>)"
  by (simp add: worker_inv_def)

lemma pending_remove_inv:
  assumes "pending_inv m" "pending_remove i v m = (r, m')"
  shows "pending_inv m'"
  using assms by (auto simp: pending_remove_def pending_inv_delete split: option.splits)

lemma clear_all_inv:
  assumes "pending_inv m"
  shows "pending_inv (clear_expired_callbacks now m)"
proof -
  let ?m = "map (\<lambda>(item, peer_map). (item, clear_expired_peers now peer_map)) m"
  have "keys ?m = keys m" by (simp add: comp_def case_prod_unfold)
  then have wf: "wf_map ?m" using assms by (simp only: pending_inv_def wf_map_def)
  then have "wf_map (clear_expired_callbacks now m)" by (simp only: clear_expired_callbacks_def wf_map_retain)
  moreover have "wf_map peers" if "map_of (clear_expired_callbacks now m) item = Some peers" for item peers
  proof -
    have "map_of ?m item = Some peers"
      using that map_of_retain[OF wf, of "\<lambda>_ peer_map. peer_map \<noteq> []" item]
      by (auto simp: clear_expired_callbacks_def split: option.splits if_splits)
    then show ?thesis
      using assms clear_expired_peers_wf by (auto simp: map_of_map pending_inv_def)
  qed
  ultimately show ?thesis by (simp add: pending_inv_def)
qed

text \<open>The life of a worker: what clients, peers and the primary do with it, and how many transmissions entered
  its queue.  Transmissions that the primary puts back come from the queue.\<close>

inductive worker_reachable ::
    "('s, 'x) vm \<Rightarrow> ('a, ('s, 'x) transmission, 'u) storage_env \<Rightarrow> nat \<Rightarrow> ('s, 'x, 'p, 'c) worker \<Rightarrow> bool" for v e where
  started: "worker_new i = Ok w \<Longrightarrow> worker_reachable v e 0 w"
| from_peer: "worker_reachable v e n w \<Longrightarrow> shared_env sh = e\<lparr>env_ledger := l\<rparr> \<Longrightarrow>
    worker_reachable v e (Suc n) (process_transmission_from_peer sh i t w)"
| solution: "worker_reachable v e n w \<Longrightarrow> shared_env sh = e\<lparr>env_ledger := l\<rparr> \<Longrightarrow>
    process_unconfirmed_solution v sh j d w = (r, ns, w') \<Longrightarrow> worker_reachable v e (Suc n) w'"
| transaction: "worker_reachable v e n w \<Longrightarrow> shared_env sh = e\<lparr>env_ledger := l\<rparr> \<Longrightarrow>
    process_unconfirmed_transaction v sh j x w = (r, ns, w') \<Longrightarrow> worker_reachable v e (Suc n) w'"
| response: "worker_reachable v e n w \<Longrightarrow> finish_transmission_request v p i t w = (ns, w') \<Longrightarrow> worker_reachable v e n w'"
| request: "worker_reachable v e n w \<Longrightarrow> register_request now k enough i p c (w_pending w) = (sent, m) \<Longrightarrow>
    worker_reachable v e n (w\<lparr>w_pending := m\<rparr>)"
| expiry: "worker_reachable v e n w \<Longrightarrow> worker_reachable v e n (w\<lparr>w_pending := clear_expired_callbacks now (w_pending w)\<rparr>)"
| drained: "worker_reachable v e n w \<Longrightarrow> worker_remove_front w = (r, w') \<Longrightarrow> worker_reachable v e n w'"
| put_back: "worker_reachable v e n w \<Longrightarrow> kinds_match i t \<Longrightarrow> worker_reachable v e (Suc n) (worker_insert_front i t w)"
| reinserted: "worker_reachable v e n w \<Longrightarrow> kinds_match i t \<Longrightarrow> shared_env sh = e\<lparr>env_ledger := l\<rparr> \<Longrightarrow>
    reinsert sh i t w = (r, w') \<Longrightarrow> worker_reachable v e (Suc n) w'"
| cleared: "worker_reachable v e n w \<Longrightarrow> worker_reachable v e n (worker_clear_solutions w)"

lemma unconfirmed_inv:
  assumes "worker_inv (Suc n) w"
  shows "process_unconfirmed_solution v sh j d w = (r, ns, w') \<Longrightarrow> worker_inv n w'"
    and "process_unconfirmed_transaction v sh j x w = (r', ns', w'') \<Longrightarrow> worker_inv n w''"
proof -
  have m: "worker_inv (Suc n) (w\<lparr>w_pending := m\<rparr>)" if "pending_remove i t (w_pending w) = (q, m)" for i t q m
    using worker_inv_pending[OF assms pending_remove_inv[OF _ that]] assms by (simp add: worker_inv_def)
  note ins = worker_inv_insert[OF m] and w = worker_inv_mono[OF m]
  have k: "kinds_match (Solution j c) (SolutionData d)" "kinds_match (Transaction j c) (TransactionData x)" for c
    by (simp_all add: kinds_match_def)
  show "process_unconfirmed_solution v sh j d w = (r, ns, w') \<Longrightarrow> worker_inv n w'"
    using worker_inv_mono[OF assms, of n] ins[OF _ k(1)] w[of _ _ _ _ n]
    by (auto simp: process_unconfirmed_solution_def Let_def split: sum.splits prod.splits if_splits)
  show "process_unconfirmed_transaction v sh j x w = (r', ns', w'') \<Longrightarrow> worker_inv n w''"
    using worker_inv_mono[OF assms, of n] ins[OF _ k(2)] w[of _ _ _ _ n]
    by (auto simp: process_unconfirmed_transaction_def Let_def split: sum.splits prod.splits if_splits)
qed

lemma worker_inv_clear: "worker_inv n w \<Longrightarrow> worker_inv n (worker_clear_solutions w)"
proof -
  assume w: "worker_inv n w"
  then have inv: "ready_inv (w_ready w)" by (simp add: worker_inv_def)
  note c = clear_solutions_correct[OF inv]
  have "length (ready_queue (clear_solutions (w_ready w))) \<le> length (ready_queue (w_ready w))"
    by (simp add: c(1))
  moreover have "ready_offset (clear_solutions (w_ready w)) = 0" by (simp add: clear_solutions_def Let_def)
  moreover have "int n \<le> i64_max" using w by (auto simp: worker_inv_def ready_room_def)
  ultimately have "ready_room n (clear_solutions (w_ready w))"
    using w by (auto simp: worker_inv_def ready_room_def i64_min_def i64_max_def)
  then show ?thesis using w c by (auto simp: worker_inv_def worker_clear_solutions_def)
qed

lemma worker_reachable_inv: "worker_reachable v e n w \<Longrightarrow> n + k < 2 ^ 62 \<Longrightarrow> worker_inv k w"
proof (induction arbitrary: k rule: worker_reachable.induct)
  case (started i w)
  then show ?case
    using ready_new_inv by (auto simp: worker_new_def worker_inv_def result_simps ready_new_def pending_inv_def wf_map_def)
next
  case (from_peer n w sh l i t)
  then have "worker_inv (Suc k) w" by simp
  then show ?case
    using worker_inv_insert[of k w i t] worker_inv_mono[of "Suc k" w k] by (simp add: process_transmission_from_peer_def)
next
  case (response n w p i t ns w')
  then have w: "worker_inv k w" by simp
  then have "pending_inv m" if "pending_remove i v' (w_pending w) = (q, m)" for v' q m
    using pending_remove_inv[OF _ that] by (simp add: worker_inv_def)
  then show ?case
    using w response.hyps(2)
    by (auto simp: finish_transmission_request_def worker_inv_def split: sum.splits if_splits prod.splits)
next
  case (request n w now l enough i p c sent m)
  then have "worker_inv k w" by simp
  then show ?case using register_request_effect(1)[OF _ request.hyps(2)] by (simp add: worker_inv_def)
next
  case (reinserted n w i t sh l r w')
  then have "worker_inv (Suc k) w" by simp
  then show ?case
    using worker_inv_insert[OF _ reinserted.hyps(2), of k w] worker_inv_mono[of "Suc k" w k] reinserted.hyps(4)
    by (auto simp: reinsert_def split: if_splits prod.splits)
next
  case (expiry n w now)
  then have "worker_inv k w" by simp
  then show ?case using clear_all_inv by (auto simp: worker_inv_def)
next
  case (drained n w r w')
  then show ?case using worker_remove_front_cases(1)[of k w r w'] by simp
next
  case (solution n w sh l j d r ns w')
  show ?case by (rule unconfirmed_inv(1)[OF solution.IH solution.hyps(3)]) (use solution.prems in simp)
next
  case (transaction n w sh l j x r ns w')
  show ?case by (rule unconfirmed_inv(2)[OF transaction.IH transaction.hyps(3)]) (use transaction.prems in simp)
next
  case (put_back n w i t)
  show ?case by (rule worker_inv_insert_front[OF put_back.IH put_back.hyps(2)]) (use put_back.prems in simp)
next
  case (cleared n w)
  show ?case by (rule worker_inv_clear[OF cleared.IH]) (use cleared.prems in simp)
qed

lemma count_kinds:
  assumes "ready_inv q" "\<forall>(i, t)\<in>set (ready_queue q). kinds_match i t"
  shows "num_ratifications q = 0" "num_solutions q + num_transactions q = num_transmissions q"
proof -
  have d: "distinct (keys (ready_ids q))" "set (keys (ready_ids q)) = set (keys (ready_queue q))"
    "distinct (keys (ready_queue q))"
    using assms(1) by (auto simp: ready_inv_def wf_map_def)
  have k: "(case i of Ratification \<Rightarrow> False | _ \<Rightarrow> True)" if "i \<in> set (keys (ready_ids q))" for i
  proof -
    obtain t where "(i, t) \<in> set (ready_queue q)" using \<open>i \<in> _\<close> unfolding d(2) by auto
    then have "kinds_match i t" using assms(2) by blast
    then show ?thesis by (cases i; cases t) (simp_all add: kinds_match_def)
  qed
  then show "num_ratifications q = 0"
    unfolding num_ratifications_def length_0_conv filter_empty_conv by (fastforce split: transmission_id.splits)
  have "length (keys (ready_ids q)) = length (keys (ready_queue q))"
    using d by (metis distinct_card)
  moreover have "length (filter (\<lambda>i. case i of Solution _ _ \<Rightarrow> True | _ \<Rightarrow> False) is) +
      length (filter (\<lambda>i. case i of Transaction _ _ \<Rightarrow> True | _ \<Rightarrow> False) is) = length is"
    if "\<forall>i\<in>set is. case i of Ratification \<Rightarrow> False | _ \<Rightarrow> True" for "is"
    using that by (induction "is") (auto split: transmission_id.splits)
  ultimately show "num_solutions q + num_transactions q = num_transmissions q"
    using k unfolding num_solutions_def num_transactions_def num_transmissions_def by (metis length_map)
qed

section \<open>Properties\<close>

text \<open>Queues are typed: whatever clients, peers and the primary do, as long as fewer than \<open>2 ^ 62\<close>
  transmissions have entered it, a worker's queue holds each ID once, every queued transmission has the
  kind its ID says and is found by its ID, no ratification is queued, and the counters by kind add up.\<close>

theorem worker_queue_typed:
  assumes "worker_reachable v e n w" "n < 2 ^ 62"
  shows "distinct (keys (ready_queue (w_ready w))) \<and>
    (\<forall>(i, t)\<in>set (ready_queue (w_ready w)). kinds_match i t \<and> worker_get_transmission sh w i = Some t) \<and>
    num_ratifications (w_ready w) = 0 \<and>
    num_solutions (w_ready w) + num_transactions (w_ready w) = num_transmissions (w_ready w)"
proof -
  have "worker_inv 0 w" using worker_reachable_inv[OF assms(1), of 0] assms(2) by simp
  then have q: "ready_inv (w_ready w)" "\<forall>(i, t)\<in>set (ready_queue (w_ready w)). kinds_match i t"
    by (simp_all add: worker_inv_def)
  have d: "distinct (keys (ready_queue (w_ready w)))" using q(1) by (simp add: ready_inv_def)
  have "worker_get_transmission sh w i = Some t" if "(i, t) \<in> set (ready_queue (w_ready w))" for i t
    using ready_get_correct[OF q(1), of i] that d by (simp add: worker_get_transmission_def)
  then show ?thesis using d q(2) count_kinds[OF q] by blast
qed

definition sample_vm :: "(nat, nat) vm" where
  "sample_vm = \<lparr>hash_sha3_256 = (\<lambda>bits. Ok (replicate 256 False)), write_solution = write_u64, read_solution = read_u64,
     solution_id_of = id, solution_address = (\<lambda>_. 0), is_solution_limit_reached = (\<lambda>_ _. False),
     latest_epoch_hash = Ok 0, latest_proof_target = 1, check_solution = (\<lambda>_ _ _. Ok ()),
     write_transaction = write_u64, read_transaction = read_u64, transaction_id_of = id,
     transaction_kind_of = (\<lambda>_. Execute), check_transaction = (\<lambda>_. Ok ()), compute_cost = (\<lambda>_ _. Ok 1000),
     latest_block_height = 0\<rparr>"

definition worker_env :: "((nat, nat) transmission memory_service, (nat, nat) transmission, unit) storage_env" where
  "worker_env = \<lparr>env_network = MainnetV0, env_crypto = sample_crypto, env_ledger = sample_ledger, env_service = memory_ops,
     env_lru = \<lparr>lru_put = (\<lambda>_ _ u. u), lru_get = (\<lambda>_ _. None), lru_pop = (\<lambda>_ u. u)\<rparr>\<rparr>"

definition worker_shared :: "((nat, nat) transmission memory_service, nat, nat, unit) shared" where
  "worker_shared = \<lparr>shared_env = worker_env, shared_storage =
     \<lparr>current_height = 0, current_round = 1, gc_round = 0, max_gc_rounds = 100, rounds = [],
      unprocessed_certificates = (), certificates = [], batch_ids = [], transmissions = memory_new\<rparr>,
     shared_proposal = None\<rparr>"

theorem worker_queue_typed_witness:
  "\<exists>w :: (nat, nat, nat, nat) worker. worker_reachable sample_vm worker_env 1 w \<and> ready_queue (w_ready w) \<noteq> [] \<and>
     num_ratifications (w_ready w) = 0"
proof -
  let ?w = "\<lparr>worker_id = 0, w_ready = ready_new, w_pending = []\<rparr> :: (nat, nat, nat, nat) worker"
  let ?w' = "process_transmission_from_peer worker_shared (Solution 1 2) (SolutionData (Object 1)) ?w"
  have "worker_new 0 = Ok ?w" by (simp add: worker_new_def MAX_WORKERS_def)
  then have "worker_reachable sample_vm worker_env 0 ?w" by (rule started)
  from from_peer[OF this, of worker_shared sample_ledger]
  have r: "worker_reachable sample_vm worker_env 1 ?w'" by (simp add: worker_shared_def worker_env_def)
  have "\<not> worker_contains_transmission worker_shared ?w (Solution 1 2)"
    by (simp add: worker_contains_transmission_def ready_contains_def ready_new_def storage_contains_transmission_def
        worker_shared_def worker_env_def sample_ledger_def memory_ops_def memory_contains_def memory_new_def unwrap_or_def)
  then have "ready_queue (w_ready ?w') \<noteq> []"
    by (simp add: process_transmission_from_peer_def kinds_match_def ready_insert_def ready_new_def)
  then show ?thesis using worker_queue_typed[OF r] r by auto
qed

text \<open>Responses are checked: when a response to a request is accepted, the peer was asked, the value handed to
  every waiting callback is the decoded payload with the requested ID and checksum and is no fee, and
  nothing waits for the item any more; otherwise the worker is unchanged and nobody is notified.\<close>

theorem response_checked:
  assumes "pending_inv (w_pending w)" "finish_transmission_request v p i t w = (ns, w')"
  shows "(ns = [] \<and> w' = w) \<or>
    (contains_peer (w_pending w) i p \<and> \<not> pending_contains (w_pending w') i \<and> w_ready w' = w_ready w \<and>
     (\<exists>t'. ns = map (\<lambda>(c, _). (c, t')) (concat (vals (the (map_of (w_pending w) i)))) \<and>
       (case (i, t, t') of
          (Solution j c, SolutionData d, SolutionData (Object s)) \<Rightarrow>
            solution_id_of v s = j \<and> deserialize_blocking (read_solution v) d = Ok s \<and>
            data_to_checksum (hash_sha3_256 v) (write_solution v) d = Ok c
        | (Transaction j c, TransactionData d, TransactionData (Object x)) \<Rightarrow>
            transaction_id_of v x = j \<and> deserialize_transaction v d = Ok x \<and> transaction_kind_of v x \<noteq> Fee \<and>
            data_to_checksum (hash_sha3_256 v) (write_transaction v) d = Ok c
        | _ \<Rightarrow> False)))"
proof (cases "contains_peer (w_pending w) i p \<and> is_ok (ensure_transmission_is_well_formed v i t)")
  case False
  then have "ns = [] \<and> w' = w"
    using assms(2) by (auto simp: finish_transmission_request_def contains_peer_def get_peers_def is_ok_iff
        split: option.splits sum.splits if_splits)
  then show ?thesis by blast
next
  case True
  then obtain t' where t': "ensure_transmission_is_well_formed v i t = Ok t'" by (auto simp: is_ok_iff)
  obtain peers where peers: "map_of (w_pending w) i = Some peers" "p \<in> set (keys peers)"
    using True by (auto simp: contains_peer_def split: option.splits)
  have w': "ns = map (\<lambda>(c, _). (c, t')) (concat (vals peers))" "w' = w\<lparr>w_pending := AList.delete i (w_pending w)\<rparr>"
    using assms(2) peers t' by (auto simp: finish_transmission_request_def get_peers_def pending_remove_def)
  have "case (i, t, t') of
          (Solution j c, SolutionData d, SolutionData (Object s)) \<Rightarrow>
            solution_id_of v s = j \<and> deserialize_blocking (read_solution v) d = Ok s \<and>
            data_to_checksum (hash_sha3_256 v) (write_solution v) d = Ok c
        | (Transaction j c, TransactionData d, TransactionData (Object x)) \<Rightarrow>
            transaction_id_of v x = j \<and> deserialize_transaction v d = Ok x \<and> transaction_kind_of v x \<noteq> Fee \<and>
            data_to_checksum (hash_sha3_256 v) (write_transaction v) d = Ok c
        | _ \<Rightarrow> False"
    using t' by (cases i; cases t) (auto simp: ensure_transmission_is_well_formed_def result_simps split: sum.splits)
  then show ?thesis using True w' peers by (auto simp: pending_contains_def delete_keys)
qed

theorem response_checked_witness:
  "\<exists>w'. finish_transmission_request sample_vm (7 :: nat) (Solution 1 0) (SolutionData (Buffer [1, 0, 0, 0, 0, 0, 0, 0]))
      \<lparr>worker_id = 0, w_ready = ready_new, w_pending = [(Solution 1 0, [(7, [(''cb'', 100, True)])])]\<rparr> =
     ([(''cb'', SolutionData (Object 1))], w') \<and> \<not> pending_contains (w_pending w') (Solution 1 0)"
proof -
  let ?w = "\<lparr>worker_id = 0, w_ready = ready_new, w_pending = [(Solution 1 0, [(7, [(''cb'', 100, True)])])]\<rparr>
    :: (nat, nat, nat, string) worker"
  let ?d = "Buffer [1, 0, 0, 0, 0, 0, 0, 0] :: nat data"
  obtain ns w' where f: "finish_transmission_request sample_vm 7 (Solution 1 0) (SolutionData ?d) ?w = (ns, w')"
    by fastforce
  have "read_u64 [1, 0, 0, 0, 0, 0, 0, 0] = Ok (1, [])"
    by (simp add: read_uint_def read_then_def read_exact_def read_lift_def)
  moreover have "((*) 2 ^^ n) 0 = (0 :: nat)" for n by (induction n) simp_all
  then have "from_bits_le 128 (replicate 128 False) = Ok 0" by (simp add: from_bits_le_def fold_replicate)
  ultimately have "ensure_transmission_is_well_formed sample_vm (Solution 1 0) (SolutionData ?d) = Ok (SolutionData (Object 1))"
    by (simp add: ensure_transmission_is_well_formed_def sample_vm_def deserialize_blocking_def data_to_checksum_def)
  then have ns: "ns = [(''cb'', SolutionData (Object 1))]"
    using f by (auto simp: finish_transmission_request_def get_peers_def pending_remove_def)
  have "pending_inv (w_pending ?w)" by (simp add: pending_inv_def wf_map_def)
  from response_checked[OF this f] show ?thesis using f ns by auto
qed

end
