(* ===== verification/Primary.thy ===== *)
theory Primary
  imports Worker BFT
begin

text \<open>
  The primary of a validator, after \<open>node/bft/src/primary.rs\<close>: it proposes batches, signs the batches of
  other validators, certifies its own and moves from round to round.  The state puts the BFT of theory
  \<open>BFT\<close> (with storage, DAG and ledger) next to the workers, the proposed batch, the latest proposal and the
  signed proposals.  Handlers run as tasks that give way at every \<open>await\<close>; the handler of a proposal is
  therefore cut into the pieces between which other handlers can run, and what peers answer to requests is
  an argument of the next piece.  Messages are a list of events.
\<close>

section \<open>State and environment\<close>

record ('a, 's, 'x, 'u, 'p, 'c) primary =
  pr_bft :: "('a, ('s, 'x) transmission, 'u) bft"
  has_callback :: bool
  pr_workers :: "('s, 'x, 'p, 'c) worker list"
  proposed_batch :: "('s, 'x) transmission proposal option"
  latest_proposal_timestamp :: "(u64 \<times> i64) option"
  pr_signed_proposals :: signed_proposals

text \<open>The account, the gateway's view of the peers, the virtual machine and the consensus task.\<close>

record ('a, 's, 'x, 'u, 'p) node =
  node_env :: "('a, ('s, 'x) transmission, 'u) storage_env"
  node_vm :: "('s, 'x) vm"
  node_sha256 :: "byte list \<Rightarrow> byte list"
  node_key :: private_key
  node_address :: address
  resolve_to_aleo_addr :: "'p \<Rightarrow> address option"
  get_peer_ip_for_address :: "address \<Rightarrow> 'p option"
  is_authorized_validator_address :: "address \<Rightarrow> bool"
  is_authorized_validator_ip :: "'p \<Rightarrow> bool"
  connected_addresses :: "address list"
  is_synced :: bool
  node_consensus :: "('s, 'x) transmission ledger \<Rightarrow> commit_map \<Rightarrow> ('s, 'x) transmission tmap
    \<Rightarrow> ('s, 'x) transmission consensus_reply"

datatype 'p event =
    Disconnect 'p
  | SendPropose 'p batch_header
  | BroadcastPropose batch_header
  | SendSignature 'p field signature
  | BroadcastCertified batch_certificate

definition pr_storage :: "('a, 's, 'x, 'u, 'p, 'c) primary \<Rightarrow> ('a, 'u) storage" where
  "pr_storage pr = bft_storage (pr_bft pr)"

definition pr_ledger :: "('a, 's, 'x, 'u, 'p, 'c) primary \<Rightarrow> ('s, 'x) transmission ledger" where
  "pr_ledger pr = bft_ledger (pr_bft pr)"

definition pr_env ::
    "('a, 's, 'x, 'u, 'p) node \<Rightarrow> ('a, 's, 'x, 'u, 'p, 'c) primary \<Rightarrow> ('a, ('s, 'x) transmission, 'u) storage_env" where
  "pr_env nd pr = bft_env (node_env nd) (pr_bft pr)"

definition set_storage ::
    "('a, 'u) storage \<Rightarrow> ('a, 's, 'x, 'u, 'p, 'c) primary \<Rightarrow> ('a, 's, 'x, 'u, 'p, 'c) primary" where
  "set_storage st pr = pr\<lparr>pr_bft := (pr_bft pr)\<lparr>bft_storage := st\<rparr>\<rparr>"

definition shared_of ::
    "('a, 's, 'x, 'u, 'p) node \<Rightarrow> ('a, 's, 'x, 'u, 'p, 'c) primary \<Rightarrow> ('a, 's, 'x, 'u) shared" where
  "shared_of nd pr = \<lparr>shared_env = pr_env nd pr, shared_storage = pr_storage pr, shared_proposal = proposed_batch pr\<rparr>"

definition num_workers :: "('a, 's, 'x, 'u, 'p, 'c) primary \<Rightarrow> u8 result" where
  "num_workers pr = (if length (pr_workers pr) > 255 then Err (Panic ''Too many workers'') else Ok (length (pr_workers pr)))"

section \<open>Moving transmissions to and from the workers\<close>

definition insert_missing_transmissions_into_workers ::
    "('a, 's, 'x, 'u, 'p) node \<Rightarrow> ('s, 'x) transmission tmap \<Rightarrow> ('a, 's, 'x, 'u, 'p, 'c) primary
      \<Rightarrow> unit result \<times> ('a, 's, 'x, 'u, 'p, 'c) primary" where
  "insert_missing_transmissions_into_workers nd ts pr =
     (let (r, ws) = assign_to_workers (node_sha256 nd) (process_transmission_from_peer (shared_of nd pr)) ts (pr_workers pr)
      in (r, pr\<lparr>pr_workers := ws\<rparr>))"

definition reinsert_transmissions_into_workers ::
    "('a, 's, 'x, 'u, 'p) node \<Rightarrow> ('s, 'x) transmission tmap \<Rightarrow> ('a, 's, 'x, 'u, 'p, 'c) primary
      \<Rightarrow> unit result \<times> ('a, 's, 'x, 'u, 'p, 'c) primary" where
  "reinsert_transmissions_into_workers nd ts pr =
     (let (r, ws) = assign_to_workers (node_sha256 nd) (\<lambda>i t w. snd (reinsert (shared_of nd pr) i t w)) ts (pr_workers pr)
      in (r, pr\<lparr>pr_workers := ws\<rparr>))"

definition check_proposed_batch_for_expiration ::
    "('a, 's, 'x, 'u, 'p) node \<Rightarrow> ('a, 's, 'x, 'u, 'p, 'c) primary \<Rightarrow> unit result \<times> ('a, 's, 'x, 'u, 'p, 'c) primary" where
  "check_proposed_batch_for_expiration nd pr =
     (case proposed_batch pr of
        None \<Rightarrow> (Ok (), pr)
      | Some proposal \<Rightarrow>
          if round (p_header proposal) < current_round (pr_storage pr)
          then reinsert_transmissions_into_workers nd (p_transmissions proposal) (pr\<lparr>proposed_batch := None\<rparr>)
          else (Ok (), pr))"

definition clear_worker_solutions :: "('a, 's, 'x, 'u, 'p, 'c) primary \<Rightarrow> ('a, 's, 'x, 'u, 'p, 'c) primary" where
  "clear_worker_solutions pr = pr\<lparr>pr_workers := map worker_clear_solutions (pr_workers pr)\<rparr>"

section \<open>Rounds\<close>

text \<open>The loop that skips rounds within the GC range; it ends only if the rounds it is given grow.\<close>

partial_function (option) fast_forward ::
    "('a, 's, 'x, 'u, 'p) node \<Rightarrow> u64 \<Rightarrow> u64 \<Rightarrow> ('a, 's, 'x, 'u, 'p, 'c) primary
      \<Rightarrow> (unit result \<times> ('a, 's, 'x, 'u, 'p, 'c) primary) option" where
  "fast_forward nd target fast_forward_round pr =
     (if fast_forward_round < target
      then case increment_to_next_round (pr_env nd pr) fast_forward_round (pr_storage pr) of
             (Inl err, st) \<Rightarrow> Some (Inl err, set_storage st pr)
           | (Inr next, st) \<Rightarrow> fast_forward nd target next ((set_storage st pr)\<lparr>proposed_batch := None\<rparr>)
      else Some (Ok (), pr))"

text \<open>The answer says whether the proposal task is signalled.\<close>

definition try_increment_to_the_next_round ::
    "('a, 's, 'x, 'u, 'p) node \<Rightarrow> i64 \<Rightarrow> u64 \<Rightarrow> ('a, 's, 'x, 'u, 'p, 'c) primary
      \<Rightarrow> (bool result \<times> ('a, 's, 'x, 'u, 'p, 'c) primary) option" where
  "try_increment_to_the_next_round nd now next_round pr =
     (case (if u64_add (current_round (pr_storage pr)) (max_gc_rounds (pr_storage pr)) \<ge> next_round
            then fast_forward nd (saturating_sub next_round 1) (current_round (pr_storage pr)) pr
            else Some (Ok (), pr)) of
        None \<Rightarrow> None
      | Some (Inl err, pr) \<Rightarrow> Some (Inl err, pr)
      | Some (Inr _, pr) \<Rightarrow>
          let current = current_round (pr_storage pr)
          in if current < next_round
             then if has_callback pr
                  then let (is_ready, s) = try_advance_to_next_round (node_env nd) now current (pr_bft pr)
                       in Some (Ok (is_ready \<and> is_synced nd), pr\<lparr>pr_bft := s\<rparr>)
                  else (case increment_to_next_round (pr_env nd pr) current (pr_storage pr) of
                          (Inl err, st) \<Rightarrow> Some (Inl err, set_storage st pr)
                        | (Inr _, st) \<Rightarrow> Some (Ok (is_synced nd), set_storage st pr))
             else Some (Ok False, pr))"

definition ensure_is_signing_round :: "('a, 's, 'x, 'u, 'p, 'c) primary \<Rightarrow> u64 \<Rightarrow> unit result" where
  "ensure_is_signing_round pr batch_round =
     (let current = current_round (pr_storage pr)
      in if u64_add current (max_gc_rounds (pr_storage pr)) \<le> batch_round
         then bail ''Round is too far in the future''
         else if current > u64_add batch_round 1 then bail ''Primary is no longer signing for the round''
         else case proposed_batch pr of
                Some proposal \<Rightarrow>
                  ensure (\<not> round (p_header proposal) > batch_round) ''Our primary is no longer signing for the round'' (Ok ())
              | None \<Rightarrow> Ok ())"

definition MIN_BATCH_DELAY :: i64 where
  "MIN_BATCH_DELAY = 1"

definition i64_checked_sub :: "i64 \<Rightarrow> i64 \<Rightarrow> i64 option" where
  "i64_checked_sub a b = (if i64_min \<le> a - b \<and> a - b \<le> i64_max then Some (a - b) else None)"

definition check_peer_proposal_timestamp ::
    "('a, 's, 'x, 'u, 'p) node \<Rightarrow> ('a, 's, 'x, 'u, 'p, 'c) primary \<Rightarrow> u64 \<Rightarrow> address \<Rightarrow> i64 \<Rightarrow> unit result" where
  "check_peer_proposal_timestamp nd pr previous_round a t =
     ensure (a \<noteq> node_address nd) ''Peer cannot propose a batch that is authored by myself''
     (case get_certificate_for_round_with_author (pr_storage pr) previous_round a of
        None \<Rightarrow> Ok ()
      | Some c \<Rightarrow>
          (case i64_checked_sub t (cert_timestamp c) of
             None \<Rightarrow> bail ''Timestamp cannot be before the previous certificate''
           | Some elapsed \<Rightarrow>
               if elapsed < MIN_BATCH_DELAY then bail ''Timestamp is too soon after the previous certificate'' else Ok ()))"

definition check_own_proposal_timestamp :: "i64 \<Rightarrow> i64 \<Rightarrow> bool result" where
  "check_own_proposal_timestamp previous_timestamp t =
     (case i64_checked_sub t previous_timestamp of
        None \<Rightarrow> bail ''Timestamp cannot be before the previous certificate''
      | Some elapsed \<Rightarrow> Ok (elapsed \<ge> MIN_BATCH_DELAY))"

section \<open>Proposing a batch\<close>

text \<open>What happens to a transmission taken from the front of a queue: it is dropped, selected at a new total
  cost, put back as the last one, or the proposal fails.\<close>

datatype selection = Skip | Take u64 | Stop | Fail error

definition select_transmission ::
    "('a, 's, 'x, 'u, 'p) node \<Rightarrow> ('a, 's, 'x, 'u) shared \<Rightarrow> ('s, 'x) transmission tmap \<Rightarrow> u64
      \<Rightarrow> transmission_id \<Rightarrow> ('s, 'x) transmission \<Rightarrow> selection" where
  "select_transmission nd sh ts proposal_cost i t =
     (let v = node_vm nd; n = env_network (node_env nd) in
      if unwrap_or True (ledger_contains_transmission (env_ledger (shared_env sh)) i) then Skip
      else if ts \<noteq> [] \<and> storage_contains_transmission sh i then Skip
      else case (i, t) of
        (Solution j c, SolutionData d) \<Rightarrow>
          if data_to_checksum (hash_sha3_256 v) (write_solution v) d \<noteq> Ok c then Skip
          else (case check_solution_basic v j d of Inl _ \<Rightarrow> Skip | Inr _ \<Rightarrow> Take proposal_cost)
      | (Transaction j c, TransactionData d) \<Rightarrow>
          if data_to_checksum (hash_sha3_256 v) (write_transaction v) d \<noteq> Ok c then Skip
          else (case deserialize_transaction v d of
                  Inl err \<Rightarrow> Fail err
                | Inr x \<Rightarrow>
                    (case CONSENSUS_VERSION n (latest_block_height v) of
                       Inl err \<Rightarrow> Fail err
                     | Inr version \<Rightarrow>
                         (case transaction_spend_in_microcredits n v x version of
                            Inl (Panic m) \<Rightarrow> Fail (Panic m)
                          | Inl _ \<Rightarrow> Skip
                          | Inr cost \<Rightarrow>
                              (case check_transaction_basic v j x of
                                 Inl _ \<Rightarrow> Skip
                               | Inr _ \<Rightarrow>
                                   (case checked_add u64_max proposal_cost cost of
                                      None \<Rightarrow> Skip
                                    | Some next_cost \<Rightarrow>
                                        (case batch_spend_limit n (latest_block_height v) of
                                           Inl err \<Rightarrow> Fail err
                                         | Inr limit \<Rightarrow> if next_cost > limit then Stop else Take next_cost))))))
      | _ \<Rightarrow> Skip)"

datatype drain_exit = NextWorker | StopAll | Failed error

lemma remove_front_shrinks:
  "worker_remove_front w = (Some x, w') \<Longrightarrow> length (ready_queue (w_ready w')) < length (ready_queue (w_ready w))"
  by (auto simp: worker_remove_front_def ready_remove_front_def Let_def split: list.splits prod.splits)

function drain_worker ::
    "('a, 's, 'x, 'u, 'p) node \<Rightarrow> ('a, 's, 'x, 'u) shared \<Rightarrow> usize \<Rightarrow> ('s, 'x, 'q, 'c) worker
      \<Rightarrow> ('s, 'x) transmission tmap \<Rightarrow> u64
      \<Rightarrow> drain_exit \<times> ('s, 'x, 'q, 'c) worker \<times> ('s, 'x) transmission tmap \<times> u64" where
  "drain_worker nd sh num w ts cost =
     (case worker_remove_front w of
        (None, w') \<Rightarrow> (NextWorker, w', ts, cost)
      | (Some (i, t), w') \<Rightarrow>
          if length ts \<ge> MAX_TRANSMISSIONS_PER_BATCH then (StopAll, worker_insert_front i t w', ts, cost)
          else if num \<ge> MAX_TRANSMISSIONS_PER_WORKER then (NextWorker, worker_insert_front i t w', ts, cost)
          else (case select_transmission nd sh ts cost i t of
                  Skip \<Rightarrow> drain_worker nd sh num w' ts cost
                | Take next_cost \<Rightarrow> drain_worker nd sh (num + 1) w' (AList.update i t ts) next_cost
                | Stop \<Rightarrow> (StopAll, worker_insert_front i t w', ts, cost)
                | Fail err \<Rightarrow> (Failed err, w', ts, cost)))"
  by pat_completeness auto

termination drain_worker
  by (relation "measure (\<lambda>(nd, sh, num, w, ts, cost). length (ready_queue (w_ready w)))") (auto dest: remove_front_shrinks[OF sym])

declare drain_worker.simps [simp del]

fun drain_workers ::
    "('a, 's, 'x, 'u, 'p) node \<Rightarrow> ('a, 's, 'x, 'u) shared \<Rightarrow> ('s, 'x, 'q, 'c) worker list
      \<Rightarrow> ('s, 'x) transmission tmap \<Rightarrow> u64
      \<Rightarrow> unit result \<times> ('s, 'x, 'q, 'c) worker list \<times> ('s, 'x) transmission tmap" where
  "drain_workers nd sh [] ts cost = (Ok (), [], ts)"
| "drain_workers nd sh (w # ws) ts cost =
     (case drain_worker nd sh 0 w ts cost of
        (NextWorker, w, ts, cost) \<Rightarrow>
          (let (r, ws, ts) = drain_workers nd sh ws ts cost in (r, w # ws, ts))
      | (StopAll, w, ts, cost) \<Rightarrow> (Ok (), w # ws, ts)
      | (Failed err, w, ts, cost) \<Rightarrow> (Inl err, w # ws, ts))"

text \<open>Creating the batch once all checks passed: the round counts as proposed from here on.\<close>

definition create_proposal ::
    "('a, 's, 'x, 'u, 'p) node \<Rightarrow> i64 \<Rightarrow> scalar \<Rightarrow> committee \<Rightarrow> batch_certificate list \<Rightarrow> ('a, 's, 'x, 'u, 'p, 'c) primary
      \<Rightarrow> bool result \<times> ('a, 's, 'x, 'u, 'p, 'c) primary \<times> 'p event list" where
  "create_proposal nd now nonce committee_lookback previous_certificates pr =
     (let r = current_round (pr_storage pr);
          (drained, ws, ts) = drain_workers nd (shared_of nd pr) (pr_workers pr) [] 0;
          pr = pr\<lparr>pr_workers := ws\<rparr>
      in case drained of
           Inl err \<Rightarrow> (Inl err, pr, [])
         | Inr _ \<Rightarrow>
             let pr = pr\<lparr>latest_proposal_timestamp := Some (r, now)\<rparr>
             in case try_bind (batch_header_new (env_network (node_env nd)) (env_crypto (node_env nd)) nonce (node_key nd) r now
                         (comm_id committee_lookback) (iset_of_list (keys ts)) (iset_of_list (map cert_id previous_certificates)))
                       (\<lambda>h. try_bind (proposal_new committee_lookback h ts) (\<lambda>proposal. Ok (h, proposal))) of
                  Inl err \<Rightarrow> (Inl err, snd (reinsert_transmissions_into_workers nd ts pr), [])
                | Inr (h, proposal) \<Rightarrow> (Ok True, pr\<lparr>proposed_batch := Some proposal\<rparr>, [BroadcastPropose h]))"

text \<open>The clock is read twice: for the delay since the last proposal, and for the new batch.\<close>

definition propose_batch ::
    "('a, 's, 'x, 'u, 'p) node \<Rightarrow> i64 \<Rightarrow> i64 \<Rightarrow> scalar \<Rightarrow> ('a, 's, 'x, 'u, 'p, 'c) primary
      \<Rightarrow> bool result \<times> ('a, 's, 'x, 'u, 'p, 'c) primary \<times> 'p event list" where
  "propose_batch nd now now' nonce pr =
     (case check_proposed_batch_for_expiration nd pr of
        (Inl _, pr) \<Rightarrow> (Ok False, pr, [])
      | (Inr _, pr) \<Rightarrow>
          let st = pr_storage pr; r = current_round st; previous_round = saturating_sub r 1
          in if \<not> r > 0 then (bail ''Round 0 cannot have transaction batches'', pr, [])
             else if (case latest_proposal_timestamp pr of None \<Rightarrow> False | Some (latest, _) \<Rightarrow> r < latest) then (Ok False, pr, [])
             else case proposed_batch pr of
               Some proposal \<Rightarrow>
                 if r < round (p_header proposal) \<or>
                    (\<exists>i\<in>set (previous_certificate_ids (p_header proposal)). \<not> contains_certificate st i)
                 then (Ok False, pr, [])
                 else (case get_committee_lookback_for_round (pr_ledger pr) (round (p_header proposal)) of
                         Inl err \<Rightarrow> (Inl err, pr, [])
                       | Inr committee \<Rightarrow>
                           (Ok False, pr, List.map_filter
                              (\<lambda>a. map_option (\<lambda>ip. SendPropose ip (p_header proposal)) (get_peer_ip_for_address nd a))
                              (nonsigners (env_crypto (node_env nd)) proposal committee)))
             | None \<Rightarrow>
                 (case (case latest_proposal_timestamp pr of
                          None \<Rightarrow> Ok True | Some (_, t) \<Rightarrow> check_own_proposal_timestamp t now) of
                    Inl err \<Rightarrow> (Inl err, pr, [])
                  | Inr False \<Rightarrow> (Ok False, pr, [])
                  | Inr True \<Rightarrow>
                      if contains_certificate_in_round_from st r (node_address nd)
                      then (Ok False,
                            if has_callback pr
                            then pr\<lparr>pr_bft := snd (try_advance_to_next_round (node_env nd) now r (pr_bft pr))\<rparr> else pr, [])
                      else if (case latest_proposal_timestamp pr of None \<Rightarrow> False | Some (latest, _) \<Rightarrow> latest = r)
                      then (Ok False, pr, [])
                      else case get_committee_lookback_for_round (pr_ledger pr) r of
                        Inl err \<Rightarrow> (Inl err, pr, [])
                      | Inr committee_lookback \<Rightarrow>
                          if \<not> is_quorum_threshold_reached committee_lookback
                               (iset_insert (node_address nd) (iset_of_list (connected_addresses nd)))
                          then (Ok False, pr, [])
                          else
                            let previous_certificates = get_certificates_for_round st previous_round
                            in if previous_round = 0
                               then create_proposal nd now' nonce committee_lookback previous_certificates pr
                               else (case get_committee_lookback_for_round (pr_ledger pr) previous_round of
                                       Inl _ \<Rightarrow> (bail ''the committee lookback is not known yet'', pr, [])
                                     | Inr previous_committee_lookback \<Rightarrow>
                                         if is_quorum_threshold_reached previous_committee_lookback
                                              (iset_of_list (map cert_author previous_certificates))
                                         then create_proposal nd now' nonce committee_lookback previous_certificates pr
                                         else (Ok False, pr, []))))"

section \<open>Signing the batches of others\<close>

text \<open>The first piece of \<open>process_batch_propose_from_peer\<close>, up to the first request to the peer: the handler ends
  with a result, or goes on with the header.\<close>

datatype admission = Ended "unit result" | Proceed batch_header

definition admit_batch_propose ::
    "('a, 's, 'x, 'u, 'p) node \<Rightarrow> 'p \<Rightarrow> u64 \<Rightarrow> batch_header data \<Rightarrow> ('a, 's, 'x, 'u, 'p, 'c) primary
      \<Rightarrow> admission \<times> 'p event list" where
  "admit_batch_propose nd peer_ip batch_round data pr =
     (let cr = env_crypto (node_env nd) in
      case deserialize_blocking (read_batch_header (env_network (node_env nd)) cr) data of
        Inl err \<Rightarrow> (Ended (Inl err), [])
      | Inr h \<Rightarrow>
          if batch_round \<noteq> round h
          then (Ended (bail ''Malicious peer - proposed round differs from the batch''), [Disconnect peer_ip])
          else case resolve_to_aleo_addr nd peer_ip of
            None \<Rightarrow> (Ended (bail ''Batch proposal from a disconnected validator''), [])
          | Some a \<Rightarrow>
              if a \<noteq> author h
              then (Ended (bail ''Malicious peer - proposed batch from a different validator''), [Disconnect peer_ip])
              else if \<not> is_authorized_validator_address nd (author h)
              then (Ended (bail ''Malicious peer - proposed batch from a non-committee member''), [Disconnect peer_ip])
              else if node_address nd = author h then (Ended (bail ''Invalid peer - proposed batch from myself''), [])
              else case get_committee_lookback_for_round (pr_ledger pr) batch_round of
                Inl err \<Rightarrow> (Ended (Inl err), [])
              | Inr expected \<Rightarrow>
                  if comm_id expected \<noteq> committee_id h
                  then (Ended (bail ''Malicious peer - proposed batch has a different committee ID''), [Disconnect peer_ip])
                  else
                    let fresh =
                      (if contains_batch (pr_storage pr) (batch_id h) then (Ended (Ok ()), [])
                       else case check_peer_proposal_timestamp nd pr (saturating_sub batch_round 1) (author h) (timestamp h) of
                         Inl err \<Rightarrow> (Ended (Inl err), [Disconnect peer_ip])
                       | Inr _ \<Rightarrow>
                           if Ratification \<in> set (transmission_ids h)
                           then (Ended (bail ''Malicious peer - proposed batch contains a ratification''), [Disconnect peer_ip])
                           else (Proceed h, []))
                    in case map_of (pr_signed_proposals pr) (author h) of
                         None \<Rightarrow> fresh
                       | Some (signed_round, signed_batch_id, s) \<Rightarrow>
                           if signed_round > round h
                           then (Ended (bail ''Peer proposed a batch for a previous round''), [])
                           else if signed_round = round h \<and> signed_batch_id \<noteq> batch_id h
                           then (Ended (bail ''Peer proposed another batch for the same round''), [])
                           else if signed_round = round h \<and> signed_batch_id = batch_id h
                           then (Ended (Ok ()), [SendSignature peer_ip (batch_id h) s])
                           else fresh)"

text \<open>\<open>sync_with_batch_header_from_peer\<close> before it waits for the peer.\<close>

definition sync_with_batch_header ::
    "('a, 's, 'x, 'u, 'p) node \<Rightarrow> bool \<Rightarrow> i64 \<Rightarrow> batch_header \<Rightarrow> ('a, 's, 'x, 'u, 'p, 'c) primary
      \<Rightarrow> (unit result \<times> ('a, 's, 'x, 'u, 'p, 'c) primary) option" where
  "sync_with_batch_header nd is_syncing now h pr =
     (let st = pr_storage pr; batch_round = round h in
      if batch_round \<le> gc_round st then Some (bail ''Round is too far in the past'', pr)
      else if \<not> is_syncing \<and> \<not> is_synced nd then Some (bail ''node is syncing'', pr)
      else case get_committee_lookback_for_round (pr_ledger pr) batch_round of
        Inl err \<Rightarrow> Some (Inl err, pr)
      | Inr committee_lookback \<Rightarrow>
          let is_behind_schedule =
                (is_quorum_threshold_reached committee_lookback (get_certificate_authors_for_round st batch_round) \<and>
                 batch_round > current_round st);
              is_peer_far_in_future = (batch_round > u64_add (current_round st) (max_gc_rounds st))
          in if is_behind_schedule \<or> is_peer_far_in_future
             then map_option (\<lambda>(r, pr). (try_bind r (\<lambda>_. Ok ()), pr)) (try_increment_to_the_next_round nd now batch_round pr)
             else Some (Ok (), pr))"

text \<open>The cost of the transactions of a batch: \<open>Ok False\<close> ends the handler without an error.\<close>

fun check_spend ::
    "('a, 's, 'x, 'u, 'p) node \<Rightarrow> ('a, 's, 'x, 'u, 'p, 'c) primary \<Rightarrow> u32 \<Rightarrow> u64 \<Rightarrow> transmission_id list \<Rightarrow> bool result" where
  "check_spend nd pr block_height proposal_cost [] = Ok True"
| "check_spend nd pr block_height proposal_cost (i # is) =
     (let v = node_vm nd; n = env_network (node_env nd) in
      try_bind (num_workers pr) (\<lambda>k.
      try_bind (assign_to_worker (node_sha256 nd) i k) (\<lambda>j.
      if \<not> j < length (pr_workers pr) then Ok False
      else case worker_get_transmission (shared_of nd pr) (pr_workers pr ! j) i of
        None \<Rightarrow> Ok False
      | Some t \<Rightarrow>
          (case (i, t) of
             (Transaction _ _, TransactionData d) \<Rightarrow>
               try_bind (deserialize_transaction v d) (\<lambda>x.
               try_bind (CONSENSUS_VERSION n block_height) (\<lambda>version.
               try_bind (if version < V14
                         then case consensus_config_value n MAX_TRANSACTION_SIZE block_height of
                                None \<Rightarrow> Ok False
                              | Some max_tx_size \<Rightarrow> try_bind (write_transaction v x) (\<lambda>bytes. Ok (length bytes > max_tx_size))
                         else Ok False) (\<lambda>too_large.
               if too_large then check_spend nd pr block_height proposal_cost is
               else case transaction_spend_in_microcredits n v x version of
                 Inl (Panic m) \<Rightarrow> Err (Panic m)
               | Inl _ \<Rightarrow> bail ''Invalid batch proposal - Unable to compute transaction spent cost''
               | Inr cost \<Rightarrow>
                   (case checked_add u64_max proposal_cost cost of
                      None \<Rightarrow> bail ''Invalid batch proposal - Batch proposal overflowed''
                    | Some next_cost \<Rightarrow>
                        try_bind (batch_spend_limit n block_height) (\<lambda>limit.
                        if next_cost > limit then bail ''Malicious peer - Batch proposal exceeds the spend limit''
                        else check_spend nd pr block_height next_cost is)))))
           | _ \<Rightarrow> check_spend nd pr block_height proposal_cost is))))"

text \<open>The second piece, once the transmissions and previous certificates have been fetched: \<open>Ok True\<close> means that
  the batch is to be signed.\<close>

fun well_formed_all ::
    "('s, 'x) vm \<Rightarrow> ('s, 'x) transmission tmap \<Rightarrow> ('s, 'x) transmission tmap result" where
  "well_formed_all v [] = Ok []"
| "well_formed_all v ((i, t) # ts) =
     try_bind (ensure_transmission_is_well_formed v i t) (\<lambda>t. try_bind (well_formed_all v ts) (\<lambda>ts. Ok ((i, t) # ts)))"

definition validate_batch_propose ::
    "('a, 's, 'x, 'u, 'p) node \<Rightarrow> i64 \<Rightarrow> batch_header \<Rightarrow> ('s, 'x) transmission tmap \<Rightarrow> ('a, 's, 'x, 'u, 'p, 'c) primary
      \<Rightarrow> bool result \<times> ('a, 's, 'x, 'u, 'p, 'c) primary" where
  "validate_batch_propose nd now h missing pr =
     (case well_formed_all (node_vm nd) missing of
        Inl _ \<Rightarrow> (Ok False, pr)
      | Inr missing \<Rightarrow>
          (case ensure_is_signing_round pr (round h) of
             Inl _ \<Rightarrow> (Ok False, pr)
           | Inr _ \<Rightarrow>
               (case check_batch_header (pr_env nd pr) now (pr_storage pr) h missing [] of
                  Inl err \<Rightarrow> (Inl err, pr)
                | Inr None \<Rightarrow> (Ok False, pr)
                | Inr (Some missing) \<Rightarrow>
                    (case insert_missing_transmissions_into_workers nd missing pr of
                       (Inl err, pr) \<Rightarrow> (Inl err, pr)
                     | (Inr _, pr) \<Rightarrow>
                         let block_height = (latest_block_height (node_vm nd) + 1) mod 2 ^ 32
                         in (try_bind (CONSENSUS_VERSION (env_network (node_env nd)) block_height) (\<lambda>version.
                               if version \<ge> V5 then check_spend nd pr block_height 0 (transmission_ids h) else Ok True), pr)))))"

text \<open>The last piece: the signature, made outside any lock, and the entry for the author.\<close>

definition record_signature ::
    "('a, 's, 'x, 'u, 'p) node \<Rightarrow> scalar \<Rightarrow> 'p \<Rightarrow> batch_header \<Rightarrow> ('a, 's, 'x, 'u, 'p, 'c) primary
      \<Rightarrow> unit result \<times> ('a, 's, 'x, 'u, 'p, 'c) primary \<times> 'p event list" where
  "record_signature nd nonce peer_ip h pr =
     (case sign (env_crypto (node_env nd)) nonce (node_key nd) [batch_id h] of
        Inl err \<Rightarrow> (Inl err, pr, [])
      | Inr s \<Rightarrow>
          let signed = (Ok (), pr\<lparr>pr_signed_proposals := AList.update (author h) (round h, batch_id h, s) (pr_signed_proposals pr)\<rparr>,
                [SendSignature peer_ip (batch_id h) s])
          in case map_of (pr_signed_proposals pr) (author h) of
               Some (signed_round, _, _) \<Rightarrow> if signed_round = round h then (Ok (), pr, []) else signed
             | None \<Rightarrow> signed)"

section \<open>Certifying the own batch\<close>

text \<open>Storing a certificate and telling the BFT about it; \<open>None\<close> if the ordering of an anchor does not end.\<close>

definition store_certificate ::
    "('a, 's, 'x, 'u, 'p) node \<Rightarrow> i64 \<Rightarrow> batch_certificate \<Rightarrow> ('s, 'x) transmission tmap \<Rightarrow> ('a, 's, 'x, 'u, 'p, 'c) primary
      \<Rightarrow> (unit result \<times> ('a, 's, 'x, 'u, 'p, 'c) primary) option" where
  "store_certificate nd now c ts pr =
     (case insert_certificate (pr_env nd pr) now c ts [] (pr_storage pr) of
        Inl err \<Rightarrow> Some (Inl err, pr)
      | Inr st \<Rightarrow>
          let pr = set_storage st pr
          in if has_callback pr
             then map_option (\<lambda>(r, s). (r, pr\<lparr>pr_bft := s\<rparr>))
                    (add_new_certificate (node_env nd) (node_consensus nd) c (pr_bft pr))
             else Some (Ok (), pr))"

definition store_and_broadcast_certificate ::
    "('a, 's, 'x, 'u, 'p) node \<Rightarrow> i64 \<Rightarrow> ('s, 'x) transmission proposal \<Rightarrow> committee \<Rightarrow> ('a, 's, 'x, 'u, 'p, 'c) primary
      \<Rightarrow> (unit result \<times> ('a, 's, 'x, 'u, 'p, 'c) primary \<times> 'p event list) option" where
  "store_and_broadcast_certificate nd now proposal committee pr =
     (case to_certificate (env_network (node_env nd)) (env_crypto (node_env nd)) proposal committee of
        Inl err \<Rightarrow> Some (Inl err, pr, [])
      | Inr (c, ts) \<Rightarrow>
          map_option (\<lambda>(r, pr). case r of Inl err \<Rightarrow> (Inl err, pr, []) | Inr _ \<Rightarrow> (Ok (), pr, [BroadcastCertified c]))
            (store_certificate nd now c ts pr))"

text \<open>The step under the lock of the proposed batch: a proposal with a quorum is taken out.\<close>

definition add_batch_signature ::
    "('a, 's, 'x, 'u, 'p) node \<Rightarrow> 'p \<Rightarrow> field \<Rightarrow> signature \<Rightarrow> ('a, 's, 'x, 'u, 'p, 'c) primary
      \<Rightarrow> ('s, 'x) transmission proposal option result \<times> ('a, 's, 'x, 'u, 'p, 'c) primary" where
  "add_batch_signature nd peer_ip bid s pr =
     (let cr = env_crypto (node_env nd) in
      case proposed_batch pr of
        None \<Rightarrow> (Ok None, pr)
      | Some proposal \<Rightarrow>
          if batch_id (p_header proposal) \<noteq> bid
          then (if contains_batch (pr_storage pr) bid then Ok None else bail ''Unknown batch ID'', pr)
          else case get_committee_lookback_for_round (pr_ledger pr) (round (p_header proposal)) of
            Inl err \<Rightarrow> (Inl err, pr)
          | Inr committee_lookback \<Rightarrow>
              (case resolve_to_aleo_addr nd peer_ip of
                 None \<Rightarrow> (bail ''Signature is from a disconnected validator'', pr)
               | Some signer \<Rightarrow>
                   (case add_signature cr signer s committee_lookback proposal of
                      Inl err \<Rightarrow> (Inl err, pr)
                    | Inr (new_signature, proposal) \<Rightarrow>
                        if new_signature \<and> proposal_quorum cr proposal committee_lookback
                        then (Ok (Some proposal), pr\<lparr>proposed_batch := None\<rparr>)
                        else (Ok None, pr\<lparr>proposed_batch := Some proposal\<rparr>))))"

definition process_batch_signature_from_peer ::
    "('a, 's, 'x, 'u, 'p) node \<Rightarrow> i64 \<Rightarrow> 'p \<Rightarrow> field \<Rightarrow> signature \<Rightarrow> ('a, 's, 'x, 'u, 'p, 'c) primary
      \<Rightarrow> (unit result \<times> ('a, 's, 'x, 'u, 'p, 'c) primary \<times> 'p event list) option" where
  "process_batch_signature_from_peer nd now peer_ip bid s pr =
     (let cr = env_crypto (node_env nd) in
      case check_proposed_batch_for_expiration nd pr of
        (Inl err, pr) \<Rightarrow> Some (Inl err, pr, [])
      | (Inr _, pr) \<Rightarrow>
          let signer = to_address cr s
          in if resolve_to_aleo_addr nd peer_ip \<noteq> Some signer
             then Some (bail ''Malicious peer - batch signature is from a different validator'', pr, [Disconnect peer_ip])
             else if node_address nd = signer
             then Some (bail ''Invalid peer - received a batch signature from myself'', pr, [])
             else case add_batch_signature nd peer_ip bid s pr of
               (Inl err, pr) \<Rightarrow> Some (Inl err, pr, [])
             | (Inr None, pr) \<Rightarrow> Some (Ok (), pr, [])
             | (Inr (Some proposal), pr) \<Rightarrow>
                 (case get_committee_lookback_for_round (pr_ledger pr) (round (p_header proposal)) of
                    Inl err \<Rightarrow> Some (Inl err, pr, [])
                  | Inr committee_lookback \<Rightarrow>
                      (case store_and_broadcast_certificate nd now proposal committee_lookback pr of
                         None \<Rightarrow> None
                       | Some (Inr _, pr, evs) \<Rightarrow> Some (Ok (), pr, evs)
                       | Some (Inl err, pr, _) \<Rightarrow>
                           (case reinsert_transmissions_into_workers nd (p_transmissions proposal) pr of
                              (Inl err', pr) \<Rightarrow> Some (Inl err', pr, [])
                            | (Inr _, pr) \<Rightarrow> Some (Inl err, pr, [])))))"

section \<open>Certificates from peers\<close>

text \<open>\<open>process_batch_certificate_from_peer\<close> before and after the certificate is synchronised; the second piece
  says whether the task that advances the round is woken.\<close>

definition admit_batch_certificate ::
    "('a, 's, 'x, 'u, 'p) node \<Rightarrow> 'p \<Rightarrow> batch_certificate \<Rightarrow> ('a, 's, 'x, 'u, 'p, 'c) primary
      \<Rightarrow> bool result \<times> ('a, 's, 'x, 'u, 'p, 'c) primary \<times> 'p event list" where
  "admit_batch_certificate nd peer_ip c pr =
     (if \<not> is_authorized_validator_ip nd peer_ip
      then (bail ''Malicious peer - Received a batch certificate from an unauthorized validator IP'', pr, [Disconnect peer_ip])
      else if contains_certificate (pr_storage pr) (cert_id c) then (Ok False, pr, [])
      else case (if \<not> contains_unprocessed_certificate (pr_env nd pr) (pr_storage pr) (cert_id c)
                 then insert_unprocessed_certificate (pr_env nd pr) c (pr_storage pr) else Ok (pr_storage pr)) of
        Inl err \<Rightarrow> (Inl err, pr, [])
      | Inr st \<Rightarrow>
          let pr = set_storage st pr
          in if node_address nd = cert_author c then (bail ''Received a batch certificate for myself'', pr, [])
             else (try_bind (check_incoming_certificate (pr_env nd pr) c) (\<lambda>_. Ok True), pr, []))"

definition finish_batch_certificate ::
    "('a, 's, 'x, 'u, 'p) node \<Rightarrow> 'p \<Rightarrow> batch_certificate \<Rightarrow> ('a, 's, 'x, 'u, 'p, 'c) primary \<Rightarrow> bool result \<times> 'p event list" where
  "finish_batch_certificate nd peer_ip c pr =
     (case get_committee_lookback_for_round (pr_ledger pr) (cert_round c) of
        Inl err \<Rightarrow> (Inl err, [])
      | Inr committee_lookback \<Rightarrow>
          let is_quorum = is_quorum_threshold_reached committee_lookback
                (get_certificate_authors_for_round (pr_storage pr) (cert_round c))
          in if comm_id committee_lookback \<noteq> cert_committee_id c
             then (bail ''Batch certificate has a different committee ID'', [Disconnect peer_ip])
             else
               let should_advance = (case latest_proposal_timestamp pr of
                     Some (latest, _) \<Rightarrow> latest < cert_round c | None \<Rightarrow> True)
               in (Ok (is_quorum \<and> should_advance \<and> cert_round c \<ge> current_round (pr_storage pr)), []))"

text \<open>\<open>sync_with_certificate_from_peer\<close> before it asks the peer (whether to go on, with the guards and the round
  change of the batch header), and after the transmissions and previous certificates are there.\<close>

definition sync_with_certificate ::
    "('a, 's, 'x, 'u, 'p) node \<Rightarrow> bool \<Rightarrow> i64 \<Rightarrow> batch_certificate \<Rightarrow> ('a, 's, 'x, 'u, 'p, 'c) primary
      \<Rightarrow> (bool result \<times> ('a, 's, 'x, 'u, 'p, 'c) primary) option" where
  "sync_with_certificate nd is_syncing now c pr =
     (if cert_round c \<le> gc_round (pr_storage pr) then Some (Ok False, pr)
      else if contains_certificate (pr_storage pr) (cert_id c) then Some (Ok False, pr)
      else if \<not> is_syncing \<and> \<not> is_synced nd then Some (bail ''node is syncing'', pr)
      else map_option (\<lambda>(r, pr). (try_bind r (\<lambda>_. Ok True), pr)) (sync_with_batch_header nd is_syncing now (batch_header c) pr))"

definition store_synced_certificate ::
    "('a, 's, 'x, 'u, 'p) node \<Rightarrow> i64 \<Rightarrow> batch_certificate \<Rightarrow> ('s, 'x) transmission tmap \<Rightarrow> ('a, 's, 'x, 'u, 'p, 'c) primary
      \<Rightarrow> (unit result \<times> ('a, 's, 'x, 'u, 'p, 'c) primary) option" where
  "store_synced_certificate nd now c missing pr =
     (if contains_certificate (pr_storage pr) (cert_id c) then Some (Ok (), pr) else store_certificate nd now c missing pr)"

section \<open>Restart\<close>

text \<open>What \<open>shut_down\<close> writes, and what \<open>load_proposal_cache\<close> sets before it stores the pending certificates.\<close>

definition shut_down_cache ::
    "('a, 's, 'x, 'u, 'p) node \<Rightarrow> ('a, 's, 'x, 'u, 'p, 'c) primary \<Rightarrow> ('s, 'x) transmission proposal_cache" where
  "shut_down_cache nd pr =
     \<lparr>cached_round =
        (case proposed_batch pr of
           Some proposal \<Rightarrow> round (p_header proposal)
         | None \<Rightarrow> (case latest_proposal_timestamp pr of Some (r, _) \<Rightarrow> r | None \<Rightarrow> 0)),
      cached_proposal = proposed_batch pr, cached_signed_proposals = pr_signed_proposals pr,
      pending_certificates = get_pending_certificates (pr_env nd pr) (pr_storage pr)\<rparr>"

definition load_proposal_cache ::
    "i64 \<Rightarrow> ('s, 'x) transmission proposal_cache \<Rightarrow> ('a, 's, 'x, 'u, 'p, 'c) primary \<Rightarrow> ('a, 's, 'x, 'u, 'p, 'c) primary" where
  "load_proposal_cache now cache pr =
     pr\<lparr>latest_proposal_timestamp := Some (cached_round cache, now), proposed_batch := cached_proposal cache,
        pr_signed_proposals := cached_signed_proposals cache\<rparr>"

end
