(* ===== verification/Signing.thy ===== *)
theory Signing
  imports Primary
begin

text \<open>
  Who signs what.  A run of the primary interleaves the handlers of batch proposals: each handler is admitted,
  validated and recorded in separate steps, and anything else the node does may happen in between as long as
  it leaves the signed proposals alone.  When a validator's proposals are handled one after the other, no two
  batches of a round are signed for it, and therefore no two of its batches are certified.  When they
  interleave, two can be signed.
\<close>

section \<open>Runs\<close>

datatype stage = Admitted | Validated

record ('a, 's, 'x, 'u, 'p, 'c) run =
  run_primary :: "('a, 's, 'x, 'u, 'p, 'c) primary"
  in_flight :: "(stage \<times> 'p \<times> batch_header) list"
  sent :: "(address \<times> u64 \<times> field) list"

definition flight_authors :: "('a, 's, 'x, 'u, 'p, 'c) run \<Rightarrow> address list" where
  "flight_authors s = map (\<lambda>(_, _, h). author h) (in_flight s)"

definition sends_signature :: "'p event list \<Rightarrow> bool" where
  "sends_signature evs \<longleftrightarrow> (\<exists>e\<in>set evs. case e of SendSignature _ _ _ \<Rightarrow> True | _ \<Rightarrow> False)"

definition signed_header :: "batch_header \<Rightarrow> 'p event list \<Rightarrow> (address \<times> u64 \<times> field) list" where
  "signed_header h evs = (if sends_signature evs then [(author h, round h, batch_id h)] else [])"

fun drop_nth :: "nat \<Rightarrow> 'b list \<Rightarrow> 'b list" where
  "drop_nth i [] = []"
| "drop_nth 0 (x # xs) = xs"
| "drop_nth (Suc i) (x # xs) = x # drop_nth i xs"

text \<open>\<open>exclusive\<close>: a proposal is taken up only when no handler for the same validator is running.  The node,
  that is its peers, its virtual machine and its clock, may differ from step to step.\<close>

inductive signing_step :: "bool \<Rightarrow> ('a, 's, 'x, 'u, 'p, 'c) run \<Rightarrow> ('a, 's, 'x, 'u, 'p, 'c) run \<Rightarrow> bool" for exclusive where
  receive: "deserialize_blocking (read_batch_header (env_network (node_env nd)) (env_crypto (node_env nd))) data = Ok h \<Longrightarrow>
    exclusive \<longrightarrow> author h \<notin> set (flight_authors s) \<Longrightarrow>
    admit_batch_propose nd peer_ip r data (run_primary s) = (a, evs) \<Longrightarrow>
    signing_step exclusive s (s\<lparr>in_flight := in_flight s @ (case a of Proceed h \<Rightarrow> [(Admitted, peer_ip, h)] | Ended _ \<Rightarrow> []),
      sent := sent s @ signed_header h evs\<rparr>)"
| validate: "i < length (in_flight s) \<Longrightarrow> in_flight s ! i = (Admitted, peer_ip, h) \<Longrightarrow>
    validate_batch_propose nd now h missing (run_primary s) = (r, pr) \<Longrightarrow>
    signing_step exclusive s (s\<lparr>run_primary := pr,
      in_flight := (if r = Ok True then (in_flight s)[i := (Validated, peer_ip, h)] else drop_nth i (in_flight s))\<rparr>)"
| recorded: "i < length (in_flight s) \<Longrightarrow> in_flight s ! i = (Validated, peer_ip, h) \<Longrightarrow>
    record_signature nd nonce peer_ip h (run_primary s) = (r, pr, evs) \<Longrightarrow>
    signing_step exclusive s (s\<lparr>run_primary := pr, in_flight := drop_nth i (in_flight s),
      sent := sent s @ signed_header h evs\<rparr>)"
| fetch_failed: "i < length (in_flight s) \<Longrightarrow> signing_step exclusive s (s\<lparr>in_flight := drop_nth i (in_flight s)\<rparr>)"
| restart: "signing_step exclusive s (s\<lparr>in_flight := [],
    run_primary := load_proposal_cache now (shut_down_cache nd (run_primary s)) fresh\<rparr>)"
| other: "pr_signed_proposals pr = pr_signed_proposals (run_primary s) \<Longrightarrow> signing_step exclusive s (s\<lparr>run_primary := pr\<rparr>)"

text \<open>A run starts with no signature given.\<close>

inductive signing_run :: "bool \<Rightarrow> ('a, 's, 'x, 'u, 'p, 'c) run \<Rightarrow> bool" for exclusive where
  run_start: "pr_signed_proposals pr = [] \<Longrightarrow> signing_run exclusive \<lparr>run_primary = pr, in_flight = [], sent = []\<rparr>"
| run_step: "signing_run exclusive s \<Longrightarrow> signing_step exclusive s s' \<Longrightarrow> signing_run exclusive s'"

section \<open>One batch per validator and round\<close>

definition signing_inv :: "('a, 's, 'x, 'u, 'p, 'c) run \<Rightarrow> bool" where
  "signing_inv s \<longleftrightarrow>
     (\<forall>(a, r, b)\<in>set (sent s). \<exists>r0 b0 sig. map_of (pr_signed_proposals (run_primary s)) a = Some (r0, b0, sig) \<and>
        r \<le> r0 \<and> (r = r0 \<longrightarrow> b = b0)) \<and>
     (\<forall>a r b b'. (a, r, b) \<in> set (sent s) \<longrightarrow> (a, r, b') \<in> set (sent s) \<longrightarrow> b = b') \<and>
     distinct (flight_authors s) \<and>
     (\<forall>(_, _, h)\<in>set (in_flight s). \<forall>r0 b0 sig.
        map_of (pr_signed_proposals (run_primary s)) (author h) = Some (r0, b0, sig) \<longrightarrow> r0 < round h)"

lemma drop_nth_take: "i < length xs \<Longrightarrow> drop_nth i xs = take i xs @ drop (Suc i) xs"
  by (induction i xs rule: drop_nth.induct) simp_all

lemma set_drop_nth: "set (drop_nth i xs) \<subseteq> set xs"
  by (induction i xs rule: drop_nth.induct) auto

lemma map_drop_nth: "map f (drop_nth i xs) = drop_nth i (map f xs)"
  by (induction i xs rule: drop_nth.induct) simp_all

lemma distinct_drop_nth: "distinct xs \<Longrightarrow> distinct (drop_nth i xs)"
  using set_drop_nth by (induction i xs rule: drop_nth.induct) force+

lemma drop_nth_fresh: "distinct (map f xs) \<Longrightarrow> i < length xs \<Longrightarrow> y \<in> set (drop_nth i xs) \<Longrightarrow> f y \<noteq> f (xs ! i)"
proof (induction i xs rule: drop_nth.induct)
  case (3 i x xs)
  then show ?case using nth_mem[of i xs] by (auto simp: image_iff)
qed (auto simp: image_iff)

lemma admit_cases:
  assumes "deserialize_blocking (read_batch_header (env_network (node_env nd)) (env_crypto (node_env nd))) data = Ok h"
    and "admit_batch_propose nd peer_ip r data pr = (a, evs)"
  shows "(\<exists>res. a = Ended res) \<and> (sends_signature evs \<longrightarrow> (\<exists>sig. map_of (pr_signed_proposals pr) (author h) = Some (round h, batch_id h, sig))) \<or>
    (a = Proceed h \<and> evs = [] \<and> r = round h \<and>
     (\<forall>r0 b0 sig. map_of (pr_signed_proposals pr) (author h) = Some (r0, b0, sig) \<longrightarrow> r0 < round h))"
proof (cases "map_of (pr_signed_proposals pr) (author h)")
  case None
  then show ?thesis
    using assms(2) unfolding admit_batch_propose_def Let_def assms(1) sum.case None option.case sends_signature_def
    by (simp split: option.splits sum.splits if_splits) auto
next
  case (Some e)
  obtain r0 b0 sig where e: "e = (r0, b0, sig)" by (cases e)
  show ?thesis
    using assms(2) unfolding admit_batch_propose_def Let_def assms(1) sum.case Some e option.case prod.case sends_signature_def
    by (simp split: option.splits sum.splits if_splits) auto
qed

lemma validate_signed: "validate_batch_propose nd now h missing pr = (r, pr') \<Longrightarrow> pr_signed_proposals pr' = pr_signed_proposals pr"
  by (auto simp: validate_batch_propose_def insert_missing_transmissions_into_workers_def Let_def
      split: sum.splits option.splits prod.splits)

lemma record_cases:
  assumes "record_signature nd nonce peer_ip h pr = (r, pr', evs)"
  shows "(pr' = pr \<and> evs = []) \<or>
    (\<exists>sig. evs = [SendSignature peer_ip (batch_id h) sig] \<and>
      pr' = pr\<lparr>pr_signed_proposals := AList.update (author h) (round h, batch_id h, sig) (pr_signed_proposals pr)\<rparr> \<and>
      sign (env_crypto (node_env nd)) nonce (node_key nd) [batch_id h] = Ok sig \<and>
      (\<forall>r0 b0 s0. map_of (pr_signed_proposals pr) (author h) = Some (r0, b0, s0) \<longrightarrow> r0 \<noteq> round h))"
  using assms by (auto simp: record_signature_def Let_def split: sum.splits option.splits if_splits prod.splits)

lemma signing_inv_drop:
  assumes "signing_inv s"
  shows "\<forall>(_, _, h)\<in>set (drop_nth i (in_flight s)). \<forall>r0 b0 sig.
    map_of (pr_signed_proposals (run_primary s)) (author h) = Some (r0, b0, sig) \<longrightarrow> r0 < round h"
  using assms set_drop_nth[of i "in_flight s"] unfolding signing_inv_def by blast

lemma signing_step_inv:
  assumes "signing_step True s s'" "signing_inv s"
  shows "signing_inv s'"
  using assms
proof (induction rule: signing_step.induct)
  case (receive nd data h s peer_ip r a evs)
  have f: "author h \<notin> set (flight_authors s)" using receive.hyps(2) by simp
  from admit_cases[OF receive.hyps(1,3)] consider
    (ended) res where "a = Ended res" "sends_signature evs \<longrightarrow> (\<exists>sig. map_of (pr_signed_proposals (run_primary s)) (author h) = Some (round h, batch_id h, sig))"
  | (go) "a = Proceed h" "evs = []"
      "\<forall>r0 b0 sig. map_of (pr_signed_proposals (run_primary s)) (author h) = Some (r0, b0, sig) \<longrightarrow> r0 < round h"
    by blast
  then show ?case
  proof cases
    case ended
    then show ?thesis using receive.prems by (fastforce simp: signing_inv_def flight_authors_def signed_header_def)
  next
    case go
    then show ?thesis
      using receive.prems f by (auto simp: signing_inv_def flight_authors_def signed_header_def sends_signature_def)
  qed
next
  case (validate i s peer_ip h nd now missing r pr)
  let ?f = "if r = Ok True then (in_flight s)[i := (Validated, peer_ip, h)] else drop_nth i (in_flight s)"
  have "map (\<lambda>(_, _, h). author h) ((in_flight s)[i := (Validated, peer_ip, h)]) = flight_authors s"
    using validate.hyps(1,2) by (auto simp: flight_authors_def list_eq_iff_nth_eq nth_list_update)
  moreover have "distinct (map (\<lambda>(_, _, h). author h) (drop_nth i (in_flight s)))"
    using validate.prems by (simp add: map_drop_nth distinct_drop_nth signing_inv_def flight_authors_def)
  ultimately have d: "distinct (map (\<lambda>(_, _, h). author h) ?f)" using validate.prems by (simp add: signing_inv_def)
  have "\<exists>st. (st, p', h') \<in> set (in_flight s)" if "(st', p', h') \<in> set ?f" for st' p' h'
    using that validate.hyps(1,2) set_drop_nth[of i "in_flight s"] nth_mem[OF validate.hyps(1)]
    by (auto split: if_splits dest!: set_update_subset_insert[THEN subsetD])
  then have "\<forall>(_, _, h)\<in>set ?f. \<forall>r0 b0 sig.
      map_of (pr_signed_proposals (run_primary s)) (author h) = Some (r0, b0, sig) \<longrightarrow> r0 < round h"
    using validate.prems unfolding signing_inv_def by fastforce
  then show ?case
    using validate.prems d validate_signed[OF validate.hyps(3)] by (simp add: signing_inv_def flight_authors_def)
next
  case (recorded i s peer_ip h nd nonce r pr evs)
  have d: "distinct (map (\<lambda>(_, _, h). author h) (in_flight s))" using recorded.prems by (simp add: signing_inv_def flight_authors_def)
  then have d': "distinct (map (\<lambda>(_, _, h). author h) (drop_nth i (in_flight s)))" by (simp add: map_drop_nth distinct_drop_nth)
  have low: "r0 < round h" if "map_of (pr_signed_proposals (run_primary s)) (author h) = Some (r0, b0, s0)" for r0 b0 s0
    using recorded.prems nth_mem[OF recorded.hyps(1)] that unfolding recorded.hyps(2) signing_inv_def by fastforce
  have fresh: "author h' \<noteq> author h" if "(st, p', h') \<in> set (drop_nth i (in_flight s))" for st p' h'
    using drop_nth_fresh[OF d recorded.hyps(1) that] recorded.hyps(2) by simp
  note sub = signing_inv_drop[OF recorded.prems, of i]
  from record_cases[OF recorded.hyps(3)] show ?case
  proof (elim disjE exE conjE)
    assume "pr = run_primary s" "evs = []"
    then show ?thesis
      using recorded.prems d' sub by (simp add: signing_inv_def flight_authors_def signed_header_def sends_signature_def)
  next
    fix sig assume *: "evs = [SendSignature peer_ip (batch_id h) sig]"
      "pr = (run_primary s)\<lparr>pr_signed_proposals := AList.update (author h) (round h, batch_id h, sig) (pr_signed_proposals (run_primary s))\<rparr>"
    have old: "r < round h" if "(author h, r, b) \<in> set (sent s)" for r b
      using recorded.prems that low unfolding signing_inv_def by fastforce
    show ?thesis
      using recorded.prems d' sub fresh old low unfolding signing_inv_def
      by (auto simp: *(2) flight_authors_def signed_header_def sends_signature_def *(1) update_conv') fastforce+
  qed
next
  case (fetch_failed i s)
  then show ?case
    using signing_inv_drop[of s i] by (simp add: signing_inv_def flight_authors_def map_drop_nth distinct_drop_nth)
qed (auto simp: signing_inv_def flight_authors_def load_proposal_cache_def shut_down_cache_def)

lemma signing_run_inv: "signing_run True s \<Longrightarrow> signing_inv s"
proof (induction rule: signing_run.induct)
  case (run_step s s')
  then show ?case by (blast intro: signing_step_inv)
qed (simp add: signing_inv_def flight_authors_def)

end
