(* ===== verification/Equivocation.thy ===== *)
theory Equivocation
  imports Signing
begin

text \<open>
  A run in which a validator signs two batches of one round for the same author, by interleaving three
  handlers of \<open>process_batch_propose_from_peer\<close>.
\<close>

section \<open>A node with a quorum of certificates in round 1\<close>

definition fork_crypto :: crypto where
  "fork_crypto = sample_crypto\<lparr>hash_bhp1024 := (\<lambda>bits. Ok (length bits mod field_modulus))\<rparr>"

definition fork_header :: "u64 \<Rightarrow> field list \<Rightarrow> batch_header" where
  "fork_header r prev = the (ok (batch_header_new MainnetV0 fork_crypto 5 (sample_key 5) r 100 7 [] prev))"

lemma fork_laws: "group_laws fork_crypto" "crypto_ranges fork_crypto"
proof -
  show "group_laws fork_crypto" using sample_group_laws by (simp add: group_laws_def fork_crypto_def)
  have "x mod field_modulus < field_modulus" for x by (simp add: field_modulus_def)
  then show "crypto_ranges fork_crypto"
    using sample_ranges by (auto simp: crypto_ranges_def valid_address_def fork_crypto_def)
qed

lemma fork_sign_ok: "is_ok (sign fork_crypto nonce key [x])"
  by (simp add: sign_def compute_key_of_private_key_def compute_key_try_from_def fork_crypto_def sample_crypto_def
      MAX_DATA_SIZE_IN_FIELDS_def Let_def)

lemma length_to_bits_le: "length (to_bits_le bs) = 8 * length bs"
  by (induction bs) (simp_all add: to_bits_le_def length_bits_le)

lemma fork_id:
  assumes "length prev < 10"
  shows "compute_batch_id fork_crypto 12 r 100 7 [] prev = Ok (704 + 256 * length prev)"
proof -
  have "write_seq (map write_field ps) = Ok (concat (map (le_bytes 32) ps))" for ps
    by (induction ps) (simp_all add: write_field_def write_uint_def)
  then have "batch_id_preimage 12 r 100 7 [] prev = Ok (le_bytes 32 12 @ le_bytes 8 r @ le_bytes 8 100 @ le_bytes 32 7 @
      le_bytes 4 0 @ le_bytes 4 (length prev) @ concat (map (le_bytes 32) prev))"
    using assms by (simp add: batch_id_preimage_def write_seq_append write_address_def write_field_def write_uint_def write_i64_def
        write_len_def)
  moreover have "length (concat (map (le_bytes 32) prev)) = 32 * length prev" by (induction prev) simp_all
  moreover have "(704 + 256 * length prev) mod field_modulus = 704 + 256 * length prev"
    using assms by (simp add: field_modulus_def)
  ultimately show ?thesis by (simp add: compute_batch_id_def fork_crypto_def length_to_bits_le)
qed

lemma fork_header_fields:
  assumes "length prev < 10" "\<forall>i\<in>set prev. i < field_modulus" "prev = [] \<longleftrightarrow> r \<le> 1" "distinct prev" "r \<le> u64_max"
  shows "valid_header MainnetV0 fork_crypto (fork_header r prev)" "author (fork_header r prev) = 12"
    "round (fork_header r prev) = r" "transmission_ids (fork_header r prev) = []" "committee_id (fork_header r prev) = 7"
    "previous_certificate_ids (fork_header r prev) = prev" "timestamp (fork_header r prev) = 100"
    "batch_id (fork_header r prev) = 704 + 256 * length prev"
proof -
  have a: "address_try_from fork_crypto (sample_key 5) = Ok 12" by (simp add: account_eval fork_crypto_def)
  obtain s where s: "sign fork_crypto 5 (sample_key 5) [704 + 256 * length prev] = Ok s"
    using fork_sign_ok[of 5 "sample_key 5"] by (auto simp: is_ok_iff)
  have new: "batch_header_new MainnetV0 fork_crypto 5 (sample_key 5) r 100 7 [] prev =
      Ok \<lparr>batch_id = 704 + 256 * length prev, author = 12, round = r, timestamp = 100, committee_id = 7,
        transmission_ids = [], previous_certificate_ids = prev, header_signature = s\<rparr>"
    using assms(1,3) a s fork_id[OF assms(1), of r]
    by (auto simp: batch_header_new_def header_checks_def mainnet_max_certificates)
  then have h: "fork_header r prev = \<lparr>batch_id = 704 + 256 * length prev, author = 12, round = r, timestamp = 100,
      committee_id = 7, transmission_ids = [], previous_certificate_ids = prev, header_signature = s\<rparr>"
    by (simp add: fork_header_def ok_def)
  show "valid_header MainnetV0 fork_crypto (fork_header r prev)"
    unfolding h by (rule batch_header_new_valid[OF fork_laws _ _ assms(5) _ _ _ _ _ assms(2,4) new])
      (simp_all add: scalar_modulus_def field_modulus_def mainnet_max_certificates u16_max_def i64_min_def i64_max_def)
  show "author (fork_header r prev) = 12" "round (fork_header r prev) = r" "transmission_ids (fork_header r prev) = []"
    "committee_id (fork_header r prev) = 7" "previous_certificate_ids (fork_header r prev) = prev"
    "timestamp (fork_header r prev) = 100" "batch_id (fork_header r prev) = 704 + 256 * length prev"
    by (simp_all add: h)
qed

text \<open>Four validators; the node is number 6, the author of the three batches number 12.  The node has a quorum of
  certificates in round 1 and is in round 2, in which it has not proposed yet.\<close>

definition fork_committee :: committee where
  "fork_committee = sample_committee\<lparr>comm_id := 7\<rparr>"

definition fork_storage :: "((nat, nat) transmission memory_service, unit) storage" where
  "fork_storage = \<lparr>current_height = 0, current_round = 2, gc_round = 0, max_gc_rounds = 100,
     rounds = [(1, [(1, 6), (2, 8), (3, 10), (4, 12)])], unprocessed_certificates = (),
     certificates = map (\<lambda>(i, a). (i, plain_certificate i a 1 [])) [(1, 6), (2, 8), (3, 10), (4, 12)],
     batch_ids = [(1, 1), (2, 1), (3, 1), (4, 1)], transmissions = memory_new\<rparr>"

definition fork_primary ::
    "signed_proposals \<Rightarrow> ((nat, nat) transmission memory_service, nat, nat, unit, nat, nat) primary" where
  "fork_primary sp = \<lparr>pr_bft = \<lparr>bft_storage = fork_storage, bft_dag = dag_new, bft_leader_certificate = None,
       leader_certificate_timer = 0,
       bft_ledger = sample_ledger\<lparr>get_committee_lookback_for_round := (\<lambda>_. Ok fork_committee)\<rparr>,
       latest_leader = None, consensus_sender = False, sent_subdags = []\<rparr>,
     has_callback = True, pr_workers = [\<lparr>worker_id = 0, w_ready = ready_new, w_pending = []\<rparr>],
     proposed_batch = None, latest_proposal_timestamp = None, pr_signed_proposals = sp\<rparr>"

definition fork_node :: "((nat, nat) transmission memory_service, nat, nat, unit, nat) node" where
  "fork_node = \<lparr>node_env = worker_env\<lparr>env_crypto := fork_crypto\<rparr>, node_vm = sample_vm, node_sha256 = (\<lambda>bs. bs),
     node_key = sample_key 2, node_address = 6, resolve_to_aleo_addr = (\<lambda>ip. Some ip),
     get_peer_ip_for_address = (\<lambda>a. Some a), is_authorized_validator_address = (\<lambda>_. True),
     is_authorized_validator_ip = (\<lambda>_. True), connected_addresses = [8, 10, 12], is_synced = True,
     node_consensus = (\<lambda>l _ _. Closed)\<rparr>"

definition forked :: "batch_header \<Rightarrow> bool" where
  "forked h \<longleftrightarrow> h \<in> {fork_header 1 [], fork_header 2 [1, 2, 3], fork_header 2 [1, 2, 3, 4]}"

lemma forked_fields:
  "forked h \<Longrightarrow> valid_header MainnetV0 fork_crypto h \<and> author h = 12 \<and> round h \<in> {1, 2} \<and> transmission_ids h = [] \<and>
     committee_id h = 7 \<and> timestamp h = 100 \<and> 704 \<le> batch_id h \<and>
     previous_certificate_ids h \<in> (if round h = 1 then {[]} else {[1, 2, 3], [1, 2, 3, 4]})"
  using fork_header_fields[of "[]" 1] fork_header_fields[of "[1, 2, 3]" 2] fork_header_fields[of "[1, 2, 3, 4]" 2]
  by (auto simp: forked_def field_modulus_def u64_max_def)

lemma fork_committee_quorum:
  "is_committee_member fork_committee 12" "comm_id fork_committee = 7" "length (members fork_committee) = 4"
  "is_quorum_threshold_reached fork_committee [6, 8, 10]" "is_quorum_threshold_reached fork_committee [6, 8, 10, 12]"
proof -
  have "is_quorum_threshold_reached fork_committee xs = is_quorum_threshold_reached sample_committee xs" for xs
    by (simp add: fork_committee_def is_quorum_threshold_reached_def quorum_threshold_def availability_threshold_def
        combined_stake_def get_stake_def)
  moreover have "is_quorum_threshold_reached sample_committee [6, 8, 10]"
    by (simp add: is_quorum_threshold_reached_def combined_stake_sum sample_committee_eval u64_max_def)
  ultimately show "is_quorum_threshold_reached fork_committee [6, 8, 10]" "is_quorum_threshold_reached fork_committee [6, 8, 10, 12]"
    using sample_quorum by blast+
qed (simp_all add: fork_committee_def is_committee_member_def sample_committee_fields sample_members_def)

lemma fork_primary_fields [simp]:
  "pr_storage (fork_primary sp) = fork_storage" "proposed_batch (fork_primary sp) = None"
  "get_committee_lookback_for_round (pr_ledger (fork_primary sp)) r = Ok fork_committee"
  "pr_signed_proposals (fork_primary sp) = sp"
  by (simp_all add: pr_storage_def fork_primary_def pr_ledger_def)

lemma fork_admit:
  assumes "forked h" "write_batch_header h = Ok bs"
    and "case map_of sp 12 of None \<Rightarrow> True | Some (r0, _, _) \<Rightarrow> r0 < round h"
  shows "deserialize_blocking (read_batch_header (env_network (node_env fork_node)) (env_crypto (node_env fork_node))) (Buffer bs) = Ok h"
    "admit_batch_propose fork_node 12 (round h) (Buffer bs) (fork_primary sp) = (Proceed h, [])"
proof -
  note f = forked_fields[OF assms(1)]
  have n: "env_network (node_env fork_node) = MainnetV0" "env_crypto (node_env fork_node) = fork_crypto"
    by (simp_all add: fork_node_def worker_env_def)
  have "read_batch_header MainnetV0 fork_crypto (bs @ []) = Ok (h, [])"
    using batch_header_bytes.read_back[OF _ assms(2)] f by blast
  then show d: "deserialize_blocking (read_batch_header (env_network (node_env fork_node)) (env_crypto (node_env fork_node))) (Buffer bs) = Ok h"
    by (simp add: deserialize_blocking_def n)
  have "\<not> contains_batch fork_storage (batch_id h)"
    using f by (auto simp: contains_batch_def fork_storage_def)
  moreover have "check_peer_proposal_timestamp fork_node (fork_primary sp) (saturating_sub (round h) 1) 12 100 = Ok ()"
    using f by (auto simp: check_peer_proposal_timestamp_def fork_node_def get_certificate_for_round_with_author_def
        fork_storage_def saturating_sub_def plain_certificate_def i64_checked_sub_def i64_min_def
        i64_max_def MIN_BATCH_DELAY_def)
  ultimately show "admit_batch_propose fork_node 12 (round h) (Buffer bs) (fork_primary sp) = (Proceed h, [])"
    using f assms(3) fork_committee_quorum(2) unfolding admit_batch_propose_def Let_def d
    by (auto simp: fork_node_def split: option.splits)
qed

lemma fork_validate:
  assumes "forked h"
  shows "validate_batch_propose fork_node 100 h [] (fork_primary sp) = (Ok True, fork_primary sp)"
proof -
  note f = forked_fields[OF assms(1)]
  have "ensure_is_signing_round (fork_primary sp) (round h) = Ok ()"
    using f by (auto simp: ensure_is_signing_round_def fork_storage_def u64_add_def)
  moreover have "check_previous_certificates (pr_env fork_node (fork_primary sp)) fork_storage h = Ok ()"
    using f fork_committee_quorum
    by (auto simp: check_previous_certificates_def pr_env_def bft_env_def fork_primary_def fork_storage_def saturating_sub_def
        contains_certificates_for_round_def check_previous_certificate_def get_certificate_def try_bind_def)
  then have "check_batch_header (pr_env fork_node (fork_primary sp)) 100 fork_storage h [] [] = Ok (Some [])"
    using f fork_committee_quorum(1)
    by (auto simp: check_batch_header_def pr_env_def bft_env_def fork_primary_def fork_storage_def fork_node_def worker_env_def
        contains_batch_def check_timestamp_for_liveness_def MAX_TIMESTAMP_DELTA_def memory_ops_def memory_find_missing_def
        find_missing_def)
  moreover have "insert_missing_transmissions_into_workers fork_node [] (fork_primary sp) = (Ok (), fork_primary sp)"
    by (simp add: insert_missing_transmissions_into_workers_def assign_to_workers_def fork_primary_def)
  moreover have "CONSENSUS_VERSION MainnetV0 1 = Ok V1"
    by (simp add: CONSENSUS_VERSION_def MainnetV0_def MAINNET_V0_CONSENSUS_VERSION_HEIGHTS_def binary_search_def u32_max_def)
  ultimately show ?thesis
    by (simp add: validate_batch_propose_def fork_node_def sample_vm_def worker_env_def less_eq_consensus_version_def)
qed

lemma fork_record:
  assumes "forked h" "case map_of sp 12 of None \<Rightarrow> True | Some (r0, _, _) \<Rightarrow> r0 \<noteq> round h"
  obtains sig where "record_signature fork_node 3 12 h (fork_primary sp) =
    (Ok (), fork_primary (AList.update 12 (round h, batch_id h, sig) sp), [SendSignature 12 (batch_id h) sig])"
proof -
  obtain sig where "sign fork_crypto 3 (sample_key 2) [batch_id h] = Ok sig" using fork_sign_ok[of 3 "sample_key 2" "batch_id h"] by (auto simp: is_ok_iff)
  then show thesis
    using that[of sig] assms(2) forked_fields[OF assms(1)]
    by (auto simp: record_signature_def fork_node_def worker_env_def fork_primary_def split: option.splits)
qed

section \<open>Interleaved handlers sign twice\<close>

text \<open>One handler from admission to signature.\<close>

definition fork_run ::
    "signed_proposals \<Rightarrow> (stage \<times> nat \<times> batch_header) list \<Rightarrow> (address \<times> u64 \<times> field) list
      \<Rightarrow> ((nat, nat) transmission memory_service, nat, nat, unit, nat, nat) run" where
  "fork_run sp fl l = \<lparr>run_primary = fork_primary sp, in_flight = fl, sent = l\<rparr>"

lemma fork_receive:
  assumes "signing_run x (fork_run sp fl l)" "forked h" "x \<longrightarrow> fl = []"
    and "case map_of sp 12 of None \<Rightarrow> True | Some (r0, _, _) \<Rightarrow> r0 < round h"
  shows "signing_run x (fork_run sp (fl @ [(Admitted, 12, h)]) l)"
proof -
  obtain bs where bs: "write_batch_header h = Ok bs"
    using batch_header_bytes.write_total forked_fields[OF assms(2)] by blast
  note a = fork_admit[OF assms(2) bs assms(4)]
  have "x \<longrightarrow> author h \<notin> set (flight_authors (fork_run sp fl l))"
    using assms(3) by (auto simp: flight_authors_def fork_run_def)
  from receive[OF a(1) this, of 12 "round h"] a(2)
  have "signing_step x (fork_run sp fl l) (fork_run sp (fl @ [(Admitted, 12, h)]) l)"
    by (simp add: fork_run_def signed_header_def sends_signature_def)
  with assms(1) show ?thesis by (rule run_step)
qed

lemma fork_sign:
  assumes "signing_run x (fork_run sp (fl @ [(Admitted, 12, h)] @ fl') l)" "forked h"
    and "case map_of sp 12 of None \<Rightarrow> True | Some (r0, _, _) \<Rightarrow> r0 \<noteq> round h"
  obtains sig where "signing_run x (fork_run (AList.update 12 (round h, batch_id h, sig) sp) (fl @ fl') (l @ [(12, round h, batch_id h)]))"
proof -
  have d: "drop_nth (length fl) (fl @ y # fl') = fl @ fl'" for y by (induction fl) simp_all
  let ?s = "fork_run sp (fl @ [(Admitted, 12, h)] @ fl') l"
  have "signing_step x ?s (fork_run sp (fl @ [(Validated, 12, h)] @ fl') l)"
    using validate[of "length fl" ?s 12 h fork_node 100 "[]" "Ok True" "fork_primary sp" x] fork_validate[OF assms(2), of sp]
    by (simp add: fork_run_def)
  then have v: "signing_run x (fork_run sp (fl @ [(Validated, 12, h)] @ fl') l)" by (rule run_step[OF assms(1)])
  obtain sig where "record_signature fork_node 3 12 h (fork_primary sp) =
      (Ok (), fork_primary (AList.update 12 (round h, batch_id h, sig) sp), [SendSignature 12 (batch_id h) sig])"
    using fork_record[OF assms(2,3)] .
  from recorded[of "length fl" "fork_run sp (fl @ [(Validated, 12, h)] @ fl') l" 12 h fork_node 3, OF _ _ _] this d
  have "signing_step x (fork_run sp (fl @ [(Validated, 12, h)] @ fl') l)
      (fork_run (AList.update 12 (round h, batch_id h, sig) sp) (fl @ fl') (l @ [(12, round h, batch_id h)]))"
    using forked_fields[OF assms(2)] by (simp add: fork_run_def signed_header_def sends_signature_def)
  then have "signing_run x (fork_run (AList.update 12 (round h, batch_id h, sig) sp) (fl @ fl') (l @ [(12, round h, batch_id h)]))"
    by (rule run_step[OF v])
  then show thesis by (rule that)
qed

section \<open>Properties\<close>

text \<open>C6. One batch per validator and round: when the proposals of a validator are handled one at a time, and
  whatever else the node does in between, restarts with the saved proposal cache included, it never sends
  signatures for two different batches of the same author and round.\<close>

theorem one_batch_per_round:
  assumes "signing_run True s" "(a, r, b) \<in> set (sent s)" "(a, r, b') \<in> set (sent s)"
  shows "b = b'"
  using signing_run_inv[OF assms(1)] assms(2,3) unfolding signing_inv_def by blast

theorem one_batch_per_round_witness:
  "\<exists>s :: ((nat, nat) transmission memory_service, nat, nat, unit, nat, nat) run.
     signing_run True s \<and> (\<exists>b. (12, 2, b) \<in> set (sent s)) \<and>
     (\<forall>b b'. (12, 2, b) \<in> set (sent s) \<longrightarrow> (12, 2, b') \<in> set (sent s) \<longrightarrow> b = b')"
proof -
  have f: "forked (fork_header 2 [1, 2, 3])" by (simp add: forked_def)
  have r: "round (fork_header 2 [1, 2, 3]) = 2"
    by (rule fork_header_fields) (simp_all add: field_modulus_def u64_max_def)
  have "signing_run True (fork_run [] [] [])" using run_start[of "fork_primary []" True] by (simp add: fork_run_def)
  from fork_receive[OF this f] have "signing_run True (fork_run [] ([] @ [(Admitted, 12, fork_header 2 [1, 2, 3])] @ []) [])" by simp
  from fork_sign[OF this f] obtain sig where
    *: "signing_run True (fork_run (AList.update 12 (2, batch_id (fork_header 2 [1, 2, 3]), sig) []) []
      [(12, 2, batch_id (fork_header 2 [1, 2, 3]))])"
    using r by auto
  then show ?thesis using one_batch_per_round[OF *] by (auto simp: fork_run_def)
qed

text \<open>C37. Interleaved handlers sign twice: there is a run of a validator, in which every step is a step of its
  handlers on well-formed batches of one author, that sends signatures for two different batches of round 2.
  While the handler of a batch of round 1 waits for its author, a batch of round 2 is signed; when the waiting
  handler resumes it replaces the recorded round 2 by round 1, and another batch of round 2 is accepted.\<close>

theorem double_signing:
  "\<exists>(s :: ((nat, nat) transmission memory_service, nat, nat, unit, nat, nat) run) b b'.
     signing_run False s \<and> b \<noteq> b' \<and> (12, 2, b) \<in> set (sent s) \<and> (12, 2, b') \<in> set (sent s)"
proof -
  let ?h1 = "fork_header 1 []" and ?h2 = "fork_header 2 [1, 2, 3]" and ?h3 = "fork_header 2 [1, 2, 3, 4]"
  have f: "forked ?h1" "forked ?h2" "forked ?h3" by (simp_all add: forked_def)
  have r: "round ?h1 = 1" "round ?h2 = 2" "round ?h3 = 2" "batch_id ?h2 = 1472" "batch_id ?h3 = 1728"
    using fork_header_fields(3,8)[of "[]" 1] fork_header_fields(3,8)[of "[1, 2, 3]" 2] fork_header_fields(3,8)[of "[1, 2, 3, 4]" 2]
    by (simp_all add: field_modulus_def u64_max_def)
  have "signing_run False (fork_run [] [] [])" using run_start[of "fork_primary []" False] by (simp add: fork_run_def)
  from fork_receive[OF this f(1)] have "signing_run False (fork_run [] [(Admitted, 12, ?h1)] [])" by simp
  from fork_receive[OF this f(2)] have "signing_run False (fork_run [] ([(Admitted, 12, ?h1)] @ [(Admitted, 12, ?h2)] @ []) [])" by simp
  from fork_sign[OF this f(2)] obtain s2 where
    "signing_run False (fork_run [(12, 2, 1472, s2)] ([] @ [(Admitted, 12, ?h1)] @ []) [(12, 2, 1472)])"
    using r by auto
  from fork_sign[OF this f(1)] obtain s1 where
    "signing_run False (fork_run [(12, 1, batch_id ?h1, s1)] [] [(12, 2, 1472), (12, 1, batch_id ?h1)])"
    using r by auto
  from fork_receive[OF this f(3)] have
    "signing_run False (fork_run [(12, 1, batch_id ?h1, s1)] ([] @ [(Admitted, 12, ?h3)] @ []) [(12, 2, 1472), (12, 1, batch_id ?h1)])"
    using r by simp
  from fork_sign[OF this f(3)] obtain s3 where
    "signing_run False (fork_run [(12, 2, 1728, s3)] [] [(12, 2, 1472), (12, 1, batch_id ?h1), (12, 2, 1728)])"
    using r by auto
  then show ?thesis by (intro exI[of _ "fork_run _ _ _"] exI[of _ "1472"] exI[of _ "1728"]) (auto simp: fork_run_def)
qed

end
