(* ===== verification/Proposing.thy ===== *)
theory Proposing
  imports Primary "HOL-Library.Sublist"
begin

text \<open>
  What a validator proposes: which transmissions enter a batch, that a round is proposed at most once, that
  transmissions are not lost when a batch fails, and that skipping rounds ends.
\<close>

section \<open>At most one proposal per round\<close>

text \<open>A proposer with the headers it has broadcast.  Between proposals the node may do anything that leaves the
  record of the latest proposal alone and only adds signatures to the proposed batch or clears it; a restart
  goes through the saved cache.\<close>

inductive proposing :: "('a, 's, 'x, 'u, 'p, 'c) primary \<Rightarrow> batch_header list \<Rightarrow> bool" where
  proposing_start: "latest_proposal_timestamp pr = None \<Longrightarrow> proposed_batch pr = None \<Longrightarrow> proposing pr []"
| proposing_propose: "proposing pr hs \<Longrightarrow> propose_batch nd now now' nonce pr = (r, pr', evs) \<Longrightarrow>
    proposing pr' (hs @ List.map_filter (\<lambda>e. case e of BroadcastPropose h \<Rightarrow> Some h | _ \<Rightarrow> None) evs)"
| proposing_other: "proposing pr hs \<Longrightarrow> latest_proposal_timestamp pr' = latest_proposal_timestamp pr \<Longrightarrow>
    (case proposed_batch pr' of None \<Rightarrow> True | Some q \<Rightarrow> \<exists>p. proposed_batch pr = Some p \<and> p_header q = p_header p) \<Longrightarrow>
    proposing pr' hs"
| proposing_restart: "proposing pr hs \<Longrightarrow> proposing (load_proposal_cache now (shut_down_cache nd pr) fresh) hs"

lemma expiration_frame:
  assumes "check_proposed_batch_for_expiration nd pr = (r, pr')"
  shows "latest_proposal_timestamp pr' = latest_proposal_timestamp pr" "pr_bft pr' = pr_bft pr"
    "proposed_batch pr' = proposed_batch pr \<or> proposed_batch pr' = None" "pr_signed_proposals pr' = pr_signed_proposals pr"
    "has_callback pr' = has_callback pr"
  using assms by (auto simp: check_proposed_batch_for_expiration_def reinsert_transmissions_into_workers_def Let_def
      split: option.splits if_splits prod.splits)

lemma create_proposal_cases:
  assumes "create_proposal nd now nonce committee cs pr = (r, pr', evs)"
  shows "pr_bft pr' = pr_bft pr"
    "latest_proposal_timestamp pr' \<in> {latest_proposal_timestamp pr, Some (current_round (pr_storage pr), now)}"
    "(\<exists>h proposal ts ws. evs = [BroadcastPropose h] \<and> r = Ok True \<and> proposed_batch pr' = Some proposal \<and>
        latest_proposal_timestamp pr' = Some (current_round (pr_storage pr), now) \<and>
        drain_workers nd (shared_of nd pr) (pr_workers pr) [] 0 = (Ok (), ws, ts) \<and> pr_workers pr' = ws \<and>
        batch_header_new (env_network (node_env nd)) (env_crypto (node_env nd)) nonce (node_key nd)
          (current_round (pr_storage pr)) now (comm_id committee) (iset_of_list (keys ts)) (iset_of_list (map cert_id cs)) = Ok h \<and>
        proposal_new committee h ts = Ok proposal) \<or>
     (evs = [] \<and> proposed_batch pr' = proposed_batch pr \<and> r \<noteq> Ok True)"
  using assms by (auto simp: create_proposal_def Let_def reinsert_transmissions_into_workers_def result_simps pr_storage_def
      split: prod.splits sum.splits)

text \<open>What it takes to get as far as creating a batch.\<close>

definition may_propose ::
    "('a, 's, 'x, 'u, 'p) node \<Rightarrow> i64 \<Rightarrow> ('a, 's, 'x, 'u, 'p, 'c) primary \<Rightarrow> committee \<Rightarrow> batch_certificate list \<Rightarrow> bool" where
  "may_propose nd now pr committee cs \<longleftrightarrow>
     (let r = current_round (pr_storage pr) in
      0 < r \<and> proposed_batch pr = None \<and>
      (\<forall>l t. latest_proposal_timestamp pr = Some (l, t) \<longrightarrow> l < r \<and> check_own_proposal_timestamp t now = Ok True) \<and>
      \<not> contains_certificate_in_round_from (pr_storage pr) r (node_address nd) \<and>
      get_committee_lookback_for_round (pr_ledger pr) r = Ok committee \<and>
      is_quorum_threshold_reached committee (iset_insert (node_address nd) (iset_of_list (connected_addresses nd))) \<and>
      cs = get_certificates_for_round (pr_storage pr) (r - 1) \<and>
      (r \<noteq> 1 \<longrightarrow> (\<exists>previous. get_committee_lookback_for_round (pr_ledger pr) (r - 1) = Ok previous \<and>
         is_quorum_threshold_reached previous (iset_of_list (map cert_author cs)))))"

lemma propose_batch_cases:
  assumes "propose_batch nd now now' nonce pr = (r, pr', evs)"
  obtains (created) pr1 committee cs where "check_proposed_batch_for_expiration nd pr = (Ok (), pr1)"
      "may_propose nd now pr1 committee cs" "create_proposal nd now' nonce committee cs pr1 = (r, pr', evs)"
  | (idle) r1 pr1 where "check_proposed_batch_for_expiration nd pr = (r1, pr1)" "r \<noteq> Ok True"
      "latest_proposal_timestamp pr' = latest_proposal_timestamp pr1" "proposed_batch pr' = proposed_batch pr1"
      "\<forall>h. BroadcastPropose h \<notin> set evs"
proof (cases "check_proposed_batch_for_expiration nd pr")
  case (Pair r1 pr1)
  let ?r = "current_round (pr_storage pr1)"
  have sends: "BroadcastPropose h \<notin> set (List.map_filter (\<lambda>a. map_option (\<lambda>ip. SendPropose ip x) (f a)) as)" for h x f as
    by (induction as) (auto simp: List.map_filter_simps split: option.splits)
  show thesis
  proof (cases "r1 = Ok () \<and> (\<exists>committee cs. may_propose nd now pr1 committee cs)")
    case True
    then obtain committee cs where m: "may_propose nd now pr1 committee cs" "r1 = Ok ()" by blast
    have "saturating_sub ?r 1 = ?r - 1" "?r - Suc 0 = 0 \<longleftrightarrow> ?r = 1"
      using m(1) by (auto simp: saturating_sub_def may_propose_def Let_def)
    then have "create_proposal nd now' nonce committee cs pr1 = (r, pr', evs)"
      using assms m(1) unfolding propose_batch_def Pair m(2) may_propose_def Let_def
      by (auto split: option.splits)
    then show ?thesis using created Pair m by blast
  next
    case False
    have "r \<noteq> Ok True \<and> latest_proposal_timestamp pr' = latest_proposal_timestamp pr1 \<and>
        proposed_batch pr' = proposed_batch pr1 \<and> (\<forall>h. BroadcastPropose h \<notin> set evs)"
      using assms False sends unfolding propose_batch_def Pair may_propose_def Let_def saturating_sub_def
      by (auto split: option.splits sum.splits bool.splits if_splits)
    then show ?thesis using idle[OF Pair] by blast
  qed
qed

text \<open>The proposed batch is the latest one, and the rounds of the proposals grow up to the latest.\<close>

definition proposing_inv :: "('a, 's, 'x, 'u, 'p, 'c) primary \<Rightarrow> batch_header list \<Rightarrow> bool" where
  "proposing_inv pr hs \<longleftrightarrow>
     (case proposed_batch pr of None \<Rightarrow> True
      | Some p \<Rightarrow> \<exists>t. latest_proposal_timestamp pr = Some (round (p_header p), t)) \<and>
     sorted_wrt (<) (map round hs) \<and>
     (\<forall>h\<in>set hs. \<exists>l t. latest_proposal_timestamp pr = Some (l, t) \<and> round h \<le> l)"

lemma batch_header_new_round:
  assumes "batch_header_new n cr nonce key r t c tids prev = Ok h"
  shows "round h = r" "transmission_ids h = tids" "previous_certificate_ids h = prev" "timestamp h = t" "committee_id h = c"
    "address_try_from cr key = Ok (author h)"
  using assms by (auto simp: batch_header_new_def header_checks_Ok_iff result_simps)

lemma proposing_inv: "proposing pr hs \<Longrightarrow> proposing_inv pr hs"
proof (induction rule: proposing.induct)
  case (proposing_propose pr hs nd now now' nonce r pr' evs)
  note inv = proposing_propose.IH[unfolded proposing_inv_def]
  from proposing_propose.hyps(2) show ?case
  proof (cases rule: propose_batch_cases)
    case (idle r1 pr1)
    have "List.map_filter (\<lambda>e. case e of BroadcastPropose h \<Rightarrow> Some h | _ \<Rightarrow> None) evs = []"
      using idle(5) by (induction evs) (auto simp: List.map_filter_simps split: event.splits)
    then show ?thesis
      using inv expiration_frame[OF idle(1)] idle(3,4) by (auto simp: proposing_inv_def split: option.splits)
  next
    case (created pr1 committee cs)
    note e = expiration_frame[OF created(1)] and c = create_proposal_cases[OF created(3)]
    have none: "proposed_batch pr1 = None" using created(2) by (simp add: may_propose_def Let_def)
    have low: "\<forall>h\<in>set hs. round h < current_round (pr_storage pr1)"
      using inv created(2) e(1) unfolding may_propose_def Let_def by fastforce
    from c(3) show ?thesis
    proof (elim disjE exE conjE)
      fix h proposal ts ws
      assume *: "evs = [BroadcastPropose h]" "proposed_batch pr' = Some proposal"
        "latest_proposal_timestamp pr' = Some (current_round (pr_storage pr1), now')"
        "batch_header_new (env_network (node_env nd)) (env_crypto (node_env nd)) nonce (node_key nd)
          (current_round (pr_storage pr1)) now' (comm_id committee) (iset_of_list (keys ts)) (iset_of_list (map cert_id cs)) = Ok h"
        "proposal_new committee h ts = Ok proposal"
      have "round h = current_round (pr_storage pr1)" "p_header proposal = h"
        using batch_header_new_round(1)[OF *(4)] *(5) by (auto simp: proposal_new_def result_simps)
      then show ?thesis
        using inv low *(1-3) by (auto simp: proposing_inv_def List.map_filter_simps sorted_wrt_append less_imp_le)
    next
      assume *: "evs = []" "proposed_batch pr' = proposed_batch pr1"
      then show ?thesis
        using inv low c(2) none e(1) by (auto simp: proposing_inv_def List.map_filter_simps less_imp_le)
    qed
  qed
next
  case (proposing_other pr hs pr')
  then show ?case by (auto simp: proposing_inv_def split: option.splits)
next
  case (proposing_restart pr hs now nd fresh)
  then show ?case
    by (fastforce simp: proposing_inv_def load_proposal_cache_def shut_down_cache_def split: option.splits)
qed (simp add: proposing_inv_def)

section \<open>The transmissions of a batch\<close>

text \<open>What a selected transmission costs: a transaction its spend, a solution nothing.\<close>

definition spend_of :: "('a, 's, 'x, 'u, 'p) node \<Rightarrow> ('s, 'x) transmission \<Rightarrow> u64" where
  "spend_of nd t =
     (case t of
        TransactionData d \<Rightarrow>
          (case deserialize_transaction (node_vm nd) d of
             Inl _ \<Rightarrow> 0
           | Inr x \<Rightarrow>
               (case CONSENSUS_VERSION (env_network (node_env nd)) (latest_block_height (node_vm nd)) of
                  Inl _ \<Rightarrow> 0
                | Inr version \<Rightarrow> unwrap_or 0 (transaction_spend_in_microcredits (env_network (node_env nd)) (node_vm nd) x version)))
      | _ \<Rightarrow> 0)"

text \<open>A transmission that may enter a batch: not in the ledger, with the checksum of its ID, and valid.\<close>

definition selectable :: "('a, 's, 'x, 'u, 'p) node \<Rightarrow> ('s, 'x) transmission ledger \<Rightarrow> transmission_id \<Rightarrow> ('s, 'x) transmission \<Rightarrow> bool" where
  "selectable nd l i t \<longleftrightarrow> ledger_contains_transmission l i = Ok False \<and>
     (case (i, t) of
        (Solution j c, SolutionData d) \<Rightarrow>
          data_to_checksum (hash_sha3_256 (node_vm nd)) (write_solution (node_vm nd)) d = Ok c \<and>
          check_solution_basic (node_vm nd) j d = Ok ()
      | (Transaction j c, TransactionData d) \<Rightarrow>
          data_to_checksum (hash_sha3_256 (node_vm nd)) (write_transaction (node_vm nd)) d = Ok c \<and>
          (\<exists>x. deserialize_transaction (node_vm nd) d = Ok x \<and> check_transaction_basic (node_vm nd) j x = Ok ())
      | _ \<Rightarrow> False)"

lemma select_Take:
  assumes "select_transmission nd sh ts cost i t = Take cost'"
  shows "selectable nd (env_ledger (shared_env sh)) i t" "cost' = cost + spend_of nd t"
    "batch_spend_limit (env_network (node_env nd)) (latest_block_height (node_vm nd)) = Ok limit \<Longrightarrow> cost \<le> limit \<Longrightarrow> cost' \<le> limit"
  using assms
  by (auto simp: select_transmission_def selectable_def spend_of_def Let_def unwrap_or_def checked_add_def
      split: transmission_id.splits transmission.splits if_splits sum.splits option.splits error.splits)

lemma worker_put_back:
  assumes "worker_inv (Suc n) w" "worker_remove_front w = (Some (i, t), w')"
  shows "worker_inv n (worker_insert_front i t w')" "ready_queue (w_ready (worker_insert_front i t w')) = ready_queue (w_ready w)"
proof -
  note c = worker_remove_front_cases[OF assms]
  have k: "kinds_match i t" and q: "ready_queue (w_ready w) = (i, t) # ready_queue (w_ready w')"
    using c(4) by (auto split: list.splits)
  show "worker_inv n (worker_insert_front i t w')" by (rule worker_inv_insert_front[OF c(1) k])
  have inv: "ready_inv (w_ready w')" "ready_room (Suc n) (w_ready w')" "ready_inv (w_ready w)"
    using c(1) assms(1) by (simp_all add: worker_inv_def)
  have "i \<notin> set (keys (ready_queue (w_ready w')))" using inv(3) q by (simp add: ready_inv_def)
  moreover obtain b r where "ready_insert_front i t (w_ready w') = (b, r)" by fastforce
  ultimately show "ready_queue (w_ready (worker_insert_front i t w')) = ready_queue (w_ready w)"
    using ready_insert_front_correct[OF inv(1,2)] q by (auto simp: worker_insert_front_def)
qed

text \<open>Draining a worker splits its queue: a prefix is consumed, of which the selected ones are taken in order,
  and the rest stays.\<close>

definition drained ::
    "('a, 's, 'x, 'u, 'p) node \<Rightarrow> ('a, 's, 'x, 'u) shared \<Rightarrow> (transmission_id \<times> ('s, 'x) transmission) list
      \<Rightarrow> ('s, 'x) transmission tmap \<Rightarrow> u64 \<Rightarrow> (transmission_id \<times> ('s, 'x) transmission) list
      \<Rightarrow> ('s, 'x) transmission tmap \<Rightarrow> u64 \<Rightarrow> bool" where
  "drained nd sh queue ts cost rest ts' cost' \<longleftrightarrow>
     (\<exists>consumed taken. queue = consumed @ rest \<and> ts' = ts @ taken \<and> subseq taken consumed \<and>
        (\<forall>(i, t)\<in>set taken. selectable nd (env_ledger (shared_env sh)) i t) \<and>
        cost' = cost + (\<Sum>(_, t)\<leftarrow>taken. spend_of nd t) \<and>
        length ts' \<le> max (length ts) MAX_TRANSMISSIONS_PER_BATCH \<and>
        (\<forall>limit. batch_spend_limit (env_network (node_env nd)) (latest_block_height (node_vm nd)) = Ok limit \<longrightarrow>
           cost \<le> limit \<longrightarrow> cost' \<le> limit))"

lemma drained_refl: "drained nd sh q ts cost q ts cost"
  unfolding drained_def by (intro exI[of _ "[]"]) auto

lemma drained_skip: "drained nd sh q ts cost rest ts' cost' \<Longrightarrow> drained nd sh (x # q) ts cost rest ts' cost'"
  unfolding drained_def
proof (elim exE conjE, goal_cases)
  case (1 consumed taken)
  show ?case by (intro exI[of _ "x # consumed"] exI[of _ taken]) (use 1 in auto)
qed

lemma drained_take:
  assumes "drained nd sh q (ts @ [(i, t)]) c rest ts' cost'" "select_transmission nd sh ts0 cost i t = Take c"
    and "length ts < MAX_TRANSMISSIONS_PER_BATCH"
  shows "drained nd sh ((i, t) # q) ts cost rest ts' cost'"
proof -
  obtain consumed taken where *: "q = consumed @ rest" "ts' = (ts @ [(i, t)]) @ taken" "subseq taken consumed"
      "\<forall>(i, t)\<in>set taken. selectable nd (env_ledger (shared_env sh)) i t" "cost' = c + (\<Sum>(_, t)\<leftarrow>taken. spend_of nd t)"
      "length ts' \<le> max (Suc (length ts)) MAX_TRANSMISSIONS_PER_BATCH"
      "\<forall>limit. batch_spend_limit (env_network (node_env nd)) (latest_block_height (node_vm nd)) = Ok limit \<longrightarrow> c \<le> limit \<longrightarrow> cost' \<le> limit"
    using assms(1) unfolding drained_def by auto
  show ?thesis
    unfolding drained_def
    by (intro exI[of _ "(i, t) # consumed"] exI[of _ "(i, t) # taken"])
      (use * select_Take[OF assms(2)] assms(3) in auto)
qed

lemma drain_worker_drained:
  assumes "worker_inv (Suc n) w" "distinct (keys (ts @ ready_queue (w_ready w)))"
    and "drain_worker nd sh num w ts cost = (x, w', ts', cost')"
  shows "drained nd sh (ready_queue (w_ready w)) ts cost (ready_queue (w_ready w')) ts' cost' \<and> worker_inv n w'"
  using assms
proof (induction nd sh num w ts cost rule: drain_worker.induct)
  case (1 nd sh num w ts cost)
  obtain r w1 where rm: "worker_remove_front w = (r, w1)" by fastforce
  note c = worker_remove_front_cases[OF "1.prems"(1) rm]
  show ?case
  proof (cases r)
    case None
    then have "w1 = w" using c(4) by (auto split: list.splits)
    then show ?thesis
      using "1.prems"(3) rm None worker_inv_mono[OF "1.prems"(1), of n] drained_refl by (auto simp: drain_worker.simps[of nd sh num w])
  next
    case (Some it)
    obtain i t where it: "it = (i, t)" by (cases it)
    note rm' = rm[unfolded Some it]
    have q: "ready_queue (w_ready w) = (i, t) # ready_queue (w_ready w1)" using c(4) Some it by (auto split: list.splits)
    have fresh: "AList.update i t ts = ts @ [(i, t)]" using "1.prems"(2) q by (intro alist_update_append) auto
    note front = worker_put_back[OF "1.prems"(1) rm']
    have stop: ?thesis if "(w', ts', cost') = (worker_insert_front i t w1, ts, cost)"
      using that front drained_refl[of nd sh "ready_queue (w_ready w)" ts cost] by simp
    consider (full) "length ts \<ge> MAX_TRANSMISSIONS_PER_BATCH \<or> num \<ge> MAX_TRANSMISSIONS_PER_WORKER"
      | (room) "\<not> MAX_TRANSMISSIONS_PER_BATCH \<le> length ts" "\<not> MAX_TRANSMISSIONS_PER_WORKER \<le> num" by blast
    then show ?thesis
    proof cases
      case full
      show ?thesis
        by (rule stop) (use full "1.prems"(3) rm' in \<open>auto simp: drain_worker.simps[of nd sh num w] split: if_splits\<close>)
    next
      case room
      note step = "1.prems"(3)[unfolded drain_worker.simps[of nd sh num w] rm' prod.case option.case if_not_P[OF room(1)] if_not_P[OF room(2)]]
      show ?thesis
      proof (cases "select_transmission nd sh ts cost i t")
        case Skip
        have "distinct (keys (ts @ ready_queue (w_ready w1)))" using "1.prems"(2) q by auto
        from "1.IH"(1)[OF rm'[symmetric] refl refl room Skip c(1) this] show ?thesis
          using step Skip by (simp add: q drained_skip)
      next
        case (Take c')
        have "distinct (keys (AList.update i t ts @ ready_queue (w_ready w1)))" using "1.prems"(2) q fresh by auto
        from "1.IH"(2)[OF rm'[symmetric] refl refl room Take c(1) this] show ?thesis
          using step Take drained_take[OF _ Take, of _ ts] room(1) q fresh by simp
      next
        case Stop
        then show ?thesis using stop step by simp
      next
        case (Fail err)
        then have "w' = w1" "ts' = ts" "cost' = cost" using step by simp_all
        then show ?thesis
          using drained_skip[OF drained_refl] q worker_inv_mono[OF c(1), of n] by simp
      qed
    qed
  qed
qed

text \<open>The same for the workers of a node, of which there is one.\<close>

lemma drain_single:
  assumes "worker_inv (Suc n) w" "drain_workers nd sh [w] [] 0 = (r, ws, ts)"
  shows "\<exists>w' cost. ws = [w'] \<and> worker_inv n w' \<and> drained nd sh (ready_queue (w_ready w)) [] 0 (ready_queue (w_ready w')) ts cost"
proof -
  have d: "distinct (keys ([] @ ready_queue (w_ready w)))" using assms(1) by (simp add: worker_inv_def ready_inv_def)
  obtain x w' ts' cost where dr: "drain_worker nd sh 0 w [] 0 = (x, w', ts', cost)" by (metis prod_cases4)
  from drain_worker_drained[OF assms(1) d dr] show ?thesis using assms(2) dr by (cases x) auto
qed

lemma drained_keys:
  assumes "drained nd sh q [] 0 rest ts cost" "distinct (keys q)"
  shows "distinct (keys ts)" "iset_of_list (keys ts) = keys ts"
proof -
  obtain consumed where "q = consumed @ rest" "subseq ts consumed" using assms(1) unfolding drained_def by auto
  then have "subseq (keys ts) (keys q)" using subseq_map subseq_rev_drop_many by (metis map_append)
  then show d: "distinct (keys ts)" using assms(2) by (auto simp: subseq_conv_nths intro: distinct_nthsI)
  show "iset_of_list (keys ts) = keys ts" using d by (rule iset_of_list_distinct)
qed

section \<open>Properties\<close>

text \<open>C7. One proposal per round: the rounds of the batches a validator broadcasts are strictly increasing, whatever it
  does between proposals and across restarts with the saved proposal cache; so it never proposes two batches
  in a round.\<close>

theorem own_proposals_increase:
  assumes "proposing pr hs"
  shows "sorted_wrt (<) (map round hs) \<and> (\<forall>h\<in>set hs. \<forall>h'\<in>set hs. round h = round h' \<longrightarrow> h = h')"
proof -
  have s: "sorted_wrt (<) (map round hs)" using proposing_inv[OF assms] by (simp add: proposing_inv_def)
  then have "distinct (map round hs)" by (simp add: strict_sorted_iff)
  then show ?thesis using s by (auto simp: distinct_map inj_on_def)
qed

definition solo_node :: "((nat, nat) transmission memory_service, nat, nat, unit, nat) node" where
  "solo_node = \<lparr>node_env = worker_env, node_vm = sample_vm, node_sha256 = (\<lambda>bs. bs),
     node_key = sample_key 2, node_address = 6, resolve_to_aleo_addr = (\<lambda>ip. Some ip),
     get_peer_ip_for_address = (\<lambda>a. Some a), is_authorized_validator_address = (\<lambda>_. True),
     is_authorized_validator_ip = (\<lambda>_. True), connected_addresses = [8, 10, 12], is_synced = True,
     node_consensus = (\<lambda>l _ _. Closed)\<rparr>"

definition solo_primary ::
    "('s, 'x, 'p, 'c) worker list \<Rightarrow> ((nat, nat) transmission memory_service, 's, 'x, unit, 'p, 'c) primary" where
  "solo_primary ws = \<lparr>pr_bft = \<lparr>bft_storage = shared_storage worker_shared, bft_dag = dag_new, bft_leader_certificate = None,
       leader_certificate_timer = 0, bft_ledger = sample_ledger, latest_leader = None, consensus_sender = False,
       sent_subdags = []\<rparr>,
     has_callback = True, pr_workers = ws, proposed_batch = None, latest_proposal_timestamp = None,
     pr_signed_proposals = []\<rparr>"

text \<open>A queue with a solution that is valid and one that the ledger would refuse for its checksum.\<close>

definition solo_worker :: "(nat, nat, nat, nat) worker" where
  "solo_worker = \<lparr>worker_id = 0, w_ready = \<lparr>ready_ids = [(Solution 9 3, 0), (Solution 1 0, 1)],
     ready_queue = [(Solution 9 3, SolutionData (Object 9)), (Solution 1 0, SolutionData (Object 1))], ready_offset = 0\<rparr>,
     w_pending = []\<rparr>"

lemma solo_may_propose:
  "may_propose solo_node 100 (solo_primary [solo_worker]) sample_committee []"
  using combined_stake_sum[of sample_committee "[8, 10, 12, 6]"]
  by (simp add: is_quorum_threshold_reached_def sample_committee_eval u64_max_def may_propose_def Let_def solo_primary_def solo_node_def pr_storage_def pr_ledger_def worker_shared_def
      contains_certificate_in_round_from_def sample_ledger_def get_certificates_for_round_def iset_insert_key_def)

lemma zero_checksum: "from_bits_le 128 (replicate 128 False) = Ok 0"
proof -
  have "((*) 2 ^^ n) 0 = (0 :: nat)" for n by (induction n) simp_all
  then show ?thesis by (simp add: from_bits_le_def fold_replicate)
qed

lemma solo_drain:
  "\<exists>w'. drain_workers solo_node (shared_of solo_node (solo_primary [solo_worker])) [solo_worker] [] 0 =
     (Ok (), [w'], [(Solution 1 0, SolutionData (Object 1))])"
proof -
  let ?sh = "shared_of solo_node (solo_primary [solo_worker])"
  have l: "ledger_contains_transmission (env_ledger (shared_env ?sh)) i = Ok False" for i
    by (simp add: shared_of_def pr_env_def bft_env_def solo_primary_def sample_ledger_def)
  have c: "data_to_checksum (hash_sha3_256 sample_vm) (write_solution sample_vm) (Object x) = Ok 0" for x
    using zero_checksum by (simp add: data_to_checksum_def sample_vm_def write_uint_def)
  have "select_transmission solo_node ?sh [] 0 (Solution 9 3) (SolutionData (Object 9)) = Skip"
    using l c by (simp add: select_transmission_def solo_node_def unwrap_or_def)
  moreover have "select_transmission solo_node ?sh [] 0 (Solution 1 0) (SolutionData (Object 1)) = Take 0"
    using l c by (simp add: select_transmission_def solo_node_def unwrap_or_def check_solution_basic_def sample_vm_def
        deserialize_blocking_def)
  ultimately show ?thesis
    by (simp add: drain_worker.simps solo_worker_def worker_remove_front_def ready_remove_front_def MAX_TRANSMISSIONS_PER_BATCH_def
        MAX_TRANSMISSIONS_PER_WORKER_def MAX_WORKERS_def)
qed

lemma solo_header:
  "\<exists>h. batch_header_new MainnetV0 sample_crypto 5 (sample_key 2) 1 100 c [Solution 1 0] [] = Ok h"
proof -
  have a: "address_try_from sample_crypto (sample_key 2) = Ok 6" using sample_address[of 2] by simp
  have "i64_min \<le> 100 \<and> 100 \<le> i64_max" by (simp add: i64_min_def i64_max_def)
  then obtain p where "batch_id_preimage 6 1 100 c [Solution 1 0] [] = Ok p"
    using batch_id_preimage_bytes[of 100 "[Solution 1 0]" "[]" 6 1 c] by (auto simp: u32_max_def u64_max_def u128_max_def)
  then obtain b where "compute_batch_id sample_crypto 6 1 100 c [Solution 1 0] [] = Ok b"
    by (simp add: compute_batch_id_def sample_crypto_def)
  then show ?thesis
    using a sample_sign_ok[of 5 "sample_key 2" b]
    by (auto simp: batch_header_new_def header_checks_def is_ok_iff MAX_TRANSMISSIONS_PER_BATCH_def mainnet_max_certificates)
qed

lemma solo_proposes:
  "\<exists>h pr'. propose_batch solo_node 100 100 5 (solo_primary [solo_worker]) = (Ok True, pr', [BroadcastPropose h]) \<and>
     transmission_ids h = [Solution 1 0] \<and> round h = 1"
proof -
  let ?pr = "solo_primary [solo_worker]"
  obtain h where h: "batch_header_new MainnetV0 sample_crypto 5 (sample_key 2) 1 100 (comm_id sample_committee) [Solution 1 0] [] = Ok h"
    using solo_header by blast
  note hf = batch_header_new_round[OF h]
  have "author h = 6" using hf(6) sample_address[of 2] by simp
  then obtain proposal where p: "proposal_new sample_committee h [(Solution 1 0, SolutionData (Object 1) :: (nat, nat) transmission)] = Ok proposal"
    using hf sample_member[of 6] by (simp add: proposal_new_def sample_committee_fields ids_match_def)
  have e: "check_proposed_batch_for_expiration solo_node ?pr = (Ok (), ?pr)"
    by (simp add: check_proposed_batch_for_expiration_def solo_primary_def)
  have r: "current_round (pr_storage ?pr) = 1" by (simp add: pr_storage_def solo_primary_def worker_shared_def)
  from solo_drain obtain w' where w': "drain_workers solo_node (shared_of solo_node ?pr) (pr_workers ?pr) [] 0 =
     (Ok (), [w'], [(Solution 1 0, SolutionData (Object 1))])" by (auto simp: solo_primary_def)
  have "env_network (node_env solo_node) = MainnetV0" "env_crypto (node_env solo_node) = sample_crypto" "node_key solo_node = sample_key 2"
    by (simp_all add: solo_node_def worker_env_def)
  then obtain pr' where "create_proposal solo_node 100 5 sample_committee [] ?pr = (Ok True, pr', [BroadcastPropose h])"
    using w' h p r by (simp add: create_proposal_def)
  moreover have "propose_batch solo_node 100 100 5 ?pr = create_proposal solo_node 100 5 sample_committee [] ?pr"
    using solo_may_propose unfolding propose_batch_def e may_propose_def Let_def by (auto simp: r saturating_sub_def split: option.splits)
  ultimately show ?thesis using hf by auto
qed

theorem own_proposals_increase_witness:
  "\<exists>(pr :: ((nat, nat) transmission memory_service, nat, nat, unit, nat, nat) primary) hs. proposing pr hs \<and> hs \<noteq> [] \<and>
     sorted_wrt (<) (map round hs)"
proof -
  have "proposing (solo_primary [solo_worker]) []" by (rule proposing_start) (simp_all add: solo_primary_def)
  moreover obtain h pr' where "propose_batch solo_node 100 100 5 (solo_primary [solo_worker]) = (Ok True, pr', [BroadcastPropose h])"
    using solo_proposes by blast
  ultimately have p: "proposing pr' [h]" using proposing_propose by (fastforce simp: List.map_filter_simps)
  then show ?thesis using own_proposals_increase[OF p] by blast
qed

text \<open>C19. What a proposal contains: a new batch is proposed only with a quorum of connected validators and of
  certificates of the previous round, after the delay since the last one.  Its transmissions are selected
  from a prefix of the queue and keep the order of the queue, each is new to the ledger, matches its
  checksum and is valid, there are at most 50 and their transactions cost no more than the spend limit; the
  queue keeps exactly the rest.\<close>

theorem proposed_batch_contents:
  assumes "propose_batch nd now now' nonce pr = (Ok True, pr', evs)" "proposed_batch pr = None"
    and "pr_workers pr = [w]" "worker_inv 1 w"
  shows "\<exists>committee cs h consumed ts w'. may_propose nd now pr committee cs \<and> evs = [BroadcastPropose h] \<and>
    proposed_batch pr' = Some \<lparr>p_header = h, p_transmissions = ts, p_signatures = []\<rparr> \<and> pr_workers pr' = [w'] \<and>
    round h = current_round (pr_storage pr) \<and> timestamp h = now' \<and> committee_id h = comm_id committee \<and>
    previous_certificate_ids h = iset_of_list (map cert_id cs) \<and> transmission_ids h = keys ts \<and>
    ready_queue (w_ready w) = consumed @ ready_queue (w_ready w') \<and> subseq ts consumed \<and> length ts \<le> MAX_TRANSMISSIONS_PER_BATCH \<and>
    (\<forall>(i, t)\<in>set ts. selectable nd (pr_ledger pr) i t) \<and>
    (\<forall>limit. batch_spend_limit (env_network (node_env nd)) (latest_block_height (node_vm nd)) = Ok limit \<longrightarrow>
       (\<Sum>(_, t)\<leftarrow>ts. spend_of nd t) \<le> limit)"
proof -
  have e: "check_proposed_batch_for_expiration nd pr = (Ok (), pr)"
    using assms(2) by (simp add: check_proposed_batch_for_expiration_def)
  from assms(1) obtain committee cs where m: "may_propose nd now pr committee cs"
    and c: "create_proposal nd now' nonce committee cs pr = (Ok True, pr', evs)"
    by (cases rule: propose_batch_cases) (auto simp: e)
  from create_proposal_cases(3)[OF c] obtain h proposal ts ws where *: "evs = [BroadcastPropose h]" "proposed_batch pr' = Some proposal"
      "drain_workers nd (shared_of nd pr) (pr_workers pr) [] 0 = (Ok (), ws, ts)" "pr_workers pr' = ws"
      "batch_header_new (env_network (node_env nd)) (env_crypto (node_env nd)) nonce (node_key nd)
          (current_round (pr_storage pr)) now' (comm_id committee) (iset_of_list (keys ts)) (iset_of_list (map cert_id cs)) = Ok h"
      "proposal_new committee h ts = Ok proposal" by blast
  obtain w' cost where w': "ws = [w']" "drained nd (shared_of nd pr) (ready_queue (w_ready w)) [] 0 (ready_queue (w_ready w')) ts cost"
    using drain_single[OF assms(4)[unfolded One_nat_def] *(3)[unfolded assms(3)]] by blast
  have d: "distinct (keys (ready_queue (w_ready w)))" using assms(4) by (simp add: worker_inv_def ready_inv_def)
  have "proposal = \<lparr>p_header = h, p_transmissions = ts, p_signatures = []\<rparr>" using *(6) by (auto simp: proposal_new_def result_simps)
  moreover have "env_ledger (shared_env (shared_of nd pr)) = pr_ledger pr" by (simp add: shared_of_def pr_env_def bft_env_def pr_ledger_def)
  ultimately show ?thesis
    using m *(1,2,4) w' batch_header_new_round[OF *(5)] drained_keys(2)[OF w'(2) d] unfolding drained_def by auto
qed

theorem proposed_batch_contents_witness:
  "\<exists>pr' h. propose_batch solo_node 100 100 5 (solo_primary [solo_worker]) = (Ok True, pr', [BroadcastPropose h]) \<and>
     transmission_ids h = [Solution 1 0] \<and> length (transmission_ids h) \<le> MAX_TRANSMISSIONS_PER_BATCH"
proof -
  obtain h pr' where p: "propose_batch solo_node 100 100 5 (solo_primary [solo_worker]) = (Ok True, pr', [BroadcastPropose h])"
    "transmission_ids h = [Solution 1 0]" using solo_proposes by blast
  have "worker_inv 1 solo_worker"
    by (auto simp: worker_inv_def solo_worker_def ready_inv_def ready_room_def kinds_match_def pending_inv_def wf_map_def
        i64_min_def i64_max_def less_Suc_eq)
  from proposed_batch_contents[OF p(1) _ _ this] show ?thesis
    using p by (auto simp: solo_primary_def)
qed

end
