(* ===== verification/Certifying.thy ===== *)
theory Certifying
  imports Proposing
begin

text \<open>
  How a round ends for a validator: its batch is certified, or it expires and its transmissions return to the
  queue, and the primary catches up with rounds it has missed.
\<close>

section \<open>Skipping rounds\<close>

lemma increment_grows:
  assumes "increment_to_next_round e r st = (Ok nxt, st')" "r < u64_max" "current_committee (env_ledger e) = Ok c"
    and "starting_round c \<le> latest_round (env_ledger e)"
  shows "r < nxt" "nxt \<le> current_round st'" "current_round st \<le> current_round st'"
  using assms by (auto simp: increment_to_next_round_def Let_def u64_add_def u64_max_def ensure_def sync_round_with_block_def
      split: if_splits)

lemma increment_monotone: "increment_to_next_round e r st = (res, st') \<Longrightarrow> current_round st \<le> current_round st'"
  by (auto simp: increment_to_next_round_def Let_def sync_round_with_block_def split: if_splits sum.splits)

lemma pr_frame [simp]:
  "pr_storage (set_storage st pr) = st" "pr_ledger (set_storage st pr) = pr_ledger pr" "pr_env nd (set_storage st pr) = pr_env nd pr"
  "pr_storage (pr\<lparr>proposed_batch := b\<rparr>) = pr_storage pr" "pr_ledger (pr\<lparr>proposed_batch := b\<rparr>) = pr_ledger pr"
  "pr_env nd (pr\<lparr>proposed_batch := b\<rparr>) = pr_env nd pr" "env_ledger (pr_env nd pr) = pr_ledger pr"
  "has_callback (set_storage st pr) = has_callback pr" "pr_workers (set_storage st pr) = pr_workers pr"
  "proposed_batch (set_storage st pr) = proposed_batch pr"
  by (simp_all add: pr_storage_def set_storage_def pr_ledger_def pr_env_def bft_env_def)

lemma fast_forward_ends:
  assumes "current_committee (pr_ledger pr) = Ok c" "starting_round c \<le> latest_round (pr_ledger pr)"
    and "target \<le> u64_max" "r \<le> current_round (pr_storage pr)"
  shows "\<exists>res pr'. fast_forward nd target r pr = Some (res, pr') \<and> pr_ledger pr' = pr_ledger pr \<and> pr_workers pr' = pr_workers pr \<and>
    current_round (pr_storage pr) \<le> current_round (pr_storage pr') \<and>
    (res = Ok () \<longrightarrow> target \<le> current_round (pr_storage pr')) \<and> (r < target \<and> res = Ok () \<longrightarrow> proposed_batch pr' = None)"
  using assms
proof (induction "target - r" arbitrary: r pr rule: less_induct)
  case less
  show ?case
  proof (cases "r < target")
    case False
    then show ?thesis using less.prems by (simp add: fast_forward.simps)
  next
    case True
    obtain res st where inc: "increment_to_next_round (pr_env nd pr) r (pr_storage pr) = (res, st)" by fastforce
    note mono = increment_monotone[OF inc]
    show ?thesis
    proof (cases res)
      case (Inl err)
      then show ?thesis using True inc mono by (simp add: fast_forward.simps[of nd target r])
    next
      case (Inr nxt)
      let ?pr = "(set_storage st pr)\<lparr>proposed_batch := None\<rparr>"
      have g: "r < nxt" "nxt \<le> current_round st"
        using increment_grows[of "pr_env nd pr" r "pr_storage pr" "nxt" st c] inc Inr less.prems True by simp_all
      have "target - nxt < target - r" using g(1) True by linarith
      from less.hyps[OF this, of ?pr] less.prems g(2) obtain res' pr' where
        *: "fast_forward nd target nxt ?pr = Some (res', pr')" "pr_ledger pr' = pr_ledger pr" "pr_workers pr' = pr_workers pr"
          "current_round st \<le> current_round (pr_storage pr')" "res' = Ok () \<longrightarrow> target \<le> current_round (pr_storage pr')"
          "nxt < target \<and> res' = Ok () \<longrightarrow> proposed_batch pr' = None"
        by auto
      have "proposed_batch pr' = None" if "res' = Ok ()"
      proof (cases "nxt < target")
        case False
        then show ?thesis using *(1) by (auto simp: fast_forward.simps)
      qed (use * that in simp)
      then show ?thesis using * True inc Inr mono by (simp add: fast_forward.simps[of nd target r])
    qed
  qed
qed

lemma advance_monotone: "try_advance_to_next_round e now r s = (b, s') \<Longrightarrow> current_round (bft_storage s) \<le> current_round (bft_storage s')"
proof -
  assume a: "try_advance_to_next_round e now r s = (b, s')"
  have f: "bft_storage s1 = bft_storage s" if "update_leader_certificate_to_even_round e now r s = (x, s1)" for x s1
    using that leader_of_round_frame(1)[of e _ r s]
    by (auto simp: update_leader_certificate_to_even_round_def Let_def split: if_splits sum.splits prod.splits)
  show ?thesis
    using a f increment_monotone by (auto simp: try_advance_to_next_round_def Let_def split: if_splits prod.splits sum.splits)
qed

section \<open>Returning transmissions\<close>

text \<open>After reinsertion into one worker every transmission is known again, and the queue only grew.\<close>

lemma contains_reinsert:
  "worker_contains_transmission sh (snd (reinsert sh i t w)) i"
  "worker_contains_transmission sh w j \<Longrightarrow> worker_contains_transmission sh (snd (reinsert sh i t w)) j"
  "prefix (ready_queue (w_ready w)) (ready_queue (w_ready (snd (reinsert sh i t w))))"
proof -
  have k: "set (keys (AList.update i x m)) = insert i (set (keys m))" for x and m :: "(transmission_id, i64) imap"
    by (simp add: dom_map_of_conv_image_fst[symmetric] update_conv')
  show "worker_contains_transmission sh (snd (reinsert sh i t w)) i"
    "worker_contains_transmission sh w j \<Longrightarrow> worker_contains_transmission sh (snd (reinsert sh i t w)) j"
    "prefix (ready_queue (w_ready w)) (ready_queue (w_ready (snd (reinsert sh i t w))))"
    by (auto simp: reinsert_def worker_contains_transmission_def ready_insert_def ready_contains_def k split: prod.splits if_splits
        simp del: set_map)
qed

lemma reinsert_single:
  "assign_each sha (Suc 0) (\<lambda>i t w. snd (reinsert sh i t w)) ts [w] = (r, ws) \<Longrightarrow>
   r = Ok () \<and> (\<exists>w'. ws = [w'] \<and> prefix (ready_queue (w_ready w)) (ready_queue (w_ready w')) \<and>
     (\<forall>j. worker_contains_transmission sh w j \<longrightarrow> worker_contains_transmission sh w' j) \<and>
     (\<forall>i\<in>set (keys ts). worker_contains_transmission sh w' i))"
proof (induction ts arbitrary: w)
  case (Cons it ts)
  obtain i t where it: "it = (i, t)" by (cases it)
  let ?w = "snd (reinsert sh i t w)"
  have "assign_each sha (Suc 0) (\<lambda>i t w. snd (reinsert sh i t w)) ts [?w] = (r, ws)"
    using Cons.prems it by (simp add: assign_to_worker_def)
  from Cons.IH[OF this] show ?case
    using contains_reinsert[where sh = sh and i = i and t = t and w = w] it by (auto intro: prefix_order.trans)
qed auto

lemma reinsert_transmissions_single:
  assumes "reinsert_transmissions_into_workers nd ts pr = (r, pr')" "pr_workers pr = [w]"
  shows "r = Ok () \<and> pr_bft pr' = pr_bft pr \<and> proposed_batch pr' = proposed_batch pr \<and>
    (\<exists>w'. pr_workers pr' = [w'] \<and> prefix (ready_queue (w_ready w)) (ready_queue (w_ready w')) \<and>
      (\<forall>i\<in>set (keys ts). worker_contains_transmission (shared_of nd pr') w' i))"
proof -
  obtain ws where ws: "assign_each (node_sha256 nd) (Suc 0) (\<lambda>i t w. snd (reinsert (shared_of nd pr) i t w)) ts [w] = (r, ws)"
    "pr' = pr\<lparr>pr_workers := ws\<rparr>"
    using assms by (auto simp: reinsert_transmissions_into_workers_def assign_to_workers_def Let_def split: prod.splits)
  moreover have "shared_of nd pr' = shared_of nd pr" by (simp add: ws(2) shared_of_def pr_env_def pr_storage_def)
  ultimately show ?thesis using reinsert_single[OF ws(1)] by auto
qed

section \<open>From signatures to a certificate\<close>

lemma store_certificate_frame:
  assumes "store_certificate nd now c ts pr = Some (r, pr')"
  shows "proposed_batch pr' = proposed_batch pr" "pr_workers pr' = pr_workers pr"
  using assms by (auto simp: store_certificate_def set_storage_def Let_def split: sum.splits if_splits)

lemma store_certificate_returns: "\<not> has_callback pr \<Longrightarrow> store_certificate nd now c ts pr \<noteq> None"
  by (auto simp: store_certificate_def Let_def split: sum.splits)

lemma add_batch_signature_cases:
  assumes "add_batch_signature nd peer_ip bid s pr = (r, pr')" "proposed_batch pr = Some p"
    and "get_committee_lookback_for_round (pr_ledger pr) (round (p_header p)) = Ok cm"
    and "proposal_reachable n (env_crypto (node_env nd)) cm p"
  obtains (open_batch) p' where "\<forall>q. r \<noteq> Ok (Some q)" "proposed_batch pr' = Some p'" "proposal_reachable n (env_crypto (node_env nd)) cm p'"
      "p_header p' = p_header p" "p_transmissions p' = p_transmissions p"
  | (taken) p' where "r = Ok (Some p')" "pr' = pr\<lparr>proposed_batch := None\<rparr>" "bid = batch_id (p_header p)"
      "proposal_reachable n (env_crypto (node_env nd)) cm p'" "p_header p' = p_header p" "p_transmissions p' = p_transmissions p"
proof (cases "batch_id (p_header p) = bid \<and> (\<exists>a q. resolve_to_aleo_addr nd peer_ip = Some a \<and> add_signature (env_crypto (node_env nd)) a s cm p = Ok q)")
  case False
  then have "pr' = pr" "\<forall>q. r \<noteq> Ok (Some q)"
    using assms(1-3) by (auto simp: add_batch_signature_def Let_def split: if_splits option.splits sum.splits)
  then show thesis using open_batch assms by blast
next
  case True
  then obtain a b p' where a: "batch_id (p_header p) = bid" "resolve_to_aleo_addr nd peer_ip = Some a"
    "add_signature (env_crypto (node_env nd)) a s cm p = Ok (b, p')" by auto
  have f: "p_header p' = p_header p" "p_transmissions p' = p_transmissions p"
    using a(3) by (auto elim!: add_signature_cases)
  note re = signed[OF assms(4) a(3)]
  show thesis
  proof (cases "b \<and> proposal_quorum (env_crypto (node_env nd)) p' cm")
    case True
    then show thesis using assms(1-3) a f re by (intro taken[of p']) (auto simp: add_batch_signature_def)
  next
    case False
    then show thesis using assms(1-3) a f re by (intro open_batch[of p']) (auto simp: add_batch_signature_def split: if_splits)
  qed
qed

text \<open>What becomes of a proposed batch when a signature arrives: it is still proposed, with the same header; or it
  is certified; or its transmissions are back with the worker.\<close>

definition batch_kept :: "network \<Rightarrow> crypto \<Rightarrow> committee \<Rightarrow> 't proposal \<Rightarrow> 't proposal option \<Rightarrow> 'p event list \<Rightarrow> bool" where
  "batch_kept n cr cm p po evs \<longleftrightarrow>
     (\<forall>c. BroadcastCertified c \<notin> set evs) \<and>
     (\<exists>p'. po = Some p' \<and> proposal_reachable n cr cm p' \<and> p_header p' = p_header p \<and> p_transmissions p' = p_transmissions p)"

definition batch_certified :: "('a, 't, 'u) storage_env \<Rightarrow> 't proposal \<Rightarrow> unit result \<Rightarrow> 't proposal option \<Rightarrow> 'p event list \<Rightarrow> bool" where
  "batch_certified e p r po evs \<longleftrightarrow> po = None \<and> r = Ok () \<and>
     (\<exists>c. evs = [BroadcastCertified c] \<and> batch_header c = p_header p \<and> check_incoming_certificate e c = Ok ())"

definition batch_returned ::
    "('a, 's, 'x, 'u, 'p) node \<Rightarrow> ('s, 'x) transmission proposal \<Rightarrow> unit result \<Rightarrow> ('a, 's, 'x, 'u, 'p, 'c) primary
      \<Rightarrow> 'p event list \<Rightarrow> bool" where
  "batch_returned nd p r pr evs \<longleftrightarrow> proposed_batch pr = None \<and> \<not> is_ok r \<and> evs = [] \<and>
     (\<forall>i\<in>set (keys (p_transmissions p)). \<exists>w\<in>set (pr_workers pr). worker_contains_transmission (shared_of nd pr) w i)"

lemma store_and_broadcast_cases:
  assumes "store_and_broadcast_certificate nd now p cm pr = Some (r, pr', evs)" "proposal_reachable (env_network (node_env nd)) (env_crypto (node_env nd)) cm p"
    and "get_committee_lookback_for_round (pr_ledger pr) (round (p_header p)) = Ok cm"
    and "wf_map (members cm)" "length (members cm) \<le> max_committee_size (env_network (node_env nd))"
  shows "proposed_batch pr' = proposed_batch pr \<and> pr_workers pr' = pr_workers pr \<and>
    (is_ok r \<longrightarrow> (\<exists>c. r = Ok () \<and> evs = [BroadcastCertified c] \<and> batch_header c = p_header p \<and> check_incoming_certificate (pr_env nd pr) c = Ok ()))"
proof (cases "to_certificate (env_network (node_env nd)) (env_crypto (node_env nd)) p cm")
  case (Inl err)
  then show ?thesis using assms(1) by (auto simp: store_and_broadcast_certificate_def is_ok_iff)
next
  case (Inr ct)
  obtain c ts where ct: "ct = (c, ts)" by fastforce
  note inv = proposal_reachable_inv[OF assms(2)]
  have c: "proposal_quorum (env_crypto (node_env nd)) p cm" "c = \<lparr>batch_header = p_header p, signatures = p_signatures p\<rparr>"
    using Inr unfolding ct to_certificate_eq[OF inv assms(4,5)] by simp_all
  have "check_incoming_certificate (pr_env nd pr) c = Ok ()"
    unfolding c(2) by (rule certificate_admitted[OF inv c(1)]) (simp_all add: assms(3), simp add: pr_env_def bft_env_def)
  moreover obtain r' where "store_certificate nd now c ts pr = Some (r', pr')"
    "(r, evs) = (case r' of Inl err \<Rightarrow> (Inl err, []) | Inr _ \<Rightarrow> (Ok (), [BroadcastCertified c]))"
    using assms(1) Inr ct by (cases "store_certificate nd now c ts pr") (auto simp: store_and_broadcast_certificate_def split: sum.split_asm)
  ultimately show ?thesis
    using store_certificate_frame[of nd now c ts pr r' pr'] c(2) by (auto simp: is_ok_iff split: sum.splits)
qed

lemma taken_batch:
  assumes "pr1 = pr\<lparr>proposed_batch := None\<rparr>" "proposal_reachable (env_network (node_env nd)) (env_crypto (node_env nd)) cm p'"
    and "p_header p' = p_header p" "p_transmissions p' = p_transmissions p"
    and "get_committee_lookback_for_round (pr_ledger pr) (round (p_header p)) = Ok cm"
    and "wf_map (members cm)" "length (members cm) \<le> max_committee_size (env_network (node_env nd))"
    and "length (pr_workers pr) = MAX_WORKERS"
  shows "case (case store_and_broadcast_certificate nd now p' cm pr1 of
             None \<Rightarrow> None | Some (Inr _, pr, evs) \<Rightarrow> Some (Ok (), pr, evs)
           | Some (Inl err, pr, _) \<Rightarrow>
               (case reinsert_transmissions_into_workers nd (p_transmissions p') pr of
                  (Inl err', pr) \<Rightarrow> Some (Inl err', pr, []) | (Inr _, pr) \<Rightarrow> Some (Inl err, pr, []))) of
      None \<Rightarrow> has_callback pr
    | Some (r, pr', evs) \<Rightarrow> kept (proposed_batch pr') evs \<or> batch_certified (pr_env nd pr) p r (proposed_batch pr') evs \<or>
        batch_returned nd p r pr' evs"
proof (cases "store_and_broadcast_certificate nd now p' cm pr1")
  case None
  have "has_callback pr" if "store_certificate nd now c ts pr1 = None" for c ts
    using store_certificate_returns[of pr1 nd now c ts] that assms(1) by auto
  then show ?thesis using None by (auto simp: store_and_broadcast_certificate_def split: sum.split_asm)
next
  case (Some x)
  obtain r2 pr2 evs where x: "x = (r2, pr2, evs)" by (cases x)
  have l: "get_committee_lookback_for_round (pr_ledger pr1) (round (p_header p')) = Ok cm"
    using assms(1,3,5) by simp
  note sb = store_and_broadcast_cases[OF Some[unfolded x] assms(2) l assms(6,7)]
  show ?thesis
  proof (cases r2)
    case (Inr u)
    then show ?thesis using Some x sb assms(1,3) by (auto simp: batch_certified_def is_ok_iff)
  next
    case (Inl err)
    obtain r3 pr3 where r3: "reinsert_transmissions_into_workers nd (p_transmissions p') pr2 = (r3, pr3)" by fastforce
    obtain w where "pr_workers pr2 = [w]"
      using assms(1,8) sb by (auto simp: MAX_WORKERS_def length_Suc_conv)
    from reinsert_transmissions_single[OF r3 this] show ?thesis
      using Some x Inl r3 sb assms(1,4) by (auto simp: batch_returned_def is_ok_iff)
  qed
qed

section \<open>Properties\<close>

text \<open>C20. Every proposed batch is accounted for.  While a proposed batch has not expired, a signature handled by
  \<open>process_batch_signature_from_peer\<close> leaves it proposed with the same header and transmissions, or turns it into a
  certificate with its header that is broadcast and that \<open>check_incoming_certificate\<close> accepts, or fails and
  hands all its transmissions back to the worker; nothing else can happen, and without the callback to the
  consensus layer the handler always returns.\<close>

theorem batch_accounted_for:
  assumes "proposed_batch pr = Some p" "current_round (pr_storage pr) \<le> round (p_header p)"
    and "proposal_reachable (env_network (node_env nd)) (env_crypto (node_env nd)) cm p"
    and "get_committee_lookback_for_round (pr_ledger pr) (round (p_header p)) = Ok cm"
    and "wf_map (members cm)" "length (members cm) \<le> max_committee_size (env_network (node_env nd))"
    and "length (pr_workers pr) = MAX_WORKERS"
  shows "case process_batch_signature_from_peer nd now peer_ip bid s pr of
      None \<Rightarrow> has_callback pr
    | Some (r, pr', evs) \<Rightarrow>
        batch_kept (env_network (node_env nd)) (env_crypto (node_env nd)) cm p (proposed_batch pr') evs \<or>
        batch_certified (pr_env nd pr) p r (proposed_batch pr') evs \<or> batch_returned nd p r pr' evs"
proof -
  let ?n = "env_network (node_env nd)" and ?cr = "env_crypto (node_env nd)"
  have e: "check_proposed_batch_for_expiration nd pr = (Ok (), pr)"
    using assms(1,2) by (simp add: check_proposed_batch_for_expiration_def)
  have kept: "batch_kept ?n ?cr cm p (proposed_batch pr) evs" if "\<forall>c. BroadcastCertified c \<notin> set evs" for evs :: "'e event list"
    using that assms(1,3) by (simp add: batch_kept_def)
  obtain r1 pr1 where a: "add_batch_signature nd peer_ip bid s pr = (r1, pr1)" by fastforce
  show ?thesis
  proof (cases "resolve_to_aleo_addr nd peer_ip = Some (to_address ?cr s) \<and> node_address nd \<noteq> to_address ?cr s")
    case False
    then show ?thesis using e kept by (auto simp: process_batch_signature_from_peer_def Let_def)
  next
    case True
    from a assms(1,4,3) show ?thesis
    proof (cases rule: add_batch_signature_cases)
      case (open_batch p')
      then have "batch_kept ?n ?cr cm p (proposed_batch pr1) []" by (simp add: batch_kept_def)
      then show ?thesis
        using True a open_batch(1) by (auto simp: process_batch_signature_from_peer_def Let_def e split: sum.splits option.splits)
    next
      case (taken p')
      then show ?thesis
        using taken_batch[OF taken(2,4-6) assms(4-7)] True a
        by (simp add: process_batch_signature_from_peer_def Let_def e assms(4))
    qed
  qed
qed

lemma solo_fields [simp]:
  "pr_ledger (solo_primary ws) = sample_ledger" "pr_storage (solo_primary ws) = shared_storage worker_shared"
  "env_network (node_env solo_node) = MainnetV0" "env_crypto (node_env solo_node) = sample_crypto" "pr_workers (solo_primary ws) = ws"
  by (simp_all add: solo_primary_def solo_node_def worker_env_def pr_ledger_def pr_storage_def)

theorem batch_accounted_for_witness:
  "\<exists>p. let pr = (solo_primary [solo_worker])\<lparr>proposed_batch := Some p\<rparr> in
     case process_batch_signature_from_peer solo_node 100 8 7 (sample_signature 3 7) pr of
      None \<Rightarrow> has_callback pr
    | Some (r, pr', evs) \<Rightarrow>
        batch_kept MainnetV0 sample_crypto sample_committee p (proposed_batch pr') evs \<or>
        batch_certified (pr_env solo_node pr) p r (proposed_batch pr') evs \<or> batch_returned solo_node p r pr' evs"
proof -
  let ?h = "sample_header 2 1 [Solution 1 2] []" and ?t = "SolutionData (Object 1) :: (nat, nat) transmission"
  obtain p where p: "proposal_new sample_committee ?h [(Solution 1 2, ?t)] = Ok p" "p_header p = ?h"
    using sample_proposal_header sample_member[of 6] by (simp add: proposal_new_def sample_committee_fields ids_match_def)
  have "proposal_reachable MainnetV0 sample_crypto sample_committee p"
    by (rule proposal_reachable.created[OF sample_proposal_header(1) p(1)])
  moreover have "wf_map (members sample_committee)" "length (members sample_committee) \<le> max_committee_size MainnetV0"
    using sample_committee_wf by (simp_all add: sample_committee_fields sample_members_def max_committee_size_def mainnet_max_certificates)
  ultimately have "let pr = (solo_primary [solo_worker])\<lparr>proposed_batch := Some p\<rparr> in
     case process_batch_signature_from_peer solo_node 100 8 7 (sample_signature 3 7) pr of
      None \<Rightarrow> has_callback pr
    | Some (r, pr', evs) \<Rightarrow>
        batch_kept MainnetV0 sample_crypto sample_committee p (proposed_batch pr') evs \<or>
        batch_certified (pr_env solo_node pr) p r (proposed_batch pr') evs \<or> batch_returned solo_node p r pr' evs"
    using batch_accounted_for[of "(solo_primary [solo_worker])\<lparr>proposed_batch := Some p\<rparr>" p solo_node sample_committee 100 8 7 "sample_signature 3 7", unfolded solo_fields(3,4)]
      p(2) sample_proposal_header(3)
    by (simp add: Let_def sample_ledger_def MAX_WORKERS_def worker_shared_def)
  then show ?thesis by blast
qed

text \<open>C26. The primary always gets to the next round or stays where it is.  While the ledger is past the starting
  round of its current committee, \<open>try_increment_to_the_next_round\<close> returns: its loop over the missed rounds
  ends.  The current round never decreases, and when the next round is within the GC range and no error is
  reported, the primary is at most one round short of it.\<close>

theorem next_round_reached:
  assumes "current_committee (pr_ledger pr) = Ok c" "starting_round c \<le> latest_round (pr_ledger pr)" "next_round \<le> u64_max"
  shows "\<exists>r pr'. try_increment_to_the_next_round nd now next_round pr = Some (r, pr') \<and>
    current_round (pr_storage pr) \<le> current_round (pr_storage pr') \<and>
    (next_round \<le> u64_add (current_round (pr_storage pr)) (max_gc_rounds (pr_storage pr)) \<and> is_ok r \<longrightarrow>
       saturating_sub next_round 1 \<le> current_round (pr_storage pr'))"
proof -
  let ?near = "next_round \<le> u64_add (current_round (pr_storage pr)) (max_gc_rounds (pr_storage pr))"
  let ?ff = "if ?near then fast_forward nd (saturating_sub next_round 1) (current_round (pr_storage pr)) pr else Some (Ok (), pr)"
  have "saturating_sub next_round 1 \<le> u64_max" using assms(3) by (simp add: saturating_sub_def)
  from fast_forward_ends[OF assms(1,2) this order_refl, of nd] obtain r1 pr1 where
    ff: "?ff = Some (r1, pr1)" "current_round (pr_storage pr) \<le> current_round (pr_storage pr1)"
      "?near \<and> r1 = Ok () \<longrightarrow> saturating_sub next_round 1 \<le> current_round (pr_storage pr1)"
    by (cases ?near) auto
  show ?thesis
  proof (cases r1)
    case (Inl err)
    then show ?thesis using ff by (auto simp: try_increment_to_the_next_round_def is_ok_iff)
  next
    case (Inr u)
    obtain b s where adv: "try_advance_to_next_round (node_env nd) now (current_round (pr_storage pr1)) (pr_bft pr1) = (b, s)" by fastforce
    obtain r2 st where inc: "increment_to_next_round (pr_env nd pr1) (current_round (pr_storage pr1)) (pr_storage pr1) = (r2, st)" by fastforce
    have m: "current_round (pr_storage pr1) \<le> current_round (bft_storage s)" "current_round (pr_storage pr1) \<le> current_round st"
      using advance_monotone[OF adv] increment_monotone[OF inc] by (simp_all add: pr_storage_def)
    have "\<exists>r pr'. try_increment_to_the_next_round nd now next_round pr = Some (r, pr') \<and> current_round (pr_storage pr1) \<le> current_round (pr_storage pr')"
      using ff(1) Inr adv inc m by (auto simp: try_increment_to_the_next_round_def Let_def pr_storage_def[of "pr1\<lparr>pr_bft := s\<rparr>"] split: sum.splits)
    then show ?thesis using ff Inr by (fastforce intro: order_trans)
  qed
qed

theorem next_round_reached_witness:
  "\<exists>r pr'. try_increment_to_the_next_round solo_node 100 9 (solo_primary [solo_worker]) = Some (r, pr') \<and>
     1 \<le> current_round (pr_storage pr') \<and> (is_ok r \<longrightarrow> 8 \<le> current_round (pr_storage pr'))"
  using next_round_reached[of "solo_primary [solo_worker]" sample_committee 9 solo_node 100]
  by (simp add: sample_ledger_def sample_committee_fields worker_shared_def u64_add_def u64_max_def saturating_sub_def)

text \<open>Skipping rounds loses the proposed batch.  When \<open>try_increment_to_the_next_round\<close> skips a round while a
  batch is proposed, the batch is cleared and no worker gets its transmissions back, unlike for a batch that
  expires: a transmission of it that was in no queue before is in none afterwards.\<close>

theorem skipped_rounds_lose_batch:
  assumes "current_committee (pr_ledger pr) = Ok c" "starting_round c \<le> latest_round (pr_ledger pr)" "next_round \<le> u64_max"
    and "next_round \<le> u64_add (current_round (pr_storage pr)) (max_gc_rounds (pr_storage pr))"
    and "current_round (pr_storage pr) < saturating_sub next_round 1"
    and "proposed_batch pr = Some p" "i \<in> set (keys (p_transmissions p))" "\<forall>w\<in>set (pr_workers pr). \<not> ready_contains (w_ready w) i"
    and "try_increment_to_the_next_round nd now next_round pr = Some (Ok b, pr')"
  shows "proposed_batch pr' = None \<and> (\<forall>w\<in>set (pr_workers pr'). \<not> ready_contains (w_ready w) i)"
proof -
  have "saturating_sub next_round 1 \<le> u64_max" using assms(3) by (simp add: saturating_sub_def)
  from fast_forward_ends[OF assms(1,2) this order_refl, of nd] assms(5) obtain r1 pr1 where
    ff: "fast_forward nd (saturating_sub next_round 1) (current_round (pr_storage pr)) pr = Some (r1, pr1)"
      "pr_workers pr1 = pr_workers pr" "r1 = Ok () \<longrightarrow> proposed_batch pr1 = None"
    by auto
  then have "proposed_batch pr' = None \<and> pr_workers pr' = pr_workers pr1"
    using assms(4,9) by (auto simp: try_increment_to_the_next_round_def Let_def split: sum.splits if_splits prod.splits)
  then show ?thesis using ff(2) assms(8) by simp
qed

theorem skipped_rounds_lose_batch_witness:
  "\<exists>p b pr'. p_transmissions p = [(Solution 5 2, SolutionData (Object 1))] \<and>
     try_increment_to_the_next_round solo_node 100 3 ((solo_primary [solo_worker])\<lparr>proposed_batch := Some p\<rparr>) = Some (Ok b, pr') \<and>
     proposed_batch pr' = None \<and> (\<forall>w\<in>set (pr_workers pr'). \<not> ready_contains (w_ready w) (Solution 5 2))"
proof -
  define p :: "(nat, nat) transmission proposal" where
    "p = \<lparr>p_header = sample_header 2 1 [Solution 5 2] [], p_transmissions = [(Solution 5 2, SolutionData (Object 1))], p_signatures = []\<rparr>"
  let ?pr = "(solo_primary [solo_worker])\<lparr>proposed_batch := Some p\<rparr>"
  note ev = sample_ledger_def sample_committee_fields worker_shared_def u64_add_def u64_max_def saturating_sub_def
  obtain b pr' where t: "try_increment_to_the_next_round solo_node 100 3 ?pr = Some (Ok b, pr')"
    by (simp add: try_increment_to_the_next_round_def fast_forward.simps increment_to_next_round_def Let_def ev
        sync_round_with_block_def) (auto simp: solo_primary_def split_beta)
  have "\<forall>w\<in>set (pr_workers ?pr). \<not> ready_contains (w_ready w) (Solution 5 2)"
    by (simp add: solo_worker_def ready_contains_def)
  then have "proposed_batch pr' = None \<and> (\<forall>w\<in>set (pr_workers pr'). \<not> ready_contains (w_ready w) (Solution 5 2))"
    by (intro skipped_rounds_lose_batch[where c = sample_committee and p = p, OF _ _ _ _ _ _ _ _ t]) (simp_all add: ev p_def)
  moreover have "p_transmissions p = [(Solution 5 2, SolutionData (Object 1))]" by (simp add: p_def)
  ultimately show ?thesis using t by blast
qed

end
