(* ===== verification/Agreement.thy ===== *)
theory Agreement
  imports Equivocation Certifying
begin

text \<open>
  The validators together.  Certificates are built from the signatures of many validators; as long as the
  faulty ones hold little stake, what each of the others signs and proposes decides which certificates exist.
\<close>

section \<open>Two certificates of one author and round\<close>

lemma correct_common_signer:
  assumes "check_incoming_certificate e c1 = Ok ()" "check_incoming_certificate e c2 = Ok ()" "cert_round c1 = cert_round c2"
    and "get_committee_lookback_for_round (env_ledger e) (cert_round c1) = Ok lookback"
    and "wf_committee lookback" "2 * total_stake lookback \<le> u64_max" "finite F" "stake_of lookback F \<le> max_faulty lookback"
  obtains v where "v \<notin> F" "v \<in> set (cert_signers (env_crypto e) c1)" "v \<in> set (cert_signers (env_crypto e) c2)"
proof -
  let ?S = "set (cert_signers (env_crypto e) c1) \<inter> set (cert_signers (env_crypto e) c2)"
  have q: "is_quorum_threshold_reached lookback (cert_signers (env_crypto e) c1)"
    "is_quorum_threshold_reached lookback (cert_signers (env_crypto e) c2)"
    using assms(1-4) by (auto simp: check_incoming_certificate_Ok_iff)
  have "max_faulty lookback < stake_of lookback ?S"
    using quorum_intersection_stake[OF assms(5,6) cert_signers_set(2) cert_signers_set(2) q]
      thresholds(1)[OF wf_committee_total_pos[OF assms(5)] assms(6)] by linarith
  moreover have "stake_of lookback ?S \<le> stake_of lookback F" if "?S \<subseteq> F"
    unfolding stake_of_def by (rule sum_mono2[OF assms(7) that]) simp
  ultimately have "\<not> ?S \<subseteq> F" using assms(8) by linarith
  then show thesis using that by blast
qed

lemma proposed_once:
  assumes "proposing pr hs" "h \<in> set hs" "h' \<in> set hs" "round h = round h'"
  shows "h = h'"
proof -
  have "sorted_wrt (<) (map round hs)" using proposing_inv[OF assms(1)] by (simp add: proposing_inv_def)
  then have "distinct (map round hs)" by (simp add: strict_sorted_iff)
  then show ?thesis using assms(2-4) by (simp add: distinct_map inj_on_def)
qed

section \<open>Properties\<close>

text \<open>C5. An author gets one batch per round certified.  Take two certificates of one author and round that pass
  \<open>check_incoming_certificate\<close>, and let the faulty validators hold at most the stake the committee
  tolerates.  Suppose every other validator handles the proposals of an author one at a time, the
  signatures of these validators in the certificates were sent by them, and the author, if it is not faulty,
  proposed both batches.  Then the certificates have the same batch ID.\<close>

theorem certificates_unique:
  assumes "check_incoming_certificate e c1 = Ok ()" "check_incoming_certificate e c2 = Ok ()"
    and "cert_round c1 = cert_round c2" "cert_author c1 = cert_author c2"
    and "get_committee_lookback_for_round (env_ledger e) (cert_round c1) = Ok lookback"
    and "wf_committee lookback" "2 * total_stake lookback \<le> u64_max" "finite F" "stake_of lookback F \<le> max_faulty lookback"
    and "\<And>v. v \<notin> F \<Longrightarrow> signing_run True (node v)"
    and "\<And>v c. v \<notin> F \<Longrightarrow> c \<in> {c1, c2} \<Longrightarrow> v \<in> to_address (env_crypto e) ` set (signatures c) \<Longrightarrow>
      (cert_author c, cert_round c, cert_id c) \<in> set (sent (node v))"
    and "cert_author c1 \<notin> F \<Longrightarrow> proposing pr hs \<and> batch_header c1 \<in> set hs \<and> batch_header c2 \<in> set hs"
  shows "cert_id c1 = cert_id c2"
proof -
  obtain v where v: "v \<notin> F" "v \<in> set (cert_signers (env_crypto e) c1)" "v \<in> set (cert_signers (env_crypto e) c2)"
    by (rule correct_common_signer[OF assms(1-3,5-9)])
  show ?thesis
  proof (cases "v = cert_author c1")
    case True
    then have "batch_header c1 = batch_header c2" using assms(3,12) v(1) proposed_once by auto
    then show ?thesis by simp
  next
    case False
    then have "v \<in> to_address (env_crypto e) ` set (signatures c1)" "v \<in> to_address (env_crypto e) ` set (signatures c2)"
      using v assms(4) by auto
    then have "(cert_author c1, cert_round c1, cert_id c1) \<in> set (sent (node v))"
      "(cert_author c1, cert_round c1, cert_id c2) \<in> set (sent (node v))"
      using assms(11)[OF v(1), of c1] assms(11)[OF v(1), of c2] assms(3,4) by auto
    then show ?thesis using signing_run_inv[OF assms(10)[OF v(1)]] unfolding signing_inv_def by blast
  qed
qed

section \<open>A round in which two certificates are seen\<close>

definition fork_certificate :: "nat list \<Rightarrow> batch_certificate" where
  "fork_certificate js = \<lparr>batch_header = fork_header 2 [1, 2, 3], signatures = map (\<lambda>j. sample_signature j 1472) js\<rparr>"

lemma fork_certificate_fields:
  assumes "js \<in> {[2, 3, 4], [4, 3, 2]}"
  shows "cert_author (fork_certificate js) = 12" "cert_round (fork_certificate js) = 2" "cert_id (fork_certificate js) = 1472"
    "to_address fork_crypto ` set (signatures (fork_certificate js)) = {6, 8, 10}"
    "check_incoming_certificate (pr_env fork_node (fork_primary [])) (fork_certificate js) = Ok ()"
proof -
  have eq: "to_address fork_crypto = to_address sample_crypto"
    by (rule ext) (simp add: to_address_def compute_key_to_address_def fork_crypto_def)
  show f: "cert_author (fork_certificate js) = 12" "cert_round (fork_certificate js) = 2" "cert_id (fork_certificate js) = 1472"
    using fork_header_fields[of "[1, 2, 3]" 2] by (simp_all add: fork_certificate_def field_modulus_def u64_max_def)
  show a: "to_address fork_crypto ` set (signatures (fork_certificate js)) = {6, 8, 10}"
    using assms by (elim insertE) (simp_all add: fork_certificate_def eq sample_signature_address insert_commute)
  have "set (cert_signers fork_crypto (fork_certificate js)) = set [6, 8, 10, 12]" using a f(1) by auto
  from quorum_perm[OF this, of fork_committee] have "is_quorum_threshold_reached fork_committee (cert_signers fork_crypto (fork_certificate js))"
    using fork_committee_quorum(5) by simp
  moreover have "\<forall>v\<in>{6, 8, 10, 12}. is_committee_member fork_committee v"
    by (auto simp: fork_committee_def is_committee_member_def sample_committee_fields sample_members_def)
  ultimately show "check_incoming_certificate (pr_env fork_node (fork_primary [])) (fork_certificate js) = Ok ()"
    using a f unfolding check_incoming_certificate_Ok_iff
    by (simp add: pr_env_def bft_env_def fork_node_def fork_primary_def)
qed

theorem certificates_unique_witness:
  "fork_certificate [2, 3, 4] \<noteq> fork_certificate [4, 3, 2] \<and> cert_id (fork_certificate [2, 3, 4]) = cert_id (fork_certificate [4, 3, 2])"
proof -
  have h: "forked (fork_header 2 [1, 2, 3])" by (simp add: forked_def)
  have r: "round (fork_header 2 [1, 2, 3]) = 2" "batch_id (fork_header 2 [1, 2, 3]) = 1472"
    using fork_header_fields[of "[1, 2, 3]" 2] by (simp_all add: field_modulus_def u64_max_def)
  have "signing_run True (fork_run [] [] [])" using run_start[of "fork_primary []" True] by (simp add: fork_run_def)
  from fork_receive[OF this h] have "signing_run True (fork_run [] ([] @ [(Admitted, 12, fork_header 2 [1, 2, 3])] @ []) [])" by simp
  from fork_sign[OF this h] obtain sig where
    run: "signing_run True (fork_run (AList.update 12 (2, 1472, sig) []) [] [(12, 2, 1472)])" using r by auto
  note f = fork_certificate_fields[of "[2, 3, 4]", simplified] fork_certificate_fields[of "[4, 3, 2]", simplified]
  have "wf_committee fork_committee"
    using committee_new_wf[OF sample_committee_wf sample_committee_new] by (auto simp: wf_committee_def fork_committee_def)
  moreover have "2 * total_stake fork_committee \<le> u64_max" "stake_of fork_committee {12} \<le> max_faulty fork_committee"
    by (simp_all add: fork_committee_def sample_committee_fields u64_max_def stake_of_def max_faulty_def get_stake_def sample_members_def)
  ultimately have "cert_id (fork_certificate [2, 3, 4]) = cert_id (fork_certificate [4, 3, 2])"
    using certificates_unique[of "pr_env fork_node (fork_primary [])" "fork_certificate [2, 3, 4]" "fork_certificate [4, 3, 2]"
        fork_committee "{12}" "\<lambda>_. fork_run (AList.update 12 (2, 1472, sig) []) [] [(12, 2, 1472)]"] f run
    by (auto simp: pr_env_def bft_env_def fork_node_def fork_primary_def fork_run_def)
  moreover have "sample_signature 2 1472 \<noteq> sample_signature 4 1472"
    using sample_signature_address[of 2 1472] sample_signature_address[of 4 1472] by auto
  ultimately show ?thesis by (simp add: fork_certificate_def)
qed

end
