(* ===== verification/Block_Sync.thy ===== *)
theory Block_Sync
  imports Locators
begin

text \<open>
  Fetching blocks from peers, after \<open>node/sync/src/block_sync.rs\<close> and \<open>sync_state.rs\<close>.  The ledger is a record of
  the queries that are asked.  A peer is any type.  Choices that the code makes at random, the order in which
  sync peers are returned and the peers a request is sent to, are arguments.  Heights are below the limit of 32 bits, so
  the next height is a plain sum.
\<close>

section \<open>Sync state\<close>

definition MAX_BLOCKS_BEHIND :: u32 where
  "MAX_BLOCKS_BEHIND = 1"

datatype sync_status = Unsynced | Syncing | Synced

datatype bft_sync_mode = Fast | Dag

record sync_state =
  sync_height :: u32
  greatest_peer_height :: "u32 option"
  status :: sync_status
  bft_sync_mode :: "bft_sync_mode option"

definition new_with_height :: "u32 \<Rightarrow> sync_state" where
  "new_with_height h = \<lparr>sync_height = h, greatest_peer_height = None, status = Synced, bft_sync_mode = None\<rparr>"

definition is_block_synced :: "sync_state \<Rightarrow> bool" where
  "is_block_synced s \<longleftrightarrow> status s = Synced"

definition num_blocks_behind :: "sync_state \<Rightarrow> u32 option" where
  "num_blocks_behind s = map_option (\<lambda>peer_height. saturating_sub peer_height (sync_height s)) (greatest_peer_height s)"

definition can_issue_new_block_requests :: "sync_state \<Rightarrow> bool" where
  "can_issue_new_block_requests s = (case num_blocks_behind s of Some num_behind \<Rightarrow> num_behind > 0 | None \<Rightarrow> False)"

definition set_bft_sync_mode :: "bft_sync_mode \<Rightarrow> sync_state \<Rightarrow> bft_sync_mode option \<times> sync_state" where
  "set_bft_sync_mode mode s = (bft_sync_mode s, s\<lparr>bft_sync_mode := Some mode\<rparr>)"

definition update_is_block_synced :: "sync_state \<Rightarrow> sync_state" where
  "update_is_block_synced s =
     s\<lparr>status := (case num_blocks_behind s of
                   Some num \<Rightarrow> if num \<le> MAX_BLOCKS_BEHIND then Synced else Syncing
                 | None \<Rightarrow> Unsynced)\<rparr>"

definition set_sync_height :: "u32 \<Rightarrow> sync_state \<Rightarrow> sync_state" where
  "set_sync_height h s = (if h \<le> sync_height s then s else update_is_block_synced (s\<lparr>sync_height := h\<rparr>))"

definition set_greatest_peer_height :: "u32 \<Rightarrow> sync_state \<Rightarrow> sync_state" where
  "set_greatest_peer_height h s =
     (if greatest_peer_height s = Some h then s else update_is_block_synced (s\<lparr>greatest_peer_height := Some h\<rparr>))"

definition clear_greatest_peer_height :: "sync_state \<Rightarrow> sync_state" where
  "clear_greatest_peer_height s =
     (if greatest_peer_height s = None then s else update_is_block_synced (s\<lparr>greatest_peer_height := None\<rparr>))"

section \<open>State\<close>

definition REDUNDANCY_FACTOR :: usize where
  "REDUNDANCY_FACTOR = 1"

definition EXTRA_REDUNDANCY_FACTOR :: usize where
  "EXTRA_REDUNDANCY_FACTOR = REDUNDANCY_FACTOR * 3"

definition NUM_SYNC_CANDIDATE_PEERS :: usize where
  "NUM_SYNC_CANDIDATE_PEERS = REDUNDANCY_FACTOR * 5"

definition BLOCK_REQUEST_TIMEOUT_IN_MS :: nat where
  "BLOCK_REQUEST_TIMEOUT_IN_MS = 60000"

definition MAX_BLOCK_REQUESTS :: usize where
  "MAX_BLOCK_REQUESTS = 50"

definition MAXIMUM_NUMBER_OF_BLOCKS :: u8 where
  "MAXIMUM_NUMBER_OF_BLOCKS = 5"

text \<open>The parts of a block that are looked at, and the rest of it.\<close>

record 'b synced_block =
  block_height :: u32
  block_hash :: field
  previous_hash :: field
  block_contents :: 'b

record block_ledger =
  ledger_height :: u32
  ledger_block_hash :: "u32 \<Rightarrow> field result"
  contains_block_height :: "u32 \<Rightarrow> bool"

record ('p, 'b) outstanding_request =
  req_hash :: "field option"
  req_previous_hash :: "field option"
  sync_ips :: "'p list"
  req_timestamp :: nat
  response :: "'b synced_block option"

record ('p, 'b) block_sync =
  peer_locators :: "('p, block_locators) imap"
  common_ancestors :: "('p \<times> 'p, u32) imap"
  block_requests :: "(u32, ('p, 'b) outstanding_request) imap"
  sync_state_of :: sync_state
  failed_requests :: "(u32, field option \<times> field option) imap"

definition block_sync_new :: "block_ledger \<Rightarrow> ('p, 'b) block_sync" where
  "block_sync_new ledger = \<lparr>peer_locators = [], common_ancestors = [], block_requests = [],
     sync_state_of = new_with_height (ledger_height ledger), failed_requests = []\<rparr>"

text \<open>Pairs of peers are unordered.\<close>

definition peer_pair_eq :: "'p \<times> 'p \<Rightarrow> 'p \<times> 'p \<Rightarrow> bool" where
  "peer_pair_eq x y \<longleftrightarrow> (fst x = fst y \<and> snd x = snd y) \<or> (fst x = snd y \<and> snd x = fst y)"

definition peer_pair_contains :: "'p \<times> 'p \<Rightarrow> 'p \<Rightarrow> bool" where
  "peer_pair_contains x ip \<longleftrightarrow> ip = fst x \<or> ip = snd x"

definition ancestors_get :: "'p \<times> 'p \<Rightarrow> ('p \<times> 'p, u32) imap \<Rightarrow> u32 option" where
  "ancestors_get x m = map_option snd (find (\<lambda>(y, _). peer_pair_eq y x) m)"

fun ancestors_insert :: "'p \<times> 'p \<Rightarrow> u32 \<Rightarrow> ('p \<times> 'p, u32) imap \<Rightarrow> ('p \<times> 'p, u32) imap" where
  "ancestors_insert x h [] = [(x, h)]"
| "ancestors_insert x h ((y, g) # m) = (if peer_pair_eq y x then (y, h) # m else (y, g) # ancestors_insert x h m)"

definition num_outstanding_block_requests :: "('p, 'b) block_sync \<Rightarrow> usize" where
  "num_outstanding_block_requests s = length (filter (\<lambda>(_, e). sync_ips e \<noteq> []) (block_requests s))"

definition num_total_block_requests :: "('p, 'b) block_sync \<Rightarrow> usize" where
  "num_total_block_requests s = length (block_requests s)"

definition has_pending_responses :: "('p, 'b) block_sync \<Rightarrow> bool" where
  "has_pending_responses s \<longleftrightarrow> length (filter (\<lambda>(_, e). response e \<noteq> None \<and> sync_ips e = []) (block_requests s)) > 0"

section \<open>Requests and responses\<close>

definition check_block_request :: "block_ledger \<Rightarrow> u32 \<Rightarrow> ('p, 'b) block_sync \<Rightarrow> unit result" where
  "check_block_request ledger h s =
     (if contains_block_height ledger h then bail ''Failed to add block request, as it exists in the ledger''
      else if h \<in> set (keys (block_requests s)) then bail ''Failed to add block request, as it exists in the requests map''
      else Ok ())"

definition insert_block_request ::
    "block_ledger \<Rightarrow> nat \<Rightarrow> u32 \<Rightarrow> field option \<times> field option \<times> 'p list \<Rightarrow> ('p, 'b) block_sync
      \<Rightarrow> unit result \<times> ('p, 'b) block_sync" where
  "insert_block_request ledger now h = (\<lambda>(hash, prev, ips) s.
     case check_block_request ledger h s of
       Inl err \<Rightarrow> (Inl err, s)
     | Inr _ \<Rightarrow>
         if ips = [] then (bail ''Cannot insert a block request with no sync IPs'', s)
         else (Ok (), s\<lparr>block_requests := bmap_update h
                \<lparr>req_hash = hash, req_previous_hash = prev, sync_ips = ips, req_timestamp = now, response = None\<rparr> (block_requests s)\<rparr>))"

datatype insert_block_response_error =
    EmptyBlockResponse
  | NoConsensusVersion
  | ConsensusVersionMismatch consensus_version consensus_version u32
  | BlockSyncAlreadyAdvanced u32
  | NoSuchRequest u32
  | InvalidBlockHash u32
  | InvalidPreviousBlockHash u32
  | MalformedBlock u32
  | WrongSyncPeer u32
  | OtherError error

definition insert_block_response ::
    "block_ledger \<Rightarrow> 'p \<Rightarrow> 'b synced_block \<Rightarrow> ('p, 'b) block_sync
      \<Rightarrow> (insert_block_response_error + unit) \<times> ('p, 'b) block_sync" where
  "insert_block_response ledger peer_ip b s =
     (let h = block_height b in
      if contains_block_height ledger h then (Inl (BlockSyncAlreadyAdvanced h), s)
      else case map_of (block_requests s) h of
        None \<Rightarrow> (Inl (NoSuchRequest h), s)
      | Some e \<Rightarrow>
          if (case req_hash e of Some expected \<Rightarrow> block_hash b \<noteq> expected | None \<Rightarrow> False) then (Inl (InvalidBlockHash h), s)
          else if (case req_previous_hash e of Some expected \<Rightarrow> previous_hash b \<noteq> expected | None \<Rightarrow> False)
          then (Inl (InvalidPreviousBlockHash h), s)
          else if peer_ip \<notin> set (sync_ips e) then (Inl (WrongSyncPeer h), s)
          else let e' = e\<lparr>sync_ips := swap_remove peer_ip (sync_ips e)\<rparr>;
                   store = (\<lambda>x. s\<lparr>block_requests := bmap_update h x (block_requests s)\<rparr>)
               in case response e of
                    Some existing \<Rightarrow> if b \<noteq> existing then (Inl (MalformedBlock h), store e') else (Inr (), store e')
                  | None \<Rightarrow> (Inr (), store (e'\<lparr>response := Some b\<rparr>)))"

text \<open>The peer leaves every request; a request that nobody can answer any more is remembered as failed.\<close>

definition without_peer :: "'p \<Rightarrow> ('p, 'b) outstanding_request \<Rightarrow> ('p, 'b) outstanding_request" where
  "without_peer ip e = e\<lparr>sync_ips := swap_remove ip (sync_ips e)\<rparr>"

definition keeps_request :: "'p \<Rightarrow> ('p, 'b) outstanding_request \<Rightarrow> bool" where
  "keeps_request ip e \<longleftrightarrow> ip \<notin> set (sync_ips e) \<or> sync_ips (without_peer ip e) \<noteq> [] \<or> response e \<noteq> None"

definition mark_failed ::
    "(u32 \<times> ('p, 'b) outstanding_request) list \<Rightarrow> (u32, field option \<times> field option) imap
      \<Rightarrow> (u32, field option \<times> field option) imap" where
  "mark_failed es = fold (\<lambda>(h, e). bmap_update h (req_hash e, req_previous_hash e)) es"

definition remove_block_requests_to_peer :: "'p \<Rightarrow> ('p, 'b) block_sync \<Rightarrow> ('p, 'b) block_sync" where
  "remove_block_requests_to_peer ip s =
     s\<lparr>block_requests := map (\<lambda>(h, e). (h, without_peer ip e)) (filter (\<lambda>(_, e). keeps_request ip e) (block_requests s)),
       failed_requests := mark_failed (filter (\<lambda>(_, e). \<not> keeps_request ip e) (block_requests s)) (failed_requests s)\<rparr>"

fun insert_each_response ::
    "block_ledger \<Rightarrow> 'p \<Rightarrow> 'b synced_block list \<Rightarrow> ('p, 'b) block_sync
      \<Rightarrow> (insert_block_response_error + unit) \<times> ('p, 'b) block_sync" where
  "insert_each_response ledger peer_ip [] s = (Inr (), s)"
| "insert_each_response ledger peer_ip (b # bs) s =
     (case insert_block_response ledger peer_ip b s of
        (Inl err, s) \<Rightarrow> (Inl err, s)
      | (Inr _, s) \<Rightarrow> insert_each_response ledger peer_ip bs s)"

definition insert_block_responses ::
    "network \<Rightarrow> block_ledger \<Rightarrow> 'p \<Rightarrow> 'b synced_block list \<Rightarrow> consensus_version option \<Rightarrow> ('p, 'b) block_sync
      \<Rightarrow> (insert_block_response_error + unit) \<times> ('p, 'b) block_sync" where
  "insert_block_responses n ledger peer_ip blocks latest_consensus_version s =
     (let failed = (\<lambda>(err, s). (Inl err, remove_block_requests_to_peer peer_ip s)) in
      if blocks = [] then failed (EmptyBlockResponse, s)
      else let last_height = block_height (last blocks) in
        case CONSENSUS_VERSION n last_height of
          Inl err \<Rightarrow> (Inl (OtherError err), s)
        | Inr expected \<Rightarrow>
            if expected \<ge> V12 \<and> latest_consensus_version = None then failed (NoConsensusVersion, s)
            else if expected \<ge> V12 \<and> latest_consensus_version \<noteq> Some expected
            then failed (ConsensusVersionMismatch (the latest_consensus_version) expected last_height, s)
            else (case insert_each_response ledger peer_ip blocks s of
                    (Inl err, s) \<Rightarrow> failed (err, s)
                  | (Inr _, s) \<Rightarrow> (Inr (), s)))"

definition peek_next_block :: "u32 \<Rightarrow> ('p, 'b) block_sync \<Rightarrow> 'b synced_block option" where
  "peek_next_block h s =
     (case map_of (block_requests s) h of
        Some e \<Rightarrow> if sync_ips e \<noteq> [] then None else response e
      | None \<Rightarrow> None)"

definition remove_block_response :: "u32 \<Rightarrow> ('p, 'b) block_sync \<Rightarrow> ('p, 'b) block_sync" where
  "remove_block_response h s = s\<lparr>block_requests := AList.delete h (block_requests s)\<rparr>"

definition block_sync_set_height :: "u32 \<Rightarrow> ('p, 'b) block_sync \<Rightarrow> ('p, 'b) block_sync" where
  "block_sync_set_height h s = s\<lparr>sync_state_of := set_sync_height h (sync_state_of s)\<rparr>"

section \<open>Peers\<close>

text \<open>The walk upwards that ends at the first fork.\<close>

fun common_ancestor :: "(u32 \<Rightarrow> field option) \<Rightarrow> (u32 \<times> field) list \<Rightarrow> u32 \<Rightarrow> u32" where
  "common_ancestor known [] ancestor = ancestor"
| "common_ancestor known ((h, x) # ls) ancestor =
     (case known h of
        None \<Rightarrow> common_ancestor known ls ancestor
      | Some y \<Rightarrow> if y = x then common_ancestor known ls h else ancestor)"

definition max_peer_height :: "('p, block_locators) imap \<Rightarrow> u32 option" where
  "max_peer_height m = (if m = [] then None else Some (Max (latest_locator_height ` set (vals m))))"

definition update_peer_locators ::
    "block_ledger \<Rightarrow> 'p \<Rightarrow> 'p \<Rightarrow> block_locators \<Rightarrow> ('p, 'b) block_sync \<Rightarrow> ('p, 'b) block_sync" where
  "update_peer_locators ledger self_ip peer_ip l s =
     (if map_of (peer_locators s) peer_ip = Some l then s
      else let m = AList.update peer_ip l (peer_locators s);
               local = common_ancestor (\<lambda>h. ok (ledger_block_hash ledger h)) (locators_into_iter l) 0;
               updates = map (\<lambda>(other, ol). ((peer_ip, other), common_ancestor (get_hash l) (locators_into_iter ol) 0))
                           (filter (\<lambda>(other, _). other \<noteq> peer_ip) m);
               ancestors = fold (\<lambda>(pair, a). ancestors_insert pair a) (((self_ip, peer_ip), local) # updates) (common_ancestors s)
           in s\<lparr>peer_locators := m, common_ancestors := ancestors,
                sync_state_of := (case max_peer_height m of
                                    Some h \<Rightarrow> set_greatest_peer_height h (sync_state_of s) | None \<Rightarrow> sync_state_of s)\<rparr>)"

definition remove_peer :: "'p \<Rightarrow> ('p, 'b) block_sync \<Rightarrow> ('p, 'b) block_sync" where
  "remove_peer ip s =
     (let s = remove_block_requests_to_peer ip
            (s\<lparr>peer_locators := AList.delete ip (peer_locators s),
               common_ancestors := filter (\<lambda>(pair, _). \<not> peer_pair_contains pair ip) (common_ancestors s)\<rparr>)
      in s\<lparr>sync_state_of := (case max_peer_height (peer_locators s) of
             Some h \<Rightarrow> set_greatest_peer_height h (sync_state_of s)
           | None \<Rightarrow> clear_greatest_peer_height (sync_state_of s))\<rparr>)"

definition timed_out :: "nat \<Rightarrow> ('p, 'b) outstanding_request \<Rightarrow> bool" where
  "timed_out now e \<longleftrightarrow> now - req_timestamp e > BLOCK_REQUEST_TIMEOUT_IN_MS \<and> \<not> (sync_ips e = [] \<and> response e \<noteq> None)"

definition handle_block_request_timeouts :: "block_ledger \<Rightarrow> nat \<Rightarrow> ('p, 'b) block_sync \<Rightarrow> ('p, 'b) block_sync" where
  "handle_block_request_timeouts ledger now s =
     (let late = filter (\<lambda>(_, e). timed_out now e) (block_requests s)
      in fold remove_peer (remdups (concat (map (\<lambda>(_, e). sync_ips e) late)))
           (s\<lparr>block_requests := filter (\<lambda>(h, e). \<not> timed_out now e \<and> \<not> h \<le> ledger_height ledger) (block_requests s),
              failed_requests := mark_failed late (failed_requests s)\<rparr>))"

section \<open>Choosing peers\<close>

definition add_sync_peer ::
    "('p \<times> 'p, u32) imap \<Rightarrow> u32 \<Rightarrow> 'p \<times> block_locators \<Rightarrow> 'p \<times> block_locators
      \<Rightarrow> ('p, block_locators) imap \<times> u32 \<Rightarrow> ('p, block_locators) imap \<times> u32" where
  "add_sync_peer ancestors height peer other = (\<lambda>(sync_peers, min_common_ancestor).
     case ancestors_get (fst peer, fst other) ancestors of
       None \<Rightarrow> (sync_peers, min_common_ancestor)
     | Some a \<Rightarrow> if a > height \<and> is_consistent_with (snd peer) (snd other)
                 then (sync_peers @ [other], min min_common_ancestor a) else (sync_peers, min_common_ancestor))"

fun pick_sync_peers ::
    "('p \<times> 'p, u32) imap \<Rightarrow> u32 \<Rightarrow> usize \<Rightarrow> ('p, block_locators) imap \<Rightarrow> (('p, block_locators) imap \<times> u32) option" where
  "pick_sync_peers ancestors height threshold [] = None"
| "pick_sync_peers ancestors height threshold (peer # others) =
     (let (sync_peers, min_common_ancestor) =
            fold (add_sync_peer ancestors height peer) others ([peer], latest_locator_height (snd peer))
      in if min_common_ancestor > height \<and> length sync_peers \<ge> threshold then Some (sync_peers, min_common_ancestor)
         else pick_sync_peers ancestors height threshold others)"

definition candidate_locators :: "u32 \<Rightarrow> ('p, 'b) block_sync \<Rightarrow> ('p, block_locators) imap" where
  "candidate_locators current_height s =
     take NUM_SYNC_CANDIDATE_PEERS (sort_key (\<lambda>(_, l). - int (latest_locator_height l))
       (filter (\<lambda>(_, l). latest_locator_height l > current_height) (peer_locators s)))"

definition find_sync_peers_inner ::
    "(('p, block_locators) imap \<Rightarrow> ('p, block_locators) imap) \<Rightarrow> block_ledger \<Rightarrow> u32 \<Rightarrow> ('p, 'b) block_sync
      \<Rightarrow> (('p, block_locators) imap \<times> u32) option" where
  "find_sync_peers_inner shuffle ledger current_height s =
     (let candidates = candidate_locators current_height s
      in if candidates = [] then None
         else map_option (\<lambda>(sync_peers, a). (shuffle sync_peers, a))
                (pick_sync_peers (common_ancestors s) (ledger_height ledger) (min (length candidates) REDUNDANCY_FACTOR) candidates))"

definition find_sync_peers ::
    "(('p, block_locators) imap \<Rightarrow> ('p, block_locators) imap) \<Rightarrow> block_ledger \<Rightarrow> ('p, 'b) block_sync
      \<Rightarrow> (('p, u32) imap \<times> u32) option" where
  "find_sync_peers shuffle ledger s =
     map_option (\<lambda>(sync_peers, a). (map (\<lambda>(ip, l). (ip, latest_locator_height l)) sync_peers, a))
       (find_sync_peers_inner shuffle ledger (sync_height (sync_state_of s)) s)"

section \<open>Preparing requests\<close>

fun request_hashes ::
    "u32 \<Rightarrow> block_locators list \<Rightarrow> field option \<Rightarrow> usize \<Rightarrow> field option \<Rightarrow> field option \<times> usize \<times> field option \<times> bool" where
  "request_hashes h [] hash hash_redundancy prev = (hash, hash_redundancy, prev, True)"
| "request_hashes h (l # ls) hash hash_redundancy prev =
     (let stop = (None, 0, None, False);
          continue = (\<lambda>hash hash_redundancy.
            case get_hash l (saturating_sub h 1) of
              None \<Rightarrow> request_hashes h ls hash hash_redundancy prev
            | Some y \<Rightarrow>
                (case prev of
                   None \<Rightarrow> request_hashes h ls hash hash_redundancy (Some y)
                 | Some p \<Rightarrow> if p = y then request_hashes h ls hash hash_redundancy prev else stop))
      in case get_hash l h of
           None \<Rightarrow> continue hash hash_redundancy
         | Some x \<Rightarrow>
             (case hash of
                None \<Rightarrow> continue (Some x) 1
              | Some y \<Rightarrow> if y = x then continue hash (Suc hash_redundancy) else stop))"

definition construct_request ::
    "u32 \<Rightarrow> ('p, block_locators) imap \<Rightarrow> field option \<times> field option \<times> usize \<times> bool" where
  "construct_request h sync_peers =
     (let (hash, hash_redundancy, prev, is_honest) = request_hashes h (vals sync_peers) None 0 None
      in (hash, prev,
          if \<not> is_honest then EXTRA_REDUNDANCY_FACTOR
          else if hash \<noteq> None \<and> hash_redundancy \<ge> REDUNDANCY_FACTOR then 1
          else REDUNDANCY_FACTOR, is_honest))"

function next_free :: "u32 list \<Rightarrow> u32 \<Rightarrow> u32" where
  "next_free hs h = (if h \<in> set hs then next_free hs (Suc h) else h)"
  by auto
termination
proof (relation "measure (\<lambda>(hs, h). card {x \<in> set hs. h \<le> x})")
  fix hs and h :: u32
  assume "h \<in> set hs"
  then have m: "h \<in> {x \<in> set hs. h \<le> x}" "h \<notin> {x \<in> set hs. Suc h \<le> x}" by simp_all
  have "{x \<in> set hs. Suc h \<le> x} \<subseteq> {x \<in> set hs. h \<le> x}" by (blast intro: Suc_leD)
  then have "{x \<in> set hs. Suc h \<le> x} \<subset> {x \<in> set hs. h \<le> x}" using m by (metis psubsetI)
  moreover have "finite {x \<in> set hs. h \<le> x}" by simp
  ultimately have "card {x \<in> set hs. Suc h \<le> x} < card {x \<in> set hs. h \<le> x}" by (metis psubset_card_mono)
  then show "((hs, Suc h), hs, h) \<in> measure (\<lambda>(hs, h). card {x \<in> set hs. h \<le> x})" by simp
qed simp

declare next_free.simps [simp del]

fun build_requests ::
    "block_ledger \<Rightarrow> ('p, 'b) block_sync \<Rightarrow> ('p, block_locators) imap \<Rightarrow> u32 list
      \<Rightarrow> (u32 \<times> field option \<times> field option) list \<Rightarrow> usize \<Rightarrow> (u32 \<times> field option \<times> field option) list \<times> usize" where
  "build_requests ledger s sync_peers [] acc max_num_sync_ips = (acc, max_num_sync_ips)"
| "build_requests ledger s sync_peers (h # hs) acc max_num_sync_ips =
     (if \<not> is_ok (check_block_request ledger h s)
      then if acc = [] then build_requests ledger s sync_peers hs acc max_num_sync_ips else (acc, max_num_sync_ips)
      else let (hash, prev, num_sync_ips, is_honest) = construct_request h sync_peers
           in if \<not> is_honest \<and> length sync_peers < num_sync_ips then (acc, max_num_sync_ips)
              else build_requests ledger s sync_peers hs (acc @ [(h, hash, prev)]) (max max_num_sync_ips num_sync_ips))"

definition construct_requests ::
    "block_ledger \<Rightarrow> ('p, 'b) block_sync \<Rightarrow> ('p, block_locators) imap \<Rightarrow> u32 \<Rightarrow> u32 \<Rightarrow> u32
      \<Rightarrow> (u32 \<times> field option \<times> field option \<times> usize) list" where
  "construct_requests ledger s sync_peers height min_common_ancestor max_blocks_to_request =
     (let start_height = next_free (keys (block_requests s)) (max (ledger_height ledger) (height + 1))
      in if min_common_ancestor < start_height then []
         else let end_height = min (min_common_ancestor + 1) (start_height + max_blocks_to_request);
                  (hashes, max_num_sync_ips) = build_requests ledger s sync_peers [start_height ..< end_height] [] 1
              in map (\<lambda>(h, hash, prev). (h, hash, prev, max_num_sync_ips)) hashes)"

text \<open>Failed requests are grouped into ranges of consecutive heights.\<close>

definition push_range :: "u32 \<times> 'v \<Rightarrow> (u32 \<times> 'v) list list \<Rightarrow> (u32 \<times> 'v) list list" where
  "push_range x batches =
     (if batches = [] then [[x]]
      else if fst (last (last batches)) + 1 \<noteq> fst x then batches @ [[x]]
      else butlast batches @ [last batches @ [x]])"

type_synonym 'p block_request_batch = "(u32 \<times> field option \<times> field option \<times> usize) list \<times> ('p, block_locators) imap"

fun reissue_requests ::
    "(('p, block_locators) imap \<Rightarrow> ('p, block_locators) imap) \<Rightarrow> block_ledger \<Rightarrow> ('p, 'b) block_sync
      \<Rightarrow> (u32 \<times> field option \<times> field option) list list \<Rightarrow> (u32, field option \<times> field option) imap
      \<Rightarrow> 'p block_request_batch list \<Rightarrow> 'p block_request_batch list \<times> (u32, field option \<times> field option) imap" where
  "reissue_requests shuffle ledger s [] failed result = (result, failed)"
| "reissue_requests shuffle ledger s (batch # batches) failed result =
     (let start_height = fst (hd batch); end_height = fst (last batch) + 1 in
      case find_sync_peers_inner shuffle ledger start_height s of
        None \<Rightarrow> (result, failed)
      | Some (sync_peers, min_common_ancestor) \<Rightarrow>
          if sync_peers = [] then (result, failed)
          else let requests = construct_requests ledger s sync_peers (saturating_sub start_height 1) min_common_ancestor
                     (end_height - start_height)
               in reissue_requests shuffle ledger s batches (fold (\<lambda>(h, _). AList.delete h) requests failed)
                    (result @ [(requests, sync_peers)]))"

definition prepare_block_requests ::
    "(('p, block_locators) imap \<Rightarrow> ('p, block_locators) imap) \<Rightarrow> block_ledger \<Rightarrow> ('p, 'b) block_sync
      \<Rightarrow> 'p block_request_batch list \<times> ('p, 'b) block_sync" where
  "prepare_block_requests shuffle ledger s =
     (let current_height = sync_height (sync_state_of s);
          failed = dropWhile (\<lambda>(h, _). h \<le> current_height) (failed_requests s);
          s = s\<lparr>failed_requests := failed\<rparr>
      in if failed \<noteq> []
         then let (result, failed') = reissue_requests shuffle ledger s (fold push_range failed []) failed []
              in (result, s\<lparr>failed_requests := failed'\<rparr>)
         else let max_outstanding = MAX_BLOCK_REQUESTS * MAXIMUM_NUMBER_OF_BLOCKS;
                  max_new = saturating_sub max_outstanding (num_outstanding_block_requests s)
              in if num_total_block_requests s \<ge> 4 * max_outstanding \<or> max_new = 0 then ([], s)
                 else (case find_sync_peers_inner shuffle ledger current_height s of
                         Some (sync_peers, min_common_ancestor) \<Rightarrow>
                           ([(construct_requests ledger s sync_peers current_height min_common_ancestor max_new, sync_peers)], s)
                       | None \<Rightarrow> ([], s)))"

text \<open>\<open>chosen\<close> are the peers drawn at random, \<open>delivered\<close> says which of them the message reached.\<close>

fun insert_each_request ::
    "block_ledger \<Rightarrow> nat \<Rightarrow> 'p list \<Rightarrow> (u32 \<times> field option \<times> field option \<times> usize) list \<Rightarrow> ('p, 'b) block_sync
      \<Rightarrow> bool \<times> ('p, 'b) block_sync" where
  "insert_each_request ledger now ips [] s = (True, s)"
| "insert_each_request ledger now ips ((h, hash, prev, _) # rs) s =
     (case insert_block_request ledger now h (hash, prev, ips) s of
        (Inl _, s) \<Rightarrow> (False, s)
      | (Inr _, s) \<Rightarrow> insert_each_request ledger now ips rs s)"

definition send_block_requests ::
    "block_ledger \<Rightarrow> nat \<Rightarrow> 'p list \<Rightarrow> ('p \<Rightarrow> bool) \<Rightarrow> (u32 \<times> field option \<times> field option \<times> usize) list \<Rightarrow> ('p, 'b) block_sync
      \<Rightarrow> bool \<times> ('p, 'b) block_sync" where
  "send_block_requests ledger now chosen delivered requests s =
     (case requests of
        [] \<Rightarrow> (False, s)
      | (start_height, _) # _ \<Rightarrow>
          let end_height = saturating_add_u32 start_height (length requests)
          in if \<not> (\<forall>ip\<in>set chosen. ip \<in> set (keys (peer_locators s))) then (False, s)
             else (case insert_each_request ledger now chosen requests s of
                     (False, s) \<Rightarrow> (False, s)
                   | (True, s) \<Rightarrow>
                       if \<forall>ip\<in>set chosen. delivered ip then (True, s)
                       else (False, s\<lparr>block_requests := map_retain (\<lambda>h _. \<not> (start_height \<le> h \<and> h < end_height)) (block_requests s)\<rparr>)))"

fun chunks :: "usize \<Rightarrow> 'v list \<Rightarrow> 'v list list" where
  "chunks n [] = []"
| "chunks n (x # xs) = take (Suc (n - 1)) (x # xs) # chunks n (drop (n - 1) xs)"

fun send_chunks ::
    "('p list \<Rightarrow> usize \<Rightarrow> 'p list) \<Rightarrow> ('p \<Rightarrow> bool) \<Rightarrow> block_ledger \<Rightarrow> nat \<Rightarrow> 'p list
      \<Rightarrow> (u32 \<times> field option \<times> field option \<times> usize) list list \<Rightarrow> ('p, 'b) block_sync \<Rightarrow> ('p, 'b) block_sync" where
  "send_chunks sample delivered ledger now peers [] s = s"
| "send_chunks sample delivered ledger now peers (c # cs) s =
     (case send_block_requests ledger now (sample peers (snd (snd (snd (hd c))))) delivered c s of
        (False, s) \<Rightarrow> s
      | (True, s) \<Rightarrow> send_chunks sample delivered ledger now peers cs s)"

definition try_issuing_block_requests ::
    "(('p, block_locators) imap \<Rightarrow> ('p, block_locators) imap) \<Rightarrow> ('p list \<Rightarrow> usize \<Rightarrow> 'p list) \<Rightarrow> ('p \<Rightarrow> bool)
      \<Rightarrow> block_ledger \<Rightarrow> nat \<Rightarrow> ('p, 'b) block_sync \<Rightarrow> ('p, 'b) block_sync" where
  "try_issuing_block_requests shuffle sample delivered ledger now s =
     (let s = handle_block_request_timeouts ledger now s
      in if is_block_synced (sync_state_of s) then s
         else if \<not> can_issue_new_block_requests (sync_state_of s) \<and> failed_requests s = [] then s
         else let (batches, s) = prepare_block_requests shuffle ledger s
              in fold (\<lambda>(requests, peers). send_chunks sample delivered ledger now (keys peers) (chunks MAXIMUM_NUMBER_OF_BLOCKS requests))
                   batches s)"

section \<open>Advancing\<close>

lemma peek_shrinks:
  assumes "peek_next_block h s = Some b"
  shows "length (block_requests (remove_block_response h s)) < length (block_requests s)"
proof -
  obtain e where "map_of (block_requests s) h = Some e"
    using assms by (cases "map_of (block_requests s) h") (simp_all add: peek_next_block_def)
  then have "(h, e) \<in> set (block_requests s)" by (rule map_of_SomeD)
  then have "length (filter (\<lambda>(k, _). h \<noteq> k) (block_requests s)) < length (block_requests s)"
    by (rule length_filter_less) simp
  then show ?thesis by (simp add: remove_block_response_def AList.delete_eq)
qed

text \<open>What the ledger makes of the next block.\<close>

datatype advance_outcome = Advanced block_ledger | AlreadyAdvanced | ShuttingDown | AdvanceFailed error

function advance_loop ::
    "(block_ledger \<Rightarrow> 'b synced_block \<Rightarrow> advance_outcome) \<Rightarrow> u32 \<Rightarrow> block_ledger \<Rightarrow> ('p, 'b) block_sync
      \<Rightarrow> u32 result \<times> block_ledger \<times> ('p, 'b) block_sync" where
  "advance_loop advance current_height ledger s =
     (let next_height = current_height + 1 in
      case peek_next_block next_height s of
        None \<Rightarrow> (Ok current_height, ledger, s)
      | Some b \<Rightarrow>
          if block_height b \<noteq> next_height then (Ok current_height, ledger, s)
          else case advance ledger b of
            AdvanceFailed err \<Rightarrow> (Inl err, ledger, s)
          | ShuttingDown \<Rightarrow> (Ok current_height, ledger, remove_block_response next_height s)
          | AlreadyAdvanced \<Rightarrow> advance_loop advance next_height ledger (remove_block_response next_height s)
          | Advanced ledger \<Rightarrow> advance_loop advance next_height ledger (remove_block_response next_height s))"
  by auto
termination
  by (relation "measure (\<lambda>(_, _, _, s). length (block_requests s))") (auto simp: peek_shrinks)

declare advance_loop.simps [simp del]

definition try_advancing_block_synchronization ::
    "(block_ledger \<Rightarrow> 'b synced_block \<Rightarrow> advance_outcome) \<Rightarrow> block_ledger \<Rightarrow> ('p, 'b) block_sync
      \<Rightarrow> bool result \<times> block_ledger \<times> ('p, 'b) block_sync" where
  "try_advancing_block_synchronization advance ledger s =
     (case advance_loop advance (ledger_height ledger) ledger s of
        (Inl err, ledger', s) \<Rightarrow> (Inl err, ledger', s)
      | (Inr current_height, ledger', s) \<Rightarrow>
          if current_height > ledger_height ledger then (Ok True, ledger', block_sync_set_height current_height s)
          else (Ok False, ledger', s))"

section \<open>The own locators\<close>

fun hashes_at :: "block_ledger \<Rightarrow> u32 list \<Rightarrow> (u32, field) imap result" where
  "hashes_at ledger [] = Ok []"
| "hashes_at ledger (h # hs) =
     try_bind (ledger_block_hash ledger h) (\<lambda>x. try_bind (hashes_at ledger hs) (\<lambda>m. Ok ((h, x) # m)))"

definition get_block_locators :: "block_ledger \<Rightarrow> block_locators result" where
  "get_block_locators ledger =
     (let latest_height = ledger_height ledger in
      try_bind (hashes_at ledger [saturating_sub latest_height (NUM_RECENT_BLOCKS - 1) ..< Suc latest_height]) (\<lambda>rs.
      try_bind (hashes_at ledger (map ((*) CHECKPOINT_INTERVAL) [0 ..< Suc (latest_height div CHECKPOINT_INTERVAL)])) (\<lambda>cs.
      locators_new rs cs)))"

end
