(* ===== verification/Sync_Requests.thy ===== *)
theory Sync_Requests
  imports Block_Sync
begin

text \<open>
  The bookkeeping of block requests: whatever peers send and whenever they leave, a request waits only for
  connected peers, a completed one has a block that is the one asked for, and no height is forgotten.
\<close>

section \<open>Invariant\<close>

definition matches_request :: "u32 \<Rightarrow> ('p, 'b) outstanding_request \<Rightarrow> 'b synced_block \<Rightarrow> bool" where
  "matches_request h e b \<longleftrightarrow> block_height b = h \<and> (\<forall>x. req_hash e = Some x \<longrightarrow> block_hash b = x) \<and>
     (\<forall>x. req_previous_hash e = Some x \<longrightarrow> previous_hash b = x)"

definition request_inv :: "'p set \<Rightarrow> u32 \<Rightarrow> ('p, 'b) outstanding_request \<Rightarrow> bool" where
  "request_inv peers h e \<longleftrightarrow> distinct (sync_ips e) \<and> set (sync_ips e) \<subseteq> peers \<and> (sync_ips e = [] \<longrightarrow> response e \<noteq> None) \<and>
     (\<forall>b. response e = Some b \<longrightarrow> matches_request h e b)"

definition state_inv :: "u32 option \<Rightarrow> sync_state \<Rightarrow> bool" where
  "state_inv greatest s \<longleftrightarrow> greatest_peer_height s = greatest \<and>
     (case greatest of
        Some h \<Rightarrow> status s = (if h \<le> sync_height s + MAX_BLOCKS_BEHIND then Synced else Syncing)
      | None \<Rightarrow> status s \<noteq> Syncing)"

definition sync_inv :: "('p, 'b) block_sync \<Rightarrow> bool" where
  "sync_inv s \<longleftrightarrow> wf_bmap (block_requests s) \<and> wf_bmap (failed_requests s) \<and> wf_map (peer_locators s) \<and>
     (\<forall>(h, e)\<in>set (block_requests s). request_inv (set (keys (peer_locators s))) h e) \<and>
     state_inv (max_peer_height (peer_locators s)) (sync_state_of s)"

lemma state_inv_set:
  "state_inv g s \<Longrightarrow> state_inv g (set_sync_height h s)"
  "state_inv g s \<Longrightarrow> state_inv (Some h) (set_greatest_peer_height h s)"
  "state_inv g s \<Longrightarrow> state_inv None (clear_greatest_peer_height s)"
  by (auto simp: state_inv_def set_sync_height_def set_greatest_peer_height_def clear_greatest_peer_height_def
      update_is_block_synced_def num_blocks_behind_def saturating_sub_def MAX_BLOCKS_BEHIND_def split: option.splits if_splits)

lemma state_inv_new: "state_inv None (new_with_height h)"
  by (simp add: state_inv_def new_with_height_def)

lemma wf_bmap_mark_failed: "wf_bmap m \<Longrightarrow> wf_bmap (mark_failed es m)"
  by (induction es arbitrary: m) (auto simp: mark_failed_def)

lemma keys_mark_failed: "set (keys (mark_failed es m)) = set (keys es) \<union> set (keys m)"
  by (induction es arbitrary: m) (auto simp: mark_failed_def keys_bmap_update simp del: set_map)

lemma wf_bmap_filter_map: "wf_bmap m \<Longrightarrow> wf_bmap (map (\<lambda>(h, e). (h, f e)) (filter P m))"
proof -
  assume wf: "wf_bmap m"
  have "keys (map (\<lambda>(h, e). (h, f e)) xs) = keys xs" for xs :: "('a \<times> 'b) list" by (induction xs) auto
  then show ?thesis using wf sorted_wrt_map_filter[of "(<)" fst m P] by (simp only: wf_bmap_def)
qed

lemma map_of_wf_bmap: "wf_bmap m \<Longrightarrow> map_of m h = Some e \<longleftrightarrow> (h, e) \<in> set m"
  by (rule map_of_eq_Some[OF wf_bmap_imp_wf_map])

lemma set_bmap_update: "wf_bmap m \<Longrightarrow> (x \<in> set (bmap_update h e m)) \<longleftrightarrow> x = (h, e) \<or> (x \<in> set m \<and> fst x \<noteq> h)"
proof -
  assume wf: "wf_bmap m"
  obtain k v where x: "x = (k, v)" by (cases x)
  have "(k, v) \<in> set (bmap_update h e m) \<longleftrightarrow> map_of (bmap_update h e m) k = Some v"
    using map_of_wf_bmap[OF wf_bmap_update[OF wf]] by blast
  also have "\<dots> \<longleftrightarrow> (if k = h then v = e else map_of m k = Some v)" unfolding map_of_bmap_update[OF wf] by auto
  finally show ?thesis unfolding x using map_of_wf_bmap[OF wf] by auto
qed

lemma requests_to_peer_inv:
  fixes s :: "('p, 'b) block_sync"
  assumes "\<forall>(h, e)\<in>set (block_requests s). request_inv ps h e"
  shows "\<forall>(h, e)\<in>set (block_requests (remove_block_requests_to_peer ip s)). request_inv (ps - {ip}) h e"
proof -
  have "request_inv (ps - {ip}) h (without_peer ip e)" if "request_inv ps h e" "keeps_request ip e" for h and e :: "('p, 'b) outstanding_request"
  proof -
    have "swap_remove ip xs = xs" if "ip \<notin> set xs" for xs using that by (induction xs) auto
    then show ?thesis
      using that by (auto simp: request_inv_def keeps_request_def without_peer_def matches_request_def)
  qed
  then show ?thesis using assms by (auto simp: remove_block_requests_to_peer_def)
qed

lemma sync_invD:
  assumes "sync_inv s"
  shows "wf_bmap (block_requests s)" "wf_bmap (failed_requests s)" "wf_map (peer_locators s)"
    "\<forall>(h, e)\<in>set (block_requests s). request_inv (set (keys (peer_locators s))) h e"
    "state_inv (max_peer_height (peer_locators s)) (sync_state_of s)"
  using assms by (simp_all add: sync_inv_def)

lemma requests_to_peer_wf:
  "wf_bmap (block_requests s) \<Longrightarrow> wf_bmap (block_requests (remove_block_requests_to_peer ip s))"
  "wf_bmap (failed_requests s) \<Longrightarrow> wf_bmap (failed_requests (remove_block_requests_to_peer ip s))"
  by (simp_all add: remove_block_requests_to_peer_def wf_bmap_filter_map wf_bmap_mark_failed)

lemma request_inv_mono: "request_inv ps h e \<Longrightarrow> ps \<subseteq> qs \<Longrightarrow> request_inv qs h e"
  by (auto simp: request_inv_def)

lemma remove_requests_inv: "sync_inv s \<Longrightarrow> sync_inv (remove_block_requests_to_peer ip s)"
  using requests_to_peer_inv[of s "set (keys (peer_locators s))" ip] requests_to_peer_wf[of s ip] sync_invD[of s]
  unfolding sync_inv_def by (fastforce simp: remove_block_requests_to_peer_def elim: request_inv_mono)

lemma remove_peer_inv:
  assumes "sync_inv s"
  shows "sync_inv (remove_peer ip s)"
proof -
  let ?t = "s\<lparr>peer_locators := AList.delete ip (peer_locators s),
      common_ancestors := filter (\<lambda>(pair, _). \<not> peer_pair_contains pair ip) (common_ancestors s)\<rparr>"
  let ?r = "remove_block_requests_to_peer ip ?t"
  note d = sync_invD[OF assms]
  have f: "peer_locators ?r = AList.delete ip (peer_locators s)" "sync_state_of ?r = sync_state_of s"
    by (simp_all add: remove_block_requests_to_peer_def)
  have eq: "remove_peer ip s = ?r\<lparr>sync_state_of := (case max_peer_height (AList.delete ip (peer_locators s)) of
      Some h \<Rightarrow> set_greatest_peer_height h (sync_state_of s) | None \<Rightarrow> clear_greatest_peer_height (sync_state_of s))\<rparr>"
    unfolding remove_peer_def Let_def f by (rule refl)
  have "\<forall>(h, e)\<in>set (block_requests ?r). request_inv (set (keys (peer_locators s)) - {ip}) h e"
    using requests_to_peer_inv[of ?t "set (keys (peer_locators s))" ip] d(4) by simp
  moreover have "set (keys (AList.delete ip (peer_locators s))) = set (keys (peer_locators s)) - {ip}"
    by (simp add: AList.delete_keys)
  moreover have "state_inv (max_peer_height (AList.delete ip (peer_locators s))) (sync_state_of (remove_peer ip s))"
    unfolding eq using state_inv_set(2,3)[OF d(5)] by (simp split: option.split)
  ultimately show ?thesis
    using d requests_to_peer_wf[of ?t ip] unfolding sync_inv_def by (simp add: eq f)
qed

lemma max_peer_height_update: "max_peer_height (AList.update ip l m) \<noteq> None"
proof -
  have "ip \<in> set (keys (AList.update ip l m))" by (simp add: dom_map_of_conv_image_fst[symmetric] update_conv')
  then show ?thesis by (auto simp: max_peer_height_def)
qed

lemma update_peer_inv:
  assumes "sync_inv s"
  shows "sync_inv (update_peer_locators ledger self_ip ip l s)"
proof (cases "map_of (peer_locators s) ip = Some l")
  case False
  let ?m = "AList.update ip l (peer_locators s)"
  note d = sync_invD[OF assms]
  obtain h where h: "max_peer_height ?m = Some h" using max_peer_height_update[of ip l "peer_locators s"] by blast
  have "set (keys (peer_locators s)) \<subseteq> set (keys ?m)"
    by (auto simp: dom_map_of_conv_image_fst[symmetric] update_conv')
  then have "\<forall>(h, e)\<in>set (block_requests s). request_inv (set (keys ?m)) h e"
    using d(4) by (fast intro: request_inv_mono)
  then show ?thesis
    using d state_inv_set(2)[OF d(5), of h] False unfolding sync_inv_def update_peer_locators_def Let_def h by (simp add: h)
qed (simp add: assms update_peer_locators_def)

lemma put_request_inv:
  assumes "sync_inv s" "request_inv (set (keys (peer_locators s))) h e"
  shows "sync_inv (s\<lparr>block_requests := bmap_update h e (block_requests s)\<rparr>)"
  using assms sync_invD[OF assms(1)] unfolding sync_inv_def by (auto simp: set_bmap_update)

lemma answered_inv:
  assumes "request_inv ps h e"
  shows "response e \<noteq> None \<Longrightarrow> request_inv ps h (e\<lparr>sync_ips := swap_remove ip (sync_ips e)\<rparr>)"
    "matches_request h e b \<Longrightarrow> request_inv ps h (e\<lparr>sync_ips := swap_remove ip (sync_ips e), response := Some b\<rparr>)"
proof -
  have d: "distinct (sync_ips e)" "set (sync_ips e) \<subseteq> ps" using assms by (simp_all add: request_inv_def)
  then have "set (swap_remove ip (sync_ips e)) \<subseteq> ps" by auto
  then show "response e \<noteq> None \<Longrightarrow> request_inv ps h (e\<lparr>sync_ips := swap_remove ip (sync_ips e)\<rparr>)"
    "matches_request h e b \<Longrightarrow> request_inv ps h (e\<lparr>sync_ips := swap_remove ip (sync_ips e), response := Some b\<rparr>)"
    using assms d(1) by (simp_all add: request_inv_def matches_request_def)
qed

lemma insert_block_response_inv:
  assumes "sync_inv s" "insert_block_response ledger ip b s = (r, s')"
  shows "sync_inv s'"
proof (cases "map_of (block_requests s) (block_height b)")
  case None
  then show ?thesis using assms by (auto simp: insert_block_response_def Let_def split: if_splits)
next
  case (Some e)
  let ?h = "block_height b" and ?ps = "set (keys (peer_locators s))"
  have e: "request_inv ?ps ?h e" using sync_invD(4)[OF assms(1)] map_of_SomeD[OF Some] by blast
  let ?e = "e\<lparr>sync_ips := swap_remove ip (sync_ips e)\<rparr>"
  note answered_inv[OF e]
  moreover have "s' = s \<or> (response e \<noteq> None \<and> s' = s\<lparr>block_requests := bmap_update ?h ?e (block_requests s)\<rparr>) \<or>
      (matches_request ?h e b \<and> s' = s\<lparr>block_requests := bmap_update ?h (?e\<lparr>response := Some b\<rparr>) (block_requests s)\<rparr>)"
    using assms(2) unfolding insert_block_response_def Let_def Some option.case matches_request_def
    by (cases "req_hash e"; cases "req_previous_hash e"; cases "response e") (simp_all split: if_splits)
  ultimately show ?thesis using assms(1) put_request_inv[OF assms(1), of ?h] by blast
qed

lemma insert_each_response_inv:
  "sync_inv s \<Longrightarrow> insert_each_response ledger ip bs s = (r, s') \<Longrightarrow> sync_inv s'"
  by (induction bs arbitrary: s) (auto dest: insert_block_response_inv split: prod.splits sum.splits)

lemma insert_block_responses_cases:
  assumes "insert_block_responses n ledger ip bs v s = (r, s')"
  obtains s1 where "s1 = s \<or> (\<exists>r1. insert_each_response ledger ip bs s = (r1, s1))" "s' = s1 \<or> s' = remove_block_requests_to_peer ip s1"
proof -
  obtain r1 s1 where s1: "insert_each_response ledger ip bs s = (r1, s1)" by fastforce
  have "s' \<in> {s, remove_block_requests_to_peer ip s, s1, remove_block_requests_to_peer ip s1}"
    using assms by (auto simp: insert_block_responses_def Let_def s1 split: if_splits sum.splits)
  then show thesis using that[of s] that[of s1] s1 by blast
qed

lemma insert_block_responses_inv:
  assumes "sync_inv s" "insert_block_responses n ledger ip bs v s = (r, s')"
  shows "sync_inv s'"
  using assms(2)
proof (cases rule: insert_block_responses_cases)
  case (1 s1)
  then have "sync_inv s1" using assms(1) insert_each_response_inv[OF assms(1)] by blast
  then show ?thesis using 1(2) remove_requests_inv[of s1 ip] by blast
qed

lemma insert_each_request_inv:
  assumes "distinct ips"
  shows "sync_inv s \<Longrightarrow> set ips \<subseteq> set (keys (peer_locators s)) \<Longrightarrow> insert_each_request ledger now ips rs s = (r, s') \<Longrightarrow> sync_inv s'"
proof (induction rs arbitrary: s)
  case (Cons x rs)
  obtain h hash prev k where x: "x = (h, hash, prev, k)" by (cases x)
  obtain r1 s1 where s1: "insert_block_request ledger now h (hash, prev, ips) s = (r1, s1)" by fastforce
  have "sync_inv s1 \<and> peer_locators s1 = peer_locators s"
    using s1 Cons.prems(1,2) assms put_request_inv[OF Cons.prems(1), of h]
    by (auto simp: insert_block_request_def request_inv_def split: sum.splits if_splits)
  then show ?case using Cons x s1 by (auto split: sum.splits)
qed simp

lemma keep_requests_inv:
  assumes "sync_inv s" "set rs \<subseteq> set (block_requests s)" "wf_bmap rs"
  shows "sync_inv (s\<lparr>block_requests := rs\<rparr>)"
  using assms unfolding sync_inv_def by auto

lemma send_block_requests_inv:
  assumes "sync_inv s" "distinct chosen" "send_block_requests ledger now chosen delivered rs s = (r, s')"
  shows "sync_inv s'"
proof (cases rs)
  case Nil
  then show ?thesis using assms by (simp add: send_block_requests_def)
next
  case (Cons x xs)
  obtain b s1 where s1: "insert_each_request ledger now chosen rs s = (b, s1)" by fastforce
  let ?keep = "\<lambda>h _. \<not> (fst x \<le> h \<and> h < saturating_add_u32 (fst x) (length rs))"
  have "s' = s \<or> (set chosen \<subseteq> set (keys (peer_locators s)) \<and>
      s' \<in> {s1, s1\<lparr>block_requests := map_retain ?keep (block_requests s1)\<rparr>})"
    using assms(3) s1 Cons unfolding send_block_requests_def Let_def by (cases x) (auto split: if_splits bool.splits)
  moreover have "sync_inv s1" if "set chosen \<subseteq> set (keys (peer_locators s))"
    by (rule insert_each_request_inv[OF assms(2,1) that s1])
  moreover have "sync_inv (s1\<lparr>block_requests := map_retain ?keep (block_requests s1)\<rparr>)" if "sync_inv s1"
    by (rule keep_requests_inv[OF that]) (auto simp: map_retain_def sync_invD(1)[OF that] wf_bmap_retain[unfolded map_retain_def])
  ultimately show ?thesis using assms(1) by blast
qed

lemma timeouts_inv:
  assumes "sync_inv s"
  shows "sync_inv (handle_block_request_timeouts ledger now s)"
proof -
  let ?late = "filter (\<lambda>(_, e). timed_out now e) (block_requests s)"
  let ?rest = "filter (\<lambda>(h, e). \<not> timed_out now e \<and> \<not> h \<le> ledger_height ledger) (block_requests s)"
  have "wf_bmap ?rest" using wf_bmap_retain[OF sync_invD(1)[OF assms], of "\<lambda>h e. \<not> timed_out now e \<and> \<not> h \<le> ledger_height ledger"]
    by (simp add: map_retain_def)
  from keep_requests_inv[OF assms _ this] have "sync_inv (s\<lparr>block_requests := ?rest\<rparr>)" by auto
  then have "sync_inv (s\<lparr>block_requests := ?rest, failed_requests := mark_failed ?late (failed_requests s)\<rparr>)"
    using wf_bmap_mark_failed[OF sync_invD(2)[OF assms], of ?late] unfolding sync_inv_def by simp
  moreover have "sync_inv t \<Longrightarrow> sync_inv (fold remove_peer ips t)" for ips t
    by (induction ips arbitrary: t) (simp_all add: remove_peer_inv)
  ultimately show ?thesis by (simp add: handle_block_request_timeouts_def Let_def)
qed

lemma wf_bmap_dropWhile: "wf_bmap m \<Longrightarrow> wf_bmap (dropWhile P m)"
  using sorted_wrt_drop[of "(<)" "keys m"] by (simp add: wf_bmap_def dropWhile_eq_drop drop_map)

lemma delete_retain: "AList.delete h m = map_retain (\<lambda>k _. h \<noteq> k) m"
  by (simp add: AList.delete_eq map_retain_def)

lemma wf_bmap_delete_all: "wf_bmap m \<Longrightarrow> wf_bmap (fold (\<lambda>(h, _). AList.delete h) rs m)"
  by (induction rs arbitrary: m) (auto simp: delete_retain wf_bmap_retain)

lemma reissue_wf:
  "wf_bmap m \<Longrightarrow> reissue_requests shuffle ledger s bs m res = (res', m') \<Longrightarrow> wf_bmap m'"
proof (induction bs arbitrary: m res)
  case (Cons b bs)
  from Cons.prems show ?case
    by (auto simp: Let_def wf_bmap_delete_all split: option.splits prod.splits if_splits elim!: Cons.IH[rotated])
qed simp

lemma prepare_inv:
  assumes "sync_inv s" "prepare_block_requests shuffle ledger s = (batches, s')"
  shows "sync_inv s' \<and> block_requests s' = block_requests s \<and> peer_locators s' = peer_locators s"
proof -
  note wf = wf_bmap_dropWhile[OF sync_invD(2)[OF assms(1)]]
  have "s' = s\<lparr>failed_requests := failed_requests s'\<rparr> \<and> wf_bmap (failed_requests s')"
    using assms(2) wf reissue_wf[OF wf]
    unfolding prepare_block_requests_def Let_def by (auto split: if_splits prod.splits option.splits)
  moreover have "sync_inv (s\<lparr>failed_requests := m\<rparr>)" if "wf_bmap m" for m using assms(1) that unfolding sync_inv_def by simp
  ultimately show ?thesis by (metis block_sync.select_convs(1,3) block_sync.surjective block_sync.update_convs(5))
qed

text \<open>Everything that happens to the bookkeeping, in any order and with any ledger.\<close>

inductive sync_reachable :: "('p, 'b) block_sync \<Rightarrow> bool" where
  sync_new: "sync_reachable (block_sync_new ledger)"
| sync_locators: "sync_reachable s \<Longrightarrow> sync_reachable (update_peer_locators ledger self_ip ip l s)"
| sync_disconnect: "sync_reachable s \<Longrightarrow> sync_reachable (remove_peer ip s)"
| sync_responses: "sync_reachable s \<Longrightarrow> insert_block_responses n ledger ip bs v s = (r, s') \<Longrightarrow> sync_reachable s'"
| sync_timeouts: "sync_reachable s \<Longrightarrow> sync_reachable (handle_block_request_timeouts ledger now s)"
| sync_prepare: "sync_reachable s \<Longrightarrow> prepare_block_requests shuffle ledger s = (batches, s') \<Longrightarrow> sync_reachable s'"
| sync_send: "sync_reachable s \<Longrightarrow> distinct chosen \<Longrightarrow>
    send_block_requests ledger now chosen delivered rs s = (r, s') \<Longrightarrow> sync_reachable s'"
| sync_remove: "sync_reachable s \<Longrightarrow> sync_reachable (remove_block_response h s)"
| sync_advance: "sync_reachable s \<Longrightarrow> sync_reachable (block_sync_set_height h s)"

lemma sync_new_inv: "sync_inv (block_sync_new ledger)"
  using state_inv_new by (simp add: sync_inv_def block_sync_new_def max_peer_height_def wf_bmap_def wf_map_def)

lemma sync_remove_inv:
  assumes "sync_inv s"
  shows "sync_inv (remove_block_response h s)"
proof -
  show ?thesis
    using keep_requests_inv[OF assms, of "AList.delete h (block_requests s)"] wf_bmap_retain[OF sync_invD(1)[OF assms]]
    by (simp add: remove_block_response_def delete_retain) (simp add: map_retain_def)
qed

lemma sync_advance_inv: "sync_inv s \<Longrightarrow> sync_inv (block_sync_set_height h s)"
  using state_inv_set(1) by (auto simp: sync_inv_def block_sync_set_height_def)

lemma sync_reachable_inv: "sync_reachable s \<Longrightarrow> sync_inv s"
proof (induction rule: sync_reachable.induct)
  case (sync_prepare s shuffle ledger batches s')
  then show ?case using prepare_inv by blast
qed (rule sync_new_inv, erule update_peer_inv, erule remove_peer_inv, erule (1) insert_block_responses_inv, erule timeouts_inv,
    erule (2) send_block_requests_inv, erule sync_remove_inv, erule sync_advance_inv)

section \<open>No height is forgotten\<close>

definition tracked :: "('p, 'b) block_sync \<Rightarrow> u32 set" where
  "tracked s = set (keys (block_requests s)) \<union> set (keys (failed_requests s))"

lemma keys_filter_split: "set (keys (filter (\<lambda>(_, e). P e) m)) \<union> set (keys (filter (\<lambda>(_, e). \<not> P e) m)) = set (keys m)"
  by (induction m) auto

lemma keys_map_values: "keys (map (\<lambda>(h, e). (h, f e)) m) = keys m"
  by (induction m) auto

lemma tracked_requests_to_peer: "tracked (remove_block_requests_to_peer ip s) = tracked s"
  unfolding tracked_def remove_block_requests_to_peer_def
  by (simp add: keys_mark_failed keys_map_values keys_filter_split Un_assoc[symmetric] del: set_map map_map)

lemma tracked_remove_peer: "tracked (remove_peer ip s) = tracked s"
proof -
  let ?t = "s\<lparr>peer_locators := AList.delete ip (peer_locators s),
      common_ancestors := filter (\<lambda>(pair, _). \<not> peer_pair_contains pair ip) (common_ancestors s)\<rparr>"
  have "tracked (remove_peer ip s) = tracked (remove_block_requests_to_peer ip ?t)"
    by (simp add: tracked_def remove_peer_def Let_def)
  also have "\<dots> = tracked s" unfolding tracked_requests_to_peer by (simp add: tracked_def)
  finally show ?thesis .
qed

lemma tracked_response: "tracked (snd (insert_block_response ledger ip b s)) = tracked s"
proof (cases "map_of (block_requests s) (block_height b)")
  case None
  then show ?thesis by (simp add: insert_block_response_def Let_def)
next
  case (Some e)
  have "block_height b \<in> set (keys (block_requests s))" using map_of_SomeD[OF Some] by force
  then have "tracked (s\<lparr>block_requests := bmap_update (block_height b) x (block_requests s)\<rparr>) = tracked s" for x
    unfolding tracked_def by (simp add: keys_bmap_update insert_absorb del: set_map)
  then show ?thesis by (simp add: insert_block_response_def Let_def Some split: option.split)
qed

lemma tracked_responses: "tracked (snd (insert_block_responses n ledger ip bs v s)) = tracked s"
proof -
  obtain r s' where rs: "insert_block_responses n ledger ip bs v s = (r, s')" by fastforce
  have each: "insert_each_response ledger ip bs t = (r, t') \<Longrightarrow> tracked t' = tracked t" for t t' r
  proof (induction bs arbitrary: t)
    case (Cons b bs)
    then show ?case using tracked_response[of ledger ip b t] by (auto split: prod.splits sum.splits)
  qed simp
  from rs show ?thesis
    by (cases rule: insert_block_responses_cases) (auto simp: rs tracked_requests_to_peer each)
qed

lemma tracked_timeouts:
  "{h \<in> tracked s. ledger_height ledger < h} \<subseteq> tracked (handle_block_request_timeouts ledger now s)"
  "tracked (handle_block_request_timeouts ledger now s) \<subseteq> tracked s"
proof -
  have f: "tracked (fold remove_peer ips t) = tracked t" for ips and t :: "('a, 'b) block_sync"
    by (induction ips arbitrary: t) (simp_all add: tracked_remove_peer)
  let ?late = "filter (\<lambda>(_, e). timed_out now e) (block_requests s)"
  let ?rest = "filter (\<lambda>(h, e). \<not> timed_out now e \<and> \<not> h \<le> ledger_height ledger) (block_requests s)"
  have eq: "tracked (handle_block_request_timeouts ledger now s) = set (keys ?rest) \<union> set (keys ?late) \<union> set (keys (failed_requests s))"
    unfolding handle_block_request_timeouts_def Let_def f by (simp add: tracked_def keys_mark_failed Un_assoc del: set_map)
  show "{h \<in> tracked s. ledger_height ledger < h} \<subseteq> tracked (handle_block_request_timeouts ledger now s)"
    unfolding eq by (fastforce simp: tracked_def)
  show "tracked (handle_block_request_timeouts ledger now s) \<subseteq> tracked s"
    unfolding eq by (auto simp: tracked_def)
qed

lemma last_peer_unsynced:
  assumes "state_inv (max_peer_height (peer_locators s)) (sync_state_of s)" "peer_locators s \<noteq> []" "peer_locators (remove_peer ip s) = []"
  shows "status (sync_state_of (remove_peer ip s)) = Unsynced"
proof -
  have g: "greatest_peer_height (sync_state_of s) \<noteq> None" using assms(1,2) by (auto simp: state_inv_def max_peer_height_def)
  have "AList.delete ip (peer_locators s) = []" using assms(3) by (simp add: remove_peer_def remove_block_requests_to_peer_def Let_def)
  then have "sync_state_of (remove_peer ip s) = clear_greatest_peer_height (sync_state_of s)"
    by (simp add: remove_peer_def remove_block_requests_to_peer_def Let_def max_peer_height_def)
  then show ?thesis using g by (simp add: clear_greatest_peer_height_def update_is_block_synced_def num_blocks_behind_def)
qed

lemma lonely_unsynced:
  assumes "state_inv (max_peer_height (peer_locators s)) (sync_state_of s)" "peer_locators s = []" "sync_height (sync_state_of s) < h"
  shows "status (sync_state_of (block_sync_set_height h s)) = Unsynced"
  using assms by (simp add: block_sync_set_height_def state_inv_def max_peer_height_def set_sync_height_def update_is_block_synced_def
      num_blocks_behind_def)

section \<open>Properties\<close>

lemma peek_next_blockD:
  "peek_next_block h s = Some b \<Longrightarrow> \<exists>e. (h, e) \<in> set (block_requests s) \<and> sync_ips e = [] \<and> response e = Some b"
  by (auto simp: peek_next_block_def dest: map_of_SomeD split: option.splits if_splits)

text \<open>A node at genesis with one peer, which has sent the first of three blocks.\<close>

definition genesis_ledger :: block_ledger where
  "genesis_ledger = \<lparr>ledger_height = 0, ledger_block_hash = (\<lambda>h. if h = 0 then Ok 5 else bail ''no block''),
     contains_block_height = (\<lambda>h. h = 0)\<rparr>"

definition three_blocks :: block_locators where
  "three_blocks = \<lparr>recents = [(0, 5), (1, 6), (2, 8), (3, 9)], checkpoints = [(0, 5)]\<rparr>"

definition next_synced_block :: "unit synced_block" where
  "next_synced_block = \<lparr>block_height = 1, block_hash = 6, previous_hash = 5, block_contents = ()\<rparr>"

definition block_sync_connected :: "(nat, unit) block_sync" where
  "block_sync_connected = update_peer_locators genesis_ledger 0 7 three_blocks (block_sync_new genesis_ledger)"

definition block_sync_asked :: "(nat, unit) block_sync" where
  "block_sync_asked = snd (send_block_requests genesis_ledger 0 [7] (\<lambda>_. True) [(1, Some 6, Some 5, 1)] block_sync_connected)"

definition block_sync_fetched :: "(nat, unit) block_sync" where
  "block_sync_fetched = snd (insert_block_responses MainnetV0 genesis_ledger 7 [next_synced_block] None block_sync_asked)"

lemma connected_reachable: "sync_reachable block_sync_connected"
  unfolding block_sync_connected_def by (intro sync_locators sync_new)

lemma fetched_reachable: "sync_reachable block_sync_fetched"
proof -
  have "sync_reachable block_sync_asked"
    unfolding block_sync_asked_def by (rule sync_send[OF connected_reachable _ prod.collapse[symmetric]]) simp
  then show ?thesis unfolding block_sync_fetched_def by (rule sync_responses[OF _ prod.collapse[symmetric]])
qed

lemma connected_state:
  "block_sync_connected = \<lparr>peer_locators = [(7, three_blocks)], common_ancestors = [((0, 7), 0)], block_requests = [],
     sync_state_of = \<lparr>sync_height = 0, greatest_peer_height = Some 3, status = Syncing, bft_sync_mode = None\<rparr>, failed_requests = []\<rparr>"
  by (simp add: block_sync_connected_def update_peer_locators_def block_sync_new_def genesis_ledger_def three_blocks_def Let_def
      locators_into_iter_def max_peer_height_def latest_locator_height_def new_with_height_def set_greatest_peer_height_def
      update_is_block_synced_def num_blocks_behind_def saturating_sub_def MAX_BLOCKS_BEHIND_def ok_def)

lemma asked_state:
  "block_sync_asked = block_sync_connected\<lparr>block_requests :=
     [(1, \<lparr>req_hash = Some 6, req_previous_hash = Some 5, sync_ips = [7], req_timestamp = 0, response = None\<rparr>)]\<rparr>"
  by (simp add: block_sync_asked_def connected_state send_block_requests_def insert_block_request_def check_block_request_def
      genesis_ledger_def)

lemma fetched_eq:
  "block_sync_fetched = block_sync_asked\<lparr>block_requests :=
     [(1, \<lparr>req_hash = Some 6, req_previous_hash = Some 5, sync_ips = [], req_timestamp = 0, response = Some next_synced_block\<rparr>)]\<rparr>"
proof -
  have "CONSENSUS_VERSION MainnetV0 1 = Ok V1"
    by (simp add: CONSENSUS_VERSION_def MainnetV0_def MAINNET_V0_CONSENSUS_VERSION_HEIGHTS_def binary_search_def u32_max_def)
  moreover have "\<not> V12 \<le> V1" by code_simp
  ultimately show ?thesis
    by (simp add: block_sync_fetched_def asked_state connected_state insert_block_responses_def insert_block_response_def
        genesis_ledger_def next_synced_block_def Let_def)
qed

lemma fetched_state: "peek_next_block 1 block_sync_fetched = Some next_synced_block"
    "peer_locators block_sync_fetched = [(7, three_blocks)]" "sync_height (sync_state_of block_sync_fetched) = 0"
    "latest_locator_height three_blocks = 3" "MAX_BLOCKS_BEHIND = 1"
  by (simp_all add: fetched_eq asked_state connected_state peek_next_block_def three_blocks_def latest_locator_height_def
      MAX_BLOCKS_BEHIND_def)

text \<open>C21. However locators, responses, timeouts, disconnections and requests are interleaved, a block request waits only for
  distinct connected peers and one that waits for nobody has its block.  A stored block has the height, hash and previous
  hash that were asked for, so the block offered next is the block of the next height.  With peers, the node calls
  itself synced exactly when none of them is more than one block ahead.  It is unsynced once the last peer
  has left, and once its height grew while it had no peers.\<close>

theorem sync_requests_sound:
  fixes s :: "('p, 'b) block_sync"
  assumes "sync_reachable s"
  shows "(\<forall>(h, e)\<in>set (block_requests s). request_inv (set (keys (peer_locators s))) h e) \<and>
    (\<forall>h b. peek_next_block h s = Some b \<longrightarrow> block_height b = h) \<and>
    (peer_locators s \<noteq> [] \<longrightarrow>
      (is_block_synced (sync_state_of s) \<longleftrightarrow>
        (\<forall>l\<in>set (vals (peer_locators s)). latest_locator_height l \<le> sync_height (sync_state_of s) + MAX_BLOCKS_BEHIND))) \<and>
    (\<forall>ip. peer_locators s \<noteq> [] \<and> peer_locators (remove_peer ip s) = [] \<longrightarrow> status (sync_state_of (remove_peer ip s)) = Unsynced) \<and>
    (\<forall>h. peer_locators s = [] \<and> sync_height (sync_state_of s) < h \<longrightarrow> status (sync_state_of (block_sync_set_height h s)) = Unsynced)"
proof (intro conjI)
  note inv = sync_reachable_inv[OF assms]
  show r: "\<forall>(h, e)\<in>set (block_requests s). request_inv (set (keys (peer_locators s))) h e"
    using inv by (simp add: sync_inv_def)
  have "block_height b = h" if "peek_next_block h s = Some b" for h b
    using bspec[OF r] peek_next_blockD[OF that] by (fastforce simp: request_inv_def matches_request_def)
  then show "\<forall>h b. peek_next_block h s = Some b \<longrightarrow> block_height b = h" by blast
  have st: "state_inv (max_peer_height (peer_locators s)) (sync_state_of s)" using inv by (simp add: sync_inv_def)
  then show "peer_locators s \<noteq> [] \<longrightarrow>
      (is_block_synced (sync_state_of s) \<longleftrightarrow>
        (\<forall>l\<in>set (vals (peer_locators s)). latest_locator_height l \<le> sync_height (sync_state_of s) + MAX_BLOCKS_BEHIND))"
    by (cases "peer_locators s") (auto simp: state_inv_def max_peer_height_def is_block_synced_def split: if_splits)
  show "\<forall>ip. peer_locators s \<noteq> [] \<and> peer_locators (remove_peer ip s) = [] \<longrightarrow> status (sync_state_of (remove_peer ip s)) = Unsynced"
    using last_peer_unsynced[OF st] by blast
  show "\<forall>h. peer_locators s = [] \<and> sync_height (sync_state_of s) < h \<longrightarrow> status (sync_state_of (block_sync_set_height h s)) = Unsynced"
    using lonely_unsynced[OF st] by blast
qed

theorem sync_requests_sound_witness:
  "sync_reachable (block_sync_fetched) \<and> peek_next_block 1 block_sync_fetched = Some next_synced_block \<and>
   block_height next_synced_block = 1 \<and> \<not> is_block_synced (sync_state_of block_sync_fetched) \<and>
   status (sync_state_of (remove_peer 7 block_sync_fetched)) = Unsynced"
proof -
  have "peer_locators (remove_peer 7 block_sync_fetched) = []"
    by (simp add: remove_peer_def remove_block_requests_to_peer_def Let_def fetched_state)
  then show ?thesis using sync_requests_sound[OF fetched_reachable] fetched_state fetched_reachable by simp
qed

text \<open>C22. A height that is being fetched stays known, as a request or as a failed one, when a peer leaves, when any
  response arrives, valid or not, and, unless the ledger has reached it, when requests time out; none of them adds a height.\<close>

theorem no_height_forgotten:
  "tracked (remove_peer ip s) = tracked s \<and>
   tracked (snd (insert_block_responses n ledger ip bs v s)) = tracked s \<and>
   {h \<in> tracked s. ledger_height ledger < h} \<subseteq> tracked (handle_block_request_timeouts ledger now s) \<and>
   tracked (handle_block_request_timeouts ledger now s) \<subseteq> tracked s"
  by (simp add: tracked_remove_peer tracked_responses tracked_timeouts)

end
