(* ===== verification/Sync_Schedule.thy ===== *)
theory Sync_Schedule
  imports Sync_Requests "HOL-Library.Sublist"
begin

text \<open>
  Which blocks are asked for, and from whom: the requests that are prepared, the range they cover, the hashes
  they expect, and the own locators that peers choose by.
\<close>

section \<open>The hashes of a request\<close>

lemma request_hashes_result:
  "request_hashes h ls hash red prev = (hash', red', prev', honest) \<Longrightarrow>
     (if honest then (\<forall>x. hash = Some x \<longrightarrow> hash' = Some x) \<and> (\<forall>x. prev = Some x \<longrightarrow> prev' = Some x) \<and>
        (\<forall>l\<in>set ls. get_hash l h \<in> {None, hash'} \<and> get_hash l (saturating_sub h 1) \<in> {None, prev'})
      else hash' = None \<and> prev' = None)"
proof (induction ls arbitrary: hash red prev)
  case (Cons l ls)
  from Cons.prems show ?case
    by (cases "get_hash l h"; cases hash; cases "get_hash l (saturating_sub h 1)"; cases prev)
      (auto simp: Let_def dest!: Cons.IH split: if_splits)
qed simp

lemma construct_request_result:
  assumes "construct_request h peers = (hash, prev, k, honest)" "hash = Some x"
  shows "\<forall>l\<in>set (vals peers). get_hash l h \<in> {None, Some x}"
  using assms request_hashes_result[of h "vals peers" None 0 None]
  by (auto simp: construct_request_def split: prod.splits if_splits)

section \<open>The range of a batch\<close>

lemma build_requests_result:
  "build_requests ledger s peers hs acc m = (out, k) \<Longrightarrow>
     \<exists>i j new. out = acc @ new \<and> map fst new = take j (drop i hs) \<and> (acc \<noteq> [] \<longrightarrow> i = 0) \<and>
       (\<forall>(h, hash, prev)\<in>set new. is_ok (check_block_request ledger h s) \<and> (\<exists>n b. construct_request h peers = (hash, prev, n, b)))"
proof (induction hs arbitrary: acc m)
  case (Cons h hs)
  show ?case
  proof (cases "is_ok (check_block_request ledger h s)")
    case False
    show ?thesis
    proof (cases "acc = []")
      case True
      then have "build_requests ledger s peers hs acc m = (out, k)" using Cons.prems False by simp
      from Cons.IH[OF this] obtain i j new where n: "out = acc @ new" "map fst new = take j (drop i hs)"
        "\<forall>(h, hash, prev)\<in>set new. is_ok (check_block_request ledger h s) \<and> (\<exists>n b. construct_request h peers = (hash, prev, n, b))"
        by blast
      then show ?thesis using True by (intro exI[of _ "Suc i"] exI[of _ j] exI[of _ new]) simp
    next
      case False': False
      then have "out = acc" using Cons.prems False by simp
      then show ?thesis by (intro exI[of _ 0] exI[of _ 0] exI[of _ "[]"]) simp
    qed
  next
    case True
    obtain hash prev n b where c: "construct_request h peers = (hash, prev, n, b)" by (cases "construct_request h peers")
    show ?thesis
    proof (cases "\<not> b \<and> length peers < n")
      case True': True
      then have "out = acc" using Cons.prems True c by simp
      then show ?thesis by (intro exI[of _ 0] exI[of _ 0] exI[of _ "[]"]) simp
    next
      case False
      then have "build_requests ledger s peers hs (acc @ [(h, hash, prev)]) (max m n) = (out, k)" using Cons.prems True c by auto
      from Cons.IH[OF this] obtain j new where n: "out = acc @ [(h, hash, prev)] @ new" "map fst new = take j hs"
        "\<forall>(h, hash, prev)\<in>set new. is_ok (check_block_request ledger h s) \<and> (\<exists>n b. construct_request h peers = (hash, prev, n, b))"
        by auto
      show ?thesis
        using n True c by (intro exI[of _ 0] exI[of _ "Suc j"] exI[of _ "(h, hash, prev) # new"]) auto
    qed
  qed
qed (intro exI[of _ 0] exI[of _ 0] exI[of _ "[]"], simp)

lemma next_free_ge: "h \<le> next_free hs h"
proof (induction hs h rule: next_free.induct)
  case (1 hs h)
  then show ?case by (cases "h \<in> set hs") (auto simp: next_free.simps[of hs h] intro: Suc_leD)
qed

lemma sub_range: "\<exists>i'. take j (drop i [a ..< b]) = [i' ..< i' + length (take j (drop i [a ..< b]))]"
proof -
  have "take j (drop i [a ..< b]) = [a + i ..< min (a + i + j) b]"
    by (simp add: drop_upt) (cases "a + i + j \<le> b", simp_all add: take_upt min_def)
  then show ?thesis by (cases "a + i \<le> min (a + i + j) b") (auto intro!: exI[of _ "a + i"])
qed

definition sound_request ::
    "block_ledger \<Rightarrow> ('p, 'b) block_sync \<Rightarrow> ('p, block_locators) imap \<Rightarrow> u32 \<Rightarrow> u32 \<Rightarrow> u32 \<times> field option \<times> field option \<times> usize \<Rightarrow> bool" where
  "sound_request ledger s peers low high = (\<lambda>(h, hash, _, _).
     low < h \<and> h \<le> high \<and> \<not> contains_block_height ledger h \<and> h \<notin> set (keys (block_requests s)) \<and>
     (\<forall>x. hash = Some x \<longrightarrow> (\<forall>l\<in>set (vals peers). get_hash l h \<in> {None, Some x})))"

lemma construct_requests_result:
  assumes "construct_requests ledger s peers height a mx = reqs"
  shows "(\<exists>i. map fst reqs = [i ..< i + length reqs]) \<and> length reqs \<le> mx \<and> (\<forall>r\<in>set reqs. sound_request ledger s peers height a r)"
proof -
  let ?start = "next_free (keys (block_requests s)) (max (ledger_height ledger) (height + 1))"
  let ?hs = "[?start ..< min (a + 1) (?start + mx)]"
  show ?thesis
  proof (cases "a < ?start")
    case True
    then show ?thesis using assms by (simp add: construct_requests_def Let_def)
  next
    case False
    obtain out k where b: "build_requests ledger s peers ?hs [] 1 = (out, k)" by fastforce
    have reqs: "reqs = map (\<lambda>(h, hash, prev). (h, hash, prev, k)) out"
      using assms False b by (simp add: construct_requests_def Let_def)
    then have f: "map fst reqs = map fst out" "length reqs = length out" by (auto simp: case_prod_unfold comp_def)
    from build_requests_result[OF b] obtain i j where ij: "map fst out = take j (drop i ?hs)"
      "\<forall>(h, hash, prev)\<in>set out. is_ok (check_block_request ledger h s) \<and> (\<exists>n b. construct_request h peers = (hash, prev, n, b))"
      by auto
    have len: "length out = length (take j (drop i ?hs))" using ij(1) by (metis length_map)
    have "sound_request ledger s peers height a (h, hash, prev, k)" if "(h, hash, prev) \<in> set out" for h hash prev
    proof -
      have "h \<in> set (map fst out)" using that by force
      then have "h \<in> set ?hs" unfolding ij(1) by (metis in_set_dropD in_set_takeD)
      moreover have "height < ?start" using next_free_ge[of "max (ledger_height ledger) (height + 1)" "keys (block_requests s)"] by simp
      moreover have o: "is_ok (check_block_request ledger h s)" "\<exists>n b. construct_request h peers = (hash, prev, n, b)"
        using bspec[OF ij(2) that] by simp_all
      have "\<not> contains_block_height ledger h \<and> h \<notin> set (keys (block_requests s))"
        using o(1) by (auto simp: check_block_request_def simp del: set_map split: if_splits)
      moreover have "\<forall>x. hash = Some x \<longrightarrow> (\<forall>l\<in>set (vals peers). get_hash l h \<in> {None, Some x})"
        using o(2) construct_request_result[of h peers hash prev] by blast
      ultimately show ?thesis by (simp add: sound_request_def del: set_map)
    qed
    then have "\<forall>r\<in>set reqs. sound_request ledger s peers height a r" unfolding reqs by auto
    moreover have "length reqs \<le> mx" unfolding f(2) len by simp
    moreover have "\<exists>i. map fst reqs = [i ..< i + length reqs]" unfolding f len ij(1) by (rule sub_range)
    ultimately show ?thesis by blast
  qed
qed

section \<open>The peers of a batch\<close>

text \<open>One of them has an ancestor in common with all the others that is above the ledger and not below \<open>a\<close>.\<close>

definition agreeing_peers :: "('p \<times> 'p, u32) imap \<Rightarrow> u32 \<Rightarrow> ('p, block_locators) imap \<Rightarrow> bool" where
  "agreeing_peers ancestors a peers \<longleftrightarrow> (\<exists>p\<in>set peers. a \<le> latest_locator_height (snd p) \<and>
     (\<forall>q\<in>set peers. q = p \<or> is_consistent_with (snd p) (snd q) \<and> (\<exists>b \<ge> a. ancestors_get (fst p, fst q) ancestors = Some b)))"

lemma add_sync_peers_result:
  assumes "fold (add_sync_peer ancestors height p) others (ps, m) = (ps', m')"
  shows "m' \<le> m \<and> set ps \<subseteq> set ps' \<and> set ps' \<subseteq> set ps \<union> set others \<and>
    (\<forall>q\<in>set ps' - set ps. is_consistent_with (snd p) (snd q) \<and> (\<exists>b \<ge> m'. ancestors_get (fst p, fst q) ancestors = Some b))"
  using assms
proof (induction others arbitrary: ps m)
  case (Cons q others)
  obtain ps1 m1 where s1: "add_sync_peer ancestors height p q (ps, m) = (ps1, m1)" by fastforce
  then have c: "(ps1 = ps \<and> m1 = m) \<or> (ps1 = ps @ [q] \<and> is_consistent_with (snd p) (snd q) \<and>
      (\<exists>b. ancestors_get (fst p, fst q) ancestors = Some b \<and> m1 = min m b))"
    by (auto simp: add_sync_peer_def split: option.splits if_splits)
  have "fold (add_sync_peer ancestors height p) others (ps1, m1) = (ps', m')" using Cons.prems s1 by simp
  note ih = Cons.IH[OF this]
  have "is_consistent_with (snd p) (snd r) \<and> (\<exists>b \<ge> m'. ancestors_get (fst p, fst r) ancestors = Some b)"
    if "r \<in> set ps'" "r \<notin> set ps" for r
  proof (cases "r \<in> set ps1")
    case True
    then have "r = q" "ps1 \<noteq> ps" using c that by auto
    then show ?thesis using c ih by auto
  qed (use ih that in blast)
  moreover have "m' \<le> m" "set ps \<subseteq> set ps'" "set ps' \<subseteq> set ps \<union> set (q # others)" using c ih by auto
  ultimately show ?case by blast
qed simp

lemma pick_sync_peers_result:
  "pick_sync_peers ancestors height t cs = Some (ps, a) \<Longrightarrow>
     set ps \<subseteq> set cs \<and> height < a \<and> t \<le> length ps \<and> agreeing_peers ancestors a ps"
proof (induction cs)
  case (Cons p cs)
  obtain ps1 m1 where s1: "fold (add_sync_peer ancestors height p) cs ([p], latest_locator_height (snd p)) = (ps1, m1)" by fastforce
  note r = add_sync_peers_result[OF s1]
  have "agreeing_peers ancestors m1 ps1" unfolding agreeing_peers_def using r by (intro bexI[of _ p]) auto
  moreover have "set ps1 \<subseteq> set (p # cs)" using r by auto
  ultimately show ?case using Cons s1 by (auto split: if_splits)
qed simp

lemma find_sync_peers_result:
  assumes "find_sync_peers_inner shuffle ledger height s = Some (ps, a)" "\<And>xs. set (shuffle xs) = set xs"
  shows "set ps \<subseteq> {(ip, l). (ip, l) \<in> set (peer_locators s) \<and> height < latest_locator_height l} \<and>
    ledger_height ledger < a \<and> agreeing_peers (common_ancestors s) a ps"
proof -
  obtain ps' where p: "pick_sync_peers (common_ancestors s) (ledger_height ledger) (min (length (candidate_locators height s)) REDUNDANCY_FACTOR)
      (candidate_locators height s) = Some (ps', a)" "ps = shuffle ps'"
    using assms(1) by (auto simp: find_sync_peers_inner_def Let_def split: if_splits)
  have "set (candidate_locators height s) \<subseteq> {(ip, l). (ip, l) \<in> set (peer_locators s) \<and> height < latest_locator_height l}"
    by (auto simp: candidate_locators_def dest!: in_set_takeD)
  then show ?thesis
    using pick_sync_peers_result[OF p(1)] assms(2)[of ps'] by (auto simp: p(2) agreeing_peers_def)
qed

section \<open>The first fork\<close>

lemma common_ancestor_result:
  assumes "sorted_wrt (<) (keys ls)" "common_ancestor known ls a0 = a" "\<forall>h\<in>set (keys ls). a0 \<le> h"
  shows "a0 \<le> a \<and> (a = a0 \<or> (\<exists>x. (a, x) \<in> set ls \<and> known a = Some x)) \<and>
    (\<forall>(h, x)\<in>set ls. h \<le> a \<and> a \<noteq> a0 \<longrightarrow> known h \<in> {None, Some x})"
  using assms
proof (induction ls arbitrary: a0)
  case (Cons e ls)
  obtain h x where e: "e = (h, x)" by (cases e)
  have s: "sorted_wrt (<) (keys ls)" "\<forall>k\<in>set (keys ls). h \<le> k" "\<forall>k\<in>set (keys ls). a0 \<le> k" "a0 \<le> h"
    using Cons.prems(1,3) e by (auto simp: less_imp_le)
  have above: "h < k" if "(k, y) \<in> set ls" for k y using Cons.prems(1) that e by force
  show ?case
  proof (cases "known h")
    case None
    then show ?thesis using Cons.IH[OF s(1) _ s(3)] Cons.prems(2) e by auto
  next
    case (Some y)
    show ?thesis
    proof (cases "y = x")
      case False
      then show ?thesis using Some Cons.prems(2) e by auto
    next
      case True
      then have "common_ancestor known ls h = a" using Some Cons.prems(2) e by simp
      note ih = Cons.IH[OF s(1) this s(2)]
      have "known k \<in> {None, Some y}" if "(k, y) \<in> set ls" "k \<le> a" for k y
        using ih above[OF that(1)] that by fastforce
      moreover have "a = h \<or> (\<exists>x. (a, x) \<in> set ls \<and> known a = Some x)" "h \<le> a" using ih by simp_all
      ultimately show ?thesis unfolding e using s(4) Some True by auto
    qed
  qed
qed simp

lemma peer_pair_eq_refl [simp]: "peer_pair_eq x x"
  by (simp add: peer_pair_eq_def)

lemma peer_pair_eq_trans: "peer_pair_eq z y \<Longrightarrow> peer_pair_eq z x \<longleftrightarrow> peer_pair_eq y x"
  by (auto simp: peer_pair_eq_def)

lemma peer_pair_eq_sym: "peer_pair_eq z x \<Longrightarrow> peer_pair_eq y x \<Longrightarrow> peer_pair_eq z y"
  by (auto simp: peer_pair_eq_def)

lemma ancestors_get_insert:
  "ancestors_get x (ancestors_insert y h m) = (if peer_pair_eq y x then Some h else ancestors_get x m)"
proof (induction m)
  case (Cons z m)
  then show ?case
    using peer_pair_eq_trans[of "fst z" y x] peer_pair_eq_sym[of "fst z" x y]
    by (cases z; cases "peer_pair_eq (fst z) y") (auto simp: ancestors_get_def)
qed (simp add: ancestors_get_def)

lemma ancestors_get_inserts:
  "\<forall>(y, _)\<in>set us. \<not> peer_pair_eq y x \<Longrightarrow> ancestors_get x (fold (\<lambda>(pair, a). ancestors_insert pair a) us m) = ancestors_get x m"
  by (induction us arbitrary: m) (auto simp: ancestors_get_insert)

lemma locators_sorted: "wf_bmap (locators_into_iter l)"
proof -
  have "wf_bmap m \<Longrightarrow> wf_bmap (fold (\<lambda>(h, x). bmap_update h x) ps m)" for ps and m :: "(u32, field) imap"
    by (induction ps arbitrary: m) auto
  then show ?thesis by (simp add: locators_into_iter_def wf_bmap_def)
qed

section \<open>Requests that failed at the tip\<close>

lemma push_range_first: "bs \<noteq> [] \<Longrightarrow> hd bs \<noteq> [] \<Longrightarrow> push_range x bs \<noteq> [] \<and> hd (push_range x bs) \<noteq> [] \<and> hd (hd (push_range x bs)) = hd (hd bs)"
  by (cases bs) (auto simp: push_range_def)

lemma ranges_first: "bs \<noteq> [] \<Longrightarrow> hd bs \<noteq> [] \<Longrightarrow>
    fold push_range xs bs \<noteq> [] \<and> hd (fold push_range xs bs) \<noteq> [] \<and> hd (hd (fold push_range xs bs)) = hd (hd bs)"
proof (induction xs arbitrary: bs)
  case (Cons x xs)
  then show ?case using push_range_first[OF Cons.prems, of x] by simp
qed simp

lemma no_sync_peers:
  "\<forall>l\<in>set (vals (peer_locators s)). latest_locator_height l \<le> h \<Longrightarrow> find_sync_peers_inner shuffle ledger h s = None"
proof -
  assume "\<forall>l\<in>set (vals (peer_locators s)). latest_locator_height l \<le> h"
  then have "filter (\<lambda>(_, l). latest_locator_height l > h) (peer_locators s) = []" by (fastforce simp: filter_empty_conv)
  then show ?thesis by (simp add: find_sync_peers_inner_def candidate_locators_def)
qed

section \<open>All prepared requests\<close>

definition sound_batch :: "block_ledger \<Rightarrow> ('p, 'b) block_sync \<Rightarrow> 'p block_request_batch \<Rightarrow> bool" where
  "sound_batch ledger s = (\<lambda>(requests, peers).
     (\<exists>i. map fst requests = [i ..< i + length requests]) \<and>
     (\<forall>(ip, l)\<in>set peers. (ip, l) \<in> set (peer_locators s) \<and> sync_height (sync_state_of s) < latest_locator_height l) \<and>
     (\<exists>a. ledger_height ledger < a \<and> agreeing_peers (common_ancestors s) a peers \<and>
       (\<forall>r\<in>set requests. sound_request ledger s peers (sync_height (sync_state_of s)) a r)))"

lemma sound_batchI:
  assumes "find_sync_peers_inner shuffle ledger h s = Some (peers, a)" "\<And>xs. set (shuffle xs) = set xs"
    "sync_height (sync_state_of s) \<le> h" "sync_height (sync_state_of s) \<le> g"
  shows "sound_batch ledger s (construct_requests ledger s peers g a mx, peers)"
proof -
  note f = find_sync_peers_result[OF assms(1,2)] and c = construct_requests_result[OF refl, of ledger s peers g a mx]
  have mono: "sound_request ledger s peers g a r \<Longrightarrow> sound_request ledger s peers (sync_height (sync_state_of s)) a r" for r
    using assms(4) by (auto simp: sound_request_def)
  have "\<forall>(ip, l)\<in>set peers. (ip, l) \<in> set (peer_locators s) \<and> sync_height (sync_state_of s) < latest_locator_height l"
    using f assms(3) by fastforce
  then show ?thesis unfolding sound_batch_def using f c mono by blast
qed

lemma reissue_sound:
  assumes "\<And>xs. set (shuffle xs) = set xs"
  shows "reissue_requests shuffle ledger s bs failed res = (res', failed') \<Longrightarrow>
    \<forall>b\<in>set bs. sync_height (sync_state_of s) < fst (hd b) \<Longrightarrow> \<forall>r\<in>set res. sound_batch ledger s r \<Longrightarrow>
    \<forall>r\<in>set res'. sound_batch ledger s r"
proof (induction bs arbitrary: failed res)
  case (Cons b bs)
  show ?case
  proof (cases "find_sync_peers_inner shuffle ledger (fst (hd b)) s")
    case None
    then show ?thesis using Cons.prems by simp
  next
    case (Some f)
    obtain peers a where f: "find_sync_peers_inner shuffle ledger (fst (hd b)) s = Some (peers, a)" using Some by (cases f) simp
    have "sound_batch ledger s (construct_requests ledger s peers (saturating_sub (fst (hd b)) 1) a mx, peers)" for mx
      using Cons.prems(2) by (intro sound_batchI[OF f assms]) (auto simp: saturating_sub_def)
    then have r: "\<forall>r\<in>set (res @ [(construct_requests ledger s peers (saturating_sub (fst (hd b)) 1) a mx, peers)]). sound_batch ledger s r" for mx
      using Cons.prems(3) by simp
    show ?thesis
    proof (cases "peers = []")
      case True
      then show ?thesis using Cons.prems(1,3) f by simp
    next
      case False
      let ?rq = "construct_requests ledger s peers (saturating_sub (fst (hd b)) 1) a (fst (last b) + 1 - fst (hd b))"
      have "reissue_requests shuffle ledger s bs (fold (\<lambda>(h, _). AList.delete h) ?rq failed) (res @ [(?rq, peers)]) = (res', failed')"
        using Cons.prems(1) f False by (simp only: reissue_requests.simps Let_def option.case prod.case if_False)
      moreover have "\<forall>b\<in>set bs. sync_height (sync_state_of s) < fst (hd b)" using Cons.prems(2) by simp
      ultimately show ?thesis using r by (rule Cons.IH)
    qed
  qed
qed simp

lemma push_range_heights:
  "\<forall>b\<in>set bs. b \<noteq> [] \<and> P (hd b) \<Longrightarrow> P x \<Longrightarrow> \<forall>b\<in>set (push_range x bs). b \<noteq> [] \<and> P (hd b)"
  by (cases bs rule: rev_cases) (auto simp: push_range_def)

lemma ranges_heights:
  "\<forall>b\<in>set bs. b \<noteq> [] \<and> P (hd b) \<Longrightarrow> \<forall>x\<in>set xs. P x \<Longrightarrow> \<forall>b\<in>set (fold push_range xs bs). b \<noteq> [] \<and> P (hd b)"
proof (induction xs arbitrary: bs)
  case (Cons x xs)
  have p: "P x" "\<forall>x\<in>set xs. P x" using Cons.prems(2) by simp_all
  have "\<forall>b\<in>set (push_range x bs). b \<noteq> [] \<and> P (hd b)" by (rule push_range_heights[OF Cons.prems(1) p(1)])
  from Cons.IH[OF this p(2)] show ?case unfolding fold_Cons comp_apply .
qed (simp only: fold_Nil id_apply)

lemma failed_above: "wf_bmap m \<Longrightarrow> \<forall>x\<in>set (dropWhile (\<lambda>(h, _). h \<le> c) m). c < fst x"
proof (induction m)
  case (Cons y m)
  have "\<forall>x\<in>set m. fst y < fst x" "wf_bmap m" using Cons.prems by (simp_all add: wf_bmap_def)
  then show ?case using Cons.IH by (cases y) (auto intro: less_trans)
qed simp

lemma sound_batch_failed [simp]: "sound_batch ledger (s\<lparr>failed_requests := f\<rparr>) r = sound_batch ledger s r"
  by (simp add: sound_batch_def sound_request_def)

lemma prepare_new_requests:
  fixes s :: "('p, 'b) block_sync"
  defines "c \<equiv> sync_height (sync_state_of s)"
  defines "mx \<equiv> saturating_sub (MAX_BLOCK_REQUESTS * MAXIMUM_NUMBER_OF_BLOCKS) (num_outstanding_block_requests s)"
  defines "t \<equiv> s\<lparr>failed_requests := dropWhile (\<lambda>(h, _). h \<le> c) (failed_requests s)\<rparr>"
  assumes "failed_requests t = []" "prepare_block_requests shuffle ledger s = (batches, s')" "batches \<noteq> []"
  shows "\<exists>peers a. find_sync_peers_inner shuffle ledger c t = Some (peers, a) \<and>
    batches = [(construct_requests ledger t peers c a mx, peers)] \<and> mx \<noteq> 0"
proof -
  have n: "num_outstanding_block_requests t = num_outstanding_block_requests s"
    by (simp add: t_def num_outstanding_block_requests_def)
  have e: "dropWhile (\<lambda>(h, _). h \<le> c) (failed_requests s) = []" using assms(4) by (simp add: t_def)
  have p: "(batches, s') = (if num_total_block_requests t \<ge> 4 * (MAX_BLOCK_REQUESTS * MAXIMUM_NUMBER_OF_BLOCKS) \<or> mx = 0 then ([], t)
      else case find_sync_peers_inner shuffle ledger c t of
          Some (peers, a) \<Rightarrow> ([(construct_requests ledger t peers c a mx, peers)], t) | None \<Rightarrow> ([], t))"
    unfolding assms(5)[symmetric] prepare_block_requests_def Let_def c_def[symmetric] t_def[symmetric] n mx_def[symmetric]
    using e by (simp only: simp_thms if_False)
  obtain peers a where f: "find_sync_peers_inner shuffle ledger c t = Some (peers, a)"
    using p assms(6) by (cases "find_sync_peers_inner shuffle ledger c t") (auto split: if_splits)
  then show ?thesis using p assms(6) by (simp split: if_splits)
qed

lemma connected_prepares:
  "prepare_block_requests id genesis_ledger block_sync_connected =
     ([([(1, Some 6, Some 5, 1), (2, Some 8, Some 6, 1), (3, Some 9, Some 8, 1)], [(7, three_blocks)])], block_sync_connected)"
proof -
  have "find_sync_peers_inner id genesis_ledger 0 block_sync_connected = Some ([(7, three_blocks)], 3)"
    by (simp add: find_sync_peers_inner_def candidate_locators_def connected_state three_blocks_def latest_locator_height_def
        NUM_SYNC_CANDIDATE_PEERS_def REDUNDANCY_FACTOR_def genesis_ledger_def)
  moreover have "construct_requests genesis_ledger block_sync_connected [(7, three_blocks)] 0 3 250 =
      [(1, Some 6, Some 5, 1), (2, Some 8, Some 6, 1), (3, Some 9, Some 8, 1)]"
    by (simp add: construct_requests_def connected_state genesis_ledger_def next_free.simps Let_def upt_rec
        check_block_request_def construct_request_def three_blocks_def get_hash_def saturating_sub_def REDUNDANCY_FACTOR_def)
  ultimately show ?thesis
    by (simp add: prepare_block_requests_def connected_state num_outstanding_block_requests_def num_total_block_requests_def
        saturating_sub_def MAX_BLOCK_REQUESTS_def MAXIMUM_NUMBER_OF_BLOCKS_def)
qed

section \<open>Properties\<close>

text \<open>C23. Every batch of block requests that a reachable node prepares, new or re-issued, asks for consecutive
  heights that are above its sync height, not in its ledger and not requested already; a hash that is asked for is
  contradicted by none of the chosen peers.  The peers are connected, ahead of the node, and one of them agrees with each of the others
  up to a block that is above the ledger and not below any requested height.  New requests keep the number of
  outstanding ones within the limit.\<close>

theorem prepared_requests_sound:
  assumes "sync_reachable s" "prepare_block_requests shuffle ledger s = (batches, s')" "\<And>xs. set (shuffle xs) = set xs"
  shows "(\<forall>b\<in>set batches. sound_batch ledger s b) \<and>
    ((\<forall>h\<in>set (keys (failed_requests s)). h \<le> sync_height (sync_state_of s)) \<and> batches \<noteq> [] \<longrightarrow>
      num_outstanding_block_requests s + sum_list (map (\<lambda>(requests, _). length requests) batches)
        \<le> MAX_BLOCK_REQUESTS * MAXIMUM_NUMBER_OF_BLOCKS)"
proof -
  let ?c = "sync_height (sync_state_of s)"
  let ?failed = "dropWhile (\<lambda>(h, _). h \<le> ?c) (failed_requests s)"
  let ?s = "s\<lparr>failed_requests := ?failed\<rparr>"
  have above: "\<forall>x\<in>set ?failed. ?c < fst x" using failed_above sync_invD(2)[OF sync_reachable_inv[OF assms(1)]] by blast
  show ?thesis
  proof (cases "?failed = []")
    case False
    then obtain f' where r: "reissue_requests shuffle ledger ?s (fold push_range ?failed []) ?failed [] = (batches, f')"
      using assms(2) by (auto simp: prepare_block_requests_def Let_def split: prod.splits)
    have "\<forall>b\<in>set (fold push_range ?failed []). b \<noteq> [] \<and> ?c < fst (hd b)"
      using ranges_heights[of "[]" "\<lambda>x. ?c < fst x" ?failed] above by simp
    then have "\<forall>b\<in>set batches. sound_batch ledger ?s b" using reissue_sound[OF assms(3) r] by simp
    moreover have "\<not> (\<forall>h\<in>set (keys (failed_requests s)). h \<le> ?c)"
      using False by (force simp: dropWhile_eq_Nil_conv)
    ultimately show ?thesis unfolding sound_batch_failed by blast
  next
    case True
    show ?thesis
    proof (cases "batches = []")
      case False
      let ?mx = "saturating_sub (MAX_BLOCK_REQUESTS * MAXIMUM_NUMBER_OF_BLOCKS) (num_outstanding_block_requests s)"
      obtain peers a where f: "find_sync_peers_inner shuffle ledger ?c ?s = Some (peers, a)"
        "batches = [(construct_requests ledger ?s peers ?c a ?mx, peers)]" "?mx \<noteq> 0"
        using prepare_new_requests[OF _ assms(2) False] True by auto
      have "sound_batch ledger ?s (construct_requests ledger ?s peers ?c a ?mx, peers)"
        by (rule sound_batchI[OF f(1) assms(3)]) simp_all
      moreover have "length (construct_requests ledger ?s peers ?c a ?mx) \<le> ?mx" using construct_requests_result[OF refl] by blast
      then have "num_outstanding_block_requests s + length (construct_requests ledger ?s peers ?c a ?mx)
          \<le> MAX_BLOCK_REQUESTS * MAXIMUM_NUMBER_OF_BLOCKS" using f(3) unfolding saturating_sub_def by linarith
      ultimately show ?thesis by (simp add: f(2))
    qed simp
  qed
qed

theorem prepared_requests_sound_witness:
  "sound_batch genesis_ledger block_sync_connected
     ([(1, Some 6, Some 5, 1), (2, Some 8, Some 6, 1), (3, Some 9, Some 8, 1)], [(7, three_blocks)])"
  using prepared_requests_sound[OF connected_reachable connected_prepares] by simp

text \<open>A failed request for a height that no peer exceeds, as the height of the newest block, is not issued again, and
  while it is remembered nothing else is requested.\<close>

theorem failed_tip_waits:
  assumes "failed_requests s = (h, e) # rest" "sync_height (sync_state_of s) < h"
    "\<forall>l\<in>set (vals (peer_locators s)). latest_locator_height l \<le> h"
  shows "prepare_block_requests shuffle ledger s = ([], s)"
proof -
  have "fold push_range (failed_requests s) [] = fold push_range rest [[(h, e)]]" by (simp add: assms(1) push_range_def)
  then obtain b bs where b: "fold push_range (failed_requests s) [] = b # bs" "fst (hd b) = h"
    using ranges_first[of "[[(h, e)]]" rest] by (cases "fold push_range rest [[(h, e)]]") auto
  have "dropWhile (\<lambda>(k, _). k \<le> sync_height (sync_state_of s)) (failed_requests s) = failed_requests s"
    using assms(1,2) by simp
  moreover have "s\<lparr>failed_requests := failed_requests s\<rparr> = s" by simp
  ultimately show ?thesis
    using b no_sync_peers[OF assms(3)] assms(1) by (simp only: prepare_block_requests_def Let_def) simp
qed

theorem failed_tip_waits_witness:
  "prepare_block_requests id genesis_ledger (block_sync_connected\<lparr>failed_requests := [(3, Some 9, Some 8)]\<rparr>) =
     ([], block_sync_connected\<lparr>failed_requests := [(3, Some 9, Some 8)]\<rparr>)"
  by (rule failed_tip_waits[where h = 3 and e = "(Some 9, Some 8)" and rest = "[]"]) (simp_all add: connected_state three_blocks_def latest_locator_height_def)

end
