(* ===== verification/Sync_Client.thy ===== *)
theory Sync_Client
  imports Sync_Schedule
begin

text \<open>
  The synchronisation of a client: the steps that the tasks of \<open>node/src/client/mod.rs\<close> take in any order, what advancing
  does with the blocks that are ready, what happens to a block that the ledger rejects, and what becomes of
  the forks that are found.
\<close>

section \<open>Blocks that are ready\<close>

definition ready :: "u32 \<Rightarrow> 'b synced_block \<Rightarrow> ('p, 'b) block_sync \<Rightarrow> bool" where
  "ready h b s \<longleftrightarrow> (\<exists>e. (h, e) \<in> set (block_requests s) \<and> sync_ips e = [] \<and> response e = Some b)"

lemma ready_peek: "sync_inv s \<Longrightarrow> ready h b s \<longleftrightarrow> peek_next_block h s = Some b"
proof
  assume inv: "sync_inv s"
  assume "ready h b s"
  then obtain e where "(h, e) \<in> set (block_requests s)" "sync_ips e = []" "response e = Some b" by (auto simp: ready_def)
  then show "peek_next_block h s = Some b"
    using map_of_wf_bmap[OF sync_invD(1)[OF inv], of h e] by (simp add: peek_next_block_def)
qed (auto simp: ready_def dest!: peek_next_blockD)

lemma ready_requests: "block_requests s' = block_requests s \<Longrightarrow> ready h b s' = ready h b s"
  by (simp add: ready_def)

lemma ready_put: "sync_inv s \<Longrightarrow> ready h b s \<Longrightarrow> k \<noteq> h \<Longrightarrow> ready h b (s\<lparr>block_requests := bmap_update k e (block_requests s)\<rparr>)"
  by (auto simp: ready_def set_bmap_update[OF sync_invD(1)])

lemma ready_remove_requests:
  assumes "ready h b s"
  shows "ready h b (remove_block_requests_to_peer ip s)"
proof -
  obtain e where e: "(h, e) \<in> set (block_requests s)" "sync_ips e = []" "response e = Some b"
    using assms by (auto simp: ready_def)
  then have "(h, without_peer ip e) \<in> set (block_requests (remove_block_requests_to_peer ip s))"
    by (force simp: remove_block_requests_to_peer_def keeps_request_def)
  moreover have "sync_ips (without_peer ip e) = []" "response (without_peer ip e) = Some b"
    using e by (simp_all add: without_peer_def)
  ultimately show ?thesis unfolding ready_def by blast
qed

lemma ready_remove_peer: "ready h b s \<Longrightarrow> ready h b (remove_peer ip s)"
proof -
  assume "ready h b s"
  then have "ready h b (s\<lparr>peer_locators := p, common_ancestors := a\<rparr>)" for p a by (simp add: ready_def)
  from ready_remove_requests[OF this] show ?thesis by (simp add: ready_def remove_peer_def Let_def)
qed

lemma ready_response:
  assumes "sync_inv s" "ready h b s" "insert_block_response ledger ip c s = (r, s')"
  shows "ready h b s'"
proof (cases "block_height c = h")
  case True
  obtain e where "map_of (block_requests s) h = Some e" "sync_ips e = []"
    using assms(2) map_of_wf_bmap[OF sync_invD(1)[OF assms(1)]] by (fastforce simp: ready_def)
  then have "s' = s" using assms(3) True by (auto simp: insert_block_response_def Let_def split: if_splits)
  then show ?thesis using assms(2) by simp
next
  case False
  have "s' = s \<or> (\<exists>e. s' = s\<lparr>block_requests := bmap_update (block_height c) e (block_requests s)\<rparr>)"
    using assms(3) by (auto simp: insert_block_response_def Let_def split: if_splits option.splits)
  then show ?thesis using assms(2) ready_put[OF assms(1,2) False] by blast
qed

lemma ready_responses:
  assumes "sync_inv s" "ready h b s" "insert_block_responses n ledger ip bs v s = (r, s')"
  shows "ready h b s'"
proof -
  have each: "insert_each_response ledger ip bs t = (r, t') \<Longrightarrow> sync_inv t \<Longrightarrow> ready h b t \<Longrightarrow> ready h b t'" for t t' r
  proof (induction bs arbitrary: t)
    case (Cons c cs)
    obtain r1 t1 where t1: "insert_block_response ledger ip c t = (r1, t1)" by fastforce
    show ?case
      using Cons t1 insert_block_response_inv[OF Cons.prems(2) t1] ready_response[OF Cons.prems(2,3) t1]
      by (cases r1) auto
  qed simp
  from assms(3) show ?thesis
  proof (cases rule: insert_block_responses_cases)
    case (1 s1)
    then have "ready h b s1" using assms(1,2) each by blast
    then show ?thesis using 1(2) ready_remove_requests[of h b s1 ip] by blast
  qed
qed

lemma ready_timeouts:
  assumes "ready h b s" "ledger_height ledger < h"
  shows "ready h b (handle_block_request_timeouts ledger now s)"
proof -
  have f: "ready h b t \<Longrightarrow> ready h b (fold remove_peer ips t)" for ips t
    by (induction ips arbitrary: t) (simp_all add: ready_remove_peer)
  obtain e where "(h, e) \<in> set (block_requests s)" "sync_ips e = []" "response e = Some b" using assms(1) by (auto simp: ready_def)
  then have "ready h b (s\<lparr>block_requests := filter (\<lambda>(h, e). \<not> timed_out now e \<and> \<not> h \<le> ledger_height ledger) (block_requests s),
      failed_requests := m\<rparr>)" for m
    using assms(2) by (force simp: ready_def timed_out_def)
  then show ?thesis unfolding handle_block_request_timeouts_def Let_def by (rule f)
qed

lemma ready_insert_requests:
  "insert_each_request ledger now ips rs s = (r, s') \<Longrightarrow> sync_inv s \<Longrightarrow> distinct ips \<Longrightarrow> set ips \<subseteq> set (keys (peer_locators s)) \<Longrightarrow>
     ready h b s \<Longrightarrow> ready h b s' \<and> (r \<longrightarrow> h \<notin> set (map fst rs))"
proof (induction rs arbitrary: s)
  case (Cons x rs)
  obtain k hash prev n where x: "x = (k, hash, prev, n)" by (cases x)
  obtain r1 s1 where s1: "insert_block_request ledger now k (hash, prev, ips) s = (r1, s1)" by fastforce
  show ?case
  proof (cases r1)
    case (Inl err)
    then have "s1 = s" using s1 by (auto simp: insert_block_request_def split: sum.splits if_splits)
    then show ?thesis using Cons.prems Inl x s1 by auto
  next
    case (Inr u)
    have one: "insert_each_request ledger now ips [x] s = (True, s1)" using s1 Inr x by simp
    have "k \<notin> set (keys (block_requests s))" "peer_locators s1 = peer_locators s"
      "\<exists>e. s1 = s\<lparr>block_requests := bmap_update k e (block_requests s)\<rparr>"
      using s1 Inr by (auto simp: insert_block_request_def check_block_request_def simp del: set_map split: sum.splits if_splits)
    moreover have "h \<in> set (keys (block_requests s))" using Cons.prems(5) by (force simp: ready_def)
    ultimately have n: "k \<noteq> h" "ready h b s1" "set ips \<subseteq> set (keys (peer_locators s1))"
      using ready_put[OF Cons.prems(2,5), of k] Cons.prems(4) by auto
    have "insert_each_request ledger now ips rs s1 = (r, s')" using Cons.prems(1) s1 Inr x by simp
    from Cons.IH[OF this insert_each_request_inv[OF Cons.prems(3,2,4) one] Cons.prems(3) n(3,2)] show ?thesis using n(1) x by auto
  qed
qed simp

lemma ready_send:
  assumes "sync_inv s" "distinct chosen" "send_block_requests ledger now chosen delivered rs s = (r, s')"
    "map fst rs = [i ..< i + length rs]" "ready h b s"
  shows "ready h b s'"
proof (cases rs)
  case Nil
  then show ?thesis using assms by (simp add: send_block_requests_def)
next
  case (Cons x xs)
  have i: "fst x = i" using assms(4) by (simp add: Cons upt_conv_Cons del: upt_Suc)
  obtain ok s1 where s1: "insert_each_request ledger now chosen rs s = (ok, s1)" by fastforce
  let ?keep = "\<lambda>h _. \<not> (i \<le> h \<and> h < saturating_add_u32 i (length rs))"
  have "s' = s \<or> (set chosen \<subseteq> set (keys (peer_locators s)) \<and>
      (s' = s1 \<or> ok \<and> s' = s1\<lparr>block_requests := map_retain ?keep (block_requests s1)\<rparr>))"
    using assms(3) s1 Cons i unfolding send_block_requests_def Let_def by (cases x) (auto split: if_splits bool.splits)
  moreover have "ready h b (s1\<lparr>block_requests := map_retain ?keep (block_requests s1)\<rparr>)" if "ready h b s1" "h \<notin> set (map fst rs)"
  proof -
    have "?keep h e" for e using that(2) unfolding assms(4) by (auto simp: saturating_add_u32_def)
    then show ?thesis using that(1) by (auto simp: ready_def map_retain_def)
  qed
  ultimately show ?thesis using ready_insert_requests[OF s1 assms(1,2) _ assms(5)] assms(5) by blast
qed

section \<open>Steps of a client\<close>

inductive client_step ::
    "(block_ledger \<Rightarrow> 'b synced_block \<Rightarrow> advance_outcome) \<Rightarrow> block_ledger \<times> ('p, 'b) block_sync
      \<Rightarrow> block_ledger \<times> ('p, 'b) block_sync \<Rightarrow> bool" for advance where
  client_locators: "client_step advance (l, s) (l, update_peer_locators l self_ip ip loc s)"
| client_disconnect: "client_step advance (l, s) (l, remove_peer ip s)"
| client_responses: "insert_block_responses n l ip bs v s = (r, s') \<Longrightarrow> client_step advance (l, s) (l, s')"
| client_timeouts: "client_step advance (l, s) (l, handle_block_request_timeouts l now s)"
| client_prepare: "prepare_block_requests shuffle l s = (batches, s') \<Longrightarrow> client_step advance (l, s) (l, s')"
| client_send: "distinct chosen \<Longrightarrow> map fst rs = [i ..< i + length rs] \<Longrightarrow>
    send_block_requests l now chosen delivered rs s = (r, s') \<Longrightarrow> client_step advance (l, s) (l, s')"
| client_advance: "try_advancing_block_synchronization advance l s = (r, l', s') \<Longrightarrow> client_step advance (l, s) (l', s')"

lemma advance_rejected:
  assumes "sync_inv s" "ready (ledger_height l + 1) b s" "advance l b = AdvanceFailed err"
  shows "try_advancing_block_synchronization advance l s = (Inl err, l, s)"
proof -
  have p: "peek_next_block (ledger_height l + 1) s = Some b" using ready_peek[OF assms(1)] assms(2) by blast
  obtain e where "(ledger_height l + 1, e) \<in> set (block_requests s)" "response e = Some b" using assms(2) by (auto simp: ready_def)
  then have "block_height b = ledger_height l + 1"
    using sync_invD(4)[OF assms(1)] by (fastforce simp: request_inv_def matches_request_def)
  then show ?thesis
    using p assms(3) by (simp add: try_advancing_block_synchronization_def advance_loop.simps[of advance "ledger_height l"] Let_def)
qed

lemma client_step_rejected:
  assumes "client_step advance (l, s) t" "sync_inv s" "ready (ledger_height l + 1) b s" "advance l b = AdvanceFailed err"
  shows "\<exists>s'. t = (l, s') \<and> sync_inv s' \<and> ready (ledger_height l + 1) b s'"
  using assms(1)
proof cases
  case (client_locators self_ip ip loc)
  have "block_requests (update_peer_locators l self_ip ip loc s) = block_requests s"
    by (simp add: update_peer_locators_def Let_def)
  then show ?thesis using client_locators update_peer_inv[OF assms(2)] ready_requests assms(3) by blast
next
  case (client_disconnect ip)
  then show ?thesis using remove_peer_inv[OF assms(2)] ready_remove_peer[OF assms(3)] by blast
next
  case (client_responses n ip bs v r s')
  then show ?thesis using insert_block_responses_inv[OF assms(2)] ready_responses[OF assms(2,3)] by blast
next
  case (client_timeouts now)
  then show ?thesis using timeouts_inv[OF assms(2)] ready_timeouts[OF assms(3)] by simp
next
  case (client_prepare shuffle batches s')
  then show ?thesis using prepare_inv[OF assms(2)] ready_requests assms(3) by blast
next
  case (client_send chosen rs i now delivered r s')
  then show ?thesis using send_block_requests_inv[OF assms(2)] ready_send[OF assms(2) _ _ _ assms(3)] by blast
next
  case (client_advance r l' s')
  then show ?thesis using advance_rejected[OF assms(2,3), of advance err] assms(2-4) by simp
qed

section \<open>Advancing\<close>

text \<open>
  What the ledger makes of blocks in turn: the error, the number of heights passed, the number of blocks dropped from
  the requests, and the ledger.
\<close>

fun apply_ready :: "(block_ledger \<Rightarrow> 'b synced_block \<Rightarrow> advance_outcome) \<Rightarrow> block_ledger \<Rightarrow> 'b synced_block list
    \<Rightarrow> error option \<times> nat \<times> nat \<times> block_ledger" where
  "apply_ready advance l [] = (None, 0, 0, l)"
| "apply_ready advance l (b # bs) =
     (let pass = (\<lambda>(err, k, n, l). (err, Suc k, Suc n, l)) in
      case advance l b of
        AdvanceFailed err \<Rightarrow> (Some err, 0, 0, l)
      | ShuttingDown \<Rightarrow> (None, 0, 1, l)
      | AlreadyAdvanced \<Rightarrow> pass (apply_ready advance l bs)
      | Advanced l' \<Rightarrow> pass (apply_ready advance l' bs))"

definition drop_requests :: "u32 \<Rightarrow> nat \<Rightarrow> ('p, 'b) block_sync \<Rightarrow> ('p, 'b) block_sync" where
  "drop_requests c n s = s\<lparr>block_requests := filter (\<lambda>(h, _). \<not> (c < h \<and> h \<le> c + n)) (block_requests s)\<rparr>"

lemma drop_requests_0 [simp]: "drop_requests c 0 s = s"
proof -
  have "filter (\<lambda>(h, _). \<not> (c < h \<and> h \<le> c + 0)) (block_requests s) = block_requests s" by (rule filter_True) auto
  then show ?thesis by (simp add: drop_requests_def)
qed

lemma drop_requests_Suc:
  fixes s :: "('p, 'b) block_sync"
  shows "drop_requests (Suc c) n (remove_block_response (Suc c) s) = drop_requests c (Suc n) s"
proof -
  have "filter (\<lambda>(h, _). \<not> (Suc c < h \<and> h \<le> Suc c + n)) (filter (\<lambda>(h, _). Suc c \<noteq> h) m) =
      filter (\<lambda>(h, _). \<not> (c < h \<and> h \<le> c + Suc n)) m" for m :: "(u32, ('p, 'b) outstanding_request) imap"
    unfolding filter_filter by (rule filter_cong) auto
  then show ?thesis by (simp add: drop_requests_def remove_block_response_def AList.delete_eq)
qed

lemma peek_remove: "k \<noteq> h \<Longrightarrow> peek_next_block k (remove_block_response h s) = peek_next_block k s"
  by (simp add: peek_next_block_def remove_block_response_def AList.delete_conv')

lemma advance_loop_result:
  assumes "sync_inv s" "\<forall>i<length bs. peek_next_block (Suc c + i) s = Some (bs ! i)" "peek_next_block (Suc c + length bs) s = None"
    "apply_ready advance l bs = (err, k, n, l')"
  shows "advance_loop advance c l s = (case err of Some e \<Rightarrow> Inl e | None \<Rightarrow> Ok (c + k), l', drop_requests c n s)"
  using assms
proof (induction bs arbitrary: c l s k n)
  case Nil
  then show ?case by (auto simp: advance_loop.simps[of advance c])
next
  case (Cons b bs)
  let ?s = "remove_block_response (Suc c) s"
  have p: "peek_next_block (Suc c) s = Some b" using Cons.prems(2) by force
  have "ready (Suc c) b s" using ready_peek[OF Cons.prems(1)] p by blast
  then have h: "block_height b = Suc c"
    using sync_invD(4)[OF Cons.prems(1)] by (fastforce simp: ready_def request_inv_def matches_request_def)
  have ps: "\<forall>i<length bs. peek_next_block (Suc (Suc c) + i) ?s = Some (bs ! i)" "peek_next_block (Suc (Suc c) + length bs) ?s = None"
    using Cons.prems(2,3) by (auto simp: peek_remove)
  have pass: "advance_loop advance (Suc c) m ?s = (case err of Some e \<Rightarrow> Inl e | None \<Rightarrow> Ok (c + k), l', drop_requests c n s)"
    if q: "(\<lambda>(err, k, n, l). (err, Suc k, Suc n, l)) (apply_ready advance m bs) = (err, k, n, l')" for m
  proof -
    obtain k' n' where a: "apply_ready advance m bs = (err, k', n', l')" "k = Suc k'" "n = Suc n'"
      using q by (cases "apply_ready advance m bs") auto
    from Cons.IH[OF sync_remove_inv[OF Cons.prems(1)] ps a(1)] show ?thesis
      unfolding drop_requests_Suc a(2,3) add_Suc add_Suc_right .
  qed
  have "drop_requests c 1 s = ?s" using drop_requests_Suc[of c 0 s] by simp
  then show ?case
    using Cons.prems(4) pass p h by (cases "advance l b") (auto simp: advance_loop.simps[of advance c] Let_def)
qed

section \<open>Forks from the own ledger\<close>

lemma ancestors_get_cong:
  "ancestors_get x m = ancestors_get x m' \<Longrightarrow>
     ancestors_get x (fold (\<lambda>(pair, a). ancestors_insert pair a) us m) = ancestors_get x (fold (\<lambda>(pair, a). ancestors_insert pair a) us m')"
proof (induction us arbitrary: m m')
  case (Cons u us)
  have "ancestors_get x (ancestors_insert (fst u) (snd u) m) = ancestors_get x (ancestors_insert (fst u) (snd u) m')"
    unfolding ancestors_get_insert Cons.prems by (rule refl)
  from Cons.IH[OF this] show ?case by (simp add: case_prod_unfold)
qed simp

lemma pick_sync_peers_cong:
  assumes "\<forall>p\<in>set (keys cs). \<forall>q\<in>set (keys cs). ancestors_get (p, q) m = ancestors_get (p, q) m'"
  shows "pick_sync_peers m h t cs = pick_sync_peers m' h t cs"
  using assms
proof (induction cs)
  case (Cons p cs)
  have "add_sync_peer m h p q acc = add_sync_peer m' h p q acc" if "q \<in> set cs" for q acc
    using Cons.prems that by (simp add: add_sync_peer_def)
  then have "fold (add_sync_peer m h p) cs acc = fold (add_sync_peer m' h p) cs acc" for acc by (intro fold_cong) auto
  moreover have "pick_sync_peers m h t cs = pick_sync_peers m' h t cs" using Cons by simp
  ultimately show ?case by (simp only: pick_sync_peers.simps)
qed simp

lemma candidates_connected: "set (candidate_locators h s) \<subseteq> set (peer_locators s)"
  by (auto simp: candidate_locators_def dest!: in_set_takeD)

lemma update_peer_locators_ancestors:
  assumes "map_of (peer_locators s) ip \<noteq> Some l"
  shows "common_ancestors (update_peer_locators ledger self_ip ip l s) =
    fold (\<lambda>(pair, a). ancestors_insert pair a)
      (map (\<lambda>(other, ol). ((ip, other), common_ancestor (get_hash l) (locators_into_iter ol) 0))
        (filter (\<lambda>(other, _). other \<noteq> ip) (AList.update ip l (peer_locators s))))
      (ancestors_insert (self_ip, ip) (common_ancestor (\<lambda>h. ok (ledger_block_hash ledger h)) (locators_into_iter l) 0)
        (common_ancestors s))"
  using assms by (simp add: update_peer_locators_def Let_def)

lemma update_peer_locators_peers:
  "peer_locators (update_peer_locators ledger self_ip ip l s) = (if map_of (peer_locators s) ip = Some l then peer_locators s else AList.update ip l (peer_locators s))"
  by (simp add: update_peer_locators_def Let_def)

text \<open>A ledger that differs from the chain of the peer at height 2.\<close>

definition forked_ledger :: block_ledger where
  "forked_ledger = \<lparr>ledger_height = 2,
     ledger_block_hash = (\<lambda>h. if h = 0 then Ok 5 else if h = 1 then Ok 6 else if h = 2 then Ok 99 else bail ''no block''),
     contains_block_height = (\<lambda>h. h \<le> 2)\<rparr>"

section \<open>Properties\<close>

text \<open>When a peer announces new locators, the ancestor recorded between it and the node is a
  height at which both have the same block, or genesis if there is none, and below it no locator of the peer contradicts
  the ledger of the node.\<close>

theorem fork_found:
  assumes "map_of (peer_locators s) ip \<noteq> Some l" "self_ip \<notin> set (keys (peer_locators s))" "self_ip \<noteq> ip"
  shows "\<exists>a. ancestors_get (self_ip, ip) (common_ancestors (update_peer_locators ledger self_ip ip l s)) = Some a \<and>
    (a = 0 \<or> (\<exists>x. (a, x) \<in> set (locators_into_iter l) \<and> ledger_block_hash ledger a = Ok x)) \<and>
    (\<forall>(h, x)\<in>set (locators_into_iter l). h \<le> a \<and> a \<noteq> 0 \<longrightarrow> ok (ledger_block_hash ledger h) \<in> {None, Some x})"
proof -
  let ?a = "common_ancestor (\<lambda>h. ok (ledger_block_hash ledger h)) (locators_into_iter l) 0"
  have "\<not> peer_pair_eq (ip, other) (self_ip, ip)" if "other \<in> set (keys (AList.update ip l (peer_locators s)))" "other \<noteq> ip" for other
    using that assms(2,3) by (auto simp: peer_pair_eq_def dom_map_of_conv_image_fst[symmetric] update_conv' split: if_splits)
  then have "ancestors_get (self_ip, ip) (common_ancestors (update_peer_locators ledger self_ip ip l s)) = Some ?a"
    unfolding update_peer_locators_ancestors[OF assms(1)] by (subst ancestors_get_inserts) (force simp: ancestors_get_insert)+
  moreover have "sorted_wrt (<) (keys (locators_into_iter l))" using locators_sorted[of l] by (simp add: wf_bmap_def)
  note common_ancestor_result[OF this refl, of 0 "\<lambda>h. ok (ledger_block_hash ledger h)"]
  moreover have "ok r = Some x \<longleftrightarrow> r = Ok x" for r :: "field result" and x by (cases r) (simp_all add: ok_def)
  ultimately show ?thesis by auto
qed

theorem fork_found_witness:
  "\<exists>a. ancestors_get (0, 7) (common_ancestors
      (update_peer_locators forked_ledger 0 7 three_blocks (block_sync_new genesis_ledger :: (nat, unit) block_sync))) = Some a \<and> a < 2"
proof -
  let ?s = "block_sync_new genesis_ledger :: (nat, unit) block_sync"
  have it: "locators_into_iter three_blocks = [(0, 5), (1, 6), (2, 8), (3, 9)]"
    by (simp add: three_blocks_def locators_into_iter_def)
  have f: "ok (ledger_block_hash forked_ledger 2) = Some 99" by (simp add: forked_ledger_def ok_def)
  obtain a where a: "ancestors_get (0, 7) (common_ancestors (update_peer_locators forked_ledger 0 7 three_blocks ?s)) = Some a"
    "\<forall>(h, x)\<in>set (locators_into_iter three_blocks). h \<le> a \<and> a \<noteq> 0 \<longrightarrow> ok (ledger_block_hash forked_ledger h) \<in> {None, Some x}"
    using fork_found[of ?s 7 three_blocks 0 forked_ledger] by (auto simp: block_sync_new_def)
  have "a < 2" using a(2) f by (force simp: it)
  then show ?thesis using a(1) by blast
qed

text \<open>The peers that blocks are fetched from do not depend on the blocks of the node's own ledger: the ancestor
  recorded between a peer and the node is never consulted, and a peer on another fork is chosen like any other.\<close>

theorem own_fork_ignored:
  assumes "self_ip \<notin> set (keys (peer_locators s))" "self_ip \<noteq> ip"
  shows "find_sync_peers_inner shuffle ledger h (update_peer_locators l1 self_ip ip l s) =
    find_sync_peers_inner shuffle ledger h (update_peer_locators l2 self_ip ip l s)"
proof (cases "map_of (peer_locators s) ip = Some l")
  case False
  let ?s = "\<lambda>l'. update_peer_locators l' self_ip ip l s"
  have c: "candidate_locators h (?s l1) = candidate_locators h (?s l2)"
    by (simp add: candidate_locators_def update_peer_locators_peers)
  have "ancestors_get (p, q) (common_ancestors (?s l1)) = ancestors_get (p, q) (common_ancestors (?s l2))"
    if "p \<noteq> self_ip" "q \<noteq> self_ip" for p q
    unfolding update_peer_locators_ancestors[OF False]
    by (rule ancestors_get_cong) (use that in \<open>auto simp: ancestors_get_insert peer_pair_eq_def\<close>)
  moreover have "self_ip \<notin> set (keys (candidate_locators h (?s l1)))"
  proof -
    have "set (keys (AList.update ip l (peer_locators s))) = insert ip (set (keys (peer_locators s)))"
      by (auto simp: dom_map_of_conv_image_fst[symmetric] update_conv')
    then have "self_ip \<notin> set (keys (peer_locators (?s l1)))" using assms False by (simp add: update_peer_locators_peers)
    then show ?thesis using candidates_connected[of h "?s l1"] by (auto simp: image_iff)
  qed
  ultimately have "pick_sync_peers (common_ancestors (?s l1)) g t (candidate_locators h (?s l1)) =
      pick_sync_peers (common_ancestors (?s l2)) g t (candidate_locators h (?s l1))" for g t
    by (intro pick_sync_peers_cong) metis
  then show ?thesis by (simp add: find_sync_peers_inner_def c Let_def)
qed (simp add: update_peer_locators_def)

theorem own_fork_ignored_witness:
  "find_sync_peers_inner id forked_ledger 2 (update_peer_locators forked_ledger 0 7 three_blocks (block_sync_new genesis_ledger :: (nat, unit) block_sync)) =
     Some ([(7, three_blocks)], 3) \<and> get_hash three_blocks 2 = Some 8 \<and> ledger_block_hash forked_ledger 2 = Ok 99"
proof -
  have "find_sync_peers_inner id forked_ledger 2 block_sync_connected = Some ([(7, three_blocks)], 3)"
    by (simp add: find_sync_peers_inner_def candidate_locators_def connected_state three_blocks_def latest_locator_height_def
        NUM_SYNC_CANDIDATE_PEERS_def REDUNDANCY_FACTOR_def forked_ledger_def)
  then show ?thesis
    using own_fork_ignored[of 0 "block_sync_new genesis_ledger :: (nat, unit) block_sync" 7 id forked_ledger 2 forked_ledger three_blocks genesis_ledger]
    by (simp add: block_sync_connected_def block_sync_new_def get_hash_def three_blocks_def forked_ledger_def)
qed

text \<open>C25. Once the block that completes the request for the next height is rejected by the ledger, it
  stays: whatever peers announce, send or stop sending, whatever times out and is requested, the same block is tried
  again, the same error is returned, and the ledger never advances.\<close>

theorem rejected_block_sticks:
  assumes "sync_reachable s" "peek_next_block (ledger_height l + 1) s = Some b" "advance l b = AdvanceFailed err"
    "(client_step advance)\<^sup>*\<^sup>* (l, s) (l', s')"
  shows "l' = l \<and> peek_next_block (ledger_height l + 1) s' = Some b \<and>
    try_advancing_block_synchronization advance l' s' = (Inl err, l', s')"
proof -
  note inv = sync_reachable_inv[OF assms(1)]
  have "\<exists>s'. t = (l, s') \<and> sync_inv s' \<and> ready (ledger_height l + 1) b s'" if "(client_step advance)\<^sup>*\<^sup>* (l, s) t" for t
    using that
  proof induction
    case base
    then show ?case using inv ready_peek[OF inv] assms(2) by blast
  next
    case (step t u)
    then show ?case using client_step_rejected[of advance l _ u b err] assms(3) by blast
  qed
  from this[OF assms(4)] have r: "l' = l" "sync_inv s'" "ready (ledger_height l + 1) b s'" by auto
  then show ?thesis using advance_rejected[of s' l b advance err] ready_peek[OF r(2)] assms(3) by blast
qed

theorem rejected_block_sticks_witness:
  "\<exists>s'. (client_step (\<lambda>_ _. AdvanceFailed (Bail ''invalid block'')))\<^sup>*\<^sup>* (genesis_ledger, block_sync_fetched) (genesis_ledger, s') \<and>
     peer_locators s' = [] \<and>
     try_advancing_block_synchronization (\<lambda>_ _. AdvanceFailed (Bail ''invalid block'')) genesis_ledger s' =
       (Inl (Bail ''invalid block''), genesis_ledger, s')"
proof -
  let ?adv = "\<lambda>_ _. AdvanceFailed (Bail ''invalid block'')" and ?s = "remove_peer 7 block_sync_fetched"
  have step: "(client_step ?adv)\<^sup>*\<^sup>* (genesis_ledger, block_sync_fetched) (genesis_ledger, ?s)"
    by (rule r_into_rtranclp, rule client_disconnect)
  have "peek_next_block (ledger_height genesis_ledger + 1) block_sync_fetched = Some next_synced_block"
    using fetched_state(1) by (simp add: genesis_ledger_def)
  from rejected_block_sticks[OF fetched_reachable this refl step]
  have "try_advancing_block_synchronization ?adv genesis_ledger ?s = (Inl (Bail ''invalid block''), genesis_ledger, ?s)" by blast
  moreover have "peer_locators ?s = []" by (simp add: remove_peer_def remove_block_requests_to_peer_def Let_def fetched_state(2))
  ultimately show ?thesis using step by blast
qed

text \<open>C24. Advancing hands the ledger exactly the blocks that are ready from its height on, in order, until one
  fails or the node shuts down; it drops the requests of the blocks that were handled and no others, reports whether it
  passed any height, and moves the sync height to the last one unless it failed.\<close>

theorem ready_blocks_applied:
  assumes "sync_reachable s" "\<forall>i<length bs. peek_next_block (ledger_height l + 1 + i) s = Some (bs ! i)"
    "peek_next_block (ledger_height l + 1 + length bs) s = None" "apply_ready advance l bs = (err, k, n, l')"
  shows "try_advancing_block_synchronization advance l s =
    (case err of
       Some e \<Rightarrow> (Inl e, l', drop_requests (ledger_height l) n s)
     | None \<Rightarrow> (Ok (k > 0), l', (if k > 0 then block_sync_set_height (ledger_height l + k) else id) (drop_requests (ledger_height l) n s)))"
  using advance_loop_result[OF sync_reachable_inv[OF assms(1)] _ _ assms(4), of "ledger_height l"] assms(2,3)
  by (simp add: try_advancing_block_synchronization_def split: option.split)

theorem ready_blocks_applied_witness:
  "try_advancing_block_synchronization (\<lambda>l b. Advanced (l\<lparr>ledger_height := block_height b\<rparr>)) genesis_ledger block_sync_fetched =
     (Ok True, genesis_ledger\<lparr>ledger_height := 1\<rparr>, block_sync_set_height 1 (drop_requests 0 1 block_sync_fetched)) \<and>
   block_requests (drop_requests 0 1 block_sync_fetched) = []"
proof -
  let ?adv = "\<lambda>l (b :: unit synced_block). Advanced (l\<lparr>ledger_height := block_height b\<rparr>)"
  have "apply_ready ?adv genesis_ledger [next_synced_block] = (None, 1, 1, genesis_ledger\<lparr>ledger_height := 1\<rparr>)"
    by (simp add: next_synced_block_def)
  moreover have "\<forall>i<length [next_synced_block]. peek_next_block (ledger_height genesis_ledger + 1 + i) block_sync_fetched = Some ([next_synced_block] ! i)"
    "peek_next_block (ledger_height genesis_ledger + 1 + length [next_synced_block]) block_sync_fetched = None"
    using fetched_state(1) by (simp_all add: genesis_ledger_def fetched_eq peek_next_block_def)
  ultimately have "try_advancing_block_synchronization ?adv genesis_ledger block_sync_fetched =
     (Ok True, genesis_ledger\<lparr>ledger_height := 1\<rparr>, block_sync_set_height 1 (drop_requests 0 1 block_sync_fetched))"
    using ready_blocks_applied[OF fetched_reachable, of "[next_synced_block]" genesis_ledger ?adv None 1 1 "genesis_ledger\<lparr>ledger_height := 1\<rparr>"]
    by (simp add: genesis_ledger_def)
  then show ?thesis by (simp add: drop_requests_def fetched_eq)
qed

end
