(* ===== verification/Block_Check.thy ===== *)
theory Block_Check
  imports Subdag BFT_Storage Block_Sync
begin

text \<open>
  The checks of a block that arrives while catching up, after \<open>snarkVM/ledger/src/check_next_block.rs\<close>: the block
  extends the chain and the blocks that wait, its certificates have a quorum, it cannot be split at an earlier leader, and
  its leaves belong to earlier blocks; later its content is checked, once it is next.  What the ledger stores and what the
  execution of a block gives are parameters.
\<close>

section \<open>Blocks and the chain\<close>

datatype authority = Beacon | Quorum commit_map

record 't block_body =
  body_round :: u64
  body_authority :: authority
  body_view :: "'t block_view"
  body_unconfirmed :: "(field, 't) imap"

type_synonym 't full_block = "'t block_body synced_block"

abbreviation block_round :: "'t full_block \<Rightarrow> u64" where "block_round b \<equiv> body_round (block_contents b)"
abbreviation block_authority :: "'t full_block \<Rightarrow> authority" where "block_authority b \<equiv> body_authority (block_contents b)"

text \<open>The subDAG of a block, round by round; the genesis block has none.\<close>

definition block_subdag :: "'t full_block \<Rightarrow> commit_map" where
  "block_subdag b = (case block_authority b of Beacon \<Rightarrow> [] | Quorum subdag \<Rightarrow> subdag)"

definition block_certificates :: "'t full_block \<Rightarrow> batch_certificate list" where
  "block_certificates b = subdag_certificates (block_subdag b)"

datatype check_block_error = InvalidPrefix usize | BlockAlreadyExists | InvalidHeight | InvalidRound | OtherBlockError error

datatype begin_ledger_update_error = UpdateShuttingDown | NotSupportedForProver

record ('l, 't) chain =
  chain_crypto :: crypto
  chain_blocks :: "'l \<Rightarrow> block_ledger"
  chain_ledger :: "'l \<Rightarrow> 't ledger"
  chain_latest_block :: "'l \<Rightarrow> 't full_block"
  chain_get_blocks :: "'l \<Rightarrow> u32 \<Rightarrow> u32 \<Rightarrow> 't full_block list result"
  contains_block_hash :: "'l \<Rightarrow> field \<Rightarrow> bool result"
  contains_block_for_certificate :: "'l \<Rightarrow> field \<Rightarrow> bool result"
  begin_ledger_update :: "'l \<Rightarrow> begin_ledger_update_error + unit"
  check_block_execution :: "'l \<Rightarrow> 't full_block \<Rightarrow> unit result"
  advance_to_next_block :: "'l \<Rightarrow> 't full_block \<Rightarrow> 'l result"

abbreviation chain_height :: "('l, 't) chain \<Rightarrow> 'l \<Rightarrow> u32" where "chain_height ch l \<equiv> ledger_height (chain_blocks ch l)"

section \<open>The check\<close>

definition check_certificate_quorum :: "crypto \<Rightarrow> committee \<Rightarrow> batch_certificate \<Rightarrow> unit result" where
  "check_certificate_quorum cr committee_lookback c =
     (let signers = iset_insert (cert_author c) (iset_of_list (map (to_address cr) (signatures c)))
      in ensure (is_quorum_threshold_reached committee_lookback signers) ''Certificate does not meet quorum requirements'' (Ok ()))"

definition check_block_subdag_quorum :: "crypto \<Rightarrow> 't ledger \<Rightarrow> 't full_block \<Rightarrow> unit result" where
  "check_block_subdag_quorum cr ledger b =
     try_fold (\<lambda>(r, certificates) _.
         try_bind (get_committee_lookback_for_round ledger r) (\<lambda>committee_lookback.
           try_fold (\<lambda>c _. check_certificate_quorum cr committee_lookback c) certificates ()))
       (block_subdag b) ()"

definition subdag_link_step :: "commit_map \<Rightarrow> u64 \<Rightarrow> batch_certificate list \<Rightarrow> batch_certificate list result" where
  "subdag_link_step subdag r traversal =
     (case map_of subdag r of
        None \<Rightarrow> bail ''No certificates found for round''
      | Some cs \<Rightarrow> Ok (filter (\<lambda>p. \<exists>c\<in>set traversal. cert_id p \<in> set (cert_previous_ids c)) cs))"

definition subdag_is_linked :: "commit_map \<Rightarrow> batch_certificate \<Rightarrow> batch_certificate \<Rightarrow> bool result" where
  "subdag_is_linked subdag previous current =
     try_bind (try_fold (subdag_link_step subdag) (rev [cert_round previous ..< cert_round current]) [current])
       (\<lambda>traversal. Ok (cert_id previous \<in> cert_id ` set traversal))"

text \<open>The rounds of possible earlier leaders, every second one, from the latest down.\<close>

definition earlier_rounds :: "u64 \<Rightarrow> u64 \<Rightarrow> u64 list" where
  "earlier_rounds low high = filter (\<lambda>r. even (high - r)) (rev [low ..< Suc high])"

definition check_earlier_leader :: "crypto \<Rightarrow> 't ledger \<Rightarrow> commit_map \<Rightarrow> u64 \<Rightarrow> unit result" where
  "check_earlier_leader cr ledger subdag r =
     try_bind (get_committee_lookback_for_round ledger r) (\<lambda>committee.
     try_bind (get_leader cr committee r) (\<lambda>computed_leader.
       case Option.bind (map_of subdag r) (find (\<lambda>c. cert_author c = computed_leader)) of
         None \<Rightarrow> Ok ()
       | Some previous \<Rightarrow>
           try_bind (leader_certificate subdag) (\<lambda>leader.
           try_bind (subdag_is_linked subdag previous leader) (\<lambda>linked.
             ensure (\<not> linked) ''The previous certificate should not be linked to the current certificate'' (Ok ())))))"

definition check_block_subdag_atomicity :: "crypto \<Rightarrow> 't ledger \<Rightarrow> 't full_block \<Rightarrow> 't full_block \<Rightarrow> unit result" where
  "check_block_subdag_atomicity cr ledger b latest =
     (case block_authority b of
        Beacon \<Rightarrow> Ok ()
      | Quorum subdag \<Rightarrow>
          try_fold (\<lambda>r _. check_earlier_leader cr ledger subdag r)
            (earlier_rounds (saturating_add u64_max (block_round latest) 2) (saturating_sub (anchor_round subdag) 2)) ())"

definition check_leaf ::
    "('l, 't) chain \<Rightarrow> 'l \<Rightarrow> field set \<Rightarrow> u64 \<Rightarrow> u64 \<times> field \<Rightarrow> unit result" where
  "check_leaf ch l previous_certs r leaf =
     (case leaf of (prev_round, prev_id) \<Rightarrow>
        if u64_sub (u64_add prev_round MAX_GC_ROUNDS) 1 \<le> r then Ok ()
        else if prev_id \<in> previous_certs then Ok ()
        else try_bind (contains_block_for_certificate ch l prev_id) (\<lambda>known.
               ensure known ''Batch(es) in the block point to a certificate that is not associated with a previous block'' (Ok ())))"

definition check_block_subdag_leaves ::
    "('l, 't) chain \<Rightarrow> 'l \<Rightarrow> 't full_block \<Rightarrow> 't full_block list \<Rightarrow> unit result" where
  "check_block_subdag_leaves ch l b prefix =
     (case block_authority b of
        Beacon \<Rightarrow> Ok ()
      | Quorum subdag \<Rightarrow>
          let previous_certs = set (concat (map (\<lambda>p. certificate_ids (block_subdag p)) prefix));
              subdag_certs = set (certificate_ids subdag);
              leaf_edges = iset_of_list (filter (\<lambda>(_, prev_id). prev_id \<notin> subdag_certs)
                (concat (map (\<lambda>c. map (\<lambda>prev_id. (u64_sub (cert_round c) 1, prev_id)) (cert_previous_ids c)) (subdag_certificates subdag))))
          in try_fold (\<lambda>leaf _. check_leaf ch l previous_certs (block_round b) leaf) leaf_edges ())"

text \<open>The blocks of the prefix follow each other; the result is the height that comes next.\<close>

fun check_prefix :: "('l, 't) chain \<Rightarrow> 'l \<Rightarrow> usize \<Rightarrow> u32 \<Rightarrow> 't full_block list \<Rightarrow> check_block_error + u32" where
  "check_prefix ch l index expected [] = Inr expected"
| "check_prefix ch l index expected (p # ps) =
     (if block_height p \<noteq> expected then Inl (InvalidPrefix index)
      else case contains_block_hash ch l (block_hash p) of
             Inl err \<Rightarrow> Inl (OtherBlockError err)
           | Inr True \<Rightarrow> Inl (InvalidPrefix index)
           | Inr False \<Rightarrow> check_prefix ch l (Suc index) (expected + 1) ps)"

definition or_other :: "'a result \<Rightarrow> check_block_error + 'a" where
  "or_other r = map_sum OtherBlockError id r"

definition check_block_subdag ::
    "('l, 't) chain \<Rightarrow> 'l \<Rightarrow> 't full_block \<Rightarrow> 't full_block list \<Rightarrow> check_block_error + unit" where
  "check_block_subdag ch l b prefix =
     (case check_prefix ch l 0 (chain_height ch l + 1) prefix of
        Inl err \<Rightarrow> Inl err
      | Inr expected \<Rightarrow>
          (case contains_block_hash ch l (block_hash b) of
             Inl err \<Rightarrow> Inl (OtherBlockError err)
           | Inr exists \<Rightarrow>
               if exists then Inl BlockAlreadyExists
               else if block_height b \<noteq> expected then Inl InvalidHeight
               else or_other
                 (try_bind (check_block_subdag_quorum (chain_crypto ch) (chain_ledger ch l) b) (\<lambda>_.
                  try_bind (check_block_subdag_atomicity (chain_crypto ch) (chain_ledger ch l) b
                     (if prefix = [] then chain_latest_block ch l else last prefix)) (\<lambda>_.
                  check_block_subdag_leaves ch l b prefix)))))"

text \<open>The content is checked when the ledger is locked.  First it is checked again that the block is next; what comes after, its
  solutions, transactions and header, is the execution of the block.\<close>

definition check_block_content :: "('l, 't) chain \<Rightarrow> 'l \<Rightarrow> 't full_block \<Rightarrow> check_block_error + unit" where
  "check_block_content ch l b =
     (let latest_block = chain_latest_block ch l in
      if block_height b \<noteq> block_height latest_block + 1 then Inl InvalidHeight
      else if block_round b \<le> block_round latest_block then Inl InvalidRound
      else or_other (check_block_execution ch l b))"

section \<open>What an accepted block satisfies\<close>

text \<open>The certificates of a subDAG that are reached from \<open>c\<close> of round \<open>n\<close> by following references down to a round.\<close>

inductive reaches :: "commit_map \<Rightarrow> batch_certificate \<Rightarrow> u64 \<Rightarrow> u64 \<Rightarrow> batch_certificate \<Rightarrow> bool" for subdag c n where
  start: "reaches subdag c n n c"
| step: "\<lbrakk>reaches subdag c n (Suc r) q; map_of subdag r = Some cs; p \<in> set cs; cert_id p \<in> set (cert_previous_ids q)\<rbrakk>
    \<Longrightarrow> reaches subdag c n r p"

lemma reaches_le: "reaches subdag c n r p \<Longrightarrow> r \<le> n"
  by (induction rule: reaches.induct) auto

lemma reaches_top: "reaches subdag c n n p \<longleftrightarrow> p = c"
  using reaches_le[of subdag c n "Suc n"] by (auto intro: start elim: reaches.cases)

lemma reaches_step_iff:
  assumes "r < n" "map_of subdag r = Some cs"
  shows "reaches subdag c n r p \<longleftrightarrow> p \<in> set cs \<and> (\<exists>q. reaches subdag c n (Suc r) q \<and> cert_id p \<in> set (cert_previous_ids q))"
proof
  assume "reaches subdag c n r p"
  then show "p \<in> set cs \<and> (\<exists>q. reaches subdag c n (Suc r) q \<and> cert_id p \<in> set (cert_previous_ids q))"
    using assms by cases auto
qed (use assms in \<open>blast intro: step\<close>)

lemma traversal_reaches:
  "\<lbrakk>a \<le> n; try_fold (subdag_link_step subdag) (rev [a..<n]) [c] = Ok t\<rbrakk> \<Longrightarrow> set t = {p. reaches subdag c n a p}"
proof (induction "n - a" arbitrary: a t)
  case 0
  then show ?case by (auto simp: reaches_top)
next
  case (Suc k)
  have a: "a < n" "Suc a \<le> n" "k = n - Suc a" using Suc.hyps(2) by auto
  then have u: "rev [a..<n] = rev [Suc a..<n] @ [a]" by (simp add: upt_rec[of a])
  obtain t' where t': "try_fold (subdag_link_step subdag) (rev [Suc a..<n]) [c] = Ok t'" "subdag_link_step subdag a t' = Ok t"
    using Suc.prems(2) unfolding u by (auto simp: try_fold_append result_simps)
  obtain cs where cs: "map_of subdag a = Some cs" "t = filter (\<lambda>p. \<exists>c\<in>set t'. cert_id p \<in> set (cert_previous_ids c)) cs"
    using t'(2) by (auto simp: subdag_link_step_def result_simps split: option.splits)
  show ?case
    using Suc.hyps(1)[OF a(3,2) t'(1)] by (auto simp: cs(2) reaches_step_iff[OF a(1) cs(1)])
qed

lemma subdag_is_linked_False:
  assumes "subdag_is_linked subdag p c = Ok False" "cert_round p \<le> cert_round c"
  shows "\<not> reaches subdag c (cert_round c) (cert_round p) p"
proof -
  obtain t where t: "try_fold (subdag_link_step subdag) (rev [cert_round p..<cert_round c]) [c] = Ok t" "cert_id p \<notin> cert_id ` set t"
    using assms(1) by (auto simp: subdag_is_linked_def result_simps)
  show ?thesis using t(2) traversal_reaches[OF assms(2) t(1)] by auto
qed

lemma subdag_quorum_Ok:
  assumes "check_block_subdag_quorum cr ledger b = Ok ()" "(r, cs) \<in> set (block_subdag b)" "c \<in> set cs"
  obtains lookback where "get_committee_lookback_for_round ledger r = Ok lookback"
    "is_quorum_threshold_reached lookback (iset_insert (cert_author c) (iset_of_list (map (to_address cr) (signatures c))))"
proof -
  have "try_bind (get_committee_lookback_for_round ledger r) (\<lambda>k. try_fold (\<lambda>c _. check_certificate_quorum cr k c) cs ()) = Ok ()"
    using assms(1,2) unfolding check_block_subdag_quorum_def try_fold_each by fastforce
  then obtain k where "get_committee_lookback_for_round ledger r = Ok k" "check_certificate_quorum cr k c = Ok ()"
    using assms(3) by (auto simp: try_fold_each result_simps)
  then show thesis using that by (auto simp: check_certificate_quorum_def Let_def result_simps split: if_splits)
qed

lemma earlier_rounds_set: "r \<in> set (earlier_rounds low high) \<longleftrightarrow> low \<le> r \<and> r \<le> high \<and> even (high - r)"
  by (auto simp: earlier_rounds_def)

lemma atomicity_Ok:
  assumes "check_block_subdag_atomicity cr ledger b latest = Ok ()" "block_authority b = Quorum subdag"
    "r \<in> set (earlier_rounds (saturating_add u64_max (block_round latest) 2) (saturating_sub (anchor_round subdag) 2))"
    "get_committee_lookback_for_round ledger r = Ok k" "get_leader cr k r = Ok a"
    "map_of subdag r = Some cs" "find (\<lambda>c. cert_author c = a) cs = Some p" "leader_certificate subdag = Ok leader"
  shows "subdag_is_linked subdag p leader = Ok False"
proof -
  have "check_earlier_leader cr ledger subdag r = Ok ()"
    using assms(1-3) by (simp add: check_block_subdag_atomicity_def try_fold_each)
  then show ?thesis using assms(4-8) by (auto simp: check_earlier_leader_def result_simps split: if_splits)
qed

lemma check_prefix_Inr:
  "check_prefix ch l i n ps = Inr m \<Longrightarrow> m = n + length ps \<and> map block_height ps = [n..<n + length ps] \<and>
     (\<forall>p\<in>set ps. contains_block_hash ch l (block_hash p) = Ok False)"
proof (induction ch l i n ps rule: check_prefix.induct)
  case (2 ch l i n p ps)
  then have h: "block_height p = n" "contains_block_hash ch l (block_hash p) = Inr False"
    and m: "check_prefix ch l (Suc i) (n + 1) ps = Inr m"
    by (auto split: if_splits sum.splits bool.splits)
  from 2(1)[OF _ h(2) _ m] h have "m = Suc n + length ps \<and> map block_height ps = [Suc n..<Suc n + length ps] \<and>
     (\<forall>p\<in>set ps. contains_block_hash ch l (block_hash p) = Ok False)" by simp
  then show ?case using h by (simp add: upt_conv_Cons del: upt_Suc)
qed simp

lemma check_prefix_Inl:
  "check_prefix ch l i n ps = Inl (InvalidPrefix k) \<Longrightarrow> i \<le> k \<and> k < i + length ps"
proof (induction ch l i n ps rule: check_prefix.induct)
  case (2 ch l i n p ps)
  show ?case
  proof (cases "block_height p \<noteq> n \<or> contains_block_hash ch l (block_hash p) = Inr True")
    case True
    then show ?thesis using 2(2) by (auto split: if_splits)
  next
    case False
    then have h: "block_height p = n" "contains_block_hash ch l (block_hash p) = Inr False"
      "check_prefix ch l (Suc i) (n + 1) ps = Inl (InvalidPrefix k)"
      using 2(2) by (auto split: if_splits sum.splits bool.splits)
    then show ?thesis using 2(1)[OF _ h(2) _ h(3)] by simp
  qed
qed simp

lemma or_other_simps [simp]:
  "or_other r = Inr x \<longleftrightarrow> r = Inr x" "or_other r \<noteq> Inl (InvalidPrefix k)" "or_other r \<noteq> Inl InvalidHeight"
  by (cases r; simp add: or_other_def)+

lemma check_block_subdag_Inr:
  assumes "check_block_subdag ch l b prefix = Inr ()"
  shows "map block_height (prefix @ [b]) = [chain_height ch l + 1..<chain_height ch l + 2 + length prefix]"
    "\<forall>x\<in>set (prefix @ [b]). contains_block_hash ch l (block_hash x) = Ok False"
    "check_block_subdag_quorum (chain_crypto ch) (chain_ledger ch l) b = Ok ()"
    "check_block_subdag_atomicity (chain_crypto ch) (chain_ledger ch l) b (if prefix = [] then chain_latest_block ch l else last prefix) = Ok ()"
    "check_block_subdag_leaves ch l b prefix = Ok ()"
proof -
  obtain m where m: "check_prefix ch l 0 (chain_height ch l + 1) prefix = Inr m"
    using assms by (auto simp: check_block_subdag_def split: sum.splits)
  obtain x where x: "contains_block_hash ch l (block_hash b) = Inr x"
    using assms m by (auto simp: check_block_subdag_def split: sum.splits)
  have h: "\<not> x" "block_height b = m" using assms m x by (auto simp: check_block_subdag_def split: if_splits)
  note p = check_prefix_Inr[OF m]
  show "map block_height (prefix @ [b]) = [chain_height ch l + 1..<chain_height ch l + 2 + length prefix]"
    using p h by simp
  show "\<forall>x\<in>set (prefix @ [b]). contains_block_hash ch l (block_hash x) = Ok False" using p h x by simp
  show "check_block_subdag_quorum (chain_crypto ch) (chain_ledger ch l) b = Ok ()"
    "check_block_subdag_atomicity (chain_crypto ch) (chain_ledger ch l) b (if prefix = [] then chain_latest_block ch l else last prefix) = Ok ()"
    "check_block_subdag_leaves ch l b prefix = Ok ()"
    using assms m x h by (auto simp: check_block_subdag_def result_simps)
qed

lemma check_block_subdag_InvalidPrefix:
  assumes "check_block_subdag ch l b prefix = Inl (InvalidPrefix k)"
  shows "k < length prefix"
proof -
  have "check_prefix ch l 0 (chain_height ch l + 1) prefix = Inl (InvalidPrefix k)"
    using assms by (auto simp: check_block_subdag_def split: sum.splits if_splits)
  then show ?thesis using check_prefix_Inl by fastforce
qed

section \<open>A concrete chain\<close>

text \<open>Block \<open>n\<close> has the leader of round \<open>2 n\<close> and two certificates of the round before it, which vote for the leader of the
  previous block.  The chain is the list of its blocks.\<close>

definition signed_certificate :: "field \<Rightarrow> address \<Rightarrow> u64 \<Rightarrow> field list \<Rightarrow> batch_certificate" where
  "signed_certificate i a r prev = (plain_certificate i a r prev)\<lparr>signatures := signatures sample_cert\<rparr>"

definition numbered_subdag :: "nat \<Rightarrow> commit_map" where
  "numbered_subdag n =
     (let prev = (if n = 1 then [] else [10 * n - 10])
      in [(2 * n - 1, [signed_certificate (10 * n + 1) 6 (2 * n - 1) prev, signed_certificate (10 * n + 2) 8 (2 * n - 1) prev]),
          (2 * n, [signed_certificate (10 * n) 6 (2 * n) [10 * n + 1, 10 * n + 2]])])"

definition numbered_block :: "nat \<Rightarrow> nat full_block" where
  "numbered_block n = \<lparr>block_height = n, block_hash = 100 + n, previous_hash = 99 + n,
     block_contents = \<lparr>body_round = 2 * n, body_authority = (if n = 0 then Beacon else Quorum (numbered_subdag n)),
       body_view = \<lparr>get_solution = (\<lambda>_. None), aborted_solution_ids = [], aborted_transaction_ids = []\<rparr>,
       body_unconfirmed = []\<rparr>\<rparr>"

definition list_chain :: "(nat full_block list, nat) chain" where
  "list_chain = \<lparr>chain_crypto = sample_crypto,
     chain_blocks = (\<lambda>l. \<lparr>ledger_height = length l - 1,
       ledger_block_hash = (\<lambda>h. if h < length l then Ok (block_hash (l ! h)) else bail ''no block''),
       contains_block_height = (\<lambda>h. h < length l)\<rparr>),
     chain_ledger = (\<lambda>_. sample_ledger), chain_latest_block = last, chain_get_blocks = (\<lambda>l a b. Ok (take (b - a) (drop a l))),
     contains_block_hash = (\<lambda>l h. Ok (h \<in> block_hash ` set l)),
     contains_block_for_certificate = (\<lambda>l i. Ok (\<exists>b\<in>set l. i \<in> set (certificate_ids (block_subdag b)))),
     begin_ledger_update = (\<lambda>_. Inr ()),
     check_block_execution = (\<lambda>_ _. Ok ()),
     advance_to_next_block = (\<lambda>l b. Ok (l @ [b]))\<rparr>"

lemma signed_certificate_fields [simp]:
  "cert_id (signed_certificate i a r prev) = i" "cert_author (signed_certificate i a r prev) = a"
  "cert_round (signed_certificate i a r prev) = r" "cert_previous_ids (signed_certificate i a r prev) = prev"
  "map (to_address sample_crypto) (signatures (signed_certificate i a r prev)) = [8, 10, 12]"
  "cert_transmission_ids (signed_certificate i a r prev) = []" "cert_timestamp (signed_certificate i a r prev) = 0"
  by (simp_all add: signed_certificate_def sample_cert_fields) (simp_all add: plain_certificate_def)

lemma numbered_block_fields [simp]:
  "block_height (numbered_block n) = n" "block_hash (numbered_block n) = 100 + n" "block_round (numbered_block n) = 2 * n"
  "block_subdag (numbered_block n) = (if n = 0 then [] else numbered_subdag n)"
  "block_authority (numbered_block n) = (if n = 0 then Beacon else Quorum (numbered_subdag n))"
  by (simp_all add: numbered_block_def block_subdag_def)

lemma numbered_subdag_fields [simp]:
  "anchor_round (numbered_subdag n) = 2 * n" "certificate_ids (numbered_subdag n) = [10 * n + 1, 10 * n + 2, 10 * n]"
  by (simp_all add: numbered_subdag_def anchor_round_def certificate_ids_def subdag_certificates_def Let_def)

lemma signed_quorum: "check_certificate_quorum sample_crypto sample_committee (signed_certificate i a r prev) = Ok ()"
proof -
  have "is_quorum_threshold_reached sample_committee (iset_insert a [8, 10, 12])"
    by (cases "a = 6") (simp_all add: is_quorum_threshold_reached_def combined_stake_sum sample_committee_eval u64_max_def iset_insert_key_def)
  then show ?thesis by (simp add: check_certificate_quorum_def iset_of_list_def iset_insert_key_def)
qed

lemma numbered_accepted:
  "check_block_subdag list_chain [numbered_block 0] (numbered_block 1) [] = Inr ()"
  "check_block_subdag list_chain [numbered_block 0] (numbered_block 2) [numbered_block 1] = Inr ()"
  "check_block_subdag list_chain [numbered_block 0] (numbered_block 3) [numbered_block 1, numbered_block 2] = Inr ()"
proof -
  have q: "check_block_subdag_quorum sample_crypto sample_ledger (numbered_block n) = Ok ()" for n
    by (simp add: check_block_subdag_quorum_def numbered_subdag_def Let_def sample_ledger_def signed_quorum)
  have a: "check_block_subdag_atomicity sample_crypto sample_ledger (numbered_block (Suc n)) (numbered_block n) = Ok ()" if n: "n < 3" for n
    using n by (simp add: check_block_subdag_atomicity_def earlier_rounds_def saturating_add_def saturating_sub_def u64_max_def)
  have l: "check_block_subdag_leaves list_chain [numbered_block 0] (numbered_block 1) [] = Ok ()"
    "check_block_subdag_leaves list_chain [numbered_block 0] (numbered_block 2) [numbered_block 1] = Ok ()"
    "check_block_subdag_leaves list_chain [numbered_block 0] (numbered_block 3) [numbered_block 1, numbered_block 2] = Ok ()"
    by (simp_all add: check_block_subdag_leaves_def Let_def numbered_subdag_def subdag_certificates_def certificate_ids_def
      iset_of_list_def iset_insert_key_def check_leaf_def)
  show "check_block_subdag list_chain [numbered_block 0] (numbered_block 1) [] = Inr ()"
    "check_block_subdag list_chain [numbered_block 0] (numbered_block 2) [numbered_block 1] = Inr ()"
    "check_block_subdag list_chain [numbered_block 0] (numbered_block 3) [numbered_block 1, numbered_block 2] = Inr ()"
    using q a[of 0] a[of 1] a[of 2] l by (simp_all add: check_block_subdag_def list_chain_def or_other_def numeral_2_eq_2 numeral_3_eq_3)
qed

section \<open>Properties\<close>

text \<open>C29. A block that the subDAG check accepts continues the chain: with the blocks that wait before it, it has the next heights,
  and none of them is in the ledger.  Every certificate of it has the signatures of a quorum of the committee of its round.  It
  cannot be split: the certificate of an earlier leader in it, two or more rounds above the previous block, is not
  reached from the leader of the block.\<close>

theorem accepted_block_checked:
  assumes "check_block_subdag ch l b prefix = Inr ()" "block_authority b = Quorum subdag"
  shows "map block_height (prefix @ [b]) = [chain_height ch l + 1..<chain_height ch l + 2 + length prefix] \<and>
    (\<forall>x\<in>set (prefix @ [b]). contains_block_hash ch l (block_hash x) = Ok False) \<and>
    (\<forall>(r, cs)\<in>set subdag. \<forall>c\<in>set cs. \<exists>lookback. get_committee_lookback_for_round (chain_ledger ch l) r = Ok lookback \<and>
       is_quorum_threshold_reached lookback (iset_insert (cert_author c) (iset_of_list (map (to_address (chain_crypto ch)) (signatures c))))) \<and>
    (\<forall>r k a cs p leader. block_round (if prefix = [] then chain_latest_block ch l else last prefix) + 2 \<le> r \<and>
       r + 2 \<le> anchor_round subdag \<and> even (anchor_round subdag - r) \<and>
       get_committee_lookback_for_round (chain_ledger ch l) r = Ok k \<and> get_leader (chain_crypto ch) k r = Ok a \<and>
       map_of subdag r = Some cs \<and> find (\<lambda>c. cert_author c = a) cs = Some p \<and> leader_certificate subdag = Ok leader \<longrightarrow>
       \<not> reaches subdag leader (cert_round leader) (cert_round p) p)"
proof (intro conjI allI impI ballI)
  note D = check_block_subdag_Inr[OF assms(1)]
  show "map block_height (prefix @ [b]) = [chain_height ch l + 1..<chain_height ch l + 2 + length prefix]" by (rule D(1))
  show "contains_block_hash ch l (block_hash x) = Ok False" if "x \<in> set (prefix @ [b])" for x using D(2) that by blast
  show "case x of (r, cs) \<Rightarrow> \<forall>c\<in>set cs. \<exists>lookback. get_committee_lookback_for_round (chain_ledger ch l) r = Ok lookback \<and>
      is_quorum_threshold_reached lookback (iset_insert (cert_author c) (iset_of_list (map (to_address (chain_crypto ch)) (signatures c))))"
    if "x \<in> set subdag" for x
    using subdag_quorum_Ok[OF D(3)] that assms(2) by (auto simp: block_subdag_def) metis
  fix r k a cs p leader
  let ?prev = "if prefix = [] then chain_latest_block ch l else last prefix"
  assume h: "block_round ?prev + 2 \<le> r \<and> r + 2 \<le> anchor_round subdag \<and> even (anchor_round subdag - r) \<and>
       get_committee_lookback_for_round (chain_ledger ch l) r = Ok k \<and> get_leader (chain_crypto ch) k r = Ok a \<and>
       map_of subdag r = Some cs \<and> find (\<lambda>c. cert_author c = a) cs = Some p \<and> leader_certificate subdag = Ok leader"
  have "r \<in> set (earlier_rounds (saturating_add u64_max (block_round ?prev) 2) (saturating_sub (anchor_round subdag) 2))"
    using h by (auto simp: earlier_rounds_set saturating_add_def saturating_sub_def)
  from atomicity_Ok[OF D(4) assms(2) this] h have "subdag_is_linked subdag p leader = Ok False" by blast
  then show "\<not> reaches subdag leader (cert_round leader) (cert_round p) p"
    using subdag_is_linked_False reaches_le by (cases "cert_round p \<le> cert_round leader") blast+
qed

theorem accepted_block_checked_witness:
  "check_block_subdag list_chain [numbered_block 0] (numbered_block 2) [numbered_block 1] = Inr () \<and>
   map block_height [numbered_block 1, numbered_block 2] = [1, 2]"
  using accepted_block_checked[OF numbered_accepted(2)] numbered_accepted(2) by simp

end
