(* ===== verification/Validator_Sync.thy ===== *)
theory Validator_Sync
  imports BFT Block_Check Sync_Requests
begin

text \<open>
  How a validator catches up with blocks, after \<open>node/bft/src/sync/mod.rs\<close>.  Fetched blocks wait in a queue until the
  votes in later blocks confirm them; their certificates go to storage and to the DAG.  The chain is a parameter:
  what it checks and how it advances.  Nothing else advances it while a block is being processed; the one place where
  this matters is where the ledger gets locked, and there the operation is split.
\<close>

section \<open>State\<close>

record ('l, 'p, 's, 't, 'u) validator_sync =
  vs_chain :: 'l
  vs_pending :: "'t full_block list"
  vs_bft :: "('s, 't, 'u) bft"
  vs_block_sync :: "('p, 't block_body) block_sync"
  sync_callback :: bool

definition vs_env :: "('l, 't) chain \<Rightarrow> ('s, 't, 'u) storage_env \<Rightarrow> ('l, 'p, 's, 't, 'u) validator_sync \<Rightarrow> ('s, 't, 'u) storage_env" where
  "vs_env ch e s = e\<lparr>env_ledger := chain_ledger ch (vs_chain s)\<rparr>"

section \<open>Storage and DAG\<close>

fun sync_certificates ::
    "('s, 't, 'u) storage_env \<Rightarrow> i64 \<Rightarrow> 't full_block \<Rightarrow> batch_certificate list \<Rightarrow> ('s, 'u) storage \<Rightarrow> unit result \<times> ('s, 'u) storage" where
  "sync_certificates e now b [] st = (Ok (), st)"
| "sync_certificates e now b (c # cs) st =
     (case sync_certificate_with_block e now (body_view (block_contents b)) c (body_unconfirmed (block_contents b)) st of
        Inl err \<Rightarrow> (Inl err, st)
      | Inr st \<Rightarrow> sync_certificates e now b cs st)"

definition add_block_subdag_to_bft ::
    "('l, 't) chain \<Rightarrow> ('s, 't, 'u) storage_env \<Rightarrow> i64 \<Rightarrow> 't full_block \<Rightarrow> ('l, 'p, 's, 't, 'u) validator_sync
      \<Rightarrow> unit result \<times> ('l, 'p, 's, 't, 'u) validator_sync" where
  "add_block_subdag_to_bft ch e now b s =
     (case block_authority b of
        Beacon \<Rightarrow> (Ok (), s)
      | Quorum _ \<Rightarrow>
          (case sync_certificates (vs_env ch e s) now b (block_certificates b) (bft_storage (vs_bft s)) of
             (Inl err, st) \<Rightarrow> (Inl err, s\<lparr>vs_bft := (vs_bft s)\<lparr>bft_storage := st\<rparr>\<rparr>)
           | (Inr _, st) \<Rightarrow>
               (Ok (), let bft = (vs_bft s)\<lparr>bft_storage := st\<rparr>
                       in s\<lparr>vs_bft := if sync_callback s then fold add_certificate_from_sync (block_certificates b) bft else bft\<rparr>)))"

section \<open>Confirming pending blocks\<close>

definition is_block_availability_threshold_reached :: "'t ledger \<Rightarrow> 't full_block \<Rightarrow> 't full_block list \<Rightarrow> bool result" where
  "is_block_availability_threshold_reached ledger b successors =
     (case block_authority b of
        Beacon \<Rightarrow> bail ''Received a block with an unexpected authority type''
      | Quorum subdag \<Rightarrow>
          try_bind (leader_certificate subdag) (\<lambda>leader.
            case checked_add u64_max (cert_round leader) 1 of
              None \<Rightarrow> bail ''Integer overflow on round number''
            | Some certificate_round \<Rightarrow>
                try_bind (get_committee_lookback_for_round ledger certificate_round) (\<lambda>committee.
                  let voters = concat (map (\<lambda>b. case block_authority b of
                                  Beacon \<Rightarrow> []
                                | Quorum subdag \<Rightarrow> (case map_of subdag certificate_round of Some cs \<Rightarrow> cs | None \<Rightarrow> [])) successors);
                      authors = iset_of_list (map cert_author (filter (\<lambda>c. cert_id leader \<in> set (cert_previous_ids c)) voters))
                  in Ok (is_availability_threshold_reached committee authors))))"

text \<open>The last block that is confirmed, searched from the back; \<open>n\<close> counts the blocks still to be tried.\<close>

fun find_commit_height :: "'t ledger \<Rightarrow> 't full_block list \<Rightarrow> nat \<Rightarrow> u32 option result" where
  "find_commit_height ledger pending 0 = Ok None"
| "find_commit_height ledger pending (Suc n) =
     try_bind (is_block_availability_threshold_reached ledger (pending ! n) (drop (Suc n) pending)) (\<lambda>reached.
       if reached then Ok (Some (block_height (pending ! n))) else find_commit_height ledger pending n)"

text \<open>Adding confirmed blocks to the ledger; \<open>False\<close> asks for a retry.\<close>

fun commit_blocks ::
    "('l, 't) chain \<Rightarrow> bool \<Rightarrow> 't full_block list \<Rightarrow> ('l, 'p, 's, 't, 'u) validator_sync
      \<Rightarrow> bool result \<times> ('l, 'p, 's, 't, 'u) validator_sync" where
  "commit_blocks ch within_gc_range [] s = (Ok True, s)"
| "commit_blocks ch within_gc_range (b # bs) s =
     (case check_block_content ch (vs_chain s) b of
        Inl (OtherBlockError err) \<Rightarrow> (Inl err, s)
      | Inl (InvalidPrefix _) \<Rightarrow> (bail ''Failed to check contents of pending block'', s)
      | Inl _ \<Rightarrow> (Ok False, s)
      | Inr _ \<Rightarrow>
          (case advance_to_next_block ch (vs_chain s) b of
             Inl err \<Rightarrow> (Inl err, s)
           | Inr l \<Rightarrow>
               let st = sync_round_with_block (block_round b) (sync_height_with_block (block_height b) (bft_storage (vs_bft s)));
                   bft = (vs_bft s)\<lparr>bft_storage := st\<rparr>;
                   bft = (if within_gc_range \<and> sync_callback s then fold commit_certificate_from_sync (block_certificates b) bft else bft)
               in commit_blocks ch within_gc_range bs (s\<lparr>vs_chain := l, vs_bft := bft\<rparr>)))"

definition drop_obsolete :: "u32 \<Rightarrow> 't full_block list \<Rightarrow> 't full_block list" where
  "drop_obsolete h = dropWhile (\<lambda>b. block_height b \<le> h)"

text \<open>From the moment the ledger is locked; the height of the ledger was read before.\<close>

definition commit_from ::
    "('l, 't) chain \<Rightarrow> bool \<Rightarrow> u32 \<Rightarrow> u32 \<Rightarrow> ('l, 'p, 's, 't, 'u) validator_sync
      \<Rightarrow> bool result \<times> ('l, 'p, 's, 't, 'u) validator_sync" where
  "commit_from ch within_gc_range ledger_block_height commit_height s =
     (case begin_ledger_update ch (vs_chain s) of
        Inl UpdateShuttingDown \<Rightarrow> (Ok True, s)
      | Inl NotSupportedForProver \<Rightarrow> (bail ''Unexpected error when beginning ledger update'', s)
      | Inr _ \<Rightarrow>
          let start_height = ledger_block_height + 1 in
          if \<not> commit_height \<ge> start_height then (bail ''Invalid commit height'', s)
          else let num_blocks = commit_height - start_height + 1
               in if num_blocks > length (vs_pending s) then (Err (Panic ''range end index out of range''), s)
                  else commit_blocks ch within_gc_range (take num_blocks (vs_pending s))
                         (s\<lparr>vs_pending := drop num_blocks (vs_pending s)\<rparr>))"

definition commit_pending ::
    "('l, 't) chain \<Rightarrow> bool \<Rightarrow> ('l, 'p, 's, 't, 'u) validator_sync \<Rightarrow> bool result \<times> ('l, 'p, 's, 't, 'u) validator_sync" where
  "commit_pending ch within_gc_range s =
     (let ledger_block_height = chain_height ch (vs_chain s) in
      case find_commit_height (chain_ledger ch (vs_chain s)) (vs_pending s) (length (vs_pending s) - 1) of
        Inl err \<Rightarrow> (Inl err, s)
      | Inr None \<Rightarrow> (Ok True, s)
      | Inr (Some commit_height) \<Rightarrow> commit_from ch within_gc_range ledger_block_height commit_height s)"

definition try_sync_storage_with_block ::
    "('l, 't) chain \<Rightarrow> 't full_block \<Rightarrow> bool \<Rightarrow> ('l, 'p, 's, 't, 'u) validator_sync
      \<Rightarrow> bool result \<times> ('l, 'p, 's, 't, 'u) validator_sync" where
  "try_sync_storage_with_block ch b within_gc_range s =
     (if vs_pending s \<noteq> [] \<and> block_height (last (vs_pending s)) \<ge> block_height b then (Ok True, s)
      else if vs_pending s \<noteq> [] \<and> block_height (last (vs_pending s)) + 1 \<noteq> block_height b
      then (bail ''Got an out-of-order block'', s)
      else let pending = drop_obsolete (chain_height ch (vs_chain s)) (vs_pending s);
               s = s\<lparr>vs_pending := pending\<rparr>
           in case check_block_subdag ch (vs_chain s) b pending of
                Inl (InvalidPrefix index) \<Rightarrow>
                  if index < length pending
                  then (Ok False, s\<lparr>vs_pending := drop_obsolete (block_height (pending ! index)) pending\<rparr>)
                  else (bail ''Invalid prefix index'', s)
              | Inl (OtherBlockError err) \<Rightarrow> (Inl err, s)
              | Inl _ \<Rightarrow> (Ok True, s)
              | Inr _ \<Rightarrow> commit_pending ch within_gc_range (s\<lparr>vs_pending := pending @ [b]\<rparr>))"

text \<open>The attempt is repeated until it does not ask for a retry.\<close>

partial_function (option) sync_attempts ::
    "('l, 't) chain \<Rightarrow> 't full_block \<Rightarrow> bool \<Rightarrow> ('l, 'p, 's, 't, 'u) validator_sync
      \<Rightarrow> (unit result \<times> ('l, 'p, 's, 't, 'u) validator_sync) option" where
  "sync_attempts ch b within_gc_range s =
     (case try_sync_storage_with_block ch b within_gc_range s of
        (Inl err, s) \<Rightarrow> Some (Inl err, s)
      | (Inr done, s) \<Rightarrow> if done then Some (Ok (), s) else sync_attempts ch b within_gc_range s)"

definition sync_storage_with_block ::
    "('l, 't) chain \<Rightarrow> ('s, 't, 'u) storage_env \<Rightarrow> i64 \<Rightarrow> 't full_block \<Rightarrow> bool \<Rightarrow> ('l, 'p, 's, 't, 'u) validator_sync
      \<Rightarrow> (unit result \<times> ('l, 'p, 's, 't, 'u) validator_sync) option" where
  "sync_storage_with_block ch e now b within_gc_range s =
     (if contains_block_height (chain_blocks ch (vs_chain s)) (block_height b) then Some (Ok (), s)
      else if within_gc_range
      then (case add_block_subdag_to_bft ch e now b s of
              (Inl err, s) \<Rightarrow> Some (Inl err, s)
            | (Inr _, s) \<Rightarrow> sync_attempts ch b within_gc_range s)
      else sync_attempts ch b within_gc_range s)"

section \<open>Start-up and the loop\<close>

text \<open>The certificates of several blocks.\<close>

fun sync_blocks ::
    "('s, 't, 'u) storage_env \<Rightarrow> i64 \<Rightarrow> 't full_block list \<Rightarrow> ('s, 'u) storage \<Rightarrow> unit result \<times> ('s, 'u) storage" where
  "sync_blocks e now [] st = (Ok (), st)"
| "sync_blocks e now (b # bs) st =
     (case sync_certificates e now b (block_certificates b) st of
        (Inl err, st) \<Rightarrow> (Inl err, st)
      | (Inr _, st) \<Rightarrow> sync_blocks e now bs st)"

definition max_gc_blocks :: "('s, 'u) storage \<Rightarrow> u32 result" where
  "max_gc_blocks st = ensure (max_gc_rounds st \<le> u32_max) ''out of range integral type conversion attempted'' (Ok (max_gc_rounds st div 2))"

text \<open>The DAG gets the certificates of the ledger, as committed, and those of the blocks that wait.\<close>

definition load_dag ::
    "bool \<Rightarrow> 't full_block list \<Rightarrow> 't full_block list \<Rightarrow> ('s, 't, 'u) bft \<Rightarrow> ('s, 't, 'u) bft" where
  "load_dag callback ledger_blocks pending bft =
     (if callback
      then fold add_certificate_from_sync (concat (map block_certificates pending))
             (fold (\<lambda>c bft. commit_certificate_from_sync c (add_certificate_from_sync c bft))
               (concat (map block_certificates ledger_blocks)) bft)
      else bft)"

definition sync_storage_with_ledger_at_bootup ::
    "('l, 't) chain \<Rightarrow> ('s, 't, 'u) storage_env \<Rightarrow> i64 \<Rightarrow> ('l, 'p, 's, 't, 'u) validator_sync
      \<Rightarrow> unit result \<times> ('l, 'p, 's, 't, 'u) validator_sync" where
  "sync_storage_with_ledger_at_bootup ch e now s =
     (let latest_ledger_block = chain_latest_block ch (vs_chain s);
          pending = drop_obsolete (block_height latest_ledger_block) (vs_pending s);
          s = s\<lparr>vs_pending := pending\<rparr>;
          latest_block = (if pending = [] then latest_ledger_block else last pending);
          max_height = block_height latest_block
      in case max_gc_blocks (bft_storage (vs_bft s)) of
           Inl err \<Rightarrow> (Inl err, s)
         | Inr gc_blocks \<Rightarrow>
             (case chain_get_blocks ch (vs_chain s) (saturating_sub max_height gc_blocks) (block_height latest_ledger_block + 1) of
                Inl err \<Rightarrow> (Inl err, s)
              | Inr ledger_blocks \<Rightarrow>
                  let st = sync_round_with_block (block_round latest_block) (sync_height_with_block max_height (bft_storage (vs_bft s)))
                  in (case garbage_collect_certificates (vs_env ch e s) (block_round latest_block) st of
                        Inl err \<Rightarrow> (Inl err, s\<lparr>vs_bft := (vs_bft s)\<lparr>bft_storage := st\<rparr>\<rparr>)
                      | Inr st \<Rightarrow>
                          (case sync_blocks (vs_env ch e s) now (ledger_blocks @ pending) st of
                             (Inl err, st) \<Rightarrow> (Inl err, s\<lparr>vs_bft := (vs_bft s)\<lparr>bft_storage := st\<rparr>\<rparr>)
                           | (Inr _, st) \<Rightarrow>
                               (Ok (), s\<lparr>vs_bft := load_dag (sync_callback s) ledger_blocks pending ((vs_bft s)\<lparr>bft_storage := st\<rparr>),
                                 vs_block_sync := block_sync_set_height max_height (vs_block_sync s)\<rparr>)))))"

definition compute_sync_height ::
    "('l, 't) chain \<Rightarrow> ('l, 'p, 's, 't, 'u) validator_sync \<Rightarrow> u32 \<times> ('l, 'p, 's, 't, 'u) validator_sync" where
  "compute_sync_height ch s =
     (let h = chain_height ch (vs_chain s);
          pending = drop_obsolete h (vs_pending s)
      in (max (if pending = [] then 0 else block_height (last pending)) h, s\<lparr>vs_pending := pending\<rparr>))"

text \<open>Blocks are processed while there is one for the next height; the result is the height reached, and the error that stopped
  it.\<close>

partial_function (option) advance_validator ::
    "('l, 't) chain \<Rightarrow> ('s, 't, 'u) storage_env \<Rightarrow> i64 \<Rightarrow> bool \<Rightarrow> u32 \<Rightarrow> ('l, 'p, 's, 't, 'u) validator_sync
      \<Rightarrow> (error option \<times> u32 \<times> ('l, 'p, 's, 't, 'u) validator_sync) option" where
  "advance_validator ch e now within_gc height s =
     (case peek_next_block (height + 1) (vs_block_sync s) of
        None \<Rightarrow> Some (None, height, s)
      | Some b \<Rightarrow>
          (case sync_storage_with_block ch e now b within_gc s of
             None \<Rightarrow> None
           | Some (Inr _, s) \<Rightarrow> advance_validator ch e now within_gc (height + 1) s
           | Some (Inl err, s) \<Rightarrow>
               Some (Some err, height, s\<lparr>vs_block_sync := remove_block_response (height + 1) (vs_block_sync s)\<rparr>)))"

definition cleanup ::
    "u32 \<Rightarrow> error option \<times> u32 \<times> ('l, 'p, 's, 't, 'u) validator_sync \<Rightarrow> bool result \<times> ('l, 'p, 's, 't, 'u) validator_sync" where
  "cleanup start_height out =
     (case out of (err, height, s) \<Rightarrow>
        let new_blocks = height > start_height;
            s = (if new_blocks then s\<lparr>vs_block_sync := block_sync_set_height height (vs_block_sync s)\<rparr> else s)
        in (case err of Some err \<Rightarrow> Inl err | None \<Rightarrow> Ok new_blocks, s))"

definition set_mode ::
    "bft_sync_mode \<Rightarrow> ('l, 'p, 's, 't, 'u) validator_sync \<Rightarrow> bft_sync_mode option \<times> ('l, 'p, 's, 't, 'u) validator_sync" where
  "set_mode mode s =
     (case set_bft_sync_mode mode (sync_state_of (vs_block_sync s)) of
        (previous, st) \<Rightarrow> (previous, s\<lparr>vs_block_sync := (vs_block_sync s)\<lparr>sync_state_of := st\<rparr>\<rparr>))"

definition sync_in_dag_mode ::
    "('l, 't) chain \<Rightarrow> ('s, 't, 'u) storage_env \<Rightarrow> i64 \<Rightarrow> u32 \<Rightarrow> ('l, 'p, 's, 't, 'u) validator_sync
      \<Rightarrow> (bool result \<times> ('l, 'p, 's, 't, 'u) validator_sync) option" where
  "sync_in_dag_mode ch e now start_height s =
     (case set_mode Dag s of (previous, s) \<Rightarrow>
      case (if previous = Some Fast then sync_storage_with_ledger_at_bootup ch e now s else (Ok (), s)) of
        (Inl err, s) \<Rightarrow> Some (Inl err, s)
      | (Inr _, s) \<Rightarrow> map_option (cleanup start_height) (advance_validator ch e now True start_height s))"

definition sync_in_fast_mode ::
    "('l, 't) chain \<Rightarrow> ('s, 't, 'u) storage_env \<Rightarrow> i64 \<Rightarrow> u32 \<Rightarrow> u32 \<Rightarrow> ('l, 'p, 's, 't, 'u) validator_sync
      \<Rightarrow> (bool result \<times> ('l, 'p, 's, 't, 'u) validator_sync) option" where
  "sync_in_fast_mode ch e now max_gc_height start_height s =
     map_option (\<lambda>(err, height, s).
         if err = None \<and> height \<ge> max_gc_height
         then (case sync_storage_with_ledger_at_bootup ch e now (snd (set_mode Dag s)) of
                 (Inl err, s) \<Rightarrow> (Inl err, s)
               | (Inr _, s) \<Rightarrow> cleanup start_height (None, height, s))
         else cleanup start_height (err, height, s))
       (advance_validator ch e now False start_height (snd (set_mode Fast s)))"

definition try_advancing_validator ::
    "('l, 't) chain \<Rightarrow> ('s, 't, 'u) storage_env \<Rightarrow> i64 \<Rightarrow> (('p, block_locators) imap \<Rightarrow> ('p, block_locators) imap)
      \<Rightarrow> ('l, 'p, 's, 't, 'u) validator_sync \<Rightarrow> (bool result \<times> ('l, 'p, 's, 't, 'u) validator_sync) option" where
  "try_advancing_validator ch e now shuffle s =
     (let s = s\<lparr>vs_block_sync := block_sync_set_height (chain_height ch (vs_chain s)) (vs_block_sync s)\<rparr>;
          tip = (case find_sync_peers shuffle (chain_blocks ch (vs_chain s)) (vs_block_sync s) of
                   Some (sync_peers, _) \<Rightarrow> if sync_peers = [] then 0 else Max (set (vals sync_peers))
                 | None \<Rightarrow> 0)
      in case max_gc_blocks (bft_storage (vs_bft s)) of
           Inl err \<Rightarrow> Some (Inl err, s)
         | Inr gc_blocks \<Rightarrow>
             let max_gc_height = saturating_sub tip gc_blocks
             in case compute_sync_height ch s of (start_height, s) \<Rightarrow>
                if start_height \<ge> max_gc_height then sync_in_dag_mode ch e now start_height s
                else sync_in_fast_mode ch e now max_gc_height start_height s)"

section \<open>The life of the module\<close>

definition validator_sync_new ::
    "'l \<Rightarrow> ('s, 't, 'u) bft \<Rightarrow> ('p, 't block_body) block_sync \<Rightarrow> ('l, 'p, 's, 't, 'u) validator_sync" where
  "validator_sync_new l bft block_sync =
     snd (set_mode Fast \<lparr>vs_chain = l, vs_pending = [], vs_bft = bft, vs_block_sync = block_sync, sync_callback = False\<rparr>)"

text \<open>Setting the callback replaces an earlier one and reports it as an error.\<close>

definition callback_set :: "bool \<Rightarrow> unit result \<times> bool" where
  "callback_set previous = (if previous then bail ''Callback was already set'' else Ok (), True)"

definition sync_initialize ::
    "('l, 't) chain \<Rightarrow> ('s, 't, 'u) storage_env \<Rightarrow> i64 \<Rightarrow> bool \<Rightarrow> ('l, 'p, 's, 't, 'u) validator_sync
      \<Rightarrow> unit result \<times> ('l, 'p, 's, 't, 'u) validator_sync" where
  "sync_initialize ch e now callback s =
     (case (if callback then callback_set (sync_callback s) else (Ok (), sync_callback s)) of
        (Inl err, cb) \<Rightarrow> (Inl err, s\<lparr>sync_callback := cb\<rparr>)
      | (Inr _, cb) \<Rightarrow> sync_storage_with_ledger_at_bootup ch e now (s\<lparr>sync_callback := cb\<rparr>))"

definition sync_shut_down :: "('l, 'p, 's, 't, 'u) validator_sync \<Rightarrow> ('l, 'p, 's, 't, 'u) validator_sync" where
  "sync_shut_down s = s\<lparr>sync_callback := False\<rparr>"

text \<open>Between its own steps, other parts of the node change the chain, the storage, the DAG and the requests.\<close>

inductive validator_reachable ::
    "('l, 't) chain \<Rightarrow> ('s, 't, 'u) storage_env \<Rightarrow> ('l, 'p, 's, 't, 'u) validator_sync \<Rightarrow> bool" for ch e where
  created: "validator_reachable ch e (validator_sync_new l bft block_sync)"
| initialized: "\<lbrakk>validator_reachable ch e s; sync_initialize ch e now callback s = (r, s')\<rbrakk> \<Longrightarrow> validator_reachable ch e s'"
| pass: "\<lbrakk>validator_reachable ch e s; try_advancing_validator ch e now shuffle s = Some (r, s')\<rbrakk> \<Longrightarrow> validator_reachable ch e s'"
| elsewhere: "validator_reachable ch e s \<Longrightarrow> validator_reachable ch e (s\<lparr>vs_chain := l, vs_bft := bft, vs_block_sync := block_sync\<rparr>)"
| stopped: "validator_reachable ch e s \<Longrightarrow> validator_reachable ch e (sync_shut_down s)"

end
