(* ===== verification/Confirmed.thy ===== *)
theory Confirmed
  imports Validator_Sync "HOL-Library.Sublist"
begin

text \<open>
  What synchronising a validator with blocks guarantees (\<open>Validator_Sync\<close>): every attempt ends, and the chain is only extended
  by blocks up to one whose leader later blocks vote for.
\<close>

section \<open>Notions\<close>

text \<open>The chain \<open>l\<close> becomes \<open>l'\<close> by adding blocks one after the other.\<close>

fun extended_by :: "('l, 't) chain \<Rightarrow> 'l \<Rightarrow> 't full_block list \<Rightarrow> 'l \<Rightarrow> bool" where
  "extended_by ch l [] l' \<longleftrightarrow> l' = l"
| "extended_by ch l (b # bs) l' \<longleftrightarrow> check_block_content ch l b = Inr () \<and>
     (case advance_to_next_block ch l b of Inl _ \<Rightarrow> False | Inr m \<Rightarrow> extended_by ch m bs l')"

text \<open>Later blocks vote for the leader of block \<open>i\<close>.\<close>

definition confirmed :: "'t ledger \<Rightarrow> 't full_block list \<Rightarrow> nat \<Rightarrow> bool" where
  "confirmed ledger ps i \<longleftrightarrow> i < length ps \<and> is_block_availability_threshold_reached ledger (ps ! i) (drop (Suc i) ps) = Ok True"

text \<open>With block \<open>b\<close>, which comes after the blocks \<open>ps\<close> that wait, the chain gets some of its first \<open>n\<close> blocks, the last of which
  is confirmed.\<close>

definition confirmed_extension ::
    "('l, 't) chain \<Rightarrow> 't full_block list \<Rightarrow> 't full_block \<Rightarrow> nat \<Rightarrow> 't full_block list \<Rightarrow> 'l \<Rightarrow> 'l \<Rightarrow> bool" where
  "confirmed_extension ch ps b n bs l l' \<longleftrightarrow> check_block_subdag ch l b ps = Inr () \<and>
     n < length ps \<and> confirmed (chain_ledger ch l) (ps @ [b]) n \<and> prefix bs (take (Suc n) ps) \<and> extended_by ch l bs l'"

definition contiguous :: "'t full_block list \<Rightarrow> bool" where
  "contiguous = successively (\<lambda>x y. block_height y = block_height x + 1)"

lemma contiguous_suffix: "suffix ps qs \<Longrightarrow> contiguous qs \<Longrightarrow> contiguous ps"
  by (auto simp: suffix_def contiguous_def successively_append_iff)

lemma contiguous_mono: "contiguous (x # xs) \<Longrightarrow> y \<in> set xs \<Longrightarrow> block_height x \<le> block_height y"
proof (induction xs arbitrary: x)
  case (Cons z zs)
  then have "block_height z = block_height x + 1" "contiguous (z # zs)" by (auto simp: contiguous_def)
  with Cons show ?case by fastforce
qed simp

lemma contiguous_snoc:
  "contiguous ps \<Longrightarrow> (ps \<noteq> [] \<Longrightarrow> block_height b = block_height (last ps) + 1) \<Longrightarrow> contiguous (ps @ [b])"
  by (cases "ps = []") (auto simp: contiguous_def successively_append_iff)

lemma drop_obsolete_suffix: "suffix (drop_obsolete h ps) ps"
  unfolding drop_obsolete_def by (rule suffix_dropWhile)

lemma drop_obsolete_shorter:
  assumes "contiguous ps" "k < length ps"
  shows "length (drop_obsolete (block_height (ps ! k)) ps) < length ps"
proof (cases ps)
  case (Cons x xs)
  have "block_height x \<le> block_height (ps ! k)"
    using assms contiguous_mono[of x xs] nth_mem[of "k - 1" xs] by (cases k) (auto simp: Cons)
  moreover have "length (dropWhile P xs) \<le> length xs" for P by (rule length_dropWhile_le)
  ultimately show ?thesis by (simp add: Cons drop_obsolete_def le_imp_less_Suc)
qed (use assms in simp)

section \<open>One attempt\<close>

lemma commit_blocks_extends:
  "commit_blocks ch w bs s = (r, s') \<Longrightarrow> (\<exists>cs. prefix cs bs \<and> extended_by ch (vs_chain s) cs (vs_chain s')) \<and>
     vs_pending s' = vs_pending s \<and> vs_block_sync s' = vs_block_sync s"
proof (induction bs arbitrary: s)
  case (Cons b bs)
  have stop: ?case if "s' = s" using that by (auto intro: exI[of _ "[]"])
  show ?case
  proof (cases "check_block_content ch (vs_chain s) b")
    case (Inl err)
    then show ?thesis using Cons.prems by (intro stop) (cases err; simp)
  next
    case c: (Inr u)
    show ?thesis
    proof (cases "advance_to_next_block ch (vs_chain s) b")
      case (Inl err)
      then show ?thesis using Cons.prems c by (intro stop) simp
    next
      case (Inr l)
      obtain bft where bft: "commit_blocks ch w bs (s\<lparr>vs_chain := l, vs_bft := bft\<rparr>) = (r, s')"
        using Cons.prems c Inr unfolding Let_def by (simp add: Let_def)
      from Cons.IH[OF bft] obtain cs where "prefix cs bs" "extended_by ch l cs (vs_chain s')"
        "vs_pending s' = vs_pending s" "vs_block_sync s' = vs_block_sync s" by auto
      then show ?thesis using c Inr by (intro conjI exI[of _ "b # cs"]) auto
    qed
  qed
qed (auto intro: exI[of _ "[]"])

lemma find_commit_height_Some:
  "find_commit_height ledger ps n = Ok (Some h) \<Longrightarrow> n \<le> length ps \<Longrightarrow> \<exists>i<n. h = block_height (ps ! i) \<and> confirmed ledger ps i"
proof (induction n)
  case (Suc n)
  then obtain x where x: "is_block_availability_threshold_reached ledger (ps ! n) (drop (Suc n) ps) = Ok x"
    by (auto simp: result_simps)
  show ?case
  proof (cases x)
    case True
    then show ?thesis using Suc.prems x by (intro exI[of _ n]) (simp add: confirmed_def)
  next
    case False
    then have "find_commit_height ledger ps n = Ok (Some h)" using Suc.prems x by simp
    with Suc.IH Suc.prems(2) show ?thesis by (meson Suc_leD less_SucI)
  qed
qed simp

lemma commit_pending_cases:
  assumes c: "commit_pending ch w s = (r, s')"
    and h: "map block_height (vs_pending s) = [chain_height ch (vs_chain s) + 1..<chain_height ch (vs_chain s) + 1 + length (vs_pending s)]"
  obtains (waits) "s' = s" "r \<noteq> Ok False"
  | (commits) n bs where "Suc n < length (vs_pending s)" "confirmed (chain_ledger ch (vs_chain s)) (vs_pending s) n"
      "prefix bs (take (Suc n) (vs_pending s))" "extended_by ch (vs_chain s) bs (vs_chain s')"
      "vs_pending s' = drop (Suc n) (vs_pending s)" "vs_block_sync s' = vs_block_sync s"
proof -
  let ?ps = "vs_pending s" and ?H = "chain_height ch (vs_chain s)"
  consider err where "find_commit_height (chain_ledger ch (vs_chain s)) ?ps (length ?ps - 1) = Inl err"
    | "find_commit_height (chain_ledger ch (vs_chain s)) ?ps (length ?ps - 1) = Inr None"
    | k where "find_commit_height (chain_ledger ch (vs_chain s)) ?ps (length ?ps - 1) = Inr (Some k)"
    by (metis option.exhaust sum.exhaust)
  then show thesis
  proof cases
    case (3 k)
    then obtain i where i: "i < length ?ps - 1" "k = block_height (?ps ! i)" "confirmed (chain_ledger ch (vs_chain s)) ?ps i"
      using find_commit_height_Some[OF 3] by auto
    have k: "k = ?H + 1 + i"
      using arg_cong[OF h, of "\<lambda>xs. xs ! i"] i(1,2) by (simp del: upt_Suc)
    show thesis
    proof (cases "begin_ledger_update ch (vs_chain s)")
      case (Inl err)
      then show thesis using c 3 by (intro waits) (cases err; auto simp: commit_pending_def commit_from_def)+
    next
      case (Inr u)
      have "\<not> length ?ps < Suc i" using i(1) by simp
      then have "commit_blocks ch w (take (Suc i) ?ps) (s\<lparr>vs_pending := drop (Suc i) ?ps\<rparr>) = (r, s')"
        using c 3 Inr k by (simp add: commit_pending_def commit_from_def Let_def)
      from commit_blocks_extends[OF this] show thesis using i(1,3) by (auto intro!: commits)
    qed
  qed (use c in \<open>auto simp: commit_pending_def intro!: waits\<close>)
qed

lemma try_sync_cases:
  assumes t: "try_sync_storage_with_block ch b w s = (r, s')"
    and ps: "ps = drop_obsolete (chain_height ch (vs_chain s)) (vs_pending s)"
  obtains (kept) "s' = s" "r \<noteq> Ok False"
  | (dropped) "s' = s\<lparr>vs_pending := ps\<rparr>" "r \<noteq> Ok False"
  | (shortened) k where "k < length ps" "s' = s\<lparr>vs_pending := drop_obsolete (block_height (ps ! k)) ps\<rparr>" "r = Ok False"
  | (waits) "vs_pending s \<noteq> [] \<Longrightarrow> block_height b = block_height (last (vs_pending s)) + 1"
      "s' = s\<lparr>vs_pending := ps @ [b]\<rparr>" "r \<noteq> Ok False"
  | (commits) n bs where "vs_pending s \<noteq> [] \<Longrightarrow> block_height b = block_height (last (vs_pending s)) + 1"
      "confirmed_extension ch ps b n bs (vs_chain s) (vs_chain s')"
      "vs_pending s' = drop (Suc n) (ps @ [b])" "vs_block_sync s' = vs_block_sync s"
proof (cases "vs_pending s \<noteq> [] \<and> block_height (last (vs_pending s)) \<ge> block_height b \<or>
    vs_pending s \<noteq> [] \<and> block_height (last (vs_pending s)) + 1 \<noteq> block_height b")
  case True
  then show thesis using t by (intro kept) (auto simp: try_sync_storage_with_block_def split: if_splits)
next
  case False
  then have no: "\<not> (vs_pending s \<noteq> [] \<and> block_height (last (vs_pending s)) \<ge> block_height b)"
    "\<not> (vs_pending s \<noteq> [] \<and> block_height (last (vs_pending s)) + 1 \<noteq> block_height b)" by blast+
  then have last: "vs_pending s \<noteq> [] \<Longrightarrow> block_height b = block_height (last (vs_pending s)) + 1" by auto
  have upd: "s\<lparr>vs_pending := x, vs_pending := y\<rparr> = s\<lparr>vs_pending := y\<rparr>" for x y by simp
  have body: "(case check_block_subdag ch (vs_chain s) b ps of
        Inl (InvalidPrefix index) \<Rightarrow>
          if index < length ps then (Ok False, s\<lparr>vs_pending := drop_obsolete (block_height (ps ! index)) ps\<rparr>)
          else (bail ''Invalid prefix index'', s\<lparr>vs_pending := ps\<rparr>)
      | Inl (OtherBlockError err) \<Rightarrow> (Inl err, s\<lparr>vs_pending := ps\<rparr>)
      | Inl _ \<Rightarrow> (Ok True, s\<lparr>vs_pending := ps\<rparr>)
      | Inr _ \<Rightarrow> commit_pending ch w (s\<lparr>vs_pending := ps @ [b]\<rparr>)) = (r, s')"
    using t unfolding try_sync_storage_with_block_def Let_def if_not_P[OF no(1)] if_not_P[OF no(2)] ps[symmetric] upd by simp
  show thesis
  proof (cases "check_block_subdag ch (vs_chain s) b ps")
    case (Inl err)
    then show thesis
    proof (cases err)
      case (InvalidPrefix k)
      then show thesis using body Inl check_block_subdag_InvalidPrefix[of ch "vs_chain s" b ps k] by (intro shortened) auto
    qed (use body Inl in \<open>auto intro!: dropped\<close>)
  next
    case (Inr u)
    then have c: "commit_pending ch w (s\<lparr>vs_pending := ps @ [b]\<rparr>) = (r, s')" using body by simp
    have ok: "check_block_subdag ch (vs_chain s) b ps = Inr ()" using Inr by simp
    show thesis
    proof (rule commit_pending_cases[OF c])
      show "map block_height (vs_pending (s\<lparr>vs_pending := ps @ [b]\<rparr>)) =
          [chain_height ch (vs_chain (s\<lparr>vs_pending := ps @ [b]\<rparr>)) + 1..<chain_height ch (vs_chain (s\<lparr>vs_pending := ps @ [b]\<rparr>)) + 1 +
            length (vs_pending (s\<lparr>vs_pending := ps @ [b]\<rparr>))]"
        using check_block_subdag_Inr(1)[OF ok] by (simp del: upt_Suc)
    next
      assume "s' = s\<lparr>vs_pending := ps @ [b]\<rparr>" "r \<noteq> Ok False"
      with last show thesis by (intro waits) auto
    next
      fix n bs
      assume "Suc n < length (vs_pending (s\<lparr>vs_pending := ps @ [b]\<rparr>))"
        "confirmed (chain_ledger ch (vs_chain (s\<lparr>vs_pending := ps @ [b]\<rparr>))) (vs_pending (s\<lparr>vs_pending := ps @ [b]\<rparr>)) n"
        "prefix bs (take (Suc n) (vs_pending (s\<lparr>vs_pending := ps @ [b]\<rparr>)))"
        "extended_by ch (vs_chain (s\<lparr>vs_pending := ps @ [b]\<rparr>)) bs (vs_chain s')"
        "vs_pending s' = drop (Suc n) (vs_pending (s\<lparr>vs_pending := ps @ [b]\<rparr>))"
        "vs_block_sync s' = vs_block_sync (s\<lparr>vs_pending := ps @ [b]\<rparr>)"
      then show thesis using ok by (intro commits[OF last, of n bs]) (auto simp: confirmed_extension_def)
    qed
  qed
qed

section \<open>All attempts\<close>

text \<open>The effect of a block on the chain: none, or one confirmed extension with a suffix of the blocks that waited.\<close>

definition settled ::
    "('l, 't) chain \<Rightarrow> 't full_block \<Rightarrow> ('l, 'p, 's, 't, 'u) validator_sync \<Rightarrow> ('l, 'p, 's, 't, 'u) validator_sync \<Rightarrow> bool" where
  "settled ch b s s' \<longleftrightarrow> contiguous (vs_pending s') \<and> vs_block_sync s' = vs_block_sync s \<and>
     (vs_chain s' = vs_chain s \<or>
      (\<exists>ps n bs. suffix ps (vs_pending s) \<and> confirmed_extension ch ps b n bs (vs_chain s) (vs_chain s')))"

lemma sync_attempts_simp:
  "try_sync_storage_with_block ch b w s = (Inl err, s') \<Longrightarrow> sync_attempts ch b w s = Some (Inl err, s')"
  "try_sync_storage_with_block ch b w s = (Ok True, s') \<Longrightarrow> sync_attempts ch b w s = Some (Ok (), s')"
  "try_sync_storage_with_block ch b w s = (Ok False, s') \<Longrightarrow> sync_attempts ch b w s = sync_attempts ch b w s'"
  by (subst sync_attempts.simps, simp)+

lemma sync_attempts_done:
  assumes "try_sync_storage_with_block ch b w s = (r, s')" "r \<noteq> Ok False"
  shows "\<exists>r'. sync_attempts ch b w s = Some (r', s')"
proof (cases r)
  case (Inl err)
  then show ?thesis using assms sync_attempts_simp(1) by blast
next
  case (Inr x)
  then have "r = Ok True" using assms(2) by (cases x) auto
  then show ?thesis using assms(1) sync_attempts_simp(2) by blast
qed

lemma queued_block_ends:
  assumes "vs_pending s = qs @ [b]"
  shows "sync_attempts ch b w s = Some (Ok (), s)"
  using sync_attempts_simp(2)[of ch b w s s] assms by (simp add: try_sync_storage_with_block_def)

lemma sync_attempts_settles:
  "contiguous (vs_pending s) \<Longrightarrow> \<exists>r s'. sync_attempts ch b w s = Some (r, s') \<and> settled ch b s s'"
proof (induction "length (vs_pending s)" arbitrary: s rule: less_induct)
  case less
  define ps where "ps = drop_obsolete (chain_height ch (vs_chain s)) (vs_pending s)"
  have suf: "suffix ps (vs_pending s)" unfolding ps_def by (rule drop_obsolete_suffix)
  then have cont: "contiguous ps" using less.prems contiguous_suffix by blast
  obtain r s' where t: "try_sync_storage_with_block ch b w s = (r, s')" by fastforce
  have long: "contiguous (ps @ [b])" if "vs_pending s \<noteq> [] \<Longrightarrow> block_height b = block_height (last (vs_pending s)) + 1"
    using that suf by (intro contiguous_snoc[OF cont]) (auto simp: suffix_def)
  from t ps_def show ?case
  proof (cases rule: try_sync_cases)
    case kept
    then show ?thesis using sync_attempts_done[OF t] less.prems by (auto simp: settled_def)
  next
    case dropped
    then show ?thesis using sync_attempts_done[OF t] cont by (auto simp: settled_def)
  next
    case (shortened k)
    let ?qs = "drop_obsolete (block_height (ps ! k)) ps"
    have q: "suffix ?qs (vs_pending s)" using suf drop_obsolete_suffix suffix_order.trans by blast
    have "length ?qs < length (vs_pending s)"
      using drop_obsolete_shorter[OF cont shortened(1)] suffix_length_le[OF suf] by simp
    from less.hyps[of s', unfolded shortened(2), simplified, OF this] contiguous_suffix[OF q less.prems]
    obtain r' s'' where "sync_attempts ch b w s' = Some (r', s'')" "settled ch b s' s''" unfolding shortened(2) by blast
    moreover have "settled ch b s s''" if "settled ch b s' s''"
      using that q suffix_order.trans unfolding settled_def shortened(2) by fastforce
    ultimately show ?thesis using sync_attempts_simp(3)[OF t[unfolded shortened(3)]] by auto
  next
    case waits
    then show ?thesis using sync_attempts_done[OF t] long by (auto simp: settled_def)
  next
    case (commits n bs)
    have n: "n < length ps" using commits(2) by (simp add: confirmed_extension_def)
    have "contiguous (vs_pending s')"
      unfolding commits(3) by (rule contiguous_suffix[OF suffix_drop long[OF commits(1)]])
    then have "settled ch b s s'" using commits(2,4) suf by (auto simp: settled_def)
    moreover have "\<exists>r'. sync_attempts ch b w s = Some (r', s')"
    proof (cases "r = Ok False")
      case True
      have "vs_pending s' = drop (Suc n) ps @ [b]" using commits(3) n by simp
      from queued_block_ends[OF this] show ?thesis using sync_attempts_simp(3)[OF t[unfolded True]] by simp
    qed (use sync_attempts_done[OF t] in blast)
    ultimately show ?thesis by blast
  qed
qed

section \<open>One block, and one pass\<close>

lemma add_block_subdag_keeps:
  assumes "add_block_subdag_to_bft ch e now b s = (r, s')"
  shows "vs_chain s' = vs_chain s" "vs_pending s' = vs_pending s" "vs_block_sync s' = vs_block_sync s"
  using assms by (auto simp: add_block_subdag_to_bft_def Let_def split: authority.splits sum.splits prod.splits)

lemma settled_refl: "contiguous (vs_pending s) \<Longrightarrow> settled ch b s s"
  by (simp add: settled_def)

lemma settled_cong:
  assumes "vs_chain t = vs_chain s" "vs_pending t = vs_pending s" "vs_block_sync t = vs_block_sync s"
  shows "settled ch b t s' = settled ch b s s'"
  by (simp add: settled_def assms)

lemma sync_storage_settles:
  assumes "contiguous (vs_pending s)"
  shows "\<exists>r s'. sync_storage_with_block ch e now b w s = Some (r, s') \<and> settled ch b s s'"
proof -
  obtain r1 s1 where a: "add_block_subdag_to_bft ch e now b s = (r1, s1)" by fastforce
  note k = add_block_subdag_keeps[OF a]
  note c = settled_cong[OF k]
  obtain r2 s2 where att: "sync_attempts ch b w s1 = Some (r2, s2)" "settled ch b s s2"
    using sync_attempts_settles[of s1 ch b w] assms unfolding k c by blast
  show ?thesis
  proof (cases "contains_block_height (chain_blocks ch (vs_chain s)) (block_height b)")
    case True
    then show ?thesis using settled_refl[OF assms] by (simp add: sync_storage_with_block_def)
  next
    case False
    then show ?thesis
    proof (cases w)
      case True
      have "settled ch b s s1" using assms settled_refl[of s1] unfolding c k by blast
      then show ?thesis using True False att a by (cases r1) (auto simp: sync_storage_with_block_def)
    next
      case w: False
      then show ?thesis using False sync_attempts_settles[OF assms, of ch b w] by (simp add: sync_storage_with_block_def)
    qed
  qed
qed

text \<open>Only confirmed blocks reach the chain, in one or more steps.\<close>

inductive confirmed_growth :: "('l, 't) chain \<Rightarrow> 'l \<Rightarrow> 'l \<Rightarrow> bool" for ch where
  same: "confirmed_growth ch l l"
| grow: "\<lbrakk>confirmed_growth ch l m; confirmed_extension ch ps b n bs m l'\<rbrakk> \<Longrightarrow> confirmed_growth ch l l'"

lemma growth_trans: "confirmed_growth ch m l' \<Longrightarrow> confirmed_growth ch l m \<Longrightarrow> confirmed_growth ch l l'"
  by (induction rule: confirmed_growth.induct) (auto intro: grow)

lemma settled_growth: "settled ch b s s' \<Longrightarrow> confirmed_growth ch (vs_chain s) (vs_chain s')"
  unfolding settled_def by (auto intro: same grow)

definition heights_above :: "u32 \<Rightarrow> ('p, 'b) block_sync \<Rightarrow> u32 set" where
  "heights_above h s = {k \<in> set (keys (block_requests s)). h < k}"

lemma peek_heights_above:
  assumes "peek_next_block (h + 1) s = Some b"
  shows "card (heights_above (h + 1) s) < card (heights_above h s)"
proof (rule psubset_card_mono)
  show "finite (heights_above h s)" by (simp add: heights_above_def)
  have "h + 1 \<in> set (keys (block_requests s))" using peek_next_blockD[OF assms] by force
  then have "h + 1 \<in> heights_above h s" by (simp add: heights_above_def)
  moreover have "h + 1 \<notin> heights_above (h + 1) s" "heights_above (h + 1) s \<subseteq> heights_above h s" by (auto simp: heights_above_def)
  ultimately show "heights_above (h + 1) s \<subset> heights_above h s" by blast
qed

lemma advance_validator_ends:
  "contiguous (vs_pending s) \<Longrightarrow> \<exists>err h' s'. advance_validator ch e now w h s = Some (err, h', s') \<and> h \<le> h' \<and>
     contiguous (vs_pending s') \<and> confirmed_growth ch (vs_chain s) (vs_chain s')"
proof (induction "card (heights_above h (vs_block_sync s))" arbitrary: h s rule: less_induct)
  case less
  note step = advance_validator.simps[of ch e now w h s]
  show ?case
  proof (cases "peek_next_block (h + 1) (vs_block_sync s)")
    case None
    then show ?thesis using less.prems same by (subst step) auto
  next
    case (Some b)
    obtain r s1 where b: "sync_storage_with_block ch e now b w s = Some (r, s1)" "settled ch b s s1"
      using sync_storage_settles[OF less.prems] by blast
    have k: "contiguous (vs_pending s1)" "vs_block_sync s1 = vs_block_sync s" using b(2) by (auto simp: settled_def)
    show ?thesis
    proof (cases r)
      case (Inl err)
      then show ?thesis using k(1) settled_growth[OF b(2)] by (subst step) (simp add: Some[simplified] b(1))
    next
      case (Inr u)
      have "card (heights_above (h + 1) (vs_block_sync s1)) < card (heights_above h (vs_block_sync s))"
        unfolding k(2) by (rule peek_heights_above[OF Some])
      from less.hyps[OF this k(1)] obtain err h' s' where
        "advance_validator ch e now w (h + 1) s1 = Some (err, h', s')" "h + 1 \<le> h'" "contiguous (vs_pending s')"
        "confirmed_growth ch (vs_chain s1) (vs_chain s')" by blast
      then show ?thesis
        using growth_trans[OF _ settled_growth[OF b(2)]] Inr by (subst step) (auto simp: Some[simplified] b(1))
    qed
  qed
qed

text \<open>What a pass keeps, whatever it returns.\<close>

definition pass_ok ::
    "('l, 't) chain \<Rightarrow> ('l, 'p, 's, 't, 'u) validator_sync \<Rightarrow> ('l, 'p, 's, 't, 'u) validator_sync \<Rightarrow> bool" where
  "pass_ok ch s s' \<longleftrightarrow> contiguous (vs_pending s') \<and> confirmed_growth ch (vs_chain s) (vs_chain s')"

lemma bootup_keeps:
  assumes "sync_storage_with_ledger_at_bootup ch e now s = (r, s')"
  shows "vs_chain s' = vs_chain s" "suffix (vs_pending s') (vs_pending s)"
  using assms drop_obsolete_suffix[of "block_height (chain_latest_block ch (vs_chain s))" "vs_pending s"]
  by (auto simp: sync_storage_with_ledger_at_bootup_def Let_def split: sum.splits prod.splits)

lemma bootup_pass:
  assumes "sync_storage_with_ledger_at_bootup ch e now t = (r, s')" "pass_ok ch s t"
  shows "pass_ok ch s s'"
  using bootup_keeps[OF assms(1)] assms(2) contiguous_suffix by (auto simp: pass_ok_def)

lemma set_mode_keeps [simp]:
  "vs_chain (snd (set_mode m s)) = vs_chain s" "vs_pending (snd (set_mode m s)) = vs_pending s"
  by (simp_all add: set_mode_def set_bft_sync_mode_def)

lemma cleanup_pass: "pass_ok ch s t \<Longrightarrow> pass_ok ch s (snd (cleanup h (err, h', t)))"
  by (simp add: cleanup_def Let_def pass_ok_def)

lemma advance_pass:
  assumes "pass_ok ch s t"
  obtains err h' s' where "advance_validator ch e now w h t = Some (err, h', s')" "h \<le> h'" "pass_ok ch s s'"
proof -
  have t: "contiguous (vs_pending t)" "confirmed_growth ch (vs_chain s) (vs_chain t)" using assms by (auto simp: pass_ok_def)
  obtain err h' s' where a: "advance_validator ch e now w h t = Some (err, h', s')" "h \<le> h'"
    "contiguous (vs_pending s')" "confirmed_growth ch (vs_chain t) (vs_chain s')"
    using advance_validator_ends[OF t(1), of ch e now w h] by blast
  show thesis using that[OF a(1,2)] a(3) growth_trans[OF a(4) t(2)] by (simp add: pass_ok_def)
qed

lemma dag_mode_ends:
  assumes "pass_ok ch s t"
  shows "\<exists>r s'. sync_in_dag_mode ch e now h t = Some (r, s') \<and> pass_ok ch s s'"
proof -
  obtain m t1 where m: "set_mode Dag t = (m, t1)" by fastforce
  have t1: "pass_ok ch s t1" using assms set_mode_keeps[of Dag t] unfolding m pass_ok_def by simp
  obtain r t2 where b: "(if m = Some Fast then sync_storage_with_ledger_at_bootup ch e now t1 else (Ok (), t1)) = (r, t2)" by fastforce
  have t2: "pass_ok ch s t2" using b t1 bootup_pass by (auto split: if_splits)
  obtain err h' t3 where a: "advance_validator ch e now True h t2 = Some (err, h', t3)" "pass_ok ch s t3"
    using advance_pass[OF t2] by blast
  have c: "pass_ok ch s (snd (cleanup h (err, h', t3)))" by (rule cleanup_pass[OF a(2)])
  have "sync_in_dag_mode ch e now h t =
      (case r of Inl err \<Rightarrow> Some (Inl err, t2) | Inr _ \<Rightarrow> Some (cleanup h (err, h', t3)))"
    unfolding sync_in_dag_mode_def m prod.case b a(1) by (cases r) simp_all
  then show ?thesis using t2 c by (cases r; cases "cleanup h (err, h', t3)") simp_all
qed

lemma fast_mode_ends:
  assumes "pass_ok ch s t"
  shows "\<exists>r s'. sync_in_fast_mode ch e now gc h t = Some (r, s') \<and> pass_ok ch s s'"
proof -
  have "pass_ok ch s (snd (set_mode Fast t))" using assms by (simp add: pass_ok_def)
  then obtain err h' t1 where a: "advance_validator ch e now False h (snd (set_mode Fast t)) = Some (err, h', t1)" "pass_ok ch s t1"
    using advance_pass by blast
  obtain r t2 where b: "sync_storage_with_ledger_at_bootup ch e now (snd (set_mode Dag t1)) = (r, t2)" by fastforce
  have "pass_ok ch s (snd (set_mode Dag t1))" using a(2) by (simp add: pass_ok_def)
  then have t2: "pass_ok ch s t2" by (rule bootup_pass[OF b])
  have c: "\<exists>r s'. cleanup h (err, h', u) = (r, s') \<and> pass_ok ch s s'" if u: "pass_ok ch s u" for err u
    using cleanup_pass[OF u, of h err h'] by (metis prod.collapse)
  show ?thesis
    using c[OF a(2), of err] c[OF t2, of None] t2 unfolding sync_in_fast_mode_def a(1) by (cases r) (auto simp: b)
qed

lemma pass_ends:
  assumes "contiguous (vs_pending s)"
  shows "\<exists>r s'. try_advancing_validator ch e now shuffle s = Some (r, s') \<and> pass_ok ch s s'"
proof -
  define t where "t = s\<lparr>vs_block_sync := block_sync_set_height (chain_height ch (vs_chain s)) (vs_block_sync s)\<rparr>"
  have t: "pass_ok ch s t" using assms same by (simp add: pass_ok_def t_def)
  obtain h u where u: "compute_sync_height ch t = (h, u)" by fastforce
  then have "vs_chain u = vs_chain t" "suffix (vs_pending u) (vs_pending t)"
    by (auto simp: compute_sync_height_def Let_def drop_obsolete_suffix)
  with t have u_ok: "pass_ok ch s u" using contiguous_suffix by (auto simp: pass_ok_def)
  show ?thesis
  proof (cases "max_gc_blocks (bft_storage (vs_bft t))")
    case (Inl err)
    then show ?thesis using t unfolding try_advancing_validator_def t_def[symmetric] Let_def by simp
  next
    case (Inr g)
    show ?thesis
      using dag_mode_ends[OF u_ok, of e now h] fast_mode_ends[OF u_ok, of e now _ h]
      unfolding try_advancing_validator_def t_def[symmetric] Let_def Inr sum.case u prod.case by (auto split: if_splits)
  qed
qed

lemma initialize_suffix:
  "sync_initialize ch e now callback s = (r, s') \<Longrightarrow> suffix (vs_pending s') (vs_pending s)"
  by (auto simp: sync_initialize_def dest: bootup_keeps(2) split: prod.splits sum.splits if_splits)

text \<open>The queue has no gap, whatever happens around the module.\<close>

lemma reachable_contiguous: "validator_reachable ch e s \<Longrightarrow> contiguous (vs_pending s)"
proof (induction rule: validator_reachable.induct)
  case (created l bft block_sync)
  then show ?case by (simp add: validator_sync_new_def contiguous_def)
next
  case (initialized s now callback r s')
  then show ?case using initialize_suffix contiguous_suffix by blast
next
  case (pass s now shuffle r s')
  obtain r' s'' where "try_advancing_validator ch e now shuffle s = Some (r', s'')" "pass_ok ch s s''"
    using pass_ends[OF pass.IH] by blast
  then show ?case using pass.hyps(2) by (simp add: pass_ok_def)
qed (simp_all add: sync_shut_down_def)

section \<open>When a block confirms others\<close>

lemma find_commit_height_last:
  assumes "n < m" "confirmed ledger qs n"
    "\<And>i. n < i \<Longrightarrow> i < m \<Longrightarrow> is_block_availability_threshold_reached ledger (qs ! i) (drop (Suc i) qs) = Ok False"
  shows "find_commit_height ledger qs m = Ok (Some (block_height (qs ! n)))"
  using assms
proof (induction m)
  case (Suc m)
  show ?case
  proof (cases "n = m")
    case True
    then show ?thesis using Suc.prems(2) by (simp add: confirmed_def)
  next
    case False
    then have "n < m" using Suc.prems(1) by simp
    then show ?thesis using Suc.IH Suc.prems by simp
  qed
qed simp

lemma attempt_selects:
  assumes ok: "check_block_subdag ch (vs_chain s) b (vs_pending s) = Inr ()" and n: "n < length (vs_pending s)"
    and c: "confirmed (chain_ledger ch (vs_chain s)) (vs_pending s @ [b]) n"
    and others: "\<And>i. n < i \<Longrightarrow> i < length (vs_pending s) \<Longrightarrow>
      is_block_availability_threshold_reached (chain_ledger ch (vs_chain s)) (vs_pending s ! i) (drop (Suc i) (vs_pending s) @ [b]) = Ok False"
  shows "block_height (vs_pending s ! n) = chain_height ch (vs_chain s) + 1 + n"
    "block_height (hd (drop (Suc n) (vs_pending s) @ [b])) = chain_height ch (vs_chain s) + n + 2"
    "try_sync_storage_with_block ch b w s =
      commit_from ch w (chain_height ch (vs_chain s)) (block_height (vs_pending s ! n)) (s\<lparr>vs_pending := vs_pending s @ [b]\<rparr>)"
proof -
  let ?ps = "vs_pending s" and ?H = "chain_height ch (vs_chain s)"
  have h: "map block_height (?ps @ [b]) = [?H + 1..<?H + 2 + length ?ps]" by (rule check_block_subdag_Inr(1)[OF ok])
  have at: "block_height ((?ps @ [b]) ! i) = ?H + 1 + i" if i: "i \<le> length ?ps" for i
  proof -
    have "map block_height (?ps @ [b]) ! i = [?H + 1..<?H + 2 + length ?ps] ! i" by (simp only: h)
    then show ?thesis using i by (simp del: upt_Suc map_append)
  qed
  have ne: "?ps \<noteq> []" using n by auto
  have last: "block_height (last ?ps) + 1 = block_height b"
    using at[of "length ?ps - 1"] at[of "length ?ps"] ne by (simp add: last_conv_nth nth_append)
  have "block_height (hd ?ps) = ?H + 1" using at[of 0] ne by (cases ?ps) auto
  then have keep: "drop_obsolete ?H ?ps = ?ps" using ne by (cases ?ps) (auto simp: drop_obsolete_def)
  show hn: "block_height (?ps ! n) = ?H + 1 + n" using at[of n] n by (simp add: nth_append)
  show "block_height (hd (drop (Suc n) ?ps @ [b])) = ?H + n + 2"
    using at[of "Suc n"] n hd_drop_conv_nth[of "Suc n" "?ps @ [b]"] by simp
  have f: "find_commit_height (chain_ledger ch (vs_chain s)) (?ps @ [b]) (length ?ps) = Ok (Some (block_height (?ps ! n)))"
    using find_commit_height_last[OF n c] others n by (simp add: nth_append)
  then have "commit_pending ch w (s\<lparr>vs_pending := ?ps @ [b]\<rparr>) =
      commit_from ch w ?H (block_height (?ps ! n)) (s\<lparr>vs_pending := ?ps @ [b]\<rparr>)"
    by (simp add: commit_pending_def)
  then show "try_sync_storage_with_block ch b w s =
      commit_from ch w ?H (block_height (?ps ! n)) (s\<lparr>vs_pending := ?ps @ [b]\<rparr>)"
    using last ne by (simp add: try_sync_storage_with_block_def keep ok Let_def)
qed

text \<open>Committing up to block \<open>n\<close>, on whatever chain \<open>l\<close> there is when the ledger is locked.\<close>

lemma commit_from_drains:
  assumes "n < length ps" "begin_ledger_update ch l = Inr ()"
  shows "commit_from ch w H (H + 1 + n) (s\<lparr>vs_pending := ps @ [b], vs_chain := l\<rparr>) =
    commit_blocks ch w (take (Suc n) ps) (s\<lparr>vs_pending := drop (Suc n) ps @ [b], vs_chain := l\<rparr>)"
  using assms by (cases s) (simp add: commit_from_def)

lemma attempt_commits:
  assumes ok: "check_block_subdag ch (vs_chain s) b (vs_pending s) = Inr ()" and n: "n < length (vs_pending s)"
    and c: "confirmed (chain_ledger ch (vs_chain s)) (vs_pending s @ [b]) n"
    and others: "\<And>i. n < i \<Longrightarrow> i < length (vs_pending s) \<Longrightarrow>
      is_block_availability_threshold_reached (chain_ledger ch (vs_chain s)) (vs_pending s ! i) (drop (Suc i) (vs_pending s) @ [b]) = Ok False"
    and start: "begin_ledger_update ch (vs_chain s) = Inr ()"
  shows "try_sync_storage_with_block ch b w s =
    commit_blocks ch w (take (Suc n) (vs_pending s)) (s\<lparr>vs_pending := drop (Suc n) (vs_pending s) @ [b]\<rparr>)"
  using attempt_selects[OF ok n c others] commit_from_drains[OF n start, where s = s and b = b and w = w] by simp

lemma commit_blocks_all:
  "extended_by ch (vs_chain s) bs l' \<Longrightarrow> \<exists>s'. commit_blocks ch w bs s = (Ok True, s') \<and> vs_chain s' = l' \<and> vs_pending s' = vs_pending s"
proof (induction bs arbitrary: s)
  case (Cons b bs)
  obtain m where m: "check_block_content ch (vs_chain s) b = Inr ()" "advance_to_next_block ch (vs_chain s) b = Inr m" "extended_by ch m bs l'"
    using Cons.prems by (auto split: sum.splits)
  have "\<exists>s'. commit_blocks ch w bs (s\<lparr>vs_chain := m, vs_bft := bft\<rparr>) = (Ok True, s') \<and> vs_chain s' = l' \<and> vs_pending s' = vs_pending s" for bft
    using Cons.IH[of "s\<lparr>vs_chain := m, vs_bft := bft\<rparr>"] m(3) by simp
  then show ?case by (simp add: m Let_def)
qed simp

section \<open>A concrete validator\<close>

text \<open>Block 1 waits; block 2 votes for its leader.\<close>

definition waiting_validator :: "(nat full_block list, nat, nat memory_service, nat, unit) validator_sync" where
  "waiting_validator = \<lparr>vs_chain = [numbered_block 0], vs_pending = [numbered_block 1], vs_bft = sample_bft sample_storage dag_new,
     vs_block_sync = block_sync_new genesis_ledger, sync_callback = False\<rparr>"

lemma waiting_fields [simp]:
  "vs_chain waiting_validator = [numbered_block 0]" "vs_pending waiting_validator = [numbered_block 1]"
  "vs_block_sync waiting_validator = block_sync_new genesis_ledger"
  by (simp_all add: waiting_validator_def)

lemma waiting_contiguous: "contiguous (vs_pending waiting_validator)"
  by (simp add: contiguous_def)

lemma first_confirmed: "confirmed (chain_ledger list_chain l) [numbered_block 1, numbered_block 2] 0"
proof -
  have "is_availability_threshold_reached sample_committee [6, 8]"
    by (simp add: is_availability_threshold_reached_def combined_stake_sum sample_committee_eval u64_max_def)
  then show ?thesis
    by (simp add: confirmed_def is_block_availability_threshold_reached_def list_chain_def sample_ledger_def leader_certificate_def
        numbered_subdag_def Let_def checked_add_def u64_max_def iset_of_list_def iset_insert_key_def)
qed

lemma second_confirmed: "is_block_availability_threshold_reached (chain_ledger list_chain l) (numbered_block 2) [numbered_block 3] = Ok True"
proof -
  have "is_availability_threshold_reached sample_committee [6, 8]"
    by (simp add: is_availability_threshold_reached_def combined_stake_sum sample_committee_eval u64_max_def)
  then show ?thesis
    by (simp add: is_block_availability_threshold_reached_def list_chain_def sample_ledger_def leader_certificate_def
        numbered_subdag_def Let_def checked_add_def u64_max_def iset_of_list_def iset_insert_key_def)
qed

lemma list_chain_simps [simp]:
  "chain_height list_chain l = length l - 1" "begin_ledger_update list_chain l = Inr ()"
  "contains_block_height (chain_blocks list_chain l) h \<longleftrightarrow> h < length l"
  by (simp_all add: list_chain_def)

section \<open>Properties\<close>

text \<open>C9. Processing a fetched block ends, however often it is retried, and keeps the queue of waiting blocks gapless.  The chain stays
  as it is, or it is extended by waiting blocks, in order and without a gap, none of them after block \<open>n\<close> of the queue, whose
  leader has the votes of \<open>f + 1\<close> of the stake in the blocks that follow it in the queue.\<close>

theorem synced_blocks_confirmed:
  assumes "contiguous (vs_pending s)"
  shows "\<exists>r s'. sync_storage_with_block ch e now b within_gc_range s = Some (r, s') \<and>
    contiguous (vs_pending s') \<and> vs_block_sync s' = vs_block_sync s \<and>
    (vs_chain s' = vs_chain s \<or>
     (\<exists>ps n bs. suffix ps (vs_pending s) \<and> n < length ps \<and> prefix bs (take (Suc n) ps) \<and>
        map block_height (ps @ [b]) = [chain_height ch (vs_chain s) + 1..<chain_height ch (vs_chain s) + 2 + length ps] \<and>
        is_block_availability_threshold_reached (chain_ledger ch (vs_chain s)) (ps ! n) (drop (Suc n) ps @ [b]) = Ok True \<and>
        extended_by ch (vs_chain s) bs (vs_chain s')))"
proof -
  have spec: "n < length ps \<and> prefix bs (take (Suc n) ps) \<and>
      map block_height (ps @ [b]) = [chain_height ch l + 1..<chain_height ch l + 2 + length ps] \<and>
      is_block_availability_threshold_reached (chain_ledger ch l) (ps ! n) (drop (Suc n) ps @ [b]) = Ok True \<and> extended_by ch l bs l'"
    if x: "confirmed_extension ch ps b n bs l l'" for ps n bs l l'
  proof -
    have n: "n < length ps" "(ps @ [b]) ! n = ps ! n" "drop (Suc n) (ps @ [b]) = drop (Suc n) ps @ [b]"
      using x by (auto simp: confirmed_extension_def nth_append)
    show ?thesis using x check_block_subdag_Inr(1)[of ch l b ps] unfolding confirmed_extension_def confirmed_def n(2,3) by blast
  qed
  obtain r s' where r: "sync_storage_with_block ch e now b within_gc_range s = Some (r, s')" "settled ch b s s'"
    using sync_storage_settles[OF assms] by blast
  from r(2) consider "vs_chain s' = vs_chain s"
    | ps n bs where "suffix ps (vs_pending s)" "confirmed_extension ch ps b n bs (vs_chain s) (vs_chain s')"
    by (auto simp: settled_def)
  then show ?thesis
  proof cases
    case 1
    then show ?thesis using r by (auto simp: settled_def)
  next
    case 2
    with spec[OF 2(2)] r show ?thesis unfolding settled_def by blast
  qed
qed

theorem synced_blocks_confirmed_witness:
  "contiguous (vs_pending waiting_validator) \<and>
   (\<exists>r s'. sync_storage_with_block list_chain sample_env 0 (numbered_block 2) False waiting_validator = Some (r, s') \<and>
     contiguous (vs_pending s'))"
  using synced_blocks_confirmed[OF waiting_contiguous, of list_chain sample_env 0 "numbered_block 2" False] waiting_contiguous by blast

text \<open>C27. In every state of the module, whatever the rest of the node did to the chain, the storage and the requests, a pass over
  the fetched blocks ends, in both modes and on every error, and everything that it added to the chain was confirmed.\<close>

theorem sync_pass_ends:
  assumes "validator_reachable ch e s"
  shows "\<exists>r s'. try_advancing_validator ch e now shuffle s = Some (r, s') \<and> validator_reachable ch e s' \<and>
    contiguous (vs_pending s') \<and> confirmed_growth ch (vs_chain s) (vs_chain s')"
  using pass_ends[OF reachable_contiguous[OF assms]] pass[OF assms] unfolding pass_ok_def by metis

theorem sync_pass_ends_witness:
  "let s = validator_sync_new [numbered_block 0] (sample_bft sample_storage dag_new) (block_sync_new genesis_ledger :: (nat, nat block_body) block_sync)
   in \<exists>r s'. try_advancing_validator list_chain sample_env 0 id s = Some (r, s') \<and> validator_reachable list_chain sample_env s'"
  using sync_pass_ends[where ch = list_chain and e = sample_env and now = 0 and shuffle = id,
      OF created[where l = "[numbered_block 0]" and bft = "sample_bft sample_storage dag_new" and block_sync = "block_sync_new genesis_ledger"]]
  unfolding Let_def by blast

text \<open>C28. A block applies what it confirms: when its subDAG is accepted after the waiting blocks, waiting block \<open>n\<close> is the last one whose
  leader has enough votes, and the chain accepts the blocks up to it, then all of these are added to the chain, and the later
  ones wait together with the new block.\<close>

theorem confirmed_blocks_applied:
  assumes "check_block_subdag ch (vs_chain s) b (vs_pending s) = Inr ()" and "n < length (vs_pending s)"
    and "is_block_availability_threshold_reached (chain_ledger ch (vs_chain s)) (vs_pending s ! n) (drop (Suc n) (vs_pending s) @ [b]) = Ok True"
    and "\<And>i. n < i \<Longrightarrow> i < length (vs_pending s) \<Longrightarrow>
      is_block_availability_threshold_reached (chain_ledger ch (vs_chain s)) (vs_pending s ! i) (drop (Suc i) (vs_pending s) @ [b]) = Ok False"
    and "begin_ledger_update ch (vs_chain s) = Inr ()" and "extended_by ch (vs_chain s) (take (Suc n) (vs_pending s)) l'"
  shows "\<exists>s'. sync_attempts ch b within_gc_range s = Some (Ok (), s') \<and> vs_chain s' = l' \<and>
    vs_pending s' = drop (Suc n) (vs_pending s) @ [b]"
proof -
  have c: "confirmed (chain_ledger ch (vs_chain s)) (vs_pending s @ [b]) n"
    using assms(2,3) by (simp add: confirmed_def nth_append)
  from commit_blocks_all[of ch "s\<lparr>vs_pending := drop (Suc n) (vs_pending s) @ [b]\<rparr>" "take (Suc n) (vs_pending s)" l' within_gc_range] assms(6)
  obtain s' where s': "commit_blocks ch within_gc_range (take (Suc n) (vs_pending s)) (s\<lparr>vs_pending := drop (Suc n) (vs_pending s) @ [b]\<rparr>)
      = (Ok True, s')" "vs_chain s' = l'" "vs_pending s' = drop (Suc n) (vs_pending s) @ [b]" by auto
  have "try_sync_storage_with_block ch b within_gc_range s = (Ok True, s')"
    using attempt_commits[OF assms(1,2) c assms(4,5), of within_gc_range] s'(1) by simp
  from sync_attempts_simp(2)[OF this] show ?thesis using s'(2,3) by blast
qed

theorem confirmed_blocks_applied_witness:
  "\<exists>s'. sync_attempts list_chain (numbered_block 2) True waiting_validator = Some (Ok (), s') \<and>
     vs_chain s' = [numbered_block 0, numbered_block 1] \<and> vs_pending s' = [numbered_block 2]"
proof -
  have "extended_by list_chain [numbered_block 0] [numbered_block 1] [numbered_block 0, numbered_block 1]"
    by (simp add: list_chain_def check_block_content_def or_other_def)
  with confirmed_blocks_applied[of list_chain waiting_validator "numbered_block 2" 0 "[numbered_block 0, numbered_block 1]" True]
    numbered_accepted(2) first_confirmed[of "[numbered_block 0]"]
  show ?thesis by (simp add: confirmed_def)
qed

text \<open>C40. Confirmed blocks get lost when the ledger advances at the wrong moment.  An attempt has found that block \<open>n\<close> of the queue is
  confirmed and is about to lock the ledger; before it does, another task adds the first \<open>k\<close> blocks of the queue to the ledger,
  at least one and not all of the confirmed ones.  Then the content check reports the first block as outdated, but all
  confirmed blocks leave the queue, and since the new block is already queued the retry returns at once.  The call succeeds, the ledger stays as the
  other task left it, and the queue starts above the next height of the ledger.\<close>

theorem outdated_block_retry:
  assumes "check_block_subdag ch (vs_chain s) b (vs_pending s) = Inr ()" and "n < length (vs_pending s)"
    and "is_block_availability_threshold_reached (chain_ledger ch (vs_chain s)) (vs_pending s ! n) (drop (Suc n) (vs_pending s) @ [b]) = Ok True"
    and "\<And>i. n < i \<Longrightarrow> i < length (vs_pending s) \<Longrightarrow>
      is_block_availability_threshold_reached (chain_ledger ch (vs_chain s)) (vs_pending s ! i) (drop (Suc i) (vs_pending s) @ [b]) = Ok False"
    and "extended_by ch (vs_chain s) (take k (vs_pending s)) l" "0 < k" "k \<le> n"
    and "block_height (chain_latest_block ch l) = chain_height ch (vs_chain s) + k" "begin_ledger_update ch l = Inr ()"
  shows "let H = chain_height ch (vs_chain s); commit_height = block_height (vs_pending s ! n);
      s1 = s\<lparr>vs_pending := vs_pending s @ [b]\<rparr>; s2 = s\<lparr>vs_pending := drop (Suc n) (vs_pending s) @ [b], vs_chain := l\<rparr>
    in try_sync_storage_with_block ch b within_gc_range s = commit_from ch within_gc_range H commit_height s1 \<and>
       commit_from ch within_gc_range H commit_height (s1\<lparr>vs_chain := l\<rparr>) = (Ok False, s2) \<and>
       sync_attempts ch b within_gc_range s2 = Some (Ok (), s2) \<and>
       block_height (hd (vs_pending s2)) > block_height (chain_latest_block ch l) + 1"
proof -
  let ?ps = "vs_pending s" and ?s2 = "s\<lparr>vs_pending := drop (Suc n) (vs_pending s) @ [b], vs_chain := l\<rparr>"
  have c: "confirmed (chain_ledger ch (vs_chain s)) (?ps @ [b]) n"
    using assms(2,3) by (simp add: confirmed_def nth_append)
  note A = attempt_selects[OF assms(1,2) c assms(4)]
  have "0 < length ?ps" using assms(2) by linarith
  then have "?ps \<noteq> []" "map block_height (?ps @ [b]) ! 0 = chain_height ch (vs_chain s) + 1"
    by (auto simp only: check_block_subdag_Inr(1)[OF assms(1)] nth_upt)
  then obtain p qs where ps: "?ps = p # qs" "block_height p = chain_height ch (vs_chain s) + 1" by (cases ?ps) auto
  then have "check_block_content ch l p = Inl InvalidHeight" using assms(6,8) by (simp add: check_block_content_def)
  then have "commit_blocks ch within_gc_range (take (Suc n) ?ps) ?s2 = (Ok False, ?s2)" by (simp add: ps(1))
  moreover have "sync_attempts ch b within_gc_range ?s2 = Some (Ok (), ?s2)"
    using queued_block_ends[of ?s2 "drop (Suc n) ?ps" b ch within_gc_range] by simp
  ultimately show ?thesis
    using A commit_from_drains[OF assms(2,9), where s = s and b = b] assms(7,8) by (simp add: Let_def)
qed

theorem outdated_block_retry_witness:
  "let s = waiting_validator\<lparr>vs_pending := [numbered_block 1, numbered_block 2]\<rparr>;
       s1 = s\<lparr>vs_pending := [numbered_block 1, numbered_block 2, numbered_block 3]\<rparr>;
       s2 = s\<lparr>vs_pending := [numbered_block 3], vs_chain := [numbered_block 0, numbered_block 1]\<rparr>
   in try_sync_storage_with_block list_chain (numbered_block 3) True s = commit_from list_chain True 0 2 s1 \<and>
      commit_from list_chain True 0 2 (s1\<lparr>vs_chain := [numbered_block 0, numbered_block 1]\<rparr>) = (Ok False, s2) \<and>
      sync_attempts list_chain (numbered_block 3) True s2 = Some (Ok (), s2)"
proof -
  let ?s = "waiting_validator\<lparr>vs_pending := [numbered_block 1, numbered_block 2]\<rparr>"
  have "extended_by list_chain [numbered_block 0] [numbered_block 1] [numbered_block 0, numbered_block 1]"
    by (simp add: list_chain_def check_block_content_def or_other_def)
  then have x: "extended_by list_chain (vs_chain ?s) (take 1 (vs_pending ?s)) [numbered_block 0, numbered_block 1]" by simp
  have b: "block_height (chain_latest_block list_chain [numbered_block 0, numbered_block 1]) = chain_height list_chain (vs_chain ?s) + 1"
    by (simp add: list_chain_def)
  from outdated_block_retry[of list_chain ?s "numbered_block 3" 1 1 "[numbered_block 0, numbered_block 1]" True, OF _ _ _ _ x _ _ b]
    numbered_accepted(3) second_confirmed[of "[numbered_block 0]"]
  show ?thesis by (simp add: Let_def)
qed

end
