(* ===== verification/Fetch.thy ===== *)
theory Fetch
  imports Pending
begin

text \<open>
  How a validator fetches a certificate from another one, after the last part of \<open>node/bft/src/sync/mod.rs\<close>: the request and its
  callback, the answer from storage, and the arrival of the answer.  Whether a message could be sent, and whether the peers
  asked so far hold enough stake, are arguments.
\<close>

section \<open>Operations\<close>

text \<open>The answer says whether a message goes out; then the caller waits for its callback.\<close>

definition send_certificate_request ::
    "network \<Rightarrow> 't ledger \<Rightarrow> u32 \<Rightarrow> i64 \<Rightarrow> u64 \<Rightarrow> bool result \<Rightarrow> bool \<Rightarrow> 'p \<Rightarrow> field \<Rightarrow> 'c \<Rightarrow> (field, 'p, 'c) pending
      \<Rightarrow> bool result \<times> (field, 'p, 'c) pending" where
  "send_certificate_request n l latest_height now r stake_redundancy_reached sent peer_ip certificate_id callback m =
     (let (num_sent, m) = num_sent_requests now certificate_id m;
          contains_peer_with_request = contains_peer_with_sent_request m certificate_id peer_ip
      in case max_redundant_requests n l latest_height r of
           Inl err \<Rightarrow> (Inl err, m)
         | Inr num_redundant_requests \<Rightarrow>
             (case (if contains_peer_with_request then Ok False
                    else if num_sent < num_redundant_requests then Ok True
                    else try_bind stake_redundancy_reached (\<lambda>reached. Ok (\<not> reached))) of
                Inl err \<Rightarrow> (Inl err, m)
              | Inr should_send_request \<Rightarrow>
                  let m = snd (pending_insert now certificate_id peer_ip (Some (callback, should_send_request)) m)
                  in if should_send_request \<and> \<not> sent then (bail ''Unable to fetch batch certificate (failed to send request)'', m)
                     else (Ok should_send_request, m)))"

definition send_certificate_response :: "('s, 'u) storage \<Rightarrow> 'p \<Rightarrow> field \<Rightarrow> ('p \<times> batch_certificate) option" where
  "send_certificate_response st peer_ip certificate_id = map_option (\<lambda>c. (peer_ip, c)) (get_certificate st certificate_id)"

definition finish_certificate_request ::
    "'p \<Rightarrow> batch_certificate \<Rightarrow> (field, 'p, 'c) pending \<Rightarrow> ('c \<times> batch_certificate) list \<times> (field, 'p, 'c) pending" where
  "finish_certificate_request peer_ip c m =
     (let exists = (case get_peers m (cert_id c) of None \<Rightarrow> False | Some peers \<Rightarrow> peer_ip \<in> set peers)
      in if exists then (case pending_remove (cert_id c) (Some c) m of ((_, notified), m) \<Rightarrow> (notified, m)) else ([], m))"

section \<open>Properties\<close>

lemma request_registers:
  assumes "send_certificate_request n l h now r stake sent p i cb m = (Ok should, m')"
  obtains k enough where "register_request now k enough i p cb m = (should, m')"
proof -
  obtain num m1 where c: "num_sent_requests now i m = (num, m1)" by fastforce
  obtain k where k: "max_redundant_requests n l h r = Inr k"
    using assms by (cases "max_redundant_requests n l h r") (auto simp: send_certificate_request_def c Let_def)
  define enough where "enough = (stake = Ok True)"
  obtain w where w: "(if contains_peer_with_sent_request m1 i p then Ok False else if num < k then Ok True
      else try_bind stake (\<lambda>reached. Ok (\<not> reached))) = Ok w" "should = w" "m' = snd (pending_insert now i p (Some (cb, w)) m1)"
    using assms by (auto simp: send_certificate_request_def c k Let_def split: sum.splits if_splits)
  have "w \<longleftrightarrow> \<not> contains_peer_with_sent_request m1 i p \<and> (num < k \<or> \<not> enough)"
    using w(1) by (auto simp: enough_def result_simps split: if_splits)
  then show thesis using that[of k enough] w(2,3) by (simp add: register_request_def c Let_def)
qed

text \<open>C30. A certificate that is asked for arrives: when the peer that was asked has it in storage, and its answer comes before the
  request expires, the waiting callback gets the certificate with the ID that was asked for, every callback that is
  notified gets the same certificate, and nothing is pending for it any more.  An answer from a peer that was not asked for
  this certificate changes nothing.\<close>

theorem certificate_fetched:
  assumes "pending_inv m" "send_certificate_request n l h now r stake sent p i cb m = (Ok should, m')"
    and "storage_reachable e st" "send_certificate_response st q i = Some (q, c)"
    and "0 \<le> now" "now \<le> later" "later \<le> now + CALLBACK_EXPIRATION_IN_SECS" "later \<le> i64_max"
    and "finish_certificate_request p c (clear_expired_callbacks_for_item later i m') = (notified, m'')"
  shows "cert_id c = i \<and> (cb, c) \<in> set notified \<and> (\<forall>(_, c')\<in>set notified. c' = c) \<and> \<not> pending_contains m'' i \<and>
    (\<forall>p' c' m. \<not> contains_peer m (cert_id c') p' \<longrightarrow>
       finish_certificate_request p' c' (m :: (field, 'p, 'c) pending) = ([], m))"
proof -
  let ?m2 = "clear_expired_callbacks_for_item later i m'"
  have "map_of (certificates st) i = Some c" using assms(4) by (auto simp: send_certificate_response_def get_certificate_def)
  then have id: "cert_id c = i"
    using maps_agreeD(1) reachable_inv[OF assms(3)] by (auto simp: storage_inv_def)
  obtain k enough where reg: "register_request now k enough i p cb m = (should, m')" by (rule request_registers[OF assms(2)])
  obtain ps cbs where ps: "map_of ?m2 i = Some ps" "map_of ps p = Some cbs" "(cb, now, should) \<in> set cbs"
    by (rule request_stays[OF assms(1) reg assms(5-8)])
  have mem: "cbs \<in> set (vals ps)" "p \<in> set (keys ps)" using map_of_SomeD[OF ps(2)] by force+
  have f: "notified = map (\<lambda>(callback, _, _). (callback, c)) (concat (vals ps))" "m'' = AList.delete i ?m2"
    using assms(9) mem(2) by (auto simp: finish_certificate_request_def id get_peers_def ps(1) pending_remove_def Let_def)
  have "(cb, c) \<in> set notified" using mem(1) ps(3) by (force simp: f(1))
  moreover have "\<forall>(_, c')\<in>set notified. c' = c" by (auto simp: f(1))
  moreover have "\<not> pending_contains m'' i" by (simp add: f(2) pending_contains_def delete_keys)
  moreover have "\<forall>p' c' m. \<not> contains_peer m (cert_id c') p' \<longrightarrow>
      finish_certificate_request p' c' (m :: (field, 'p, 'c) pending) = ([], m)"
    by (auto simp: finish_certificate_request_def contains_peer_def get_peers_def split: option.splits)
  ultimately show ?thesis using id by blast
qed

theorem certificate_fetched_witness:
  "\<exists>st m' notified m''. storage_reachable sample_env st \<and>
     send_certificate_response st (9 :: nat) (cert_id sample_cert) = Some (9, sample_cert) \<and>
     send_certificate_request MainnetV0 (sample_ledger :: nat ledger) 0 100 1 (Ok False) True (7 :: nat) (cert_id sample_cert) ''cb'' [] = (Ok True, m') \<and>
     finish_certificate_request 7 sample_cert (clear_expired_callbacks_for_item 103 (cert_id sample_cert) m') = (notified, m'') \<and>
     (''cb'', sample_cert) \<in> set notified"
proof -
  let ?i = "cert_id sample_cert"
  obtain st where st: "insert_certificate sample_env 100 sample_cert [(Solution 1 2, 50)] [] sample_storage = Ok st"
    using sample_insert by blast
  have r: "storage_reachable sample_env st" by (rule storage_reachable.insert[OF sample_reachable st])
  have resp: "send_certificate_response st (9 :: nat) ?i = Some (9, sample_cert)"
    using insert_certificate_get[OF st] by (simp add: send_certificate_response_def)
  have req: "send_certificate_request MainnetV0 (sample_ledger :: nat ledger) 0 100 1 (Ok False) True (7 :: nat) ?i ''cb'' [] =
      (Ok True, [(?i, [(7, [(''cb'', 100, True)])])])"
    by (simp add: send_certificate_request_def num_sent_requests_def clear_expired_callbacks_for_item_def pending_insert_def
        contains_peer_with_sent_request_def clear_expired_peers_def map_retain_def live_now[of 100 "''cb''" True]
        max_redundant_requests_def sample_ledger_def)
  obtain notified m'' where fin: "finish_certificate_request 7 sample_cert
      (clear_expired_callbacks_for_item 103 ?i [(?i, [(7 :: nat, [(''cb'', 100, True)])])]) = (notified, m'')" by (metis surj_pair)
  have inv: "pending_inv ([] :: (nat, nat, string) pending)" by (simp add: pending_inv_def)
  have times: "(0 :: int) \<le> 100" "(100 :: int) \<le> 103" "103 \<le> 100 + CALLBACK_EXPIRATION_IN_SECS" "103 \<le> i64_max"
    by (simp_all add: CALLBACK_EXPIRATION_IN_SECS_def as_secs_def MAX_FETCH_TIMEOUT_IN_MS_def MAX_BATCH_DELAY_IN_MS_def i64_max_def)
  from certificate_fetched[OF inv req r resp times fin] have "(''cb'', sample_cert) \<in> set notified" by blast
  then show ?thesis using r resp req fin by blast
qed

end
