(* ===== verification/Committee_Store.thy ===== *)
theory Committee_Store
  imports Committee
begin

text \<open>
  Which committee is in force in a round, after \<open>snarkVM/ledger/store/src/program/committee.rs\<close>: the committees by height of the
  block that determined them, and the height for each round.  A write is one atomic batch; queries inside it see the state
  before it.  Errors of the database are not modelled.  Heights are below the limit of 32 bits, so the
  next height does not wrap; nor does the next round, which is at most the starting round of the new committee.
\<close>

section \<open>Definitions\<close>

record committee_storage =
  current_round_map :: "u64 option"
  round_to_height_map :: "(u64, u32) imap"
  committee_map :: "(u32, committee) imap"

definition committee_storage_new :: committee_storage where
  "committee_storage_new = \<lparr>current_round_map = None, round_to_height_map = [], committee_map = []\<rparr>"

definition cs_current_round :: "committee_storage \<Rightarrow> u64 result" where
  "cs_current_round st = (case current_round_map st of None \<Rightarrow> bail ''Current round not found in committee storage'' | Some r \<Rightarrow> Ok r)"

definition get_height_for_round :: "committee_storage \<Rightarrow> u64 \<Rightarrow> u32 option" where
  "get_height_for_round st r = map_of (round_to_height_map st) r"

definition get_committee :: "committee_storage \<Rightarrow> u32 \<Rightarrow> committee option" where
  "get_committee st h = map_of (committee_map st) h"

definition cs_current_height :: "committee_storage \<Rightarrow> u32 result" where
  "cs_current_height st =
     try_bind (cs_current_round st) (\<lambda>r.
       case get_height_for_round st r of None \<Rightarrow> bail ''Current height not found in committee storage'' | Some h \<Rightarrow> Ok h)"

definition cs_current_committee :: "committee_storage \<Rightarrow> committee result" where
  "cs_current_committee st =
     try_bind (cs_current_height st) (\<lambda>h.
       case get_committee st h of None \<Rightarrow> bail ''Current committee not found in committee storage'' | Some c \<Rightarrow> Ok c)"

definition get_committee_for_round :: "committee_storage \<Rightarrow> u64 \<Rightarrow> committee option" where
  "get_committee_for_round st r = Option.bind (get_height_for_round st r) (get_committee st)"

definition committee_insert :: "u32 \<Rightarrow> committee \<Rightarrow> committee_storage \<Rightarrow> committee_storage result" where
  "committee_insert next_height c st =
     (let next_round = starting_round c in
      ensure (next_round \<ge> next_height) ''Next round must be at least the next height''
      (ensure (case cs_current_round st of Inl _ \<Rightarrow> next_round = 0 | Inr current \<Rightarrow> next_round > current) ''Invalid next round''
      (ensure (case cs_current_height st of Inl _ \<Rightarrow> next_height = 0 | Inr current \<Rightarrow> next_height = current + 1) ''Invalid next height''
      (ensure (\<not> contains_key (round_to_height_map st) next_round) ''Next round already exists in committee storage''
      (let catch_up_round = (case cs_current_round st of Inl _ \<Rightarrow> 0 | Inr current \<Rightarrow> current + 1);
           m = (case cs_current_height st of
                  Inl _ \<Rightarrow> round_to_height_map st
                | Inr current \<Rightarrow> fold (\<lambda>r. AList.update r current) [catch_up_round..<next_round] (round_to_height_map st))
       in Ok \<lparr>current_round_map = Some next_round, round_to_height_map = AList.update next_round next_height m,
              committee_map = AList.update next_height c (committee_map st)\<rparr>)))))"

text \<open>The loops of the removal; the one upwards ends only if a round below the largest number has another height.\<close>

fun earliest_loop :: "committee_storage \<Rightarrow> u32 \<Rightarrow> u64 \<Rightarrow> u64" where
  "earliest_loop st h 0 = 0"
| "earliest_loop st h (Suc r) = (if get_height_for_round st (Suc r) = Some h then earliest_loop st h r else Suc r)"

partial_function (option) latest_loop :: "committee_storage \<Rightarrow> u32 \<Rightarrow> u64 \<Rightarrow> u64 option" where
  "latest_loop st h r =
     (if get_height_for_round st r = Some h then latest_loop st h (saturating_add u64_max r 1) else Some r)"

fun next_current_loop :: "committee_storage \<Rightarrow> u32 \<Rightarrow> u64 \<Rightarrow> u64" where
  "next_current_loop st current_height 0 = 0"
| "next_current_loop st current_height (Suc r) =
     (case get_height_for_round st (Suc r) of
        Some h \<Rightarrow> if h < current_height then Suc r else next_current_loop st current_height r
      | None \<Rightarrow> next_current_loop st current_height r)"

definition committee_remove :: "u32 \<Rightarrow> committee_storage \<Rightarrow> committee_storage result option" where
  "committee_remove height st =
     (case try_bind (cs_current_round st) (\<lambda>current_round. try_bind (cs_current_height st) (\<lambda>current_height.
             case get_committee st height of
               None \<Rightarrow> bail ''Committee not found for height in committee storage''
             | Some c \<Rightarrow> Ok (current_round, current_height, starting_round c))) of
        Inl err \<Rightarrow> Some (Inl err)
      | Inr (current_round, current_height, committee_round) \<Rightarrow>
          let is_latest_committee = (current_height = height);
              earliest = earliest_loop st height committee_round;
              earliest_round = (if earliest \<noteq> committee_round then earliest + 1 else earliest);
              next = saturating_sub current_round 1;
              next_current_round = (if is_latest_committee then next_current_loop st current_height next else next)
          in map_option (\<lambda>latest_round.
               Ok \<lparr>current_round_map =
                     (if is_latest_committee
                      then (if current_round \<noteq> next_current_round \<and> next_current_round > 0 then Some next_current_round else None)
                      else current_round_map st),
                   round_to_height_map = fold AList.delete [earliest_round..<latest_round] (round_to_height_map st),
                   committee_map = AList.delete height (committee_map st)\<rparr>)
               (latest_loop st height committee_round))"

section \<open>The invariant\<close>

text \<open>Every stored committee is in force from its starting round to the round \<open>e h\<close>.  These intervals follow the heights; a committee
  lasts until the next one starts, as long as both are stored.  The current round is the last round of the newest committee;
  there is none only if nothing is stored, or nothing but a committee for round \<open>0\<close>.\<close>

definition stored :: "committee_storage \<Rightarrow> (u32 \<Rightarrow> u64) \<Rightarrow> bool" where
  "stored st e \<longleftrightarrow>
     (\<forall>r h. get_height_for_round st r = Some h \<longleftrightarrow> (\<exists>c. get_committee st h = Some c \<and> starting_round c \<le> r \<and> r \<le> e h)) \<and>
     (\<forall>h c. get_committee st h = Some c \<longrightarrow>
        h \<le> starting_round c \<and> starting_round c \<le> e h \<and> e h \<le> u64_max \<and> (h = 0 \<longrightarrow> starting_round c = 0)) \<and>
     (\<forall>h k c d. get_committee st h = Some c \<and> get_committee st k = Some d \<and> h < k \<longrightarrow>
        e h < starting_round d \<and> (k = Suc h \<longrightarrow> starting_round d = Suc (e h))) \<and>
     (case current_round_map st of
        Some cur \<Rightarrow> (\<exists>n. get_committee st n \<noteq> None \<and> cur = e n \<and> (\<forall>h. get_committee st h \<noteq> None \<longrightarrow> h \<le> n))
      | None \<Rightarrow> (\<forall>h. get_committee st h \<noteq> None \<longrightarrow> h = 0 \<and> e h = 0))"

lemma storedD:
  assumes "stored st e"
  shows "get_height_for_round st r = Some h \<longleftrightarrow> (\<exists>c. get_committee st h = Some c \<and> starting_round c \<le> r \<and> r \<le> e h)"
    "get_committee st h = Some c \<Longrightarrow> h \<le> starting_round c \<and> starting_round c \<le> e h \<and> e h \<le> u64_max \<and> (h = 0 \<longrightarrow> starting_round c = 0)"
    "get_committee st h = Some c \<Longrightarrow> get_committee st k = Some d \<Longrightarrow> h < k \<Longrightarrow> e h < starting_round d"
    "get_committee st h = Some c \<Longrightarrow> get_committee st (Suc h) = Some d \<Longrightarrow> starting_round d = Suc (e h)"
  using assms unfolding stored_def by blast+

lemma storedI:
  assumes "\<And>r h. get_height_for_round st r = Some h \<longleftrightarrow> (\<exists>c. get_committee st h = Some c \<and> starting_round c \<le> r \<and> r \<le> e h)"
    "\<And>h c. get_committee st h = Some c \<Longrightarrow> h \<le> starting_round c \<and> starting_round c \<le> e h \<and> e h \<le> u64_max \<and> (h = 0 \<longrightarrow> starting_round c = 0)"
    "\<And>h k c d. get_committee st h = Some c \<Longrightarrow> get_committee st k = Some d \<Longrightarrow> h < k \<Longrightarrow>
      e h < starting_round d \<and> (k = Suc h \<longrightarrow> starting_round d = Suc (e h))"
    "case current_round_map st of
       Some cur \<Rightarrow> (\<exists>n. get_committee st n \<noteq> None \<and> cur = e n \<and> (\<forall>h. get_committee st h \<noteq> None \<longrightarrow> h \<le> n))
     | None \<Rightarrow> (\<forall>h. get_committee st h \<noteq> None \<longrightarrow> h = 0 \<and> e h = 0)"
  shows "stored st e"
proof -
  have "\<forall>h c. get_committee st h = Some c \<longrightarrow>
      h \<le> starting_round c \<and> starting_round c \<le> e h \<and> e h \<le> u64_max \<and> (h = 0 \<longrightarrow> starting_round c = 0)"
    using assms(2) by blast
  moreover have "\<forall>h k c d. get_committee st h = Some c \<and> get_committee st k = Some d \<and> h < k \<longrightarrow>
      e h < starting_round d \<and> (k = Suc h \<longrightarrow> starting_round d = Suc (e h))"
    using assms(3) by blast
  moreover have "\<forall>r h. get_height_for_round st r = Some h \<longleftrightarrow> (\<exists>c. get_committee st h = Some c \<and> starting_round c \<le> r \<and> r \<le> e h)"
    using assms(1) by blast
  ultimately show ?thesis using assms(4) unfolding stored_def by (intro conjI)
qed

lemma stored_current:
  assumes "stored st e" "cs_current_round st = Ok cur"
  obtains n c where "get_committee st n = Some c" "cur = e n" "\<And>h d. get_committee st h = Some d \<Longrightarrow> h \<le> n \<and> e h \<le> cur"
    "cs_current_height st = Ok n" "cs_current_committee st = Ok c"
proof -
  have "current_round_map st = Some cur" using assms(2) by (auto simp: cs_current_round_def split: option.splits)
  then obtain n c where n: "get_committee st n = Some c" "cur = e n" "\<forall>h. get_committee st h \<noteq> None \<longrightarrow> h \<le> n"
    using assms(1) by (auto simp: stored_def)
  have le: "h \<le> n \<and> e h \<le> cur" if d: "get_committee st h = Some d" for h d
    using n(3) d storedD(3)[OF assms(1) d n(1)] storedD(2)[OF assms(1) n(1)] n(2) by (cases "h = n") force+
  have "get_height_for_round st cur = Some n" using storedD(1)[OF assms(1), of cur n] storedD(2)[OF assms(1) n(1)] n(1,2) by blast
  then have "cs_current_height st = Ok n" by (simp add: cs_current_height_def assms(2))
  then show thesis using that[OF n(1,2) le] n(1) by (simp add: cs_current_committee_def)
qed

lemma map_of_fold_update: "map_of (fold (\<lambda>r. AList.update r h) rs m) k = (if k \<in> set rs then Some h else map_of m k)"
  by (induction rs arbitrary: m) auto

lemma map_of_fold_delete: "map_of (fold AList.delete rs m) k = (if k \<in> set rs then None else map_of m k)"
  by (induction rs arbitrary: m) (auto simp: map_of_alist_delete)

section \<open>Insertion\<close>

lemma insert_first:
  assumes s: "stored st e" and n: "current_round_map st = None" and i: "committee_insert h c st = Ok st'"
  shows "stored st' (\<lambda>_. 0)"
proof -
  obtain err err' where cur: "cs_current_round st = Inl err" "cs_current_height st = Inl err'"
    by (simp add: cs_current_round_def cs_current_height_def n)
  have h: "h = 0" "starting_round c = 0" "get_height_for_round st 0 = None"
    using i by (auto simp: committee_insert_def cur Let_def result_simps get_height_for_round_def)
  have no: "get_committee st k = None" for k
  proof (rule ccontr)
    assume "get_committee st k \<noteq> None"
    then obtain d where d: "get_committee st k = Some d" "k = 0" "e k = 0" using s n by (auto simp: stored_def)
    then show False using storedD(1)[OF s, of 0 k] storedD(2)[OF s d(1)] h(3) by auto
  qed
  then have "get_height_for_round st r = None" for r using storedD(1)[OF s, of r] by (cases "get_height_for_round st r") auto
  moreover have "st' = \<lparr>current_round_map = Some 0, round_to_height_map = AList.update 0 0 (round_to_height_map st),
      committee_map = AList.update 0 c (committee_map st)\<rparr>"
    using i h(1,2) by (auto simp: committee_insert_def cur Let_def result_simps)
  ultimately have "get_height_for_round st' r = (if r = 0 then Some 0 else None)" "get_committee st' k = (if k = 0 then Some c else None)"
      "current_round_map st' = Some 0" for r k
    using no[of k] by (auto simp: get_height_for_round_def get_committee_def)
  then show ?thesis using h(2) by (auto simp: stored_def split: if_splits)
qed

lemma insert_next_result:
  assumes "stored st e" "cs_current_round st = Ok cur" "cs_current_height st = Ok n" "committee_insert h c st = Ok st'"
  shows "h = Suc n" "cur < starting_round c" "Suc n \<le> starting_round c"
    "current_round_map st' = Some (starting_round c)"
    "get_committee st' k = (if k = Suc n then Some c else get_committee st k)"
    "get_height_for_round st' r = (if r = starting_round c then Some (Suc n)
       else if cur < r \<and> r < starting_round c then Some n else get_height_for_round st r)"
proof -
  let ?m = "fold (\<lambda>r. AList.update r n) [cur + 1..<starting_round c] (round_to_height_map st)"
  show h: "h = Suc n" "cur < starting_round c" "Suc n \<le> starting_round c"
    using assms(4) by (auto simp: committee_insert_def assms(2,3) Let_def result_simps)
  have st': "st' = \<lparr>current_round_map = Some (starting_round c), round_to_height_map = AList.update (starting_round c) h ?m,
      committee_map = AList.update h c (committee_map st)\<rparr>"
    using assms(4) by (auto simp: committee_insert_def assms(2,3) Let_def result_simps)
  show "current_round_map st' = Some (starting_round c)" "get_committee st' k = (if k = Suc n then Some c else get_committee st k)"
    using h(1) by (simp_all add: st' get_committee_def)
  show "get_height_for_round st' r = (if r = starting_round c then Some (Suc n)
       else if cur < r \<and> r < starting_round c then Some n else get_height_for_round st r)"
    using h(1) by (auto simp: st' get_height_for_round_def map_of_fold_update simp del: upt_Suc)
qed

lemma insert_next:
  assumes s: "stored st e" and cur: "cs_current_round st = Ok cur" and i: "committee_insert h c st = Ok st'" "starting_round c \<le> u64_max"
    and n: "cs_current_height st = Ok n"
  shows "stored st' (e(n := starting_round c - 1, Suc n := starting_round c))"
proof -
  let ?R = "starting_round c" and ?e = "e(n := starting_round c - 1, Suc n := starting_round c)"
  obtain m d where m: "get_committee st m = Some d" "cur = e m" "\<And>h d. get_committee st h = Some d \<Longrightarrow> h \<le> m \<and> e h \<le> cur"
    "cs_current_height st = Ok m" "cs_current_committee st = Ok d" by (rule stored_current[OF s cur]) blast
  have d: "get_committee st n = Some d" "cur = e n" "m = n" using m n by auto
  note I = insert_next_result[OF s cur n i(1)]
  note B = storedD(2)[OF s]
  have none: "get_committee st (Suc n) = None" using m(3)[of "Suc n"] d(3) by (cases "get_committee st (Suc n)") auto
  have other: "k \<noteq> Suc n \<Longrightarrow> k \<noteq> n \<Longrightarrow> get_committee st' k = get_committee st k \<and> ?e k = e k" for k by (simp add: I(5))
  have below: "k < n \<and> e k < starting_round d" if "get_committee st k = Some x" "k \<noteq> n" for k x
    using m(3)[OF that(1)] that storedD(3)[OF s that(1) d(1)] d(3) by force
  show ?thesis
  proof (rule storedI)
    show "get_height_for_round st' r = Some k \<longleftrightarrow> (\<exists>x. get_committee st' k = Some x \<and> starting_round x \<le> r \<and> r \<le> ?e k)" for r k
    proof (cases "k = Suc n")
      case True
      have "get_height_for_round st r \<noteq> Some (Suc n)" using storedD(1)[OF s, of r "Suc n"] none by simp
      then show ?thesis using True I(2) by (auto simp: I(5,6))
    next
      case k: False
      show ?thesis
      proof (cases "k = n")
        case True
        then show ?thesis
          using I(2) d(1,2) B[OF d(1)] storedD(1)[OF s, of r n] none by (auto simp: I(5,6))
      next
        case False
        then show ?thesis
          using storedD(1)[OF s, of r k] below[of k] B[OF d(1)] I(2) d(2) other[OF k False] k by (auto simp: I(6))
      qed
    qed
    show "k \<le> starting_round x \<and> starting_round x \<le> ?e k \<and> ?e k \<le> u64_max \<and> (k = 0 \<longrightarrow> starting_round x = 0)"
      if "get_committee st' k = Some x" for k x
      using that I(2,3) i(2) B[of k x] d(2) by (auto simp: I(5) split: if_splits)
    show "?e k < starting_round y \<and> (l = Suc k \<longrightarrow> starting_round y = Suc (?e k))"
      if "get_committee st' k = Some x" "get_committee st' l = Some y" "k < l" for k l x y
    proof (cases "l = Suc n")
      case True
      then show ?thesis using that I(2) below[of k x] B[OF d(1)] d(2) by (cases "k = n") (auto simp: I(5))
    next
      case False
      then have y: "get_committee st l = Some y" "l \<le> n" using that(2) m(3)[of l y] d(3) by (auto simp: I(5))
      then have "get_committee st k = Some x" "?e k = e k" using that(1,3) by (auto simp: I(5))
      then show ?thesis using storedD(3)[OF s _ y(1) that(3)] storedD(4)[OF s, of k x y] y(1) by auto
    qed
    show "case current_round_map st' of
        Some cur \<Rightarrow> (\<exists>n. get_committee st' n \<noteq> None \<and> cur = ?e n \<and> (\<forall>h. get_committee st' h \<noteq> None \<longrightarrow> h \<le> n))
      | None \<Rightarrow> (\<forall>h. get_committee st' h \<noteq> None \<longrightarrow> h = 0 \<and> ?e h = 0)"
      using m(3) d(3) by (auto simp: I(4,5) intro!: exI[of _ "Suc n"] le_SucI)
  qed
qed

section \<open>Removal\<close>

lemma earliest_loop_start:
  assumes s: "stored st e" and c: "get_committee st h = Some c"
  shows "earliest_loop st h (starting_round c) = starting_round c - 1"
proof (cases "starting_round c")
  case (Suc k)
  have "get_height_for_round st k \<noteq> Some h" using storedD(1)[OF s, of k h] c Suc by auto
  then have "earliest_loop st h k = k" by (cases k) simp_all
  moreover have "get_height_for_round st (Suc k) = Some h" using storedD(1)[OF s, of "Suc k" h] storedD(2)[OF s c] c Suc by auto
  ultimately show ?thesis using Suc by simp
qed simp

lemma latest_loop_end:
  assumes s: "stored st e" and c: "get_committee st h = Some c" and "e h < u64_max"
  shows "starting_round c \<le> r \<Longrightarrow> r \<le> e h + 1 \<Longrightarrow> latest_loop st h r = Some (e h + 1)"
proof (induction "e h + 1 - r" arbitrary: r)
  case 0
  then have "r = e h + 1" by simp
  then have "get_height_for_round st r \<noteq> Some h" using storedD(1)[OF s, of r h] by simp
  then show ?case using \<open>r = e h + 1\<close> by (subst latest_loop.simps) simp
next
  case (Suc k)
  then have r: "r \<le> e h" "saturating_add u64_max r 1 = r + 1" using assms(3) by (auto simp: saturating_add_def)
  then have "get_height_for_round st r = Some h" using storedD(1)[OF s, of r h] c Suc.prems(1) by blast
  moreover have "latest_loop st h (r + 1) = Some (e h + 1)" using Suc r by (intro Suc.hyps(1)) auto
  ultimately show ?case using r(2) by (subst latest_loop.simps) simp
qed

lemma latest_loop_Some:
  assumes "latest_loop st h r = Some l" "r \<le> u64_max"
  shows "r \<le> l \<and> get_height_for_round st l \<noteq> Some h \<and> (\<forall>k. r \<le> k \<and> k < l \<longrightarrow> get_height_for_round st k = Some h)"
proof -
  let ?P = "\<lambda>st h r l. r \<le> u64_max \<longrightarrow>
     r \<le> l \<and> get_height_for_round st l \<noteq> Some h \<and> (\<forall>k. r \<le> k \<and> k < l \<longrightarrow> get_height_for_round st k = Some h)"
  have "?P st h r l"
  proof (rule latest_loop.raw_induct[of ?P, OF _ assms(1)], goal_cases)
    case (1 loop st h r l)
    show ?case
    proof (intro impI, cases "get_height_for_round st r = Some h")
      case True
      assume r: "r \<le> u64_max"
      let ?r = "saturating_add u64_max r 1"
      have b: "?r \<le> Suc r" "r \<le> ?r" "?r \<le> u64_max" using r by (simp_all add: saturating_add_def)
      have "loop st h ?r = Some l" using 1(2) True by simp
      from 1(1)[OF this] b(3) have i: "?r \<le> l" "get_height_for_round st l \<noteq> Some h"
        "\<forall>k. ?r \<le> k \<and> k < l \<longrightarrow> get_height_for_round st k = Some h" by simp_all
      have "get_height_for_round st k = Some h" if "r \<le> k" "k < l" for k
        using i(3) that True b(1) by (cases "k = r") auto
      then show "r \<le> l \<and> get_height_for_round st l \<noteq> Some h \<and> (\<forall>k. r \<le> k \<and> k < l \<longrightarrow> get_height_for_round st k = Some h)"
        using i(1,2) b(2) by auto
    qed (use 1(2) in auto)
  qed
  then show ?thesis using assms(2) by simp
qed

lemma next_current_spec:
  "next_current_loop st n k \<le> k \<and>
   (0 < next_current_loop st n k \<longrightarrow> (\<exists>h<n. get_height_for_round st (next_current_loop st n k) = Some h)) \<and>
   (\<forall>r h. next_current_loop st n k < r \<and> r \<le> k \<and> get_height_for_round st r = Some h \<longrightarrow> n \<le> h)"
proof (induction k)
  case (Suc k)
  show ?case
  proof (cases "\<exists>h<n. get_height_for_round st (Suc k) = Some h")
    case True
    then show ?thesis by auto
  next
    case False
    then have l: "next_current_loop st n (Suc k) = next_current_loop st n k" by (auto split: option.splits)
    have "n \<le> h" if "get_height_for_round st (Suc k) = Some h" for h using False that by force
    then show ?thesis using Suc.IH unfolding l by (auto simp: le_Suc_eq)
  qed
qed simp

lemma latest_loop_interval:
  assumes s: "stored st e" and c: "get_committee st h = Some c" and l: "latest_loop st h (starting_round c) = Some l"
  shows "l = e h + 1"
proof -
  note B = storedD(2)[OF s c]
  have L: "starting_round c \<le> l" "get_height_for_round st l \<noteq> Some h"
    "\<And>k. starting_round c \<le> k \<Longrightarrow> k < l \<Longrightarrow> get_height_for_round st k = Some h"
    using latest_loop_Some[OF l] B by auto
  have "e h < l" using L(1,2) storedD(1)[OF s, of l h] c by (meson not_le_imp_less)
  moreover have "\<not> e h + 1 < l" using L(3)[of "e h + 1"] storedD(1)[OF s, of "e h + 1" h] B by auto
  ultimately show ?thesis by simp
qed

lemma remove_Ok:
  assumes "committee_remove h st = Some (Ok st')"
  obtains cur n c l where "cs_current_round st = Ok cur" "cs_current_height st = Ok n" "get_committee st h = Some c"
    "latest_loop st h (starting_round c) = Some l"
proof (cases "cs_current_round st")
  case (Inr cur)
  show thesis
  proof (cases "cs_current_height st")
    case h: (Inr n)
    show thesis using assms that[OF Inr h] by (cases "get_committee st h") (auto simp: committee_remove_def Inr h Let_def)
  qed (use assms Inr in \<open>auto simp: committee_remove_def\<close>)
qed (use assms in \<open>auto simp: committee_remove_def\<close>)

lemma remove_result:
  assumes s: "stored st e" and cur: "cs_current_round st = Ok cur" and n: "cs_current_height st = Ok n"
    and c: "get_committee st h = Some c" and l: "latest_loop st h (starting_round c) = Some (e h + 1)"
  shows "\<exists>st'. committee_remove h st = Some (Ok st') \<and>
    (\<forall>k. get_committee st' k = (if k = h then None else get_committee st k)) \<and>
    (\<forall>r. get_height_for_round st' r = (if get_height_for_round st r = Some h then None else get_height_for_round st r)) \<and>
    current_round_map st' = (if h \<noteq> n then Some cur else let x = next_current_loop st n (cur - 1) in if 0 < x then Some x else None)"
proof -
  let ?x = "next_current_loop st n (cur - 1)"
  have x: "cur \<noteq> ?x \<longleftrightarrow> \<not> (cur = 0 \<and> ?x = 0)" using next_current_spec[of st n "cur - 1"] by auto
  have m: "current_round_map st = Some cur" using cur by (auto simp: cs_current_round_def split: option.splits)
  define st' where "st' = \<lparr>current_round_map = (if h \<noteq> n then Some cur else if 0 < ?x then Some ?x else None),
    round_to_height_map = fold AList.delete [starting_round c..<e h + 1] (round_to_height_map st),
    committee_map = AList.delete h (committee_map st)\<rparr>"
  have e: "(if earliest_loop st h (starting_round c) \<noteq> starting_round c then earliest_loop st h (starting_round c) + 1
      else earliest_loop st h (starting_round c)) = starting_round c"
    unfolding earliest_loop_start[OF s c] by auto
  have "committee_remove h st = Some (Ok st')"
    using x m by (auto simp: committee_remove_def cur n c l e Let_def saturating_sub_def st'_def simp del: upt_Suc)
  moreover have "get_height_for_round st' r = (if get_height_for_round st r = Some h then None else get_height_for_round st r)" for r
    using storedD(1)[OF s, of r h] c by (auto simp: st'_def get_height_for_round_def map_of_fold_delete simp del: upt_Suc)
  ultimately show ?thesis by (intro exI[of _ st']) (auto simp: st'_def get_committee_def map_of_alist_delete Let_def)
qed

lemma remove_current:
  assumes s: "stored st e" and cur: "cs_current_round st = Ok cur" and n: "cs_current_height st = Ok n"
  defines "x \<equiv> next_current_loop st n (cur - 1)"
  shows "if 0 < x then \<exists>k. k \<noteq> n \<and> get_committee st k \<noteq> None \<and> x = e k \<and> (\<forall>h. h \<noteq> n \<and> get_committee st h \<noteq> None \<longrightarrow> h \<le> k)
    else \<forall>h. h \<noteq> n \<and> get_committee st h \<noteq> None \<longrightarrow> h = 0 \<and> e h = 0"
proof -
  obtain m d where m: "get_committee st m = Some d" "cur = e m" "\<And>h d. get_committee st h = Some d \<Longrightarrow> h \<le> m \<and> e h \<le> cur"
    "cs_current_height st = Ok m" "cs_current_committee st = Ok d" by (rule stored_current[OF s cur]) blast
  have mn: "m = n" using m(4) n by simp
  note B = storedD(2)[OF s]
  have X: "x \<le> cur - 1" "0 < x \<Longrightarrow> \<exists>h<n. get_height_for_round st x = Some h"
    "\<And>r h. x < r \<Longrightarrow> r \<le> cur - 1 \<Longrightarrow> get_height_for_round st r = Some h \<Longrightarrow> n \<le> h"
    using next_current_spec[of st n "cur - 1"] unfolding x_def by blast+
  have le: "e k \<le> x" if k: "get_committee st k = Some c" "k \<noteq> n" for k c
  proof (rule ccontr)
    assume "\<not> e k \<le> x"
    have "k < n" using m(3)[OF k(1)] k(2) mn by simp
    then have "e k < starting_round d" "starting_round d \<le> cur" using storedD(3)[OF s k(1) m(1)] B[OF m(1)] m(2) mn by simp_all
    then have "e k \<le> cur - 1" by linarith
    moreover have "get_height_for_round st (e k) = Some k" using storedD(1)[OF s, of "e k" k] B[OF k(1)] k(1) by blast
    ultimately show False using X(3)[of "e k" k] \<open>\<not> e k \<le> x\<close> \<open>k < n\<close> by simp
  qed
  show ?thesis
  proof (cases "0 < x")
    case True
    obtain k where k: "k < n" "get_height_for_round st x = Some k" using X(2)[OF True] by blast
    then obtain c where c: "get_committee st k = Some c" "x \<le> e k" using storedD(1)[OF s, of x k] by blast
    have xk: "x = e k" using le[OF c(1)] c(2) k(1) by simp
    have "h \<le> k" if h: "h \<noteq> n" "get_committee st h = Some c'" for h c'
    proof (rule ccontr)
      assume "\<not> h \<le> k"
      then show False using storedD(3)[OF s c(1) h(2)] B[OF h(2)] le[OF h(2,1)] xk by simp
    qed
    then show ?thesis using True k(1) c(1) xk by (auto intro!: exI[of _ k])
  next
    case False
    have "h = 0 \<and> e h = 0" if h: "h \<noteq> n" "get_committee st h = Some c" for h c
      using le[OF h(2,1)] B[OF h(2)] False by simp
    then show ?thesis using False by auto
  qed
qed

lemma remove_stored:
  assumes s: "stored st e" and r: "committee_remove h st = Some (Ok st')"
  shows "stored st' e"
proof -
  obtain cur n c l where R: "cs_current_round st = Ok cur" "cs_current_height st = Ok n" "get_committee st h = Some c"
    "latest_loop st h (starting_round c) = Some l" by (rule remove_Ok[OF r])
  have l: "latest_loop st h (starting_round c) = Some (e h + 1)" using R(4) latest_loop_interval[OF s R(3,4)] by simp
  have C: "get_committee st' k = (if k = h then None else get_committee st k)"
    and G: "get_height_for_round st' r = (if get_height_for_round st r = Some h then None else get_height_for_round st r)"
    and X: "current_round_map st' = (if h \<noteq> n then Some cur else let x = next_current_loop st n (cur - 1) in if 0 < x then Some x else None)"
    for k r using remove_result[OF s R(1-3) l] r by auto
  obtain m d where m: "get_committee st m = Some d" "cur = e m" "\<And>h d. get_committee st h = Some d \<Longrightarrow> h \<le> m \<and> e h \<le> cur"
    "cs_current_height st = Ok m" "cs_current_committee st = Ok d" by (rule stored_current[OF s R(1)]) blast
  show ?thesis
  proof (rule storedI)
    show "get_height_for_round st' r = Some k \<longleftrightarrow> (\<exists>x. get_committee st' k = Some x \<and> starting_round x \<le> r \<and> r \<le> e k)" for r k
      using storedD(1)[OF s, of r k] by (auto simp: C G)
    show "k \<le> starting_round x \<and> starting_round x \<le> e k \<and> e k \<le> u64_max \<and> (k = 0 \<longrightarrow> starting_round x = 0)"
      if "get_committee st' k = Some x" for k x
      using storedD(2)[OF s, of k x] that by (auto simp: C split: if_splits)
    show "e k < starting_round y \<and> (j = Suc k \<longrightarrow> starting_round y = Suc (e k))"
      if "get_committee st' k = Some x" "get_committee st' j = Some y" "k < j" for k j x y
      using storedD(3)[OF s, of k x j y] storedD(4)[OF s, of k x y] that by (auto simp: C split: if_splits)
    show "case current_round_map st' of
        Some cur \<Rightarrow> (\<exists>n. get_committee st' n \<noteq> None \<and> cur = e n \<and> (\<forall>h. get_committee st' h \<noteq> None \<longrightarrow> h \<le> n))
      | None \<Rightarrow> (\<forall>h. get_committee st' h \<noteq> None \<longrightarrow> h = 0 \<and> e h = 0)"
    proof (cases "h = n")
      case True
      then show ?thesis using remove_current[OF s R(1,2)] by (auto simp: X C Let_def split: if_splits)
    next
      case False
      then show ?thesis using m R(2) by (auto simp: X C intro!: exI[of _ n])
    qed
  qed
qed


section \<open>Reachable states\<close>

text \<open>Committees are inserted, and any of them may be removed.\<close>

inductive cs_reachable :: "committee_storage \<Rightarrow> bool" where
  new: "cs_reachable committee_storage_new"
| insert: "\<lbrakk>cs_reachable st; committee_insert h c st = Ok st'; starting_round c \<le> u64_max\<rbrakk> \<Longrightarrow> cs_reachable st'"
| remove: "\<lbrakk>cs_reachable st; committee_remove h st = Some (Ok st')\<rbrakk> \<Longrightarrow> cs_reachable st'"

lemma cs_reachable_stored: "cs_reachable st \<Longrightarrow> \<exists>e. stored st e"
proof (induction rule: cs_reachable.induct)
  case new
  have "stored committee_storage_new (\<lambda>_. 0)"
    by (simp add: stored_def committee_storage_new_def get_height_for_round_def get_committee_def)
  then show ?case by blast
next
  case (insert st h c st')
  then obtain e where s: "stored st e" by blast
  show ?case
  proof (cases "current_round_map st")
    case None
    then show ?thesis using insert_first[OF s _ insert.hyps(2)] by blast
  next
    case (Some cur)
    then have c: "cs_current_round st = Ok cur" by (simp add: cs_current_round_def)
    obtain n where "cs_current_height st = Ok n" by (rule stored_current[OF s c]) blast
    from insert_next[OF s c insert.hyps(2,3) this] show ?thesis by blast
  qed
next
  case (remove st h st')
  then show ?case using remove_stored by blast
qed



lemma current_stored:
  assumes "cs_reachable st" "cs_current_round st = Ok cur"
  obtains e n c where "stored st e" "get_committee st n = Some c" "cur = e n" "\<And>h d. get_committee st h = Some d \<Longrightarrow> h \<le> n \<and> e h \<le> cur"
    "cs_current_height st = Ok n" "cs_current_committee st = Ok c"
proof -
  obtain e where s: "stored st e" using cs_reachable_stored[OF assms(1)] by blast
  show thesis by (rule stored_current[OF s assms(2)]) (rule that[OF s])
qed

section \<open>A store with a hole\<close>

definition committee_from :: "u64 \<Rightarrow> committee" where
  "committee_from r = sample_committee\<lparr>starting_round := r\<rparr>"

text \<open>Committees from rounds \<open>0\<close>, \<open>4\<close> and \<open>6\<close>, of which the second has been removed.\<close>

definition genesis_store :: committee_storage where
  "genesis_store = \<lparr>current_round_map = Some 0, round_to_height_map = [(0, 0)], committee_map = [(0, committee_from 0)]\<rparr>"

definition two_store :: committee_storage where
  "two_store = \<lparr>current_round_map = Some 4, round_to_height_map = [(0, 0), (1, 0), (2, 0), (3, 0), (4, 1)],
     committee_map = [(0, committee_from 0), (1, committee_from 4)]\<rparr>"

definition three_store :: committee_storage where
  "three_store = \<lparr>current_round_map = Some 6, round_to_height_map = [(0, 0), (1, 0), (2, 0), (3, 0), (4, 1), (5, 1), (6, 2)],
     committee_map = [(0, committee_from 0), (1, committee_from 4), (2, committee_from 6)]\<rparr>"

definition hole_store :: committee_storage where
  "hole_store = \<lparr>current_round_map = Some 6, round_to_height_map = [(0, 0), (1, 0), (2, 0), (3, 0), (6, 2)],
     committee_map = [(0, committee_from 0), (2, committee_from 6)]\<rparr>"

lemmas store_defs = genesis_store_def two_store_def three_store_def hole_store_def

lemma sample_inserts:
  "committee_insert 0 (committee_from 0) committee_storage_new = Ok genesis_store"
  "committee_insert 1 (committee_from 4) genesis_store = Ok two_store"
  "committee_insert 2 (committee_from 6) two_store = Ok three_store"
  by (simp_all add: committee_insert_def cs_current_height_def cs_current_round_def get_height_for_round_def committee_storage_new_def
      committee_from_def store_defs upt_rec)

lemma sample_removal: "committee_remove 1 three_store = Some (Ok hole_store)"
proof -
  have "earliest_loop three_store 1 4 = 3"
    by (simp add: numeral_eq_Suc) (simp add: three_store_def get_height_for_round_def numeral_eq_Suc)
  moreover have "latest_loop three_store 1 4 = Some 6"
    by (simp add: latest_loop.simps three_store_def get_height_for_round_def saturating_add_def u64_max_def)
  ultimately show ?thesis
    by (simp add: committee_remove_def cs_current_height_def cs_current_round_def get_height_for_round_def get_committee_def
        committee_from_def three_store_def hole_store_def upt_rec)
qed

lemma hole_reachable: "cs_reachable hole_store" "cs_current_round hole_store = Ok 6" "cs_reachable genesis_store"
proof -
  have b: "starting_round (committee_from r) = r" for r by (simp add: committee_from_def)
  show g: "cs_reachable genesis_store" by (rule cs_reachable.insert[OF cs_reachable.new sample_inserts(1)]) (simp add: b)
  have "cs_reachable two_store" by (rule cs_reachable.insert[OF g sample_inserts(2)]) (simp add: b u64_max_def)
  then have "cs_reachable three_store" by (rule cs_reachable.insert[OF _ sample_inserts(3)]) (simp add: b u64_max_def)
  then show "cs_reachable hole_store" by (rule cs_reachable.remove[OF _ sample_removal])
  show "cs_current_round hole_store = Ok 6" by (simp add: cs_current_round_def hole_store_def)
qed

section \<open>Properties\<close>



text \<open>Removing the committee that was inserted last restores the committees and what is found for the earlier rounds, but not the
  current round: the rounds between the two committees stay assigned to the earlier one, and the current round is the one before the
  removed committee, so that no other committee can start in these rounds.\<close>

theorem remove_keeps_caught_up_rounds:
  assumes "cs_reachable st" "cs_current_round st = Ok cur" "committee_insert h c st = Ok st'" "2 \<le> starting_round c" "starting_round c < u64_max"
  shows "\<exists>st''. committee_remove h st' = Some (Ok st'') \<and> (\<forall>h. get_committee st'' h = get_committee st h) \<and>
    (\<forall>r\<le>cur. get_committee_for_round st'' r = get_committee_for_round st r) \<and>
    cs_current_round st'' = Ok (starting_round c - 1) \<and>
    (\<forall>r. cur < r \<and> r < starting_round c \<longrightarrow> get_committee_for_round st'' r = get_committee_for_round st cur) \<and>
    (\<forall>h' c'. starting_round c' < starting_round c \<longrightarrow> \<not> is_ok (committee_insert h' c' st''))"
proof -
  let ?R = "starting_round c"
  obtain e n d where s: "stored st e" "get_committee st n = Some d" "cur = e n"
    "\<And>h d. get_committee st h = Some d \<Longrightarrow> h \<le> n \<and> e h \<le> cur" "cs_current_height st = Ok n" "cs_current_committee st = Ok d"
    by (rule current_stored[OF assms(1,2)]) blast
  note I = insert_next_result[OF s(1) assms(2) s(5) assms(3)]
  let ?e = "e(n := ?R - 1, Suc n := ?R)"
  have s': "stored st' ?e" by (rule insert_next[OF s(1) assms(2,3) less_imp_le[OF assms(5)] s(5)])
  have cur: "cs_current_round st' = Ok ?R" "cs_current_height st' = Ok (Suc n)" "get_committee st' (Suc n) = Some c"
    by (simp_all add: cs_current_round_def cs_current_height_def I(4,5,6))
  have l: "latest_loop st' (Suc n) ?R = Some (?e (Suc n) + 1)"
    using assms(5) by (intro latest_loop_end[OF s' cur(3)]) auto
  obtain k where k: "?R - 1 = Suc k" using assms(4) by (cases "?R - 1") auto
  have hk: "get_height_for_round st' (Suc k) = Some n"
    using I(2) k s(2,3) storedD(1)[OF s(1), of "Suc k" n] storedD(2)[OF s(1,2)] by (cases "cur < Suc k") (auto simp: I(6))
  then have x: "next_current_loop st' (Suc n) (?R - 1) = ?R - 1" unfolding k by simp
  have none: "get_height_for_round st r \<noteq> Some (Suc n)" "get_committee st (Suc n) = None" for r
    using storedD(1)[OF s(1), of r "Suc n"] s(4)[of "Suc n"] by (cases "get_committee st (Suc n)"; auto)+
  obtain st2 where R: "committee_remove (Suc n) st' = Some (Ok st2)"
    "\<forall>k. get_committee st2 k = (if k = Suc n then None else get_committee st' k)"
    "\<forall>r. get_height_for_round st2 r = (if get_height_for_round st' r = Some (Suc n) then None else get_height_for_round st' r)"
    "current_round_map st2 = Some (?R - 1)"
    using remove_result[OF s' cur l] x k by (auto simp: Let_def)
  have "get_height_for_round st ?R = None" using storedD(1)[OF s(1), of ?R] s(4) I(2) by (cases "get_height_for_round st ?R") force+
  then have r: "committee_remove (Suc n) st' = Some (Ok st2)" "get_committee st2 k = get_committee st k"
    "get_height_for_round st2 r = (if cur < r \<and> r < ?R then Some n else get_height_for_round st r)"
    "current_round_map st2 = Some (?R - 1)" for k r
    using R none by (auto simp: I(5,6))
  have "get_height_for_round st cur = Some n" using storedD(1)[OF s(1), of cur n] storedD(2)[OF s(1,2)] s(2,3) by blast
  moreover have c2: "cs_current_round st2 = Ok (?R - 1)" by (simp add: cs_current_round_def r(4))
  moreover have "\<not> is_ok (committee_insert h' c' st2)" if "starting_round c' < ?R" for h' c'
    using that c2 by (auto simp: committee_insert_def Let_def result_simps)
  ultimately show ?thesis
    using r(1) I(1) ext[of "get_committee st2", OF r(2)] by (intro exI[of _ st2]) (auto simp: get_committee_for_round_def r(3))
qed

theorem remove_keeps_caught_up_rounds_witness:
  "\<exists>st. committee_remove 1 two_store = Some (Ok st) \<and> cs_current_round st = Ok 3"
proof -
  have "cs_current_round genesis_store = Ok 0" "starting_round (committee_from 4) = 4"
    by (simp_all add: cs_current_round_def genesis_store_def committee_from_def)
  with remove_keeps_caught_up_rounds[OF hole_reachable(3) _ sample_inserts(2), of 0] show ?thesis by (auto simp: u64_max_def)
qed

text \<open>A committee that starts in round 1 cannot be taken back: removing it leaves the store without a current round although the
  genesis committee is still there, and afterwards no committee can be inserted.\<close>

theorem round_one_removal_stuck:
  assumes "committee_insert 0 c0 committee_storage_new = Ok st" "committee_insert 1 c1 st = Ok st'" "starting_round c1 = 1"
  shows "\<exists>st''. committee_remove 1 st' = Some (Ok st'') \<and> get_committee st'' 0 = Some c0 \<and> get_height_for_round st'' 0 = Some 0 \<and>
    \<not> is_ok (cs_current_committee st'') \<and> (\<forall>h c. \<not> is_ok (committee_insert h c st''))"
proof -
  have st: "st = \<lparr>current_round_map = Some 0, round_to_height_map = [(0, 0)], committee_map = [(0, c0)]\<rparr>"
    using assms(1) by (auto simp: committee_insert_def cs_current_height_def cs_current_round_def committee_storage_new_def Let_def result_simps)
  have st': "st' = \<lparr>current_round_map = Some 1, round_to_height_map = [(0, 0), (1, 1)], committee_map = [(0, c0), (1, c1)]\<rparr>"
    using assms(2,3)
    by (auto simp: committee_insert_def cs_current_height_def cs_current_round_def get_height_for_round_def st Let_def result_simps)
  define st2 where "st2 = \<lparr>current_round_map = None, round_to_height_map = [(0 :: nat, 0 :: nat)], committee_map = [(0 :: nat, c0)]\<rparr>"
  have "latest_loop st' 1 1 = Some 2"
    by (simp add: latest_loop.simps st' get_height_for_round_def saturating_add_def u64_max_def)
  then have "committee_remove 1 st' = Some (Ok st2)"
    using assms(3) by (simp add: committee_remove_def cs_current_height_def cs_current_round_def get_height_for_round_def get_committee_def
        st' saturating_sub_def st2_def upt_rec)
  moreover have n: "cs_current_round st2 = bail ''Current round not found in committee storage''" by (simp add: cs_current_round_def st2_def)
  moreover have "\<not> is_ok (committee_insert h c st2)" for h c
    using n by (auto simp: committee_insert_def Let_def result_simps st2_def)
  moreover have "get_committee st2 0 = Some c0" "get_height_for_round st2 0 = Some 0"
    by (simp_all add: st2_def get_committee_def get_height_for_round_def)
  ultimately show ?thesis by (auto simp: cs_current_committee_def cs_current_height_def result_simps)
qed

theorem round_one_removal_stuck_witness:
  "\<exists>st' st''. committee_insert 1 (committee_from 1) genesis_store = Ok st' \<and>
     committee_remove 1 st' = Some (Ok st'') \<and> \<not> is_ok (cs_current_committee st'')"
proof -
  have "\<exists>st'. committee_insert 1 (committee_from 1) genesis_store = Ok st'"
    by (simp add: committee_insert_def cs_current_height_def cs_current_round_def get_height_for_round_def committee_from_def genesis_store_def)
  then obtain st' where st': "committee_insert 1 (committee_from 1) genesis_store = Ok st'" by blast
  have "starting_round (committee_from 1) = 1" by (simp add: committee_from_def)
  from round_one_removal_stuck[OF sample_inserts(1) st' this] st' show ?thesis by blast
qed

end
