(* ===== verification/Targets.thy ===== *)
theory Targets
  imports Network
begin

text \<open>
  Rewards and targets of a block, after \<open>snarkVM/ledger/block/src/helpers/target.rs\<close>.  A division by zero is a
  panic; products and sums without a saturating or checked operation wrap at their width.
\<close>

section \<open>Arithmetic\<close>

definition u64_mul :: "u64 \<Rightarrow> u64 \<Rightarrow> u64" where
  "u64_mul a b = a * b mod 2 ^ 64"

definition u128_mul :: "u128 \<Rightarrow> u128 \<Rightarrow> u128" where
  "u128_mul a b = a * b mod 2 ^ 128"

definition as_u128 :: "i64 \<Rightarrow> u128" where
  "as_u128 x = nat (x mod 2 ^ 128)"

definition u128_checked_shr :: "u128 \<Rightarrow> u32 \<Rightarrow> u128 option" where
  "u128_checked_shr x k = (if k < 128 then Some (x div 2 ^ k) else None)"

definition u128_checked_shl :: "u128 \<Rightarrow> u32 \<Rightarrow> u128 option" where
  "u128_checked_shl x k = (if k < 128 then Some (x * 2 ^ k mod 2 ^ 128) else None)"

definition u32_try_from :: "i128 \<Rightarrow> u32 result" where
  "u32_try_from x = (if 0 \<le> x \<and> x \<le> int u32_max then Ok (nat x) else bail ''out of range integral type conversion attempted'')"

definition i128_saturate :: "int \<Rightarrow> i128" where
  "i128_saturate x = max (- (2 ^ 127)) (min (2 ^ 127 - 1) x)"

text \<open>Division of signed integers rounds towards zero, a shift to the right towards minus infinity.\<close>

definition i128_div :: "i128 \<Rightarrow> i128 \<Rightarrow> i128" where
  "i128_div a b = sgn a * sgn b * (\<bar>a\<bar> div \<bar>b\<bar>)"

definition divide_by_zero :: "'a result" where
  "divide_by_zero = Err (Panic ''attempt to divide by zero'')"

section \<open>Rewards\<close>

definition MAX_COINBASE_REWARD :: u64 where
  "MAX_COINBASE_REWARD = 190258739"

definition V2_MAX_BLOCK_INTERVAL :: i64 where
  "V2_MAX_BLOCK_INTERVAL = 60"

definition V2_MIN_BLOCK_INTERVAL :: i64 where
  "V2_MIN_BLOCK_INTERVAL = 1"

definition SECONDS_IN_A_YEAR :: u32 where
  "SECONDS_IN_A_YEAR = 60 * 60 * 24 * 365"

definition timestamp_at_year :: "i64 \<Rightarrow> u32 \<Rightarrow> i64" where
  "timestamp_at_year genesis_timestamp num_years =
     i64_saturate (genesis_timestamp + int (saturating_mul u32_max SECONDS_IN_A_YEAR num_years))"

definition block_height_at_year :: "u16 \<Rightarrow> u32 \<Rightarrow> u32 result" where
  "block_height_at_year block_time num_years =
     (if block_time = 0 then divide_by_zero else Ok (SECONDS_IN_A_YEAR div block_time * num_years mod 2 ^ 32))"

definition block_reward_v1 :: "u64 \<Rightarrow> u16 \<Rightarrow> u64 \<Rightarrow> u64 \<Rightarrow> u64 result" where
  "block_reward_v1 total_supply block_time coinbase_reward transaction_fees =
     try_bind (block_height_at_year block_time 1) (\<lambda>block_height_at_year_1.
       let annual_reward = total_supply div 20 in
       if block_height_at_year_1 = 0 then divide_by_zero
       else Ok (u64_add (u64_add (annual_reward div block_height_at_year_1) (coinbase_reward div 3)) transaction_fees))"

definition block_reward_v2 :: "u64 \<Rightarrow> i64 \<Rightarrow> u64 \<Rightarrow> u64 \<Rightarrow> u64" where
  "block_reward_v2 total_supply time_since_last_block coinbase_reward transaction_fees =
     (let annual_reward = total_supply div 20;
          time_since_last_block = max V2_MIN_BLOCK_INTERVAL (min V2_MAX_BLOCK_INTERVAL time_since_last_block);
          block_reward = u64_mul annual_reward (nat time_since_last_block) div SECONDS_IN_A_YEAR
      in u64_add (u64_add block_reward (coinbase_reward div 3)) transaction_fees)"

definition block_reward :: "network \<Rightarrow> u32 \<Rightarrow> u64 \<Rightarrow> u16 \<Rightarrow> i64 \<Rightarrow> u64 \<Rightarrow> u64 \<Rightarrow> u64 result" where
  "block_reward n block_height total_supply block_time time_since_last_block coinbase_reward transaction_fees =
     (if block_height \<ge> MAX_SUPPLY_LIMIT_HEIGHT n then Ok 0
      else try_bind (CONSENSUS_VERSION n block_height) (\<lambda>consensus_version.
        if consensus_version = V1 then block_reward_v1 total_supply block_time coinbase_reward transaction_fees
        else Ok (block_reward_v2 total_supply time_since_last_block coinbase_reward transaction_fees)))"

definition puzzle_reward :: "u64 \<Rightarrow> u64" where
  "puzzle_reward coinbase_reward = saturating_mul u64_max coinbase_reward 2 div 3"

definition block_reward_at_height :: "u32 \<Rightarrow> u64 \<Rightarrow> u32 \<Rightarrow> u16 \<Rightarrow> u128 result" where
  "block_reward_at_height height starting_supply anchor_height block_time =
     try_bind (block_height_at_year block_time 10) (\<lambda>block_height_at_year_10.
       let num_remaining_blocks_to_year_10 = saturating_sub block_height_at_year_10 height;
           numerator = u128_mul (u128_mul (u128_mul 2 starting_supply) anchor_height) num_remaining_blocks_to_year_10;
           denominator = u128_mul block_height_at_year_10 (block_height_at_year_10 + 1)
       in if denominator = 0 then divide_by_zero else Ok (numerator div denominator))"

definition anchor_block_reward_at_height :: "u32 \<Rightarrow> u64 \<Rightarrow> u32 \<Rightarrow> u16 \<Rightarrow> u128 result" where
  "anchor_block_reward_at_height block_height starting_supply anchor_height block_time =
     try_bind (block_height_at_year block_time 9) (\<lambda>block_height_at_year_9.
     try_bind (block_reward_at_height block_height_at_year_9 starting_supply anchor_height block_time) (\<lambda>reward_at_year_9.
     try_bind (block_reward_at_height block_height starting_supply anchor_height block_time) (\<lambda>reward_at_block_height.
       Ok (max reward_at_block_height reward_at_year_9))))"

definition block_reward_at_timestamp :: "i64 \<Rightarrow> i64 \<Rightarrow> u64 \<Rightarrow> u16 \<Rightarrow> u128" where
  "block_reward_at_timestamp block_timestamp genesis_timestamp starting_supply anchor_time =
     (let timestamp_at_year_10 = as_u128 (timestamp_at_year genesis_timestamp 10);
          number_of_seconds_in_10_years = saturating_mul u128_max SECONDS_IN_A_YEAR 10;
          num_remaining_seconds_to_year_10 = saturating_sub timestamp_at_year_10 (as_u128 block_timestamp);
          numerator = u128_mul (u128_mul (u128_mul 2 starting_supply) (anchor_time div 10)) num_remaining_seconds_to_year_10;
          denominator = u128_mul number_of_seconds_in_10_years (number_of_seconds_in_10_years div 10 + 1)
      in numerator div denominator)"

definition anchor_block_reward_at_timestamp :: "i64 \<Rightarrow> i64 \<Rightarrow> u64 \<Rightarrow> u16 \<Rightarrow> u128" where
  "anchor_block_reward_at_timestamp block_timestamp genesis_timestamp starting_supply anchor_time =
     (let timestamp_at_year_9 = timestamp_at_year genesis_timestamp 9;
          reward_at_year_9 = block_reward_at_timestamp timestamp_at_year_9 genesis_timestamp starting_supply anchor_time;
          reward_at_block_timestamp = block_reward_at_timestamp block_timestamp genesis_timestamp starting_supply anchor_time
      in max reward_at_block_timestamp reward_at_year_9)"

text \<open>The share of the anchor reward that the proofs of a block earn.\<close>

definition pro_rata_reward :: "u128 \<Rightarrow> u128 \<Rightarrow> u64 \<Rightarrow> u64 \<Rightarrow> u64 result" where
  "pro_rata_reward anchor_block_reward combined_proof_target cumulative_proof_target coinbase_target =
     (let remaining_coinbase_target = saturating_sub coinbase_target cumulative_proof_target;
          remaining_proof_target = min combined_proof_target remaining_coinbase_target
      in if coinbase_target = 0 then divide_by_zero
         else let reward = saturating_mul u128_max anchor_block_reward remaining_proof_target div coinbase_target
              in ensure (reward \<le> MAX_COINBASE_REWARD) ''Coinbase reward exceeds maximum'' (Ok reward))"

definition coinbase_reward_v1 :: "u32 \<Rightarrow> u64 \<Rightarrow> u32 \<Rightarrow> u16 \<Rightarrow> u128 \<Rightarrow> u64 \<Rightarrow> u64 \<Rightarrow> u64 result" where
  "coinbase_reward_v1 block_height starting_supply anchor_height block_time combined_proof_target cumulative_proof_target coinbase_target =
     try_bind (anchor_block_reward_at_height block_height starting_supply anchor_height block_time) (\<lambda>anchor_block_reward.
       pro_rata_reward anchor_block_reward combined_proof_target cumulative_proof_target coinbase_target)"

definition coinbase_reward_v2 :: "i64 \<Rightarrow> i64 \<Rightarrow> u64 \<Rightarrow> u16 \<Rightarrow> u128 \<Rightarrow> u64 \<Rightarrow> u64 \<Rightarrow> u64 result" where
  "coinbase_reward_v2 block_timestamp genesis_timestamp starting_supply anchor_time combined_proof_target cumulative_proof_target coinbase_target =
     pro_rata_reward (anchor_block_reward_at_timestamp block_timestamp genesis_timestamp starting_supply anchor_time)
       combined_proof_target cumulative_proof_target coinbase_target"

definition coinbase_reward ::
    "network \<Rightarrow> u32 \<Rightarrow> i64 \<Rightarrow> i64 \<Rightarrow> u64 \<Rightarrow> u16 \<Rightarrow> u32 \<Rightarrow> u16 \<Rightarrow> u128 \<Rightarrow> u64 \<Rightarrow> u64 \<Rightarrow> u64 result" where
  "coinbase_reward n block_height block_timestamp genesis_timestamp starting_supply anchor_time anchor_height block_time
       combined_proof_target cumulative_proof_target coinbase_target =
     (if block_height \<ge> MAX_SUPPLY_LIMIT_HEIGHT n then Ok 0
      else try_bind (CONSENSUS_VERSION n block_height) (\<lambda>consensus_version.
        if consensus_version = V1
        then coinbase_reward_v1 block_height starting_supply anchor_height block_time combined_proof_target cumulative_proof_target coinbase_target
        else coinbase_reward_v2 block_timestamp genesis_timestamp starting_supply anchor_time combined_proof_target cumulative_proof_target coinbase_target))"

section \<open>Targets\<close>

definition RBITS :: u32 where
  "RBITS = 16"

definition RADIX :: u128 where
  "RADIX = 2 ^ RBITS"

definition fractional_multiplier :: "u128 \<Rightarrow> u128" where
  "fractional_multiplier fractional =
     RADIX + (195766423245049 * fractional + 971821376 * fractional ^ 2 + 5127 * fractional ^ 3 + 2 ^ (RBITS * 3 - 1)) div 2 ^ (RBITS * 3)"

definition shift_target :: "u128 \<Rightarrow> i128 \<Rightarrow> u128 result" where
  "shift_target candidate_target shifts =
     (if shifts < 0
      then try_bind (u32_try_from (- shifts)) (\<lambda>k.
        Ok (case u128_checked_shr candidate_target k of Some target \<Rightarrow> max target 1 | None \<Rightarrow> 1))
      else try_bind (u32_try_from shifts) (\<lambda>k.
        Ok (case u128_checked_shl candidate_target k of Some target \<Rightarrow> max target 1 | None \<Rightarrow> u64_max)))"

definition retarget :: "u64 \<Rightarrow> i64 \<Rightarrow> i64 \<Rightarrow> u16 \<Rightarrow> u32 \<Rightarrow> bool \<Rightarrow> u64 result" where
  "retarget previous_target previous_block_timestamp block_timestamp anchor_time half_life is_inverse =
     (let block_time_elapsed = max (i64_saturate (block_timestamp - previous_block_timestamp)) 1;
          drift = i64_saturate (block_time_elapsed - int anchor_time)
      in if drift = 0 then Ok previous_target
         else let drift = (if is_inverse then - drift else drift)
              in if half_life = 0 then divide_by_zero
                 else let exponent = i128_div (i128_saturate (int RADIX * drift)) (int half_life);
                          integral = exponent div 2 ^ RBITS;
                          fractional = nat (exponent - integral * 2 ^ RBITS)
                      in ensure (fractional < RADIX) ''Fractional part is not within the fixed point size''
                           (ensure (exponent = integral * int RADIX + int fractional) ''Exponent is decomposed incorrectly''
                             (try_bind (shift_target (saturating_mul u128_max previous_target (fractional_multiplier fractional))
                                          (integral - int RBITS)) (\<lambda>candidate_target.
                               let candidate_target = min candidate_target u64_max
                               in ensure (u128_checked_shr candidate_target 64 = Some 0) ''The target has overflowed''
                                    (Ok candidate_target)))))"

definition coinbase_target :: "u64 \<Rightarrow> i64 \<Rightarrow> i64 \<Rightarrow> u16 \<Rightarrow> u32 \<Rightarrow> u64 \<Rightarrow> u64 result" where
  "coinbase_target previous_target previous_block_timestamp block_timestamp anchor_time num_blocks_per_epoch genesis_target =
     (let half_life = saturating_mul u32_max (num_blocks_per_epoch div 2) anchor_time
      in try_bind (retarget previous_target previous_block_timestamp block_timestamp anchor_time half_life True) (\<lambda>candidate_target.
           Ok (max candidate_target genesis_target)))"

definition proof_target :: "u64 \<Rightarrow> u64 \<Rightarrow> u8 \<Rightarrow> u64" where
  "proof_target target genesis_proof_target max_solutions_as_power_of_two =
     (if max_solutions_as_power_of_two < 64 then saturating_add u64_max (target div 2 ^ max_solutions_as_power_of_two) 1
      else genesis_proof_target)"

definition to_next_targets ::
    "network \<Rightarrow> consensus_version \<Rightarrow> u128 \<Rightarrow> u128 \<Rightarrow> u64 \<Rightarrow> u128 \<Rightarrow> u64 \<Rightarrow> i64 \<Rightarrow> i64
      \<Rightarrow> (u64 \<times> u64 \<times> u128 \<times> u128 \<times> u64 \<times> i64) result" where
  "to_next_targets n consensus_version latest_cumulative_proof_target combined_proof_target latest_coinbase_target
       latest_cumulative_weight last_coinbase_target last_coinbase_timestamp next_timestamp =
     (let latest_coinbase_threshold = latest_coinbase_target div 2;
          next_cumulative_proof_target = saturating_add u128_max latest_cumulative_proof_target combined_proof_target;
          is_coinbase_threshold_reached = (next_cumulative_proof_target \<ge> latest_coinbase_threshold)
      in case consensus_config_value_by_version (ANCHOR_TIMES n) consensus_version of
           None \<Rightarrow> bail ''No anchor time defined for consensus version''
         | Some anchor_time \<Rightarrow>
             try_bind (coinbase_target last_coinbase_target last_coinbase_timestamp next_timestamp anchor_time
                         (NUM_BLOCKS_PER_EPOCH n) (GENESIS_COINBASE_TARGET n)) (\<lambda>next_coinbase_target.
               let next_proof_target = proof_target next_coinbase_target (GENESIS_PROOF_TARGET n) (MAX_SOLUTIONS_AS_POWER_OF_TWO n);
                   next_cumulative_proof_target = (if is_coinbase_threshold_reached then 0 else next_cumulative_proof_target);
                   next_cumulative_weight = saturating_add u128_max latest_cumulative_weight combined_proof_target
               in Ok (if is_coinbase_threshold_reached
                      then (next_coinbase_target, next_proof_target, next_cumulative_proof_target, next_cumulative_weight,
                            next_coinbase_target, next_timestamp)
                      else (next_coinbase_target, next_proof_target, next_cumulative_proof_target, next_cumulative_weight,
                            last_coinbase_target, last_coinbase_timestamp))))"

section \<open>The fixed-point power\<close>

lemma fractional_multiplier_mono: "f \<le> g \<Longrightarrow> fractional_multiplier f \<le> fractional_multiplier g"
  unfolding fractional_multiplier_def by (intro add_mono div_le_mono mult_left_mono power_mono) auto

lemma fractional_multiplier_bounds:
  assumes "f < RADIX"
  shows "RADIX \<le> fractional_multiplier f" "fractional_multiplier f < 2 * RADIX"
proof -
  show "RADIX \<le> fractional_multiplier f" by (simp add: fractional_multiplier_def)
  have "fractional_multiplier f \<le> fractional_multiplier 65535"
    by (rule fractional_multiplier_mono) (use assms in \<open>simp add: RADIX_def RBITS_def\<close>)
  also have "\<dots> < 2 * RADIX" by (simp add: fractional_multiplier_def RADIX_def RBITS_def)
  finally show "fractional_multiplier f < 2 * RADIX" .
qed

text \<open>\<open>t\<close> times two to the power of \<open>x / RADIX\<close>, for an exponent below one.\<close>

definition scaled :: "u64 \<Rightarrow> int \<Rightarrow> nat" where
  "scaled t x = t * fractional_multiplier (nat (x mod 65536)) div 2 ^ nat (16 - x div 65536)"

lemma frac_less: "nat (x mod 65536) < RADIX" for x :: int
  using pos_mod_bound[of 65536 x] by (simp add: RADIX_def RBITS_def nat_less_iff)

lemma div_power_mono: "a \<le> b \<Longrightarrow> k \<le> l \<Longrightarrow> a div 2 ^ l \<le> b div (2::nat) ^ k"
  by (meson div_le_mono div_le_mono2 le_trans power_increasing one_le_numeral zero_less_numeral zero_less_power)

lemma scaled_mono:
  assumes "x \<le> y" "y < 65536"
  shows "scaled t x \<le> scaled t y"
proof (cases "x div 65536 = y div 65536")
  case True
  then have "x mod 65536 \<le> y mod 65536" using assms(1) by (metis add_le_cancel_left mult_div_mod_eq)
  then show ?thesis unfolding scaled_def True
    by (intro div_le_mono mult_left_mono fractional_multiplier_mono nat_mono) auto
next
  case False
  let ?i = "x div 65536" and ?j = "y div 65536"
  have ij: "?i + 1 \<le> ?j" "?j \<le> 0" using False assms zdiv_mono1[OF assms(1), of 65536] by auto
  have e: "nat (16 - ?i) = Suc (nat (15 - ?i))" using ij by (simp add: nat_eq_iff Suc_nat_eq_nat_zadd1)
  have "t * fractional_multiplier (nat (x mod 65536)) div 2 ^ nat (16 - ?i) \<le> t * (2 * RADIX) div 2 ^ nat (16 - ?i)"
    using fractional_multiplier_bounds(2)[OF frac_less, of x] by (intro div_le_mono mult_left_mono) auto
  also have "\<dots> = t * RADIX div 2 ^ nat (15 - ?i)" unfolding e power_Suc using mult.left_commute[of t 2 RADIX] by simp
  also have "\<dots> \<le> t * fractional_multiplier (nat (y mod 65536)) div 2 ^ nat (16 - ?j)"
    using fractional_multiplier_bounds(1)[OF frac_less, of y] ij by (intro div_power_mono mult_left_mono) auto
  finally show ?thesis unfolding scaled_def .
qed

lemma scaled_le_double:
  assumes "x < 65536"
  shows "scaled t x \<le> 2 * t"
proof -
  have "scaled t x \<le> t * (2 * RADIX) div 2 ^ 16"
    unfolding scaled_def using fractional_multiplier_bounds(2)[OF frac_less, of x] assms
    by (intro div_power_mono mult_left_mono) auto
  also have "\<dots> = 2 * t" by (simp add: RADIX_def RBITS_def)
  finally show ?thesis .
qed

lemma scaled_0: "scaled t 0 = t"
  by (simp add: scaled_def fractional_multiplier_def RADIX_def RBITS_def)

lemma i128_div_pos: "0 < b \<Longrightarrow> i128_div a b = (if 0 \<le> a then a div b else - ((- a) div b))"
  by (auto simp: i128_div_def sgn_if)

lemma i128_div_mono:
  assumes "a \<le> a'" "0 < b"
  shows "i128_div a b \<le> i128_div a' b"
proof (cases "0 \<le> a \<or> a' < 0")
  case True
  have "- a' div b \<le> - a div b" "a div b \<le> a' div b" using assms by (auto intro: zdiv_mono1)
  then show ?thesis using assms True by (auto simp: i128_div_pos)
next
  case False
  have "0 \<le> - a div b" "0 \<le> a' div b" using assms False by (simp_all add: pos_imp_zdiv_nonneg_iff)
  then show ?thesis using assms(2) False by (simp add: i128_div_pos)
qed

section \<open>Retargeting\<close>

lemma shift_target_scaled:
  assumes "t \<le> u64_max" "f = nat (x mod 65536)" "x < 65536" "- 140737488355328 \<le> x"
  shows "shift_target (saturating_mul u128_max t (fractional_multiplier f)) (x div 65536 - 16) = Ok (max (scaled t x) 1)"
proof -
  let ?k = "nat (16 - x div 65536)"
  have i: "x div 65536 \<le> 0" "- 2147483648 \<le> x div 65536" using assms(3,4) by linarith+
  have k: "u32_try_from (- (x div 65536 - 16)) = Ok ?k" using i by (simp add: u32_try_from_def u32_max_def)
  have "fractional_multiplier f < 131072"
    using fractional_multiplier_bounds(2)[OF frac_less, of x] by (simp add: assms(2) RADIX_def RBITS_def)
  then have le: "t * fractional_multiplier f \<le> u64_max * 131072" using assms(1) by (intro mult_mono) auto
  then have m: "saturating_mul u128_max t (fractional_multiplier f) = t * fractional_multiplier f"
    by (intro saturating_mul_exact) (simp add: u64_max_def u128_max_def)
  have "(case u128_checked_shr (t * fractional_multiplier f) ?k of Some target \<Rightarrow> max target 1 | None \<Rightarrow> 1) = max (scaled t x) 1"
  proof (cases "?k < 128")
    case True
    then show ?thesis by (simp add: u128_checked_shr_def scaled_def assms(2))
  next
    case False
    have "t * fractional_multiplier f < 2 ^ 128" using le by (simp add: u64_max_def)
    also have "\<dots> \<le> 2 ^ ?k" using False by (intro power_increasing) auto
    finally have "scaled t x = 0" by (simp add: scaled_def assms(2))
    then show ?thesis using False by (simp add: u128_checked_shr_def)
  qed
  then show ?thesis using i(1) k m by (simp add: shift_target_def)
qed

lemma div_below: "a < c * b \<Longrightarrow> 0 < b \<Longrightarrow> a div b < c" for a b c :: int
proof (rule ccontr)
  assume a: "a < c * b" "0 < b" "\<not> a div b < c"
  then have "c * b \<le> a div b * b" by (intro mult_right_mono) auto
  also have "\<dots> \<le> a" using div_mult_mod_eq[of a b] pos_mod_sign[OF a(2), of a] by linarith
  finally show False using a(1) by simp
qed

lemma i128_div_below:
  assumes "a < c * b" "0 < b" "0 < c"
  shows "i128_div a b < c"
proof (cases "0 \<le> a")
  case True
  then show ?thesis using div_below[OF assms(1,2)] assms(2) by (simp add: i128_div_pos)
next
  case False
  have "0 \<le> - a div b" using False assms(2) by (simp add: pos_imp_zdiv_nonneg_iff)
  then show ?thesis using False assms(2,3) by (simp add: i128_div_pos)
qed

lemma retarget_value:
  fixes p b :: i64 and a :: u16
  defines "d \<equiv> max (b - p) 1 - int a"
  assumes "t \<le> u64_max" "a \<le> h" "0 < h" "a \<le> u16_max" "b - p < 2147483648"
  shows "retarget t p b a h True =
    Ok (if d = 0 then t else min (max (scaled t (i128_div (65536 * - d) (int h))) 1) u64_max)"
proof -
  have e: "max (i64_saturate (b - p)) 1 = max (b - p) 1" using assms(6) by (auto simp: i64_saturate_def i64_max_def i64_min_def)
  have d: "i64_saturate (max (b - p) 1 - int a) = d" "- int a < d" "d < 2147483648"
    using assms(5,6) by (auto simp: d_def i64_saturate_def i64_max_def i64_min_def u16_max_def)
  let ?x = "i128_div (65536 * - d) (int h)"
  have sat: "i128_saturate (int RADIX * - d) = 65536 * - d"
    using d(2,3) assms(5) by (simp add: i128_saturate_def RADIX_def RBITS_def u16_max_def)
  have "?x \<le> i128_div (65536 * (int h - 1)) (int h)" using d(2) assms(3,4) by (intro i128_div_mono) auto
  also have "\<dots> < 65536" using div_below[of "65536 * (int h - 1)" 65536 "int h"] assms(4) by (simp add: i128_div_pos)
  finally have x: "?x < 65536" .
  have "- 140737488355328 \<le> - (140737488355328 div int h)" using assms(4) div_le_dividend[of 140737488355328 h]
    by (simp add: zdiv_int[of 140737488355328 h, simplified, symmetric])
  also have "- (140737488355328 div int h) \<le> ?x"
    using i128_div_mono[of "- 140737488355328" "65536 * - d" "int h"] d(3) assms(4) by (simp add: i128_div_pos)
  finally have x': "- 140737488355328 \<le> ?x" .
  have f: "?x - ?x div 2 ^ RBITS * 2 ^ RBITS = ?x mod 65536" by (simp add: RBITS_def minus_div_mult_eq_mod)
  have dec: "?x = ?x div 2 ^ RBITS * int RADIX + int (nat (?x mod 65536))" by (simp add: RBITS_def RADIX_def)
  have sh: "?x div 2 ^ RBITS - int RBITS = ?x div 65536 - 16" by (simp add: RBITS_def)
  have shr: "u128_checked_shr (min c u64_max) 64 = Some 0" for c by (simp add: u128_checked_shr_def u64_max_def min_def)
  show ?thesis
    unfolding retarget_def Let_def e d(1) if_True sat f sh shift_target_scaled[OF assms(2) refl x x'] try_bind_simps shr
    using assms(4) dec frac_less[of ?x] by simp
qed

lemma half_life_ge:
  assumes "2 \<le> nb" "a \<le> u16_max"
  shows "a \<le> saturating_mul u32_max (nb div 2) a"
proof -
  have "1 * a \<le> nb div 2 * a" using assms(1) by (intro mult_right_mono) auto
  then show ?thesis using assms(2) by (simp add: saturating_mul_def u32_max_def u16_max_def)
qed

lemma coinbase_target_value:
  assumes "1 \<le> t" "t \<le> u64_max" "0 < a" "a \<le> u16_max" "2 \<le> nb" "b - p < 2147483648"
  shows "coinbase_target t p b a nb g = Ok (max (min (max (scaled t
    (i128_div (65536 * (int a - max (b - p) 1)) (int (saturating_mul u32_max (nb div 2) a)))) 1) u64_max) g)"
proof -
  let ?h = "saturating_mul u32_max (nb div 2) a"
  have h: "a \<le> ?h" by (rule half_life_ge[OF assms(5,4)])
  have "i128_div 0 (int ?h) = 0" by (simp add: i128_div_def)
  then show ?thesis
    using retarget_value[OF assms(2) h _ assms(4,6)] h assms(1-3) scaled_0[of t]
    by (auto simp: coinbase_target_def Let_def algebra_simps)
qed

lemma clamp_facts:
  fixes s s' t m g :: nat
  assumes "s' \<le> s" "s \<le> 2 * t" "1 \<le> t" "t \<le> m"
  shows "g \<le> max (min (max s' 1) m) g" "max (min (max s' 1) m) g \<le> max (min (max s 1) m) g"
    "max (min (max s 1) m) g \<le> max (2 * t) g" "max (min (max s 1) m) g \<le> max m g"
    "s = t \<Longrightarrow> max (min (max s 1) m) g = max t g"
  using assms by (auto simp: max_def min_def)

lemma coinbase_target_bounds:
  assumes "1 \<le> t" "t \<le> u64_max" "0 < a" "a \<le> u16_max" "2 \<le> nb" "b \<le> b'" "b' - p < 2147483648"
  shows "\<exists>c c'. coinbase_target t p b a nb g = Ok c \<and> coinbase_target t p b' a nb g = Ok c' \<and>
    g \<le> c' \<and> c' \<le> c \<and> c \<le> max (2 * t) g \<and> c \<le> max u64_max g \<and> (b - p = int a \<longrightarrow> c = max t g)"
proof -
  let ?h = "int (saturating_mul u32_max (nb div 2) a)"
  let ?x = "\<lambda>b. i128_div (65536 * (int a - max (b - p) 1)) ?h"
  have h: "int a \<le> ?h" "0 < ?h" using half_life_ge[OF assms(5,4)] assms(3) by simp_all
  have mono: "?x b' \<le> ?x b" using assms(6) h(2) by (intro i128_div_mono) auto
  have "int a - max (b - p) 1 < ?h" using h(1) by (simp add: max_def)
  then have "65536 * (int a - max (b - p) 1) < 65536 * ?h" by (intro mult_strict_left_mono) auto
  then have x: "?x b < 65536" using i128_div_below h(2) by simp
  note clamp_facts[OF scaled_mono[OF mono x] scaled_le_double[OF x] assms(1,2), of g]
  moreover have "scaled t (?x b) = t" if "b - p = int a" using that assms(3) scaled_0[of t] by (simp add: i128_div_def max_def)
  moreover have "b - p < 2147483648" using assms(6,7) by simp
  ultimately show ?thesis
    unfolding coinbase_target_value[OF assms(1-5) assms(7)] coinbase_target_value[OF assms(1-5) \<open>b - p < 2147483648\<close>]
    by blast
qed

lemma mainnet_anchor_time: "\<exists>a. consensus_config_value_by_version (ANCHOR_TIMES MainnetV0) v = Some a \<and> 0 < a \<and> a \<le> u16_max"
  by (cases v) (simp_all add: MainnetV0_def consensus_config_value_by_version_def binary_search_def u16_max_def
      less_consensus_version_def Let_def)

section \<open>Rewards paid\<close>

text \<open>What provers and stakers receive for the combined proof targets of successive blocks.\<close>

fun rewards_paid :: "u128 \<Rightarrow> u64 \<Rightarrow> u64 \<Rightarrow> u128 list \<Rightarrow> nat" where
  "rewards_paid anchor_reward target cumulative [] = 0"
| "rewards_paid anchor_reward target cumulative (combined # rest) =
     (case pro_rata_reward anchor_reward combined cumulative target of Inr r \<Rightarrow> puzzle_reward r + r div 3 | Inl _ \<Rightarrow> 0) +
     rewards_paid anchor_reward target (cumulative + combined) rest"

lemma div_add_le: "a div t + b div t \<le> (a + b) div (t :: nat)"
  by (simp add: div_add1_eq[of a b t])

lemma reward_split: "puzzle_reward r + r div 3 \<le> r"
proof -
  have "puzzle_reward r \<le> 2 * r div 3" unfolding puzzle_reward_def saturating_mul_def by (intro div_le_mono) auto
  moreover have "2 * r div 3 + r div 3 \<le> (2 * r + r) div 3" by (rule div_add_le)
  ultimately show ?thesis by simp
qed

lemma pro_rata_reward_le:
  "pro_rata_reward a p c t = Ok r \<Longrightarrow> r \<le> a * min p (t - c) div t \<and> r \<le> MAX_COINBASE_REWARD"
  by (auto simp: pro_rata_reward_def divide_by_zero_def Let_def saturating_mul_def saturating_sub_def ensure_def
      intro!: div_le_mono split: if_splits)

lemma rewards_paid_le: "rewards_paid a t c ps \<le> a * (t - c) div t"
proof (induction ps arbitrary: c)
  case (Cons p ps)
  let ?m = "min p (t - c)"
  have "(case pro_rata_reward a p c t of Inr r \<Rightarrow> puzzle_reward r + r div 3 | Inl _ \<Rightarrow> 0) \<le> a * ?m div t"
  proof (cases "pro_rata_reward a p c t")
    case (Inr r)
    then show ?thesis using pro_rata_reward_le[OF Inr] le_trans[OF reward_split[of r]] by simp
  qed simp
  then have "rewards_paid a t c (p # ps) \<le> a * ?m div t + a * (t - (c + p)) div t" using Cons.IH[of "c + p"] by simp
  also have "\<dots> \<le> (a * ?m + a * (t - (c + p))) div t" by (rule div_add_le)
  also have "?m + (t - (c + p)) = t - c" by linarith
  then have "a * ?m + a * (t - (c + p)) = a * (t - c)" by (metis distrib_left)
  finally show ?case .
qed simp

text \<open>The anchor reward falls until year nine and stays there.\<close>

lemma block_reward_at_timestamp_antitone:
  assumes "0 \<le> g" "g \<le> ts" "ts \<le> ts'" "ts' \<le> i64_max" "supply \<le> u64_max" "a \<le> u16_max"
  shows "block_reward_at_timestamp ts' g supply a \<le> block_reward_at_timestamp ts g supply a"
proof -
  let ?y = "as_u128 (timestamp_at_year g 10)"
  have u: "as_u128 x = nat x" if "0 \<le> x" "x \<le> i64_max" for x using that by (simp add: as_u128_def i64_max_def)
  have y: "?y \<le> nat g + 315360000"
    using assms(1) by (simp add: timestamp_at_year_def saturating_mul_def SECONDS_IN_A_YEAR_def u32_max_def i64_saturate_def
        i64_max_def i64_min_def as_u128_def)
  have e: "u128_mul (u128_mul (u128_mul 2 supply) (a div 10)) r = 2 * supply * (a div 10) * r" if "r \<le> 315360000" for r
  proof -
    have "2 * supply * (a div 10) * r \<le> 2 * u64_max * u16_max * 315360000" using assms(5,6) that by (intro mult_mono) auto
    then have "2 * supply * (a div 10) * r < 2 ^ 128" by (simp add: u64_max_def u16_max_def)
    moreover have "2 * supply * (a div 10) \<le> 2 * u64_max * u16_max" using assms(5,6) by (intro mult_mono) auto
    then have "2 * supply * (a div 10) < 2 ^ 128" by (simp add: u64_max_def u16_max_def)
    moreover have "2 * supply < 2 ^ 128" using assms(5) by (simp add: u64_max_def)
    ultimately show ?thesis by (simp add: u128_mul_def)
  qed
  have "?y - as_u128 ts' \<le> ?y - as_u128 ts" "?y - as_u128 ts \<le> 315360000"
    using u[of ts] u[of ts'] assms(1-4) y by (auto simp: nat_mono diff_le_mono2)
  then show ?thesis unfolding block_reward_at_timestamp_def Let_def saturating_sub_def
    using e[of "?y - as_u128 ts'"] e[of "?y - as_u128 ts"] by (auto intro!: div_le_mono)
qed

section \<open>Properties\<close>

text \<open>C38. On mainnet the targets of the next block can always be computed while blocks are less than 68 years
  apart.  The coinbase target never falls below the one of genesis, at most doubles, and is not higher for
  a later block; the proof target is a quarter of it.  Once half of the latest coinbase target is proved, the
  cumulative target restarts and the new target and timestamp become the reference, and otherwise they are kept.\<close>

theorem next_targets:
  assumes "1 \<le> last_target" "last_target \<le> u64_max" "next \<le> next'" "next' - last_timestamp < 2 ^ 31"
  shows "\<exists>c c' rest.
    to_next_targets MainnetV0 v cumulative combined latest_target weight last_target last_timestamp next =
      Ok (c, c div 4 + 1, (if latest_target div 2 \<le> saturating_add u128_max cumulative combined then 0
                           else saturating_add u128_max cumulative combined), saturating_add u128_max weight combined,
          if latest_target div 2 \<le> saturating_add u128_max cumulative combined then (c, next) else (last_target, last_timestamp)) \<and>
    to_next_targets MainnetV0 v cumulative combined latest_target weight last_target last_timestamp next' = Ok (c', rest) \<and>
    2 ^ 29 - 1 \<le> c' \<and> c' \<le> c \<and> c \<le> max (2 * last_target) (2 ^ 29 - 1) \<and> c \<le> u64_max"
proof -
  obtain a where a: "consensus_config_value_by_version (ANCHOR_TIMES MainnetV0) v = Some a" "0 < a" "a \<le> u16_max"
    using mainnet_anchor_time by blast
  have n: "NUM_BLOCKS_PER_EPOCH MainnetV0 = 360" "GENESIS_COINBASE_TARGET MainnetV0 = 2 ^ 29 - 1" "MAX_SOLUTIONS_AS_POWER_OF_TWO MainnetV0 = 2"
    by (simp_all add: MainnetV0_def)
  obtain c c' where c: "coinbase_target last_target last_timestamp next a 360 (2 ^ 29 - 1) = Ok c"
    "coinbase_target last_target last_timestamp next' a 360 (2 ^ 29 - 1) = Ok c'"
    "2 ^ 29 - 1 \<le> c'" "c' \<le> c" "c \<le> max (2 * last_target) (2 ^ 29 - 1)" "c \<le> max u64_max (2 ^ 29 - 1)"
    using coinbase_target_bounds[OF assms(1,2) a(2,3) _ assms(3), of 360 last_timestamp "2 ^ 29 - 1"] assms(4) by auto
  have le: "c \<le> u64_max" using c(6) by (simp add: u64_max_def)
  then have "proof_target c g 2 = c div 4 + 1" for g by (simp add: proof_target_def saturating_add_def u64_max_def)
  then show ?thesis using c le unfolding to_next_targets_def Let_def a(1) n option.case by auto
qed

theorem next_targets_witness:
  "\<exists>c c' rest rest'.
     to_next_targets MainnetV0 V1 0 0 (2 ^ 29 - 1) 0 (2 ^ 29 - 1) 100 125 = Ok (c, rest) \<and>
     to_next_targets MainnetV0 V1 0 0 (2 ^ 29 - 1) 0 (2 ^ 29 - 1) 100 1000 = Ok (c', rest') \<and> c' \<le> c \<and> c \<le> 2 * (2 ^ 29 - 1)"
  using next_targets[of "2 ^ 29 - 1" 125 1000 100 V1 0 0 "2 ^ 29 - 1" 0] by (fastforce simp: u64_max_def)

text \<open>Rewards are not overpaid.  While the coinbase target is worked off, the shares of the anchor reward
  that provers and stakers receive for the proofs of successive blocks never add up to more than the anchor
  reward.\<close>

theorem coinbase_not_overpaid: "rewards_paid anchor_reward target 0 combined \<le> anchor_reward"
  using rewards_paid_le[of anchor_reward target 0 combined] by (rule le_trans) (cases "target = 0", simp_all)

end
