(* ===== verification/Staking.thy ===== *)
theory Staking
  imports Committee_Store Targets
begin

text \<open>
  What happens to the stakes when a block pays its rewards, after \<open>snarkVM/synthesizer/src/vm/helpers/rewards.rs\<close>, \<open>committee.rs\<close> and the
  ratifications at the end of a block in \<open>snarkVM/synthesizer/src/vm/finalize.rs\<close>.  The mappings of the program
  \<open>credits.aleo\<close> are association lists; the difficulty that a solution reached is a parameter.
\<close>

section \<open>Rewards\<close>

definition MIN_DELEGATOR_STAKE :: u64 where
  "MIN_DELEGATOR_STAKE = 10000000000"

text \<open>Stakers with the validator they are bonded to and their stake.\<close>

type_synonym stakers = "(address, address \<times> u64) imap"

definition u64_try_from :: "u128 \<Rightarrow> string \<Rightarrow> u64 result" where
  "u64_try_from x m = (if x \<le> u64_max then Ok x else Err (Panic m))"

definition valid_validators :: "committee \<Rightarrow> (address, u64 \<times> u8) imap" where
  "valid_validators c =
     map (\<lambda>(validator, stake, _, commission_rate). (validator, stake, commission_rate))
       (filter (\<lambda>(_, stake, _, commission_rate). \<not> commission_rate > 100 \<and> \<not> stake > total_stake c div 4) (members c))"

definition staker_reward :: "committee \<Rightarrow> u64 \<Rightarrow> address \<times> address \<times> u64 \<Rightarrow> (address \<times> address \<times> u64) result" where
  "staker_reward c reward entry =
     (case entry of (staker, validator, stake) \<Rightarrow>
      case map_of (valid_validators c) validator of
        None \<Rightarrow> Ok entry
      | Some (validator_stake, commission_rate) \<Rightarrow>
          if stake < MIN_DELEGATOR_STAKE \<and> staker \<noteq> validator then Ok entry
          else
            let quotient = saturating_mul u128_max reward stake div total_stake c
            in if quotient > MAX_COINBASE_REWARD then Ok entry
               else try_bind (u64_try_from quotient ''Staking reward is too large'') (\<lambda>staking_reward.
                 try_bind
                   (if staker = validator
                    then let total_delegated_stake = saturating_sub validator_stake stake;
                             delegated = saturating_mul u128_max reward total_delegated_stake div total_stake c
                         in try_bind (u64_try_from (saturating_mul u128_max delegated commission_rate div 100) ''Commission is too large'')
                              (\<lambda>commission. Ok (saturating_add u64_max staking_reward commission))
                    else try_bind (u64_try_from (saturating_mul u128_max quotient commission_rate div 100) ''Commission is too large'')
                           (\<lambda>commission. Ok (saturating_sub staking_reward commission)))
                   (\<lambda>gain. Ok (staker, validator, saturating_add u64_max stake gain))))"

definition staking_rewards :: "stakers \<Rightarrow> committee \<Rightarrow> u64 \<Rightarrow> stakers result" where
  "staking_rewards ss c reward =
     (if ss = [] \<or> total_stake c = 0 \<or> reward = 0 then Ok ss
      else try_fold (\<lambda>entry acc. try_bind (staker_reward c reward entry) (\<lambda>entry. Ok (acc @ [entry]))) ss [])"

definition prover_reward :: "u64 \<Rightarrow> u128 \<Rightarrow> address \<times> u64 \<Rightarrow> (address, u64) imap \<Rightarrow> (address, u64) imap result" where
  "prover_reward reward combined entry rewards =
     (case entry of (a, target) \<Rightarrow>
      let quotient = saturating_mul u128_max reward target div max combined 1
      in if quotient > MAX_COINBASE_REWARD then Ok rewards
         else try_bind (u64_try_from quotient ''Prover reward is too large'') (\<lambda>gain.
           Ok (if gain > 0 then entry_update 0 a (\<lambda>x. saturating_add u64_max x gain) rewards else rewards)))"

definition proving_rewards :: "(address \<times> u64) list \<Rightarrow> u64 \<Rightarrow> (address, u64) imap result" where
  "proving_rewards proof_targets reward =
     (let combined = sum_list (map snd proof_targets)
      in if proof_targets = [] \<or> combined = 0 \<or> reward = 0 then Ok []
         else try_fold (prover_reward reward combined) proof_targets [])"

section \<open>Committee and stakers\<close>

definition add_stake :: "address \<Rightarrow> u64 \<Rightarrow> (address, u64) imap \<Rightarrow> (address, u64) imap" where
  "add_stake v m = entry_update 0 v (\<lambda>x. saturating_add u64_max x m)"

definition validator_map :: "committee \<Rightarrow> stakers \<Rightarrow> (address, u64) imap" where
  "validator_map c ss = fold (\<lambda>(_, v, m). if contains_key (members c) v then add_stake v m else id) ss []"

definition ensure_stakers_matches :: "committee \<Rightarrow> stakers \<Rightarrow> unit result" where
  "ensure_stakers_matches c ss =
     (let validators = validator_map c ss;
          total_microcredits = fold (\<lambda>m acc. saturating_add u64_max acc m) (vals validators) 0
      in ensure (length (members c) = length validators) ''Committee and validator map length do not match''
         (ensure (total_stake c = total_microcredits) ''Committee and validator map total stake do not match''
         (try_fold (\<lambda>(v, m, _, _) _.
              case map_of validators v of
                None \<Rightarrow> bail ''A validator is missing in finalize storage''
              | Some m' \<Rightarrow> ensure (m = m') ''Committee contains an incorrect 'microcredits' amount from stakers'' (Ok ()))
            (members c) ())))"

definition to_next_delegated :: "stakers \<Rightarrow> (address, u64) imap" where
  "to_next_delegated ss = fold (\<lambda>(_, v, m). add_stake v m) ss []"

definition to_next_committee :: "network \<Rightarrow> crypto \<Rightarrow> committee \<Rightarrow> u64 \<Rightarrow> (address, u64) imap \<Rightarrow> committee result" where
  "to_next_committee n cr current next_round next_delegated =
     committee_new n cr next_round
       (List.map_filter (\<lambda>(v, m). map_option (\<lambda>(_, is_open, commission). (v, m, is_open, commission)) (map_of (members current) v)) next_delegated)"

section \<open>The mappings\<close>

text \<open>Values that are no plaintext are only told apart from it; they carry their bytes.\<close>

datatype literal =
    LAddress address | LBoolean bool | LField field | LGroup group
  | LI8 int | LI16 int | LI32 int | LI64 i64 | LI128 i128
  | LU8 u8 | LU16 u16 | LU32 u32 | LU64 u64 | LU128 u128
  | LScalar scalar | LSignature signature | LString string | LIdentifier string
datatype plaintext = PLiteral literal | PStruct "(string \<times> plaintext) list" | PArray "plaintext list"
datatype program_value =
    VPlaintext plaintext | VRecord "byte list" | VFuture "byte list" | VDynamicRecord "byte list" | VDynamicFuture "byte list"

type_synonym mapping_entries = "(plaintext \<times> program_value) list"

definition committee_state :: "program_value \<Rightarrow> (bool \<times> u8) result" where
  "committee_state v =
     (case v of
        VPlaintext (PStruct state) \<Rightarrow>
          (case map_of state ''is_open'' of
             Some (PLiteral (LBoolean is_open)) \<Rightarrow>
               (case map_of state ''commission'' of
                  Some (PLiteral (LU8 commission)) \<Rightarrow> Ok (is_open, commission)
                | _ \<Rightarrow> bail ''Invalid committee state (missing commission)'')
           | _ \<Rightarrow> bail ''Invalid committee state (missing boolean)'')
      | _ \<Rightarrow> bail ''Invalid committee value (missing struct)'')"

fun delegated_microcredits :: "address \<Rightarrow> mapping_entries \<Rightarrow> u64 option" where
  "delegated_microcredits a [] = None"
| "delegated_microcredits a ((k, v) # m) =
     (if k = PLiteral (LAddress a)
      then (case v of VPlaintext (PLiteral (LU64 microcredits)) \<Rightarrow> Some microcredits | _ \<Rightarrow> delegated_microcredits a m)
      else delegated_microcredits a m)"

definition committee_member :: "mapping_entries \<Rightarrow> plaintext \<times> program_value \<Rightarrow> (address \<times> member_state) result" where
  "committee_member delegated_map entry =
     (case entry of
        (PLiteral (LAddress a), v) \<Rightarrow>
          try_bind (committee_state v) (\<lambda>(is_open, commission).
            case delegated_microcredits a delegated_map of
              None \<Rightarrow> bail ''Missing microcredits for committee member''
            | Some microcredits \<Rightarrow> Ok (a, microcredits, is_open, commission))
      | _ \<Rightarrow> bail ''Invalid committee key (missing address)'')"

definition collect_map :: "('e \<Rightarrow> ('k \<times> 'v) result) \<Rightarrow> 'e list \<Rightarrow> ('k, 'v) imap result" where
  "collect_map convert es = try_fold (\<lambda>e acc. try_bind (convert e) (\<lambda>(k, v). Ok (AList.update k v acc))) es []"

definition committee_and_delegated_maps_into_committee ::
    "network \<Rightarrow> crypto \<Rightarrow> u64 \<Rightarrow> mapping_entries \<Rightarrow> mapping_entries \<Rightarrow> committee result" where
  "committee_and_delegated_maps_into_committee n cr r committee_entries delegated_entries =
     try_bind (collect_map (committee_member delegated_entries) committee_entries) (committee_new n cr r)"

definition bonded_entry :: "plaintext \<times> program_value \<Rightarrow> (address \<times> address \<times> u64) result" where
  "bonded_entry entry =
     (case entry of
        (PLiteral (LAddress a), v) \<Rightarrow>
          (case v of
             VPlaintext (PStruct state) \<Rightarrow>
               (case map_of state ''validator'' of
                  Some (PLiteral (LAddress validator)) \<Rightarrow>
                    (case map_of state ''microcredits'' of
                       Some (PLiteral (LU64 microcredits)) \<Rightarrow> Ok (a, validator, microcredits)
                     | _ \<Rightarrow> bail ''Invalid bonded state (missing microcredits)'')
                | _ \<Rightarrow> bail ''Invalid bonded state (missing validator)'')
           | _ \<Rightarrow> bail ''Invalid bonded value (missing struct)'')
      | _ \<Rightarrow> bail ''Invalid bonded key (missing staker)'')"

definition bonded_map_into_stakers :: "mapping_entries \<Rightarrow> stakers result" where
  "bonded_map_into_stakers = collect_map bonded_entry"

definition to_next_committee_bonded_delegated_map ::
    "committee \<Rightarrow> stakers \<Rightarrow> (address, u64) imap \<Rightarrow> mapping_entries \<times> mapping_entries \<times> mapping_entries" where
  "to_next_committee_bonded_delegated_map c ss ds =
     (map (\<lambda>(v, _, is_open, commission). (PLiteral (LAddress v),
          VPlaintext (PStruct [(''is_open'', PLiteral (LBoolean is_open)), (''commission'', PLiteral (LU8 commission))]))) (members c),
      map (\<lambda>(s, v, m). (PLiteral (LAddress s),
          VPlaintext (PStruct [(''validator'', PLiteral (LAddress v)), (''microcredits'', PLiteral (LU64 m))]))) ss,
      map (\<lambda>(v, m). (PLiteral (LAddress v), VPlaintext (PLiteral (LU64 m)))) ds)"

section \<open>Ratifications\<close>

record credits_store =
  committee_mapping :: mapping_entries
  delegated_mapping :: mapping_entries
  bonded_mapping :: mapping_entries
  account_mapping :: mapping_entries
  committee_store :: committee_storage

datatype ratify =
    RatifyGenesis committee "(address, u64) imap" "(address, address \<times> address \<times> u64) imap"
  | RatifyBlockReward u64
  | RatifyPuzzleReward u64

text \<open>The committee and the stakers that the mappings hold.\<close>

definition load_stakers :: "network \<Rightarrow> crypto \<Rightarrow> u64 \<Rightarrow> credits_store \<Rightarrow> (committee \<times> stakers) result" where
  "load_stakers n cr r st =
     try_bind (committee_and_delegated_maps_into_committee n cr r (committee_mapping st) (delegated_mapping st)) (\<lambda>c.
     try_bind (bonded_map_into_stakers (bonded_mapping st)) (\<lambda>ss.
     try_bind (ensure_stakers_matches c ss) (\<lambda>_. Ok (c, ss))))"

definition ratify_block_reward ::
    "network \<Rightarrow> crypto \<Rightarrow> bool \<Rightarrow> u32 \<Rightarrow> u64 \<Rightarrow> u64 \<Rightarrow> credits_store \<Rightarrow> credits_store result" where
  "ratify_block_reward n cr is_finalize height r reward st =
     try_bind (load_stakers n cr r st) (\<lambda>(current_committee, current_stakers).
     try_bind (staking_rewards current_stakers current_committee reward) (\<lambda>next_stakers.
     let next_delegated = to_next_delegated next_stakers in
     try_bind (to_next_committee n cr current_committee r next_delegated) (\<lambda>next_committee.
     case to_next_committee_bonded_delegated_map next_committee next_stakers next_delegated of
       (committee_entries, bonded_entries, delegated_entries) \<Rightarrow>
         try_bind (if is_finalize then committee_insert height next_committee (committee_store st) else Ok (committee_store st)) (\<lambda>cs.
         Ok (st\<lparr>committee_mapping := committee_entries, delegated_mapping := delegated_entries, bonded_mapping := bonded_entries,
               committee_store := cs\<rparr>)))))"

definition pay_prover :: "address \<times> u64 \<Rightarrow> mapping_entries \<Rightarrow> mapping_entries result" where
  "pay_prover entry accounts =
     (case entry of (a, amount) \<Rightarrow>
        let key = PLiteral (LAddress a) in
        case map_of accounts key of
          Some (VPlaintext (PLiteral (LU64 balance))) \<Rightarrow>
            Ok (AList.update key (VPlaintext (PLiteral (LU64 (saturating_add u64_max balance amount)))) accounts)
        | None \<Rightarrow> Ok (AList.update key (VPlaintext (PLiteral (LU64 amount))) accounts)
        | _ \<Rightarrow> bail ''Critical bug in post-ratify puzzle reward- Invalid amount'')"

definition ratify_puzzle_reward ::
    "('w \<Rightarrow> address) \<Rightarrow> ('w \<Rightarrow> u64 result) \<Rightarrow> 'w list \<Rightarrow> u64 \<Rightarrow> credits_store \<Rightarrow> credits_store result" where
  "ratify_puzzle_reward prover get_proof_target solutions reward st =
     try_bind (try_fold (\<lambda>w acc. try_bind (get_proof_target w) (\<lambda>t. Ok (acc @ [(prover w, t)]))) solutions []) (\<lambda>proof_targets.
     try_bind (proving_rewards proof_targets reward) (\<lambda>rewards.
     try_bind (try_fold pay_prover rewards (account_mapping st)) (\<lambda>accounts.
     Ok (st\<lparr>account_mapping := accounts\<rparr>))))"

text \<open>The two flags say which reward was ratified before.\<close>

fun atomic_post_ratify ::
    "network \<Rightarrow> crypto \<Rightarrow> bool \<Rightarrow> u32 \<Rightarrow> u64 \<Rightarrow> ('w \<Rightarrow> address) \<Rightarrow> ('w \<Rightarrow> u64 result) \<Rightarrow> 'w list option
      \<Rightarrow> bool \<Rightarrow> bool \<Rightarrow> ratify list \<Rightarrow> credits_store \<Rightarrow> credits_store result" where
  "atomic_post_ratify n cr fin height r prover tgt solutions b p [] st = Ok st"
| "atomic_post_ratify n cr fin height r prover tgt solutions b p (RatifyGenesis _ _ _ # rs) st =
     atomic_post_ratify n cr fin height r prover tgt solutions b p rs st"
| "atomic_post_ratify n cr fin height r prover tgt solutions b p (RatifyBlockReward reward # rs) st =
     ensure (\<not> b) ''Ratify::BlockReward(..) has already been ratified''
     (try_bind (ratify_block_reward n cr fin height r reward st) (atomic_post_ratify n cr fin height r prover tgt solutions True p rs))"
| "atomic_post_ratify n cr fin height r prover tgt solutions b p (RatifyPuzzleReward reward # rs) st =
     ensure (\<not> p) ''Ratify::PuzzleReward(..) has already been ratified''
     (if reward = 0 then atomic_post_ratify n cr fin height r prover tgt solutions b p rs st
      else case solutions of
             None \<Rightarrow> atomic_post_ratify n cr fin height r prover tgt solutions b p rs st
           | Some ws \<Rightarrow>
               try_bind (ratify_puzzle_reward prover tgt ws reward st) (atomic_post_ratify n cr fin height r prover tgt solutions b True rs))"

end
