(* ===== verification/Ratified.thy ===== *)
theory Ratified
  imports Staking
begin

text \<open>
  What the ratifications at the end of a block guarantee (\<open>Staking\<close>): rewards stay within what the block pays, up to the rounding of
  commissions, and the mappings still describe a committee and its stakers.
\<close>

section \<open>Sums\<close>

lemma sum_div_le: "sum_list (map (\<lambda>d. b * d div t) ds) \<le> b * sum_list ds div (t :: nat)"
proof (induction ds)
  case (Cons d ds)
  have "b * d div t + b * sum_list ds div t \<le> (b * d + b * sum_list ds) div t"
    using div_add1_eq[of "b * d" "b * sum_list ds" t] by linarith
  then show ?case using Cons by (simp add: distrib_left)
qed simp

lemma group_sum:
  assumes "distinct vs" "\<And>x. x \<in> set xs \<Longrightarrow> p x \<notin> set vs \<Longrightarrow> g x = (0 :: nat)"
  shows "sum_list (map g xs) = (\<Sum>v\<leftarrow>vs. sum_list (map g (filter (\<lambda>x. p x = v) xs)))"
  using assms(2)
proof (induction xs)
  case (Cons x xs)
  have "(\<Sum>v\<leftarrow>vs. sum_list (map g (filter (\<lambda>y. p y = v) (x # xs)))) =
      (\<Sum>v\<leftarrow>vs. (if p x = v then g x else 0) + sum_list (map g (filter (\<lambda>y. p y = v) xs)))"
    by (intro arg_cong[where f = sum_list] map_cong) auto
  also have "\<dots> = (\<Sum>v\<leftarrow>vs. if p x = v then g x else 0) + (\<Sum>v\<leftarrow>vs. sum_list (map g (filter (\<lambda>y. p y = v) xs)))"
    by (rule sum_list_addf)
  also have "(\<Sum>v\<leftarrow>vs. if p x = v then g x else 0) = g x"
    using assms(1) Cons.prems[of x] by (auto simp: sum_list_distinct_conv_sum_set)
  finally show ?case using Cons by simp
qed (simp add: sum_list_0)

lemma group_length:
  assumes "distinct vs"
  shows "(\<Sum>v\<leftarrow>vs. length (filter (\<lambda>x. p x = v) xs)) \<le> length xs"
proof -
  have one: "sum_list (map (\<lambda>_. 1) ys) = length ys" for ys :: "'a list" by (induction ys) auto
  let ?ys = "filter (\<lambda>x. p x \<in> set vs) xs"
  have "(\<Sum>v\<leftarrow>vs. length (filter (\<lambda>x. p x = v) xs)) = (\<Sum>v\<leftarrow>vs. length (filter (\<lambda>x. p x = v) ?ys))"
    by (intro arg_cong[where f = sum_list] map_cong refl arg_cong[where f = length]) (auto simp: filter_filter intro: filter_cong)
  also have "\<dots> = length ?ys"
    using group_sum[OF assms, of ?ys p "\<lambda>_. 1"] by (simp add: one sum_list_triv)
  finally show ?thesis by simp
qed

lemma commission_split: "k \<le> 100 \<Longrightarrow> (100 - k) * q + q * k = 100 * (q :: nat)"
  using distrib_right[of "100 - k" k q] by (simp add: mult.commute)

lemma commission_rounding:
  assumes "k \<le> 100"
  shows "100 * (q - q * k div 100) \<le> (100 - k) * q + (99 :: nat)"
proof -
  have "q * k \<le> 100 * (q * k div 100) + 99" using mod_less_divisor[of 100 "q * k"] div_mult_mod_eq[of "q * k" 100] by linarith
  moreover have "(100 - k) * q + q * k = 100 * q" by (rule commission_split[OF assms])
  moreover have "100 * (q - q * k div 100) = 100 * q - 100 * (q * k div 100)" by (rule diff_mult_distrib2)
  ultimately show ?thesis by linarith
qed

lemma commissions_rounding:
  assumes "k \<le> 100"
  shows "100 * (\<Sum>q\<leftarrow>qs. q - q * k div 100) \<le> (100 - k) * sum_list qs + 99 * length (qs :: nat list)"
proof (induction qs)
  case (Cons q qs)
  then show ?case using commission_rounding[OF assms, of q] by (simp add: distrib_left)
qed simp

text \<open>What a validator with commission \<open>k\<close>, own stake \<open>own\<close> and delegated stakes \<open>ds\<close> gets together with its delegators.\<close>

lemma validator_gain:
  fixes b t :: nat
  assumes "k \<le> 100"
  shows "b * own div t + (b * sum_list ds div t) * k div 100 + (\<Sum>d\<leftarrow>ds. b * d div t - (b * d div t) * k div 100) \<le>
    b * (own + sum_list ds) div t + length ds"
proof -
  let ?q = "\<lambda>d. b * d div t" and ?Q = "b * sum_list ds div t"
  let ?D = "\<Sum>d\<leftarrow>ds. ?q d - ?q d * k div 100"
  have "100 * ?D \<le> (100 - k) * sum_list (map ?q ds) + 99 * length ds"
    using commissions_rounding[OF assms, of "map ?q ds"] by (simp add: o_def)
  also have "\<dots> \<le> (100 - k) * ?Q + 99 * length ds" using sum_div_le[of b t ds] by simp
  finally have D: "100 * ?D \<le> (100 - k) * ?Q + 99 * length ds" .
  have c: "100 * (?Q * k div 100) \<le> ?Q * k" by simp
  have e: "(100 - k) * ?Q + ?Q * k = 100 * ?Q" by (rule commission_split[OF assms])
  have s: "?q own + ?Q \<le> b * (own + sum_list ds) div t" using sum_div_le[of b t "[own, sum_list ds]"] by simp
  show ?thesis using D c e s by linarith
qed

section \<open>Rewards of stakers\<close>

text \<open>An upper bound of what a staker gets.\<close>

definition stake_gain :: "committee \<Rightarrow> u64 \<Rightarrow> address \<times> address \<times> u64 \<Rightarrow> nat" where
  "stake_gain c reward = (\<lambda>(staker, validator, stake).
     case map_of (valid_validators c) validator of
       None \<Rightarrow> 0
     | Some (validator_stake, k) \<Rightarrow>
         let q = \<lambda>x. reward * x div total_stake c
         in if staker = validator then q stake + q (validator_stake - stake) * k div 100 else q stake - q stake * k div 100)"

lemma valid_validatorsD:
  assumes "map_of (valid_validators c) v = Some (vs, k)"
  shows "\<exists>is_open. (v, vs, is_open, k) \<in> set (members c)" "k \<le> 100" "vs \<le> total_stake c div 4"
  using map_of_SomeD[OF assms] by (auto simp: valid_validators_def)

lemma product_fits: "x \<le> u64_max \<Longrightarrow> y \<le> u64_max \<Longrightarrow> saturating_mul u128_max x y = x * y"
  using mult_le_mono[of x u64_max y u64_max] by (simp add: saturating_mul_def u64_max_def u128_max_def)

lemma staker_reward_bound:
  assumes "reward \<le> u64_max" "stake \<le> u64_max" "total_stake c \<le> u64_max"
  shows "\<exists>x. staker_reward c reward (s, v, stake) = Ok (s, v, x) \<and> stake \<le> x \<and> x \<le> stake + stake_gain c reward (s, v, stake)"
proof (cases "map_of (valid_validators c) v")
  case None
  then show ?thesis by (simp add: staker_reward_def)
next
  case (Some p)
  obtain vs k where p: "p = (vs, k)" by (cases p)
  note V = valid_validatorsD[OF Some[unfolded p]]
  let ?q = "\<lambda>x. reward * x div total_stake c"
  have q: "saturating_mul u128_max reward stake div total_stake c = ?q stake" using product_fits[OF assms(1,2)] by simp
  have d: "vs - stake \<le> u64_max" "vs \<le> total_stake c" using V(3) assms(3) by auto
  then have qd: "saturating_mul u128_max reward (vs - stake) div total_stake c = ?q (vs - stake)" using product_fits[OF assms(1)] by simp
  have "reward * (vs - stake) \<le> reward * total_stake c" using d(2) by (intro mult_le_mono) auto
  then have "?q (vs - stake) \<le> reward * total_stake c div total_stake c" by (rule div_le_mono)
  then have del: "?q (vs - stake) \<le> reward" by (rule order_trans) simp
  have scale: "x * k div 100 \<le> x" for x using mult_le_mono2[OF V(2), of x] by (simp add: div_le_mono[of "x * k" "x * 100" 100, simplified])
  have small: "saturating_mul u128_max x k = x * k" if "x \<le> u64_max" for x
    using that V(2) by (intro product_fits) (auto simp: u64_max_def)
  show ?thesis
  proof (cases "(stake < MIN_DELEGATOR_STAKE \<and> s \<noteq> v) \<or> ?q stake > MAX_COINBASE_REWARD")
    case True
    then show ?thesis by (auto simp: staker_reward_def Some p q Let_def)
  next
    case False
    then have f: "\<not> (stake < MIN_DELEGATOR_STAKE \<and> s \<noteq> v)" "\<not> ?q stake > MAX_COINBASE_REWARD" "?q stake \<le> u64_max"
      by (auto simp: MAX_COINBASE_REWARD_def u64_max_def)
    have com: "?q (vs - stake) * k div 100 \<le> u64_max" "?q stake * k div 100 \<le> u64_max"
      using scale[of "?q (vs - stake)"] scale[of "?q stake"] del assms(1) f(3) by linarith+
    have small': "saturating_mul u128_max (?q stake) k = ?q stake * k" "saturating_mul u128_max (?q (vs - stake)) k = ?q (vs - stake) * k"
      using small[OF f(3)] small[of "?q (vs - stake)"] del assms(1) by auto
    have cut: "min x (y + min x z) \<le> y + z" for x y z :: nat by simp
    show ?thesis
      using f com assms(2) by (simp add: cut staker_reward_def Some p q qd u64_try_from_def Let_def
          stake_gain_def saturating_add_def saturating_sub_def small')
  qed
qed

text \<open>The stakers of a validator.\<close>

abbreviation bonded_to :: "address \<Rightarrow> stakers \<Rightarrow> stakers" where
  "bonded_to v ss \<equiv> filter (\<lambda>x. fst (snd x) = v) ss"

abbreviation stakes :: "stakers \<Rightarrow> u64 list" where
  "stakes ss \<equiv> map (\<lambda>x. snd (snd x)) ss"

lemma add_stake_lookup:
  "map_of (add_stake v m acc) w = (if w = v then Some (saturating_add u64_max (case map_of acc v of None \<Rightarrow> 0 | Some x \<Rightarrow> x) m) else map_of acc w)"
  by (auto simp: add_stake_def map_of_entry_update)

text \<open>The entry of a validator in a map of collected stakes is the sum of the stakes bonded to it.\<close>

lemma collected_stake:
  assumes "P v" "\<forall>x. map_of acc v = Some x \<longrightarrow> x \<le> u64_max"
  shows "map_of (fold (\<lambda>(_, v, m). if P v then add_stake v m else id) ss acc) v =
    (if bonded_to v ss = [] then map_of acc v
     else Some (min u64_max ((case map_of acc v of None \<Rightarrow> 0 | Some x \<Rightarrow> x) + sum_list (stakes (bonded_to v ss)))))"
  using assms(2)
proof (induction ss arbitrary: acc)
  case (Cons e ss)
  obtain s w m where e: "e = (s, w, m)" by (cases e)
  let ?acc = "if P w then add_stake w m acc else acc"
  have step: "fold (\<lambda>(_, v, m). if P v then add_stake v m else id) (e # ss) acc =
      fold (\<lambda>(_, v, m). if P v then add_stake v m else id) ss ?acc" by (simp add: e)
  have look: "map_of ?acc v = (if w = v then Some (min u64_max ((case map_of acc v of None \<Rightarrow> 0 | Some x \<Rightarrow> x) + m)) else map_of acc v)"
    using assms(1) by (auto simp: add_stake_lookup saturating_add_def)
  have "\<forall>x. map_of ?acc v = Some x \<longrightarrow> x \<le> u64_max" using look Cons.prems by auto
  from Cons.IH[OF this] show ?case
    unfolding step using look by (cases "w = v") (auto simp: e min_def)
qed simp

lemma stakers_match_iff:
  "ensure_stakers_matches c ss = Ok () \<longleftrightarrow> length (members c) = length (validator_map c ss) \<and>
     total_stake c = fold (\<lambda>m acc. saturating_add u64_max acc m) (vals (validator_map c ss)) 0 \<and>
     (\<forall>(v, m, _)\<in>set (members c). map_of (validator_map c ss) v = Some m)"
  unfolding ensure_stakers_matches_def Let_def ensure_Ok_iff try_fold_each
  by (auto simp: result_simps split: option.splits)

lemma matching_stakes:
  assumes "ensure_stakers_matches c ss = Ok ()" "(v, m, x) \<in> set (members c)" "m < u64_max"
  shows "sum_list (stakes (bonded_to v ss)) = m"
proof -
  have P: "contains_key (members c) v" using assms(2) by (metis weak_map_of_SomeI option.distinct(1))
  have "map_of (validator_map c ss) v = Some m" using assms(1,2) unfolding stakers_match_iff by blast
  then show ?thesis
    using collected_stake[of "\<lambda>v. contains_key (members c) v" v "[]" ss] P assms(3) by (auto simp: validator_map_def split: if_splits)
qed

lemma sum_partition: "sum_list (map f xs) = sum_list (map f (filter P xs)) + sum_list (map f (filter (\<lambda>x. \<not> P x) xs))" for f :: "'a \<Rightarrow> nat"
  by (induction xs) auto

lemma own_entry:
  assumes "distinct (map fst xs)"
  obtains "filter (\<lambda>x. fst x = v) xs = []" | y where "filter (\<lambda>x. fst x = v) xs = [(v, y)]"
proof -
  have "length (filter (\<lambda>x. fst x = v) xs) \<le> 1" using assms
    by (induction xs) (auto simp: filter_empty_conv, force)
  then have len: "length (filter (\<lambda>x. fst x = v) xs) \<le> 1" .
  show thesis
  proof (cases "filter (\<lambda>x. fst x = v) xs")
    case (Cons e es)
    have "e \<in> set (filter (\<lambda>x. fst x = v) xs)" by (simp only: Cons list.set_intros)
    then have "fst e = v" unfolding set_filter by simp
    then have "e = (v, snd e)" by (simp add: prod_eq_iff)
    then show thesis using that(2)[of "snd e"] Cons len by simp
  qed (rule that(1))
qed

lemma validator_share:
  assumes "wf_map ss" "map_of (valid_validators c) v = Some (vs, k)" "sum_list (stakes (bonded_to v ss)) = vs"
  shows "sum_list (map (stake_gain c reward) (bonded_to v ss)) \<le> reward * vs div total_stake c + length (bonded_to v ss)"
proof -
  let ?q = "\<lambda>x. reward * x div total_stake c" and ?L = "bonded_to v ss"
  let ?own = "filter (\<lambda>x. fst x = v) ?L" and ?D = "filter (\<lambda>x. fst x \<noteq> v) ?L"
  have k: "k \<le> 100" by (rule valid_validatorsD(2)[OF assms(2)])
  have "map (stake_gain c reward) ?D = map (\<lambda>d. ?q d - ?q d * k div 100) (stakes ?D)"
    using assms(2) by (auto simp: stake_gain_def Let_def)
  then have D: "sum_list (map (stake_gain c reward) ?D) = (\<Sum>d\<leftarrow>stakes ?D. ?q d - ?q d * k div 100)" by (rule arg_cong)
  have split: "sum_list (map g ?L) = sum_list (map g ?own) + sum_list (map g ?D)" for g :: "_ \<Rightarrow> nat" by (rule sum_partition)
  have len: "length ?D \<le> length ?L" by (rule length_filter_le)
  have "distinct (map fst ?L)" using assms(1) by (simp add: wf_map_def distinct_map_filter)
  then show ?thesis
  proof (cases rule: own_entry[where v = v])
    case 1
    then have vs: "vs = sum_list (stakes ?D)" using split[of "\<lambda>x. snd (snd x)"] assms(3) by simp
    have "(\<Sum>d\<leftarrow>stakes ?D. ?q d - ?q d * k div 100) \<le> sum_list (map ?q (stakes ?D))" by (rule sum_list_mono) simp
    also have "\<dots> \<le> ?q vs" unfolding vs by (rule sum_div_le)
    finally show ?thesis using 1 split[of "stake_gain c reward"] D by simp
  next
    case (2 y)
    have "(v, y) \<in> set ?own" by (simp only: 2 list.set_intros)
    then obtain o' where o': "y = (v, o')" by (cases y) auto
    have vs: "vs = o' + sum_list (stakes ?D)" using split[of "\<lambda>x. snd (snd x)"] assms(3) 2 o' by simp
    have "stake_gain c reward (v, v, o') = ?q o' + ?q (sum_list (stakes ?D)) * k div 100"
      using assms(2) vs by (simp add: stake_gain_def Let_def)
    then show ?thesis
      using validator_gain[OF k, of reward o' "total_stake c" "stakes ?D"] split[of "stake_gain c reward"] D 2 o' vs len by simp
  qed
qed

lemma total_gain:
  assumes "wf_map ss" "wf_committee c" "ensure_stakers_matches c ss = Ok ()"
  shows "sum_list (map (stake_gain c reward) ss) \<le> reward + length ss"
proof -
  let ?V = "valid_validators c" and ?q = "\<lambda>x. reward * x div total_stake c"
  have d: "distinct (keys ?V)" using assms(2)
    by (auto simp: wf_committee_def wf_map_def valid_validators_def distinct_map_filter o_def case_prod_unfold)
  have zero: "stake_gain c reward x = 0" if "fst (snd x) \<notin> set (keys ?V)" for x
    using that by (auto simp: stake_gain_def split: prod.splits option.splits dest: map_of_SomeD intro: rev_image_eqI)
  have share: "sum_list (map (stake_gain c reward) (bonded_to v ss)) \<le> ?q vs + length (bonded_to v ss)"
    if x: "(v, vs, k) \<in> set ?V" for v vs k
  proof -
    have m: "map_of ?V v = Some (vs, k)" using d x by simp
    obtain i where "(v, vs, i, k) \<in> set (members c)" using valid_validatorsD(1)[OF m] by blast
    moreover have "vs < u64_max"
      using valid_validatorsD(3)[OF m] assms(2) by (auto simp: wf_committee_def u64_max_def)
    ultimately show ?thesis using matching_stakes[OF assms(3)] by (intro validator_share[OF assms(1) m]) blast
  qed
  have "sum_list (map (stake_gain c reward) ss) = (\<Sum>v\<leftarrow>keys ?V. sum_list (map (stake_gain c reward) (bonded_to v ss)))"
    by (rule group_sum[OF d]) (rule zero)
  also have "\<dots> = (\<Sum>x\<leftarrow>?V. sum_list (map (stake_gain c reward) (bonded_to (fst x) ss)))" by (simp add: o_def)
  also have "\<dots> \<le> (\<Sum>x\<leftarrow>?V. ?q (fst (snd x)) + length (bonded_to (fst x) ss))" using share by (intro sum_list_mono) auto
  also have "\<dots> = (\<Sum>x\<leftarrow>?V. ?q (fst (snd x))) + (\<Sum>x\<leftarrow>?V. length (bonded_to (fst x) ss))" by (rule sum_list_addf)
  also have "\<dots> \<le> reward + length ss"
  proof (rule add_mono)
    have "(\<Sum>x\<leftarrow>?V. length (bonded_to (fst x) ss)) = (\<Sum>v\<leftarrow>keys ?V. length (bonded_to v ss))" by (simp add: o_def)
    then show "(\<Sum>x\<leftarrow>?V. length (bonded_to (fst x) ss)) \<le> length ss" using group_length[OF d, of "\<lambda>x. fst (snd x)" ss] by simp
    have "(\<Sum>x\<leftarrow>?V. ?q (fst (snd x))) \<le> ?q (\<Sum>x\<leftarrow>?V. fst (snd x))"
      using sum_div_le[of reward "total_stake c" "map (\<lambda>x. fst (snd x)) ?V"] by (simp add: o_def)
    also have "(\<Sum>x\<leftarrow>?V. fst (snd x)) \<le> total_stake c"
      using assms(2) sum_partition[of "\<lambda>x. fst (snd x)" "members c" "\<lambda>(_, stake, _, k). \<not> k > 100 \<and> \<not> stake > total_stake c div 4"]
      by (simp add: valid_validators_def wf_committee_def o_def case_prod_unfold)
    then have "?q (\<Sum>x\<leftarrow>?V. fst (snd x)) \<le> reward * total_stake c div total_stake c" by (intro div_le_mono mult_le_mono2)
    also have "\<dots> \<le> reward" by simp
    finally show "(\<Sum>x\<leftarrow>?V. ?q (fst (snd x))) \<le> reward" .
  qed
  finally show ?thesis .
qed

text \<open>What a staker has after a reward: the same validator, no less stake, and at most the bound more.\<close>

definition rewarded :: "committee \<Rightarrow> u64 \<Rightarrow> address \<times> address \<times> u64 \<Rightarrow> address \<times> address \<times> u64 \<Rightarrow> bool" where
  "rewarded c reward x y \<longleftrightarrow> fst y = fst x \<and> fst (snd y) = fst (snd x) \<and> snd (snd x) \<le> snd (snd y) \<and>
     snd (snd y) \<le> snd (snd x) + stake_gain c reward x"

lemma try_fold_collect:
  assumes "\<And>x. x \<in> set xs \<Longrightarrow> \<exists>y. f x = Ok y \<and> R x y"
  shows "\<exists>ys. try_fold (\<lambda>x acc. try_bind (f x) (\<lambda>y. Ok (acc @ [y]))) xs acc = Ok (acc @ ys) \<and> list_all2 R xs ys"
  using assms
proof (induction xs arbitrary: acc)
  case (Cons x xs)
  obtain y where y: "f x = Ok y" "R x y" using Cons.prems by auto
  obtain ys where "try_fold (\<lambda>x acc. try_bind (f x) (\<lambda>y. Ok (acc @ [y]))) xs (acc @ [y]) = Ok ((acc @ [y]) @ ys)" "list_all2 R xs ys"
    using Cons by (metis list.set_intros(2))
  then show ?case using y by (intro exI[of _ "y # ys"]) simp
qed simp

lemma list_all2_sum: "list_all2 (\<lambda>x y. g y \<le> g x + h x) xs ys \<Longrightarrow> sum_list (map g ys) \<le> sum_list (map g xs) + sum_list (map h xs)" for g :: "'a \<Rightarrow> nat"
  by (induction rule: list_all2_induct) auto

lemma staking_rewards_result:
  assumes "wf_committee c" "reward \<le> u64_max" "\<forall>x\<in>set ss. snd (snd x) \<le> u64_max"
  shows "\<exists>next. staking_rewards ss c reward = Ok next \<and> list_all2 (rewarded c reward) ss next"
proof (cases "ss = [] \<or> total_stake c = 0 \<or> reward = 0")
  case True
  then show ?thesis by (auto simp: staking_rewards_def rewarded_def intro: list_all2_refl)
next
  case False
  have "\<exists>y. staker_reward c reward x = Ok y \<and> rewarded c reward x y" if x: "x \<in> set ss" for x
  proof -
    obtain s v m where e: "x = (s, v, m)" by (cases x)
    show ?thesis using staker_reward_bound[OF assms(2), of m c s v] assms(1,3) x
      by (auto simp: e wf_committee_def rewarded_def)
  qed
  from try_fold_collect[of ss "staker_reward c reward" "rewarded c reward" "[]", OF this] show ?thesis using False by (simp add: staking_rewards_def)
qed

section \<open>Rewards of provers\<close>

lemma sum_update:
  "sum_list (map (\<lambda>x. g (snd x)) (AList.update k v m)) + (case map_of m k of None \<Rightarrow> 0 | Some x \<Rightarrow> g x) =
    sum_list (map (\<lambda>x. g (snd x)) m) + (g v :: nat)"
  by (induction m) auto

lemma prover_reward_bound:
  "\<exists>rewards'. prover_reward reward combined (a, t) rewards = Ok rewards' \<and>
     sum_list (vals rewards') \<le> sum_list (vals rewards) + reward * t div max combined 1 \<and> set (keys rewards') \<subseteq> insert a (set (keys rewards))"
proof -
  let ?q = "saturating_mul u128_max reward t div max combined 1"
  have q: "?q \<le> reward * t div max combined 1" by (rule div_le_mono) (simp add: saturating_mul_def)
  have "sum_list (vals (entry_update 0 a (\<lambda>x. saturating_add u64_max x ?q) rewards)) \<le> sum_list (vals rewards) + ?q"
    using sum_update[of "\<lambda>x. x" a "saturating_add u64_max (case map_of rewards a of None \<Rightarrow> 0 | Some x \<Rightarrow> x) ?q" rewards]
    by (auto simp: entry_update_def saturating_add_def split: option.splits)
  moreover have "set (keys (entry_update 0 a f rewards)) = insert a (set (keys rewards))" for f
    by (auto simp: entry_update_def update_keys simp del: set_map)
  moreover have "?q \<le> u64_max" if "\<not> ?q > MAX_COINBASE_REWARD" using that by (simp add: MAX_COINBASE_REWARD_def u64_max_def)
  ultimately show ?thesis using q by (auto simp: prover_reward_def u64_try_from_def Let_def)
qed

lemma proving_rewards_fold:
  "\<exists>rewards'. try_fold (prover_reward reward combined) ts rewards = Ok rewards' \<and>
     sum_list (vals rewards') \<le> sum_list (vals rewards) + sum_list (map (\<lambda>t. reward * t div max combined 1) (map snd ts)) \<and>
     set (keys rewards') \<subseteq> set (keys rewards) \<union> fst ` set ts"
proof (induction ts arbitrary: rewards)
  case (Cons x ts)
  obtain a t where x: "x = (a, t)" by (cases x)
  obtain r1 where r1: "prover_reward reward combined (a, t) rewards = Ok r1"
    "sum_list (vals r1) \<le> sum_list (vals rewards) + reward * t div max combined 1" "set (keys r1) \<subseteq> insert a (set (keys rewards))"
    using prover_reward_bound by blast
  obtain r2 where r2: "try_fold (prover_reward reward combined) ts r1 = Ok r2"
    "sum_list (vals r2) \<le> sum_list (vals r1) + sum_list (map (\<lambda>t. reward * t div max combined 1) (map snd ts))"
    "set (keys r2) \<subseteq> set (keys r1) \<union> fst ` set ts"
    using Cons[of r1] by blast
  have "try_fold (prover_reward reward combined) (x # ts) rewards = Ok r2" using r1(1) r2(1) by (simp add: x)
  moreover have "sum_list (vals r2) \<le> sum_list (vals rewards) + sum_list (map (\<lambda>t. reward * t div max combined 1) (map snd (x # ts)))"
    using r1(2) r2(2) by (simp add: x)
  moreover have "set (keys r2) \<subseteq> set (keys rewards) \<union> fst ` set (x # ts)" using r1(3) r2(3) by (auto simp: x simp del: set_map)
  ultimately show ?case by blast
qed simp

lemma proving_rewards_result:
  "\<exists>rewards. proving_rewards ts reward = Ok rewards \<and> sum_list (vals rewards) \<le> reward \<and> set (keys rewards) \<subseteq> fst ` set ts"
proof (cases "ts = [] \<or> sum_list (map snd ts) = 0 \<or> reward = 0")
  case True
  then show ?thesis by (auto simp: proving_rewards_def)
next
  case False
  let ?c = "sum_list (map snd ts)"
  have "?c \<noteq> 0" using False[unfolded de_Morgan_disj] by (rule conjunct2[THEN conjunct1])
  then have c: "max ?c 1 = ?c" by linarith
  have "sum_list (map (\<lambda>t. reward * t div max ?c 1) (map snd ts)) \<le> reward * ?c div ?c"
    unfolding c by (rule sum_div_le)
  also have "\<dots> = reward" using False by simp
  finally have b: "sum_list (map (\<lambda>t. reward * t div max ?c 1) (map snd ts)) \<le> reward" .
  obtain rewards where r: "try_fold (prover_reward reward ?c) ts [] = Ok rewards"
    "sum_list (vals rewards) \<le> sum_list (map (\<lambda>t. reward * t div max ?c 1) (map snd ts))" "set (keys rewards) \<subseteq> fst ` set ts"
    using proving_rewards_fold[of reward ?c ts "[]"] by auto
  have "proving_rewards ts reward = Ok rewards" using False r(1) by (auto simp: proving_rewards_def Let_def)
  then show ?thesis using r(2,3) b by (meson le_trans)
qed

section \<open>The mappings\<close>

lemma update_filter:
  "filter (\<lambda>x. P (fst x)) (AList.update k v m) =
    (if P k then AList.update k v (filter (\<lambda>x. P (fst x)) m) else filter (\<lambda>x. P (fst x)) m)"
  by (induction m) auto

lemma map_of_filter_key: "P k \<Longrightarrow> map_of (filter (\<lambda>x. P (fst x)) m) k = map_of m k"
  by (induction m) auto

lemma add_stake_filter:
  "filter (\<lambda>x. P (fst x)) (add_stake v m acc) = (if P v then add_stake v m (filter (\<lambda>x. P (fst x)) acc) else filter (\<lambda>x. P (fst x)) acc)"
  by (simp add: add_stake_def entry_update_def update_filter map_of_filter_key)

lemma collected_filter:
  "filter (\<lambda>x. P (fst x)) (fold (\<lambda>(_, v, m). add_stake v m) ss acc) =
    fold (\<lambda>(_, v, m). if P v then add_stake v m else id) ss (filter (\<lambda>x. P (fst x)) acc)"
  by (induction ss arbitrary: acc) (auto simp: add_stake_filter)

lemma validator_map_delegated:
  "validator_map c ss = filter (\<lambda>x. contains_key (members c) (fst x)) (to_next_delegated ss)"
  using collected_filter[of "\<lambda>v. contains_key (members c) v" ss "[]"] by (simp add: validator_map_def to_next_delegated_def)

lemma to_next_delegated_wf: "wf_map (to_next_delegated ss)"
proof -
  have "wf_map (fold (\<lambda>(_, v, m). add_stake v m) ss acc)" if "wf_map acc" for acc
    using that by (induction ss arbitrary: acc) (auto simp: add_stake_def)
  then show ?thesis by (simp add: to_next_delegated_def)
qed

lemma to_next_delegated_keys: "set (keys (to_next_delegated ss)) = (\<lambda>x. fst (snd x)) ` set ss"
proof -
  have "set (keys (fold (\<lambda>(_, v, m). add_stake v m) ss acc)) = set (keys acc) \<union> (\<lambda>x. fst (snd x)) ` set ss" for acc
  proof (induction ss arbitrary: acc)
    case (Cons x ss)
    have "set (keys (add_stake v m acc)) = insert v (set (keys acc))" for v m
      by (auto simp: add_stake_def entry_update_def update_keys simp del: set_map)
    then show ?case using Cons by (cases x) (auto simp del: set_map)
  qed simp
  then show ?thesis by (simp add: to_next_delegated_def)
qed

text \<open>The members of the next committee are the validators with stake that are members now.\<close>

lemma next_committee_members:
  assumes "to_next_committee n cr c r (to_next_delegated ss) = Ok c'"
  shows "map (\<lambda>x. (fst x, fst (snd x))) (members c') = validator_map c ss" "wf_committee c'" "committee_new n cr r (members c') = Ok c'"
    "keys (members c') = keys (validator_map c ss)"
proof -
  let ?d = "to_next_delegated ss"
  let ?f = "\<lambda>(v, m). map_option (\<lambda>(_, is_open, commission). (v, m, is_open, commission)) (map_of (members c) v)"
  have e: "map (\<lambda>x. (fst x, fst (snd x))) (List.map_filter ?f ds) = filter (\<lambda>x. contains_key (members c) (fst x)) ds" for ds
    by (induction ds) (auto simp: List.map_filter_simps split: option.splits)
  then have k: "keys (List.map_filter ?f ds) = keys (filter (\<lambda>x. contains_key (members c) (fst x)) ds)" for ds
    using arg_cong[OF e, of "map fst" ds] by (simp add: o_def)
  have "distinct (keys (List.map_filter ?f ?d))"
    unfolding k using to_next_delegated_wf[of ss] by (simp add: wf_map_def distinct_map_filter)
  then have wf: "wf_map (List.map_filter ?f ?d)" by (simp add: wf_map_def)
  note C = committee_new_wf[OF wf assms[unfolded to_next_committee_def]]
  show "map (\<lambda>x. (fst x, fst (snd x))) (members c') = validator_map c ss" using C e by (simp add: validator_map_delegated)
  show "wf_committee c'" using C by blast
  show "committee_new n cr r (members c') = Ok c'" using C assms by (simp add: to_next_committee_def)
  show "keys (members c') = keys (validator_map c ss)" using C k by (simp add: validator_map_delegated)
qed

lemma next_stakers_match:
  assumes "to_next_committee n cr c r (to_next_delegated ss) = Ok c'"
  shows "ensure_stakers_matches c' ss = Ok ()"
proof -
  note N = next_committee_members[OF assms]
  have keys': "contains_key (members c') v \<longleftrightarrow> v \<in> set (keys (validator_map c ss))" for v
    unfolding N(4)[symmetric] by (simp add: map_of_eq_None_iff)
  have "contains_key (members c') (fst x) \<longleftrightarrow> contains_key (members c) (fst x)" if x: "x \<in> set (to_next_delegated ss)" for x
    unfolding keys' validator_map_delegated using x by (auto simp del: not_None_eq)
  then have same: "validator_map c' ss = validator_map c ss"
    unfolding validator_map_delegated by (intro filter_cong refl)
  have wf: "wf_map (validator_map c ss)" using N(2) unfolding wf_committee_def wf_map_def N(4)[symmetric] by blast
  have t: "total_stake c' = sum_list (vals (validator_map c ss))" "total_stake c' \<le> u64_max"
    using N(2) arg_cong[OF N(1), of "\<lambda>m. sum_list (vals m)"] by (auto simp: wf_committee_def o_def case_prod_unfold)
  have "fold (\<lambda>m acc. saturating_add u64_max acc m) (vals (validator_map c ss)) 0 = total_stake c'"
    using fold_saturating_add[of 0 u64_max "\<lambda>x. x" "vals (validator_map c ss)"] t by simp
  moreover have "map_of (validator_map c ss) v = Some m" if "(v, m, x) \<in> set (members c')" for v m x
    using wf that by (intro map_of_Some_in) (force simp flip: N(1))+
  moreover have "length (members c') = length (validator_map c ss)" using arg_cong[OF N(1), of length] by simp
  ultimately show ?thesis unfolding stakers_match_iff same by auto
qed

lemma collect_map_wf:
  assumes "collect_map f es = Ok m"
  shows "wf_map m"
  using assms unfolding collect_map_def
  by (rule try_fold_inv) (auto simp: result_simps split: prod.splits)

lemma collect_map_back:
  assumes "wf_map xs" "\<And>x. x \<in> set xs \<Longrightarrow> f (enc x) = Ok x"
  shows "collect_map f (map enc xs) = Ok xs"
proof -
  have "try_fold (\<lambda>e acc. try_bind (f e) (\<lambda>(k, v). Ok (AList.update k v acc))) (map enc ys) acc = Ok (acc @ ys)"
    if "distinct (keys (acc @ ys))" "\<And>x. x \<in> set ys \<Longrightarrow> f (enc x) = Ok x" for ys acc
    using that
  proof (induction ys arbitrary: acc)
    case (Cons y ys)
    obtain k v where y: "y = (k, v)" by (cases y)
    have "k \<notin> set (keys acc)" using Cons.prems(1) by (auto simp: y)
    then have u: "AList.update k v acc = acc @ [(k, v)]" by (rule alist_update_append)
    have "try_fold (\<lambda>e acc. try_bind (f e) (\<lambda>(k, v). Ok (AList.update k v acc))) (map enc ys) (acc @ [y]) = Ok ((acc @ [y]) @ ys)"
      using Cons.prems by (intro Cons.IH) auto
    then show ?case using Cons.prems(2)[of y] u by (simp add: y)
  qed simp
  from this[of "[]" xs] assms show ?thesis by (simp add: collect_map_def wf_map_def)
qed

lemma delegated_back:
  "delegated_microcredits a (map (\<lambda>(v, m). (PLiteral (LAddress v), VPlaintext (PLiteral (LU64 m)))) ds) = map_of ds a"
  by (induction ds) auto

text \<open>What is written for the next committee and stakers is read back.\<close>

lemma next_maps_load:
  assumes "to_next_committee n cr c r (to_next_delegated ss) = Ok c'" "wf_map ss"
    and "to_next_committee_bonded_delegated_map c' ss (to_next_delegated ss) = (cm, bm, dm)"
    and "committee_mapping st = cm" "delegated_mapping st = dm" "bonded_mapping st = bm"
  shows "load_stakers n cr r st = Ok (c', ss)"
proof -
  note N = next_committee_members[OF assms(1)]
  have m: "cm = map (\<lambda>(v, _, is_open, commission). (PLiteral (LAddress v),
          VPlaintext (PStruct [(''is_open'', PLiteral (LBoolean is_open)), (''commission'', PLiteral (LU8 commission))]))) (members c')"
    "bm = map (\<lambda>(s, v, m). (PLiteral (LAddress s),
          VPlaintext (PStruct [(''validator'', PLiteral (LAddress v)), (''microcredits'', PLiteral (LU64 m))]))) ss"
    "dm = map (\<lambda>(v, m). (PLiteral (LAddress v), VPlaintext (PLiteral (LU64 m)))) (to_next_delegated ss)"
    using assms(3) by (auto simp: to_next_committee_bonded_delegated_map_def)
  have b: "bonded_map_into_stakers bm = Ok ss"
    unfolding bonded_map_into_stakers_def m(2) by (rule collect_map_back[OF assms(2)]) (auto simp: bonded_entry_def)
  have "map_of (to_next_delegated ss) v = Some k" if "(v, k, x) \<in> set (members c')" for v k x
  proof -
    have "(v, k) \<in> set (validator_map c ss)" using that by (force simp flip: N(1))
    then show ?thesis using to_next_delegated_wf[of ss] by (auto simp: validator_map_delegated intro: map_of_Some_in)
  qed
  then have "collect_map (committee_member dm) cm = Ok (members c')"
    unfolding m(1) using N(2)
    by (intro collect_map_back) (auto simp: wf_committee_def committee_member_def committee_state_def m(3) delegated_back)
  then have "committee_and_delegated_maps_into_committee n cr r cm dm = Ok c'"
    using N(3) by (simp add: committee_and_delegated_maps_into_committee_def)
  then show ?thesis using b next_stakers_match[OF assms(1)] assms(4-6) by (simp add: load_stakers_def)
qed

lemma load_stakersD:
  assumes "load_stakers n cr r st = Ok (c, ss)"
  shows "wf_map ss" "wf_committee c" "ensure_stakers_matches c ss = Ok ()"
proof -
  obtain ms where ms: "collect_map (committee_member (delegated_mapping st)) (committee_mapping st) = Ok ms" "committee_new n cr r ms = Ok c"
    "bonded_map_into_stakers (bonded_mapping st) = Ok ss" "ensure_stakers_matches c ss = Ok ()"
    using assms by (auto simp: load_stakers_def committee_and_delegated_maps_into_committee_def result_simps)
  show "wf_map ss" using ms(3) unfolding bonded_map_into_stakers_def by (rule collect_map_wf)
  show "wf_committee c" using committee_new_wf[OF collect_map_wf[OF ms(1)] ms(2)] by blast
  show "ensure_stakers_matches c ss = Ok ()" by (rule ms(4))
qed

lemma rewarded_stakers:
  assumes "list_all2 (rewarded c reward) ss ss'"
  shows "map (\<lambda>x. (fst x, fst (snd x))) ss' = map (\<lambda>x. (fst x, fst (snd x))) ss" "list_all2 (\<le>) (stakes ss) (stakes ss')"
    "sum_list (stakes ss') \<le> sum_list (stakes ss) + sum_list (map (stake_gain c reward) ss)"
proof -
  show "map (\<lambda>x. (fst x, fst (snd x))) ss' = map (\<lambda>x. (fst x, fst (snd x))) ss" "list_all2 (\<le>) (stakes ss) (stakes ss')"
    using assms by (induction rule: list_all2_induct) (auto simp: rewarded_def)
  have "list_all2 (\<lambda>x y. snd (snd y) \<le> snd (snd x) + stake_gain c reward x) ss ss'"
    using assms by (rule list_all2_mono) (simp add: rewarded_def)
  then show "sum_list (stakes ss') \<le> sum_list (stakes ss) + sum_list (map (stake_gain c reward) ss)" by (rule list_all2_sum)
qed

text \<open>The balances of accounts.\<close>

definition balance :: "program_value \<Rightarrow> u64" where
  "balance v = (case v of VPlaintext (PLiteral (LU64 x)) \<Rightarrow> x | _ \<Rightarrow> 0)"

abbreviation balances :: "mapping_entries \<Rightarrow> u64 list" where
  "balances m \<equiv> map (\<lambda>x. balance (snd x)) m"

lemma pay_prover_bound:
  assumes "pay_prover (a, x) m = Ok m'"
  shows "sum_list (balances m') \<le> sum_list (balances m) + x"
proof (cases "map_of m (PLiteral (LAddress a))")
  case None
  then have "m' = AList.update (PLiteral (LAddress a)) (VPlaintext (PLiteral (LU64 x))) m" using assms by (simp add: pay_prover_def)
  then show ?thesis
    using sum_update[of balance "PLiteral (LAddress a)" "VPlaintext (PLiteral (LU64 x))" m] None by (simp add: balance_def)
next
  case (Some v)
  then obtain b where b: "v = VPlaintext (PLiteral (LU64 b))"
      "m' = AList.update (PLiteral (LAddress a)) (VPlaintext (PLiteral (LU64 (saturating_add u64_max b x)))) m"
    using assms by (auto simp: pay_prover_def Let_def split: program_value.splits plaintext.splits literal.splits)
  have "balance (VPlaintext (PLiteral (LU64 (saturating_add u64_max b x)))) \<le> b + x" by (simp add: balance_def saturating_add_def)
  moreover have "balance v = b" by (simp add: b(1) balance_def)
  ultimately show ?thesis
    using sum_update[of balance "PLiteral (LAddress a)" "VPlaintext (PLiteral (LU64 (saturating_add u64_max b x)))" m] Some b(2) by simp
qed

lemma pay_provers_bound:
  "try_fold pay_prover rewards m = Ok m' \<Longrightarrow> sum_list (balances m') \<le> sum_list (balances m) + sum_list (vals rewards)"
proof (induction rewards arbitrary: m)
  case (Cons p rewards)
  obtain a x where p: "p = (a, x)" by (cases p)
  obtain m1 where m1: "pay_prover (a, x) m = Ok m1" "try_fold pay_prover rewards m1 = Ok m'"
    using Cons.prems by (auto simp: p result_simps)
  show ?case using pay_prover_bound[OF m1(1)] Cons.IH[OF m1(2)] by (simp add: p)
qed simp

section \<open>All ratifications of a block\<close>

lemma block_reward_step:
  assumes "load_stakers n cr r st = Ok (c, ss)" "\<forall>x\<in>set ss. snd (snd x) \<le> u64_max" "reward \<le> u64_max"
    and "ratify_block_reward n cr is_finalize height r reward st = Ok st'"
  shows "\<exists>c' ss'. load_stakers n cr r st' = Ok (c', ss') \<and> set (keys (members c')) = set (keys (members c)) \<and>
    map (\<lambda>x. (fst x, fst (snd x))) ss' = map (\<lambda>x. (fst x, fst (snd x))) ss \<and> list_all2 (\<le>) (stakes ss) (stakes ss') \<and>
    sum_list (stakes ss') \<le> sum_list (stakes ss) + reward + length ss \<and> account_mapping st' = account_mapping st"
proof -
  note L = load_stakersD[OF assms(1)]
  obtain ss' where r: "staking_rewards ss c reward = Ok ss'" "list_all2 (rewarded c reward) ss ss'"
    using staking_rewards_result[OF L(2) assms(3,2)] by blast
  note R = rewarded_stakers[OF r(2)]
  obtain c' where c': "to_next_committee n cr c r (to_next_delegated ss') = Ok c'"
    using assms(4) by (auto simp: ratify_block_reward_def assms(1) r(1) Let_def result_simps)
  obtain cm bm dm where m: "to_next_committee_bonded_delegated_map c' ss' (to_next_delegated ss') = (cm, bm, dm)" by (metis prod_cases3)
  have st': "committee_mapping st' = cm" "delegated_mapping st' = dm" "bonded_mapping st' = bm" "account_mapping st' = account_mapping st"
    using assms(4) by (auto simp: ratify_block_reward_def assms(1) r(1) c' m Let_def result_simps)
  have "wf_map ss'" using L(1) arg_cong[OF R(1), of "map fst"] by (simp add: wf_map_def o_def)
  then have load: "load_stakers n cr r st' = Ok (c', ss')" by (rule next_maps_load[OF c' _ m st'(1-3)])
  have bonds: "(\<lambda>x. fst (snd x)) ` set ss' = (\<lambda>x. fst (snd x)) ` set ss"
    using arg_cong[OF R(1), of "\<lambda>xs. snd ` set xs"] by (simp add: image_image)
  have member: "v \<in> (\<lambda>x. fst (snd x)) ` set ss" if v: "v \<in> set (keys (members c))" for v
  proof -
    obtain x where "(v, x) \<in> set (members c)" using v by auto
    then have "v \<in> set (keys (validator_map c ss))"
      using L(3) unfolding stakers_match_iff by (cases x) (force dest: map_of_SomeD)
    then show ?thesis using to_next_delegated_keys[of ss] by (auto simp: validator_map_delegated)
  qed
  have "set (keys (members c')) = {v \<in> (\<lambda>x. fst (snd x)) ` set ss'. contains_key (members c) v}"
    unfolding next_committee_members(4)[OF c'] to_next_delegated_keys[symmetric] validator_map_delegated by (auto simp del: not_None_eq)
  also have "\<dots> = set (keys (members c))" using member bonds by (auto simp: map_of_eq_None_iff simp del: not_None_eq)
  finally show ?thesis using load R total_gain[OF L, of reward] st'(4) by (intro exI[of _ c'] exI[of _ ss']) simp
qed

lemma puzzle_reward_step:
  assumes "ratify_puzzle_reward prover get_proof_target solutions reward st = Ok st'"
  shows "sum_list (balances (account_mapping st')) \<le> sum_list (balances (account_mapping st)) + reward \<and>
    st' = st\<lparr>account_mapping := account_mapping st'\<rparr>"
proof -
  obtain ts rewards m where r: "proving_rewards ts reward = Ok rewards" "try_fold pay_prover rewards (account_mapping st) = Ok m"
    "st' = st\<lparr>account_mapping := m\<rparr>"
    using assms by (auto simp: ratify_puzzle_reward_def result_simps)
  have "sum_list (vals rewards) \<le> reward" using proving_rewards_result[of ts reward] r(1) by auto
  then show ?thesis using pay_provers_bound[OF r(2)] by (simp add: r(3))
qed

text \<open>A step that keeps members and bonds, shrinks no stake and adds at most \<open>x\<close> to the stakes and balances together.\<close>

definition grown :: "committee \<times> stakers \<times> credits_store \<Rightarrow> committee \<times> stakers \<times> credits_store \<Rightarrow> nat \<Rightarrow> bool" where
  "grown = (\<lambda>(c, ss, st) (c', ss', st') x. set (keys (members c')) = set (keys (members c)) \<and>
     map (\<lambda>x. (fst x, fst (snd x))) ss' = map (\<lambda>x. (fst x, fst (snd x))) ss \<and> list_all2 (\<le>) (stakes ss) (stakes ss') \<and>
     sum_list (stakes ss') + sum_list (balances (account_mapping st')) \<le> sum_list (stakes ss) + sum_list (balances (account_mapping st)) + x)"

lemma grown_refl: "grown (c, ss, st) (c, ss, st) x"
  by (simp add: grown_def list.rel_refl)

lemma grown_trans:
  assumes "grown (c, ss, st) (c1, ss1, st1) x" "grown (c1, ss1, st1) (c', ss', st') y" "x + y \<le> z"
  shows "grown (c, ss, st) (c', ss', st') z"
proof -
  have "list_all2 (\<le>) (stakes ss) (stakes ss')"
    by (rule list_all2_trans[of "(\<le>)" "(\<le>)" "(\<le>)" "stakes ss" "stakes ss1"]) (use assms(1,2) in \<open>simp_all add: grown_def\<close>)
  then show ?thesis using assms unfolding grown_def prod.case by (intro conjI) (simp_all del: list.set_map set_map)
qed

fun ratified_reward :: "ratify \<Rightarrow> u64" where
  "ratified_reward (RatifyGenesis _ _ _) = 0"
| "ratified_reward (RatifyBlockReward x) = x"
| "ratified_reward (RatifyPuzzleReward x) = x"

lemma post_ratify_grown:
  assumes "atomic_post_ratify n cr fin height r prover tgt solutions b p rs st = Ok st'" "load_stakers n cr r st = Ok (c, ss)"
    "b \<or> (\<forall>x\<in>set ss. snd (snd x) \<le> u64_max)" "\<forall>x\<in>set rs. ratified_reward x \<le> u64_max"
  shows "\<exists>c' ss'. load_stakers n cr r st' = Ok (c', ss') \<and>
    grown (c, ss, st) (c', ss', st') (sum_list (map ratified_reward rs) + (if b then 0 else length ss))"
  using assms
proof (induction n cr fin height r prover tgt solutions b p rs st arbitrary: c ss rule: atomic_post_ratify.induct)
  case 1
  then show ?case using grown_refl by auto
next
  case 2
  then show ?case by simp
next
  case (3 n cr fin height r prover tgt solutions b p reward rs st)
  obtain st1 where s: "\<not> b" "ratify_block_reward n cr fin height r reward st = Ok st1"
    "atomic_post_ratify n cr fin height r prover tgt solutions True p rs st1 = Ok st'"
    using "3.prems"(1) by (auto simp: result_simps)
  obtain c1 ss1 where l: "load_stakers n cr r st1 = Ok (c1, ss1)" "grown (c, ss, st) (c1, ss1, st1) (reward + length ss)"
    using block_reward_step[OF "3.prems"(2) _ _ s(2)] s(1) "3.prems"(3,4) by (auto simp: grown_def)
  from "3.IH"[OF s(3) l(1)] "3.prems"(4) obtain c' ss' where
    "load_stakers n cr r st' = Ok (c', ss')" "grown (c1, ss1, st1) (c', ss', st') (sum_list (map ratified_reward rs))" by auto
  then show ?case using grown_trans[OF l(2)] s(1) by fastforce
next
  case (4 n cr fin height r prover tgt solutions b p reward rs st)
  let ?bound = "\<lambda>rs. sum_list (map ratified_reward rs) + (if b then 0 else length ss)"
  show ?case
  proof (cases "reward = 0 \<or> solutions = None")
    case True
    then have "\<exists>c' ss'. load_stakers n cr r st' = Ok (c', ss') \<and> grown (c, ss, st) (c', ss', st') (?bound rs)"
      using "4.IH"(1)[of c ss] "4.IH"(2)[of c ss] "4.prems" by (cases "reward = 0") (auto simp: result_simps)
    then show ?thesis using grown_trans[OF grown_refl[of c ss st 0]] by fastforce
  next
    case False
    then obtain ws where ws: "solutions = Some ws" "reward \<noteq> 0" by auto
    obtain st1 where s: "ratify_puzzle_reward prover tgt ws reward st = Ok st1"
      "atomic_post_ratify n cr fin height r prover tgt solutions b True rs st1 = Ok st'"
      using "4.prems"(1) ws by (auto simp: result_simps)
    note P = puzzle_reward_step[OF s(1)]
    have l: "load_stakers n cr r st1 = Ok (c, ss)" using "4.prems"(2) by (subst conjunct2[OF P]) (simp add: load_stakers_def)
    have g: "grown (c, ss, st) (c, ss, st1) reward" using P by (simp add: grown_def list.rel_refl)
    from "4.IH"(3)[OF ws(2,1) s(2) l "4.prems"(3)] "4.prems"(4) obtain c' ss' where
      "load_stakers n cr r st' = Ok (c', ss')" "grown (c, ss, st1) (c', ss', st') (?bound rs)" by auto
    then show ?thesis using grown_trans[OF g] by fastforce
  qed
qed

section \<open>A concrete store\<close>

text \<open>Four validators with the same stake, each bonded to itself.\<close>

definition sample_stakers :: stakers where
  "sample_stakers = map (\<lambda>k. (2 * k + 2, 2 * k + 2, 10000000000000)) [2, 3, 4, 5]"

definition sample_credits :: credits_store where
  "sample_credits =
     (case to_next_committee_bonded_delegated_map sample_committee sample_stakers (to_next_delegated sample_stakers) of
        (cm, bm, dm) \<Rightarrow> \<lparr>committee_mapping = cm, delegated_mapping = dm, bonded_mapping = bm, account_mapping = [],
          committee_store = committee_storage_new\<rparr>)"

lemma sample_stakers_simps:
  "wf_map sample_stakers" "\<forall>x\<in>set sample_stakers. snd (snd x) \<le> u64_max" "sum_list (stakes sample_stakers) = 40000000000000"
  "to_next_delegated sample_stakers = [(6, 10000000000000), (8, 10000000000000), (10, 10000000000000), (12, 10000000000000)]"
  by (simp_all add: sample_stakers_def wf_map_def u64_max_def to_next_delegated_def add_stake_def entry_update_def saturating_add_def)

lemma sample_next_committee:
  "to_next_committee MainnetV0 sample_crypto sample_committee 0 (to_next_delegated sample_stakers) = Ok sample_committee"
proof -
  have "List.map_filter (\<lambda>(v, m). map_option (\<lambda>(_, is_open, commission). (v, m, is_open, commission)) (map_of (members sample_committee) v))
      (to_next_delegated sample_stakers) = sample_members"
    by (simp add: sample_stakers_simps sample_committee_fields sample_members_def List.map_filter_simps)
  then show ?thesis by (simp add: to_next_committee_def sample_committee_new)
qed

lemma sample_load: "load_stakers MainnetV0 sample_crypto 0 sample_credits = Ok (sample_committee, sample_stakers)"
proof -
  obtain cm bm dm where m: "to_next_committee_bonded_delegated_map sample_committee sample_stakers (to_next_delegated sample_stakers) = (cm, bm, dm)"
    by (metis prod_cases3)
  show ?thesis by (rule next_maps_load[OF sample_next_committee sample_stakers_simps(1) m]) (simp_all add: sample_credits_def m)
qed

lemma sample_ratify: "\<exists>st'. ratify_block_reward MainnetV0 sample_crypto False 1 0 1000 sample_credits = Ok st'"
proof -
  let ?next = "map (\<lambda>k. (2 * k + 2, 2 * k + 2, 10000000000250)) [2, 3, 4, 5] :: stakers"
  have "staking_rewards sample_stakers sample_committee 1000 = Ok ?next"
    by (simp add: staking_rewards_def sample_stakers_def staker_reward_def valid_validators_def sample_committee_fields sample_members_def
        MIN_DELEGATOR_STAKE_def MAX_COINBASE_REWARD_def saturating_mul_def saturating_add_def saturating_sub_def u64_try_from_def u64_max_def u128_max_def)
  moreover have "is_ok (to_next_committee MainnetV0 sample_crypto sample_committee 0 (to_next_delegated ?next))"
    by (simp add: to_next_committee_def to_next_delegated_def add_stake_def entry_update_def saturating_add_def List.map_filter_simps
        committee_new_def sample_committee_fields sample_members_def max_committee_size_def mainnet_max_certificates
        MIN_VALIDATOR_STAKE_def compute_total_stake_def checked_add_def u64_max_def
        compute_committee_id_def write_member_def write_address_def write_field_def write_uint_def write_len_def write_bool_eq sample_crypto_def)
  ultimately show ?thesis
    by (auto simp: ratify_block_reward_def sample_load is_ok_iff Let_def split: prod.splits)
qed

lemma sample_post_ratify:
  "\<exists>st'. atomic_post_ratify MainnetV0 sample_crypto False 1 0 id (\<lambda>_. Ok 5) (Some [7, 9 :: nat]) False False
     [RatifyBlockReward 1000, RatifyPuzzleReward 100] sample_credits = Ok st'"
proof -
  obtain st1 where st1: "ratify_block_reward MainnetV0 sample_crypto False 1 0 1000 sample_credits = Ok st1" using sample_ratify by blast
  then have "account_mapping st1 = []"
    using block_reward_step[OF sample_load sample_stakers_simps(2) _ st1]
    by (auto simp: u64_max_def sample_credits_def to_next_committee_bonded_delegated_map_def)
  then have "\<exists>st'. ratify_puzzle_reward id (\<lambda>_. Ok 5) [7, 9 :: nat] 100 st1 = Ok st'"
    by (simp add: ratify_puzzle_reward_def proving_rewards_def prover_reward_def saturating_mul_def u128_max_def u64_try_from_def u64_max_def
        MAX_COINBASE_REWARD_def entry_update_def saturating_add_def pay_prover_def)
  then show ?thesis using st1 by auto
qed

section \<open>Properties\<close>

text \<open>C32. Paying the block reward to the stakers of a committee that matches them never fails.  Every staker keeps the validator and loses
  nothing, and together they get at most the reward and one microcredit per staker, which is the rounding of commissions.\<close>

theorem staking_rewards_bounded:
  assumes "wf_map ss" "wf_committee c" "ensure_stakers_matches c ss = Ok ()" "reward \<le> u64_max" "\<forall>x\<in>set ss. snd (snd x) \<le> u64_max"
  shows "\<exists>next. staking_rewards ss c reward = Ok next \<and> map (\<lambda>x. (fst x, fst (snd x))) next = map (\<lambda>x. (fst x, fst (snd x))) ss \<and>
    list_all2 (\<le>) (stakes ss) (stakes next) \<and> sum_list (stakes next) \<le> sum_list (stakes ss) + reward + length ss"
proof -
  obtain ss' where r: "staking_rewards ss c reward = Ok ss'" "list_all2 (rewarded c reward) ss ss'"
    using staking_rewards_result[OF assms(2,4,5)] by blast
  show ?thesis using r(1) rewarded_stakers[OF r(2)] total_gain[OF assms(1-3), of reward] by (intro exI[of _ ss']) simp
qed

theorem staking_rewards_bounded_witness:
  "\<exists>next. staking_rewards sample_stakers sample_committee 1000 = Ok next \<and> sum_list (stakes next) \<le> 40000000001004"
proof -
  note L = load_stakersD[OF sample_load]
  have "(1000 :: nat) \<le> u64_max" by (simp add: u64_max_def)
  from staking_rewards_bounded[OF L this sample_stakers_simps(2)] show ?thesis
    by (auto simp: sample_stakers_simps(3)) (simp add: sample_stakers_def)
qed

text \<open>C31. The rewards of a block keep the mappings consistent.  When all ratifications of a block have been applied, the mappings again
  hold a committee and stakers that match each other, with the same members and the same bonds; no stake is smaller; and stakes and
  account balances together grow by at most the ratified rewards and one microcredit per staker.\<close>

theorem rewards_ratified:
  assumes "load_stakers n cr r st = Ok (c, ss)" "\<forall>x\<in>set ss. snd (snd x) \<le> u64_max" "\<forall>x\<in>set rs. ratified_reward x \<le> u64_max"
    and "atomic_post_ratify n cr is_finalize height r prover get_proof_target solutions False False rs st = Ok st'"
  shows "\<exists>c' ss'. load_stakers n cr r st' = Ok (c', ss') \<and> set (keys (members c')) = set (keys (members c)) \<and>
    map (\<lambda>x. (fst x, fst (snd x))) ss' = map (\<lambda>x. (fst x, fst (snd x))) ss \<and> list_all2 (\<le>) (stakes ss) (stakes ss') \<and>
    sum_list (stakes ss') + sum_list (balances (account_mapping st')) \<le>
      sum_list (stakes ss) + sum_list (balances (account_mapping st)) + sum_list (map ratified_reward rs) + length ss"
  using post_ratify_grown[OF assms(4,1) _ assms(3)] assms(2) by (simp add: grown_def add.assoc)

theorem rewards_ratified_witness:
  "\<exists>st' c' ss'. atomic_post_ratify MainnetV0 sample_crypto False 1 0 id (\<lambda>_. Ok 5) (Some [7, 9 :: nat]) False False
       [RatifyBlockReward 1000, RatifyPuzzleReward 100] sample_credits = Ok st' \<and>
     load_stakers MainnetV0 sample_crypto 0 st' = Ok (c', ss') \<and> set (keys (members c')) = {6, 8, 10, 12} \<and>
     sum_list (stakes ss') + sum_list (balances (account_mapping st')) \<le> 40000000001104"
proof -
  let ?rs = "[RatifyBlockReward 1000, RatifyPuzzleReward 100]"
  obtain st' where st': "atomic_post_ratify MainnetV0 sample_crypto False 1 0 id (\<lambda>_. Ok 5) (Some [7, 9 :: nat]) False False
      ?rs sample_credits = Ok st'" using sample_post_ratify by blast
  have "\<forall>x\<in>set ?rs. ratified_reward x \<le> u64_max" by (simp add: u64_max_def)
  moreover have "set (keys (members sample_committee)) = {6, 8, 10, 12}" by (simp add: sample_committee_fields sample_members_def)
  moreover have "account_mapping sample_credits = []" by (simp add: sample_credits_def to_next_committee_bonded_delegated_map_def)
  moreover have "length sample_stakers = 4" by (simp add: sample_stakers_def)
  ultimately show ?thesis
    using rewards_ratified[OF sample_load sample_stakers_simps(2) _ st'] st' by (auto simp: sample_stakers_simps(3))
qed

end
