(* ===== verification/Mempool.thy ===== *)
theory Mempool
  imports Worker "HOL-Library.Product_Lexorder"
begin

text \<open>
  The queues in front of the workers, after \<open>node/consensus/src/transactions_queue.rs\<close> and
  \<open>node/consensus/src/lib.rs\<close>: transactions by fee, solutions, and what was seen recently.  The LRU cache is third-party
  code and a parameter.
\<close>

section \<open>The cache\<close>

record ('q, 'k, 'v) lru_queue =
  q_new :: "usize \<Rightarrow> 'q"
  q_len :: "'q \<Rightarrow> usize"
  q_contains :: "'q \<Rightarrow> 'k \<Rightarrow> bool"
  q_get_or_insert :: "'k \<Rightarrow> 'v \<Rightarrow> 'q \<Rightarrow> 'q"
  q_put :: "'k \<Rightarrow> 'v \<Rightarrow> 'q \<Rightarrow> 'v option \<times> 'q"
  q_pop_lru :: "'q \<Rightarrow> ('k \<times> 'v) option \<times> 'q"
  q_clear :: "'q \<Rightarrow> 'q"

section \<open>Priority queue\<close>

text \<open>The keys are ordered by fee, highest first, and then by the counter; the reversed fee is its negation.\<close>

record 'x priority_queue =
  pq_counter :: u64
  transaction_ids :: "(int \<times> u64, field) imap"
  pq_transactions :: "(field, 'x) imap"

definition priority_queue_default :: "'x priority_queue" where
  "priority_queue_default = \<lparr>pq_counter = 0, transaction_ids = [], pq_transactions = []\<rparr>"

definition priority_queue_len :: "'x priority_queue \<Rightarrow> usize" where
  "priority_queue_len q = length (pq_transactions q)"

definition priority_queue_insert :: "field \<Rightarrow> 'x \<Rightarrow> u64 \<Rightarrow> 'x priority_queue \<Rightarrow> 'x priority_queue" where
  "priority_queue_insert i x fee q =
     (if i \<in> set (keys (pq_transactions q)) then q
      else \<lparr>pq_counter = u64_add (pq_counter q) 1,
            transaction_ids = bmap_update (- int fee, pq_counter q) i (transaction_ids q),
            pq_transactions = AList.update i x (pq_transactions q)\<rparr>)"

definition compare_insert :: "field \<Rightarrow> 'x \<Rightarrow> u64 \<Rightarrow> 'x priority_queue \<Rightarrow> 'x priority_queue" where
  "compare_insert i x fee q =
     (if transaction_ids q = [] then q
      else let ((reverse_fee, _), lowest) = last (transaction_ids q)
           in if - reverse_fee > int fee then q
              else priority_queue_insert i x fee
                     (q\<lparr>transaction_ids := butlast (transaction_ids q), pq_transactions := AList.delete lowest (pq_transactions q)\<rparr>))"

definition priority_queue_pop :: "'x priority_queue \<Rightarrow> (field \<times> 'x) option \<times> 'x priority_queue" where
  "priority_queue_pop q =
     (case transaction_ids q of
        [] \<Rightarrow> (None, q)
      | (_, i) # rest \<Rightarrow>
          (map_option (\<lambda>x. (i, x)) (map_of (pq_transactions q) i),
           q\<lparr>transaction_ids := rest, pq_transactions := AList.delete i (pq_transactions q)\<rparr>))"

section \<open>Transactions queue\<close>

definition CAPACITY_FOR_DEPLOYMENTS :: usize where
  "CAPACITY_FOR_DEPLOYMENTS = 2 ^ 10"

definition CAPACITY_FOR_EXECUTIONS :: usize where
  "CAPACITY_FOR_EXECUTIONS = 2 ^ 10"

definition CAPACITY_FOR_SOLUTIONS :: usize where
  "CAPACITY_FOR_SOLUTIONS = 2 ^ 10"

definition MAX_DEPLOYMENTS_PER_INTERVAL :: usize where
  "MAX_DEPLOYMENTS_PER_INTERVAL = 1"

record ('q, 'x) transactions_queue_inner =
  capacity :: usize
  low_queue :: 'q
  high_queue :: "'x priority_queue"

definition transactions_queue_inner_new :: "('q, field, 'x) lru_queue \<Rightarrow> usize \<Rightarrow> ('q, 'x) transactions_queue_inner" where
  "transactions_queue_inner_new lru cap = \<lparr>capacity = cap, low_queue = q_new lru cap, high_queue = priority_queue_default\<rparr>"

definition inner_len :: "('q, field, 'x) lru_queue \<Rightarrow> ('q, 'x) transactions_queue_inner \<Rightarrow> usize" where
  "inner_len lru q = saturating_add u64_max (q_len lru (low_queue q)) (priority_queue_len (high_queue q))"

definition inner_contains :: "('q, field, 'x) lru_queue \<Rightarrow> ('q, 'x) transactions_queue_inner \<Rightarrow> field \<Rightarrow> bool" where
  "inner_contains lru q i \<longleftrightarrow> q_contains lru (low_queue q) i \<or> i \<in> set (keys (pq_transactions (high_queue q)))"

definition inner_insert ::
    "('q, field, 'x) lru_queue \<Rightarrow> field \<Rightarrow> 'x \<Rightarrow> u64 \<Rightarrow> ('q, 'x) transactions_queue_inner
      \<Rightarrow> unit result \<times> ('q, 'x) transactions_queue_inner" where
  "inner_insert lru i x fee q =
     (let low = q\<lparr>low_queue := q_get_or_insert lru i x (low_queue q)\<rparr>
      in if inner_len lru q < capacity q
         then if fee = 0 then (Ok (), low) else (Ok (), q\<lparr>high_queue := priority_queue_insert i x fee (high_queue q)\<rparr>)
         else if priority_queue_len (high_queue q) < capacity q
         then if fee = 0 then (Ok (), low)
              else (Ok (), q\<lparr>low_queue := snd (q_pop_lru lru (low_queue q)), high_queue := priority_queue_insert i x fee (high_queue q)\<rparr>)
         else if fee = 0 then (bail ''The memory pool is full'', q)
         else (Ok (), q\<lparr>high_queue := compare_insert i x fee (high_queue q)\<rparr>))"

definition inner_pop ::
    "('q, field, 'x) lru_queue \<Rightarrow> ('q, 'x) transactions_queue_inner \<Rightarrow> (field \<times> 'x) option \<times> ('q, 'x) transactions_queue_inner" where
  "inner_pop lru q =
     (case priority_queue_pop (high_queue q) of
        (Some e, h) \<Rightarrow> (Some e, q\<lparr>high_queue := h\<rparr>)
      | (None, h) \<Rightarrow> (case q_pop_lru lru (low_queue q) of (e, l) \<Rightarrow> (e, q\<lparr>high_queue := h, low_queue := l\<rparr>)))"

record ('q, 'x) transactions_queue =
  deployments :: "('q, 'x) transactions_queue_inner"
  executions :: "('q, 'x) transactions_queue_inner"

definition transactions_queue_default :: "('q, field, 'x) lru_queue \<Rightarrow> ('q, 'x) transactions_queue" where
  "transactions_queue_default lru = \<lparr>deployments = transactions_queue_inner_new lru CAPACITY_FOR_DEPLOYMENTS,
     executions = transactions_queue_inner_new lru CAPACITY_FOR_EXECUTIONS\<rparr>"

definition transactions_queue_contains :: "('q, field, 'x) lru_queue \<Rightarrow> ('q, 'x) transactions_queue \<Rightarrow> field \<Rightarrow> bool" where
  "transactions_queue_contains lru q i \<longleftrightarrow> inner_contains lru (executions q) i \<or> inner_contains lru (deployments q) i"

definition transactions_queue_insert ::
    "('s, 'x) vm \<Rightarrow> ('q, field, 'x) lru_queue \<Rightarrow> field \<Rightarrow> 'x \<Rightarrow> u64 \<Rightarrow> ('q, 'x) transactions_queue
      \<Rightarrow> unit result \<times> ('q, 'x) transactions_queue" where
  "transactions_queue_insert v lru i x fee q =
     (if transaction_kind_of v x = Execute
      then (case inner_insert lru i x fee (executions q) of (r, e) \<Rightarrow> (r, q\<lparr>executions := e\<rparr>))
      else (case inner_insert lru i x fee (deployments q) of (r, d) \<Rightarrow> (r, q\<lparr>deployments := d\<rparr>)))"

section \<open>Consensus\<close>

definition MAX_TRANSMISSIONS_TOLERANCE :: usize where
  "MAX_TRANSMISSIONS_TOLERANCE = MAX_TRANSMISSIONS_PER_BATCH * 2"

definition MAX_SOLUTIONS :: "network \<Rightarrow> usize" where
  "MAX_SOLUTIONS n = 2 ^ MAX_SOLUTIONS_AS_POWER_OF_TWO n"

record ('q, 'sq, 'seen, 'seens, 's, 'x) mempool_env =
  me_vm :: "('s, 'x) vm"
  me_transactions :: "('q, field, 'x) lru_queue"
  me_solutions :: "('sq, u64, 's) lru_queue"
  me_seen_transactions :: "('seen, field, unit) lru_queue"
  me_seen_solutions :: "('seens, u64, unit) lru_queue"
  transaction_checksum :: "'x \<Rightarrow> u128 result"
  solution_checksum :: "'s \<Rightarrow> u128 result"
  me_contains_transmission :: "transmission_id \<Rightarrow> bool result"
  priority_fee_amount :: "'x \<Rightarrow> u64 result"

record ('q, 'sq, 'seen, 'seens, 'x) consensus =
  solutions_queue :: 'sq
  transactions_queue :: "('q, 'x) transactions_queue"
  seen_solutions :: 'seens
  seen_transactions :: 'seen

text \<open>Adding up to the point where the queue is processed.\<close>

definition queue_unconfirmed_transaction ::
    "('q, 'sq, 'seen, 'seens, 's, 'x) mempool_env \<Rightarrow> 'x \<Rightarrow> ('q, 'sq, 'seen, 'seens, 'x) consensus
      \<Rightarrow> bool result \<times> ('q, 'sq, 'seen, 'seens, 'x) consensus" where
  "queue_unconfirmed_transaction e x c =
     (case transaction_checksum e x of
        Inl err \<Rightarrow> (Inl err, c)
      | Inr digest \<Rightarrow>
          let i = transaction_id_of (me_vm e) x in
          if transaction_kind_of (me_vm e) x = Fee then (bail ''Transaction is a fee transaction'', c)
          else case q_put (me_seen_transactions e) i () (seen_transactions c) of
            (Some _, seen) \<Rightarrow> (Ok False, c\<lparr>seen_transactions := seen\<rparr>)
          | (None, seen) \<Rightarrow>
              let c = c\<lparr>seen_transactions := seen\<rparr> in
              (case me_contains_transmission e (Transaction i digest) of
                 Inl err \<Rightarrow> (Inl err, c)
               | Inr True \<Rightarrow> (bail ''Transaction exists in the ledger'', c)
               | Inr False \<Rightarrow>
                   if transactions_queue_contains (me_transactions e) (transactions_queue c) i
                   then (bail ''Transaction exists in the memory pool'', c)
                   else case priority_fee_amount e x of
                     Inl err \<Rightarrow> (Inl err, c)
                   | Inr fee \<Rightarrow>
                       (case transactions_queue_insert (me_vm e) (me_transactions e) i x fee (transactions_queue c) of
                          (Inl err, q) \<Rightarrow> (Inl err, c\<lparr>transactions_queue := q\<rparr>)
                        | (Inr _, q) \<Rightarrow> (Ok True, c\<lparr>transactions_queue := q\<rparr>))))"

definition queue_unconfirmed_solution ::
    "('q, 'sq, 'seen, 'seens, 's, 'x) mempool_env \<Rightarrow> 's \<Rightarrow> ('q, 'sq, 'seen, 'seens, 'x) consensus
      \<Rightarrow> bool result \<times> ('q, 'sq, 'seen, 'seens, 'x) consensus" where
  "queue_unconfirmed_solution e x c =
     (case solution_checksum e x of
        Inl err \<Rightarrow> (Inl err, c)
      | Inr digest \<Rightarrow>
          let i = solution_id_of (me_vm e) x in
          case q_put (me_seen_solutions e) i () (seen_solutions c) of
            (Some _, seen) \<Rightarrow> (Ok False, c\<lparr>seen_solutions := seen\<rparr>)
          | (None, seen) \<Rightarrow>
              let c = c\<lparr>seen_solutions := seen\<rparr> in
              (case me_contains_transmission e (Solution i digest) of
                 Inl err \<Rightarrow> (Inl err, c)
               | Inr True \<Rightarrow> (bail ''Solution exists in the ledger'', c)
               | Inr False \<Rightarrow>
                   (case q_put (me_solutions e) i x (solutions_queue c) of
                      (Some _, q) \<Rightarrow> (bail ''Solution exists in the memory pool'', c\<lparr>solutions_queue := q\<rparr>)
                    | (None, q) \<Rightarrow> (Ok True, c\<lparr>solutions_queue := q\<rparr>))))"

text \<open>Taking transmissions for the workers; the counts are what the workers hold already.\<close>

fun pop_solutions :: "('sq, u64, 's) lru_queue \<Rightarrow> nat \<Rightarrow> 'sq \<Rightarrow> 's list \<times> 'sq" where
  "pop_solutions lru 0 q = ([], q)"
| "pop_solutions lru (Suc n) q =
     (case q_pop_lru lru q of
        (None, q) \<Rightarrow> pop_solutions lru n q
      | (Some (_, x), q) \<Rightarrow> (case pop_solutions lru n q of (xs, q) \<Rightarrow> (x # xs, q)))"

definition take_unconfirmed_solutions ::
    "network \<Rightarrow> ('q, 'sq, 'seen, 'seens, 's, 'x) mempool_env \<Rightarrow> usize \<Rightarrow> usize \<Rightarrow> ('q, 'sq, 'seen, 'seens, 'x) consensus
      \<Rightarrow> 's list \<times> ('q, 'sq, 'seen, 'seens, 'x) consensus" where
  "take_unconfirmed_solutions n e num_unconfirmed_solutions num_unconfirmed_transmissions c =
     (if num_unconfirmed_solutions \<ge> MAX_SOLUTIONS n \<or> num_unconfirmed_transmissions \<ge> MAX_TRANSMISSIONS_TOLERANCE then ([], c)
      else let available = saturating_sub (MAX_SOLUTIONS n) num_unconfirmed_solutions;
               num_solutions = min (q_len (me_solutions e) (solutions_queue c)) available
           in case pop_solutions (me_solutions e) num_solutions (solutions_queue c) of
                (xs, q) \<Rightarrow> (xs, c\<lparr>solutions_queue := q\<rparr>))"

fun interleave :: "'v list \<Rightarrow> 'v list \<Rightarrow> 'v list" where
  "interleave [] ys = ys"
| "interleave (x # xs) ys = (case ys of [] \<Rightarrow> x # xs | y # ys \<Rightarrow> x # y # interleave xs ys)"

fun pop_transactions :: "('q, field, 'x) lru_queue \<Rightarrow> bool list \<Rightarrow> ('q, 'x) transactions_queue \<Rightarrow> 'x list \<times> ('q, 'x) transactions_queue" where
  "pop_transactions lru [] q = ([], q)"
| "pop_transactions lru (select_deployment # bs) q =
     (let (popped, q) = (if select_deployment
                         then (case inner_pop lru (deployments q) of (p, d) \<Rightarrow> (p, q\<lparr>deployments := d\<rparr>))
                         else (case inner_pop lru (executions q) of (p, d) \<Rightarrow> (p, q\<lparr>executions := d\<rparr>)));
          (xs, q) = pop_transactions lru bs q
      in (case popped of Some (_, x) \<Rightarrow> x # xs | None \<Rightarrow> xs, q))"

definition take_unconfirmed_transactions ::
    "('q, 'sq, 'seen, 'seens, 's, 'x) mempool_env \<Rightarrow> usize \<Rightarrow> ('q, 'sq, 'seen, 'seens, 'x) consensus
      \<Rightarrow> 'x list \<times> ('q, 'sq, 'seen, 'seens, 'x) consensus" where
  "take_unconfirmed_transactions e num_unconfirmed_transmissions c =
     (if num_unconfirmed_transmissions \<ge> MAX_TRANSMISSIONS_TOLERANCE then ([], c)
      else let lru = me_transactions e; q = transactions_queue c;
               available = saturating_sub MAX_TRANSMISSIONS_TOLERANCE num_unconfirmed_transmissions;
               num_deployments = min (min (inner_len lru (deployments q)) available) MAX_DEPLOYMENTS_PER_INTERVAL;
               num_executions = min (inner_len lru (executions q)) (saturating_sub available num_deployments)
           in case pop_transactions lru (interleave (replicate num_deployments True) (replicate num_executions False)) q of
                (xs, q) \<Rightarrow> (xs, c\<lparr>transactions_queue := q\<rparr>))"

definition clear_solutions_at_epoch ::
    "network \<Rightarrow> ('q, 'sq, 'seen, 'seens, 's, 'x) mempool_env \<Rightarrow> u32 \<Rightarrow> ('q, 'sq, 'seen, 'seens, 'x) consensus
      \<Rightarrow> ('q, 'sq, 'seen, 'seens, 'x) consensus" where
  "clear_solutions_at_epoch n e block_height c =
     (if block_height mod NUM_BLOCKS_PER_EPOCH n = 0 then c\<lparr>solutions_queue := q_clear (me_solutions e) (solutions_queue c)\<rparr> else c)"

section \<open>The cache as a list\<close>

text \<open>What the cache is documented to do, over its entries from the least to the most recently used.\<close>

definition lru_ok :: "('q \<Rightarrow> ('k \<times> 'v) list) \<Rightarrow> usize \<Rightarrow> 'q \<Rightarrow> bool" where
  "lru_ok entries cap q \<longleftrightarrow> distinct (keys (entries q)) \<and> length (entries q) \<le> cap"

definition used :: "usize \<Rightarrow> 'k \<Rightarrow> 'v \<Rightarrow> ('k \<times> 'v) list \<Rightarrow> ('k \<times> 'v) list" where
  "used cap k v es =
     (if k \<in> set (keys es) then filter (\<lambda>(j, _). j \<noteq> k) es @ [(k, v)]
      else (if length es = cap then tl es else es) @ [(k, v)])"

definition lru_laws :: "('q, 'k, 'v) lru_queue \<Rightarrow> ('q \<Rightarrow> ('k \<times> 'v) list) \<Rightarrow> usize \<Rightarrow> bool" where
  "lru_laws lru entries cap \<longleftrightarrow> entries (q_new lru cap) = [] \<and>
     (\<forall>q. lru_ok entries cap q \<longrightarrow>
       q_len lru q = length (entries q) \<and>
       (\<forall>k. q_contains lru q k \<longleftrightarrow> k \<in> set (keys (entries q))) \<and>
       (\<forall>k v. entries (q_get_or_insert lru k v q) =
          used cap k (case map_of (entries q) k of Some w \<Rightarrow> w | None \<Rightarrow> v) (entries q)) \<and>
       (\<forall>k v. fst (q_put lru k v q) = map_of (entries q) k \<and> entries (snd (q_put lru k v q)) = used cap k v (entries q)) \<and>
       fst (q_pop_lru lru q) = (case entries q of [] \<Rightarrow> None | e # es \<Rightarrow> Some e) \<and>
       entries (snd (q_pop_lru lru q)) = tl (entries q) \<and>
       entries (q_clear lru q) = [])"

lemma lru_lawsD:
  assumes "lru_laws lru entries cap"
  shows "entries (q_new lru cap) = []"
    and "lru_ok entries cap q \<Longrightarrow> q_len lru q = length (entries q)"
    and "lru_ok entries cap q \<Longrightarrow> q_contains lru q k \<longleftrightarrow> k \<in> set (keys (entries q))"
    and "lru_ok entries cap q \<Longrightarrow> entries (q_get_or_insert lru k v q) =
      used cap k (case map_of (entries q) k of Some w \<Rightarrow> w | None \<Rightarrow> v) (entries q)"
    and "lru_ok entries cap q \<Longrightarrow> fst (q_put lru k v q) = map_of (entries q) k"
    and "lru_ok entries cap q \<Longrightarrow> entries (snd (q_put lru k v q)) = used cap k v (entries q)"
    and "lru_ok entries cap q \<Longrightarrow> fst (q_pop_lru lru q) = (case entries q of [] \<Rightarrow> None | e # es \<Rightarrow> Some e)"
    and "lru_ok entries cap q \<Longrightarrow> entries (snd (q_pop_lru lru q)) = tl (entries q)"
  using assms unfolding lru_laws_def by blast+

lemma keys_used: "k \<in> set (keys (used cap k v es))"
  by (simp add: used_def)

lemma used_ok:
  assumes "distinct (keys es)" "length es \<le> cap" "0 < cap"
  shows "distinct (keys (used cap k v es)) \<and> length (used cap k v es) \<le> cap"
proof -
  have d: "distinct (keys (filter P es))" for P using assms(1) distinct_map_filter by blast
  have l: "k \<in> set (keys es) \<Longrightarrow> length (filter (\<lambda>(j, _). j \<noteq> k) es) < length es"
    by (force intro: length_filter_less)
  show ?thesis
  proof (cases "k \<in> set (keys es)")
    case True
    have "k \<notin> set (keys (filter (\<lambda>(j, _). j \<noteq> k) es))" by auto
    then show ?thesis using True d[of "\<lambda>(j, _). j \<noteq> k"] l assms(2) by (simp add: used_def)
  next
    case False
    then have "\<forall>b. (k, b) \<notin> set (tl es)" by (cases es) force+
    moreover have "distinct (keys (tl es))" using assms(1) by (simp add: map_tl distinct_tl)
    ultimately show ?thesis using False assms by (auto simp: used_def)
  qed
qed

lemma lru_ok_steps:
  assumes "lru_laws lru entries cap" "lru_ok entries cap q" "0 < cap"
  shows "lru_ok entries cap (q_get_or_insert lru k v q)" "lru_ok entries cap (snd (q_put lru k v q))"
    "lru_ok entries cap (snd (q_pop_lru lru q))"
proof -
  have d: "distinct (keys (entries q))" "length (entries q) \<le> cap" using assms(2) by (simp_all add: lru_ok_def)
  note law = lru_lawsD[OF assms(1)]
  show "lru_ok entries cap (q_get_or_insert lru k v q)" "lru_ok entries cap (snd (q_put lru k v q))"
    using used_ok[OF d assms(3)] law(4,6)[OF assms(2)] by (simp_all add: lru_ok_def)
  show "lru_ok entries cap (snd (q_pop_lru lru q))"
    using d law(8)[OF assms(2)] by (auto simp: lru_ok_def distinct_tl map_tl)
qed

section \<open>Invariant of the queues\<close>

definition pq_ok :: "'x priority_queue \<Rightarrow> bool" where
  "pq_ok q \<longleftrightarrow> wf_bmap (transaction_ids q) \<and> wf_map (pq_transactions q) \<and> distinct (vals (transaction_ids q)) \<and>
     set (vals (transaction_ids q)) = set (keys (pq_transactions q)) \<and>
     (\<forall>k\<in>set (keys (transaction_ids q)). snd k < pq_counter q)"

lemma pq_len:
  assumes "pq_ok q"
  shows "length (transaction_ids q) = priority_queue_len q"
proof -
  have "length (vals (transaction_ids q)) = card (set (keys (pq_transactions q)))"
    using assms distinct_card[of "vals (transaction_ids q)"] by (simp add: pq_ok_def)
  also have "\<dots> = length (keys (pq_transactions q))" using assms by (intro distinct_card) (simp add: pq_ok_def wf_map_def)
  finally show ?thesis by (simp add: priority_queue_len_def)
qed

lemma bmap_update_fresh: "k \<notin> set (keys m) \<Longrightarrow> \<exists>xs ys. m = xs @ ys \<and> bmap_update k v m = xs @ (k, v) # ys"
proof (induction m)
  case (Cons e m)
  show ?case
  proof (cases "k < fst e")
    case True
    then show ?thesis by (intro exI[of _ "[]"] exI[of _ "e # m"]) simp
  next
    case False
    obtain xs ys where "m = xs @ ys" "bmap_update k v m = xs @ (k, v) # ys" using Cons by auto
    then show ?thesis using False Cons.prems by (intro exI[of _ "e # xs"] exI[of _ ys]) auto
  qed
qed simp

lemma pq_insert_ok:
  assumes "pq_ok q" "pq_counter q < u64_max"
  shows "pq_ok (priority_queue_insert i x fee q) \<and> pq_counter (priority_queue_insert i x fee q) \<le> pq_counter q + 1 \<and>
    priority_queue_len (priority_queue_insert i x fee q) = (if i \<in> set (keys (pq_transactions q)) then 0 else 1) + priority_queue_len q"
proof (cases "i \<in> set (keys (pq_transactions q))")
  case True
  then show ?thesis using assms(1) by (simp add: priority_queue_insert_def)
next
  case False
  let ?k = "(- int fee, pq_counter q)" and ?q = "priority_queue_insert i x fee q"
  have c: "u64_add (pq_counter q) 1 = pq_counter q + 1" using assms(2) by (intro u64_add_exact) simp
  have "?k \<notin> set (keys (transaction_ids q))"
  proof
    assume "?k \<in> set (keys (transaction_ids q))"
    then have "snd ?k < pq_counter q" using assms(1) unfolding pq_ok_def by blast
    then show False by simp
  qed
  from bmap_update_fresh[OF this, of i] obtain xs ys where u: "transaction_ids q = xs @ ys"
    "bmap_update ?k i (transaction_ids q) = xs @ (?k, i) # ys" by blast
  have f: "transaction_ids ?q = xs @ (?k, i) # ys" "pq_counter ?q = pq_counter q + 1"
    "keys (pq_transactions ?q) = keys (pq_transactions q) @ [i]" "wf_map (pq_transactions ?q)"
    using False u(2) c assms(1) by (simp_all add: priority_queue_insert_def pq_ok_def AList.update_keys)
  have "wf_bmap (transaction_ids ?q)" using assms(1) u(2) f(1) wf_bmap_update[of "transaction_ids q" ?k i] by (simp add: pq_ok_def)
  moreover have vs: "vals (transaction_ids q) = vals xs @ vals ys" "vals (transaction_ids ?q) = vals xs @ i # vals ys"
    using u(1) f(1) by simp_all
  have set: "set (vals xs @ vals ys) = set (keys (pq_transactions q))" using assms(1) unfolding vs(1)[symmetric] by (simp add: pq_ok_def)
  then have n: "i \<notin> set (vals xs @ vals ys)" using False by simp
  have "distinct (vals xs @ vals ys)" using assms(1) unfolding vs(1)[symmetric] by (simp add: pq_ok_def)
  then have "distinct (vals (transaction_ids ?q))" unfolding vs(2) using n by (simp del: set_map)
  moreover have "set (vals (transaction_ids ?q)) = set (keys (pq_transactions ?q))"
    unfolding vs(2) f(3) using set by (simp del: set_map)
  moreover have "\<forall>k\<in>set (keys xs @ keys ys). snd k < pq_counter q" using assms(1) u(1) by (simp add: pq_ok_def)
  then have "\<forall>k\<in>set (keys (transaction_ids ?q)). snd k < pq_counter ?q" unfolding f(1,2) by (auto simp: less_SucI)
  moreover have "priority_queue_len ?q = 1 + priority_queue_len q"
    using arg_cong[OF f(3), of length] by (simp add: priority_queue_len_def)
  ultimately show ?thesis using f(2,4) False unfolding pq_ok_def by simp
qed

lemma pq_remove_ok:
  assumes "pq_ok q" "transaction_ids q = xs @ (k, i) # ys"
  shows "pq_ok (q\<lparr>transaction_ids := xs @ ys, pq_transactions := AList.delete i (pq_transactions q)\<rparr>)"
    "priority_queue_len (q\<lparr>transaction_ids := xs @ ys, pq_transactions := AList.delete i (pq_transactions q)\<rparr>) + 1 = priority_queue_len q"
proof -
  let ?q = "q\<lparr>transaction_ids := xs @ ys, pq_transactions := AList.delete i (pq_transactions q)\<rparr>"
  have v: "vals (transaction_ids q) = vals xs @ i # vals ys" using assms(2) by simp
  have d: "distinct (vals xs @ i # vals ys)" "set (vals xs @ i # vals ys) = set (keys (pq_transactions q))"
    using assms(1) unfolding v[symmetric] by (simp_all add: pq_ok_def)
  have "wf_bmap (xs @ ys)" using assms by (auto simp: pq_ok_def wf_bmap_def sorted_wrt_append)
  moreover have "set (keys (AList.delete i (pq_transactions q))) = set (keys (pq_transactions q)) - {i}" by (simp add: AList.delete_keys)
  then have "set (vals (xs @ ys)) = set (keys (AList.delete i (pq_transactions q)))"
    using d unfolding d(2)[symmetric] by (auto simp del: set_map)
  moreover have "\<forall>k\<in>set (keys (xs @ ys)). snd k < pq_counter q" using assms by (simp add: pq_ok_def)
  ultimately show ok: "pq_ok ?q" using assms(1) d(1) by (simp add: pq_ok_def)
  show "priority_queue_len ?q + 1 = priority_queue_len q"
    using pq_len[OF ok] pq_len[OF assms(1)] assms(2) by simp
qed

lemma compare_insert_ok:
  assumes "pq_ok q" "pq_counter q < u64_max"
  shows "pq_ok (compare_insert i x fee q) \<and> pq_counter (compare_insert i x fee q) \<le> pq_counter q + 1 \<and>
    priority_queue_len (compare_insert i x fee q) \<le> priority_queue_len q"
proof (cases "transaction_ids q" rule: rev_cases)
  case (snoc ids e)
  obtain f n j where e: "e = ((f, n), j)" by (cases e) auto
  let ?q = "q\<lparr>transaction_ids := ids, pq_transactions := AList.delete j (pq_transactions q)\<rparr>"
  have "transaction_ids q = ids @ ((f, n), j) # []" using snoc e by simp
  note r = pq_remove_ok[OF assms(1) this, unfolded append_Nil2]
  have "compare_insert i x fee q = (if - f > int fee then q else priority_queue_insert i x fee ?q)"
    using snoc e by (simp add: compare_insert_def)
  moreover have "pq_counter ?q < u64_max" using assms(2) by simp
  note pq_insert_ok[OF r(1) this, of i x fee]
  ultimately show ?thesis using assms(1) r(2) by (auto split: if_splits)
qed (simp add: compare_insert_def assms)

lemma pq_pop_ok:
  assumes "pq_ok q"
  shows "case transaction_ids q of
      [] \<Rightarrow> priority_queue_pop q = (None, q)
    | (k, i) # rest \<Rightarrow> (\<exists>x q'. map_of (pq_transactions q) i = Some x \<and> priority_queue_pop q = (Some (i, x), q') \<and> pq_ok q' \<and>
        transaction_ids q' = rest \<and> pq_counter q' = pq_counter q \<and> pq_transactions q' = AList.delete i (pq_transactions q) \<and>
        priority_queue_len q' + 1 = priority_queue_len q)"
proof (cases "transaction_ids q")
  case (Cons e rest)
  obtain k i where e: "e = (k, i)" by (cases e)
  have "i \<in> set (keys (pq_transactions q))" using assms unfolding pq_ok_def Cons e by auto
  then obtain x where x: "map_of (pq_transactions q) i = Some x" by (metis map_of_eq_None_iff not_None_eq set_map)
  have "transaction_ids q = [] @ (k, i) # rest" using Cons e by simp
  note r = pq_remove_ok[OF assms this, unfolded append_Nil]
  show ?thesis using r x Cons e by (simp add: priority_queue_pop_def)
qed (simp add: priority_queue_pop_def)

definition inner_ok :: "('q \<Rightarrow> (field \<times> 'x) list) \<Rightarrow> nat \<Rightarrow> ('q, 'x) transactions_queue_inner \<Rightarrow> bool" where
  "inner_ok entries n q \<longleftrightarrow> 0 < capacity q \<and> capacity q \<le> u64_max \<and> lru_ok entries (capacity q) (low_queue q) \<and> pq_ok (high_queue q) \<and>
     pq_counter (high_queue q) \<le> n \<and> priority_queue_len (high_queue q) \<le> capacity q"

lemma inner_insert_cases:
  assumes "inner_insert lru i x fee q = (r, q')"
  obtains "q' = q" | "fee = 0" "q' = q\<lparr>low_queue := q_get_or_insert lru i x (low_queue q)\<rparr>"
    | "inner_len lru q < capacity q" "q' = q\<lparr>high_queue := priority_queue_insert i x fee (high_queue q)\<rparr>"
    | "priority_queue_len (high_queue q) < capacity q"
      "q' = q\<lparr>low_queue := snd (q_pop_lru lru (low_queue q)), high_queue := priority_queue_insert i x fee (high_queue q)\<rparr>"
    | "q' = q\<lparr>high_queue := compare_insert i x fee (high_queue q)\<rparr>"
  using assms by (auto simp: inner_insert_def Let_def split: if_splits)

lemma inner_insert_ok:
  assumes "lru_laws lru entries (capacity q)" "inner_ok entries n q" "n < u64_max" "inner_insert lru i x fee q = (r, q')"
  shows "inner_ok entries (Suc n) q' \<and> capacity q' = capacity q"
proof -
  have a: "0 < capacity q" "lru_ok entries (capacity q) (low_queue q)" "pq_ok (high_queue q)" "pq_counter (high_queue q) \<le> n"
    "priority_queue_len (high_queue q) \<le> capacity q" "capacity q \<le> u64_max" using assms(2) by (simp_all add: inner_ok_def)
  note steps = lru_ok_steps[OF assms(1) a(2,1)]
  have c: "pq_counter (high_queue q) < u64_max" using a(4) assms(3) by simp
  note ins = pq_insert_ok[OF a(3) c, of i x fee] and cmp = compare_insert_ok[OF a(3) c, of i x fee]
  have lt: "priority_queue_len (high_queue q) < capacity q" if "inner_len lru q < capacity q"
    using that a(5,6) by (auto simp: inner_len_def saturating_add_def min_def split: if_splits)
  from assms(4) show ?thesis
  proof (cases rule: inner_insert_cases)
    case 1
    then show ?thesis using assms(2) by (simp add: inner_ok_def)
  next
    case 2
    then show ?thesis using a steps by (simp add: inner_ok_def)
  next
    case 3
    then show ?thesis using a ins lt by (auto simp: inner_ok_def)
  next
    case 4
    then show ?thesis using a steps ins by (simp add: inner_ok_def)
  next
    case 5
    then show ?thesis using a cmp by (simp add: inner_ok_def)
  qed
qed

lemma inner_pop_cases:
  assumes "inner_ok entries n q"
  obtains "transaction_ids (high_queue q) = []" "inner_pop lru q = (fst (q_pop_lru lru (low_queue q)), q\<lparr>low_queue := snd (q_pop_lru lru (low_queue q))\<rparr>)"
  | k i rest x h where "transaction_ids (high_queue q) = (k, i) # rest" "map_of (pq_transactions (high_queue q)) i = Some x"
    "inner_pop lru q = (Some (i, x), q\<lparr>high_queue := h\<rparr>)" "pq_ok h" "transaction_ids h = rest" "pq_counter h = pq_counter (high_queue q)"
    "pq_transactions h = AList.delete i (pq_transactions (high_queue q))" "priority_queue_len h + 1 = priority_queue_len (high_queue q)"
proof -
  have ok: "pq_ok (high_queue q)" using assms by (simp add: inner_ok_def)
  show thesis
  proof (cases "transaction_ids (high_queue q)")
    case Nil
    then have "priority_queue_pop (high_queue q) = (None, high_queue q)" using pq_pop_ok[OF ok] by simp
    then show thesis using that(1)[OF Nil] by (simp add: inner_pop_def split: prod.split)
  next
    case (Cons e rest)
    obtain k i where e: "e = (k, i)" by (cases e)
    obtain x h where "map_of (pq_transactions (high_queue q)) i = Some x" "priority_queue_pop (high_queue q) = (Some (i, x), h)" "pq_ok h"
      "transaction_ids h = rest" "pq_counter h = pq_counter (high_queue q)"
      "pq_transactions h = AList.delete i (pq_transactions (high_queue q))" "priority_queue_len h + 1 = priority_queue_len (high_queue q)"
      using pq_pop_ok[OF ok] unfolding Cons e by auto
    then show thesis using that(2)[OF Cons[unfolded e]] by (simp add: inner_pop_def)
  qed
qed

lemma inner_pop_ok:
  assumes "lru_laws lru entries (capacity q)" "inner_ok entries n q" "inner_pop lru q = (e, q')"
  shows "inner_ok entries n q' \<and> capacity q' = capacity q"
  using assms(2)
proof (cases rule: inner_pop_cases[where lru = lru])
  case 1
  then show ?thesis using assms(2,3) lru_ok_steps(3)[OF assms(1)] by (auto simp: inner_ok_def)
next
  case (2 k i rest x h)
  then show ?thesis using assms(2,3) by (auto simp: inner_ok_def)
qed

text \<open>The keys carry the fees, and only transactions without a priority fee are in the cache.\<close>

definition fees_ok :: "('q \<Rightarrow> (field \<times> 'x) list) \<Rightarrow> (field \<Rightarrow> u64) \<Rightarrow> ('q, 'x) transactions_queue_inner \<Rightarrow> bool" where
  "fees_ok entries fee q \<longleftrightarrow> (\<forall>((f, _), i)\<in>set (transaction_ids (high_queue q)). f = - int (fee i)) \<and>
     (\<forall>(i, _)\<in>set (entries (low_queue q)). fee i = 0)"

lemma set_bmap_update_subset: "set (bmap_update k v m) \<subseteq> insert (k, v) (set m)"
  by (induction m) auto

lemma set_used_subset: "set (used cap k v es) \<subseteq> insert (k, v) (set es)"
  by (cases es) (auto simp: used_def split: if_splits)

lemma fees_of_keys:
  assumes "fees_ok entries fee q" "a \<in> set (transaction_ids (high_queue q))" "b \<in> set (transaction_ids (high_queue q))" "fst a < fst b"
  shows "fee (snd b) \<le> fee (snd a)"
proof -
  obtain f c i g d j where ab: "a = ((f, c), i)" "b = ((g, d), j)" by (metis surj_pair)
  have "f = - int (fee i)" "g = - int (fee j)" using assms(1-3) unfolding fees_ok_def ab by blast+
  moreover have "f \<le> g" using assms(4) unfolding ab by (auto simp: less_prod_def)
  ultimately show ?thesis by (simp add: ab)
qed

lemma pq_insert_subset:
  "set (transaction_ids (priority_queue_insert i x fee q)) \<subseteq> insert ((- int fee, pq_counter q), i) (set (transaction_ids q))"
  using set_bmap_update_subset[of "(- int fee, pq_counter q)" i "transaction_ids q"] by (simp add: priority_queue_insert_def subset_insertI)

lemma compare_insert_subset:
  "set (transaction_ids (compare_insert i x fee q)) \<subseteq> insert ((- int fee, pq_counter q), i) (set (transaction_ids q))"
proof -
  let ?q = "\<lambda>m. q\<lparr>transaction_ids := butlast (transaction_ids q), pq_transactions := m\<rparr>"
  have "set (transaction_ids (priority_queue_insert i x fee (?q m))) \<subseteq> insert ((- int fee, pq_counter q), i) (set (transaction_ids q))" for m
    using pq_insert_subset[of i x fee "?q m"] in_set_butlastD[of _ "transaction_ids q"] by auto
  then show ?thesis by (auto simp: compare_insert_def split: prod.split)
qed

lemma fees_insert:
  assumes "lru_laws lru entries (capacity q)" "inner_ok entries n q" "fees_ok entries fee q" "inner_insert lru i x (fee i) q = (r, q')"
  shows "fees_ok entries fee q'"
proof -
  have l: "lru_ok entries (capacity q) (low_queue q)" using assms(2) by (simp add: inner_ok_def)
  have low: "\<forall>(j, _)\<in>set (entries (q_get_or_insert lru i x (low_queue q))). fee j = 0" if "fee i = 0"
    using that assms(3) set_used_subset[of "capacity q" i _ "entries (low_queue q)"]
    unfolding lru_lawsD(4)[OF assms(1) l] fees_ok_def by fastforce
  have pop: "set (entries (snd (q_pop_lru lru (low_queue q)))) \<subseteq> set (entries (low_queue q))"
    unfolding lru_lawsD(8)[OF assms(1) l] by (cases "entries (low_queue q)") auto
  note ins = pq_insert_subset[of i x "fee i" "high_queue q"] and cmp = compare_insert_subset[of i x "fee i" "high_queue q"]
  from assms(4) show ?thesis
  proof (cases rule: inner_insert_cases)
    case 1
    then show ?thesis using assms(3) by simp
  next
    case 2
    then show ?thesis using assms(3) low by (simp add: fees_ok_def)
  next
    case 3
    then show ?thesis using assms(3) ins by (auto simp: fees_ok_def)
  next
    case 4
    then show ?thesis using assms(3) ins pop by (auto simp: fees_ok_def)
  next
    case 5
    then show ?thesis using assms(3) cmp by (auto simp: fees_ok_def)
  qed
qed

lemma fees_pop:
  assumes "lru_laws lru entries (capacity q)" "inner_ok entries n q" "fees_ok entries fee q" "inner_pop lru q = (e, q')"
  shows "fees_ok entries fee q'"
proof -
  have l: "lru_ok entries (capacity q) (low_queue q)" using assms(2) by (simp add: inner_ok_def)
  have pop: "set (entries (snd (q_pop_lru lru (low_queue q)))) \<subseteq> set (entries (low_queue q))"
    unfolding lru_lawsD(8)[OF assms(1) l] by (cases "entries (low_queue q)") auto
  from assms(2) show ?thesis
  proof (cases rule: inner_pop_cases[where lru = lru])
    case 1
    then show ?thesis using assms(3,4) pop by (auto simp: fees_ok_def)
  next
    case (2 k i rest x h)
    then show ?thesis using assms(3,4) by (auto simp: fees_ok_def)
  qed
qed

text \<open>The states after \<open>n\<close> insertions, each with the fee of its transaction.\<close>

inductive inner_reachable ::
    "('q, field, 'x) lru_queue \<Rightarrow> (field \<Rightarrow> u64) \<Rightarrow> usize \<Rightarrow> nat \<Rightarrow> ('q, 'x) transactions_queue_inner \<Rightarrow> bool" for lru fee cap where
  inner_new: "inner_reachable lru fee cap 0 (transactions_queue_inner_new lru cap)"
| inner_inserted: "inner_reachable lru fee cap n q \<Longrightarrow> inner_insert lru i x (fee i) q = (r, q') \<Longrightarrow> inner_reachable lru fee cap (Suc n) q'"
| inner_popped: "inner_reachable lru fee cap n q \<Longrightarrow> inner_pop lru q = (e, q') \<Longrightarrow> inner_reachable lru fee cap n q'"

lemma inner_reachable_ok:
  assumes "lru_laws lru entries cap" "0 < cap" "cap \<le> u64_max"
  shows "inner_reachable lru fee cap n q \<Longrightarrow> n \<le> u64_max \<Longrightarrow> inner_ok entries n q \<and> fees_ok entries fee q \<and> capacity q = cap"
proof (induction rule: inner_reachable.induct)
  case inner_new
  have "pq_ok (priority_queue_default :: 'b priority_queue)" by (simp add: pq_ok_def priority_queue_default_def wf_map_def)
  then show ?case
    using assms lru_lawsD(1)[OF assms(1)]
    by (simp add: inner_ok_def fees_ok_def transactions_queue_inner_new_def lru_ok_def priority_queue_default_def priority_queue_len_def)
next
  case (inner_inserted n q i x r q')
  then have q: "inner_ok entries n q" "fees_ok entries fee q" "capacity q = cap" by simp_all
  then show ?case
    using inner_insert_ok[of lru entries q n i x "fee i" r q'] fees_insert[of lru entries q n fee i x r q'] inner_inserted.hyps(2)
      inner_inserted.prems assms(1) by simp
next
  case (inner_popped n q e q')
  then show ?case using inner_pop_ok[of lru entries q n e q'] fees_pop[of lru entries q n fee e q'] assms(1) by simp
qed

section \<open>The order of service\<close>

fun drain :: "('q, field, 'x) lru_queue \<Rightarrow> nat \<Rightarrow> ('q, 'x) transactions_queue_inner \<Rightarrow> (field \<times> 'x) list" where
  "drain lru 0 q = []"
| "drain lru (Suc n) q = (case inner_pop lru q of (None, _) \<Rightarrow> [] | (Some e, q') \<Rightarrow> e # drain lru n q')"

lemma drain_low:
  assumes "lru_laws lru entries (capacity q)" "inner_ok entries n q" "transaction_ids (high_queue q) = []"
    "es = entries (low_queue q)"
  shows "drain lru (length es) q = es"
  using assms
proof (induction es arbitrary: q)
  case (Cons e es)
  let ?q = "q\<lparr>low_queue := snd (q_pop_lru lru (low_queue q))\<rparr>"
  have l: "lru_ok entries (capacity q) (low_queue q)" using Cons.prems(2) by (simp add: inner_ok_def)
  have p: "inner_pop lru q = (Some e, ?q)"
    using Cons.prems(2)
  proof (cases rule: inner_pop_cases[where lru = lru])
    case 1
    then show ?thesis using lru_lawsD(7)[OF Cons.prems(1) l] Cons.prems(4)[symmetric] by simp
  qed (simp add: Cons.prems(3))
  have "es = entries (low_queue ?q)" using lru_lawsD(8)[OF Cons.prems(1) l] Cons.prems(4)[symmetric] by simp
  then have "drain lru (length es) ?q = es"
    using inner_pop_ok[OF Cons.prems(1,2) p] Cons.prems(1,3) by (intro Cons.IH) simp_all
  then show ?case using p by simp
qed simp

lemma drain_all:
  assumes "lru_laws lru entries (capacity q)" "inner_ok entries n q" "ids = transaction_ids (high_queue q)"
  shows "drain lru (length ids + length (entries (low_queue q))) q =
    map (\<lambda>(_, i). (i, the (map_of (pq_transactions (high_queue q)) i))) ids @ entries (low_queue q)"
  using assms
proof (induction ids arbitrary: q)
  case Nil
  then show ?case using drain_low[of lru entries q n] by simp
next
  case (Cons a ids)
  from Cons.prems(2) show ?case
  proof (cases rule: inner_pop_cases[where lru = lru])
    case 1
    then show ?thesis using Cons.prems(3) by simp
  next
    case (2 k i rest x h)
    let ?q = "q\<lparr>high_queue := h\<rparr>"
    have a: "a = (k, i)" "ids = rest" using 2(1) Cons.prems(3) by simp_all
    have "drain lru (length ids + length (entries (low_queue ?q))) ?q =
        map (\<lambda>(_, i). (i, the (map_of (pq_transactions h) i))) ids @ entries (low_queue ?q)"
      using inner_pop_ok[OF Cons.prems(1,2) 2(3)] Cons.prems(1) 2(5) a Cons.IH[of ?q] by simp
    moreover have "distinct (vals (a # ids))" using Cons.prems(2) unfolding Cons.prems(3) by (simp add: inner_ok_def pq_ok_def)
    then have "i \<notin> set (vals ids)" using a(1) by simp
    then have "map_of (pq_transactions h) j = map_of (pq_transactions (high_queue q)) j" if "j \<in> set (vals ids)" for j
      using that 2(7) by (auto simp: AList.delete_conv')
    then have "map (\<lambda>(_, i). (i, the (map_of (pq_transactions h) i))) ids =
        map (\<lambda>(_, i). (i, the (map_of (pq_transactions (high_queue q)) i))) ids" by (intro map_cong) force+
    ultimately show ?thesis using 2(2,3) a by simp
  qed
qed

lemma inner_len_sum:
  assumes "lru_laws lru entries (capacity q)" "inner_ok entries n q" "2 * capacity q \<le> u64_max"
  shows "inner_len lru q = length (transaction_ids (high_queue q)) + length (entries (low_queue q)) \<and> inner_len lru q \<le> 2 * capacity q"
proof -
  have l: "lru_ok entries (capacity q) (low_queue q)" "pq_ok (high_queue q)" "priority_queue_len (high_queue q) \<le> capacity q"
    using assms(2) by (simp_all add: inner_ok_def)
  have "length (entries (low_queue q)) \<le> capacity q" using l(1) by (simp add: lru_ok_def)
  then show ?thesis
    using assms(3) l(3) pq_len[OF l(2)] lru_lawsD(2)[OF assms(1) l(1)] by (simp add: inner_len_def saturating_add_def)
qed

section \<open>A cache for examples\<close>

definition list_lru :: "usize \<Rightarrow> (('k \<times> 'v) list, 'k, 'v) lru_queue" where
  "list_lru cap = \<lparr>q_new = (\<lambda>_. []), q_len = length, q_contains = (\<lambda>q k. k \<in> set (keys q)),
     q_get_or_insert = (\<lambda>k v q. used cap k (case map_of q k of Some w \<Rightarrow> w | None \<Rightarrow> v) q),
     q_put = (\<lambda>k v q. (map_of q k, used cap k v q)),
     q_pop_lru = (\<lambda>q. (case q of [] \<Rightarrow> None | e # es \<Rightarrow> Some e, tl q)), q_clear = (\<lambda>_. [])\<rparr>"

lemma list_lru_laws: "lru_laws (list_lru cap) id cap"
  by (simp add: lru_laws_def list_lru_def)

definition two_queued :: "((field \<times> nat) list, nat) transactions_queue_inner" where
  "two_queued = snd (inner_insert (list_lru 2) 21 0 0 (snd (inner_insert (list_lru 2) 20 0 9 (transactions_queue_inner_new (list_lru 2) 2))))"

lemma two_queued_eq:
  "two_queued = \<lparr>capacity = 2, low_queue = [(21, 0)],
     high_queue = \<lparr>pq_counter = 1, transaction_ids = [((- 9, 0), 20)], pq_transactions = [(20, 0)]\<rparr>\<rparr>"
  by (simp add: two_queued_def inner_insert_def inner_len_def priority_queue_len_def priority_queue_insert_def list_lru_def used_def
      transactions_queue_inner_new_def priority_queue_default_def saturating_add_def u64_max_def u64_add_def)

lemma two_queued_reachable: "inner_reachable (list_lru 2) (\<lambda>i. if i = 20 then 9 else 0) 2 2 two_queued"
proof -
  let ?f = "\<lambda>i. if i = 20 then 9 else 0"
  have r: "inner_reachable (list_lru 2) ?f 2 n q \<Longrightarrow> inner_reachable (list_lru 2) ?f 2 (Suc n) (snd (inner_insert (list_lru 2) i x (?f i) q))"
    for n i x and q :: "((field \<times> nat) list, nat) transactions_queue_inner"
    by (rule inner_inserted[OF _ prod.collapse[symmetric]])
  from r[OF r[OF inner_new, of 20 0], of 21 0] show ?thesis by (simp add: two_queued_def numeral_2_eq_2)
qed

text \<open>A memory pool whose queue for executions is full of priority transactions.\<close>

definition sample_mempool ::
    "((field \<times> nat) list, (u64 \<times> nat) list, (field \<times> unit) list, (u64 \<times> unit) list, nat, nat) mempool_env" where
  "sample_mempool = \<lparr>me_vm = sample_vm, me_transactions = list_lru 1, me_solutions = list_lru 8, me_seen_transactions = list_lru 8,
     me_seen_solutions = list_lru 8, transaction_checksum = (\<lambda>_. Ok 0), solution_checksum = (\<lambda>_. Ok 0),
     me_contains_transmission = (\<lambda>_. Ok False), priority_fee_amount = (\<lambda>_. Ok 0)\<rparr>"

definition full_pool :: "((field \<times> nat) list, (u64 \<times> nat) list, (field \<times> unit) list, (u64 \<times> unit) list, nat) consensus" where
  "full_pool = \<lparr>solutions_queue = [],
     transactions_queue = \<lparr>deployments = transactions_queue_inner_new (list_lru 1) 1,
       executions = \<lparr>capacity = 1, low_queue = [],
         high_queue = \<lparr>pq_counter = 1, transaction_ids = [((- 9, 0), 20)], pq_transactions = [(20, 0)]\<rparr>\<rparr>\<rparr>,
     seen_solutions = [], seen_transactions = []\<rparr>"

section \<open>Properties\<close>

text \<open>C39. Transactions leave a queue in the order of their priority fees, and all of them do: popping a
  reachable queue until it is empty yields exactly the transactions it contains, each with a fee that is not higher than those
  before it.  A queue never holds more than twice its capacity.\<close>

theorem fees_first:
  assumes "lru_laws lru entries cap" "0 < cap" "2 * cap \<le> u64_max" "inner_reachable lru fee cap n q" "n \<le> u64_max"
  shows "sorted_wrt (\<lambda>a b. fee (fst b) \<le> fee (fst a)) (drain lru (inner_len lru q) q) \<and>
    set (keys (drain lru (inner_len lru q) q)) = {i. inner_contains lru q i} \<and> inner_len lru q \<le> 2 * cap"
proof -
  have q: "inner_ok entries n q" "fees_ok entries fee q" "capacity q = cap"
    using inner_reachable_ok[OF assms(1,2) _ assms(4,5)] assms(3) by simp_all
  have l: "lru_ok entries cap (low_queue q)" "pq_ok (high_queue q)" using q(1,3) by (simp_all add: inner_ok_def)
  let ?ids = "transaction_ids (high_queue q)" and ?low = "entries (low_queue q)"
  let ?high = "map (\<lambda>(_, i). (i, the (map_of (pq_transactions (high_queue q)) i))) ?ids"
  note len = inner_len_sum[OF _ q(1), of lru, unfolded q(3), OF assms(1,3)]
  have d: "drain lru (inner_len lru q) q = ?high @ ?low" "inner_len lru q \<le> 2 * cap"
    using drain_all[OF _ q(1) refl, of lru] len assms(1) q(3) by auto
  have "sorted_wrt (\<lambda>a b. fst a < fst b) ?ids" using l(2) by (simp add: pq_ok_def wf_bmap_def sorted_wrt_map)
  then have "sorted_wrt (\<lambda>a b. fee (snd b) \<le> fee (snd a)) ?ids"
    by (rule sorted_wrt_mono_rel[rotated]) (rule fees_of_keys[OF q(2)])
  then have "sorted_wrt (\<lambda>a b. fee (fst b) \<le> fee (fst a)) ?high" by (simp add: sorted_wrt_map case_prod_unfold)
  moreover have "\<forall>a\<in>set ?low. fee (fst a) = 0" using q(2) by (auto simp: fees_ok_def)
  then have "sorted_wrt (\<lambda>a b. fee (fst b) \<le> fee (fst a)) ?low" by (simp add: sorted_wrt_iff_nth_less)
  moreover have "set (keys (?high @ ?low)) = set (keys (pq_transactions (high_queue q))) \<union> set (keys ?low)"
  proof -
    have "keys ?high = vals ?ids" by (induction ?ids) auto
    then show ?thesis using l(2) by (simp add: pq_ok_def del: set_map map_map)
  qed
  ultimately show ?thesis
    unfolding d(1) using d(2) \<open>\<forall>a\<in>set ?low. fee (fst a) = 0\<close> lru_lawsD(3)[OF assms(1) l(1)]
    by (auto simp: sorted_wrt_append inner_contains_def simp del: set_map map_append)
qed

theorem fees_first_witness:
  "sorted_wrt (\<lambda>a b. (if fst b = 20 then 9 else (0::nat)) \<le> (if fst a = 20 then 9 else 0)) (drain (list_lru 2) (inner_len (list_lru 2) two_queued) two_queued) \<and>
   set (keys (drain (list_lru 2) (inner_len (list_lru 2) two_queued) two_queued)) = {i. inner_contains (list_lru 2) two_queued i}"
  using fees_first[OF list_lru_laws _ _ two_queued_reachable] by (simp add: u64_max_def)

text \<open>A queue can exceed its capacity: a transaction without a priority fee that arrives when the queue is
  exactly full, with some but not only priority transactions, is added and none is evicted.\<close>

theorem queue_overfull:
  assumes "lru_laws lru entries cap" "2 * cap \<le> u64_max" "inner_reachable lru fee cap n q" "n \<le> u64_max"
    "inner_len lru q = cap" "0 < priority_queue_len (high_queue q)" "priority_queue_len (high_queue q) < cap"
    "\<not> inner_contains lru q i" "inner_insert lru i x 0 q = (r, q')"
  shows "r = Ok () \<and> inner_len lru q' = cap + 1"
proof -
  have q: "inner_ok entries n q" "capacity q = cap"
    using inner_reachable_ok[OF assms(1) _ _ assms(3,4)] assms(2,6,7) by simp_all
  have l: "lru_ok entries cap (low_queue q)" "pq_ok (high_queue q)" using q by (simp_all add: inner_ok_def)
  let ?low = "q_get_or_insert lru i x (low_queue q)"
  have q': "r = Ok ()" "q' = q\<lparr>low_queue := ?low\<rparr>" using assms(5,7,9) q(2) by (auto simp: inner_insert_def Let_def split: if_splits)
  have len: "length (entries (low_queue q)) + priority_queue_len (high_queue q) = cap"
    using inner_len_sum[OF _ q(1), of lru] assms(1,2,5) q(2) pq_len[OF l(2)] by simp
  have "i \<notin> set (keys (entries (low_queue q)))"
    using assms(8) lru_lawsD(3)[OF assms(1) l(1)] by (simp add: inner_contains_def)
  then have "length (entries ?low) = Suc (length (entries (low_queue q)))"
    using len assms(6) lru_lawsD(4)[OF assms(1) l(1)] by (simp add: used_def)
  moreover have "q_len lru ?low = length (entries ?low)"
    using lru_lawsD(2)[OF assms(1) lru_ok_steps(1)[OF assms(1) l(1)]] assms(7) by simp
  ultimately show ?thesis using len assms(2,6,7) q' by (simp add: inner_len_def saturating_add_def)
qed

theorem queue_overfull_witness:
  "inner_len (list_lru 2) (snd (inner_insert (list_lru 2) 22 0 0 two_queued)) = 3 \<and> capacity two_queued = 2"
proof -
  have "inner_len (list_lru 2) two_queued = 2" "priority_queue_len (high_queue two_queued) = 1" "\<not> inner_contains (list_lru 2) two_queued 22"
    by (simp_all add: two_queued_eq inner_len_def priority_queue_len_def inner_contains_def list_lru_def saturating_add_def u64_max_def)
  then show ?thesis
    using queue_overfull[OF list_lru_laws _ two_queued_reachable _ _ _ _ _ prod.collapse[symmetric], of 22 0]
    by (simp add: u64_max_def two_queued_eq)
qed

text \<open>A transaction that was turned away, because the memory pool was full or for any other reason found
  after it was noted as seen, is dropped without an error and without another attempt when it is sent again.\<close>

theorem rejected_then_ignored:
  assumes "lru_laws (me_seen_transactions e) entries cap" "0 < cap" "lru_ok entries cap (seen_transactions c)"
    "queue_unconfirmed_transaction e x c = (Inl err, c')" "transaction_checksum e x = Ok d" "transaction_kind_of (me_vm e) x \<noteq> Fee"
  shows "\<exists>c''. queue_unconfirmed_transaction e x c' = (Ok False, c'') \<and> transactions_queue c'' = transactions_queue c'"
proof -
  let ?i = "transaction_id_of (me_vm e) x" and ?lru = "me_seen_transactions e"
  let ?seen = "snd (q_put ?lru ?i () (seen_transactions c))"
  obtain old seen where p: "q_put ?lru ?i () (seen_transactions c) = (old, seen)" by fastforce
  have "seen_transactions c' = ?seen"
    using assms(4-6) p unfolding queue_unconfirmed_transaction_def Let_def
    by (auto split: option.splits sum.splits bool.splits if_splits prod.splits)
  moreover have "lru_ok entries cap ?seen" by (rule lru_ok_steps(2)[OF assms(1,3,2)])
  moreover have "?i \<in> set (keys (entries ?seen))" using lru_lawsD(6)[OF assms(1,3)] keys_used by metis
  then have "map_of (entries ?seen) ?i \<noteq> None" by (simp add: map_of_eq_None_iff)
  ultimately have "fst (q_put ?lru ?i () (seen_transactions c')) \<noteq> None"
    using lru_lawsD(5)[OF assms(1), of ?seen ?i "()"] by simp
  then show ?thesis using assms(5,6)
    by (cases "q_put ?lru ?i () (seen_transactions c')") (auto simp: queue_unconfirmed_transaction_def)
qed

theorem rejected_then_ignored_witness:
  "queue_unconfirmed_transaction sample_mempool 5 full_pool =
     (bail ''The memory pool is full'', full_pool\<lparr>seen_transactions := [(5, ())]\<rparr>) \<and>
   (\<exists>c. queue_unconfirmed_transaction sample_mempool 5 (full_pool\<lparr>seen_transactions := [(5, ())]\<rparr>) = (Ok False, c))"
proof -
  have r: "queue_unconfirmed_transaction sample_mempool 5 full_pool =
      (bail ''The memory pool is full'', full_pool\<lparr>seen_transactions := [(5, ())]\<rparr>)"
    by (simp add: queue_unconfirmed_transaction_def sample_mempool_def sample_vm_def full_pool_def list_lru_def used_def
        transactions_queue_contains_def inner_contains_def transactions_queue_insert_def inner_insert_def inner_len_def
        priority_queue_len_def transactions_queue_inner_new_def priority_queue_default_def saturating_add_def u64_max_def)
  have "lru_laws (me_seen_transactions sample_mempool) id 8" "lru_ok id 8 (seen_transactions full_pool)"
    using list_lru_laws by (simp_all add: sample_mempool_def full_pool_def lru_ok_def)
  from rejected_then_ignored[OF this(1) _ this(2) r] show ?thesis
    using r by (auto simp: sample_mempool_def sample_vm_def)
qed

end
