(* ===== verification/Spec2Isabelle.thy ===== *)
theory Spec2Isabelle
  imports Anchors Agreement Sync_Client Confirmed Fetch Ratified Mempool
begin

text \<open>
  Verification of the consensus core of snarkOS.

  The program.  A validator collects transmissions into batches, has them signed by a quorum of the committee
  and stores the resulting certificates round by round (Narwhal).  The certificates form a directed acyclic
  graph.  Leaders elected in even rounds are the anchors of the total order (Bullshark): an anchor with
  enough support is committed together with its uncommitted past, as a subdag that becomes a block.

  Theories, from the bottom up, and the files under \<open>src/\<close> they model.

  \<^item> \<open>Prelude\<close>: results with errors, fixed-width arithmetic, index sets and maps as distinct lists.
  \<^item> \<open>Network\<close> (\<open>snarkVM/console/network/src\<close>): consensus versions and their heights, network constants.
  \<^item> \<open>Bytes\<close>, \<open>Account\<close> (\<open>snarkVM/utilities/src/bytes.rs\<close>, \<open>snarkVM/console/account/src\<close>): encodings as a locale
    of codecs, keys, signatures.  Group operations and hashes are a record \<open>crypto\<close>, a parameter.
  \<^item> \<open>Narwhal\<close> (\<open>snarkVM/ledger/narwhal/batch-header\<close>, \<open>batch-certificate\<close>, \<open>transmission-id\<close>): the data that
    validators exchange, its validation and decoding.
  \<^item> \<open>Committee\<close> (\<open>snarkVM/ledger/committee/src\<close>): stake, thresholds, leader election.
  \<^item> \<open>Storage_Service\<close> (\<open>node/bft/storage-service/src\<close>): the in-memory and the persistent store of
    transmissions, behind one interface.
  \<^item> \<open>BFT_Storage\<close> (\<open>node/bft/src/helpers/storage.rs\<close>): certificates by round, admission, garbage collection,
    synchronisation with blocks.  Reachable states are an inductive predicate.
  \<^item> \<open>DAG\<close> (\<open>node/bft/src/helpers/dag.rs\<close>): insertion, commit, reachability.
  \<^item> \<open>Traversal\<close>: the work-list loop shared by the two traversals, as a locale.
  \<^item> \<open>Subdag\<close> (\<open>snarkVM/ledger/narwhal/subdag/src\<close>): what a block contains, its checks, timestamp and encoding.
  \<^item> \<open>BFT_Order\<close>, \<open>BFT\<close> (\<open>node/bft/src/bft.rs\<close>): ordering of an anchor's past, leaving a round, committing.
  \<^item> \<open>Anchors\<close>: why validators commit the same anchors; the committee a round uses
    (\<open>node/bft/ledger-service/src/ledger.rs\<close>).
  \<^item> \<open>Transmission\<close> (\<open>snarkVM/ledger/narwhal/data\<close>, \<open>transmission\<close>): payloads as objects or bytes, checksums.
  \<^item> \<open>Proposal\<close> (\<open>node/bft/src/helpers/proposal.rs\<close>, \<open>signed_proposals.rs\<close>, \<open>proposal_cache.rs\<close>): the batch a
    validator proposes, the batches it signed, and the file that keeps both over a restart.
  \<^item> \<open>Ready\<close>, \<open>Pending\<close> (\<open>node/bft/src/helpers/ready.rs\<close>, \<open>pending.rs\<close>): the queue of transmissions of a worker
    and the requests it waits for.
  \<^item> \<open>Worker\<close> (\<open>node/bft/src/worker.rs\<close>, \<open>node/bft/src/helpers/partition.rs\<close>): transmissions from clients and
    peers, the checks of the ledger service on one transmission, the assignment to workers.
  \<^item> \<open>Primary\<close> (\<open>node/bft/src/primary.rs\<close>): proposing, signing, certifying and storing batches, catching up with
    rounds, the state saved over a restart.  A handler that waits for a peer is split where it waits.
  \<^item> \<open>Signing\<close>, \<open>Equivocation\<close>: runs of a primary that interleave the handlers of batch proposals, what it then
    signs, and an interleaving in which it signs twice.
  \<^item> \<open>Proposing\<close>, \<open>Certifying\<close>: what a primary proposes, and what becomes of a batch and of a round.
  \<^item> \<open>Agreement\<close>: the certificates of an author, from what the validators sign and propose.
  \<^item> \<open>Locators\<close> (\<open>node/sync/locators/src/block_locators.rs\<close>): the hashes by which a node announces its chain.
  \<^item> \<open>Block_Sync\<close> (\<open>node/sync/src/block_sync.rs\<close>, \<open>sync_state.rs\<close>): fetching blocks from peers.
  \<^item> \<open>Sync_Requests\<close>, \<open>Sync_Schedule\<close>: the invariant of the requests under every interleaving, and which blocks
    are requested from whom.
  \<^item> \<open>Sync_Client\<close> (\<open>node/src/client/mod.rs\<close>): the steps of a client, advancing its ledger, forks.
  \<^item> \<open>Block_Check\<close> (\<open>snarkVM/ledger/src/check_next_block.rs\<close>): the check of the subDAG of a fetched block,
    and that it is next when its content is checked.
  \<^item> \<open>Validator_Sync\<close>, \<open>Confirmed\<close> (\<open>node/bft/src/sync/mod.rs\<close>): a validator that catches up with blocks, in both of
    its modes, and why only confirmed blocks reach its ledger.
  \<^item> \<open>Fetch\<close> (the same file): fetching a certificate from another validator.
  \<^item> \<open>Targets\<close> (\<open>snarkVM/ledger/block/src/helpers/target.rs\<close>): rewards and targets of blocks.
  \<^item> \<open>Committee_Store\<close> (\<open>snarkVM/ledger/store/src/program/committee.rs\<close>): the committee in force in a round.
  \<^item> \<open>Staking\<close>, \<open>Ratified\<close> (\<open>snarkVM/synthesizer/src/vm/helpers/rewards.rs\<close>, \<open>helpers/committee.rs\<close>,
    \<open>finalize.rs\<close>): how the rewards of a block change stakes, committee and accounts, and what that preserves.
  \<^item> \<open>Mempool\<close> (\<open>node/consensus/src/transactions_queue.rs\<close>, \<open>lib.rs\<close>): the queues in front of the workers.

  State and operations.  Every struct is a record and every method a function on it that returns the new
  state; an operation that can fail returns a \<open>result\<close>, with panics and self-deadlocks as errors of their
  own.  Integers are natural numbers with saturating, checked and wrapping operations written out, as in a
  release build.  The ledger is a record of the queries the code asks, the LRU cache and the storage service
  are records of operations, and the clock is an argument.

  What is shown.  Signatures made by a key verify; every encoding is read back; the checked readers accept
  only valid data.  Two quorums share more stake than faulty validators hold, so storage never accepts two
  certificates of an author in a round; the maps of storage stay consistent, causally complete and in step
  with the stored transmissions under every operation.  The link test decides paths in the DAG; ordering an
  anchor terminates, returns exactly its uncommitted past, agrees between validators whatever garbage they collected, and gives a subdag the
  ledger accepts up to the limit on rounds.  A round is left only with a quorum, and always can be once the
  timer has expired; no certificate is committed twice; no supported anchor is skipped, and validators agree
  on the anchors below a common one.  A primary proposes once per round; while the proposals of an author are
  handled one at a time it signs one batch of the author per round, so an author gets one batch certified; if
  they interleave it may sign two.  A proposed batch is certified, still proposed, or its transmissions are
  back in the queue, except when rounds are skipped.  Over a restart the proposal is kept, with its payloads as bytes.  Locators are accepted exactly in their documented form.
  Block requests wait only for connected peers and keep only blocks that match; the heights requested are new
  and supported by peers that agree; ready blocks reach the ledger in order.  A block that the ledger rejects
  is tried forever by a client, a failed request for the newest block is not repeated, and forks from the
  own ledger are found but do not affect which peers are asked.  A block whose subDAG is accepted continues the
  chain, has a quorum behind every certificate and cannot be split at an earlier leader above the previous block; a validator adds blocks to its ledger
  only up to one that later blocks vote for, and then all of them; its passes always end; if another
  task adds the first of them in between, the others leave its queue and the retry does nothing.  A certificate asked from a peer that has it arrives.  The targets of the next block can be computed,
  stay within bounds and fall with the time that passed; rewards do not exceed the anchor reward.  Each
  round has the newest stored committee that starts by then, or lies in a gap that a removal left; taking a committee back does not restore the rounds before it, and one that starts in round 1
  cannot be taken back.  Paying the rewards of a block keeps committee, delegations and bonds consistent and adds
  no more than the rewards, up to one microcredit per staker.  Transactions
  leave the memory pool by fee and none is lost; the pool may exceed its capacity, up to twice as much, and
  a transaction that it turned away is ignored later.

  Bounds and termination.  Arithmetic facts assume that rounds plus the GC depth fit in 64 bits and that
  doubled stakes do; heights of blocks are below the limit of 32 bits.  The ordering loop, the loop that skips rounds, the two
  loops of a validator that catches up and the search for the last round of a removed committee are partial functions whose termination is a theorem; the loops of the subdag check, of the batch selection, of the search for a free height and of
  advancing with fetched blocks are total by a measure.  No fuel is
  used.

  Not modelled.  Network input and output and with it the moment at which missing certificates and transmissions arrive,
  tasks and channels, timing of the proposal task, locks beyond the self-deadlock of one method,
  metrics and logging, JSON and string formats, the execution of programs and its proofs, the databases, the block
  store behind the ledger queries, the genesis ratification, building a block from a committed subdag, the execution behind the check of the content of a block, and ledger updates by other tasks while
  a validator processes a fetched block, except right before it locks the ledger.  Hash functions and the elliptic curve are parameters with the laws they
  are used under as hypotheses.
\<close>

section \<open>A concrete pair of anchors\<close>

definition first_anchor :: batch_certificate where
  "first_anchor = plain_certificate 24 12 2 []"

definition second_anchor :: batch_certificate where
  "second_anchor = plain_certificate 44 12 4 [31, 32, 33, 34]"

definition anchor_dag :: dag where
  "anchor_dag = \<lparr>graph = [(2, [(12, first_anchor)]),
       (3, map (\<lambda>(i, a). (a, plain_certificate i a 3 [24])) [(31, 6), (32, 8), (33, 10), (34, 12)]),
       (4, [(12, second_anchor)])],
     recent_committed_ids = [], last_committed_round = 0\<rparr>"

abbreviation anchor_state :: "(nat memory_service, nat, unit) bft" where
  "anchor_state \<equiv> sample_bft sample_storage anchor_dag"

lemma anchor_fields [simp]:
  "cert_round first_anchor = 2" "cert_id first_anchor = 24" "cert_author first_anchor = 12"
  "cert_previous_ids first_anchor = []" "cert_round second_anchor = 4" "cert_id second_anchor = 44"
  "cert_author second_anchor = 12" "cert_previous_ids second_anchor = [31, 32, 33, 34]"
  "bft_dag anchor_state = anchor_dag" "bft_ledger anchor_state = sample_ledger"
  "get_committee_lookback_for_round sample_ledger r = Ok sample_committee"
  "last_committed_round anchor_dag = 0" "latest_leader anchor_state = None"
  by (simp_all add: first_anchor_def second_anchor_def sample_bft_def sample_ledger_def anchor_dag_def)

lemma anchor_graph:
  "map_of (graph anchor_dag) r =
     (if r = 2 then Some [(12, first_anchor)]
      else if r = 3 then Some (map (\<lambda>(i, a). (a, plain_certificate i a 3 [24])) [(31, 6), (32, 8), (33, 10), (34, 12)])
      else if r = 4 then Some [(12, second_anchor)] else None)"
  by (simp add: anchor_dag_def)

lemma anchor_certs:
  "dag_certs anchor_dag r =
     (if r = 2 then {first_anchor}
      else if r = 3 then (\<lambda>(i, a). plain_certificate i a 3 [24]) ` {(31, 6), (32, 8), (33, 10), (34, 12)}
      else if r = 4 then {second_anchor} else {})"
  by (simp add: dag_certs_def anchor_graph)

lemma anchor_dag_inv: "dag_inv anchor_dag"
  by (simp add: dag_inv_def graph_ok_def recent_ok_def wf_bmap_def wf_map_def anchor_dag_def)

lemma anchor_inj: "inj_on cert_id (\<Union>r. dag_certs anchor_dag r)"
proof -
  have "(\<Union>r. dag_certs anchor_dag r) =
      insert first_anchor (insert second_anchor
        ((\<lambda>(i, a). plain_certificate i a 3 [24]) ` {(31, 6), (32, 8), (33, 10), (34, 12)}))"
    by (auto simp: anchor_certs split: if_splits)
  then show ?thesis by (auto simp: inj_on_def)
qed

lemma anchor_same_round: "no_equivocation anchor_dag anchor_dag r"
  by (auto simp: no_equivocation_def anchor_certs split: if_splits)

lemma anchor_support: "is_availability_threshold_reached sample_committee (referrers anchor_dag first_anchor)"
  by (simp add: referrers_def round_list_def anchor_graph is_availability_threshold_reached_def
      combined_stake_sum sample_committee_eval u64_max_def)

lemma anchor_complete: "dag_complete sample_ledger anchor_dag 2"
proof -
  have "wf_committee sample_committee" "2 * total_stake sample_committee \<le> u64_max"
    using committee_new_wf[OF sample_committee_wf sample_committee_new]
    by (auto simp: sample_committee_fields u64_max_def)
  moreover have "is_quorum_threshold_reached sample_committee (past_authors anchor_dag second_anchor)"
    using sample_quorum by (simp add: past_authors_def round_list_def anchor_graph)
  ultimately show ?thesis by (auto simp: dag_complete_def anchor_certs split: if_splits)
qed

lemma sample_leader: "get_leader sample_crypto sample_committee 2 = Ok 12"
  by (simp add: get_leader_def sample_committee_fields sample_crypto_def scalar_modulus_def sorted_members_def
      sample_members_def saturating_add_def u64_max_def)

lemma anchor_linked: "is_linked anchor_dag first_anchor second_anchor = Ok True"
proof -
  have "link_step anchor_dag 3 [second_anchor] = Ok (map (\<lambda>(i, a). plain_certificate i a 3 [24])
      [(31, 6), (32, 8), (33, 10), (34, 12)])"
    "link_step anchor_dag 2 (map (\<lambda>(i, a). plain_certificate i a 3 [24]) [(31, 6), (32, 8), (33, 10), (34, 12)]) =
      Ok [first_anchor]"
    by (simp_all add: link_step_def dag_get_certificates_for_round_def anchor_graph)
  moreover have "rev [2 ..< 4] = [3, 2 :: nat]" by (simp add: upt_rec)
  ultimately show ?thesis by (simp add: is_linked_def)
qed

lemma anchor_walk:
  "\<exists>s'. collect_leaders sample_env [2] second_anchor [second_anchor] anchor_state =
     (Ok [first_anchor, second_anchor], s')"
  using sample_leader anchor_linked
  by (simp add: leader_of_round_def sample_env_def dag_get_certificate_for_round_with_author_def anchor_graph
      sample_bft_def)

lemma anchor_walk_cached:
  "\<exists>s'. collect_leaders sample_env [2] second_anchor [second_anchor] (anchor_state\<lparr>latest_leader := Some (2, 12)\<rparr>) =
     (Ok [first_anchor, second_anchor], s')"
  using anchor_linked
  by (simp add: leader_of_round_def dag_get_certificate_for_round_with_author_def anchor_graph)

section \<open>Properties\<close>

text \<open>C1. Anchors are not skipped.  Let some validator's DAG hold enough support for an anchor: the authors of
  the certificates of the next round that refer to it reach the availability threshold.  Then a validator
  that commits any later anchor also commits this one: the walk of \<open>commit_leader_certificate\<close> over the rounds
  since its last commit collects it.  The hypotheses on the second validator's DAG are that it holds the
  predecessors of its certificates above the anchor, with a quorum of authors as storage enforces, that the
  two validators hold no conflicting certificates in the voting round, and that IDs do not collide.\<close>

theorem anchor_not_skipped:
  assumes "dag_inv d'" "dag_inv (bft_dag s)" "dag_complete (bft_ledger s) (bft_dag s) (cert_round a)"
    and "get_committee_lookback_for_round (bft_ledger s) (cert_round a + 1) = Ok cm"
    and "is_availability_threshold_reached cm (referrers d' a)"
    and "no_equivocation d' (bft_dag s) (cert_round a + 1)"
    and "inj_on cert_id (insert a (\<Union>r. dag_certs (bft_dag s) r))"
    and "get_committee_lookback_for_round (bft_ledger s) (cert_round a) = Ok cm'"
    and "get_leader (env_crypto e) cm' (cert_round a) = Ok (cert_author a)" "leader_coherent e s"
    and "c \<in> dag_certs (bft_dag s) (cert_round c)" "even (cert_round a)" "even (cert_round c)"
    and "last_committed_round (bft_dag s) + 2 \<le> cert_round a" "cert_round a + 2 \<le> cert_round c" "cert_round c \<le> u64_max"
    and "collect_leaders e (leader_rounds (u64_add (last_committed_round (bft_dag s)) 2)
        (saturating_sub (cert_round c) 2)) c [c] s = (Ok ls, s')"
  shows "a \<in> set ls"
proof -
  let ?d = "bft_dag s"
  have c2: "2 \<le> cert_round c" using assms(15) by simp
  have past: "\<exists>q. dag_path ?d x q \<and> q \<in> dag_certs ?d (cert_round a) \<and> q = a"
    if x: "x \<in> dag_certs ?d k" "cert_round a + 2 \<le> k" for x k
  proof -
    obtain n where k: "k = cert_round a + 2 + n" using x(2) le_Suc_ex by blast
    obtain q where q: "dag_path ?d x q" "cert_round q = cert_round a" "cert_id q = cert_id a"
      using supported_in_past[OF assms(1-6), of x n] x(1) k by blast
    have "cert_round q < cert_round x" using q(2) x dag_certs_round[OF assms(2) x(1)] by simp
    then have "q \<in> dag_certs ?d (cert_round a)" using dag_path_end[OF q(1) assms(2)] q(2) by simp
    moreover from this have "q = a" using inj_onD[OF assms(7) q(3)] by blast
    ultimately show ?thesis using q(1) by blast
  qed
  have a: "a \<in> dag_certs ?d (cert_round a)" using past[OF assms(11,15)] by blast
  have inj: "\<forall>r. inj_on cert_id (dag_certs ?d r)"
    by (intro allI inj_on_subset[OF assms(7)]) blast
  have "u64_add (last_committed_round ?d) 2 = last_committed_round ?d + 2"
    using assms(14-16) by (intro u64_add_exact) simp
  then have "cert_round a \<in> set (leader_rounds (u64_add (last_committed_round ?d) 2) (saturating_sub (cert_round c) 2))"
    using assms(12-15) by (subst leader_rounds_spaced(2)[OF c2]) auto
  then show ?thesis
    using collect_leaders_meets[OF assms(2) inj _ a assms(8,9,17) refl refl assms(10,11) leader_rounds_spaced(1)[OF c2]]
      past by blast
qed

theorem anchor_not_skipped_witness:
  "\<exists>ls s'. collect_leaders sample_env (leader_rounds (u64_add (last_committed_round anchor_dag) 2)
       (saturating_sub (cert_round second_anchor) 2)) second_anchor [second_anchor] anchor_state = (Ok ls, s') \<and>
     first_anchor \<in> set ls"
proof -
  have "leader_rounds (u64_add 0 2) (saturating_sub 4 2) = [2]"
    by (simp add: leader_rounds_def u64_add_def u64_max_def saturating_sub_def upt_rec)
  then obtain ls s' where ls: "collect_leaders sample_env (leader_rounds (u64_add (last_committed_round anchor_dag) 2)
       (saturating_sub (cert_round second_anchor) 2)) second_anchor [second_anchor] anchor_state = (Ok ls, s')"
    using anchor_walk by auto
  have "insert first_anchor (\<Union>r. dag_certs anchor_dag r) = (\<Union>r. dag_certs anchor_dag r)"
    using anchor_certs[of 2] by (auto split: if_splits)
  moreover have "leader_coherent sample_env anchor_state" by (simp add: leader_coherent_def)
  ultimately have "first_anchor \<in> set ls"
    using anchor_not_skipped[of anchor_dag anchor_state first_anchor sample_committee sample_committee sample_env
        second_anchor ls s'] ls anchor_dag_inv anchor_complete anchor_support anchor_same_round anchor_inj sample_leader
    by (simp add: anchor_certs sample_env_def u64_max_def)
  then show ?thesis using ls by blast
qed

text \<open>C2. Below a common anchor two validators commit the same anchors: when both have committed up to the
  same round, hold the whole past of their certificates above it, and use the same committees, the walks
  of \<open>commit_leader_certificate\<close> from that anchor collect the same list, whatever else their DAGs hold.\<close>

theorem anchors_agree:
  assumes "dag_inv (bft_dag s)" "dag_inv (bft_dag s')"
    and "dag_complete (bft_ledger s) (bft_dag s) lo" "dag_complete (bft_ledger s') (bft_dag s') lo"
    and "inj_on cert_id (\<Union>r. dag_certs (bft_dag s) r \<union> dag_certs (bft_dag s') r)"
    and "get_committee_lookback_for_round (bft_ledger s) = get_committee_lookback_for_round (bft_ledger s')"
    and "env_crypto e = env_crypto e'" "leader_coherent e s" "leader_coherent e' s'"
    and "c \<in> dag_certs (bft_dag s) (cert_round c)" "c \<in> dag_certs (bft_dag s') (cert_round c)" "2 \<le> cert_round c"
    and "collect_leaders e (leader_rounds lo (saturating_sub (cert_round c) 2)) c [c] s = (Ok ls, s1)"
    and "collect_leaders e' (leader_rounds lo (saturating_sub (cert_round c) 2)) c [c] s' = (Ok ls', s1')"
  shows "ls = ls'"
  by (rule collect_leaders_agree[OF assms(1-7,13,14) refl refl assms(8) refl refl assms(9-11)
        leader_rounds_spaced(1)[OF assms(12)]]) (simp add: leader_rounds_spaced(2)[OF assms(12)])

theorem anchors_agree_witness:
  "\<exists>ls s1 s1'. collect_leaders sample_env [2] second_anchor [second_anchor] anchor_state = (Ok ls, s1) \<and>
     collect_leaders sample_env [2] second_anchor [second_anchor]
       (anchor_state\<lparr>latest_leader := Some (2, 12)\<rparr>) = (Ok ls, s1')"
proof -
  let ?s' = "anchor_state\<lparr>latest_leader := Some (2, 12)\<rparr>"
  have r: "leader_rounds 2 (saturating_sub (cert_round second_anchor) 2) = [2]"
    by (simp add: leader_rounds_def saturating_sub_def upt_rec)
  obtain ls s1 ls' s1' where w:
    "collect_leaders sample_env [2] second_anchor [second_anchor] anchor_state = (Ok ls, s1)"
    "collect_leaders sample_env [2] second_anchor [second_anchor] ?s' = (Ok ls', s1')"
    using anchor_walk anchor_walk_cached by blast
  have "leader_coherent sample_env anchor_state" "leader_coherent sample_env ?s'"
    using sample_leader by (simp_all add: leader_coherent_def sample_env_def)
  then have "ls = ls'"
    using anchors_agree[of anchor_state ?s' 2 sample_env sample_env second_anchor ls s1 ls' s1'] w r
      anchor_dag_inv anchor_complete anchor_inj anchor_certs[of 4] by simp
  then show ?thesis using w by blast
qed

end
